(* ===== verification/Prelude.thy ===== *)
theory Prelude
  imports Main "HOL-Library.Word" "HOL-Library.Multiset"
begin

text \<open>
  Shared vocabulary of the development: the result type of kernel code that can stop
  (an assertion that panics, an access that page-faults), its sequencing operator, the
  C integer conversions, and generic lemmas on lists, options and function updates.
\<close>

section \<open>Proof-rule collections\<close>

named_theorems kdefs \<open>definitions of kernel operations, for symbolic execution\<close>
named_theorems kinv_defs \<open>definitions of the invariant's conjuncts\<close>
named_theorems frame \<open>fields an operation leaves alone\<close>

section \<open>Machine types\<close>

type_synonym u8 = "8 word"
type_synonym u16 = "16 word"
type_synonym u32 = "32 word"
type_synonym u64 = "64 word"

section \<open>Code that may stop\<close>

text \<open>
  \<open>Panic\<close> is a call of \<open>panic\<close> (directly or through a failed \<open>assert\<close>): the model stops
  there. \<open>PageFault s\<close> is an access to an unmapped address, such as a field of a
  NULL pointer; \<open>s\<close> is the state the page-fault handler finds. \<open>UseAfterFree\<close> is an access
  to a block that was given back to the allocator, and \<open>OutOfRange\<close> one outside of an array: C
  leaves their outcome undefined, so the model stops there. \<open>Loop\<close> is a computation that never
  ends.
\<close>

datatype 's trap = Panic string | PageFault 's | UseAfterFree | OutOfRange | Loop

type_synonym ('s, 'a) result = "'s trap + 'a"

definition bindE :: "'e + 'a \<Rightarrow> ('a \<Rightarrow> 'e + 'b) \<Rightarrow> 'e + 'b" where
  "bindE r f = (case r of Inl e \<Rightarrow> Inl e | Inr x \<Rightarrow> f x)"

lemma bindE_simps [simp]:
  "bindE (Inl e) f = Inl e"
  "bindE (Inr x) f = f x"
  by (simp_all add: bindE_def)

lemma bindE_eq_Inr [simp]:
  "bindE r f = Inr y \<longleftrightarrow> (\<exists>x. r = Inr x \<and> f x = Inr y)"
  by (cases r) auto

lemma bindE_eq_Inl:
  "bindE r f = Inl e \<longleftrightarrow> r = Inl e \<or> (\<exists>x. r = Inr x \<and> f x = Inl e)"
  by (cases r) auto

lemma bindE_cong [fundef_cong]:
  "r = r' \<Longrightarrow> (\<And>x. r' = Inr x \<Longrightarrow> f x = g x) \<Longrightarrow> bindE r f = bindE r' g"
  by (cases r') auto

lemma bindE_assoc: "bindE (bindE r f) g = bindE r (\<lambda>x. bindE (f x) g)"
  by (cases r) auto

text \<open>Changing the state a page fault reports, where one component calls another.\<close>

definition lift_trap :: "('s \<Rightarrow> 't) \<Rightarrow> ('s, 'a) result \<Rightarrow> ('t, 'a) result" where
  "lift_trap f r = (case r of
      Inl (Panic m) \<Rightarrow> Inl (Panic m)
    | Inl (PageFault s) \<Rightarrow> Inl (PageFault (f s))
    | Inl UseAfterFree \<Rightarrow> Inl UseAfterFree
    | Inl OutOfRange \<Rightarrow> Inl OutOfRange
    | Inl Loop \<Rightarrow> Inl Loop
    | Inr x \<Rightarrow> Inr x)"

lemma lift_trap_simps [simp]:
  "lift_trap f (Inl (Panic m)) = Inl (Panic m)"
  "lift_trap f (Inl (PageFault s)) = Inl (PageFault (f s))"
  "lift_trap f (Inl UseAfterFree) = Inl UseAfterFree"
  "lift_trap f (Inl OutOfRange) = Inl OutOfRange"
  "lift_trap f (Inl Loop) = Inl Loop"
  "lift_trap f (Inr x) = Inr x"
  by (simp_all add: lift_trap_def)

lemma lift_trap_eq_Inr [simp]: "lift_trap f r = Inr x \<longleftrightarrow> r = Inr x"
  by (auto simp: lift_trap_def split: sum.splits trap.splits)

section \<open>C integer conversions\<close>

text \<open>A value stored in a \<open>short\<close> or an \<open>int\<close>: two's complement wrap-around.\<close>

definition to_short :: "int \<Rightarrow> int" where
  "to_short i = (i + 32768) mod 65536 - 32768"

definition to_int32 :: "int \<Rightarrow> int" where
  "to_int32 i = (i + 2147483648) mod 4294967296 - 2147483648"

lemma to_short_id [simp]: "-32768 \<le> i \<Longrightarrow> i \<le> 32767 \<Longrightarrow> to_short i = i"
  by (simp add: to_short_def)

lemma to_int32_id [simp]: "-2147483648 \<le> i \<Longrightarrow> i \<le> 2147483647 \<Longrightarrow> to_int32 i = i"
  by (simp add: to_int32_def)

lemma to_short_range: "-32768 \<le> to_short i \<and> to_short i \<le> 32767"
  using pos_mod_bound [of 65536 "i + 32768"] pos_mod_sign [of 65536 "i + 32768"]
  by (simp add: to_short_def)

section \<open>Loops that scan a table\<close>

text \<open>\<open>for (i = 0; i < n; i++) if (p(i)) { found = i; break; }\<close> over a C array.\<close>

fun first_from :: "nat \<Rightarrow> int \<Rightarrow> (int \<Rightarrow> bool) \<Rightarrow> int option" where
  "first_from 0 i p = None"
| "first_from (Suc n) i p = (if p i then Some i else first_from n (i + 1) p)"

lemma first_from_Some:
  "first_from n i p = Some j \<Longrightarrow> i \<le> j \<and> j < i + int n \<and> p j \<and> (\<forall>k. i \<le> k \<and> k < j \<longrightarrow> \<not> p k)"
proof (induction n arbitrary: i)
  case 0
  then show ?case by simp
next
  case (Suc n)
  show ?case
  proof (cases "p i")
    case True
    with Suc.prems show ?thesis by auto
  next
    case False
    with Suc.prems have "first_from n (i + 1) p = Some j" by simp
    from Suc.IH [OF this] have IH: "i + 1 \<le> j" "j < i + 1 + int n" "p j"
      and below: "\<And>k. i + 1 \<le> k \<Longrightarrow> k < j \<Longrightarrow> \<not> p k" by auto
    have "\<not> p k" if "i \<le> k" "k < j" for k
      using that False below [of k] by (cases "k = i") auto
    with IH show ?thesis by auto
  qed
qed

lemma first_from_None:
  "first_from n i p = None \<longleftrightarrow> (\<forall>k. i \<le> k \<and> k < i + int n \<longrightarrow> \<not> p k)"
proof (induction n arbitrary: i)
  case 0
  then show ?case by auto
next
  case (Suc n)
  have "(\<forall>k. i \<le> k \<and> k < i + int (Suc n) \<longrightarrow> \<not> p k) \<longleftrightarrow>
        \<not> p i \<and> (\<forall>k. i + 1 \<le> k \<and> k < (i + 1) + int n \<longrightarrow> \<not> p k)" (is "?L \<longleftrightarrow> ?R")
  proof
    assume ?R
    then have "\<not> p k" if "i \<le> k" "k < i + int (Suc n)" for k
      using that by (cases "k = i") auto
    then show ?L by blast
  qed auto
  with Suc.IH [of "i + 1"] show ?case by simp
qed

section \<open>Lists\<close>

lemma sorted_insert_takeWhile:
  fixes f :: "'a \<Rightarrow> 'b :: linorder"
  assumes "sorted (map f xs)"
  shows "sorted (map f (takeWhile (\<lambda>x. f x < f e) xs @ e # dropWhile (\<lambda>x. f x < f e) xs))"
  using assms
proof (induction xs)
  case Nil
  then show ?case by simp
next
  case (Cons x xs)
  then show ?case
    by (auto simp: not_less dest: set_takeWhileD set_dropWhileD)
qed

lemma takeWhile_dropWhile_mset:
  "mset (takeWhile P xs @ e # dropWhile P xs) = add_mset e (mset xs)"
  by (metis mset.simps(2) mset_append takeWhile_dropWhile_id union_mset_add_mset_right)

lemma takeWhile_dropWhile_set:
  "set (takeWhile P xs @ e # dropWhile P xs) = insert e (set xs)"
  by (metis set_mset_add_mset_insert set_mset_mset takeWhile_dropWhile_mset)

lemma takeWhile_dropWhile_distinct:
  "distinct (takeWhile P xs @ e # dropWhile P xs) \<longleftrightarrow> distinct xs \<and> e \<notin> set xs"
  by (metis distinct.simps(2) mset.simps(2) mset_eq_imp_distinct_iff takeWhile_dropWhile_mset)

lemma takeWhile_dropWhile_length:
  "length (takeWhile P xs @ e # dropWhile P xs) = Suc (length xs)"
  by (metis length_Cons mset.simps(2) size_mset takeWhile_dropWhile_mset)

lemma set_butlast_distinct:
  "distinct xs \<Longrightarrow> xs \<noteq> [] \<Longrightarrow> set (butlast xs) = set xs - {last xs}"
  by (induction xs rule: rev_induct) auto

lemma sorted_map_butlast: "sorted (map f xs) \<Longrightarrow> sorted (map f (butlast xs))"
  by (induction xs rule: rev_induct) (auto simp: sorted_append)

lemma sorted_map_cong: "(\<And>x. x \<in> set xs \<Longrightarrow> f x = g x) \<Longrightarrow> sorted (map f xs) = sorted (map g xs)"
  by (simp cong: map_cong)

lemma find_SomeD: "List.find P xs = Some x \<Longrightarrow> x \<in> set xs \<and> P x"
  by (induction xs) (auto split: if_splits)

lemma find_NoneD: "List.find P xs = None \<Longrightarrow> x \<in> set xs \<Longrightarrow> \<not> P x"
  by (induction xs) (auto split: if_splits)

end
