(* ===== verification/Hash.thy ===== *)
theory Hash
  imports Prelude
begin

unbundle bit_operations_syntax

text \<open>
  The hash table (\<^verbatim>\<open>kernel/hash.c\<close>): open addressing with the probe sequence of CPython's
  dictionaries, deleted slots, growth and shrinking. A key is what a \<^verbatim>\<open>void *\<close> key
  stands for; equality of keys is equality of the pointers, and the table's own comparison
  \<open>hcmp\<close> may be coarser. A slot pointer is an index into the table. A search that never
  ends is \<open>None\<close>.

  The operations that allocate take the outcome \<open>ok\<close> of \<^verbatim>\<open>mem_alloc\<close> as an argument.
\<close>

section \<open>Data\<close>

datatype slot_mode = SL_EMPTY | SL_ACTIVE | SL_DELETED

record 'k hash_slot =
  skey :: "'k option"
  svalue :: u32
  shash :: u32
  smode :: slot_mode

record 'k hash_t =
  hfill :: int
  hcount :: int
  hmask :: u32
  htable :: "'k hash_slot list"
  hfunc :: "'k \<Rightarrow> u32"
  hcmp :: "'k \<Rightarrow> 'k \<Rightarrow> bool"

abbreviation HASH_MINSIZE :: int where "HASH_MINSIZE \<equiv> 8"

definition empty_slot :: "'k hash_slot" where
  "empty_slot = \<lparr>skey = None, svalue = 0, shash = 0, smode = SL_EMPTY\<rparr>"

section \<open>Operations\<close>

definition hash_initialize :: "bool \<Rightarrow> int \<Rightarrow> 'k hash_t \<Rightarrow> int \<times> 'k hash_t" where
  "hash_initialize ok sz ht =
     (if \<not> ok then (-1, ht)
      else (0, ht\<lparr>hfill := 0, hcount := 0, hmask := of_int (sz - 1), htable := replicate (nat sz) empty_slot\<rparr>))"

definition slot_matches :: "'k hash_t \<Rightarrow> 'k \<Rightarrow> u32 \<Rightarrow> 'k hash_slot \<Rightarrow> bool" where
  "slot_matches ht k hash slot \<longleftrightarrow> smode slot = SL_ACTIVE \<and>
     (case skey slot of None \<Rightarrow> False | Some k' \<Rightarrow> k' = k \<or> shash slot = hash \<and> hcmp ht k' k)"

partial_function (option) hash_lookup_loop ::
    "'k hash_t \<Rightarrow> 'k \<Rightarrow> u32 \<Rightarrow> u32 \<Rightarrow> u32 \<Rightarrow> nat option \<Rightarrow> nat option" where
  "hash_lookup_loop ht k hash index perturb freeslot =
     (let i = unat (index AND hmask ht); slot = htable ht ! i in
      if smode slot = SL_EMPTY then Some (case freeslot of None \<Rightarrow> i | Some f \<Rightarrow> f)
      else if slot_matches ht k hash slot then Some i
      else
        hash_lookup_loop ht k hash (5 * index + perturb + 1) (drop_bit 5 perturb)
          (if smode slot = SL_DELETED \<and> freeslot = None then Some i else freeslot))"

definition hash_lookup :: "'k hash_t \<Rightarrow> 'k \<Rightarrow> u32 \<Rightarrow> nat option" where
  "hash_lookup ht k hash = hash_lookup_loop ht k hash (hash AND hmask ht) hash None"

text \<open>The body of the loop of \<^verbatim>\<open>hash_copy\<close>.\<close>

definition copy_slot :: "'k hash_slot \<Rightarrow> 'k hash_t \<Rightarrow> 'k hash_t option" where
  "copy_slot old ht =
     (if smode old \<noteq> SL_ACTIVE then Some ht
      else case skey old of
        None \<Rightarrow> Some ht
      | Some k \<Rightarrow>
          map_option (\<lambda>i. ht\<lparr>htable := (htable ht)[i := \<lparr>skey = Some k, svalue = svalue old, shash = shash old, smode = SL_ACTIVE\<rparr>],
                              hfill := hfill ht + 1, hcount := hcount ht + 1\<rparr>)
            (hash_lookup ht k (hfunc ht k)))"

fun hash_copy :: "'k hash_slot list \<Rightarrow> 'k hash_t \<Rightarrow> 'k hash_t option" where
  "hash_copy [] ht = Some ht"
| "hash_copy (old # oldtable) ht = Option.bind (copy_slot old ht) (hash_copy oldtable)"

definition hash_update :: "bool \<Rightarrow> 'k hash_t \<Rightarrow> (int \<times> 'k hash_t) option" where
  "hash_update ok ht =
     (let old_size = sint (hmask ht + 1);
          resize = (\<lambda>new_size.
            case hash_initialize ok new_size ht of
              (r, ht') \<Rightarrow> if r = -1 then Some (-1, ht') else map_option (Pair 0) (hash_copy (htable ht) ht'))
      in if to_int32 (3 * hfill ht) \<ge> to_int32 (2 * old_size) then
           let new_size = to_int32 (2 * old_size)
           in if new_size < old_size then Some (-1, ht) else resize new_size
         else if old_size > HASH_MINSIZE \<and> to_int32 (4 * hcount ht) \<le> old_size then resize (old_size div 2)
         else Some (0, ht))"

definition hash_init :: "bool \<Rightarrow> ('k \<Rightarrow> u32) \<Rightarrow> ('k \<Rightarrow> 'k \<Rightarrow> bool) \<Rightarrow> 'k hash_t \<Rightarrow> int \<times> 'k hash_t" where
  "hash_init ok f c ht =
     (case hash_initialize ok HASH_MINSIZE ht of
        (r, ht) \<Rightarrow> if r = -1 then (-1, ht) else (0, ht\<lparr>hfunc := f, hcmp := c\<rparr>))"

text \<open>The calls with a table that is not NULL; the search is \<open>None\<close> if it does not end.\<close>

definition hash_isset :: "'k hash_t \<Rightarrow> 'k \<Rightarrow> bool option" where
  "hash_isset ht k = map_option (\<lambda>i. smode (htable ht ! i) = SL_ACTIVE) (hash_lookup ht k (hfunc ht k))"

definition hash_get :: "'k hash_t \<Rightarrow> 'k \<Rightarrow> u32 \<Rightarrow> u32 option" where
  "hash_get ht k default_value =
     map_option (\<lambda>i. let slot = htable ht ! i in
         if smode slot = SL_ACTIVE then svalue slot else default_value)
       (hash_lookup ht k (hfunc ht k))"

definition hash_set :: "bool \<Rightarrow> 'k \<Rightarrow> u32 \<Rightarrow> 'k hash_t \<Rightarrow> (int \<times> 'k hash_t) option" where
  "hash_set ok k v ht =
     Option.bind (hash_lookup ht k (hfunc ht k)) (\<lambda>i.
       let slot = htable ht ! i in
       if smode slot = SL_ACTIVE then Some (0, ht\<lparr>htable := (htable ht)[i := slot\<lparr>svalue := v\<rparr>]\<rparr>)
       else
         let ht = ht\<lparr>hcount := hcount ht + 1\<rparr>;
             ht = (if smode slot = SL_EMPTY then ht\<lparr>hfill := hfill ht + 1\<rparr> else ht)
         in hash_update ok
              (ht\<lparr>htable := (htable ht)[i := \<lparr>skey = Some k, svalue = v, shash = hfunc ht k, smode = SL_ACTIVE\<rparr>]\<rparr>))"

definition hash_del :: "bool \<Rightarrow> 'k \<Rightarrow> 'k hash_t \<Rightarrow> (int \<times> 'k hash_t) option" where
  "hash_del ok k ht =
     Option.bind (hash_lookup ht k (hfunc ht k)) (\<lambda>i.
       if smode (htable ht ! i) \<noteq> SL_ACTIVE then Some (0, ht)
       else
         hash_update ok
           (ht\<lparr>htable := (htable ht)[i := \<lparr>skey = None, svalue = 0, shash = 0, smode = SL_DELETED\<rparr>],
                hcount := hcount ht - 1\<rparr>))"

text \<open>The predefined hash functions and comparisons.\<close>

definition hash_direct_cmp :: "u32 \<Rightarrow> u32 \<Rightarrow> bool" where
  "hash_direct_cmp key1 key2 \<longleftrightarrow> key1 = key2"

definition hash_direct_hfunc :: "u32 \<Rightarrow> u32" where
  "hash_direct_hfunc k = k"

text \<open>A \<^verbatim>\<open>char *\<close> key: its address and the characters found there.\<close>

type_synonym cstr = "u32 \<times> string"

definition hash_string_cmp :: "cstr \<Rightarrow> cstr \<Rightarrow> bool" where
  "hash_string_cmp key1 key2 \<longleftrightarrow> snd key1 = snd key2"

definition hash_string_hfunc :: "cstr \<Rightarrow> u32" where
  "hash_string_hfunc k = foldl (\<lambda>hash c. (push_bit 5 hash + hash) XOR scast (of_char c :: u8)) 5381 (snd k)"

definition hash_init_direct :: "bool \<Rightarrow> u32 hash_t \<Rightarrow> int \<times> u32 hash_t" where
  "hash_init_direct ok ht = hash_init ok hash_direct_hfunc hash_direct_cmp ht"

definition hash_init_string :: "bool \<Rightarrow> cstr hash_t \<Rightarrow> int \<times> cstr hash_t" where
  "hash_init_string ok ht = hash_init ok hash_string_hfunc hash_string_cmp ht"

section \<open>The probe sequence visits every slot\<close>

lemma pow5_step: "\<exists>u. (5::int) ^ (2 ^ k) = 1 + 2 ^ (k + 2) * (2 * u + 1)"
proof (induction k)
  case 0
  show ?case by (rule exI [of _ 0]) simp
next
  case (Suc k)
  then obtain u where u: "(5::int) ^ (2 ^ k) = 1 + 2 ^ (k + 2) * (2 * u + 1)" by blast
  let ?t = "2 ^ (k + 1) * (2 * u + 1) ^ 2 :: int"
  have "(5::int) ^ (2 ^ Suc k) = (5 ^ (2 ^ k)) ^ 2" by (simp add: power_mult [symmetric] mult.commute)
  also have "\<dots> = 1 + 2 ^ (Suc k + 2) * ((2 * u + 1) + ?t)"
    unfolding u by (simp add: power2_eq_square algebra_simps power_add)
  also have "(2 * u + 1) + ?t = 2 * (u + 2 ^ k * (2 * u + 1) ^ 2) + 1" by simp
  finally show ?case by blast
qed

lemma pow5_period: "(2::int) ^ (k + 2) dvd 5 ^ n - 1 \<Longrightarrow> (2::nat) ^ k dvd n"
proof (induction k)
  case 0
  then show ?case by simp
next
  case (Suc k)
  have "(2::int) ^ (k + 2) dvd 2 ^ (Suc k + 2)" by (intro le_imp_power_dvd) simp
  from this Suc.prems have "(2::int) ^ (k + 2) dvd 5 ^ n - 1" by (rule dvd_trans)
  with Suc.IH obtain m where m: "n = 2 ^ k * m" by (auto elim: dvdE)
  obtain u where u: "(5::int) ^ (2 ^ k) = 1 + 2 ^ (k + 2) * (2 * u + 1)" using pow5_step by blast
  have expand: "\<exists>q. (1 + 2 ^ (k + 2) * (2 * u + 1)) ^ j = 1 + 2 ^ (k + 2) * (int j + 2 * q)" for j
  proof (induction j)
    case 0
    show ?case by (rule exI [of _ 0]) simp
  next
    case (Suc j)
    then obtain q where q: "(1 + 2 ^ (k + 2) * (2 * u + 1)) ^ j = 1 + 2 ^ (k + 2) * (int j + 2 * q)" by blast
    have "(1 + 2 ^ (k + 2) * (2 * u + 1)) ^ Suc j = (1 + 2 ^ (k + 2) * (2 * u + 1)) * (1 + 2 ^ (k + 2) * (int j + 2 * q))"
      by (simp only: power_Suc q)
    also have "\<dots> = 1 + 2 ^ (k + 2) * (int (Suc j) + 2 * (q + u + 2 ^ (k + 1) * ((2 * u + 1) * (int j + 2 * q))))"
      by (simp add: algebra_simps power_add)
    finally show ?case by blast
  qed
  from expand [of m] obtain q where q: "(5::int) ^ n = 1 + 2 ^ (k + 2) * (int m + 2 * q)"
    unfolding m power_mult u by blast
  from Suc.prems have "(2::int) ^ (k + 2) * 2 dvd 2 ^ (k + 2) * (int m + 2 * q)" by (simp add: q mult.commute)
  then have "2 dvd int m + 2 * q" by (simp only: dvd_mult_cancel_left) auto
  then have "even m" by simp
  then show ?case by (simp add: m mult.commute)
qed

text \<open>The recurrence \<open>x \<mapsto> 5 x + 1\<close> has full period modulo a power of two.\<close>

fun lcg :: "int \<Rightarrow> nat \<Rightarrow> int" where
  "lcg x 0 = x"
| "lcg x (Suc n) = 5 * lcg x n + 1"

lemma lcg_closed: "4 * lcg x n + 1 = 5 ^ n * (4 * x + 1)"
  by (induction n) (simp_all add: algebra_simps)

lemma lcg_inj:
  assumes "i \<le> j" "j < 2 ^ k" "lcg x i mod 2 ^ k = lcg x j mod 2 ^ k"
  shows "i = j"
proof -
  have "(2::int) ^ k dvd lcg x j - lcg x i" using assms(3) [symmetric] by (simp add: mod_eq_dvd_iff)
  then have "4 * 2 ^ k dvd 4 * (lcg x j - lcg x i)" by (intro mult_dvd_mono) auto
  also have "4 * (lcg x j - lcg x i) = (5 ^ j - 5 ^ i) * (4 * x + 1)"
    using lcg_closed [of x i] lcg_closed [of x j] by (simp add: algebra_simps)
  also have "\<dots> = (5 ^ i * (4 * x + 1)) * (5 ^ (j - i) - 1)"
    using assms(1) by (simp add: algebra_simps flip: power_add)
  finally have "(2::int) ^ (k + 2) dvd (5 ^ i * (4 * x + 1)) * (5 ^ (j - i) - 1)" by (simp add: power_add mult.commute)
  moreover have "coprime ((2::int) ^ (k + 2)) (5 ^ i * (4 * x + 1))"
    unfolding coprime_power_left_iff by (simp add: coprime_left_2_iff_odd)
  ultimately have "(2::int) ^ (k + 2) dvd 5 ^ (j - i) - 1" by (simp add: coprime_dvd_mult_right_iff)
  then have "2 ^ k dvd j - i" by (rule pow5_period)
  moreover have "j - i < 2 ^ k" using assms(2) by simp
  ultimately show "i = j" using assms(1) by (metis dvd_imp_le not_le diff_is_0_eq le_antisym zero_less_iff_neq_zero)
qed

lemma lcg_covers:
  assumes "j < 2 ^ k"
  shows "\<exists>n < 2 ^ k. lcg x n mod 2 ^ k = int j"
proof -
  let ?f = "\<lambda>n. nat (lcg x n mod 2 ^ k)"
  have "inj_on ?f {..<2 ^ k}"
  proof (rule inj_onI)
    fix a b assume ab: "a \<in> {..<2 ^ k}" "b \<in> {..<2 ^ k}" "?f a = ?f b"
    then have "lcg x a mod 2 ^ k = lcg x b mod 2 ^ k" by (simp add: eq_nat_nat_iff)
    with ab lcg_inj [of a b k x] lcg_inj [of b a k x] show "a = b" by (cases "a \<le> b") auto
  qed
  moreover have "?f ` {..<2 ^ k} \<subseteq> {..<2 ^ k}" by (auto simp: nat_less_iff)
  ultimately have "?f ` {..<2 ^ k} = {..<2 ^ k}" by (intro endo_inj_surj) auto
  with assms have "j \<in> ?f ` {..<2 ^ k}" by simp
  then obtain n where "n < 2 ^ k" "j = ?f n" by blast
  then show ?thesis by (intro exI [of _ n]) simp
qed

text \<open>The states of the search loop: the pair of \<open>index\<close> and \<open>perturb\<close> after \<open>n\<close> rounds.\<close>

fun probe :: "u32 \<Rightarrow> u32 \<Rightarrow> nat \<Rightarrow> u32 \<times> u32" where
  "probe mk hash 0 = (hash AND mk, hash)"
| "probe mk hash (Suc n) = (case probe mk hash n of (i, p) \<Rightarrow> (5 * i + p + 1, drop_bit 5 p))"

definition pslot :: "u32 \<Rightarrow> u32 \<Rightarrow> nat \<Rightarrow> nat" where
  "pslot mk hash n = unat (fst (probe mk hash n) AND mk)"

lemma probe_perturb: "snd (probe mk hash n) = drop_bit (5 * n) hash"
  by (induction n) (simp_all add: split_beta drop_bit_drop_bit add.commute)

lemma drop_bit_all: "32 \<le> n \<Longrightarrow> drop_bit n (w :: u32) = 0"
  by (rule bit_word_eqI) (auto simp: bit_drop_bit_eq dest: bit_imp_le_length)

lemma and_mask_mod: "unat ((x :: u32) AND mask k) = unat x mod 2 ^ k"
  unfolding take_bit_eq_mask [symmetric] unsigned_take_bit_eq by (rule take_bit_eq_mod)

lemma uint_mod_wrap: "k \<le> 32 \<Longrightarrow> uint (5 * (x :: u32) + 1) mod 2 ^ k = (5 * uint x + 1) mod 2 ^ k"
proof -
  assume "k \<le> 32"
  then have d: "(2::int) ^ k dvd 2 ^ 32" by (intro le_imp_power_dvd)
  have "uint (5 * x + 1) = (5 * uint x + 1) mod 2 ^ 32" by (simp add: uint_word_ariths mod_simps)
  with d show ?thesis by (simp add: mod_mod_cancel)
qed

lemma probe_lcg:
  assumes "k \<le> 32"
  shows "uint (fst (probe mk hash (7 + n))) mod 2 ^ k = lcg (uint (fst (probe mk hash 7))) n mod 2 ^ k"
proof (induction n)
  case (Suc n)
  have p0: "snd (probe mk hash (7 + n)) = 0" by (simp add: probe_perturb drop_bit_all)
  have "uint (fst (probe mk hash (7 + Suc n))) mod 2 ^ k = (5 * uint (fst (probe mk hash (7 + n))) + 1) mod 2 ^ k"
    using uint_mod_wrap [OF assms] p0 by (simp only: add_Suc_right probe.simps) (simp add: split_beta)
  also have "\<dots> = (5 * (uint (fst (probe mk hash (7 + n))) mod 2 ^ k) + 1) mod 2 ^ k"
    by (metis mod_add_left_eq mod_mult_right_eq)
  also have "\<dots> = (5 * lcg (uint (fst (probe mk hash 7))) n + 1) mod 2 ^ k" 
    unfolding Suc.IH by (metis mod_add_left_eq mod_mult_right_eq)
  finally show ?case by simp
qed simp

text \<open>Every slot is reached within \<open>7 + size\<close> rounds.\<close>

lemma probe_covers:
  assumes "k \<le> 32" "j < 2 ^ k"
  shows "\<exists>n < 7 + 2 ^ k. pslot (mask k) hash n = j"
proof -
  from lcg_covers [OF assms(2)] obtain n where n: "n < 2 ^ k"
    "lcg (uint (fst (probe (mask k) hash 7))) n mod 2 ^ k = int j" by blast
  then have "uint (fst (probe (mask k) hash (7 + n))) mod 2 ^ k = int j" using probe_lcg [OF assms(1)] by metis
  then have "int (unat (fst (probe (mask k) hash (7 + n))) mod 2 ^ k) = int j" by (simp add: zmod_int)
  then have "unat (fst (probe (mask k) hash (7 + n))) mod 2 ^ k = j" by linarith
  then have "pslot (mask k) hash (7 + n) = j" by (simp add: pslot_def and_mask_mod)
  with n(1) show ?thesis by (intro exI [of _ "7 + n"]) simp
qed

lemma pslot_less: "k \<le> 32 \<Longrightarrow> pslot (mask k) hash n < 2 ^ k"
  by (simp add: pslot_def and_mask_mod)

end
