(* ===== verification/Hash_Map.thy ===== *)
theory Hash_Map
  imports Hash
begin

text \<open>
  The hash table implements a finite map, for every hash function and comparison that
  respect each other. The laws they must satisfy are the locale \<open>hash_keys\<close>; both pairs of
  functions of \<^verbatim>\<open>hash.c\<close> are instances.
\<close>

section \<open>Well-formed tables\<close>

definition live :: "'k hash_slot \<Rightarrow> bool" where
  "live s \<longleftrightarrow> smode s = SL_ACTIVE"

definition has_key :: "('k \<Rightarrow> 'k \<Rightarrow> bool) \<Rightarrow> 'k \<Rightarrow> 'k hash_slot \<Rightarrow> bool" where
  "has_key eq k s \<longleftrightarrow> live s \<and> (case skey s of None \<Rightarrow> False | Some k' \<Rightarrow> eq k' k)"

text \<open>The map a list of slots stands for, and a table.\<close>

definition labs :: "('k \<Rightarrow> 'k \<Rightarrow> bool) \<Rightarrow> 'k hash_slot list \<Rightarrow> 'k \<Rightarrow> u32 option" where
  "labs eq ss k = map_option svalue (List.find (has_key eq k) ss)"

definition habs :: "'k hash_t \<Rightarrow> 'k \<Rightarrow> u32 option" where
  "habs m k = labs (hcmp m) (htable m) k"

text \<open>A slot the search for \<open>hash\<close> comes to before any slot that was never used.\<close>

definition reach :: "'k hash_t \<Rightarrow> u32 \<Rightarrow> nat \<Rightarrow> bool" where
  "reach m hash j \<longleftrightarrow> (\<exists>n. pslot (hmask m) hash n = j \<and>
     (\<forall>i < n. smode (htable m ! pslot (hmask m) hash i) \<noteq> SL_EMPTY))"

definition slots_ok :: "('k \<Rightarrow> u32) \<Rightarrow> ('k \<Rightarrow> 'k \<Rightarrow> bool) \<Rightarrow> 'k hash_slot list \<Rightarrow> bool" where
  "slots_ok hf eq ss \<longleftrightarrow> (\<forall>s \<in> set ss. live s \<longrightarrow> (\<exists>k. skey s = Some k \<and> shash s = hf k)) \<and>
     (\<forall>i j k. i < length ss \<and> j < length ss \<and> i \<noteq> j \<and> live (ss ! i) \<and> skey (ss ! i) = Some k \<longrightarrow> \<not> has_key eq k (ss ! j))"

definition used :: "'k hash_slot list \<Rightarrow> nat" where
  "used ss = length (filter (\<lambda>s. smode s \<noteq> SL_EMPTY) ss)"

definition alive :: "'k hash_slot list \<Rightarrow> nat" where
  "alive ss = length (filter live ss)"

definition hwf :: "'k hash_t \<Rightarrow> bool" where
  "hwf m \<longleftrightarrow> (\<exists>b. 3 \<le> b \<and> b \<le> 29 \<and> hmask m = mask b \<and> length (htable m) = 2 ^ b) \<and>
     hfill m = int (used (htable m)) \<and> hcount m = int (alive (htable m)) \<and> used (htable m) < length (htable m) \<and>
     slots_ok (hfunc m) (hcmp m) (htable m) \<and>
     (\<forall>i k. i < length (htable m) \<and> live (htable m ! i) \<and> skey (htable m ! i) = Some k \<longrightarrow> reach m (hfunc m k) i)"

text \<open>Between two operations at most two thirds of the slots have been used.\<close>

definition hash_ok :: "'k hash_t \<Rightarrow> bool" where
  "hash_ok m \<longleftrightarrow> hwf m \<and> 3 * hfill m < 2 * int (length (htable m))"

lemma hwfD:
  assumes "hwf m"
  obtains b where "3 \<le> b" "b \<le> 29" "hmask m = mask b" "length (htable m) = 2 ^ b"
    "hfill m = int (used (htable m))" "hcount m = int (alive (htable m))" "used (htable m) < length (htable m)"
    "slots_ok (hfunc m) (hcmp m) (htable m)"
  using assms unfolding hwf_def by blast

lemma hwf_reach: "hwf m \<Longrightarrow> i < length (htable m) \<Longrightarrow> live (htable m ! i) \<Longrightarrow> skey (htable m ! i) = Some k \<Longrightarrow> reach m (hfunc m k) i"
  by (simp add: hwf_def)

lemma slots_okD:
  assumes "slots_ok hf eq ss"
  shows "s \<in> set ss \<Longrightarrow> live s \<Longrightarrow> \<exists>k. skey s = Some k \<and> shash s = hf k"
    and "i < length ss \<Longrightarrow> j < length ss \<Longrightarrow> i \<noteq> j \<Longrightarrow> live (ss ! i) \<Longrightarrow> skey (ss ! i) = Some k \<Longrightarrow> \<not> has_key eq k (ss ! j)"
  using assms unfolding slots_ok_def by blast+

lemma reach_less: "hwf m \<Longrightarrow> reach m hash j \<Longrightarrow> j < length (htable m)"
  by (auto simp: hwf_def reach_def pslot_less)

lemma length_filter_update:
  "i < length xs \<Longrightarrow> int (length (filter P (xs[i := x]))) =
     int (length (filter P xs)) - (if P (xs ! i) then 1 else 0) + (if P x then 1 else 0)"
proof (induction xs arbitrary: i)
  case (Cons y xs)
  show ?case
  proof (cases i)
    case (Suc j)
    with Cons.IH [of j] Cons.prems show ?thesis by (auto split: if_splits)
  qed simp
qed simp

lemma alive_le_used: "alive ss \<le> used ss"
  unfolding alive_def used_def live_def by (induction ss) auto

section \<open>Searching\<close>

text \<open>The first deleted slot among those visited.\<close>

fun ffree :: "'k hash_t \<Rightarrow> u32 \<Rightarrow> nat \<Rightarrow> nat option" where
  "ffree m hash 0 = None"
| "ffree m hash (Suc n) =
     (if smode (htable m ! pslot (hmask m) hash n) = SL_DELETED \<and> ffree m hash n = None
      then Some (pslot (hmask m) hash n) else ffree m hash n)"

lemma ffree_Some:
  "ffree m hash n = Some f \<Longrightarrow> \<exists>i < n. f = pslot (hmask m) hash i \<and> smode (htable m ! f) = SL_DELETED"
  by (induction n) (auto split: if_splits intro: less_SucI)

definition stop :: "'k hash_t \<Rightarrow> 'k \<Rightarrow> u32 \<Rightarrow> nat \<Rightarrow> bool" where
  "stop m k hash n \<longleftrightarrow> smode (htable m ! pslot (hmask m) hash n) = SL_EMPTY \<or>
     slot_matches m k hash (htable m ! pslot (hmask m) hash n)"

lemma lookup_run:
  assumes "\<forall>i < n. \<not> stop m k hash i"
  shows "hash_lookup m k hash =
    hash_lookup_loop m k hash (fst (probe (hmask m) hash n)) (snd (probe (hmask m) hash n)) (ffree m hash n)"
  using assms
proof (induction n)
  case 0
  show ?case by (simp add: hash_lookup_def)
next
  case (Suc n)
  then have IH: "hash_lookup m k hash =
      hash_lookup_loop m k hash (fst (probe (hmask m) hash n)) (snd (probe (hmask m) hash n)) (ffree m hash n)" by simp
  have "\<not> stop m k hash n" using Suc.prems by simp
  then show ?case
    unfolding IH by (subst hash_lookup_loop.simps) (simp add: stop_def pslot_def split_beta Let_def)
qed

lemma lookup_stop:
  assumes "\<forall>i < n. \<not> stop m k hash i" "stop m k hash n"
  shows "hash_lookup m k hash = Some (if slot_matches m k hash (htable m ! pslot (hmask m) hash n)
    then pslot (hmask m) hash n else case ffree m hash n of None \<Rightarrow> pslot (hmask m) hash n | Some f \<Rightarrow> f)"
  unfolding lookup_run [OF assms(1)] using assms(2)
  by (subst hash_lookup_loop.simps) (auto simp: stop_def pslot_def slot_matches_def Let_def split: option.splits)

lemma empty_slot_exists: "used ss < length ss \<Longrightarrow> \<exists>j < length ss. smode (ss ! j) = SL_EMPTY"
  unfolding used_def by (metis (mono_tags, lifting) filter_True in_set_conv_nth less_irrefl)

text \<open>Every search ends, because some slot was never used and the probe sequence comes to it.\<close>

lemma stop_exists:
  assumes "hwf m"
  shows "\<exists>n. stop m k hash n \<and> (\<forall>i < n. \<not> stop m k hash i)"
proof -
  from assms obtain b where b: "b \<le> 29" "hmask m = mask b" "length (htable m) = 2 ^ b" "used (htable m) < length (htable m)"
    by (rule hwfD)
  from empty_slot_exists [OF b(4)] obtain j where j: "j < 2 ^ b" "smode (htable m ! j) = SL_EMPTY" using b(3) by auto
  from probe_covers [of b j hash] b(1) j(1) obtain n where "pslot (mask b) hash n = j" by auto
  then have "stop m k hash n" using j(2) b(2) by (simp add: stop_def)
  then show ?thesis using exists_least_iff [of "stop m k hash"] by blast
qed

lemma find_update: "\<not> P x \<Longrightarrow> \<not> P (xs ! i) \<Longrightarrow> List.find P (xs[i := x]) = List.find P xs"
proof (induction xs arbitrary: i)
  case (Cons y xs)
  then show ?case by (cases i) auto
qed simp

lemma reach_mono:
  assumes "reach m hash j" "hmask m' = hmask m"
    "\<And>i. smode (htable m ! i) \<noteq> SL_EMPTY \<Longrightarrow> smode (htable m' ! i) \<noteq> SL_EMPTY"
  shows "reach m' hash j"
  using assms unfolding reach_def by metis

text \<open>A table without deleted slots, as a new one is.\<close>

definition clean :: "'k hash_t \<Rightarrow> bool" where
  "clean m \<longleftrightarrow> (\<forall>t \<in> set (htable m). smode t \<noteq> SL_DELETED)"

text \<open>Sizes as the code computes them.\<close>

lemma pow_le_29: "b \<le> 29 \<Longrightarrow> (2::int) ^ b \<le> 536870912"
  using power_increasing [of b 29 "2::int"] by simp

lemma sint_size: "b \<le> 29 \<Longrightarrow> sint (mask b + 1 :: u32) = 2 ^ b"
proof -
  assume b: "b \<le> 29"
  have "(mask b + 1 :: u32) = of_int (2 ^ b)" by (simp add: mask_eq_exp_minus_1)
  then have "sint (mask b + 1 :: u32) = signed_take_bit 31 (2 ^ b)" by (simp only: signed_of_int) simp
  also have "\<dots> = 2 ^ b"
    using pow_le_29 [OF b] by (simp add: signed_take_bit_eq_take_bit_shift take_bit_eq_mod)
  finally show ?thesis .
qed

definition fresh_table :: "nat \<Rightarrow> 'k hash_t \<Rightarrow> 'k hash_t" where
  "fresh_table b m = m\<lparr>hfill := 0, hcount := 0, hmask := of_int (2 ^ b - 1), htable := replicate (2 ^ b) empty_slot\<rparr>"

lemma hwf_fresh:
  assumes "3 \<le> b" "b \<le> 29"
  shows "hwf (fresh_table b m)" "clean (fresh_table b m)" "used (htable (fresh_table b m)) = 0"
proof -
  have "used (replicate (2 ^ b) empty_slot) = 0" "alive (replicate (2 ^ b) empty_slot) = 0"
    by (simp_all add: used_def alive_def live_def empty_slot_def)
  moreover have "(of_int (2 ^ b - 1) :: u32) = mask b" by (simp add: mask_eq_exp_minus_1)
  moreover have "slots_ok f c (replicate (2 ^ b) empty_slot)" for f c
    by (auto simp: slots_ok_def live_def empty_slot_def)
  ultimately show "hwf (fresh_table b m)" "clean (fresh_table b m)" "used (htable (fresh_table b m)) = 0" using assms
    unfolding hwf_def fresh_table_def by (auto simp: clean_def live_def empty_slot_def)
qed

section \<open>The laws of keys\<close>

locale hash_keys =
  fixes hf :: "'k \<Rightarrow> u32" and eq :: "'k \<Rightarrow> 'k \<Rightarrow> bool"
  assumes eq_refl: "eq k k"
    and eq_sym: "eq k l \<Longrightarrow> eq l k"
    and eq_trans: "eq j k \<Longrightarrow> eq k l \<Longrightarrow> eq j l"
    and eq_hash: "eq k l \<Longrightarrow> hf k = hf l"
begin

lemma eq_cong: "eq k l \<Longrightarrow> eq k x = eq l x"
proof
  assume e: "eq k l"
  show "eq k x \<Longrightarrow> eq l x" by (rule eq_trans [OF eq_sym [OF e]])
  show "eq l x \<Longrightarrow> eq k x" by (rule eq_trans [OF e])
qed

lemma has_key_cong:
  assumes "eq k l" shows "has_key eq k = has_key eq l"
proof -
  have "eq x k = eq x l" for x
  proof
    show "eq x k \<Longrightarrow> eq x l" by (rule eq_trans [OF _ assms])
    show "eq x l \<Longrightarrow> eq x k" by (rule eq_trans [OF _ eq_sym [OF assms]])
  qed
  then show ?thesis by (intro ext) (simp add: has_key_def split: option.splits)
qed

lemma labs_cong: "eq k l \<Longrightarrow> labs eq ss k = labs eq ss l"
  unfolding labs_def by (simp add: has_key_cong [of k l])

lemma labs_at:
  assumes ok: "slots_ok hf eq ss" and i: "i < length ss" "has_key eq k (ss ! i)"
  shows "labs eq ss k = Some (svalue (ss ! i))"
proof -
  from i(2) obtain k' where k': "live (ss ! i)" "skey (ss ! i) = Some k'" "eq k' k"
    by (auto simp: has_key_def split: option.splits)
  have "\<not> has_key eq k (ss ! j)" if "j < i" for j
    unfolding has_key_cong [OF eq_sym [OF k'(3)]]
    by (rule slots_okD(2) [OF ok i(1) _ _ k'(1,2)]) (use that i(1) in auto)
  with i have "List.find (has_key eq k) ss = Some (ss ! i)"
    unfolding find_Some_iff by (intro exI [of _ i]) simp
  then show ?thesis by (simp add: labs_def)
qed

lemma labs_None: "labs eq ss k = None \<longleftrightarrow> (\<forall>s \<in> set ss. \<not> has_key eq k s)"
  by (auto simp: labs_def find_None_iff)

text \<open>
  What a search finds: the slot of an equal key, or else a free slot that later searches
  for this key will come to.
\<close>

lemma lookup_ok:
  assumes w: "hwf m" and m: "hfunc m = hf" "hcmp m = eq"
  shows "\<exists>r. hash_lookup m k (hf k) = Some r \<and> r < length (htable m) \<and>
    (has_key eq k (htable m ! r) \<or>
     \<not> live (htable m ! r) \<and> reach m (hf k) r \<and> labs eq (htable m) k = None)"
proof -
  let ?h = "hf k" and ?mk = "hmask m"
  from stop_exists [OF w] obtain n where n: "stop m k ?h n" "\<forall>i < n. \<not> stop m k ?h i" by blast
  let ?j = "pslot ?mk ?h n"
  have path: "smode (htable m ! pslot ?mk ?h i) \<noteq> SL_EMPTY" if "i < n" for i
    using n(2) that by (auto simp: stop_def)
  have lt: "pslot ?mk ?h i < length (htable m)" for i
    using w by (auto simp: hwf_def pslot_less)
  have ok: "slots_ok hf eq (htable m)" using w m by (simp add: hwf_def)
  have match: "slot_matches m k ?h s \<longleftrightarrow> has_key eq k s" if "s \<in> set (htable m)" for s
    using slots_okD(1) [OF ok that] m eq_refl eq_hash
    by (auto simp: slot_matches_def has_key_def live_def split: option.splits)
  show ?thesis
  proof (cases "slot_matches m k ?h (htable m ! ?j)")
    case True
    with lookup_stop [OF n(2,1)] match [of "htable m ! ?j"] lt show ?thesis by simp
  next
    case False
    then have e: "smode (htable m ! ?j) = SL_EMPTY" using n(1) by (simp add: stop_def)
    have "\<not> has_key eq k s" if "s \<in> set (htable m)" for s
    proof
      assume h: "has_key eq k s"
      then obtain k' where k': "live s" "skey s = Some k'" "eq k' k" by (auto simp: has_key_def split: option.splits)
      from that obtain i where i: "i < length (htable m)" "s = htable m ! i" by (auto simp: in_set_conv_nth)
      have "reach m ?h i" using hwf_reach [OF w i(1)] k' i m eq_hash by auto
      then obtain l where l: "pslot ?mk ?h l = i" "\<forall>x < l. smode (htable m ! pslot ?mk ?h x) \<noteq> SL_EMPTY"
        by (auto simp: reach_def)
      have "\<not> n < l" using l(2) e by blast
      moreover have "l \<noteq> n" using l(1) e k'(1) i(2) by (auto simp: live_def)
      ultimately have "l < n" by simp
      with n(2) have "\<not> slot_matches m k ?h s" using l(1) i(2) by (auto simp: stop_def)
      with match [OF that] h show False by simp
    qed
    then have none: "labs eq (htable m) k = None" by (simp add: labs_None)
    show ?thesis
    proof (cases "ffree m ?h n")
      case None
      have "reach m ?h ?j" using path by (auto simp: reach_def)
      with lookup_stop [OF n(2,1)] False None e lt none show ?thesis by (auto simp: live_def)
    next
      case (Some f)
      from ffree_Some [OF Some] obtain i where i: "i < n" "f = pslot ?mk ?h i" "smode (htable m ! f) = SL_DELETED" by blast
      have "reach m ?h f" using path i(1,2) by (auto simp: reach_def)
      with lookup_stop [OF n(2,1)] False Some i lt none show ?thesis by (auto simp: live_def)
    qed
  qed
qed

lemma slots_ok_update:
  assumes ok: "slots_ok hf eq ss" and r: "r < length ss"
    and s': "live s' \<Longrightarrow> skey s' = Some k \<and> shash s' = hf k"
    and u: "live s' \<Longrightarrow> \<forall>j < length ss. j \<noteq> r \<longrightarrow> \<not> has_key eq k (ss ! j)"
  shows "slots_ok hf eq (ss[r := s'])"
  unfolding slots_ok_def
proof (intro conjI ballI allI impI)
  fix s assume "s \<in> set (ss[r := s'])" "live s"
  then show "\<exists>k. skey s = Some k \<and> shash s = hf k"
    using slots_okD(1) [OF ok] s' set_update_subset_insert [of ss r s'] by blast
next
  fix i j l
  assume a: "i < length (ss[r := s']) \<and> j < length (ss[r := s']) \<and> i \<noteq> j \<and> live (ss[r := s'] ! i) \<and> skey (ss[r := s'] ! i) = Some l"
  show "\<not> has_key eq l (ss[r := s'] ! j)"
  proof (cases "i = r")
    case True
    with a r have "live s'" "skey s' = Some l" by auto
    with a True s' u show ?thesis by auto
  next
    case i: False
    with a have il: "i < length ss" "live (ss ! i)" "skey (ss ! i) = Some l" by auto
    show ?thesis
    proof (cases "j = r")
      case True
      have "\<not> has_key eq l s'"
      proof
        assume h: "has_key eq l s'"
        then have "eq k l" "live s'" using s' by (auto simp: has_key_def)
        moreover from this il have "has_key eq k (ss ! i)" using eq_sym by (auto simp: has_key_def)
        ultimately show False using u i il(1) by blast
      qed
      with True r show ?thesis by simp
    next
      case False
      with a slots_okD(2) [OF ok il(1) _ _ il(2,3)] show ?thesis by auto
    qed
  qed
qed

lemma others_free:
  assumes ok: "slots_ok hf eq ss" and r: "r < length ss" "has_key eq k (ss ! r)"
  shows "\<forall>j < length ss. j \<noteq> r \<longrightarrow> \<not> has_key eq k (ss ! j)"
proof (intro allI impI)
  fix j assume j: "j < length ss" "j \<noteq> r"
  from r(2) obtain k' where k': "live (ss ! r)" "skey (ss ! r) = Some k'" "eq k' k"
    by (auto simp: has_key_def split: option.splits)
  show "\<not> has_key eq k (ss ! j)"
    unfolding has_key_cong [OF eq_sym [OF k'(3)]]
    by (rule slots_okD(2) [OF ok r(1) j(1) _ k'(1,2)]) (use j in simp)
qed

lemma labs_update:
  assumes ok: "slots_ok hf eq ss" and r: "r < length ss" "live (ss ! r) \<Longrightarrow> has_key eq k (ss ! r)"
    and s': "live s' \<Longrightarrow> skey s' = Some k \<and> shash s' = hf k"
    and u: "\<forall>j < length ss. j \<noteq> r \<longrightarrow> \<not> has_key eq k (ss ! j)"
  shows "labs eq (ss[r := s']) x = (if eq k x then if live s' then Some (svalue s') else None else labs eq ss x)"
proof (cases "eq k x")
  case True
  show ?thesis
  proof (cases "live s'")
    case l: True
    have "slots_ok hf eq (ss[r := s'])" by (rule slots_ok_update [OF ok r(1) s']) (use u l in auto)
    from labs_at [OF this, of r x] r(1) l s' True show ?thesis by (simp add: has_key_def)
  next
    case d: False
    have "\<not> has_key eq x s" if s: "s \<in> set (ss[r := s'])" for s
    proof -
      obtain j where j: "j < length ss" "s = ss[r := s'] ! j" using s by (auto simp: in_set_conv_nth)
      show ?thesis
      proof (cases "j = r")
        case e: True
        with j r(1) d show ?thesis by (simp add: has_key_def)
      next
        case False
        with j u has_key_cong [OF True] show ?thesis by simp
      qed
    qed
    with True d show ?thesis by (simp add: labs_None)
  qed
next
  case False
  have "\<not> has_key eq x s'" using s' False by (auto simp: has_key_def)
  moreover have "\<not> has_key eq x (ss ! r)"
  proof
    assume h: "has_key eq x (ss ! r)"
    then obtain l where l: "live (ss ! r)" "skey (ss ! r) = Some l" "eq l x" by (auto simp: has_key_def split: option.splits)
    with r(2) have "eq l k" by (simp add: has_key_def)
    with l(3) False eq_trans [OF eq_sym] show False by blast
  qed
  ultimately show ?thesis using False by (simp add: labs_def find_update)
qed

text \<open>One slot changes and the counters follow: the table stays well formed.\<close>

lemma hwf_update:
  assumes w: "hwf m" and m: "hfunc m = hf" "hcmp m = eq" and r: "r < length (htable m)"
    and s': "live s' \<Longrightarrow> skey s' = Some k \<and> shash s' = hf k \<and> reach m (hf k) r"
    and e: "smode s' \<noteq> SL_EMPTY"
    and u: "live s' \<Longrightarrow> \<forall>j < length (htable m). j \<noteq> r \<longrightarrow> \<not> has_key eq k (htable m ! j)"
    and room: "used ((htable m)[r := s']) < length (htable m)"
  shows "hwf (m\<lparr>htable := (htable m)[r := s'], hfill := int (used ((htable m)[r := s'])), hcount := int (alive ((htable m)[r := s']))\<rparr>)"
    (is "hwf ?m")
proof -
  have ok: "slots_ok hf eq (htable m)" using w m by (simp add: hwf_def)
  have "slots_ok hf eq ((htable m)[r := s'])" by (rule slots_ok_update [OF ok r]) (use s' u in auto)
  moreover have mono: "reach m hash j \<Longrightarrow> reach ?m hash j" for hash j
  proof (erule reach_mono)
    fix i assume "smode (htable m ! i) \<noteq> SL_EMPTY"
    with e r show "smode (htable ?m ! i) \<noteq> SL_EMPTY" by (cases "i = r") auto
  qed simp
  moreover have "reach ?m (hf l) i" if "i < length (htable m)" "live ((htable m)[r := s'] ! i)" "skey ((htable m)[r := s'] ! i) = Some l" for i l
  proof (cases "i = r")
    case True
    with that r s' mono show ?thesis by auto
  next
    case False
    with that hwf_reach [OF w, of i l] mono m show ?thesis by auto
  qed
  ultimately show ?thesis using w m room unfolding hwf_def by simp
qed

lemma copy_slot_ok:
  assumes w: "hwf m" and m: "hfunc m = hf" "hcmp m = eq" and c: "clean m"
    and room: "used (htable m) + 1 < length (htable m)"
    and old: "live old" "skey old = Some k" "shash old = hf k" "labs eq (htable m) k = None"
  shows "\<exists>m'. copy_slot old m = Some m' \<and> hwf m' \<and> clean m' \<and> hfunc m' = hf \<and> hcmp m' = eq \<and>
    length (htable m') = length (htable m) \<and> used (htable m') = used (htable m) + 1 \<and>
    (\<forall>x. labs eq (htable m') x = (if eq k x then Some (svalue old) else labs eq (htable m) x))"
proof -
  have ok: "slots_ok hf eq (htable m)" using w m by (simp add: hwf_def)
  have free: "\<not> has_key eq k t" if "t \<in> set (htable m)" for t using old(4) that by (simp add: labs_None)
  from lookup_ok [OF w m, of k] obtain r where r: "hash_lookup m k (hf k) = Some r" "r < length (htable m)"
    "\<not> live (htable m ! r)" "reach m (hf k) r" using free by (metis nth_mem)
  have e: "smode (htable m ! r) = SL_EMPTY"
    using c r(2,3) by (cases "smode (htable m ! r)") (auto simp: clean_def live_def)
  define t where "t = \<lparr>skey = Some k, svalue = svalue old, shash = shash old, smode = SL_ACTIVE\<rparr>"
  let ?ss = "(htable m)[r := t]"
  have cnt: "used ?ss = used (htable m) + 1" "alive ?ss = alive (htable m) + 1"
    using length_filter_update [OF r(2), of "\<lambda>s. smode s \<noteq> SL_EMPTY" t] length_filter_update [OF r(2), of live t] e r(3)
    by (simp_all add: used_def alive_def live_def t_def)
  let ?m = "m\<lparr>htable := ?ss, hfill := int (used ?ss), hcount := int (alive ?ss)\<rparr>"
  have "hwf ?m"
    by (rule hwf_update [OF w m r(2), where k = k]) (use r free room cnt old in \<open>auto simp: t_def live_def\<close>)
  moreover have "copy_slot old m = Some ?m"
    using old(1,2) r(1) w m cnt by (simp add: copy_slot_def live_def t_def hwf_def)
  moreover have "clean ?m" using c set_update_subset_insert [of "htable m" r t] by (auto simp: clean_def t_def)
  moreover have "labs eq ?ss x = (if eq k x then Some (svalue old) else labs eq (htable m) x)" for x
    using labs_update [OF ok r(2), of k t x] r(3) old free by (simp add: t_def live_def)
  ultimately show ?thesis using cnt m by (intro exI [of _ ?m]) simp
qed

lemma labs_Cons: "labs eq (y # ys) x = (if has_key eq x y then Some (svalue y) else labs eq ys x)"
  by (simp add: labs_def)

lemma slots_ok_Cons:
  assumes "slots_ok hf eq (y # ys)"
  shows "slots_ok hf eq ys" "live y \<Longrightarrow> skey y = Some k \<Longrightarrow> labs eq ys k = None"
    "t \<in> set ys \<Longrightarrow> live t \<Longrightarrow> skey t = Some l \<Longrightarrow> \<not> has_key eq l y"
proof -
  show "slots_ok hf eq ys"
    unfolding slots_ok_def using slots_okD(1) [OF assms] slots_okD(2) [OF assms, of "Suc i" "Suc j" for i j] by auto
  show "labs eq ys k = None" if "live y" "skey y = Some k"
    unfolding labs_None using slots_okD(2) [OF assms, of 0 "Suc j" for j] that by (auto simp: in_set_conv_nth)
  show "\<not> has_key eq l y" if "t \<in> set ys" "live t" "skey t = Some l"
    using slots_okD(2) [OF assms, of "Suc i" 0 for i] that by (auto simp: in_set_conv_nth)
qed

lemma hash_copy_ok:
  assumes "slots_ok hf eq xs" "hwf m" "hfunc m = hf" "hcmp m = eq" "clean m"
    "used (htable m) + alive xs < length (htable m)"
    "\<forall>t \<in> set xs. \<forall>k. live t \<longrightarrow> skey t = Some k \<longrightarrow> labs eq (htable m) k = None"
  shows "\<exists>m'. hash_copy xs m = Some m' \<and> hwf m' \<and> hfunc m' = hf \<and> hcmp m' = eq \<and>
    length (htable m') = length (htable m) \<and> used (htable m') = used (htable m) + alive xs \<and>
    (\<forall>x. labs eq (htable m') x = (case labs eq xs x of None \<Rightarrow> labs eq (htable m) x | Some v \<Rightarrow> Some v))"
  using assms
proof (induction xs arbitrary: m)
  case Nil
  then show ?case by (simp add: alive_def labs_def)
next
  case (Cons y ys)
  note sc = slots_ok_Cons [OF Cons.prems(1)]
  show ?case
  proof (cases "live y")
    case False
    then have "copy_slot y m = Some m" "alive (y # ys) = alive ys" by (simp_all add: copy_slot_def live_def alive_def)
    moreover have "labs eq (y # ys) x = labs eq ys x" for x using False by (simp add: labs_Cons has_key_def)
    moreover have "\<exists>m'. hash_copy ys m = Some m' \<and> hwf m' \<and> hfunc m' = hf \<and> hcmp m' = eq \<and>
        length (htable m') = length (htable m) \<and> used (htable m') = used (htable m) + alive ys \<and>
        (\<forall>x. labs eq (htable m') x = (case labs eq ys x of None \<Rightarrow> labs eq (htable m) x | Some v \<Rightarrow> Some v))"
      using Cons.prems(6) calculation(2) by (intro Cons.IH sc(1) Cons.prems(2-5)) (use Cons.prems(7) in auto)
    ultimately show ?thesis by simp
  next
    case True
    from slots_okD(1) [OF Cons.prems(1), of y] True obtain k where k: "skey y = Some k" "shash y = hf k" by auto
    have al: "alive (y # ys) = alive ys + 1" using True by (simp add: alive_def)
    have "labs eq (htable m) k = None" using Cons.prems(7) True k(1) by simp
    from copy_slot_ok [OF Cons.prems(2-5) _ True k this] Cons.prems(6) al obtain m1 where m1: "copy_slot y m = Some m1" "hwf m1"
      "clean m1" "hfunc m1 = hf" "hcmp m1 = eq" "length (htable m1) = length (htable m)" "used (htable m1) = used (htable m) + 1"
      and l1: "\<And>x. labs eq (htable m1) x = (if eq k x then Some (svalue y) else labs eq (htable m) x)" by auto
    have hk: "has_key eq x y \<longleftrightarrow> eq k x" for x using True k by (simp add: has_key_def)
    have fr: "\<forall>t \<in> set ys. \<forall>l. live t \<longrightarrow> skey t = Some l \<longrightarrow> labs eq (htable m1) l = None"
      using sc(3) l1 Cons.prems(7) hk by (metis list.set_intros(2))
    have "used (htable m1) + alive ys < length (htable m1)" using Cons.prems(6) m1(6,7) al by simp
    from Cons.IH [OF sc(1) m1(2,4,5,3) this fr] obtain m' where m': "hash_copy ys m1 = Some m'" "hwf m'" "hfunc m' = hf" "hcmp m' = eq"
      "length (htable m') = length (htable m1)" "used (htable m') = used (htable m1) + alive ys"
      and l': "\<And>x. labs eq (htable m') x = (case labs eq ys x of None \<Rightarrow> labs eq (htable m1) x | Some v \<Rightarrow> Some v)" by blast
    have "labs eq ys x = None" if "eq k x" for x
      using sc(2) [OF True k(1)] labs_cong [OF that] by simp
    then have "labs eq (htable m') x = (case labs eq (y # ys) x of None \<Rightarrow> labs eq (htable m) x | Some v \<Rightarrow> Some v)" for x
      by (cases "eq k x") (simp_all add: l' l1 labs_Cons hk split: option.split)
    with m1 m' al show ?thesis by simp
  qed
qed

text \<open>Rehashing to a size with room enough keeps the map.\<close>

lemma resize_ok:
  assumes w: "hwf m" and m: "hfunc m = hf" "hcmp m = eq" and b: "3 \<le> b" "b \<le> 29"
    and room: "3 * int (alive (htable m)) < 2 * 2 ^ b"
  shows "\<exists>m'. hash_copy (htable m) (fresh_table b m) = Some m' \<and> hash_ok m' \<and> hfunc m' = hf \<and> hcmp m' = eq \<and>
    length (htable m') = 2 ^ b \<and> (\<forall>x. labs eq (htable m') x = labs eq (htable m) x)"
proof -
  note f = hwf_fresh [OF b, of m]
  have e: "labs eq (htable (fresh_table b m)) k = None" for k
    by (auto simp: fresh_table_def labs_None has_key_def live_def empty_slot_def)
  have ok: "slots_ok hf eq (htable m)" using w m by (simp add: hwf_def)
  have len: "length (htable (fresh_table b m)) = 2 ^ b" "hfunc (fresh_table b m) = hf" "hcmp (fresh_table b m) = eq"
    using m by (simp_all add: fresh_table_def)
  have "int (alive (htable m)) < 2 ^ b" using room by linarith
  then have "used (htable (fresh_table b m)) + alive (htable m) < length (htable (fresh_table b m))"
    using f(3) len by (simp add: of_nat_less_iff flip: of_nat_power)
  from hash_copy_ok [OF ok f(1) len(2,3) f(2) this] e len f(3) obtain m' where
    m': "hash_copy (htable m) (fresh_table b m) = Some m'" "hwf m'" "hfunc m' = hf" "hcmp m' = eq"
      "length (htable m') = 2 ^ b" "used (htable m') = alive (htable m)"
    and l: "\<And>x. labs eq (htable m') x = (case labs eq (htable m) x of None \<Rightarrow> labs eq (htable (fresh_table b m)) x | Some v \<Rightarrow> Some v)"
    by auto
  have "hfill m' = int (alive (htable m))" using m'(2,6) by (simp add: hwf_def)
  with room m'(2,5) have "hash_ok m'" by (simp add: hash_ok_def)
  moreover have "labs eq (htable m') x = labs eq (htable m) x" for x using l [of x] e by (cases "labs eq (htable m) x") simp_all
  ultimately show ?thesis using m' by auto
qed

lemma hash_update_ok:
  assumes w: "hwf m" and m: "hfunc m = hf" "hcmp m = eq" and sz: "length (htable m) < 2 ^ 29"
  shows "\<exists>m'. hash_update True m = Some (0, m') \<and> hash_ok m' \<and> hfunc m' = hf \<and> hcmp m' = eq \<and>
    length (htable m') \<le> 2 * length (htable m) \<and> (\<forall>x. labs eq (htable m') x = labs eq (htable m) x)"
proof -
  from w obtain b where b: "3 \<le> b" "hmask m = mask b" "length (htable m) = 2 ^ b"
    "hfill m = int (used (htable m))" "hcount m = int (alive (htable m))" "used (htable m) < length (htable m)" by (rule hwfD)
  have b28: "b \<le> 28" using sz b(3) power_less_imp_less_exp [of "2::nat" b 29] by simp
  let ?N = "2 ^ b :: int" and ?u = "int (used (htable m))" and ?a = "int (alive (htable m))"
  have N: "8 \<le> ?N" "?N \<le> 268435456"
    using power_increasing [of 3 b "2::int"] power_increasing [of b 28 "2::int"] b(1) b28 by simp_all
  have u: "?u < ?N" "?a \<le> ?u"
    using b(3,6) alive_le_used [of "htable m"] by (simp_all add: of_nat_less_iff flip: of_nat_power)
  have old: "sint (hmask m + 1) = ?N" using sint_size [of b] b28 b(2) by simp
  have t: "to_int32 (3 * hfill m) = 3 * ?u" "to_int32 (2 * ?N) = 2 * ?N" "to_int32 (4 * hcount m) = 4 * ?a"
    unfolding b(4,5) by (intro to_int32_id; use N u in linarith)+
  have init: "hash_initialize True (2 ^ c) m = (0, fresh_table c m)" for c
    by (simp add: hash_initialize_def fresh_table_def nat_power_eq)
  consider "3 * ?u \<ge> 2 * ?N" | "3 * ?u < 2 * ?N" "?N > 8" "4 * ?a \<le> ?N" | "3 * ?u < 2 * ?N" "\<not> (?N > 8 \<and> 4 * ?a \<le> ?N)"
    by linarith
  then show ?thesis
  proof cases
    case 1
    have "3 * ?a < 2 * 2 ^ Suc b" using u N unfolding power_Suc by linarith
    from resize_ok [OF w m _ _ this] b(1) b28 obtain m' where "hash_copy (htable m) (fresh_table (Suc b) m) = Some m'" "hash_ok m'"
      "hfunc m' = hf" "hcmp m' = eq" "length (htable m') = 2 ^ Suc b" "\<forall>x. labs eq (htable m') x = labs eq (htable m) x" by auto
    with 1 init [of "Suc b"] b(3) N show ?thesis by (simp add: hash_update_def old t Let_def)
  next
    case 2
    then have b4: "4 \<le> b" using b(1) by (cases "b = 3") auto
    then obtain c where c: "b = Suc c" "3 \<le> c" by (cases b) auto
    have "3 * ?a < 2 * 2 ^ c" using 2 c(1) by simp
    from resize_ok [OF w m c(2) _ this] c b28 obtain m' where "hash_copy (htable m) (fresh_table c m) = Some m'" "hash_ok m'"
      "hfunc m' = hf" "hcmp m' = eq" "length (htable m') = 2 ^ c" "\<forall>x. labs eq (htable m') x = labs eq (htable m) x" by auto
    moreover have "?N div 2 = 2 ^ c" using c(1) by simp
    moreover from this have "hash_update True m = map_option (Pair 0) (hash_copy (htable m) (fresh_table c m))"
      using 2 init [of c] by (simp add: hash_update_def old t Let_def)
    ultimately show ?thesis using b(3) c(1) by simp
  next
    case 3
    then have "hash_ok m" using w b(3,4) by (simp add: hash_ok_def)
    moreover have "hash_update True m = Some (0, m)" using 3 by (auto simp: hash_update_def old t Let_def)
    ultimately show ?thesis using m by auto
  qed
qed

text \<open>The operations, on a table with these functions.\<close>

lemma get_ok:
  assumes w: "hash_ok m" and m: "hfunc m = hf" "hcmp m = eq"
  shows "hash_get m k d = Some (case habs m k of None \<Rightarrow> d | Some v \<Rightarrow> v)" "hash_isset m k = Some (habs m k \<noteq> None)"
proof -
  have w': "hwf m" using w by (simp add: hash_ok_def)
  have ok: "slots_ok hf eq (htable m)" using w' m by (simp add: hwf_def)
  from lookup_ok [OF w' m, of k] obtain r where r: "hash_lookup m k (hf k) = Some r" "r < length (htable m)"
    "has_key eq k (htable m ! r) \<or> \<not> live (htable m ! r) \<and> labs eq (htable m) k = None" by blast
  have "habs m k = (if live (htable m ! r) then Some (svalue (htable m ! r)) else None)"
    using r(3) labs_at [OF ok r(2), of k] m by (auto simp: habs_def has_key_def)
  then show "hash_get m k d = Some (case habs m k of None \<Rightarrow> d | Some v \<Rightarrow> v)" "hash_isset m k = Some (habs m k \<noteq> None)"
    using r(1) m by (auto simp: hash_get_def hash_isset_def live_def Let_def)
qed

lemma set_ok:
  assumes w: "hash_ok m" and m: "hfunc m = hf" "hcmp m = eq" and sz: "length (htable m) < 2 ^ 29"
  shows "\<exists>m'. hash_set True k v m = Some (0, m') \<and> hash_ok m' \<and> hfunc m' = hf \<and> hcmp m' = eq \<and>
    length (htable m') \<le> 2 * length (htable m) \<and> (\<forall>x. habs m' x = (if eq k x then Some v else habs m x))"
proof -
  have w': "hwf m" and ld: "3 * hfill m < 2 * int (length (htable m))" using w by (simp_all add: hash_ok_def)
  have ok: "slots_ok hf eq (htable m)" using w' m by (simp add: hwf_def)
  have fc: "hfill m = int (used (htable m))" "hcount m = int (alive (htable m))" using w' by (simp_all add: hwf_def)
  from lookup_ok [OF w' m, of k] obtain r where r: "hash_lookup m k (hf k) = Some r" "r < length (htable m)"
    "has_key eq k (htable m ! r) \<or> \<not> live (htable m ! r) \<and> reach m (hf k) r \<and> labs eq (htable m) k = None" by blast
  show ?thesis
  proof (cases "live (htable m ! r)")
    case True
    with r(3) have hk: "has_key eq k (htable m ! r)" by simp
    then obtain k' where k': "skey (htable m ! r) = Some k'" "eq k' k" by (auto simp: has_key_def split: option.splits)
    define t where "t = (htable m ! r)\<lparr>svalue := v\<rparr>"
    have hash: "shash (htable m ! r) = hf k'" using slots_okD(1) [OF ok, of "htable m ! r"] True k'(1) r(2) by auto
    have hk': "has_key eq k' (htable m ! r)" using has_key_cong [OF k'(2)] hk by simp
    note oth = others_free [OF ok r(2) hk']
    have cnt: "used ((htable m)[r := t]) = used (htable m)" "alive ((htable m)[r := t]) = alive (htable m)"
      using length_filter_update [OF r(2), of "\<lambda>s. smode s \<noteq> SL_EMPTY" t] length_filter_update [OF r(2), of live t] True
      by (simp_all add: used_def alive_def live_def t_def)
    let ?m = "m\<lparr>htable := (htable m)[r := t]\<rparr>"
    have e: "m\<lparr>htable := (htable m)[r := t], hfill := int (used ((htable m)[r := t])), hcount := int (alive ((htable m)[r := t]))\<rparr> = ?m"
      using fc cnt by (simp flip: fc)
    have "hwf ?m"
      using hwf_update [OF w' m r(2), of t k'] True k' hash oth hwf_reach [OF w' r(2) True k'(1)] m cnt w'
      unfolding e by (simp add: t_def live_def hwf_def)
    moreover have "labs eq ((htable m)[r := t]) x = (if eq k x then Some v else labs eq (htable m) x)" for x
    proof -
      have "eq k' x = eq k x" by (rule eq_cong [OF k'(2)])
      with labs_update [OF ok r(2) _ _ oth, of t x] hk' True k'(1) hash show ?thesis by (simp add: t_def live_def)
    qed
    moreover have "hash_set True k v m = Some (0, ?m)" using r(1) True m by (simp add: hash_set_def live_def Let_def t_def)
    ultimately show ?thesis using m ld by (intro exI [of _ ?m]) (simp add: hash_ok_def habs_def)
  next
    case False
    with r(3) have re: "reach m (hf k) r" "labs eq (htable m) k = None" by (auto simp: has_key_def)
    define t where "t = \<lparr>skey = Some k, svalue = v, shash = hf k, smode = SL_ACTIVE\<rparr>"
    let ?ss = "(htable m)[r := t]"
    have oth: "\<forall>j < length (htable m). j \<noteq> r \<longrightarrow> \<not> has_key eq k (htable m ! j)" using re(2) by (simp add: labs_None)
    have cnt: "int (used ?ss) = hfill m + (if smode (htable m ! r) = SL_EMPTY then 1 else 0)" "int (alive ?ss) = hcount m + 1"
      using length_filter_update [OF r(2), of "\<lambda>s. smode s \<noteq> SL_EMPTY" t] length_filter_update [OF r(2), of live t] False fc
      by (simp_all add: used_def alive_def live_def t_def)
    let ?m = "m\<lparr>htable := ?ss, hfill := int (used ?ss), hcount := int (alive ?ss)\<rparr>"
    obtain b where "3 \<le> b" "length (htable m) = 2 ^ b" using w' by (rule hwfD)
    then have "8 \<le> length (htable m)" using power_increasing [of 3 b "2::nat"] by simp
    then have room: "used ?ss < length (htable m)" using cnt(1) ld by (simp split: if_splits)
    have wm: "hwf ?m"
      by (rule hwf_update [OF w' m r(2), where k = k]) (use re oth room in \<open>auto simp: t_def live_def\<close>)
    have l: "labs eq ?ss x = (if eq k x then Some v else labs eq (htable m) x)" for x
      using labs_update [OF ok r(2) _ _ oth, of t x] False by (simp add: t_def live_def)
    from hash_update_ok [OF wm] m sz obtain m' where m': "hash_update True ?m = Some (0, m')" "hash_ok m'" "hfunc m' = hf" "hcmp m' = eq"
      "length (htable m') \<le> 2 * length (htable m)" "\<forall>x. labs eq (htable m') x = labs eq ?ss x" by auto
    have "hash_set True k v m = hash_update True ?m"
      using r(1) False m cnt by (auto simp: hash_set_def live_def Let_def t_def intro!: arg_cong [where f = "hash_update True"] hash_t.equality)
    with m' l m show ?thesis by (auto simp: habs_def)
  qed
qed

lemma del_ok:
  assumes w: "hash_ok m" and m: "hfunc m = hf" "hcmp m = eq" and sz: "length (htable m) < 2 ^ 29"
  shows "\<exists>m'. hash_del True k m = Some (0, m') \<and> hash_ok m' \<and> hfunc m' = hf \<and> hcmp m' = eq \<and>
    length (htable m') \<le> 2 * length (htable m) \<and> (\<forall>x. habs m' x = (if eq k x then None else habs m x))"
proof -
  have w': "hwf m" using w by (simp add: hash_ok_def)
  have ok: "slots_ok hf eq (htable m)" using w' m by (simp add: hwf_def)
  have fc: "hfill m = int (used (htable m))" "hcount m = int (alive (htable m))" "used (htable m) < length (htable m)"
    using w' by (simp_all add: hwf_def)
  from lookup_ok [OF w' m, of k] obtain r where r: "hash_lookup m k (hf k) = Some r" "r < length (htable m)"
    "has_key eq k (htable m ! r) \<or> \<not> live (htable m ! r) \<and> reach m (hf k) r \<and> labs eq (htable m) k = None" by blast
  show ?thesis
  proof (cases "live (htable m ! r)")
    case False
    with r(3) have "labs eq (htable m) k = None" by (auto simp: has_key_def)
    then have "habs m x = None" if "eq k x" for x using labs_cong [OF that] m by (simp add: habs_def)
    with r(1) False w m show ?thesis by (auto simp: hash_del_def live_def)
  next
    case True
    with r(3) have hk: "has_key eq k (htable m ! r)" by simp
    note oth = others_free [OF ok r(2) hk]
    define t where "t = \<lparr>skey = None :: 'k option, svalue = 0, shash = 0, smode = SL_DELETED\<rparr>"
    let ?ss = "(htable m)[r := t]"
    have cnt: "int (used ?ss) = hfill m" "int (alive ?ss) = hcount m - 1"
      using length_filter_update [OF r(2), of "\<lambda>s. smode s \<noteq> SL_EMPTY" t] length_filter_update [OF r(2), of live t] True fc
      by (simp_all add: used_def alive_def live_def t_def)
    let ?m = "m\<lparr>htable := ?ss, hfill := int (used ?ss), hcount := int (alive ?ss)\<rparr>"
    have wm: "hwf ?m"
      by (rule hwf_update [OF w' m r(2), where k = k]) (use cnt fc in \<open>auto simp: t_def live_def\<close>)
    have l: "labs eq ?ss x = (if eq k x then None else labs eq (htable m) x)" for x
      using labs_update [OF ok r(2) _ _ oth, of t x] hk by (simp add: t_def live_def)
    from hash_update_ok [OF wm] m sz obtain m' where m': "hash_update True ?m = Some (0, m')" "hash_ok m'" "hfunc m' = hf" "hcmp m' = eq"
      "length (htable m') \<le> 2 * length (htable m)" "\<forall>x. labs eq (htable m') x = labs eq ?ss x" by auto
    have "hash_del True k m = hash_update True ?m"
      using r(1) True m cnt by (auto simp: hash_del_def live_def t_def intro!: arg_cong [where f = "hash_update True"] hash_t.equality)
    with m' l m show ?thesis by (auto simp: habs_def)
  qed
qed

end

interpretation direct: hash_keys hash_direct_hfunc hash_direct_cmp
  by unfold_locales (auto simp: hash_direct_hfunc_def hash_direct_cmp_def)

interpretation strings: hash_keys hash_string_hfunc hash_string_cmp
  by unfold_locales (auto simp: hash_string_hfunc_def hash_string_cmp_def)

section \<open>Properties of the two kinds of table\<close>

definition is_string_table :: "cstr hash_t \<Rightarrow> bool" where
  "is_string_table m \<longleftrightarrow> hash_ok m \<and> hfunc m = hash_string_hfunc \<and> hcmp m = hash_string_cmp"

definition is_direct_table :: "u32 hash_t \<Rightarrow> bool" where
  "is_direct_table m \<longleftrightarrow> hash_ok m \<and> hfunc m = hash_direct_hfunc \<and> hcmp m = hash_direct_cmp"

lemma hash_init_fresh: "hash_init True f c m = (0, fresh_table 3 (m\<lparr>hfunc := f, hcmp := c\<rparr>))"
  by (simp add: hash_init_def hash_initialize_def fresh_table_def)

lemma hash_ok_fresh: "hash_ok (fresh_table 3 m)"
  using hwf_fresh [of 3 m] by (simp add: hash_ok_def fresh_table_def)

lemma habs_fresh: "habs (fresh_table b m) k = None"
  by (simp add: habs_def labs_def fresh_table_def find_None_iff has_key_def live_def empty_slot_def)

lemma init_tables:
  "is_string_table (snd (hash_init_string True m))" "length (htable (snd (hash_init_string True m))) = 8"
  "is_direct_table (snd (hash_init_direct True n))" "length (htable (snd (hash_init_direct True n))) = 8"
  by (simp_all add: hash_init_string_def hash_init_direct_def hash_init_fresh is_string_table_def is_direct_table_def
      hash_ok_fresh) (simp_all add: fresh_table_def)

text \<open>
  C28: every search in a well-formed table ends, whatever the hash code: the perturbed
  sequence of probes comes to a slot that was never used.
\<close>

theorem hash_lookup_terminates:
  assumes "hash_ok m"
  shows "\<exists>i. hash_lookup m k hash = Some i"
proof -
  from assms have "hwf m" by (simp add: hash_ok_def)
  from stop_exists [OF this] obtain n where "stop m k hash n" "\<forall>i < n. \<not> stop m k hash i" by blast
  from lookup_stop [OF this(2,1)] show ?thesis by blast
qed

definition table0 :: "cstr hash_t" where
  "table0 = \<lparr>hfill = 0, hcount = 0, hmask = 0, htable = [], hfunc = hash_string_hfunc, hcmp = hash_string_cmp\<rparr>"

theorem hash_lookup_terminates_witness:
  "hash_ok (snd (hash_init_string True table0)) \<and>
   (\<exists>i. hash_lookup (snd (hash_init_string True table0)) (0x2000, ''shm'') 0xDEADBEEF = Some i)"
  using hash_lookup_terminates [of "snd (hash_init_string True table0)"] init_tables(1) [of table0]
  by (simp add: is_string_table_def)

lemma string_set:
  assumes "is_string_table m" "length (htable m) < 2 ^ 29"
  shows "\<exists>m'. hash_set True k v m = Some (0, m') \<and> is_string_table m' \<and> length (htable m') \<le> 2 * length (htable m) \<and>
    (\<forall>x d. hash_get m' x d = (if snd x = snd k then Some v else hash_get m x d))"
proof -
  from assms(1) have m: "hash_ok m" "hfunc m = hash_string_hfunc" "hcmp m = hash_string_cmp" by (simp_all add: is_string_table_def)
  from strings.set_ok [OF m assms(2), of k v] obtain m' where m': "hash_set True k v m = Some (0, m')" "hash_ok m'"
    "hfunc m' = hash_string_hfunc" "hcmp m' = hash_string_cmp" "length (htable m') \<le> 2 * length (htable m)"
    "\<forall>x. habs m' x = (if hash_string_cmp k x then Some v else habs m x)" by blast
  have "hash_get m' x d = (if snd x = snd k then Some v else hash_get m x d)" for x d
    using m'(6) [rule_format, of x] by (simp add: strings.get_ok(1) [OF m] strings.get_ok(1) [OF m'(2-4)] hash_string_cmp_def)
  with m' show ?thesis by (auto simp: is_string_table_def)
qed

text \<open>
  C18: after \<^verbatim>\<open>hash_set\<close> on a table of strings, which may rehash the table, \<^verbatim>\<open>hash_get\<close> finds the
  new value for every key with the same characters and the old answer for all others.
\<close>

theorem hash_set_get:
  assumes "is_string_table m" "length (htable m) < 2 ^ 29"
  shows "\<exists>m'. hash_set True k v m = Some (0, m') \<and> is_string_table m' \<and> length (htable m') \<le> 2 * length (htable m) \<and>
    (\<forall>x d. hash_get m' x d = (if snd x = snd k then Some v else hash_get m x d))"
  using assms by (rule string_set)

theorem hash_set_get_witness:
  "is_string_table (snd (hash_init_string True table0)) \<and>
   (\<exists>m'. hash_set True (0x2000, ''shm'') 0x4004000 (snd (hash_init_string True table0)) = Some (0, m') \<and>
     hash_get m' (0x80001000, ''shm'') 0 = Some 0x4004000)"
  using hash_set_get [of "snd (hash_init_string True table0)"] init_tables(1,2) [of table0] by fastforce

text \<open>
  after \<^verbatim>\<open>hash_del\<close> on a table of strings, \<^verbatim>\<open>hash_get\<close> returns the default value for every
  key with the same characters and the old answer for all others.
\<close>

theorem hash_del_get:
  assumes "is_string_table m" "length (htable m) < 2 ^ 29"
  shows "\<exists>m'. hash_del True k m = Some (0, m') \<and> is_string_table m' \<and> length (htable m') \<le> 2 * length (htable m) \<and>
    (\<forall>x d. hash_get m' x d = (if snd x = snd k then Some d else hash_get m x d))"
proof -
  from assms(1) have m: "hash_ok m" "hfunc m = hash_string_hfunc" "hcmp m = hash_string_cmp" by (simp_all add: is_string_table_def)
  from strings.del_ok [OF m assms(2), of k] obtain m' where m': "hash_del True k m = Some (0, m')" "hash_ok m'"
    "hfunc m' = hash_string_hfunc" "hcmp m' = hash_string_cmp" "length (htable m') \<le> 2 * length (htable m)"
    "\<forall>x. habs m' x = (if hash_string_cmp k x then None else habs m x)" by blast
  have "hash_get m' x d = (if snd x = snd k then Some d else hash_get m x d)" for x d
    using m'(6) [rule_format, of x] by (simp add: strings.get_ok(1) [OF m] strings.get_ok(1) [OF m'(2-4)] hash_string_cmp_def)
  with m' show ?thesis by (auto simp: is_string_table_def)
qed

theorem hash_del_get_witness:
  "is_string_table (snd (hash_init_string True table0)) \<and>
   (\<exists>m'. hash_del True (0x2000, ''shm'') (snd (hash_init_string True table0)) = Some (0, m') \<and>
     hash_get m' (0x80001000, ''shm'') 0 = Some 0)"
  using hash_del_get [of "snd (hash_init_string True table0)"] init_tables(1,2) [of table0] by fastforce

text \<open>
  A table keyed by pointers is a map too: every sequence of one insertion and one
  lookup agrees with the function update on pointers.
\<close>

theorem hash_direct_set_get:
  assumes "is_direct_table m" "length (htable m) < 2 ^ 29"
  shows "\<exists>m'. hash_set True k v m = Some (0, m') \<and> is_direct_table m' \<and>
    (\<forall>x d. hash_get m' x d = (if x = k then Some v else hash_get m x d))"
proof -
  from assms(1) have m: "hash_ok m" "hfunc m = hash_direct_hfunc" "hcmp m = hash_direct_cmp" by (simp_all add: is_direct_table_def)
  from direct.set_ok [OF m assms(2), of k v] obtain m' where m': "hash_set True k v m = Some (0, m')" "hash_ok m'"
    "hfunc m' = hash_direct_hfunc" "hcmp m' = hash_direct_cmp"
    "\<forall>x. habs m' x = (if hash_direct_cmp k x then Some v else habs m x)" by blast
  have "hash_get m' x d = (if x = k then Some v else hash_get m x d)" for x d
    using m'(5) by (simp add: direct.get_ok(1) [OF m] direct.get_ok(1) [OF m'(2-4)] hash_direct_cmp_def)
  with m' show ?thesis by (auto simp: is_direct_table_def)
qed

definition dtable0 :: "u32 hash_t" where
  "dtable0 = \<lparr>hfill = 0, hcount = 0, hmask = 0, htable = [], hfunc = hash_direct_hfunc, hcmp = hash_direct_cmp\<rparr>"

theorem hash_direct_set_get_witness:
  "is_direct_table (snd (hash_init_direct True dtable0)) \<and>
   (\<exists>m'. hash_set True 5 9 (snd (hash_init_direct True dtable0)) = Some (0, m') \<and> hash_get m' 5 0 = Some 9)"
  using hash_direct_set_get [of "snd (hash_init_direct True dtable0)"] init_tables(3,4) [of dtable0] by fastforce

end
