(* ===== verification/Screen.thy ===== *)
theory Screen
  imports Prelude
begin

unbundle bit_operations_syntax

text \<open>
  The text console (\<^verbatim>\<open>kernel/screen.c\<close>). Video memory is the array of 16-bit cells that starts
  at \<^verbatim>\<open>0xB8000\<close>; a cell is named by its index. The writes to the cursor's I/O ports are kept
  as a trace, last one first.
\<close>

section \<open>State and operations\<close>

record screen =
  vmem :: "nat \<Rightarrow> u16"
  current_lig :: u8
  current_col :: u8
  background_color :: u8
  foreground_color :: u8
  outs :: "(u8 \<times> u16) list"

abbreviation NB_COLUMNS :: nat where "NB_COLUMNS \<equiv> 80"
abbreviation NB_LINES :: nat where "NB_LINES \<equiv> 25"
abbreviation INFO_SIZE :: nat where "INFO_SIZE \<equiv> 6"
abbreviation CURSOR_COM_PORT :: u16 where "CURSOR_COM_PORT \<equiv> 0x3D4"
abbreviation CURSOR_DATA_PORT :: u16 where "CURSOR_DATA_PORT \<equiv> 0x3D5"

definition screen0 :: screen where
  "screen0 = \<lparr>vmem = (\<lambda>_. 0), current_lig = of_nat INFO_SIZE, current_col = 0, background_color = 0,
     foreground_color = 15, outs = []\<rparr>"

text \<open>\<^verbatim>\<open>ptr_mem\<close>, as a cell index: \<^verbatim>\<open>0xB8000 + 2 * (lig * NB_COLUMNS + col)\<close>.\<close>

definition ptr_mem :: "u8 \<Rightarrow> u8 \<Rightarrow> nat" where
  "ptr_mem lig col = unat lig * NB_COLUMNS + unat col"

text \<open>A \<^verbatim>\<open>char\<close> is signed: it is extended with its sign before it is combined with the colours.\<close>

definition car_word :: "u8 \<Rightarrow> u8 \<Rightarrow> u8 \<Rightarrow> u16" where
  "car_word c fg bg = ucast ((push_bit 12 (ucast bg) OR push_bit 8 (ucast fg) OR scast c) :: u32)"

definition write_car :: "u8 \<Rightarrow> u8 \<Rightarrow> u8 \<Rightarrow> u8 \<Rightarrow> u8 \<Rightarrow> screen \<Rightarrow> screen" where
  "write_car lig col c fg bg st =
     (if of_nat NB_LINES \<le> lig \<or> of_nat NB_COLUMNS \<le> col then st
      else st\<lparr>vmem := (vmem st)(ptr_mem lig col := car_word c fg bg)\<rparr>)"

definition clear_screen :: "screen \<Rightarrow> screen" where
  "clear_screen st =
     fold (\<lambda>i. fold (\<lambda>j. write_car (of_nat i) (of_nat j) 32 15 0) [0..<NB_COLUMNS]) [0..<NB_LINES] st"

definition outb :: "u8 \<Rightarrow> u16 \<Rightarrow> screen \<Rightarrow> screen" where
  "outb v port st = st\<lparr>outs := (v, port) # outs st\<rparr>"

definition set_cursor :: "u8 \<Rightarrow> u8 \<Rightarrow> screen \<Rightarrow> screen" where
  "set_cursor lig col st =
     (if of_nat NB_LINES \<le> lig \<or> of_nat NB_COLUMNS \<le> col then st
      else
        let pos = ucast col + ucast lig * of_nat NB_COLUMNS :: u16;
            little = ucast (pos AND 0xFF);
            big = ucast (drop_bit 8 (pos AND 0xFF00));
            st = outb big CURSOR_DATA_PORT (outb 0x0E CURSOR_COM_PORT
                   (outb little CURSOR_DATA_PORT (outb 0x0F CURSOR_COM_PORT st)))
        in st\<lparr>current_lig := lig, current_col := col\<rparr>)"

text \<open>
  \<^verbatim>\<open>memmove(STARTING_ADDRESS + NB_COLUMNS * 2 * INFO_SIZE, STARTING_ADDRESS + NB_COLUMNS * 2 *
  (INFO_SIZE + 1), NB_COLUMNS * (NB_LINES - INFO_SIZE - 1) * 2 * 8)\<close>: the length is eight
  times what the visible lines need, so cells far below the last line move too.
\<close>

abbreviation SCROLL_CELLS :: nat where
  "SCROLL_CELLS \<equiv> NB_COLUMNS * (NB_LINES - INFO_SIZE - 1) * 8"

definition scroll_memory :: "(nat \<Rightarrow> u16) \<Rightarrow> nat \<Rightarrow> u16" where
  "scroll_memory v a =
     (if NB_COLUMNS * INFO_SIZE \<le> a \<and> a < NB_COLUMNS * INFO_SIZE + SCROLL_CELLS then v (a + NB_COLUMNS) else v a)"

definition scroll :: "screen \<Rightarrow> screen" where
  "scroll st =
     fold (\<lambda>i. write_car (of_nat (NB_LINES - 1)) (of_nat i) 32 15 0) [0..<NB_COLUMNS]
       (st\<lparr>vmem := scroll_memory (vmem st)\<rparr>)"

definition print_car :: "u8 \<Rightarrow> screen \<Rightarrow> screen" where
  "print_car c st =
     (let st = write_car (current_lig st) (current_col st) c (foreground_color st) (background_color st) st;
          (new_lig, new_col, st) =
            (if current_col st = of_nat (NB_COLUMNS - 1) \<and> current_lig st \<noteq> of_nat (NB_LINES - 1)
             then (current_lig st + 1, 0, st)
             else if current_col st = of_nat (NB_COLUMNS - 1) \<and> current_lig st = of_nat (NB_LINES - 1)
             then (current_lig st, 0, scroll st)
             else (current_lig st, current_col st + 1, st));
          st = st\<lparr>current_lig := new_lig, current_col := new_col\<rparr>
      in set_cursor (current_lig st) (current_col st) st)"

definition handle_car :: "u8 \<Rightarrow> screen \<Rightarrow> screen" where
  "handle_car c st =
     (if c = 8 then
        let st = (if current_col st \<noteq> 0 then st\<lparr>current_col := current_col st - 1\<rparr> else st)
        in set_cursor (current_lig st) (current_col st) st
      else if c = 9 then
        let st = st\<lparr>current_col := current_col st - current_col st mod 4 + 4\<rparr>;
            st = (if of_nat NB_COLUMNS \<le> current_col st then st\<lparr>current_col := of_nat (NB_COLUMNS - 1)\<rparr> else st)
        in set_cursor (current_lig st) (current_col st) st
      else if c = 10 then
        let st = st\<lparr>current_col := 0\<rparr>;
            st = (if current_lig st < of_nat (NB_LINES - 1) then st\<lparr>current_lig := current_lig st + 1\<rparr> else scroll st)
        in set_cursor (current_lig st) (current_col st) st
      else if c = 12 then
        let st = clear_screen (st\<lparr>current_col := 0, current_lig := 0\<rparr>)
        in set_cursor (current_lig st) (current_col st) st
      else if c = 13 then
        let st = st\<lparr>current_col := 0\<rparr>
        in set_cursor (current_lig st) (current_col st) st
      else if 31 < sint c \<and> sint c < 127 then print_car c st
      else st)"

definition console_putbytes :: "u8 list \<Rightarrow> screen \<Rightarrow> screen" where
  "console_putbytes s st = fold handle_car s st"

section \<open>Frames\<close>

lemma write_car_frame [simp]:
  "current_lig (write_car l c x f b st) = current_lig st"
  "current_col (write_car l c x f b st) = current_col st"
  "foreground_color (write_car l c x f b st) = foreground_color st"
  "background_color (write_car l c x f b st) = background_color st"
  "outs (write_car l c x f b st) = outs st"
  by (simp_all add: write_car_def)

lemma fold_keeps: "(\<And>x st. f (g x st) = f st) \<Longrightarrow> f (fold g xs st) = f st"
  by (induction xs arbitrary: st) simp_all

lemma scroll_frame [simp]:
  "current_lig (scroll st) = current_lig st"
  "current_col (scroll st) = current_col st"
  by (simp_all add: scroll_def fold_keeps)

lemma clear_screen_frame [simp]:
  "current_lig (clear_screen st) = current_lig st"
  "current_col (clear_screen st) = current_col st"
  by (simp_all add: clear_screen_def fold_keeps)

lemma set_cursor_frame [simp]:
  "vmem (set_cursor l c st) = vmem st"
  by (simp add: set_cursor_def outb_def Let_def)

section \<open>The cursor stays on the screen\<close>

definition on_screen :: "screen \<Rightarrow> bool" where
  "on_screen st \<longleftrightarrow> unat (current_lig st) < NB_LINES \<and> unat (current_col st) < NB_COLUMNS"

lemma set_cursor_pos:
  "unat l < NB_LINES \<Longrightarrow> unat c < NB_COLUMNS \<Longrightarrow>
     current_lig (set_cursor l c st) = l \<and> current_col (set_cursor l c st) = c"
  by (simp add: set_cursor_def outb_def Let_def word_le_nat_alt)

lemma u8_less: "(x :: u8) < of_nat n \<longleftrightarrow> unat x < n" if "n < 256"
  using that by (simp add: word_less_nat_alt unat_of_nat)

lemma unat_succ8: "unat (x :: u8) < 255 \<Longrightarrow> unat (x + 1) = unat x + 1"
  by (subst unat_add_lem [THEN iffD1]) auto

lemma unat_pred8: "(x :: u8) \<noteq> 0 \<Longrightarrow> unat (x - 1) = unat x - 1"
  by (simp add: unat_minus_one)

lemma tab_col:
  assumes "unat (x :: u8) < 80" shows "unat (x - x mod 4 + 4) \<le> 83"
proof -
  have "unat (x - x mod 4) = unat x - unat x mod 4"
    by (simp add: unat_sub word_le_nat_alt unat_mod_distrib)
  then have "unat (x - x mod 4) < 80" using assms by linarith
  then have "unat (x - x mod 4 + 4) = unat (x - x mod 4) + 4" by (subst unat_add_lem [THEN iffD1]) auto
  with \<open>unat (x - x mod 4) < 80\<close> show ?thesis by linarith
qed

lemma handle_car_on_screen:
  assumes "on_screen st"
  shows "on_screen (handle_car c st)"
proof -
  have l: "unat (current_lig st) < 25" and k: "unat (current_col st) < 80" using assms by (auto simp: on_screen_def)
  note pos = set_cursor_pos [simplified]
  have "on_screen (print_car c st)"
    using l k unat_succ8 [of "current_lig st"] unat_succ8 [of "current_col st"]
    by (auto simp: print_car_def on_screen_def Let_def pos word_unat_eq_iff)
  moreover have "unat (if 80 \<le> x then 79 else x) < 80" for x :: u8 by (simp add: word_le_nat_alt)
  ultimately show ?thesis
    using l k unat_succ8 [of "current_lig st"] unat_pred8 [of "current_col st"]
    by (auto simp: handle_car_def on_screen_def Let_def pos word_less_nat_alt word_le_nat_alt assms)
qed

section \<open>Scrolling\<close>

lemma vmem_write_row:
  assumes "n \<le> NB_COLUMNS" "l < NB_LINES"
  shows "vmem (fold (\<lambda>i. write_car (of_nat l) (of_nat i) x f b) [0..<n] st) =
    (\<lambda>a. if NB_COLUMNS * l \<le> a \<and> a < NB_COLUMNS * l + n then car_word x f b else vmem st a)"
  using assms(1)
proof (induction n)
  case (Suc n)
  have u: "unat (of_nat l :: u8) = l" "unat (of_nat n :: u8) = n" using assms(2) Suc.prems by (simp_all add: unat_of_nat)
  have g: "\<not> (of_nat NB_LINES \<le> (of_nat l :: u8) \<or> of_nat NB_COLUMNS \<le> (of_nat n :: u8))"
    using assms(2) Suc.prems u by (simp add: word_le_nat_alt)
  have "vmem (write_car (of_nat l) (of_nat n) x f b s) = (vmem s)(NB_COLUMNS * l + n := car_word x f b)" for s
    using g u by (simp add: write_car_def ptr_mem_def mult.commute)
  with Suc show ?case by (auto simp: fun_eq_iff)
qed (auto simp: fun_eq_iff)

lemma vmem_scroll:
  "vmem (scroll st) = (\<lambda>a. if 1920 \<le> a \<and> a < 2000 then car_word 32 15 0 else scroll_memory (vmem st) a)"
  using vmem_write_row [of 80 24 32 15 0 "st\<lparr>vmem := scroll_memory (vmem st)\<rparr>"] by (simp add: scroll_def fun_eq_iff)

text \<open>
  \<^verbatim>\<open>scroll\<close> moves every visible line below the banner up by one, blanks the last line and
  leaves the banner alone, in spite of the length it passes to \<^verbatim>\<open>memmove\<close>; the cells it
  changes beyond the visible screen are still video memory.
\<close>

theorem scroll_lines:
  "(\<forall>l c. l < INFO_SIZE \<and> c < NB_COLUMNS \<longrightarrow>
      vmem (scroll st) (NB_COLUMNS * l + c) = vmem st (NB_COLUMNS * l + c)) \<and>
   (\<forall>l c. INFO_SIZE \<le> l \<and> l < NB_LINES - 1 \<and> c < NB_COLUMNS \<longrightarrow>
      vmem (scroll st) (NB_COLUMNS * l + c) = vmem st (NB_COLUMNS * (l + 1) + c)) \<and>
   (\<forall>c. c < NB_COLUMNS \<longrightarrow>
      vmem (scroll st) (NB_COLUMNS * (NB_LINES - 1) + c) = car_word 32 15 0) \<and>
   (\<forall>a. 0x4000 \<le> a \<longrightarrow> vmem (scroll st) a = vmem st a)"
proof (intro conjI allI impI)
  fix l c :: nat assume "INFO_SIZE \<le> l \<and> l < NB_LINES - 1 \<and> c < NB_COLUMNS"
  moreover from this have "80 * l + c + 80 = 80 * (l + 1) + c" "80 * l + c < 1920" "480 \<le> 80 * l + c" by auto
  ultimately show "vmem (scroll st) (NB_COLUMNS * l + c) = vmem st (NB_COLUMNS * (l + 1) + c)"
    by (simp add: vmem_scroll scroll_memory_def add.commute add.left_commute)
qed (auto simp: vmem_scroll scroll_memory_def)

theorem scroll_lines_witness:
  "(6::nat) < NB_LINES - 1 \<and> vmem (scroll screen0) (NB_COLUMNS * 6 + 3) = vmem screen0 (NB_COLUMNS * (6 + 1) + 3) \<and>
   vmem (scroll screen0) 0x4000 = vmem screen0 0x4000"
proof -
  have "INFO_SIZE \<le> 6 \<and> 6 < NB_LINES - 1 \<and> 3 < NB_COLUMNS" "(0x4000 :: nat) \<le> 0x4000" by simp_all
  with scroll_lines [of screen0] show ?thesis by blast
qed

section \<open>The banner is kept\<close>

text \<open>The part of video memory the console may change: from the first line below the banner.\<close>

definition below_banner :: "screen \<Rightarrow> screen \<Rightarrow> bool" where
  "below_banner st st' \<longleftrightarrow> (\<forall>a. a < NB_COLUMNS * INFO_SIZE \<longrightarrow> vmem st' a = vmem st a) \<and>
     INFO_SIZE \<le> unat (current_lig st')"

lemma write_car_below:
  "INFO_SIZE \<le> unat l \<Longrightarrow> a < 480 \<Longrightarrow> vmem (write_car l c x f b st) a = vmem st a"
  by (auto simp: write_car_def ptr_mem_def)

lemma scroll_below: "a < 480 \<Longrightarrow> vmem (scroll st) a = vmem st a"
  by (simp add: vmem_scroll scroll_memory_def)

lemma handle_car_below:
  assumes "on_screen st" "INFO_SIZE \<le> unat (current_lig st)" "c \<noteq> 12"
  shows "below_banner st (handle_car c st)"
proof -
  have l: "unat (current_lig st) < 25" and k: "unat (current_col st) < 80" using assms by (auto simp: on_screen_def)
  note pos = set_cursor_pos [simplified]
  have "below_banner st (print_car c st)"
    using l k assms(2) unat_succ8 [of "current_lig st"] unat_succ8 [of "current_col st"]
    by (auto simp: print_car_def below_banner_def Let_def pos word_unat_eq_iff write_car_below scroll_below)
  moreover have "unat (if 80 \<le> x then 79 else x) < 80" for x :: u8 by (simp add: word_le_nat_alt)
  ultimately show ?thesis
    using l k assms(2,3) unat_succ8 [of "current_lig st"] unat_pred8 [of "current_col st"]
    by (auto simp: handle_car_def below_banner_def Let_def pos word_less_nat_alt word_le_nat_alt scroll_below)
qed

text \<open>
  C31: whatever bytes other than form feed a process prints, the cursor stays on the screen
  below the banner and no cell of the banner changes.
\<close>

theorem console_keeps_banner:
  assumes "on_screen st" "INFO_SIZE \<le> unat (current_lig st)" "12 \<notin> set s"
  shows "on_screen (console_putbytes s st) \<and> below_banner st (console_putbytes s st)"
  using assms
proof (induction s arbitrary: st)
  case Nil
  then show ?case by (simp add: console_putbytes_def below_banner_def)
next
  case (Cons c s)
  have h: "below_banner st (handle_car c st)" using Cons.prems by (intro handle_car_below) auto
  moreover have "on_screen (handle_car c st)" using Cons.prems(1) by (rule handle_car_on_screen)
  ultimately have "on_screen (console_putbytes s (handle_car c st)) \<and>
      below_banner (handle_car c st) (console_putbytes s (handle_car c st))"
    using Cons.prems by (intro Cons.IH) (auto simp: below_banner_def)
  with h show ?case by (simp add: console_putbytes_def below_banner_def)
qed

theorem console_keeps_banner_witness:
  "on_screen screen0 \<and> INFO_SIZE \<le> unat (current_lig screen0) \<and> 12 \<notin> set [72, 105, 10 :: u8] \<and>
   on_screen (console_putbytes [72, 105, 10] screen0) \<and> below_banner screen0 (console_putbytes [72, 105, 10] screen0)"
  using console_keeps_banner [of screen0 "[72, 105, 10]"] by (simp add: on_screen_def screen0_def)

end
