(* ===== verification/Doprnt.thy ===== *)
theory Doprnt
  imports Prelude
begin

unbundle bit_operations_syntax

text \<open>
  Formatted output: \<^verbatim>\<open>shared/doprnt.c\<close>, \<^verbatim>\<open>sprintf.c\<close>, \<^verbatim>\<open>printf.c\<close> and the number reader
  \<^verbatim>\<open>strtol.c\<close>. The calls of the \<^verbatim>\<open>putc\<close> argument are the characters of the result, in order.
  A C string is the list of its characters without the final NUL. \<open>None\<close> is undefined
  behaviour: an argument of the wrong kind or missing, an access outside an array, a
  division by zero. \<^verbatim>\<open>DOPRNT_FLOATS\<close> is not defined in this build.
\<close>

section \<open>Characters and arguments\<close>

text \<open>The value of a (signed) \<^verbatim>\<open>char\<close>.\<close>

definition schar :: "char \<Rightarrow> int" where
  "schar c = (let n = of_char c in if n < 128 then n else n - 256)"

definition isdigit :: "char \<Rightarrow> bool" where
  "isdigit c \<longleftrightarrow> schar c \<ge> 48 \<and> schar c \<le> 57"

definition Ctod :: "char \<Rightarrow> int" where
  "Ctod c = schar c - 48"

text \<open>What \<^verbatim>\<open>va_arg\<close> finds: a machine word or a pointer to a string.\<close>

datatype varg = Word u32 | Str string

fun va_word :: "varg list \<Rightarrow> (u32 \<times> varg list) option" where
  "va_word (Word w # args) = Some (w, args)"
| "va_word _ = None"

text \<open>A string argument; NULL stands for the empty string (\<^verbatim>\<open>if (p == (char *)0) p = "";\<close>).\<close>

fun va_str :: "varg list \<Rightarrow> (string \<times> varg list) option" where
  "va_str (Str s # args) = Some (s, args)"
| "va_str (Word w # args) = (if w = 0 then Some ([], args) else None)"
| "va_str [] = None"

definition pad :: "int \<Rightarrow> char \<Rightarrow> string" where
  "pad n c = replicate (nat n) c"

section \<open>Numbers\<close>

definition digs :: string where
  "digs = ''0123456789abcdef''"

abbreviation MAXBUF :: nat where "MAXBUF \<equiv> 32"

text \<open>
  The loop \<^verbatim>\<open>do { *p-- = digs[u % base]; u /= base; } while (u != 0)\<close> that fills the buffer
  from its end; \<open>n\<close> is the room left in it.
\<close>

fun digit_loop :: "nat \<Rightarrow> u32 \<Rightarrow> u32 \<Rightarrow> string \<Rightarrow> string option" where
  "digit_loop 0 u base acc = None"
| "digit_loop (Suc n) u base acc =
     (if base = 0 \<or> 16 \<le> u mod base then None
      else
        let acc = digs ! unat (u mod base) # acc;
            u = u div base
        in if u \<noteq> 0 then digit_loop n u base acc else Some acc)"

definition printnum :: "u32 \<Rightarrow> u32 \<Rightarrow> string option" where
  "printnum u base = digit_loop MAXBUF u base []"

section \<open>One conversion\<close>

record conv =
  width :: int                \<comment> \<open>\<^verbatim>\<open>length\<close>\<close>
  prec :: int
  ladjust :: bool
  padc :: char
  plus_sign :: "char option"
  altfmt :: bool

fun scan_flags :: "conv \<Rightarrow> string \<Rightarrow> conv \<times> string" where
  "scan_flags cv (c # fmt) =
     (if c = CHR ''#'' then scan_flags (cv\<lparr>altfmt := True\<rparr>) fmt
      else if c = CHR ''-'' then scan_flags (cv\<lparr>ladjust := True\<rparr>) fmt
      else if c = CHR ''+'' then scan_flags (cv\<lparr>plus_sign := Some (CHR ''+'')\<rparr>) fmt
      else if c = CHR '' '' then
        scan_flags (if plus_sign cv = None then cv\<lparr>plus_sign := Some (CHR '' '')\<rparr> else cv) fmt
      else (cv, c # fmt))"
| "scan_flags cv [] = (cv, [])"

fun scan_num :: "int \<Rightarrow> string \<Rightarrow> int \<times> string" where
  "scan_num n (c # fmt) = (if isdigit c then scan_num (to_int32 (10 * n + Ctod c)) fmt else (n, c # fmt))"
| "scan_num n [] = (n, [])"

definition starts_with_digit :: "string \<Rightarrow> bool" where
  "starts_with_digit fmt = (case fmt of [] \<Rightarrow> False | c # _ \<Rightarrow> isdigit c)"

definition scan_width :: "conv \<Rightarrow> string \<Rightarrow> varg list \<Rightarrow> (conv \<times> string \<times> varg list) option" where
  "scan_width cv fmt args =
     (if starts_with_digit fmt then
        (case scan_num 0 fmt of (n, fmt) \<Rightarrow> Some (cv\<lparr>width := n\<rparr>, fmt, args))
      else case fmt of
        [] \<Rightarrow> Some (cv, [], args)
      | c # fmt' \<Rightarrow>
          if c = CHR ''*'' then
            (case va_word args of
               None \<Rightarrow> None
             | Some (w, args) \<Rightarrow>
                 let n = sint w in
                 Some (if n < 0 then cv\<lparr>ladjust := \<not> ladjust cv, width := to_int32 (- n)\<rparr> else cv\<lparr>width := n\<rparr>, fmt', args))
          else Some (cv, fmt, args))"

definition scan_prec :: "conv \<Rightarrow> string \<Rightarrow> varg list \<Rightarrow> (conv \<times> string \<times> varg list) option" where
  "scan_prec cv fmt args =
     (case fmt of
        [] \<Rightarrow> Some (cv, [], args)
      | c # fmt1 \<Rightarrow>
          if c \<noteq> CHR ''.'' then Some (cv, fmt, args)
          else if starts_with_digit fmt1 then
            (case scan_num 0 fmt1 of (n, fmt) \<Rightarrow> Some (cv\<lparr>prec := n\<rparr>, fmt, args))
          else case fmt1 of
            [] \<Rightarrow> Some (cv, [], args)
          | d # fmt2 \<Rightarrow>
              if d = CHR ''*'' then
                map_option (\<lambda>(w, args). (cv\<lparr>prec := sint w\<rparr>, fmt2, args)) (va_word args)
              else Some (cv, fmt1, args))"

text \<open>\<^verbatim>\<open>print_num\<close>: the digits with sign, prefix, precision and padding.\<close>

definition print_num :: "conv \<Rightarrow> char option \<Rightarrow> u32 \<Rightarrow> u32 \<Rightarrow> string option" where
  "print_num cv sign_char u base =
     (let prefix = (if u \<noteq> 0 \<and> altfmt cv then if base = 8 then ''0'' else if base = 16 then ''0x'' else '''' else '''')
      in case digit_loop MAXBUF u base [] of
           None \<Rightarrow> None
         | Some ds \<Rightarrow>
             let p = prec cv - int (length ds);
                 sign = (case sign_char of None \<Rightarrow> [] | Some c \<Rightarrow> [c]);
                 l = width cv - int (length ds) - int (length sign) - int (length prefix);
                 l = (if p > 0 then l - p else l)
             in Some ((if padc cv = CHR '' '' \<and> \<not> ladjust cv then pad l (CHR '' '') else []) @ sign @ prefix @
                      pad p (CHR ''0'') @ (if padc cv = CHR ''0'' then pad l (CHR ''0'') else []) @ ds @
                      (if ladjust cv \<and> padc cv \<noteq> CHR ''0'' then pad l (CHR '' '') else [])))"

definition print_signed :: "conv \<Rightarrow> u32 \<Rightarrow> varg list \<Rightarrow> (string \<times> varg list) option" where
  "print_signed cv base args =
     (case va_word args of
        None \<Rightarrow> None
      | Some (n, args) \<Rightarrow>
          map_option (\<lambda>s. (s, args))
            (if sint n \<ge> 0 then print_num cv (plus_sign cv) n base
             else print_num cv (Some (CHR ''-'')) (- n) base))"

definition print_unsigned :: "conv \<Rightarrow> u32 \<Rightarrow> varg list \<Rightarrow> (string \<times> varg list) option" where
  "print_unsigned cv base args =
     (case va_word args of
        None \<Rightarrow> None
      | Some (u, args) \<Rightarrow> map_option (\<lambda>s. (s, args)) (print_num cv None u base))"

text \<open>
  \<^verbatim>\<open>%s\<close>. The counter \<open>n\<close> of the printing loop is one more than the characters printed when
  the precision cut the string.
\<close>

definition print_string :: "conv \<Rightarrow> string \<Rightarrow> string" where
  "print_string cv p =
     (let pr = (if prec cv = -1 then 0x7fffffff else prec cv);
          shown = min (int (length p)) (max 0 pr);
          n = (if int (length p) \<le> pr then int (length p) else if pr < 0 then 1 else pr + 1)
      in (if width cv > 0 \<and> \<not> ladjust cv then pad (width cv - shown) (CHR '' '') else []) @
         take (nat pr) p @
         (if n < width cv \<and> ladjust cv then pad (width cv - n) (CHR '' '') else []))"

text \<open>
  \<^verbatim>\<open>%b\<close>: the loop over the field descriptions. A NUL where a field name should start makes
  the C code read past the end of the string.
\<close>

definition field_name :: "string \<Rightarrow> string" where
  "field_name p = takeWhile (\<lambda>c. schar c > 32) p"

definition after_name :: "string \<Rightarrow> string" where
  "after_name p = dropWhile (\<lambda>c. schar c > 32) p"

function bits_loop :: "u32 \<Rightarrow> u32 \<Rightarrow> bool \<Rightarrow> string \<Rightarrow> string option" where
  "bits_loop u base any p =
     (case p of
        [] \<Rightarrow> Some (if any then ''>'' else '''')
      | i # p1 \<Rightarrow>
          (case p1 of
             [] \<Rightarrow> None
           | j # p2 \<Rightarrow>
               let sep = (if any then CHR '','' else CHR ''<'') in
               if schar j \<le> 32 then
                 let lo = schar j; hi = schar i in
                 if lo < 1 \<or> lo > 32 \<or> hi < lo \<or> hi - lo \<ge> 30 then None
                 else
                   (case printnum (drop_bit (nat (lo - 1)) u AND (push_bit (nat (hi - lo)) 2 - 1)) base of
                      None \<Rightarrow> None
                    | Some ds \<Rightarrow>
                        map_option (\<lambda>rest. sep # field_name p2 @ ds @ rest) (bits_loop u base True (after_name p2)))
               else if schar i < 1 \<or> schar i > 32 then None
               else if u AND push_bit (nat (schar i - 1)) 1 \<noteq> 0 then
                 map_option (\<lambda>rest. sep # field_name p1 @ rest) (bits_loop u base True (after_name p1))
               else bits_loop u base any (after_name p1)))"
  by pat_completeness auto
termination
  by (relation "measure (\<lambda>(u, base, any, p). length p)")
    (auto simp: after_name_def le_imp_less_Suc length_dropWhile_le less_Suc_eq_le intro: le_SucI)

declare bits_loop.simps [simp del]

definition print_bits :: "varg list \<Rightarrow> (string \<times> varg list) option" where
  "print_bits args =
     (case va_word args of
        None \<Rightarrow> None
      | Some (u, args) \<Rightarrow>
          (case args of
             Str (b # p) # args \<Rightarrow>
               (let base = of_int (schar b) in
                case printnum u base of
                  None \<Rightarrow> None
                | Some ds \<Rightarrow>
                    if u = 0 then Some (ds, args)
                    else map_option (\<lambda>s. (ds @ s, args)) (bits_loop u base False p))
           | _ \<Rightarrow> None))"

text \<open>The \<^verbatim>\<open>switch\<close> on the conversion character.\<close>

definition convert :: "u32 \<Rightarrow> conv \<Rightarrow> char \<Rightarrow> varg list \<Rightarrow> (string \<times> varg list) option" where
  "convert radix cv c args =
     (if c \<in> {CHR ''b'', CHR ''B''} then print_bits args
      else if c = CHR ''c'' then map_option (\<lambda>(w, args). ([char_of (unat w mod 256)], args)) (va_word args)
      else if c = CHR ''s'' then map_option (\<lambda>(p, args). (print_string cv p, args)) (va_str args)
      else if c \<in> {CHR ''o'', CHR ''O''} then print_unsigned cv 8 args
      else if c \<in> {CHR ''d'', CHR ''i'', CHR ''D''} then print_signed cv 10 args
      else if c \<in> {CHR ''u'', CHR ''U''} then print_unsigned cv 10 args
      else if c = CHR ''p'' then
        map_option (\<lambda>(s, args). (''0x'' @ s, args))
          (print_unsigned (cv\<lparr>padc := CHR ''0'', width := 8\<rparr>) 16 args)
      else if c \<in> {CHR ''x'', CHR ''X''} then print_unsigned cv 16 args
      else if c \<in> {CHR ''z'', CHR ''Z''} then print_signed cv 16 args
      else if c \<in> {CHR ''r'', CHR ''R''} then print_signed cv radix args
      else if c \<in> {CHR ''n'', CHR ''N''} then print_unsigned cv radix args
      else Some ([c], args))"

text \<open>Everything between a \<^verbatim>\<open>%\<close> and the end of its conversion.\<close>

definition directive :: "u32 \<Rightarrow> string \<Rightarrow> varg list \<Rightarrow> (string \<times> string \<times> varg list) option" where
  "directive radix fmt args =
     (let (cv, fmt) = scan_flags \<lparr>width = 0, prec = -1, ladjust = False, padc = CHR '' '', plus_sign = None, altfmt = False\<rparr> fmt;
          (cv, fmt) = (case fmt of c # fmt' \<Rightarrow> if c = CHR ''0'' then (cv\<lparr>padc := CHR ''0''\<rparr>, fmt') else (cv, fmt) | [] \<Rightarrow> (cv, fmt))
      in case scan_width cv fmt args of
           None \<Rightarrow> None
         | Some (cv, fmt, args) \<Rightarrow>
             (case scan_prec cv fmt args of
                None \<Rightarrow> None
              | Some (cv, fmt, args) \<Rightarrow>
                  let fmt = (case fmt of c # fmt' \<Rightarrow> if c = CHR ''l'' then fmt' else fmt | [] \<Rightarrow> fmt)
                  in case fmt of
                       [] \<Rightarrow> Some ([], [], args)
                     | c # fmt \<Rightarrow> map_option (\<lambda>(s, args). (s, fmt, args)) (convert radix cv c args)))"

lemma scan_flags_length: "length (snd (scan_flags cv fmt)) \<le> length fmt"
  by (induction cv fmt rule: scan_flags.induct) (auto simp: le_Suc_eq)

lemma scan_num_length: "length (snd (scan_num n fmt)) \<le> length fmt"
  by (induction n fmt rule: scan_num.induct) (auto simp: le_Suc_eq)

lemma scan_width_length: "scan_width cv fmt args = Some (cv', fmt', args') \<Longrightarrow> length fmt' \<le> length fmt"
  using scan_num_length [of 0 fmt]
  by (auto simp: scan_width_def Let_def split: if_splits list.splits prod.splits option.splits)

lemma scan_prec_length: "scan_prec cv fmt args = Some (cv', fmt', args') \<Longrightarrow> length fmt' \<le> length fmt"
  using scan_num_length [of 0 "tl fmt"]
  by (auto simp: scan_prec_def split: if_splits list.splits prod.splits option.splits)

lemma directive_length: "directive radix fmt args = Some (s, fmt', args') \<Longrightarrow> length fmt' \<le> length fmt"
proof -
  let ?cv = "\<lparr>width = 0, prec = -1, ladjust = False, padc = CHR '' '', plus_sign = None, altfmt = False\<rparr>"
  assume d: "directive radix fmt args = Some (s, fmt', args')"
  obtain cv1 f1 where 1: "scan_flags ?cv fmt = (cv1, f1)" by force
  define cf where "cf = (case f1 of c # f \<Rightarrow> if c = CHR ''0'' then (cv1\<lparr>padc := CHR ''0''\<rparr>, f) else (cv1, f1) | [] \<Rightarrow> (cv1, f1))"
  obtain cv2 f2 where 2: "cf = (cv2, f2)" by force
  have l: "length f2 \<le> length fmt"
    using scan_flags_length [of ?cv fmt] 1 2 by (auto simp: cf_def split: list.splits if_splits)
  from d 1 2 obtain cv3 f3 a3 cv4 f4 a4 where 3: "scan_width cv2 f2 args = Some (cv3, f3, a3)" and
    4: "scan_prec cv3 f3 a3 = Some (cv4, f4, a4)" and 5: "length fmt' \<le> length f4"
    by (fastforce simp: directive_def cf_def Let_def split: option.splits prod.splits list.splits if_splits)
  from scan_width_length [OF 3] scan_prec_length [OF 4] 5 l show ?thesis by linarith
qed

function doprnt :: "u32 \<Rightarrow> string \<Rightarrow> varg list \<Rightarrow> string option" where
  "doprnt radix fmt args =
     (case fmt of
        [] \<Rightarrow> Some []
      | c # fmt1 \<Rightarrow>
          if c \<noteq> CHR ''%'' then map_option (Cons c) (doprnt radix fmt1 args)
          else
            (case directive radix fmt1 args of
               None \<Rightarrow> None
             | Some (s, fmt2, args2) \<Rightarrow> map_option ((@) s) (doprnt radix fmt2 args2)))"
  by pat_completeness auto
termination
  by (relation "measure (\<lambda>(radix, fmt, args). length fmt)") (auto dest: directive_length)

declare doprnt.simps [simp del]

end
