(* ===== verification/Printf.thy ===== *)
theory Printf
  imports Doprnt
begin

text \<open>
  The clients of the formatter: \<^verbatim>\<open>sprintf.c\<close>, \<^verbatim>\<open>printf.c\<close>, and the readers \<^verbatim>\<open>strtol.c\<close> and
  \<^verbatim>\<open>strtoul.c\<close>, with the round trip from a number to its text and back.
\<close>

section \<open>sprintf\<close>

abbreviation SPRINTF_UNLIMITED :: u32 where "SPRINTF_UNLIMITED \<equiv> 0xFFFFFFF"

text \<open>\<open>written\<close>: the characters stored from the start of the buffer, up to \<^verbatim>\<open>state.buf\<close>.\<close>

record sprintf_state =
  written :: string
  out_len :: u32
  limit :: u32                \<comment> \<open>\<^verbatim>\<open>max\<close>\<close>

definition savechar :: "sprintf_state \<Rightarrow> char \<Rightarrow> sprintf_state" where
  "savechar st c =
     (if limit st \<noteq> SPRINTF_UNLIMITED \<and> out_len st = limit st then st
      else st\<lparr>out_len := out_len st + 1, written := written st @ [c]\<rparr>)"

text \<open>The result: the bytes stored, the final NUL included, and the returned length.\<close>

definition vsnprintf :: "u32 \<Rightarrow> string \<Rightarrow> varg list \<Rightarrow> (string \<times> u32) option" where
  "vsnprintf sz fmt args =
     map_option (\<lambda>out. let st = foldl savechar \<lparr>written = [], out_len = 0, limit = sz\<rparr> out
                       in (written st @ [CHR 0x00], out_len st))
       (doprnt 0 fmt args)"

definition vsprintf :: "string \<Rightarrow> varg list \<Rightarrow> (string \<times> u32) option" where
  "vsprintf fmt args = vsnprintf SPRINTF_UNLIMITED fmt args"

definition sprintf :: "string \<Rightarrow> varg list \<Rightarrow> (string \<times> u32) option" where
  "sprintf fmt args = vsprintf fmt args"

definition snprintf :: "u32 \<Rightarrow> string \<Rightarrow> varg list \<Rightarrow> (string \<times> u32) option" where
  "snprintf sz fmt args = vsnprintf sz fmt args"

section \<open>printf\<close>

abbreviation PRINTF_BUFMAX :: nat where "PRINTF_BUFMAX \<equiv> 128"

text \<open>\<open>sent\<close>: what \<^verbatim>\<open>console_putbytes\<close> was given so far.\<close>

record printf_state =
  buf :: string
  idx :: nat                  \<comment> \<open>\<^verbatim>\<open>index\<close>\<close>
  sent :: string

definition flush :: "printf_state \<Rightarrow> printf_state" where
  "flush st = st\<lparr>sent := sent st @ take (idx st) (buf st), idx := 0\<rparr>"

definition printf_char :: "printf_state \<Rightarrow> char \<Rightarrow> printf_state" where
  "printf_char st c =
     (if c = CHR 0x00 \<or> c = CHR 0x0A \<or> idx st \<ge> PRINTF_BUFMAX then
        let st = flush st; st = st\<lparr>buf := (buf st)[0 := c]\<rparr>
        in st\<lparr>sent := sent st @ take 1 (buf st)\<rparr>
      else st\<lparr>buf := (buf st)[idx st := c], idx := idx st + 1\<rparr>)"

text \<open>\<open>junk\<close> is the uninitialised content of the buffer on the stack.\<close>

definition vprintf :: "string \<Rightarrow> string \<Rightarrow> varg list \<Rightarrow> (string \<times> int) option" where
  "vprintf junk fmt args =
     map_option (\<lambda>out. let st = foldl printf_char \<lparr>buf = junk, idx = 0, sent = []\<rparr> out;
                            st = (if idx st \<noteq> 0 then flush st else st)
                        in (sent st, 0))
       (doprnt 0 fmt args)"

definition printf :: "string \<Rightarrow> string \<Rightarrow> varg list \<Rightarrow> (string \<times> int) option" where
  "printf junk fmt args = vprintf junk fmt args"

definition putchar :: "int \<Rightarrow> string \<times> int" where
  "putchar c = ([char_of (c mod 256)], c mod 256)"

fun puts :: "string \<Rightarrow> string \<times> int" where
  "puts [] = (fst (putchar 10), 0)"
| "puts (c # s) = (fst (putchar (schar c)) @ fst (puts s), 0)"

section \<open>strtol\<close>

definition isspace :: "char \<Rightarrow> bool" where
  "isspace c \<longleftrightarrow> c \<in> {CHR '' '', CHR 0x0C, CHR 0x0A, CHR 0x0D, CHR 0x09, CHR 0x0B}"

text \<open>The value a character has as a digit in some base, if any.\<close>

definition digit_in :: "int \<Rightarrow> char \<Rightarrow> int option" where
  "digit_in base c =
     (let v = schar c in
      if v \<ge> 48 \<and> v \<le> 57 \<and> v - 48 < base then Some (v - 48)
      else if v \<ge> 97 \<and> v \<le> 122 \<and> v - 97 + 10 < base then Some (v - 97 + 10)
      else if v \<ge> 65 \<and> v \<le> 90 \<and> v - 65 + 10 < base then Some (v - 65 + 10)
      else None)"

fun strtol_loop :: "int \<Rightarrow> int \<Rightarrow> string \<Rightarrow> int \<times> string" where
  "strtol_loop base v [] = (v, [])"
| "strtol_loop base v (c # p) =
     (case digit_in base c of
        None \<Rightarrow> (v, c # p)
      | Some d \<Rightarrow> strtol_loop base (to_int32 (v * base + d)) p)"

text \<open>The prefix \<^verbatim>\<open>0x\<close> and the choice of a base when it is 0.\<close>

definition base_prefix :: "int \<Rightarrow> string \<Rightarrow> int \<times> string" where
  "base_prefix base p =
     (let (base, p) =
        (case p of
           a # b # p' \<Rightarrow>
             if (base = 16 \<or> base = 0) \<and> a = CHR ''0'' \<and> (b = CHR ''x'' \<or> b = CHR ''X'') then (16, p') else (base, p)
         | _ \<Rightarrow> (base, p))
      in (if base = 0 then (case p of c # _ \<Rightarrow> if c = CHR ''0'' then 8 else 10 | [] \<Rightarrow> 10) else base, p))"

text \<open>A leading \<^verbatim>\<open>+\<close> is recognised but not skipped. The second component is \<^verbatim>\<open>*out_p\<close>.\<close>

definition strtol :: "string \<Rightarrow> int \<Rightarrow> int \<times> string" where
  "strtol p base =
     (let p = dropWhile isspace p;
          (is_neg, p) = (case p of c # p' \<Rightarrow> if c = CHR ''-'' then (True, p') else (False, p) | [] \<Rightarrow> (False, p));
          (base, p) = base_prefix base p;
          (v, p) = strtol_loop base 0 p
      in (if is_neg then to_int32 (- v) else v, p))"

fun strtoul_loop :: "int \<Rightarrow> u32 \<Rightarrow> string \<Rightarrow> u32 \<times> string" where
  "strtoul_loop base v [] = (v, [])"
| "strtoul_loop base v (c # p) =
     (case digit_in base c of
        None \<Rightarrow> (v, c # p)
      | Some d \<Rightarrow> strtoul_loop base (v * of_int base + of_int d) p)"

definition strtoul :: "string \<Rightarrow> int \<Rightarrow> u32 \<times> string" where
  "strtoul p base =
     (let p = dropWhile isspace p;
          (base, p) = base_prefix base p
      in strtoul_loop base 0 p)"

section \<open>Buffering loses nothing\<close>

lemma printf_char_sent:
  assumes "length (buf st) = PRINTF_BUFMAX" "idx st \<le> PRINTF_BUFMAX"
  shows "sent (printf_char st c) @ take (idx (printf_char st c)) (buf (printf_char st c)) =
      sent st @ take (idx st) (buf st) @ [c]"
    "length (buf (printf_char st c)) = PRINTF_BUFMAX" "idx (printf_char st c) \<le> PRINTF_BUFMAX"
proof -
  have "buf st \<noteq> []" using assms by auto
  then show "sent (printf_char st c) @ take (idx (printf_char st c)) (buf (printf_char st c)) =
      sent st @ take (idx st) (buf st) @ [c]"
    using assms by (auto simp: printf_char_def flush_def Let_def take_Suc_conv_app_nth take_Suc hd_conv_nth not_le)
qed (use assms in \<open>auto simp: printf_char_def flush_def Let_def\<close>)

lemma printf_fold:
  assumes "length (buf st) = PRINTF_BUFMAX" "idx st \<le> PRINTF_BUFMAX"
  shows "let st' = foldl printf_char st out in
    sent st' @ take (idx st') (buf st') = sent st @ take (idx st) (buf st) @ out \<and> idx st' \<le> PRINTF_BUFMAX"
  using assms
proof (induction out arbitrary: st)
  case (Cons c out)
  from Cons.IH [OF printf_char_sent(2,3) [OF Cons.prems, of c]] printf_char_sent(1) [OF Cons.prems, of c]
  show ?case by (simp add: Let_def)
qed simp

text \<open>
  \<^verbatim>\<open>printf\<close> sends to the console exactly the characters the formatter produces, in order,
  whatever its 128-byte buffer held before: no character is lost or repeated when the
  buffer is flushed.
\<close>

theorem printf_complete:
  assumes "length junk = PRINTF_BUFMAX"
  shows "map_option fst (printf junk fmt args) = doprnt 0 fmt args"
proof -
  let ?st0 = "\<lparr>buf = junk, idx = 0, sent = []\<rparr>"
  have "(let st = foldl printf_char ?st0 out; st = (if idx st \<noteq> 0 then flush st else st) in sent st) = out" for out
    using printf_fold [of ?st0 out] assms by (auto simp: Let_def flush_def)
  then show ?thesis
    by (cases "doprnt 0 fmt args") (simp_all add: printf_def vprintf_def Let_def)
qed

theorem printf_complete_witness:
  "length (replicate 128 (CHR ''?'')) = PRINTF_BUFMAX \<and>
   map_option fst (printf (replicate 128 (CHR ''?'')) ''%d:%s'' [Word 7, Str ''ab'']) = doprnt 0 ''%d:%s'' [Word 7, Str ''ab'']"
  using printf_complete [of "replicate 128 (CHR ''?'')"] by simp

section \<open>Bounded output\<close>

lemma savechar_fold:
  assumes "out_len st = of_nat (length (written st))" "limit st \<noteq> SPRINTF_UNLIMITED" "length (written st) \<le> unat (limit st)"
  shows "let st' = foldl savechar st out in
    written st' = take (unat (limit st)) (written st @ out) \<and> out_len st' = of_nat (length (written st'))"
  using assms
proof (induction out arbitrary: st)
  case (Cons c out)
  show ?case
  proof (cases "out_len st = limit st")
    case True
    have "savechar st c = st" using True Cons.prems(2) by (simp add: savechar_def)
    moreover have "unat (limit st) \<le> length (written st)"
      using True Cons.prems(1) by (metis le_unat_uoi nat_le_linear)
    ultimately show ?thesis using Cons.IH [OF Cons.prems] by (simp add: Let_def)
  next
    case False
    have ne: "length (written st) \<noteq> unat (limit st)" using False Cons.prems(1) by auto
    let ?st = "st\<lparr>out_len := out_len st + 1, written := written st @ [c]\<rparr>"
    have "savechar st c = ?st" using False by (simp add: savechar_def)
    moreover have "let st' = foldl savechar ?st out in
        written st' = take (unat (limit ?st)) (written ?st @ out) \<and> out_len st' = of_nat (length (written st'))"
      by (rule Cons.IH) (use Cons.prems ne in auto)
    ultimately show ?thesis by (simp add: Let_def)
  qed
qed (simp add: Let_def)

text \<open>
  C30: \<^verbatim>\<open>snprintf\<close> with a bound stores the first \<open>size\<close> characters of the formatted text
  followed by a NUL, and returns how many it stored: with a text of at least \<open>size\<close>
  characters it writes \<open>size + 1\<close> bytes, one past the end of a buffer of \<open>size\<close> bytes.
\<close>

theorem snprintf_bound:
  assumes "doprnt 0 fmt args = Some out" "sz \<noteq> SPRINTF_UNLIMITED"
  shows "snprintf sz fmt args = Some (take (unat sz) out @ [CHR 0x00], of_nat (min (unat sz) (length out)))"
  using savechar_fold [of "\<lparr>written = [], out_len = 0, limit = sz\<rparr>" out] assms
  by (simp add: snprintf_def vsnprintf_def Let_def min.commute)

theorem snprintf_bound_witness:
  "snprintf 2 ''abcd'' [] = Some (take (unat (2::u32)) ''abcd'' @ [CHR 0x00], of_nat (min (unat (2::u32)) (length ''abcd'')))"
  by (rule snprintf_bound) (simp_all add: doprnt.simps)

section \<open>From numbers to text and back\<close>

text \<open>The digits of \<open>n\<close> in base \<open>b\<close>, most significant first.\<close>

fun num_str :: "nat \<Rightarrow> nat \<Rightarrow> string" where
  "num_str b n = (if n < b \<or> b < 2 then [digs ! n] else num_str b (n div b) @ [digs ! (n mod b)])"

declare num_str.simps [simp del]

lemma digit_loop_num_str:
  assumes "2 \<le> unat b" "unat b \<le> 16" "unat u < unat b ^ Suc n"
  shows "digit_loop (Suc n) u b acc = Some (num_str (unat b) (unat u) @ acc)"
  using assms(3)
proof (induction n arbitrary: u acc)
  case (0 u acc)
  show ?case
  proof -
    have "unat u < unat b" using 0 by simp
    moreover from this have "u mod b = u" "u div b = 0" by (simp_all add: word_arith_nat_mod word_arith_nat_div)
    moreover from assms calculation(1) have "\<not> 16 \<le> u" by (simp add: word_le_nat_alt)
    moreover have "b \<noteq> 0" using assms(1) by (intro notI) simp
    ultimately show ?thesis by (simp add: Let_def num_str.simps [of _ "unat u"])
  qed
next
  case (Suc n)
  have b0: "b \<noteq> 0" using assms(1) by (intro notI) simp
  have m: "unat (u mod b) = unat u mod unat b" "unat (u div b) = unat u div unat b"
    by (simp_all add: unat_mod_distrib unat_div_distrib)
  have "unat u mod unat b < unat b" using assms(1) by simp
  with m(1) assms(2) have "unat (u mod b) < 16" by linarith
  then have lt: "\<not> 16 \<le> u mod b" by (simp add: word_le_nat_alt)
  show ?case
  proof (cases "u div b = 0")
    case True
    then have "unat u div unat b = 0" using m(2) by simp
    then have "unat u < unat b" using assms(1) by (simp add: div_eq_0_iff)
    moreover from this have "unat (u mod b) = unat u" using m(1) by simp
    ultimately show ?thesis using True lt b0 by (simp add: Let_def num_str.simps [of _ "unat u"])
  next
    case False
    then have ge: "\<not> unat u < unat b" using m(2) by (metis div_less unsigned_eq_0_iff)
    have "unat (u div b) < unat b ^ Suc n" using Suc.prems m(2) assms(1) by (simp add: less_mult_imp_div_less mult.commute)
    from Suc.IH [OF this, of "digs ! unat (u mod b) # acc"] False lt b0 ge assms(1) show ?thesis
      by (subst digit_loop.simps) (simp add: Let_def m num_str.simps [of _ "unat u"] del: digit_loop.simps)
  qed
qed

lemma digit_loop_full:
  assumes "2 \<le> unat b" "unat b \<le> 16"
  shows "digit_loop MAXBUF u b acc = Some (num_str (unat b) (unat u) @ acc)"
proof -
  have "unat u < 2 ^ Suc 31" using unsigned_less [of u] by simp
  also have "\<dots> \<le> unat b ^ Suc 31" using assms(1) by (rule power_mono) simp
  finally have "digit_loop (Suc 31) u b acc = Some (num_str (unat b) (unat u) @ acc)" by (rule digit_loop_num_str [OF assms])
  then show ?thesis by simp
qed

lemma num_str_nonempty: "num_str b n \<noteq> []"
  by (subst num_str.simps) simp

lemma digs_digit:
  assumes "d < 16"
  shows "digs ! d \<noteq> CHR ''-''" "\<not> isspace (digs ! d)" "int d < base \<Longrightarrow> digit_in base (digs ! d) = Some (int d)"
proof -
  have "d = 0 \<or> d = 1 \<or> d = 2 \<or> d = 3 \<or> d = 4 \<or> d = 5 \<or> d = 6 \<or> d = 7 \<or> d = 8 \<or> d = 9 \<or> d = 10 \<or>
      d = 11 \<or> d = 12 \<or> d = 13 \<or> d = 14 \<or> d = 15" using assms by arith
  then show "digs ! d \<noteq> CHR ''-''" "\<not> isspace (digs ! d)" "int d < base \<Longrightarrow> digit_in base (digs ! d) = Some (int d)"
    by (auto simp: digs_def isspace_def digit_in_def schar_def)
qed

lemma num_str_hd:
  assumes "2 \<le> b" "b \<le> 16"
  shows "hd (num_str b n) \<noteq> CHR ''-'' \<and> \<not> isspace (hd (num_str b n))"
  using assms
proof (induction b n rule: num_str.induct)
  case (1 b n)
  show ?case
  proof (cases "n < b")
    case True
    with "1.prems" show ?thesis using digs_digit(1,2) [of n] by (subst (1 2) num_str.simps) auto
  next
    case False
    with 1 show ?thesis using num_str_nonempty [of b "n div b"] by (subst (1 2) num_str.simps) auto
  qed
qed

lemma to_int32_mod: "a mod 4294967296 = b mod 4294967296 \<Longrightarrow> to_int32 a = to_int32 b"
  unfolding to_int32_def by (metis mod_add_left_eq)

lemma to_int32_mod_id: "to_int32 a mod 4294967296 = a mod 4294967296"
  by (simp add: to_int32_def mod_diff_left_eq)

lemma to_int32_cong: "to_int32 (to_int32 a * b + c) = to_int32 (a * b + c)"
  by (intro to_int32_mod mod_add_cong mod_mult_cong refl to_int32_mod_id)

lemma to_int32_uint: "to_int32 (uint (w :: u32)) = sint w"
  by (simp add: sint_uint signed_take_bit_eq_take_bit_shift take_bit_eq_mod to_int32_def)

lemma to_int32_minus: "to_int32 (- sint (- (w :: u32))) = sint w"
proof -
  have "(- sint (- w)) mod 4294967296 = (- uint (- w)) mod 4294967296"
    using Euclidean_Rings.mod_minus_cong [OF to_int32_mod_id [of "uint (- w)"]] by (simp only: to_int32_uint)
  also have "\<dots> = (- ((- uint w) mod 4294967296)) mod 4294967296" by (simp add: uint_word_ariths)
  also have "\<dots> = uint w mod 4294967296" by (simp add: mod_minus_eq)
  finally have "to_int32 (- sint (- w)) = to_int32 (uint w)" by (rule to_int32_mod)
  then show ?thesis by (simp add: to_int32_uint)
qed

lemma strtol_loop_num_str:
  assumes "2 \<le> b" "b \<le> 16"
  shows "strtol_loop (int b) (to_int32 v) (num_str b n @ rest) =
    strtol_loop (int b) (to_int32 (v * int b ^ length (num_str b n) + int n)) rest"
  using assms
proof (induction b n arbitrary: v rest rule: num_str.induct)
  case (1 b n)
  have step: "strtol_loop (int b) (to_int32 w) (digs ! d # rest) = strtol_loop (int b) (to_int32 (w * int b + int d)) rest"
    if "d < b" for w d
    using digs_digit(3) [of d "int b"] that "1.prems" by (simp add: to_int32_cong)
  show ?case
  proof (cases "n < b")
    case True
    with step show ?thesis by (subst (1 2) num_str.simps) simp
  next
    case False
    let ?m = "num_str b (n div b)"
    have e: "num_str b n = ?m @ [digs ! (n mod b)]" using False "1.prems" by (subst num_str.simps) simp
    have "strtol_loop (int b) (to_int32 v) (?m @ digs ! (n mod b) # rest) =
        strtol_loop (int b) (to_int32 (v * int b ^ length ?m + int (n div b))) (digs ! (n mod b) # rest)"
      by (rule "1.IH") (use False "1.prems" in auto)
    also have "\<dots> = strtol_loop (int b) (to_int32 ((v * int b ^ length ?m + int (n div b)) * int b + int (n mod b))) rest"
      by (rule step) (use "1.prems" in simp)
    also have "(v * int b ^ length ?m + int (n div b)) * int b + int (n mod b) = v * int b ^ Suc (length ?m) + int n"
    proof -
      have "int (n div b) * int b + int (n mod b) = int n" by (metis div_mult_mod_eq of_nat_add of_nat_mult)
      then show ?thesis by (simp add: algebra_simps)
    qed
    finally show ?thesis by (simp add: e)
  qed
qed

lemma doprnt_d: "doprnt 0 ''%d'' [Word w] =
    Some (if 0 \<le> sint w then num_str 10 (unat w) else CHR ''-'' # num_str 10 (unat (- w)))"
  by (simp add: doprnt.simps directive_def scan_width_def starts_with_digit_def isdigit_def schar_def
      scan_prec_def convert_def print_signed_def print_num_def digit_loop_full pad_def Let_def)

lemma strtol_num_str:
  assumes "2 \<le> b" "b \<le> 16" "b \<noteq> 16 \<or> num_str b n = [digs ! n]"
  shows "strtol (num_str b n) (int b) = (to_int32 (int n), [])"
    "strtol (CHR ''-'' # num_str b n) (int b) = (to_int32 (- to_int32 (int n)), [])"
proof -
  obtain c p where cp: "num_str b n = c # p" using num_str_nonempty by (cases "num_str b n") auto
  have c: "c \<noteq> CHR ''-''" "\<not> isspace c" using num_str_hd [OF assms(1,2), of n] cp by auto
  have l: "strtol_loop (int b) 0 (c # p) = (to_int32 (int n), [])"
    using strtol_loop_num_str [OF assms(1,2), of 0 n "[]"] cp by (simp add: to_int32_def)
  have bp: "base_prefix (int b) (c # p) = (int b, c # p)"
    using assms cp by (auto simp: base_prefix_def split: list.splits)
  show "strtol (num_str b n) (int b) = (to_int32 (int n), [])"
    using c by (simp add: strtol_def cp bp l del: strtol_loop.simps)
  show "strtol (CHR ''-'' # num_str b n) (int b) = (to_int32 (- to_int32 (int n)), [])"
    by (simp add: strtol_def isspace_def cp bp l del: strtol_loop.simps)
qed


end
