(* ===== verification/Queue.thy ===== *)
theory Queue
  imports Prelude
begin

text \<open>
  The generic priority queues of \<^verbatim>\<open>shared/queue.h\<close>: circular doubly-linked lists of
  \<open>link\<close> records that sit inside the queued structures. The first part models the C code
  on a heap of links; the second is the list view the kernel components are written
  against; the third states the interface of both as a locale and interprets it twice, so
  that whatever is proved from the interface holds of the pointer code.

  A heap address of a \<open>link\<close> is either a list head (\<open>Head q\<close>) or the link field of an
  element (\<open>Elem e\<close>). NULL is \<open>None\<close>.
\<close>

section \<open>The pointer code\<close>

datatype ('q, 'e) node = Head 'q | Elem 'e

text \<open>\<^verbatim>\<open>struct list_link\<close>: the two pointers of every link of the heap.\<close>

record 'n links =
  prev :: "'n \<Rightarrow> 'n option"
  nxt :: "'n \<Rightarrow> 'n option"

datatype queue_error = Assert_failed | Null_deref

definition INIT_LIST_HEAD :: "'n \<Rightarrow> 'n links \<Rightarrow> 'n links" where
  "INIT_LIST_HEAD h l = l\<lparr>nxt := (nxt l)(h := Some h), prev := (prev l)(h := Some h)\<rparr>"

definition INIT_LINK :: "'n \<Rightarrow> 'n links \<Rightarrow> 'n links" where
  "INIT_LINK h l = l\<lparr>nxt := (nxt l)(h := None), prev := (prev l)(h := None)\<rparr>"

definition queue_empty :: "'n \<Rightarrow> 'n links \<Rightarrow> bool" where
  "queue_empty h l \<longleftrightarrow> nxt l h = Some h"

definition queue_initialized :: "'n \<Rightarrow> 'n links \<Rightarrow> bool" where
  "queue_initialized e l \<longleftrightarrow> nxt l e = None \<and> prev l e = None"

text \<open>
  The search loop of \<^verbatim>\<open>queue_add\<close>: \<^verbatim>\<open>do cur = cur->next; while (cur != head &&
  entry(cur)->prio < elem->prio)\<close>. \<open>None\<close> stands for a NULL link on the way or a loop that
  never comes back to the head; \<open>queue_scan_ring\<close> below shows it returns on every ring.
\<close>

partial_function (option) queue_scan ::
    "('n \<Rightarrow> int) \<Rightarrow> 'n links \<Rightarrow> 'n \<Rightarrow> int \<Rightarrow> 'n \<Rightarrow> 'n option" where
  "queue_scan prio l head p cur =
     (case nxt l cur of
        None \<Rightarrow> None
      | Some c \<Rightarrow> if c \<noteq> head \<and> prio c < p then queue_scan prio l head p c else Some c)"

definition queue_add ::
    "('n \<Rightarrow> int) \<Rightarrow> 'n \<Rightarrow> 'n \<Rightarrow> 'n links \<Rightarrow> queue_error + 'n links" where
  "queue_add prio elem head l =
     (if \<not> queue_initialized elem l then Inl Assert_failed
      else case queue_scan prio l head (prio elem) head of
        None \<Rightarrow> Inl Null_deref
      | Some cur \<Rightarrow>
          let l = l\<lparr>nxt := (nxt l)(elem := Some cur)\<rparr>;
              l = l\<lparr>prev := (prev l)(elem := prev l cur)\<rparr>
          in case prev l cur of
               None \<Rightarrow> Inl Null_deref
             | Some before \<Rightarrow>
                 let l = l\<lparr>nxt := (nxt l)(before := Some elem)\<rparr>
                 in Inr (l\<lparr>prev := (prev l)(cur := Some elem)\<rparr>))"

definition queue_out :: "'n \<Rightarrow> 'n links \<Rightarrow> queue_error + 'n option \<times> 'n links" where
  "queue_out head l =
     (case prev l head of
        None \<Rightarrow> if queue_empty head l then Inr (None, l) else Inl Null_deref
      | Some ret \<Rightarrow>
          if queue_empty head l then Inr (None, l)
          else
            let l = l\<lparr>prev := (prev l)(head := prev l ret)\<rparr>
            in case prev l head of
                 None \<Rightarrow> Inl Null_deref
               | Some before \<Rightarrow>
                   let l = l\<lparr>nxt := (nxt l)(before := Some head)\<rparr>;
                       l = l\<lparr>prev := (prev l)(ret := None)\<rparr>
                   in Inr (Some ret, l\<lparr>nxt := (nxt l)(ret := None)\<rparr>))"

definition queue_del :: "'n \<Rightarrow> 'n links \<Rightarrow> queue_error + 'n links" where
  "queue_del elem l =
     (case (prev l elem, nxt l elem) of
        (Some p, Some n) \<Rightarrow>
          let l = l\<lparr>nxt := (nxt l)(p := Some n)\<rparr>;
              l = l\<lparr>prev := (prev l)(n := Some p)\<rparr>;
              l = l\<lparr>nxt := (nxt l)(elem := None)\<rparr>
          in Inr (l\<lparr>prev := (prev l)(elem := None)\<rparr>)
      | _ \<Rightarrow> Inl Assert_failed)"

definition queue_top :: "'n \<Rightarrow> 'n links \<Rightarrow> 'n option" where
  "queue_top head l = (if queue_empty head l then None else prev l head)"

definition queue_bottom :: "'n \<Rightarrow> 'n links \<Rightarrow> 'n option" where
  "queue_bottom head l = (if queue_empty head l then None else nxt l head)"

text \<open>
  \<^verbatim>\<open>queue_for_each\<close> visits the elements from \<open>from->next\<close> up to the head. The traversal
  returns the visited elements in order.
\<close>

partial_function (option) queue_for_each :: "'n links \<Rightarrow> 'n \<Rightarrow> 'n \<Rightarrow> 'n list option" where
  "queue_for_each l head cur =
     (case nxt l cur of
        None \<Rightarrow> None
      | Some c \<Rightarrow>
          if c = head then Some []
          else Option.bind (queue_for_each l head c) (\<lambda>xs. Some (c # xs)))"

section \<open>Rings\<close>

text \<open>\<open>seg l a xs b\<close>: the links lead from \<open>a\<close> through \<open>xs\<close> to \<open>b\<close>, and back.\<close>

fun seg :: "'n links \<Rightarrow> 'n \<Rightarrow> 'n list \<Rightarrow> 'n \<Rightarrow> bool" where
  "seg l a [] b \<longleftrightarrow> nxt l a = Some b \<and> prev l b = Some a"
| "seg l a (x # xs) b \<longleftrightarrow> nxt l a = Some x \<and> prev l x = Some a \<and> seg l x xs b"

definition ring :: "'n links \<Rightarrow> 'n \<Rightarrow> 'n list \<Rightarrow> bool" where
  "ring l h xs \<longleftrightarrow> seg l h xs h \<and> distinct (h # xs)"

lemma seg_append: "seg l a (xs @ y # ys) b \<longleftrightarrow> seg l a xs y \<and> seg l y ys b"
  by (induction xs arbitrary: a) auto

lemma seg_frame:
  "(\<And>n. n \<in> set (a # xs) \<Longrightarrow> nxt l' n = nxt l n) \<Longrightarrow>
   (\<And>n. n \<in> set (xs @ [b]) \<Longrightarrow> prev l' n = prev l n) \<Longrightarrow> seg l' a xs b = seg l a xs b"
  by (induction xs arbitrary: a) auto

lemma seg_last: "seg l a xs b \<Longrightarrow> prev l b = Some (last (a # xs))"
  by (induction xs arbitrary: a) auto

lemma seg_first: "seg l a xs b \<Longrightarrow> nxt l a = Some (hd (xs @ [b]))"
  by (cases xs) auto

lemma ring_frame:
  "(\<And>n. n \<in> set (h # xs) \<Longrightarrow> nxt l' n = nxt l n \<and> prev l' n = prev l n) \<Longrightarrow>
   ring l' h xs = ring l h xs"
  unfolding ring_def using seg_frame [of h xs l' l h] by auto

lemma ring_linked: "ring l h xs \<Longrightarrow> n \<in> set (h # xs) \<Longrightarrow> nxt l n \<noteq> None \<and> prev l n \<noteq> None"
proof -
  assume r: "ring l h xs" and n: "n \<in> set (h # xs)"
  show ?thesis
  proof (cases "n = h")
    case True
    with r show ?thesis by (auto simp: ring_def dest: seg_last seg_first)
  next
    case False
    with n obtain ys zs where "xs = ys @ n # zs" by (auto dest: split_list)
    with r show ?thesis by (auto simp: ring_def seg_append dest: seg_last seg_first)
  qed
qed

lemma ring_empty: "ring l h xs \<Longrightarrow> queue_empty h l \<longleftrightarrow> xs = []"
  by (cases xs) (auto simp: ring_def queue_empty_def)

lemma ring_top: "ring l h xs \<Longrightarrow> queue_top h l = (if xs = [] then None else Some (last xs))"
  by (auto simp: queue_top_def ring_empty) (auto simp: ring_def dest: seg_last)

lemma ring_bottom: "ring l h xs \<Longrightarrow> queue_bottom h l = (if xs = [] then None else Some (hd xs))"
  by (auto simp: queue_bottom_def ring_empty) (auto simp: ring_def dest: seg_first)

lemma queue_scan_seg:
  "seg l cur xs head \<Longrightarrow> head \<notin> set xs \<Longrightarrow>
   queue_scan prio l head p cur = Some (hd (dropWhile (\<lambda>x. prio x < p) xs @ [head]))"
  by (induction xs arbitrary: cur) (auto simp: queue_scan.simps)

lemma queue_scan_ring:
  "ring l h xs \<Longrightarrow>
   queue_scan prio l h p h = Some (hd (dropWhile (\<lambda>x. prio x < p) xs @ [h]))"
  by (auto simp: ring_def intro: queue_scan_seg)

lemma queue_for_each_seg:
  "seg l cur xs head \<Longrightarrow> head \<notin> set xs \<Longrightarrow> queue_for_each l head cur = Some xs"
  by (induction xs arbitrary: cur) (auto simp: queue_for_each.simps)

lemma ring_INIT: "ring (INIT_LIST_HEAD h l) h []"
  by (simp add: ring_def INIT_LIST_HEAD_def)

section \<open>The list view\<close>

text \<open>
  The position \<^verbatim>\<open>queue_add\<close> chooses: before the first element whose priority is not
  below the new one. The list is kept in increasing priority, the next element out is the
  last one, and among equals the oldest is last.
\<close>

definition qinsert :: "('e \<Rightarrow> int) \<Rightarrow> 'e \<Rightarrow> 'e list \<Rightarrow> 'e list" where
  "qinsert prio e xs =
     takeWhile (\<lambda>x. prio x < prio e) xs @ e # dropWhile (\<lambda>x. prio x < prio e) xs"

lemma set_qinsert [simp]: "set (qinsert prio e xs) = insert e (set xs)"
  unfolding qinsert_def by (rule takeWhile_dropWhile_set)

lemma distinct_qinsert [simp]: "distinct (qinsert prio e xs) \<longleftrightarrow> distinct xs \<and> e \<notin> set xs"
  unfolding qinsert_def by (rule takeWhile_dropWhile_distinct)

lemma length_qinsert [simp]: "length (qinsert prio e xs) = Suc (length xs)"
  unfolding qinsert_def by (rule takeWhile_dropWhile_length)

lemma qinsert_not_Nil [simp]: "qinsert prio e xs \<noteq> []"
  by (simp add: qinsert_def)

lemma mset_qinsert [simp]: "mset (qinsert prio e xs) = add_mset e (mset xs)"
  unfolding qinsert_def by (rule takeWhile_dropWhile_mset)

lemma sorted_qinsert: "sorted (map prio xs) \<Longrightarrow> sorted (map prio (qinsert prio e xs))"
  unfolding qinsert_def by (rule sorted_insert_takeWhile)

lemma qinsert_map: "qinsert prio (f e) (map f xs) = map f (qinsert (prio \<circ> f) e xs)"
  by (simp add: qinsert_def takeWhile_map dropWhile_map comp_def)

section \<open>The pointer code on a ring\<close>

text \<open>
  What each operation does to the ring it works on, and that it writes no link outside
  that ring and the element it is given.
\<close>

lemma ring_split_scan:
  fixes prio :: "'n \<Rightarrow> int" and p :: int
  assumes "ring l h xs"
  defines "ys \<equiv> takeWhile (\<lambda>x. prio x < p) xs" and "zs \<equiv> dropWhile (\<lambda>x. prio x < p) xs"
  shows "queue_scan prio l h p h = Some (hd (zs @ [h]))"
    and "prev l (hd (zs @ [h])) = Some (last (h # ys))"
    and "seg l h (ys @ zs) h"
proof -
  show "queue_scan prio l h p h = Some (hd (zs @ [h]))"
    using assms queue_scan_ring by (simp add: zs_def)
  show sg: "seg l h (ys @ zs) h"
    using assms by (simp add: ring_def ys_def zs_def)
  show "prev l (hd (zs @ [h])) = Some (last (h # ys))"
  proof (cases zs)
    case Nil
    with sg seg_last [of l h ys h] show ?thesis by simp
  next
    case (Cons z zs')
    with sg have "seg l h ys z" by (simp add: seg_append)
    with Cons seg_last [of l h ys z] show ?thesis by simp
  qed
qed

lemma seg_insert:
  assumes sg: "seg l a (ys @ zs) b" and fresh: "e \<notin> set (a # ys @ zs @ [b])"
    and dist: "distinct (a # ys @ zs)" "b \<notin> set (ys @ zs)"
    and c: "c = hd (zs @ [b])" and d: "d = last (a # ys)"
    and nx: "nxt l' = (nxt l)(e := Some c, d := Some e)"
    and pv: "prev l' = (prev l)(e := Some d, c := Some e)"
  shows "seg l' a (ys @ e # zs) b"
  using sg fresh dist c d
proof (induction ys arbitrary: a)
  case Nil
  show ?case
  proof (cases zs)
    case Nil2: Nil
    with Nil nx pv show ?thesis by auto
  next
    case (Cons z zs')
    have "seg l' z zs' b = seg l z zs' b"
      by (rule seg_frame) (use Nil Cons nx pv in auto)
    with Nil Cons nx pv show ?thesis by simp
  qed
next
  case (Cons y ys)
  then have "seg l' y (ys @ e # zs) b"
    by simp
  moreover have "a \<noteq> d" and "a \<noteq> e" and "y \<noteq> c" and "y \<noteq> e"
    using Cons.prems by (auto simp: hd_append split: if_splits)
  ultimately show ?case using Cons.prems nx pv by simp
qed

lemma queue_add_ring:
  assumes r: "ring l h xs" and fresh: "queue_initialized e l"
  shows "\<exists>l'. queue_add prio e h l = Inr l' \<and> ring l' h (qinsert prio e xs) \<and>
           (\<forall>n. n \<notin> set (h # e # xs) \<longrightarrow> nxt l' n = nxt l n \<and> prev l' n = prev l n)"
proof -
  define ys where "ys = takeWhile (\<lambda>x. prio x < prio e) xs"
  define zs where "zs = dropWhile (\<lambda>x. prio x < prio e) xs"
  define c where "c = hd (zs @ [h])"
  define d where "d = last (h # ys)"
  define l' where
    "l' = l\<lparr>nxt := (nxt l)(e := Some c, d := Some e), prev := (prev l)(e := Some d, c := Some e)\<rparr>"
  have xs: "xs = ys @ zs" by (simp add: ys_def zs_def)
  note sc = ring_split_scan [OF r, of prio "prio e", folded ys_def zs_def c_def d_def]
  have e: "e \<notin> set (h # xs)"
    using fresh ring_linked [OF r, of e] by (auto simp: queue_initialized_def)
  have c_in: "c \<in> set (h # xs)" and d_in: "d \<in> set (h # xs)"
    using xs by (auto simp: c_def d_def hd_append intro: last_in_set split: if_splits)
  have ec: "e \<noteq> c" using c_in e by auto
  have "queue_add prio e h l = Inr l'"
    using fresh sc ec by (simp add: queue_add_def l'_def Let_def)
  moreover have "ring l' h (qinsert prio e xs)"
  proof -
    have dist: "distinct (h # ys @ zs)" using r xs by (simp add: ring_def)
    have "seg l' h (ys @ e # zs) h"
      by (rule seg_insert [OF sc(3) _ dist _ c_def d_def])
        (use e xs dist in \<open>auto simp: l'_def\<close>)
    moreover have "distinct (h # ys @ e # zs)"
      using dist e xs by auto
    ultimately show ?thesis
      by (simp add: ring_def qinsert_def ys_def zs_def)
  qed
  moreover have "\<forall>n. n \<notin> set (h # e # xs) \<longrightarrow> nxt l' n = nxt l n \<and> prev l' n = prev l n"
    using c_in d_in by (auto simp: l'_def)
  ultimately show ?thesis by blast
qed

lemma seg_remove:
  assumes sg: "seg l a (ys @ e # zs) b"
    and dist: "distinct (a # ys @ e # zs)" "b \<notin> set (ys @ e # zs)"
    and n: "n = hd (zs @ [b])" and p: "p = last (a # ys)"
  shows "prev l e = Some p" and "nxt l e = Some n"
    and "nxt l' = (nxt l)(p := Some n, e := None) \<Longrightarrow>
         prev l' = (prev l)(n := Some p, e := None) \<Longrightarrow> seg l' a (ys @ zs) b"
proof -
  from sg have l1: "seg l a ys e" and l2: "seg l e zs b" by (simp_all add: seg_append)
  show "prev l e = Some p" using seg_last [OF l1] p by simp
  show "nxt l e = Some n" using seg_first [OF l2] n by simp
  assume nx: "nxt l' = (nxt l)(p := Some n, e := None)"
    and pv: "prev l' = (prev l)(n := Some p, e := None)"
  show "seg l' a (ys @ zs) b"
    using sg dist n p
  proof (induction ys arbitrary: a)
    case Nil
    show ?case
    proof (cases zs)
      case Nil2: Nil
      with Nil nx pv show ?thesis by auto
    next
      case (Cons z zs')
      have "seg l' z zs' b = seg l z zs' b"
        by (rule seg_frame) (use Nil Cons nx pv in auto)
      with Nil Cons nx pv show ?thesis by auto
    qed
  next
    case (Cons y ys)
    then have "seg l' y (ys @ zs) b" by simp
    moreover have "a \<noteq> p" and "a \<noteq> e" and "y \<noteq> n" and "y \<noteq> e"
      using Cons.prems by (auto simp: hd_append split: if_splits)
    ultimately show ?case using Cons.prems nx pv by simp
  qed
qed

lemma queue_del_ring:
  assumes r: "ring l h xs" and e: "e \<in> set xs"
  shows "\<exists>l'. queue_del e l = Inr l' \<and> ring l' h (remove1 e xs) \<and> queue_initialized e l' \<and>
           (\<forall>n. n \<notin> set (h # xs) \<longrightarrow> nxt l' n = nxt l n \<and> prev l' n = prev l n)"
proof -
  from e obtain ys zs where xs: "xs = ys @ e # zs" and ys: "e \<notin> set ys"
    by (meson split_list_first)
  define n where "n = hd (zs @ [h])"
  define p where "p = last (h # ys)"
  define l' where
    "l' = l\<lparr>nxt := (nxt l)(p := Some n, e := None), prev := (prev l)(n := Some p, e := None)\<rparr>"
  have dist: "distinct (h # ys @ e # zs)" "h \<notin> set (ys @ e # zs)"
    using r xs by (auto simp: ring_def)
  have sg: "seg l h (ys @ e # zs) h" using r xs by (simp add: ring_def)
  note rm = seg_remove [OF sg dist n_def p_def]
  have "p \<in> set (h # xs)" "n \<in> set (h # xs)"
    using xs by (auto simp: p_def n_def hd_append intro: last_in_set split: if_splits)
  moreover have "queue_del e l = Inr l'"
    using rm by (simp add: queue_del_def l'_def Let_def)
  moreover have "ring l' h (remove1 e xs)"
    using rm(3) [of l'] dist ys xs by (simp add: ring_def l'_def remove1_append)
  moreover have "queue_initialized e l'"
    by (simp add: queue_initialized_def l'_def)
  ultimately show ?thesis using e by (intro exI [of _ l']) (auto simp: l'_def)
qed

lemma queue_out_del:
  assumes r: "ring l h xs" and ne: "xs \<noteq> []"
  shows "queue_out h l = bindE (queue_del (last xs) l) (\<lambda>l'. Inr (Some (last xs), l'))"
proof -
  define e where "e = last xs"
  have xs: "xs = butlast xs @ e # []" using ne by (simp add: e_def)
  have dist: "distinct (h # butlast xs @ e # [])" "h \<notin> set (butlast xs @ e # [])"
    using r xs unfolding ring_def by (metis distinct.simps(2))+
  have sg: "seg l h (butlast xs @ e # []) h" using r xs by (metis ring_def)
  define p where "p = last (h # butlast xs)"
  note rm = seg_remove [OF sg dist refl p_def]
  have h: "prev l h = Some e" using sg seg_append [of l h "butlast xs" e "[]"] by simp
  have "e \<noteq> h" using dist by auto
  have "p \<noteq> e"
    using dist unfolding p_def by (metis distinct.simps(2) distinct_append last_in_set
        append_Cons disjoint_iff list.distinct(1) list.set_intros(1))
  have "\<not> queue_empty h l" using ring_empty [OF r] ne by simp
  then show ?thesis
    using h rm(1,2) \<open>e \<noteq> h\<close> \<open>p \<noteq> e\<close>
    by (simp add: queue_out_def queue_del_def Let_def e_def [symmetric] fun_upd_twist)
qed

section \<open>All queues of the kernel as lists\<close>

text \<open>
  The kernel components work on this view: the contents of every queue, and for every
  element the queue its link is in (\<open>None\<close>: both pointers of the link are NULL).
\<close>

record ('q, 'e) qstate =
  lists :: "'q \<Rightarrow> 'e list"
  home :: "'e \<Rightarrow> 'q option"

definition q_init :: "'q \<Rightarrow> ('q, 'e) qstate \<Rightarrow> ('q, 'e) qstate" where
  "q_init q s = s\<lparr>lists := (lists s)(q := [])\<rparr>"

definition q_linked :: "'e \<Rightarrow> ('q, 'e) qstate \<Rightarrow> bool" where
  "q_linked e s \<longleftrightarrow> home s e \<noteq> None"

definition q_add ::
    "('e \<Rightarrow> int) \<Rightarrow> 'e \<Rightarrow> 'q \<Rightarrow> ('q, 'e) qstate \<Rightarrow> queue_error + ('q, 'e) qstate" where
  "q_add prio e q s =
     (if home s e \<noteq> None then Inl Assert_failed
      else Inr (s\<lparr>lists := (lists s)(q := qinsert prio e (lists s q)),
                  home := (home s)(e := Some q)\<rparr>))"

definition q_out ::
    "'q \<Rightarrow> ('q, 'e) qstate \<Rightarrow> queue_error + 'e option \<times> ('q, 'e) qstate" where
  "q_out q s =
     (if lists s q = [] then Inr (None, s)
      else Inr (Some (last (lists s q)),
                s\<lparr>lists := (lists s)(q := butlast (lists s q)),
                  home := (home s)(last (lists s q) := None)\<rparr>))"

definition q_del :: "'e \<Rightarrow> ('q, 'e) qstate \<Rightarrow> queue_error + ('q, 'e) qstate" where
  "q_del e s = (case home s e of
      None \<Rightarrow> Inl Assert_failed
    | Some q \<Rightarrow> Inr (s\<lparr>lists := (lists s)(q := remove1 e (lists s q)),
                        home := (home s)(e := None)\<rparr>))"

definition qwf :: "('q, 'e) qstate \<Rightarrow> bool" where
  "qwf s \<longleftrightarrow> (\<forall>q. distinct (lists s q)) \<and> (\<forall>q e. e \<in> set (lists s q) \<longleftrightarrow> home s e = Some q)"

section \<open>The interface of a family of priority queues\<close>

text \<open>
  What the kernel relies on when it queues a process: an element whose link is free can be
  added to any queue and lands after the elements of higher or equal priority; the element
  that leaves is the last; deletion takes the element out of whatever queue it is in; no
  operation disturbs another queue.
\<close>

locale prio_queues =
  fixes add :: "('e \<Rightarrow> int) \<Rightarrow> 'e \<Rightarrow> 'q \<Rightarrow> 's \<Rightarrow> queue_error + 's"
    and out :: "'q \<Rightarrow> 's \<Rightarrow> queue_error + 'e option \<times> 's"
    and del :: "'e \<Rightarrow> 's \<Rightarrow> queue_error + 's"
    and linked :: "'e \<Rightarrow> 's \<Rightarrow> bool"
    and elems :: "'q \<Rightarrow> 's \<Rightarrow> 'e list"
    and invar :: "'s \<Rightarrow> bool"
  assumes elems_distinct: "invar s \<Longrightarrow> distinct (elems q s)"
    and elems_disjoint: "invar s \<Longrightarrow> e \<in> set (elems q s) \<Longrightarrow> e \<in> set (elems q' s) \<Longrightarrow> q = q'"
    and linked_iff: "invar s \<Longrightarrow> linked e s \<longleftrightarrow> (\<exists>q. e \<in> set (elems q s))"
    and add_linked: "invar s \<Longrightarrow> linked e s \<Longrightarrow> add prio e q s = Inl Assert_failed"
    and add_free: "invar s \<Longrightarrow> \<not> linked e s \<Longrightarrow>
      \<exists>s'. add prio e q s = Inr s' \<and> invar s' \<and>
        (\<forall>q'. elems q' s' = (if q' = q then qinsert prio e (elems q s) else elems q' s))"
    and out_empty: "invar s \<Longrightarrow> elems q s = [] \<Longrightarrow> out q s = Inr (None, s)"
    and out_last: "invar s \<Longrightarrow> elems q s \<noteq> [] \<Longrightarrow>
      \<exists>s'. out q s = Inr (Some (last (elems q s)), s') \<and> invar s' \<and>
        (\<forall>q'. elems q' s' = (if q' = q then butlast (elems q s) else elems q' s))"
    and del_free: "invar s \<Longrightarrow> \<not> linked e s \<Longrightarrow> del e s = Inl Assert_failed"
    and del_linked: "invar s \<Longrightarrow> e \<in> set (elems q s) \<Longrightarrow>
      \<exists>s'. del e s = Inr s' \<and> invar s' \<and>
        (\<forall>q'. elems q' s' = (if q' = q then remove1 e (elems q s) else elems q' s))"
begin

lemma out_max_prio:
  assumes "invar s" and "sorted (map prio (elems q s))" and "out q s = Inr (Some e, s')"
  shows "e \<in> set (elems q s) \<and> (\<forall>x \<in> set (elems q s). prio x \<le> prio e)"
proof (cases "elems q s = []")
  case True
  with assms out_empty show ?thesis by force
next
  case False
  with assms out_last [of s q] have e: "e = last (elems q s)" by auto
  have *: "prio x \<le> prio (last xs)" if "sorted (map prio xs)" "x \<in> set xs" for x and xs
    using that by (induction xs rule: rev_induct) (auto simp: sorted_append)
  with e False assms(2) show ?thesis by auto
qed

lemma add_sorted:
  assumes "invar s" and "sorted (map prio (elems q s))" and "add prio e q s = Inr s'"
  shows "sorted (map prio (elems q s')) \<and> mset (elems q s') = add_mset e (mset (elems q s))"
proof -
  have "\<not> linked e s" using assms(1,3) add_linked by fastforce
  with assms add_free [of s e prio q] have "elems q s' = qinsert prio e (elems q s)" by auto
  with assms(2) show ?thesis by (simp add: sorted_qinsert)
qed

lemma fifo_equal_prio:
  assumes "invar s" and "elems q s = []" and "\<not> linked a s" and "\<not> linked b s" and "a \<noteq> b"
    and "prio a = prio b"
  shows "\<exists>s1 s2 s3 s4. add prio a q s = Inr s1 \<and> add prio b q s1 = Inr s2 \<and>
           out q s2 = Inr (Some a, s3) \<and> out q s3 = Inr (Some b, s4) \<and> elems q s4 = []"
proof -
  obtain s1 where s1: "add prio a q s = Inr s1" "invar s1"
    "\<forall>q'. elems q' s1 = (if q' = q then [a] else elems q' s)"
    using add_free [OF assms(1,3), of prio q] assms(2) by (auto simp: qinsert_def)
  have "\<not> linked b s1"
    using s1 assms linked_iff [OF assms(1)] linked_iff [OF s1(2)] by (auto split: if_splits)
  then obtain s2 where s2: "add prio b q s1 = Inr s2" "invar s2" "elems q s2 = [b, a]"
    using add_free [OF s1(2), of b prio q] s1(3) assms(6) by (auto simp: qinsert_def)
  then obtain s3 where s3: "out q s2 = Inr (Some a, s3)" "invar s3" "elems q s3 = [b]"
    using out_last [of s2 q] by auto
  then obtain s4 where "out q s3 = Inr (Some b, s4)" "elems q s4 = []"
    using out_last [of s3 q] by auto
  with s1 s2 s3 show ?thesis by blast
qed

lemma del_then_add:
  assumes "invar s" and "e \<in> set (elems q s)"
  shows "\<exists>s1 s2. del e s = Inr s1 \<and> add prio e q s1 = Inr s2 \<and> invar s2 \<and>
           (\<forall>q'. set (elems q' s2) = set (elems q' s)) \<and> elems q s2 = qinsert prio e (remove1 e (elems q s))"
proof -
  obtain s1 where s1: "del e s = Inr s1" "invar s1"
    "\<forall>q'. elems q' s1 = (if q' = q then remove1 e (elems q s) else elems q' s)"
    using del_linked [OF assms] by blast
  have "\<not> linked e s1"
    using s1(3) linked_iff [OF s1(2), of e] elems_distinct [OF assms(1)] elems_disjoint [OF assms(1)]
      assms(2) by (auto split: if_splits)
  then obtain s2 where "add prio e q s1 = Inr s2" "invar s2"
    "\<forall>q'. elems q' s2 = (if q' = q then qinsert prio e (elems q s1) else elems q' s1)"
    using add_free [OF s1(2)] by blast
  with s1 elems_distinct [OF assms(1), of q] assms(2) show ?thesis
    by (intro exI [of _ s1] exI [of _ s2]) (auto simp: set_remove1_eq)
qed

end

interpretation lq: prio_queues q_add q_out q_del q_linked "\<lambda>q s. lists s q" qwf
proof unfold_locales
  fix s :: "('q, 'e) qstate" and q and e
  assume wf: "qwf s" and ne: "lists s q \<noteq> []"
  let ?e = "last (lists s q)"
  have "set (butlast (lists s q)) = set (lists s q) - {?e}"
    using wf ne by (auto simp: qwf_def set_butlast_distinct)
  moreover have "home s ?e = Some q" using wf last_in_set [OF ne] unfolding qwf_def by blast
  ultimately have "qwf (s\<lparr>lists := (lists s)(q := butlast (lists s q)), home := (home s)(?e := None)\<rparr>)"
    using wf by (auto simp: qwf_def distinct_butlast)
  then show "\<exists>s'. q_out q s = Inr (Some (last (lists s q)), s') \<and> qwf s' \<and>
        (\<forall>q'. lists s' q' = (if q' = q then butlast (lists s q) else lists s q'))"
    using ne by (simp add: q_out_def)
qed (auto simp: q_add_def q_out_def q_del_def q_linked_def qwf_def split: option.splits)

section \<open>The pointer code implements the list view\<close>

fun node_prio :: "('e \<Rightarrow> int) \<Rightarrow> ('q, 'e) node \<Rightarrow> int" where
  "node_prio prio (Elem e) = prio e"
| "node_prio prio (Head q) = 0"

fun node_elem :: "('q, 'e) node \<Rightarrow> 'e option" where
  "node_elem (Elem e) = Some e"
| "node_elem (Head q) = None"

text \<open>The pointer operations with the element and head types of a kernel queue.\<close>

definition c_add ::
    "('e \<Rightarrow> int) \<Rightarrow> 'e \<Rightarrow> 'q \<Rightarrow> ('q, 'e) node links \<Rightarrow> queue_error + ('q, 'e) node links" where
  "c_add prio e q l = queue_add (node_prio prio) (Elem e) (Head q) l"

definition c_out ::
    "'q \<Rightarrow> ('q, 'e) node links \<Rightarrow> queue_error + 'e option \<times> ('q, 'e) node links" where
  "c_out q l = bindE (queue_out (Head q) l) (\<lambda>(n, l'). Inr (Option.bind n node_elem, l'))"

definition c_del :: "'e \<Rightarrow> ('q, 'e) node links \<Rightarrow> queue_error + ('q, 'e) node links" where
  "c_del e l = queue_del (Elem e) l"

definition c_linked :: "'e \<Rightarrow> ('q, 'e) node links \<Rightarrow> bool" where
  "c_linked e l \<longleftrightarrow> \<not> queue_initialized (Elem e) l"

definition c_elems :: "'q \<Rightarrow> ('q, 'e) node links \<Rightarrow> 'e list" where
  "c_elems q l = (case queue_for_each l (Head q) (Head q) of
      None \<Rightarrow> [] | Some ns \<Rightarrow> List.map_filter node_elem ns)"

definition c_invar :: "('q, 'e) node links \<Rightarrow> bool" where
  "c_invar l \<longleftrightarrow>
     (\<forall>q. ring l (Head q) (map Elem (c_elems q l))) \<and>
     (\<forall>e q q'. e \<in> set (c_elems q l) \<longrightarrow> e \<in> set (c_elems q' l) \<longrightarrow> q = q') \<and>
     (\<forall>e. (\<forall>q. e \<notin> set (c_elems q l)) \<longrightarrow> queue_initialized (Elem e) l)"

lemma remove1_map_Elem: "remove1 (Elem e) (map Elem xs) = map Elem (remove1 e xs)"
  by (induction xs) auto

lemma remove1_last: "distinct xs \<Longrightarrow> xs \<noteq> [] \<Longrightarrow> remove1 (last xs) xs = butlast xs"
  by (induction xs rule: rev_induct) (auto simp: remove1_append)

lemma c_elems_ring: "ring l (Head q) (map Elem xs) \<Longrightarrow> c_elems q l = xs"
proof -
  assume r: "ring l (Head q) (map Elem xs)"
  then have "queue_for_each l (Head q) (Head q) = Some (map Elem xs)"
    by (intro queue_for_each_seg) (auto simp: ring_def)
  moreover have "List.map_filter node_elem (map (Elem :: 'b \<Rightarrow> ('a, 'b) node) xs) = xs"
    by (induction xs) (auto simp: map_filter_simps)
  ultimately show ?thesis by (simp add: c_elems_def)
qed

lemma c_invar_step:
  fixes l l' :: "('q, 'e) node links"
  assumes inv: "c_invar l"
    and r: "ring l' (Head q) (map Elem xs)"
    and fr: "\<And>n. n \<notin> set (Head q # Elem e # map Elem (c_elems q l)) \<Longrightarrow>
               nxt l' n = nxt l n \<and> prev l' n = prev l n"
    and e: "\<And>q'. e \<in> set (c_elems q' l) \<Longrightarrow> q' = q"
    and xs: "set xs \<subseteq> insert e (set (c_elems q l))" "set (c_elems q l) \<subseteq> insert e (set xs)"
    and free: "e \<notin> set xs \<Longrightarrow> queue_initialized (Elem e) l'"
  shows "c_invar l' \<and> (\<forall>q'. c_elems q' l' = (if q' = q then xs else c_elems q' l))"
proof -
  have other: "ring l' (Head q') (map Elem (c_elems q' l))" if "q' \<noteq> q" for q'
  proof -
    have "ring l' (Head q') (map Elem (c_elems q' l)) = ring l (Head q') (map Elem (c_elems q' l))"
      by (rule ring_frame) (use that inv e in \<open>auto simp: c_invar_def intro!: fr\<close>)
    with inv show ?thesis by (simp add: c_invar_def)
  qed
  have el: "c_elems q' l' = (if q' = q then xs else c_elems q' l)" for q'
    using c_elems_ring [OF r] c_elems_ring [OF other] by auto
  have dj: "e' \<in> set (c_elems q1 l') \<Longrightarrow> e' \<in> set (c_elems q2 l') \<Longrightarrow> q1 = q2" for e' q1 q2
  proof -
    have sub: "set (c_elems q'' l') \<subseteq> (if q'' = q then insert e (set (c_elems q l)) else set (c_elems q'' l))" for q''
      using xs(1) by (simp add: el)
    have inj: "a \<in> set (c_elems q1 l) \<Longrightarrow> a \<in> set (c_elems q2 l) \<Longrightarrow> q1 = q2" for a q1 q2
      using inv unfolding c_invar_def by blast
    assume "e' \<in> set (c_elems q1 l')" "e' \<in> set (c_elems q2 l')"
    with sub [of q1] sub [of q2] show "q1 = q2"
      by (cases "q1 = q"; cases "q2 = q") (auto dest: inj e)
  qed
  have "queue_initialized (Elem e') l'" if "\<forall>q. e' \<notin> set (c_elems q l')" for e'
  proof (cases "e' = e")
    case True
    with that el [of q] free show ?thesis by (metis (full_types))
  next
    case False
    have nin: "e' \<notin> set (c_elems q' l)" for q'
      using that [rule_format, of q'] xs(2) False el [of q'] by (cases "q' = q") auto
    then have "queue_initialized (Elem e') l" using inv unfolding c_invar_def by blast
    then show ?thesis using fr [of "Elem e'"] nin [of q] False by (auto simp: queue_initialized_def)
  qed
  moreover have "ring l' (Head q') (map Elem (c_elems q' l'))" for q'
    using other [of q'] r by (simp add: el)
  ultimately have "c_invar l'" unfolding c_invar_def using dj by blast
  with el show ?thesis by blast
qed

interpretation cq: prio_queues c_add c_out c_del c_linked c_elems c_invar
proof unfold_locales
  fix s :: "('q, 'e) node links" and q q' e and prio :: "'e \<Rightarrow> int"
  assume inv: "c_invar s"
  have r: "ring s (Head q) (map Elem (c_elems q s))" for q using inv by (simp add: c_invar_def)
  show "distinct (c_elems q s)" using r [of q] by (simp add: ring_def distinct_map)
  show lk: "c_linked e s \<longleftrightarrow> (\<exists>q. e \<in> set (c_elems q s))" for e
    using inv ring_linked [OF r, of "Elem e"]
    by (auto simp: c_invar_def c_linked_def queue_initialized_def)
  show "c_linked e s \<Longrightarrow> c_add prio e q s = Inl Assert_failed"
    by (simp add: c_linked_def c_add_def queue_add_def)
  show "\<not> c_linked e s \<Longrightarrow> c_del e s = Inl Assert_failed"
    by (auto simp: c_linked_def c_del_def queue_del_def queue_initialized_def split: option.splits)
  show "e \<in> set (c_elems q s) \<Longrightarrow> e \<in> set (c_elems q' s) \<Longrightarrow> q = q'"
    using inv by (auto simp: c_invar_def)
  show "c_elems q s = [] \<Longrightarrow> c_out q s = Inr (None, s)"
    using ring_empty [OF r [of q]] by (auto simp: c_out_def queue_out_def split: option.splits)
  show "\<exists>s'. c_add prio e q s = Inr s' \<and> c_invar s' \<and>
          (\<forall>q'. c_elems q' s' = (if q' = q then qinsert prio e (c_elems q s) else c_elems q' s))"
    if "\<not> c_linked e s"
  proof -
    have "queue_initialized (Elem e) s" using that by (simp add: c_linked_def)
    from queue_add_ring [OF r [of q] this, of "node_prio prio"] obtain s' where
      s': "c_add prio e q s = Inr s'" "ring s' (Head q) (map Elem (qinsert prio e (c_elems q s)))"
      and fr: "\<And>n. n \<notin> set (Head q # Elem e # map Elem (c_elems q s)) \<Longrightarrow>
               nxt s' n = nxt s n \<and> prev s' n = prev s n"
      by (auto simp: c_add_def qinsert_map comp_def)
    have "c_invar s' \<and> (\<forall>q'. c_elems q' s' = (if q' = q then qinsert prio e (c_elems q s) else c_elems q' s))"
      by (rule c_invar_step [OF inv s'(2) fr]) (use that lk in auto)
    with s'(1) show ?thesis by blast
  qed
  show del: "\<exists>s'. c_del e s = Inr s' \<and> c_invar s' \<and>
          (\<forall>q'. c_elems q' s' = (if q' = q then remove1 e (c_elems q s) else c_elems q' s))"
    if e: "e \<in> set (c_elems q s)" for e
  proof -
    have "Elem e \<in> set (map Elem (c_elems q s) :: ('q, 'e) node list)" using e by simp
    from queue_del_ring [OF r this] obtain s' where s': "c_del e s = Inr s'"
      "ring s' (Head q) (map Elem (remove1 e (c_elems q s)))" "queue_initialized (Elem e) s'"
      and fr: "\<And>n. n \<notin> set (Head q # map Elem (c_elems q s)) \<Longrightarrow>
               nxt s' n = nxt s n \<and> prev s' n = prev s n"
      by (auto simp: c_del_def remove1_map_Elem)
    have dist: "distinct (c_elems q s)" using r [of q] by (simp add: ring_def distinct_map)
    have "c_invar s' \<and> (\<forall>q'. c_elems q' s' = (if q' = q then remove1 e (c_elems q s) else c_elems q' s))"
      by (rule c_invar_step [OF inv s'(2), where e = e])
        (use e fr s'(3) inv dist in \<open>auto simp: c_invar_def\<close>)
    with s'(1) show ?thesis by blast
  qed
  show "\<exists>s'. c_out q s = Inr (Some (last (c_elems q s)), s') \<and> c_invar s' \<and>
          (\<forall>q'. c_elems q' s' = (if q' = q then butlast (c_elems q s) else c_elems q' s))"
    if ne: "c_elems q s \<noteq> []"
  proof -
    have "c_out q s = bindE (c_del (last (c_elems q s)) s) (\<lambda>l'. Inr (Some (last (c_elems q s)), l'))"
      using queue_out_del [OF r [of q]] ne
      by (simp add: c_out_def c_del_def bindE_assoc last_map)
    moreover have "remove1 (last (c_elems q s)) (c_elems q s) = butlast (c_elems q s)"
      using r [of q] ne by (simp add: ring_def distinct_map remove1_last)
    ultimately show ?thesis using del [of "last (c_elems q s)"] ne by auto
  qed
qed

section \<open>Properties\<close>

text \<open>The pointer heap \<open>l\<close> and the list view \<open>s\<close> describe the same queues.\<close>

definition c_refines :: "('q, 'e) node links \<Rightarrow> ('q, 'e) qstate \<Rightarrow> bool" where
  "c_refines l s \<longleftrightarrow> c_invar l \<and> qwf s \<and> (\<forall>q. c_elems q l = lists s q)"

lemma c_refines_linked: "c_refines l s \<Longrightarrow> c_linked e l = q_linked e s"
  unfolding c_refines_def using cq.linked_iff [of l e] lq.linked_iff [of s e] by simp

text \<open>A heap on which every list head has been initialised and every link is free.\<close>

definition links0 :: "('q, 'e) node links" where
  "links0 = (let f = (\<lambda>n. case n of Head q \<Rightarrow> Some (Head q) | Elem e \<Rightarrow> None)
             in \<lparr>prev = f, nxt = f\<rparr>)"

definition qstate0 :: "('q, 'e) qstate" where
  "qstate0 = \<lparr>lists = (\<lambda>q. []), home = (\<lambda>e. None)\<rparr>"

lemma ring_links0: "ring links0 (Head q) []"
  by (simp add: links0_def ring_def Let_def)

lemma c_refines_0: "c_refines links0 qstate0"
proof -
  have el: "c_elems q (links0 :: ('a, 'b) node links) = []" for q
    by (rule c_elems_ring) (simp add: ring_links0)
  have "queue_initialized (Elem e) (links0 :: ('a, 'b) node links)" for e :: 'b
    by (simp add: links0_def queue_initialized_def Let_def)
  then have "c_invar (links0 :: ('a, 'b) node links)"
    by (simp add: c_invar_def el ring_links0)
  with el show ?thesis by (simp add: c_refines_def qstate0_def qwf_def)
qed

text \<open>
  C14. The pointer operations of \<^verbatim>\<open>queue.h\<close> implement the list view: from related
  states \<^verbatim>\<open>queue_add\<close>, \<^verbatim>\<open>queue_out\<close> and \<^verbatim>\<open>queue_del\<close> fail together (the same assertion) or
  succeed together, return the same element and lead to related states. In particular the
  search loop of \<^verbatim>\<open>queue_add\<close> ends and no NULL link is followed.
\<close>

theorem queue_pointer_refinement:
  assumes "c_refines l s"
  shows "rel_sum (=) c_refines (c_add prio e q l) (q_add prio e q s) \<and>
         rel_sum (=) (rel_prod (=) c_refines) (c_out q l) (q_out q s) \<and>
         rel_sum (=) c_refines (c_del e l) (q_del e s)"
proof (intro conjI)
  have cl: "c_invar l" and ls: "qwf s" and el: "\<And>q. c_elems q l = lists s q"
    using assms by (auto simp: c_refines_def)
  note lk = c_refines_linked [OF assms, of e]
  show "rel_sum (=) c_refines (c_add prio e q l) (q_add prio e q s)"
  proof (cases "q_linked e s")
    case True
    with lk cq.add_linked [OF cl] lq.add_linked [OF ls] show ?thesis by simp
  next
    case False
    with lk cq.add_free [OF cl, of e prio q] lq.add_free [OF ls, of e prio q] el show ?thesis
      by (auto simp: c_refines_def)
  qed
  show "rel_sum (=) (rel_prod (=) c_refines) (c_out q l) (q_out q s)"
  proof (cases "lists s q = []")
    case True
    with el cq.out_empty [OF cl] lq.out_empty [OF ls] assms show ?thesis by simp
  next
    case False
    with cq.out_last [OF cl, of q] lq.out_last [OF ls, of q] el show ?thesis
      by (auto simp: c_refines_def)
  qed
  show "rel_sum (=) c_refines (c_del e l) (q_del e s)"
  proof (cases "q_linked e s")
    case True
    then obtain q where "e \<in> set (lists s q)" using lq.linked_iff [OF ls] by blast
    with cq.del_linked [OF cl, of e q] lq.del_linked [OF ls, of e q] el show ?thesis
      by (auto simp: c_refines_def)
  next
    case False
    with lk cq.del_free [OF cl] lq.del_free [OF ls] show ?thesis by simp
  qed
qed

theorem queue_pointer_refinement_witness:
  "c_refines (links0 :: (nat, nat) node links) qstate0 \<and>
   rel_sum (=) c_refines (c_add int 7 0 (links0 :: (nat, nat) node links)) (q_add int 7 0 qstate0)"
  using c_refines_0 queue_pointer_refinement [OF c_refines_0, of int 7 0] by blast

text \<open>
  \<^verbatim>\<open>queue_add\<close> on the pointers keeps a queue sorted by increasing priority and adds
  exactly the new element; it returns whenever the element's link is free, and the element
  \<^verbatim>\<open>queue_out\<close> then takes has the highest priority of all.
\<close>

theorem queue_add_out_priority:
  assumes "c_invar l" and "\<not> c_linked e l" and "sorted (map prio (c_elems q l))"
  shows "\<exists>l1 x l2. c_add prio e q l = Inr l1 \<and> c_out q l1 = Inr (Some x, l2) \<and>
           sorted (map prio (c_elems q l1)) \<and>
           mset (c_elems q l1) = add_mset e (mset (c_elems q l)) \<and>
           mset (c_elems q l1) = add_mset x (mset (c_elems q l2)) \<and>
           (\<forall>y \<in> set (c_elems q l1). prio y \<le> prio x)"
proof -
  obtain l1 where l1: "c_add prio e q l = Inr l1" "c_invar l1" "c_elems q l1 = qinsert prio e (c_elems q l)"
    using cq.add_free [OF assms(1,2), of prio q] by auto
  then obtain l2 where l2: "c_out q l1 = Inr (Some (last (c_elems q l1)), l2)"
    "c_elems q l2 = butlast (c_elems q l1)"
    using cq.out_last [OF l1(2), of q] by auto
  have "c_elems q l1 = c_elems q l2 @ [last (c_elems q l1)]"
    using l1(3) l2(2) by simp
  then have "mset (c_elems q l1) = add_mset (last (c_elems q l1)) (mset (c_elems q l2))"
    by (metis mset.simps(1) mset.simps(2) mset_append union_mset_add_mset_right add.right_neutral)
  with l1 l2 cq.add_sorted [OF assms(1,3) l1(1)] cq.out_max_prio [OF l1(2) _ l2(1)] show ?thesis
    by blast
qed

theorem queue_add_out_priority_witness:
  "\<exists>l1 x l2. c_add int 5 0 (links0 :: (nat, nat) node links) = Inr l1 \<and> c_out 0 l1 = Inr (Some x, l2)"
proof -
  have "c_invar (links0 :: (nat, nat) node links)" "\<not> c_linked 5 (links0 :: (nat, nat) node links)"
    "c_elems 0 (links0 :: (nat, nat) node links) = []"
    using c_refines_0 c_refines_linked [OF c_refines_0, of 5]
    by (auto simp: c_refines_def q_linked_def qstate0_def)
  with queue_add_out_priority [of "links0 :: (nat, nat) node links" 5 int 0] show ?thesis by auto
qed

text \<open>
  Equal priorities leave a queue in the order they entered it (the FIFO behaviour
  \<^verbatim>\<open>queue.h\<close> promises), on the pointer representation.
\<close>

theorem queue_fifo:
  assumes "c_invar l" and "c_elems q l = []" and "\<not> c_linked a l" and "\<not> c_linked b l" and "a \<noteq> b"
    and "prio a = prio b"
  shows "\<exists>l1 l2 l3 l4. c_add prio a q l = Inr l1 \<and> c_add prio b q l1 = Inr l2 \<and>
           c_out q l2 = Inr (Some a, l3) \<and> c_out q l3 = Inr (Some b, l4) \<and> c_elems q l4 = []"
  using assms by (rule cq.fifo_equal_prio)

theorem queue_fifo_witness:
  "\<exists>l1 l2 l3 l4. c_add (\<lambda>_. 128) 1 0 (links0 :: (nat, nat) node links) = Inr l1 \<and>
     c_add (\<lambda>_. 128) 2 0 l1 = Inr l2 \<and>
     c_out 0 l2 = Inr (Some 1, l3) \<and> c_out 0 l3 = Inr (Some 2, l4) \<and> c_elems 0 l4 = []"
proof -
  have "c_invar (links0 :: (nat, nat) node links)" "\<not> c_linked e (links0 :: (nat, nat) node links)"
    "c_elems 0 (links0 :: (nat, nat) node links) = []" for e
    using c_refines_0 c_refines_linked [OF c_refines_0, of e]
    by (auto simp: c_refines_def q_linked_def qstate0_def)
  then show ?thesis by (intro queue_fifo) auto
qed

end
