(* ===== verification/Mmu.thy ===== *)
theory Mmu
  imports Prelude
begin

unbundle bit_operations_syntax

text \<open>
  Physical page allocation and page tables (\<^verbatim>\<open>kernel/mmu.c\<close>). Memory is a store of
  32-bit words by physical address. The kernel maps the first 256 MB one to one, except
  the first page, so an access by kernel code to an address outside
  \<open>[0x1000, 0x10000000)\<close> page-faults. All accesses of this file are word aligned.
\<close>

section \<open>State and memory accesses\<close>

record mm_state =
  phys :: "u32 \<Rightarrow> u32"
  PHYSICAL_MEMORY_HEAD :: u32
  next_virtual_address :: u32
  CR3 :: u32

definition kmapped :: "u32 \<Rightarrow> bool" where
  "kmapped a \<longleftrightarrow> 0x1000 \<le> a \<and> a < 0x10000000"

definition load32 :: "u32 \<Rightarrow> mm_state \<Rightarrow> (mm_state, u32) result" where
  "load32 a mm = (if kmapped a then Inr (phys mm a) else Inl (PageFault mm))"

definition store32 :: "u32 \<Rightarrow> u32 \<Rightarrow> mm_state \<Rightarrow> (mm_state, mm_state) result" where
  "store32 a v mm =
     (if kmapped a then Inr (mm\<lparr>phys := (phys mm)(a := v)\<rparr>) else Inl (PageFault mm))"

abbreviation MEMORY_START :: u32 where "MEMORY_START \<equiv> 0x04000000"
abbreviation MEMORY_END :: u32 where "MEMORY_END \<equiv> 0x10000000"
abbreviation PAGE_TABLE_RO :: u32 where "PAGE_TABLE_RO \<equiv> 1"
abbreviation PAGE_TABLE_RW :: u32 where "PAGE_TABLE_RW \<equiv> 3"
abbreviation PAGE_TABLE_USER_RO :: u32 where "PAGE_TABLE_USER_RO \<equiv> 5"
abbreviation PAGE_TABLE_USER_RW :: u32 where "PAGE_TABLE_USER_RW \<equiv> 7"
abbreviation FRAME_MASK :: u32 where "FRAME_MASK \<equiv> 0xFFFFF000"

section \<open>The list of free physical blocks\<close>

text \<open>
  \<^verbatim>\<open>address += 4096\<close> advances an \<open>int *\<close>, that is by 16384 bytes. The loop runs from
  \<^verbatim>\<open>MEMORY_START\<close> while the next block starts below \<^verbatim>\<open>MEMORY_END\<close>; its counter is the
  address as a natural number.
\<close>

function init_free_list_loop :: "nat \<Rightarrow> mm_state \<Rightarrow> (mm_state, mm_state) result" where
  "init_free_list_loop a mm =
     (if a + 4 * 4096 < 0x10000000
      then bindE (store32 (of_nat a) (of_nat (a + 4 * 4096)) mm)
             (\<lambda>mm. init_free_list_loop (a + 4 * 4096) mm)
      else store32 (of_nat a) 0 mm)"
  by pat_completeness auto
termination
  by (relation "measure (\<lambda>(a, mm). 0x10000000 - a)") auto

declare init_free_list_loop.simps [simp del]

definition init_free_list :: "mm_state \<Rightarrow> (mm_state, mm_state) result" where
  "init_free_list mm = init_free_list_loop 0x04000000 mm"

definition free_physical_memory_address :: "u32 \<Rightarrow> mm_state \<Rightarrow> (mm_state, mm_state) result" where
  "free_physical_memory_address address mm =
     bindE (store32 address (PHYSICAL_MEMORY_HEAD mm) mm)
       (\<lambda>mm. Inr (mm\<lparr>PHYSICAL_MEMORY_HEAD := address\<rparr>))"

definition allocate_physical_memory_address :: "mm_state \<Rightarrow> (mm_state, u32 \<times> mm_state) result" where
  "allocate_physical_memory_address mm =
     (let allocated_address = PHYSICAL_MEMORY_HEAD mm
      in bindE (load32 (PHYSICAL_MEMORY_HEAD mm) mm)
           (\<lambda>v. Inr (allocated_address, mm\<lparr>PHYSICAL_MEMORY_HEAD := v\<rparr>)))"

section \<open>Page directories and page tables\<close>

definition pd_index :: "u32 \<Rightarrow> u32" where
  "pd_index va = drop_bit 22 va"

definition pt_index :: "u32 \<Rightarrow> u32" where
  "pt_index va = drop_bit 12 va AND 0x3FF"

text \<open>\<^verbatim>\<open>for (i = 0; i < n; i++) base[i] = 0\<close>\<close>

fun clear_words :: "nat \<Rightarrow> u32 \<Rightarrow> mm_state \<Rightarrow> (mm_state, mm_state) result" where
  "clear_words 0 base mm = Inr mm"
| "clear_words (Suc n) base mm =
     bindE (store32 base 0 mm) (\<lambda>mm. clear_words n (base + 4) mm)"

definition set_table_permission :: "u32 \<Rightarrow> u32 \<Rightarrow> u32 \<Rightarrow> mm_state \<Rightarrow> (mm_state, mm_state) result" where
  "set_table_permission address pgdir flags mm =
     (let pdirectory = pgdir + 4 * pd_index address
      in bindE (load32 pdirectory mm)
           (\<lambda>v. store32 pdirectory ((v AND FRAME_MASK) OR flags) mm))"

definition get_ptable_entry_from_virtual_address ::
    "u32 \<Rightarrow> u32 \<Rightarrow> bool \<Rightarrow> u32 \<Rightarrow> mm_state \<Rightarrow> (mm_state, u32 \<times> mm_state) result" where
  "get_ptable_entry_from_virtual_address virtual_address pgdir create_if_not_present flags mm =
     bindE
       (bindE (load32 (pgdir + 4 * pd_index virtual_address) mm) (\<lambda>pde.
          let ptable = pde AND FRAME_MASK in
          if ptable = 0 then
            if \<not> create_if_not_present
            then Inl (Panic ''Failed to get page table in get_ptable_entry_from_virtual_address'')
            else bindE (allocate_physical_memory_address mm) (\<lambda>(ptable, mm).
                   if ptable = 0
                   then Inl (Panic ''Failed to allocate page table in get_ptable_entry_from_virtual_address'')
                   else bindE (clear_words 1024 ptable mm) (\<lambda>mm.
                          bindE (store32 (pgdir + 4 * pd_index virtual_address)
                                   ((ptable AND FRAME_MASK) OR flags) mm)
                            (\<lambda>mm. Inr (ptable, mm))))
          else Inr (ptable, mm)))
       (\<lambda>(ptable, mm).
          bindE (if create_if_not_present \<and> flags \<noteq> 0
                 then set_table_permission virtual_address pgdir flags mm else Inr mm)
            (\<lambda>mm. Inr (ptable + 4 * pt_index virtual_address, mm)))"

definition map_page_from_virtual_address :: "u32 \<Rightarrow> u32 \<Rightarrow> u32 \<Rightarrow> mm_state \<Rightarrow> (mm_state, mm_state) result" where
  "map_page_from_virtual_address pdir virtual_address flags mm =
     bindE (get_ptable_entry_from_virtual_address virtual_address pdir True flags mm)
       (\<lambda>(ptable_entry, mm).
          bindE (store32 ptable_entry ((PHYSICAL_MEMORY_HEAD mm AND FRAME_MASK) OR flags) mm)
            (\<lambda>mm. bindE (load32 (PHYSICAL_MEMORY_HEAD mm) mm)
              (\<lambda>next_head. Inr (mm\<lparr>PHYSICAL_MEMORY_HEAD := next_head\<rparr>))))"

text \<open>
  \<^verbatim>\<open>for (total = 0; total <= size; total += 4096)\<close>: one page more than \<open>size\<close> needs when
  \<open>size\<close> is a multiple of 4096.
\<close>

function map_region_loop ::
    "u32 \<Rightarrow> u32 \<Rightarrow> u32 \<Rightarrow> nat \<Rightarrow> nat \<Rightarrow> mm_state \<Rightarrow> (mm_state, mm_state) result" where
  "map_region_loop pdir va flags sz tot mm =
     (if tot \<le> sz
      then bindE (map_page_from_virtual_address pdir (va + of_nat tot) flags mm)
             (\<lambda>mm. map_region_loop pdir va flags sz (tot + 4096) mm)
      else Inr mm)"
  by pat_completeness auto
termination
  by (relation "measure (\<lambda>(pdir, va, flags, sz, tot, mm). Suc sz - tot)") auto

declare map_region_loop.simps [simp del]

definition map_region :: "u32 \<Rightarrow> u32 \<Rightarrow> u32 \<Rightarrow> u32 \<Rightarrow> mm_state \<Rightarrow> (mm_state, mm_state) result" where
  "map_region pdir initial_virtual_address flags sz mm =
     map_region_loop pdir initial_virtual_address flags (unat sz) 0 mm"

text \<open>\<^verbatim>\<open>fill_new_pgdir\<close>: the first 64 entries (the kernel's 256 MB) are shared, the rest cleared.\<close>

fun copy_words :: "nat \<Rightarrow> u32 \<Rightarrow> u32 \<Rightarrow> mm_state \<Rightarrow> (mm_state, mm_state) result" where
  "copy_words 0 dst src mm = Inr mm"
| "copy_words (Suc n) dst src mm =
     bindE (load32 src mm) (\<lambda>v. bindE (store32 dst v mm) (\<lambda>mm. copy_words n (dst + 4) (src + 4) mm))"

definition fill_new_pgdir :: "u32 \<Rightarrow> u32 \<Rightarrow> mm_state \<Rightarrow> (mm_state, mm_state) result" where
  "fill_new_pgdir pagedir source_pagedir mm =
     bindE (copy_words 64 pagedir source_pagedir mm) (\<lambda>mm. clear_words 960 (pagedir + 4 * 64) mm)"

function virtual_malloc_loop ::
    "int \<Rightarrow> int \<Rightarrow> u32 \<Rightarrow> mm_state \<Rightarrow> (mm_state, u32 \<times> mm_state) result" where
  "virtual_malloc_loop sz n initial_virtual_address mm =
     (if n * 4096 < sz then
        bindE (allocate_physical_memory_address mm) (\<lambda>(allocated_address, mm).
          if allocated_address = 0 then Inr (0, mm)
          else
            let initial_virtual_address =
                  (if initial_virtual_address = 0 then allocated_address else initial_virtual_address)
            in bindE (get_ptable_entry_from_virtual_address allocated_address (CR3 mm) True
                        PAGE_TABLE_USER_RW mm) (\<lambda>(ptable_entry, mm).
                 bindE (store32 ptable_entry ((allocated_address AND FRAME_MASK) OR PAGE_TABLE_USER_RW) mm)
                   (\<lambda>mm. virtual_malloc_loop sz (n + 1) initial_virtual_address mm)))
      else Inr (initial_virtual_address, mm))"
  by pat_completeness auto
termination
  by (relation "measure (\<lambda>(sz, n, a, mm). nat (sz - n * 4096))") auto

declare virtual_malloc_loop.simps [simp del]

definition virtual_malloc :: "int \<Rightarrow> mm_state \<Rightarrow> (mm_state, u32 \<times> mm_state) result" where
  "virtual_malloc sz mm = virtual_malloc_loop sz 0 0 mm"

function virtual_free_loop :: "int \<Rightarrow> int \<Rightarrow> u32 \<Rightarrow> mm_state \<Rightarrow> (mm_state, mm_state) result" where
  "virtual_free_loop sz n address mm =
     (if n * 4096 < sz then
        bindE (get_ptable_entry_from_virtual_address address (CR3 mm) False 0 mm) (\<lambda>(ptable_entry, mm).
          bindE (load32 ptable_entry mm) (\<lambda>pte.
            let physical_address = pte AND FRAME_MASK
            in bindE (free_physical_memory_address physical_address mm) (\<lambda>mm.
                 bindE (store32 ptable_entry ((physical_address AND FRAME_MASK) OR PAGE_TABLE_RW) mm)
                   (\<lambda>mm. virtual_free_loop sz (n + 1) (address + 4096) mm))))
      else Inr mm)"
  by pat_completeness auto
termination
  by (relation "measure (\<lambda>(sz, n, a, mm). nat (sz - n * 4096))") auto

declare virtual_free_loop.simps [simp del]

definition virtual_free :: "u32 \<Rightarrow> int \<Rightarrow> mm_state \<Rightarrow> (mm_state, mm_state) result" where
  "virtual_free address sz mm = virtual_free_loop sz 0 address mm"

function pgdir_copy_loop ::
    "u32 \<Rightarrow> u32 \<Rightarrow> u32 \<Rightarrow> u32 \<Rightarrow> int \<Rightarrow> int \<Rightarrow> mm_state \<Rightarrow> (mm_state, mm_state) result" where
  "pgdir_copy_loop source_pgdir dest_pgdir source_address dest_address sz i mm =
     (if i * 4096 < sz then
        bindE (get_ptable_entry_from_virtual_address (source_address + 4096 * of_int i) source_pgdir False 0 mm)
          (\<lambda>(source_ptable_entry, mm).
        bindE (get_ptable_entry_from_virtual_address (dest_address + 4096 * of_int i) dest_pgdir True
                 PAGE_TABLE_USER_RW mm) (\<lambda>(dest_ptable_entry, mm).
        bindE (load32 source_ptable_entry mm) (\<lambda>v.
        bindE (store32 dest_ptable_entry ((v AND FRAME_MASK) OR PAGE_TABLE_USER_RW) mm)
          (\<lambda>mm. pgdir_copy_loop source_pgdir dest_pgdir source_address dest_address sz (i + 1) mm))))
      else Inr mm)"
  by pat_completeness auto
termination
  by (relation "measure (\<lambda>(sp, dp, sa, da, sz, i, mm). nat (sz - i * 4096))") auto

declare pgdir_copy_loop.simps [simp del]

definition pgdir_copy :: "u32 \<Rightarrow> u32 \<Rightarrow> u32 \<Rightarrow> u32 \<Rightarrow> int \<Rightarrow> mm_state \<Rightarrow> (mm_state, mm_state) result" where
  "pgdir_copy source_pgdir dest_pgdir source_address dest_address sz mm =
     pgdir_copy_loop source_pgdir dest_pgdir source_address dest_address sz 0 mm"

definition get_physical_address_from_virtual_address ::
    "u32 \<Rightarrow> u32 \<Rightarrow> mm_state \<Rightarrow> (mm_state, u32 \<times> mm_state) result" where
  "get_physical_address_from_virtual_address virtual_address pgdir mm =
     bindE (get_ptable_entry_from_virtual_address virtual_address pgdir False 0 mm)
       (\<lambda>(ptable_entry, mm). bindE (load32 ptable_entry mm)
          (\<lambda>v. Inr ((v AND FRAME_MASK) + (virtual_address AND 0xFFF), mm)))"

text \<open>
  Byte accesses to the store of words, and the byte loop of \<^verbatim>\<open>memcpy\<close> between two kernel
  addresses. \<open>store32u\<close> is a store of a word to an address that need not be aligned.
\<close>

definition load8 :: "u32 \<Rightarrow> mm_state \<Rightarrow> (mm_state, u32) result" where
  "load8 a mm = bindE (load32 (a AND 0xFFFFFFFC) mm)
     (\<lambda>w. Inr (drop_bit (8 * unat (a AND 3)) w AND 0xFF))"

definition store8 :: "u32 \<Rightarrow> u32 \<Rightarrow> mm_state \<Rightarrow> (mm_state, mm_state) result" where
  "store8 a v mm = bindE (load32 (a AND 0xFFFFFFFC) mm)
     (\<lambda>w. store32 (a AND 0xFFFFFFFC)
        ((w AND NOT (push_bit (8 * unat (a AND 3)) 0xFF)) OR push_bit (8 * unat (a AND 3)) (v AND 0xFF)) mm)"

fun copy_bytes :: "nat \<Rightarrow> u32 \<Rightarrow> u32 \<Rightarrow> mm_state \<Rightarrow> (mm_state, mm_state) result" where
  "copy_bytes 0 dst src mm = Inr mm"
| "copy_bytes (Suc n) dst src mm =
     bindE (load8 src mm) (\<lambda>v. bindE (store8 dst v mm) (\<lambda>mm. copy_bytes n (dst + 1) (src + 1) mm))"

definition store32u :: "u32 \<Rightarrow> u32 \<Rightarrow> mm_state \<Rightarrow> (mm_state, mm_state) result" where
  "store32u a v mm =
     bindE (store8 a v mm) (\<lambda>mm. bindE (store8 (a + 1) (drop_bit 8 v) mm) (\<lambda>mm.
     bindE (store8 (a + 2) (drop_bit 16 v) mm) (\<lambda>mm. store8 (a + 3) (drop_bit 24 v) mm)))"

text \<open>\<^verbatim>\<open>memcpy\<close> to an address that is mapped by the page directory \<open>dir\<close>, as the processor translates it.\<close>

fun copy_to_virtual :: "u32 \<Rightarrow> nat \<Rightarrow> u32 \<Rightarrow> u32 \<Rightarrow> mm_state \<Rightarrow> (mm_state, mm_state) result" where
  "copy_to_virtual dir 0 dst src mm = Inr mm"
| "copy_to_virtual dir (Suc n) dst src mm =
     bindE (load8 src mm) (\<lambda>v.
     bindE (get_physical_address_from_virtual_address dst dir mm) (\<lambda>(pa, mm).
     bindE (store8 pa v mm) (\<lambda>mm. copy_to_virtual dir n (dst + 1) (src + 1) mm)))"

fun map_region_to_other_region :: "nat \<Rightarrow> u32 \<Rightarrow> u32 \<Rightarrow> mm_state \<Rightarrow> (mm_state, mm_state) result" where
  "map_region_to_other_region 0 source_address dest_address mm = Inr mm"
| "map_region_to_other_region (Suc n) source_address dest_address mm =
     bindE (get_ptable_entry_from_virtual_address source_address (CR3 mm) False 0 mm)
       (\<lambda>(source_ptable_entry, mm).
     bindE (get_ptable_entry_from_virtual_address dest_address (CR3 mm) True PAGE_TABLE_USER_RW mm)
       (\<lambda>(dest_ptable_entry, mm).
     bindE (load32 source_ptable_entry mm) (\<lambda>v.
     bindE (store32 dest_ptable_entry v mm)
       (\<lambda>mm. map_region_to_other_region n (source_address + 4096) (dest_address + 4096) mm))))"

definition set_address_permission :: "u32 \<Rightarrow> u32 \<Rightarrow> u32 \<Rightarrow> mm_state \<Rightarrow> (mm_state, mm_state) result" where
  "set_address_permission address pgdir flags mm =
     bindE (get_ptable_entry_from_virtual_address address pgdir True PAGE_TABLE_USER_RW mm)
       (\<lambda>(ptable_entry, mm). bindE (load32 ptable_entry mm)
          (\<lambda>v. store32 ptable_entry ((v AND FRAME_MASK) OR flags) mm))"

text \<open>
  \<^verbatim>\<open>get_permission_of_page\<close> takes its flags from the sum of the directory entry and the
  table index; the page table itself is not read. The result is the word it prints.
\<close>

datatype page_permission = USER_RW | USER_RO | KERNEL_RW | KERNEL_RO | UNKNOWN

definition get_permission_of_page :: "u32 \<Rightarrow> u32 \<Rightarrow> mm_state \<Rightarrow> (mm_state, page_permission) result" where
  "get_permission_of_page pgdir virtual_address mm =
     bindE (load32 (pgdir + 4 * pd_index virtual_address) mm) (\<lambda>ptable.
       let ptable_entry = ptable + pt_index virtual_address;
           flags = ptable_entry AND 7
       in Inr (if flags = PAGE_TABLE_USER_RW then USER_RW
               else if flags = PAGE_TABLE_USER_RO then USER_RO
               else if flags = PAGE_TABLE_RW then KERNEL_RW
               else if flags = PAGE_TABLE_RO then KERNEL_RO
               else UNKNOWN))"

definition allocate_virtual_memory_address :: "mm_state \<Rightarrow> u32 \<times> mm_state" where
  "allocate_virtual_memory_address mm =
     (next_virtual_address mm, mm\<lparr>next_virtual_address := next_virtual_address mm + 4 * 4096\<rparr>)"

end
