(* ===== verification/Kernel_State.thy ===== *)
theory Kernel_State
  imports Queue Mmu
begin

text \<open>
  The data of the kernel proper: process, semaphore and message-queue structures
  (\<^verbatim>\<open>process.h\<close>, \<^verbatim>\<open>semaphore.h\<close>, \<^verbatim>\<open>message_queue.h\<close>), the global variables that refer to them,
  and the primitive accesses every operation is made of.

  Structures live in the kernel heap under an address (\<^typ>\<open>nat\<close>, the identity of the block
  \<^verbatim>\<open>mem_alloc\<close> returned; the allocator itself is not modelled: blocks are fresh and
  zero-filled). A table entry is \<open>None\<close> where the C table holds NULL. The \<open>link\<close> fields
  of the C structures are represented by the queue state \<open>qs\<close>.
\<close>

section \<open>Structures\<close>

type_synonym addr = nat

datatype State = ELECTED | ACTIVABLE | ASLEEP | ZOMBIE | FINISHED | WAITING_PID | IN_MSGQUEUE | IN_SEM

text \<open>The list heads of the kernel: three globals and one inside every semaphore and message queue.\<close>

datatype queue_id = Q_activable | Q_finished | Q_waiting_pid | Q_sem addr | Q_mq addr

text \<open>
  Where a suspended process stands in the kernel, that is, what its saved stack pointer
  leads back to: the code that follows the call of \<^verbatim>\<open>ctx_sw\<close>. One constructor per such
  place, with the local variables that are used after it.
\<close>

datatype kcont =
    K_new_process               \<comment> \<open>never ran: \<^verbatim>\<open>new_process_start_function\<close>\<close>
  | K_return int                \<comment> \<open>nothing left but to return this value\<close>
  | K_start addr                \<comment> \<open>\<^verbatim>\<open>start\<close>, after electing the new process \<open>p\<close>\<close>
  | K_exit                      \<comment> \<open>\<^verbatim>\<open>exit\<close>: the endless loop\<close>
  | K_waitpid_any u32           \<comment> \<open>\<^verbatim>\<open>waitpid(-1, retvalp)\<close>\<close>
  | K_waitpid int u32           \<comment> \<open>\<^verbatim>\<open>waitpid(pid, retvalp)\<close>\<close>
  | K_wait addr                 \<comment> \<open>\<^verbatim>\<open>wait\<close>: the semaphore \<open>s\<close>\<close>
  | K_psend addr                \<comment> \<open>\<^verbatim>\<open>psend\<close>, blocked: the process \<open>p\<close>\<close>
  | K_preceive addr addr u32    \<comment> \<open>\<^verbatim>\<open>preceive\<close>, blocked: the queue \<open>q\<close>, \<open>p\<close> and \<open>message\<close>\<close>
  | K_tick                      \<comment> \<open>the rest of \<^verbatim>\<open>tic_PIT\<close>\<close>

record Process =
  pid :: int
  name :: string
  kernel_stack :: "addr \<times> int"          \<comment> \<open>block and byte offset\<close>
  user_stack :: u32
  registers :: kcont
  state :: State
  initial_kernel_stack :: "addr \<times> int"
  kernel_stack_size :: int
  user_stack_size :: u32
  priority :: int
  wakeup_date :: u32
  father_pid :: int
  children :: "int list"                 \<comment> \<open>the pids of its \<^verbatim>\<open>Child\<close> cells\<close>
  waited_pid :: int
  message :: int
  skip_message :: bool
  waited_sem :: int
  retval :: int
  cr3 :: u32

record Semaphore =
  sid :: int
  count :: int
  was_reset :: bool
  was_deleted :: bool

record MessageQueue =
  fid :: int
  capacity :: int
  nb_msg :: int
  head :: int
  tail :: int
  buffer :: "int list"

record kstate =
  procs :: "addr \<Rightarrow> Process option"
  process_table :: "int \<Rightarrow> addr option"
  current_pid :: int
  qs :: "(queue_id, addr) qstate"
  sems :: "addr \<Rightarrow> Semaphore option"
  semaphore_table :: "int \<Rightarrow> addr option"
  mqs :: "addr \<Rightarrow> MessageQueue option"
  queue_table :: "int \<Rightarrow> addr option"
  brk :: addr                            \<comment> \<open>the next block \<^verbatim>\<open>mem_alloc\<close> returns\<close>
  mm :: mm_state
  tss_cr3 :: u32
  tss_esp0 :: "addr \<times> int"
  cpu :: kcont                           \<comment> \<open>what the last \<^verbatim>\<open>ctx_sw\<close> loaded\<close>
  user_mem :: "u32 \<Rightarrow> u32 \<Rightarrow> int"        \<comment> \<open>user words, by page directory and address\<close>
  time_count :: u32

abbreviation NBPROC :: nat where "NBPROC \<equiv> 30"
abbreviation MAXPRIO :: int where "MAXPRIO \<equiv> 256"
abbreviation NBSEMAPHORE :: nat where "NBSEMAPHORE \<equiv> 10000"
abbreviation SEMAPHORE_MAX_SIZE :: int where "SEMAPHORE_MAX_SIZE \<equiv> 32767"
abbreviation NBQUEUE :: nat where "NBQUEUE \<equiv> 10"
abbreviation QUEUE_MAX_SIZE :: int where "QUEUE_MAX_SIZE \<equiv> 1000"

type_synonym 'a kresult = "(kstate, 'a) result"

text \<open>
  How a system call leaves the kernel: it returns a value to its caller, or a context
  switch has happened and the processor now runs the continuation in \<open>cpu\<close>.
\<close>

datatype flow = Return int | Switch | Iret | Enter_user | Hang

section \<open>Accesses\<close>

text \<open>\<^verbatim>\<open>process_table[pid]->...\<close>: NULL page-faults.\<close>

definition tbl :: "int \<Rightarrow> kstate \<Rightarrow> addr kresult" where
  "tbl i st = (case process_table st i of None \<Rightarrow> Inl (PageFault st) | Some a \<Rightarrow> Inr a)"

definition deref :: "addr \<Rightarrow> kstate \<Rightarrow> Process kresult" where
  "deref a st = (case procs st a of None \<Rightarrow> Inl UseAfterFree | Some p \<Rightarrow> Inr p)"

definition upd :: "addr \<Rightarrow> (Process \<Rightarrow> Process) \<Rightarrow> kstate \<Rightarrow> kstate" where
  "upd a f st = st\<lparr>procs := (procs st)(a := map_option f (procs st a))\<rparr>"

definition prio_of :: "kstate \<Rightarrow> addr \<Rightarrow> int" where
  "prio_of st a = (case procs st a of None \<Rightarrow> 0 | Some p \<Rightarrow> priority p)"

text \<open>\<^verbatim>\<open>queue_add\<close>, \<^verbatim>\<open>queue_out\<close>, \<^verbatim>\<open>queue_del\<close> on processes; a failed assertion panics.\<close>

definition kq_add :: "addr \<Rightarrow> queue_id \<Rightarrow> kstate \<Rightarrow> kstate kresult" where
  "kq_add a q st = (case q_add (prio_of st) a q (qs st) of
      Inl e \<Rightarrow> Inl (Panic ''queue_add: failed assertion'')
    | Inr s \<Rightarrow> Inr (st\<lparr>qs := s\<rparr>))"

definition kq_out :: "queue_id \<Rightarrow> kstate \<Rightarrow> addr option \<times> kstate" where
  "kq_out q st = (case q_out q (qs st) of
      Inl e \<Rightarrow> (None, st)
    | Inr (r, s) \<Rightarrow> (r, st\<lparr>qs := s\<rparr>))"

definition kq_del :: "addr \<Rightarrow> kstate \<Rightarrow> kstate kresult" where
  "kq_del a st = (case q_del a (qs st) of
      Inl e \<Rightarrow> Inl (Panic ''queue_del: failed assertion'')
    | Inr s \<Rightarrow> Inr (st\<lparr>qs := s\<rparr>))"

abbreviation q_of :: "queue_id \<Rightarrow> kstate \<Rightarrow> addr list" where
  "q_of q st \<equiv> lists (qs st) q"

text \<open>\<^verbatim>\<open>p->state = s; queue_add(p, q, Process, link, priority);\<close>\<close>

definition set_state_and_queue :: "addr \<Rightarrow> State \<Rightarrow> queue_id \<Rightarrow> kstate \<Rightarrow> kstate kresult" where
  "set_state_and_queue a s q st = kq_add a q (upd a (state_update (\<lambda>_. s)) st)"

text \<open>\<^verbatim>\<open>p->state = ACTIVABLE; queue_add(p, &activable_list, Process, link, priority);\<close>\<close>

definition activate :: "addr \<Rightarrow> kstate \<Rightarrow> kstate kresult" where
  "activate a st = set_state_and_queue a ACTIVABLE Q_activable st"

text \<open>
  \<^verbatim>\<open>while (!queue_empty(q)) { p = queue_out(q); f(p); p->state = ACTIVABLE; queue_add(p,
  &activable_list) }\<close>: the loop of \<^verbatim>\<open>sdelete\<close>, \<^verbatim>\<open>sreset\<close>, \<^verbatim>\<open>pdelete\<close> and \<^verbatim>\<open>preset\<close>. The
  bound is the length of the queue, which every round shortens by one.
\<close>

fun wake_all :: "nat \<Rightarrow> (Process \<Rightarrow> Process) \<Rightarrow> queue_id \<Rightarrow> kstate \<Rightarrow> kstate kresult" where
  "wake_all 0 f q st = Inr st"
| "wake_all (Suc n) f q st =
     (case kq_out q st of
        (None, st) \<Rightarrow> Inr st
      | (Some a, st) \<Rightarrow> bindE (activate a (upd a f st)) (\<lambda>st. wake_all n f q st))"

text \<open>
  A store through a pointer passed by the user. Addresses the kernel maps for itself
  (below 256 MB) hit kernel memory; the others belong to the current address space.
\<close>

definition store_user :: "u32 \<Rightarrow> int \<Rightarrow> kstate \<Rightarrow> kstate" where
  "store_user va v st =
     (if kmapped va then st\<lparr>mm := (mm st)\<lparr>phys := (phys (mm st))(va := of_int v)\<rparr>\<rparr>
      else st\<lparr>user_mem := (user_mem st)(CR3 (mm st) := (user_mem st (CR3 (mm st)))(va := v))\<rparr>)"

section \<open>Automation for symbolic execution\<close>

lemmas [kdefs] = tbl_def deref_def

lemma upd_simps [simp]:
  "procs (upd a f st) = (procs st)(a := map_option f (procs st a))"
  "process_table (upd a f st) = process_table st"
  "current_pid (upd a f st) = current_pid st"
  "qs (upd a f st) = qs st"
  "sems (upd a f st) = sems st"
  "semaphore_table (upd a f st) = semaphore_table st"
  "mqs (upd a f st) = mqs st"
  "queue_table (upd a f st) = queue_table st"
  "brk (upd a f st) = brk st"
  "mm (upd a f st) = mm st"
  "cpu (upd a f st) = cpu st"
  "user_mem (upd a f st) = user_mem st"
  "time_count (upd a f st) = time_count st"
  "tss_cr3 (upd a f st) = tss_cr3 st"
  "tss_esp0 (upd a f st) = tss_esp0 st"
  by (simp_all add: upd_def)

lemma kq_add_Inr:
  "kq_add a q st = Inr st' \<longleftrightarrow> home (qs st) a = None \<and>
     st' = st\<lparr>qs := (qs st)\<lparr>lists := (lists (qs st))(q := qinsert (prio_of st) a (q_of q st)),
                            home := (home (qs st))(a := Some q)\<rparr>\<rparr>"
  by (auto simp: kq_add_def q_add_def)

lemma kq_del_Inr:
  "kq_del a st = Inr st' \<longleftrightarrow> (\<exists>q. home (qs st) a = Some q \<and>
     st' = st\<lparr>qs := (qs st)\<lparr>lists := (lists (qs st))(q := remove1 a (q_of q st)),
                            home := (home (qs st))(a := None)\<rparr>\<rparr>)"
  by (auto simp: kq_del_def q_del_def split: option.splits)

lemma kq_out_eq:
  "kq_out q st =
     (if q_of q st = [] then (None, st)
      else (Some (last (q_of q st)),
            st\<lparr>qs := (qs st)\<lparr>lists := (lists (qs st))(q := butlast (q_of q st)),
                            home := (home (qs st))(last (q_of q st) := None)\<rparr>\<rparr>))"
  by (simp add: kq_out_def q_out_def)

lemma kq_add_Inl: "kq_add a q st = Inl e \<longleftrightarrow>
    home (qs st) a \<noteq> None \<and> e = Panic ''queue_add: failed assertion''"
  by (auto simp: kq_add_def q_add_def)

lemma kq_del_Inl: "kq_del a st = Inl e \<longleftrightarrow>
    home (qs st) a = None \<and> e = Panic ''queue_del: failed assertion''"
  by (auto simp: kq_del_def q_del_def split: option.splits)

lemmas kq_Inr = kq_add_Inr kq_del_Inr

end
