(* ===== verification/Process.thy ===== *)
theory Process
  imports Kernel_State
begin

unbundle bit_operations_syntax

text \<open>
  Processes (\<^verbatim>\<open>kernel/process.c\<close>): creation, termination, the scheduler and the system
  calls on processes. A C function that calls \<^verbatim>\<open>__scheduler\<close> or \<^verbatim>\<open>virtual_ctx_sw\<close> gives up
  the processor there and goes on when its process is elected again; it is modelled in two
  parts, the code up to the switch (with the continuation saved in \<open>registers\<close>) and the
  code after it (the function \<open>resume\<close>, which interprets the continuation).
\<close>

section \<open>Context switch and scheduler\<close>

definition virtual_ctx_sw :: "addr option \<Rightarrow> kcont \<Rightarrow> addr \<Rightarrow> kstate \<Rightarrow> kstate kresult" where
  "virtual_ctx_sw old_process k new_process st =
     bindE (deref new_process st) (\<lambda>new.
       let st = st\<lparr>mm := (mm st)\<lparr>CR3 := cr3 new\<rparr>, tss_cr3 := cr3 new,
                   tss_esp0 := (fst (kernel_stack new), snd (kernel_stack new) + 4 * kernel_stack_size new)\<rparr>
       in case old_process of
            None \<Rightarrow> Inl (PageFault st)
          | Some old \<Rightarrow>
              bindE (deref old st) (\<lambda>_.
                let st = upd old (registers_update (\<lambda>_. k)) st
                in bindE (deref new_process st) (\<lambda>new. Inr (st\<lparr>cpu := registers new\<rparr>))))"

definition free_process :: "addr \<Rightarrow> kstate \<Rightarrow> kstate kresult" where
  "free_process a st =
     bindE (deref a st) (\<lambda>p.
       if pid p = current_pid st then Inl (Panic ''Trying to free the current process'')
       else Inr (st\<lparr>procs := (procs st)(a := None)\<rparr>))"

lemma free_process_qs: "free_process a st = Inr st' \<Longrightarrow> qs st' = qs st"
  by (auto simp: free_process_def deref_def split: option.splits if_splits)

function free_all :: "kstate \<Rightarrow> kstate kresult" where
  "free_all st =
     (case kq_out Q_finished st of
        (None, st1) \<Rightarrow> Inr st1
      | (Some a, st1) \<Rightarrow> bindE (free_process a st1) free_all)"
  by pat_completeness auto
termination
  by (relation "measure (\<lambda>st. length (q_of Q_finished st))")
    (auto simp: kq_out_eq dest!: free_process_qs split: if_splits)

declare free_all.simps [simp del]

text \<open>The pid a block's process has; a freed block has none.\<close>

definition pid_is :: "kstate \<Rightarrow> int \<Rightarrow> addr \<Rightarrow> bool" where
  "pid_is st i a = (case procs st a of None \<Rightarrow> False | Some p \<Rightarrow> pid p = i)"

definition free_finished_process :: "kstate \<Rightarrow> kstate kresult" where
  "free_finished_process st =
     (case List.find (pid_is st (current_pid st)) (q_of Q_finished st) of
        None \<Rightarrow> free_all st
      | Some current \<Rightarrow>
          bindE (kq_del current st) (\<lambda>st. bindE (free_all st) (\<lambda>st. kq_add current Q_finished st)))"

fun wakeup_loop :: "nat \<Rightarrow> int \<Rightarrow> kstate \<Rightarrow> kstate kresult" where
  "wakeup_loop 0 i st = Inr st"
| "wakeup_loop (Suc n) i st =
     bindE (case process_table st i of
              None \<Rightarrow> Inr st
            | Some a \<Rightarrow> bindE (deref a st) (\<lambda>p.
                if state p = ASLEEP \<and> wakeup_date p \<le> time_count st then activate a st else Inr st))
       (\<lambda>st. wakeup_loop n (i + 1) st)"

definition wakeup_process :: "kstate \<Rightarrow> kstate kresult" where
  "wakeup_process st = wakeup_loop NBPROC 0 st"

definition scheduler :: "kcont \<Rightarrow> kstate \<Rightarrow> kstate kresult" where
  "scheduler k st =
     bindE (free_finished_process st) (\<lambda>st.
     bindE (wakeup_process st) (\<lambda>st.
       case kq_out Q_activable st of
         (None, st) \<Rightarrow> Inl (PageFault st)
       | (Some new_process, st) \<Rightarrow>
           let st = upd new_process (state_update (\<lambda>_. ELECTED)) st;
               old_process = (if q_of Q_finished st = [] then process_table st (current_pid st)
                              else Some (last (q_of Q_finished st)))
           in bindE (deref new_process st) (\<lambda>new.
                virtual_ctx_sw old_process k new_process (st\<lparr>current_pid := pid new\<rparr>))))"

text \<open>
  \<^verbatim>\<open>process_table[current_pid]->state = ACTIVABLE; queue_add(...); __scheduler();\<close>: how the
  running process offers the processor to a process of at least its priority.
\<close>

definition yield_to_scheduler :: "kcont \<Rightarrow> kstate \<Rightarrow> kstate kresult" where
  "yield_to_scheduler k st =
     bindE (tbl (current_pid st) st) (\<lambda>cur. bindE (activate cur st) (\<lambda>st. scheduler k st))"

text \<open>\<^verbatim>\<open>p->state = s; queue_add(p, q, ...); __scheduler();\<close> for the running process \<open>p\<close>.\<close>

definition block_current :: "State \<Rightarrow> queue_id \<Rightarrow> kcont \<Rightarrow> kstate \<Rightarrow> kstate kresult" where
  "block_current s q k st =
     bindE (tbl (current_pid st) st) (\<lambda>cur.
       bindE (set_state_and_queue cur s q st) (\<lambda>st. scheduler k st))"

section \<open>End of a process\<close>

definition is_valid_pid :: "int \<Rightarrow> kstate \<Rightarrow> bool" where
  "is_valid_pid i st \<longleftrightarrow> i < int NBPROC \<and> i \<ge> 0 \<and> process_table st i \<noteq> None"

definition remove_from_children :: "int \<Rightarrow> int \<Rightarrow> kstate \<Rightarrow> kstate kresult" where
  "remove_from_children i father st =
     (if father = -1 then Inr st
      else bindE (tbl father st) (\<lambda>f. bindE (deref f st) (\<lambda>p.
        Inr (if i \<in> set (children p) then upd f (children_update (remove1 i)) st else st))))"

definition awake_father :: "int \<Rightarrow> kstate \<Rightarrow> kstate kresult" where
  "awake_father child_pid st =
     (if q_of Q_waiting_pid st = [] then Inr st
      else bindE (tbl child_pid st) (\<lambda>c. bindE (deref c st) (\<lambda>child.
        case List.find (pid_is st (father_pid child)) (q_of Q_waiting_pid st) of
          None \<Rightarrow> Inr st
        | Some current_waiting \<Rightarrow>
            bindE (kq_del current_waiting st) (\<lambda>st.
              activate current_waiting (upd current_waiting (waited_pid_update (\<lambda>_. child_pid)) st)))))"

definition finish_fatherless :: "int \<Rightarrow> kstate \<Rightarrow> kstate kresult" where
  "finish_fatherless i st =
     bindE (tbl i st) (\<lambda>a. bindE (set_state_and_queue a FINISHED Q_finished st)
       (\<lambda>st. Inr (st\<lparr>process_table := (process_table st)(i := None)\<rparr>)))"

definition finish_zombie :: "int \<Rightarrow> u32 \<Rightarrow> kstate \<Rightarrow> kstate kresult" where
  "finish_zombie i retvalp st =
     bindE (if retvalp \<noteq> 0 then
              if retvalp < 0x4000000 then Inl (Panic ''Dirty hacker stopped'')
              else bindE (tbl i st) (\<lambda>a. bindE (deref a st) (\<lambda>p. Inr (store_user retvalp (retval p) st)))
            else Inr st) (\<lambda>st.
     bindE (remove_from_children i (current_pid st) st) (\<lambda>st.
     bindE (tbl i st) (\<lambda>a. bindE (set_state_and_queue a FINISHED Q_finished st) (\<lambda>st.
       Inr (st\<lparr>process_table := (process_table st)(i := None)\<rparr>)))))"

text \<open>The loop of \<^verbatim>\<open>__process_end\<close> over the children of the ending process.\<close>

fun orphan_loop :: "int list \<Rightarrow> kstate \<Rightarrow> kstate kresult" where
  "orphan_loop [] st = Inr st"
| "orphan_loop (c # cs) st =
     bindE (tbl c st) (\<lambda>a.
       let st = upd a (father_pid_update (\<lambda>_. -1)) st
       in bindE (deref a st) (\<lambda>p.
            bindE (if state p = ZOMBIE then finish_fatherless c st else Inr st)
              (\<lambda>st. orphan_loop cs st)))"

text \<open>The result tells whether \<^verbatim>\<open>__scheduler\<close> was called, that is, whether the processor was given up.\<close>

definition process_end :: "int \<Rightarrow> kcont \<Rightarrow> kstate \<Rightarrow> (bool \<times> kstate) kresult" where
  "process_end i k st =
     bindE (tbl i st) (\<lambda>a. bindE (deref a st) (\<lambda>ending_process.
     bindE (if father_pid ending_process \<noteq> -1
            then awake_father i (upd a (state_update (\<lambda>_. ZOMBIE)) st)
            else finish_fatherless i st) (\<lambda>st.
     bindE (deref a st) (\<lambda>ending_process.
     bindE (orphan_loop (children ending_process) st) (\<lambda>st.
       if i = current_pid st then bindE (scheduler k st) (\<lambda>st. Inr (True, st))
       else Inr (False, st))))))"

section \<open>System calls on processes\<close>

type_synonym 'a syscall_result = "('a \<times> kstate) kresult"

definition getprio :: "int \<Rightarrow> kstate \<Rightarrow> flow syscall_result" where
  "getprio i st =
     (if \<not> is_valid_pid i st then Inr (Return (-1), st)
      else bindE (tbl i st) (\<lambda>a. bindE (deref a st) (\<lambda>p.
             Inr (Return (if state p = ZOMBIE then -1 else priority p), st))))"

definition getpid :: "kstate \<Rightarrow> flow syscall_result" where
  "getpid st = Inr (Return (current_pid st), st)"

text \<open>
  The queue a process is in, found by its state and then by its pid: the two nested
  loops over the table and over each queue's waiting processes.
\<close>

definition get_queue :: "Process \<Rightarrow> kstate \<Rightarrow> queue_id option" where
  "get_queue process st =
     (case state process of
        ACTIVABLE \<Rightarrow> Some Q_activable
      | WAITING_PID \<Rightarrow> Some Q_waiting_pid
      | IN_MSGQUEUE \<Rightarrow>
          Option.bind
            (first_from NBQUEUE 0 (\<lambda>i. case queue_table st i of
                None \<Rightarrow> False | Some q \<Rightarrow> list_ex (pid_is st (pid process)) (q_of (Q_mq q) st)))
            (\<lambda>i. map_option Q_mq (queue_table st i))
      | IN_SEM \<Rightarrow>
          Option.bind
            (first_from NBSEMAPHORE 0 (\<lambda>i. case semaphore_table st i of
                None \<Rightarrow> False | Some s \<Rightarrow> list_ex (pid_is st (pid process)) (q_of (Q_sem s) st)))
            (\<lambda>i. map_option Q_sem (semaphore_table st i))
      | _ \<Rightarrow> None)"

definition chprio :: "int \<Rightarrow> int \<Rightarrow> kstate \<Rightarrow> flow syscall_result" where
  "chprio i newprio st =
     (if \<not> is_valid_pid i st \<or> newprio > MAXPRIO \<or> newprio \<le> 0 \<or> i = 0 then Inr (Return (-1), st)
      else bindE (tbl i st) (\<lambda>a. bindE (deref a st) (\<lambda>p.
        if state p = ZOMBIE \<or> state p = FINISHED then Inr (Return (-1), st)
        else
          let old_prio = priority p in
          bindE (if q_linked a (qs st) then
                   case get_queue p st of
                     None \<Rightarrow> Inl (Panic ''chprio: failed assertion'')
                   | Some queue \<Rightarrow>
                       bindE (kq_del a st) (\<lambda>st.
                         kq_add a queue (upd a (priority_update (\<lambda>_. newprio)) st))
                 else Inr (upd a (priority_update (\<lambda>_. newprio)) st)) (\<lambda>st.
          bindE (yield_to_scheduler (K_return old_prio) st) (\<lambda>st. Inr (Switch, st))))))"

definition wait_clock :: "u32 \<Rightarrow> kstate \<Rightarrow> flow syscall_result" where
  "wait_clock wakeup st =
     bindE (tbl (current_pid st) st) (\<lambda>cur.
       let st = upd cur (wakeup_date_update (\<lambda>_. wakeup)) (upd cur (state_update (\<lambda>_. ASLEEP)) st)
       in bindE (scheduler (K_return 0) st) (\<lambda>st. Inr (Switch, st)))"

definition exit :: "int \<Rightarrow> kstate \<Rightarrow> flow syscall_result" where
  "exit v st =
     bindE (tbl (current_pid st) st) (\<lambda>cur.
       bindE (process_end (current_pid st) K_exit (upd cur (retval_update (\<lambda>_. v)) st))
         (\<lambda>(switched, st). Inr (if switched then Switch else Hang, st)))"

definition kill :: "int \<Rightarrow> kstate \<Rightarrow> flow syscall_result" where
  "kill i st =
     (if \<not> is_valid_pid i st \<or> i = 0 then Inr (Return (-1), st)
      else bindE (tbl i st) (\<lambda>a. bindE (deref a st) (\<lambda>proc.
        if state proc = ZOMBIE then Inr (Return (-1), st)
        else
          bindE (if q_linked a (qs st) then
                   bindE (kq_del a st) (\<lambda>st.
                     if state proc = IN_SEM then
                       case semaphore_table st (waited_sem proc) of
                         None \<Rightarrow> Inl (PageFault st)
                       | Some s \<Rightarrow>
                           Inr (st\<lparr>sems := (sems st)(s := map_option (count_update (\<lambda>c. to_short (c + 1))) (sems st s))\<rparr>)
                     else Inr st)
                 else Inr st) (\<lambda>st.
          bindE (process_end i (K_return 0) (upd a (retval_update (\<lambda>_. 0)) st))
            (\<lambda>(switched, st). Inr (if switched then Switch else Return 0, st))))))"

definition child_is_zombie :: "kstate \<Rightarrow> int \<Rightarrow> bool kresult" where
  "child_is_zombie st c = bindE (tbl c st) (\<lambda>a. bindE (deref a st) (\<lambda>p. Inr (state p = ZOMBIE)))"

text \<open>The search of \<^verbatim>\<open>waitpid(-1)\<close>: the first child that is a zombie.\<close>

fun find_zombie :: "int list \<Rightarrow> kstate \<Rightarrow> int option kresult" where
  "find_zombie [] st = Inr None"
| "find_zombie (c # cs) st =
     bindE (child_is_zombie st c) (\<lambda>z. if z then Inr (Some c) else find_zombie cs st)"

definition waitpid :: "int \<Rightarrow> u32 \<Rightarrow> kstate \<Rightarrow> flow syscall_result" where
  "waitpid i retvalp st =
     (if retvalp \<noteq> 0 \<and> retvalp < 0x4000000 then Inr (Return (-1), st)
      else if i \<ge> int NBPROC then Inr (Return (-1), st)
      else if i < 0 then
        bindE (tbl (current_pid st) st) (\<lambda>cur. bindE (deref cur st) (\<lambda>p.
          if children p = [] then Inr (Return (-1), st)
          else bindE (find_zombie (children p) st) (\<lambda>r. case r of
            Some c \<Rightarrow> bindE (finish_zombie c retvalp st) (\<lambda>st. Inr (Return c, st))
          | None \<Rightarrow> bindE (block_current WAITING_PID Q_waiting_pid (K_waitpid_any retvalp) st)
                      (\<lambda>st. Inr (Switch, st)))))
      else case process_table st i of
        None \<Rightarrow> Inr (Return (-1), st)
      | Some a \<Rightarrow> bindE (deref a st) (\<lambda>p.
          if father_pid p \<noteq> current_pid st then Inr (Return (-1), st)
          else if state p = ZOMBIE then bindE (finish_zombie i retvalp st) (\<lambda>st. Inr (Return i, st))
          else bindE (block_current WAITING_PID Q_waiting_pid (K_waitpid i retvalp) st)
                 (\<lambda>st. Inr (Switch, st))))"

section \<open>Creation of a process\<close>

text \<open>
  What the kernel image provides: the table of the user programs linked into it (a
  generated file) and the address of the kernel's page directory.
\<close>

record uapps =
  uname :: string
  ustart :: u32
  uend :: u32

record kparams =
  symbols_table :: "uapps list"
  pgdir :: u32

definition get_symbol_from_name :: "kparams \<Rightarrow> string \<Rightarrow> kstate \<Rightarrow> uapps kresult" where
  "get_symbol_from_name kp n st =
     (case List.find (\<lambda>u. uname u = n) (symbols_table kp) of
        None \<Rightarrow> Inl (Panic ''symbol pas trouve'')
      | Some u \<Rightarrow> Inr u)"

definition get_free_pid :: "kstate \<Rightarrow> int" where
  "get_free_pid st = (case first_from NBPROC 0 (\<lambda>i. process_table st i = None) of None \<Rightarrow> -1 | Some i \<Rightarrow> i)"

text \<open>A call of the memory manager on the kernel's state.\<close>

definition mem_call :: "(mm_state \<Rightarrow> (mm_state, 'a \<times> mm_state) result) \<Rightarrow> kstate \<Rightarrow> 'a syscall_result" where
  "mem_call f st =
     lift_trap (\<lambda>m. st\<lparr>mm := m\<rparr>) (bindE (f (mm st)) (\<lambda>(x, m). Inr (x, st\<lparr>mm := m\<rparr>)))"

definition mem_do :: "(mm_state \<Rightarrow> (mm_state, mm_state) result) \<Rightarrow> kstate \<Rightarrow> kstate kresult" where
  "mem_do f st = lift_trap (\<lambda>m. st\<lparr>mm := m\<rparr>) (bindE (f (mm st)) (\<lambda>m. Inr (st\<lparr>mm := m\<rparr>)))"

abbreviation ONE_GIGABYTE :: u32 where "ONE_GIGABYTE \<equiv> 0x40000000"
abbreviation TWO_GIGABYTES :: u32 where "TWO_GIGABYTES \<equiv> 0x80000000"

text \<open>
  The address-space part of \<^verbatim>\<open>start\<close> (its steps 1 to 7): the new page directory and the
  kernel-side address of the top of the user stack.
\<close>

definition load_program :: "kparams \<Rightarrow> string \<Rightarrow> u32 \<Rightarrow> kstate \<Rightarrow> (u32 \<times> u32) syscall_result" where
  "load_program kp n ssize st =
     bindE (get_symbol_from_name kp n st) (\<lambda>process_symbols.
     let size_to_map = sint (uend process_symbols - ustart process_symbols) in
     bindE (mem_call (virtual_malloc size_to_map) st) (\<lambda>(process_code, st).
     bindE (mem_call allocate_physical_memory_address st) (\<lambda>(new_pgdir, st).
     bindE (mem_do (fill_new_pgdir new_pgdir (pgdir kp)) st) (\<lambda>st.
     bindE (mem_do (copy_bytes (nat size_to_map) process_code (ustart process_symbols)) st) (\<lambda>st.
     bindE (mem_do (pgdir_copy (pgdir kp) new_pgdir process_code ONE_GIGABYTE size_to_map) st) (\<lambda>st.
     bindE (mem_call (virtual_malloc (sint (ssize + 8))) st) (\<lambda>(stack_base, st).
     let ustack = stack_base + ssize + 4 in
     bindE (mem_do (pgdir_copy (pgdir kp) new_pgdir ustack TWO_GIGABYTES (sint (ssize + 8))) st) (\<lambda>st.
       Inr ((new_pgdir, ustack), st)))))))))"

text \<open>
  \<^verbatim>\<open>start\<close>. The pointers \<open>initial_kernel_stack + kernel_stack_size - 8\<close> and the two
  decrements count in words of 4 bytes. The words pushed on the kernel stack (the argument,
  NULL, the address of \<^verbatim>\<open>new_process_start_function\<close>) are the continuation
  \<open>K_new_process\<close>. The fields that C leaves uninitialised are 0 here, as in a fresh block.
\<close>

definition init_process :: "int \<Rightarrow> string \<Rightarrow> addr \<Rightarrow> u32 \<Rightarrow> int \<Rightarrow> u32 \<Rightarrow> int \<Rightarrow> Process" where
  "init_process i n stk ssize prio dir father =
     \<lparr>pid = i, name = n, kernel_stack = (stk, 4 * (8192 - 8) - 8),
      user_stack = TWO_GIGABYTES + ssize - 4, registers = K_new_process, state = ACTIVABLE,
      initial_kernel_stack = (stk, 0), kernel_stack_size = 8192, user_stack_size = ssize,
      priority = prio, wakeup_date = 0, father_pid = father, children = [], waited_pid = 0,
      message = 0, skip_message = False, waited_sem = 0, retval = 0, cr3 = dir\<rparr>"

definition add_child :: "int \<Rightarrow> int \<Rightarrow> kstate \<Rightarrow> kstate kresult" where
  "add_child father i st =
     (if father = -1 then Inr st
      else bindE (tbl father st) (\<lambda>f. bindE (deref f st) (\<lambda>_.
             Inr (upd f (children_update (qinsert (\<lambda>_. 1) i)) st))))"

text \<open>The choice at the end of \<^verbatim>\<open>start\<close>: elect the new process at once, or queue it.\<close>

definition elect_or_queue :: "addr \<Rightarrow> kstate \<Rightarrow> flow syscall_result" where
  "elect_or_queue a st =
     bindE (deref a st) (\<lambda>p.
     bindE (if current_pid st \<ge> 0
            then bindE (tbl (current_pid st) st) (\<lambda>cur. bindE (deref cur st)
                   (\<lambda>c. Inr (if priority p > priority c then Some cur else None)))
            else Inr None) (\<lambda>preempted.
       case preempted of
         Some old_process \<Rightarrow>
           bindE (activate old_process st) (\<lambda>st.
             let st = upd a (state_update (\<lambda>_. ELECTED)) st;
                 st = st\<lparr>current_pid := pid p\<rparr>
             in bindE (virtual_ctx_sw (Some old_process) (K_start a) a st) (\<lambda>st. Inr (Switch, st)))
       | None \<Rightarrow>
           bindE (activate a st) (\<lambda>st.
             Inr (Return (pid p), upd a (skip_message_update (\<lambda>_. False)) st))))"

definition start :: "kparams \<Rightarrow> string \<Rightarrow> u32 \<Rightarrow> int \<Rightarrow> int \<Rightarrow> kstate \<Rightarrow> flow syscall_result" where
  "start kp n ssize prio arg st =
     (if ssize > 0x10000000 then Inr (Return (-1), st)
      else
        let a = brk st;
            st = st\<lparr>brk := brk st + 1\<rparr> in
        bindE (load_program kp n ssize st) (\<lambda>((dir, ustack), st).
        let i = get_free_pid st in
        if i = -1 \<or> prio > MAXPRIO then Inr (Return (-1), st)
        else
          let stk = brk st;
              st = st\<lparr>brk := brk st + 1,
                      process_table := (process_table st)(i := Some a),
                      procs := (procs st)(a := Some (init_process i n stk ssize prio dir (current_pid st)))\<rparr>
          in
          bindE (mem_do (store32u (ustack - 36) (of_int arg)) st) (\<lambda>st.
          bindE (mem_do (pgdir_copy (pgdir kp) dir (ustack - 4) TWO_GIGABYTES (sint (ssize + 8))) st) (\<lambda>st.
          bindE (add_child (current_pid st) i st) (\<lambda>st. elect_or_queue a st)))))"

section \<open>The idle process\<close>

definition init_idle :: "kparams \<Rightarrow> kstate \<Rightarrow> addr syscall_result" where
  "init_idle kp st =
     bindE (mem_call (virtual_malloc 136) st) (\<lambda>(_, st).
     let a = brk st;
         st = st\<lparr>brk := brk st + 1, process_table := (process_table st)(0 := Some a)\<rparr> in
     bindE (mem_call (virtual_malloc 5) st) (\<lambda>(_, st).
     bindE (mem_call (virtual_malloc 2048) st) (\<lambda>(_, st).
     let stk = brk st;
         st = st\<lparr>brk := brk st + 1\<rparr> in
     bindE (get_symbol_from_name kp ''idle'' st) (\<lambda>process_symbols.
     let size_to_map = uend process_symbols - ustart process_symbols in
     bindE (mem_do (map_region (pgdir kp) ONE_GIGABYTE PAGE_TABLE_USER_RW size_to_map) st) (\<lambda>st.
     bindE (mem_do (copy_to_virtual (pgdir kp) (nat (sint size_to_map)) ONE_GIGABYTE (ustart process_symbols)) st) (\<lambda>st.
     bindE (mem_do (map_region (pgdir kp) TWO_GIGABYTES PAGE_TABLE_USER_RW (4096 * 10)) st) (\<lambda>st.
       Inr (a, st\<lparr>procs := (procs st)(a := Some
             \<lparr>pid = 0, name = ''idle'', kernel_stack = (stk, 0),
              user_stack = TWO_GIGABYTES + 1024 * 10, registers = K_new_process, state = ELECTED,
              initial_kernel_stack = (stk, 0), kernel_stack_size = 512, user_stack_size = 1024 * 10,
              priority = 1, wakeup_date = 0, father_pid = 0, children = [], waited_pid = 0,
              message = 0, skip_message = False, waited_sem = 0, retval = 0, cr3 = pgdir kp\<rparr>)\<rparr>))))))))"

section \<open>After a context switch\<close>

text \<open>
  The code that follows a call of \<^verbatim>\<open>ctx_sw\<close>, for the process that was just elected. A
  process that never ran enters user mode; the others finish the system call (or the clock
  interrupt) they were suspended in.
\<close>

definition resume_wait :: "addr \<Rightarrow> kstate \<Rightarrow> flow syscall_result" where
  "resume_wait s st =
     (case sems st s of
        None \<Rightarrow> Inl UseAfterFree
      | Some sem \<Rightarrow>
          if was_deleted sem then Inr (Return (-3), st\<lparr>sems := (sems st)(s := None)\<rparr>)
          else if was_reset sem then Inr (Return (-4), st)
          else Inr (Return 0, st))"

definition resume_psend :: "addr \<Rightarrow> kstate \<Rightarrow> flow syscall_result" where
  "resume_psend a st =
     bindE (deref a st) (\<lambda>p.
       if skip_message p then Inr (Return (-1), upd a (skip_message_update (\<lambda>_. False)) st)
       else Inr (Return 0, st))"

text \<open>\<^verbatim>\<open>i + 1 > capacity - 1 ? 0 : i + 1\<close>\<close>

definition next_index :: "MessageQueue \<Rightarrow> int \<Rightarrow> int" where
  "next_index q i = (if i + 1 > capacity q - 1 then 0 else i + 1)"

definition resume_preceive :: "addr \<Rightarrow> addr \<Rightarrow> u32 \<Rightarrow> kstate \<Rightarrow> flow syscall_result" where
  "resume_preceive qa a msg st =
     bindE (deref a st) (\<lambda>p.
       if skip_message p then Inr (Return (-1), upd a (skip_message_update (\<lambda>_. False)) st)
       else case mqs st qa of
         None \<Rightarrow> Inl UseAfterFree
       | Some q \<Rightarrow>
           let st = (if msg \<noteq> 0 then store_user msg (buffer q ! nat (tail q)) st else st)
           in Inr (Return 0, st\<lparr>mqs := (mqs st)(qa \<mapsto> q\<lparr>tail := next_index q (tail q), nb_msg := nb_msg q - 1\<rparr>)\<rparr>))"

definition resume :: "kstate \<Rightarrow> flow syscall_result" where
  "resume st =
     (case cpu st of
        K_new_process \<Rightarrow> Inr (Enter_user, st)
      | K_return v \<Rightarrow> Inr (Return v, st)
      | K_start a \<Rightarrow> bindE (deref a st) (\<lambda>p.
          Inr (Return (pid p), upd a (skip_message_update (\<lambda>_. False)) st))
      | K_exit \<Rightarrow> Inr (Hang, st)
      | K_waitpid_any retvalp \<Rightarrow>
          bindE (tbl (current_pid st) st) (\<lambda>cur. bindE (deref cur st) (\<lambda>p.
            bindE (finish_zombie (waited_pid p) retvalp st) (\<lambda>st. Inr (Return (waited_pid p), st))))
      | K_waitpid i retvalp \<Rightarrow> bindE (finish_zombie i retvalp st) (\<lambda>st. Inr (Return i, st))
      | K_wait s \<Rightarrow> resume_wait s st
      | K_psend a \<Rightarrow> resume_psend a st
      | K_preceive qa a msg \<Rightarrow> resume_preceive qa a msg st
      | K_tick \<Rightarrow> Inr (Iret, st))"

end
