(* ===== verification/Info.thy ===== *)
theory Info
  imports Screen Printf Process
begin

text \<open>
  The banner at the top of the screen (\<^verbatim>\<open>kernel/info.c\<close>) and the clock
  (\<^verbatim>\<open>kernel/time.c\<close>) without the scheduling part of the timer interrupt.
\<close>

section \<open>Text on the banner\<close>

definition bytes :: "string \<Rightarrow> u8 list" where
  "bytes s = map of_char s"

definition state_to_string :: "State \<Rightarrow> string" where
  "state_to_string s = (case s of
      ELECTED \<Rightarrow> ''ELECTED''
    | ACTIVABLE \<Rightarrow> ''ACTIVABLE''
    | ASLEEP \<Rightarrow> ''ASLEEP''
    | ZOMBIE \<Rightarrow> ''ZOMBIE''
    | FINISHED \<Rightarrow> ''FINISHED''
    | WAITING_PID \<Rightarrow> ''WAITING_PID''
    | IN_MSGQUEUE \<Rightarrow> ''IN_MSGQUEUE''
    | _ \<Rightarrow> '''')"

text \<open>The characters of \<open>string\<close> from index 0 to \<open>len - 1\<close>; the column is truncated to 8 bits by the call.\<close>

definition write_info :: "int \<Rightarrow> int \<Rightarrow> string \<Rightarrow> int \<Rightarrow> screen \<Rightarrow> screen" where
  "write_info line shift string len st =
     (if len \<le> 80 - shift then
        fold (\<lambda>i st. write_car (of_int line) (of_int (shift + int i)) (bytes string ! i)
                (foreground_color st) (background_color st) st) [0..<nat len] st
      else st)"

abbreviation PROCESS_TABLE_TITLE_SIZE :: nat where "PROCESS_TABLE_TITLE_SIZE \<equiv> 16"
abbreviation QUEUE_TABLE_TITLE_SIZE :: nat where "QUEUE_TABLE_TITLE_SIZE \<equiv> 14"
abbreviation ACTIVABLE_TITLE_SIZE :: nat where "ACTIVABLE_TITLE_SIZE \<equiv> 19"
abbreviation FINISHED_TITLE_SIZE :: nat where "FINISHED_TITLE_SIZE \<equiv> 17"
abbreviation BUFFER_SIZE :: nat where "BUFFER_SIZE \<equiv> 128"

definition write_info_titles :: "screen \<Rightarrow> screen" where
  "write_info_titles st =
     write_info 4 0 ''Finished queue : '' (int FINISHED_TITLE_SIZE)
       (write_info 3 0 ''Activables queue : '' (int ACTIVABLE_TITLE_SIZE)
         (write_info 2 0 ''Queue table : '' (int QUEUE_TABLE_TITLE_SIZE)
           (write_info 1 0 ''Process table : '' (int PROCESS_TABLE_TITLE_SIZE) st)))"

text \<open>\<^verbatim>\<open>for (i = 0; i < NB_COLUMNS; i++) write_car(line, title + i, 32, 15, 0)\<close>\<close>

definition blank_rest :: "nat \<Rightarrow> nat \<Rightarrow> screen \<Rightarrow> screen" where
  "blank_rest line title st = fold (\<lambda>i. write_car (of_nat line) (of_nat (title + i)) 32 15 0) [0..<NB_COLUMNS] st"

text \<open>
  One entry: \<^verbatim>\<open>len = sprintf(buffer, fmt, ...); write_info(line, position, buffer, len);
  position += len\<close>.
\<close>

definition write_entry :: "int \<Rightarrow> string \<Rightarrow> varg list \<Rightarrow> int \<times> screen \<Rightarrow> int \<times> screen" where
  "write_entry line fmt args = (\<lambda>(position, st).
     case sprintf fmt args of
       None \<Rightarrow> (position, st)
     | Some (b, n) \<Rightarrow> (position + sint n, write_info line position b (sint n) st))"

definition write_process_table :: "kstate \<Rightarrow> screen \<Rightarrow> screen" where
  "write_process_table k st =
     snd (fold (\<lambda>i ps. case process_table k (int i) of
                   None \<Rightarrow> ps
                 | Some a \<Rightarrow> (case procs k a of
                     None \<Rightarrow> ps
                   | Some p \<Rightarrow> if state p \<noteq> ZOMBIE
                       then write_entry 1 ''%d:%s '' [Word (of_nat i), Str (state_to_string (state p))] ps
                       else ps))
            [0..<NBPROC] (int PROCESS_TABLE_TITLE_SIZE, blank_rest 1 PROCESS_TABLE_TITLE_SIZE st))"

definition write_queue_table :: "kstate \<Rightarrow> screen \<Rightarrow> screen" where
  "write_queue_table k st =
     snd (fold (\<lambda>i ps. case queue_table k (int i) of
                   None \<Rightarrow> ps
                 | Some a \<Rightarrow> (case mqs k a of
                     None \<Rightarrow> ps
                   | Some q \<Rightarrow> write_entry 2 ''%d '' [Word (of_int (fid q))] ps))
            [0..<NBQUEUE] (int QUEUE_TABLE_TITLE_SIZE, blank_rest 2 QUEUE_TABLE_TITLE_SIZE st))"

text \<open>The pids of the processes in a list, in the order of its links.\<close>

definition write_pids :: "nat \<Rightarrow> nat \<Rightarrow> queue_id \<Rightarrow> kstate \<Rightarrow> screen \<Rightarrow> screen" where
  "write_pids line title q k st =
     snd (fold (\<lambda>a ps. case procs k a of
                   None \<Rightarrow> ps
                 | Some p \<Rightarrow> write_entry (int line) ''%d '' [Word (of_int (pid p))] ps)
            (q_of q k) (int title, blank_rest line title st))"

definition write_activable :: "kstate \<Rightarrow> screen \<Rightarrow> screen" where
  "write_activable k st = write_pids 3 ACTIVABLE_TITLE_SIZE Q_activable k st"

definition write_finished :: "kstate \<Rightarrow> screen \<Rightarrow> screen" where
  "write_finished k st = write_pids 4 FINISHED_TITLE_SIZE Q_finished k st"

definition sys_info :: "kstate \<Rightarrow> screen \<Rightarrow> screen" where
  "sys_info k st = write_finished k (write_activable k (write_queue_table k (write_process_table k st)))"

section \<open>The clock\<close>

abbreviation SCHEDFREQ :: u32 where "SCHEDFREQ \<equiv> 5"
abbreviation QUARTZ :: u32 where "QUARTZ \<equiv> 0x1234DD"

record clock =
  clock_ticks :: u32
  clock_frequency :: u32
  hours :: u8                 \<comment> \<open>\<^verbatim>\<open>h\<close>\<close>
  minutes :: u8               \<comment> \<open>\<^verbatim>\<open>m\<close>\<close>
  seconds :: u8               \<comment> \<open>\<^verbatim>\<open>s\<close>\<close>

definition write_time :: "string \<Rightarrow> int \<Rightarrow> screen \<Rightarrow> screen" where
  "write_time str len st =
     (if len \<le> 80 then
        fold (\<lambda>i st. write_car 0 (of_int (79 - int i)) (bytes str ! nat (len - 2 - int i))
                (foreground_color st) (background_color st) st) [0..<nat (len - 1)] st
      else st)"

text \<open>The bytes sent to the timer ports are returned in order.\<close>

definition set_clock_frequency :: "u32 \<Rightarrow> clock \<Rightarrow> clock \<times> (u8 \<times> u16) list" where
  "set_clock_frequency frequency ck =
     (let ck = ck\<lparr>clock_frequency := frequency, clock_ticks := QUARTZ div frequency\<rparr>;
          poids_faible = ucast (clock_ticks ck AND 0xFF);
          poids_fort = ucast (drop_bit 8 (clock_ticks ck AND 0xFF00))
      in (ck, [(0x34, 0x43), (poids_faible, 0x40), (poids_fort, 0x40)]))"

text \<open>The arithmetic on \<^verbatim>\<open>h\<close>, \<^verbatim>\<open>m\<close> and \<^verbatim>\<open>s\<close>, which are bytes.\<close>

definition update_time :: "u32 \<Rightarrow> clock \<Rightarrow> clock" where
  "update_time tc ck =
     (if tc mod clock_frequency ck = 0 then
        let t = tc div clock_frequency ck
        in ck\<lparr>hours := ucast (t div 3600), minutes := ucast ((t mod 3600) div 60), seconds := ucast ((t mod 3600) mod 60)\<rparr>
      else ck)"

definition time_text :: "clock \<Rightarrow> string option" where
  "time_text ck =
     map_option fst (sprintf ''%d%d:%d%d:%d%d''
       [Word (ucast (hours ck div 10)), Word (ucast (hours ck mod 10)), Word (ucast (minutes ck div 10)),
        Word (ucast (minutes ck mod 10)), Word (ucast (seconds ck div 10)), Word (ucast (seconds ck mod 10))])"

definition show_time :: "clock \<Rightarrow> screen \<Rightarrow> screen" where
  "show_time ck st = (case time_text ck of None \<Rightarrow> st | Some str \<Rightarrow> write_time str 10 st)"

text \<open>An entry of the interrupt descriptor table: two words at \<^verbatim>\<open>0x1000 + 8 * num_IT\<close>.\<close>

abbreviation KERNEL_CS :: u32 where "KERNEL_CS \<equiv> 0x10"

definition init_IT_handler :: "u32 \<Rightarrow> u32 \<Rightarrow> bool \<Rightarrow> mm_state \<Rightarrow> (mm_state, mm_state) result" where
  "init_IT_handler num_IT handler software_interrupt mem =
     (let start = 0x1000 + 8 * num_IT;
          gate = (if software_interrupt then 0xEE00 else 0x8E00)
      in bindE (store32 start (push_bit 16 KERNEL_CS OR (handler AND 0xFFFF)) mem)
           (\<lambda>mem. store32 (start + 4) ((handler AND 0xFFFF0000) OR gate) mem))"

text \<open>The value written back to the mask register of the interrupt controller.\<close>

definition mask_IRQ :: "nat \<Rightarrow> bool \<Rightarrow> u8 \<Rightarrow> u8" where
  "mask_IRQ num_IRQ masked bool_tab =
     (if \<not> masked then bool_tab AND NOT (push_bit num_IRQ 1) else bool_tab OR push_bit num_IRQ 1)"

definition clock_settings :: "u32 \<Rightarrow> u32 \<Rightarrow> clock \<Rightarrow> kstate \<Rightarrow> kstate" where
  "clock_settings quartz ticks ck k = store_user ticks (uint (clock_ticks ck)) (store_user quartz (uint QUARTZ) k)"

definition current_clock :: "kstate \<Rightarrow> u32" where
  "current_clock k = time_count k"

end
