(* ===== verification/Kbd_Keymap.thy ===== *)
theory Kbd_Keymap
  imports Prelude
begin

text \<open>
  The tables of the keyboard driver: key codes of the escaped and of the high scan codes
  (\<^verbatim>\<open>kernel/kbd-linux/scancode.c\<close>), and the key maps and function strings of
  \<^verbatim>\<open>kernel/kbd-linux/defkeymap.c\<close>, which the build copies to \<^verbatim>\<open>keymap.c\<close>. An entry of a key map is a type in
  the upper byte (with \<^verbatim>\<open>0xf0\<close> added) and a value in the lower one; \<^verbatim>\<open>0xf200\<close> is no key.
\<close>

section \<open>Scan codes\<close>

text \<open>The initial contents: \<^verbatim>\<open>setkeycode\<close> can change these two.\<close>

definition high_keys0 :: "u8 list" where
  "high_keys0 =
    [124, 125, 126, 127, 0, 0, 0, 0,
     0, 0, 0, 0, 0, 0, 0, 0,
     0, 0, 0, 0, 122, 0, 123, 0,
     0, 0, 89, 120, 0, 0, 90, 91,
     92, 93, 94, 95, 124, 121, 0]"

definition e0_keys0 :: "u8 list" where
  "e0_keys0 =
    [0, 0, 0, 0, 0, 0, 0, 0,
     0, 0, 0, 0, 0, 0, 0, 0,
     0, 0, 0, 0, 0, 0, 0, 0,
     0, 0, 0, 0, 96, 97, 0, 0,
     0, 0, 0, 0, 0, 0, 0, 0,
     0, 0, 0, 0, 0, 0, 0, 0,
     0, 0, 0, 0, 0, 98, 0, 99,
     100, 0, 0, 0, 0, 113, 114, 115,
     116, 117, 0, 0, 0, 0, 101, 102,
     103, 104, 0, 105, 124, 106, 118, 107,
     108, 109, 110, 111, 0, 0, 0, 0,
     0, 0, 0, 125, 126, 127, 0, 0,
     0, 0, 0, 0, 0, 0, 0, 0,
     0, 0, 0, 0, 0, 0, 0, 112,
     0, 0, 0, 0, 0, 0, 0, 0,
     0, 0, 0, 0, 0, 0, 0, 0]"


section \<open>Key maps\<close>

definition plain_map :: "u16 list" where
  "plain_map = map of_nat (
    [0xF200, 0xF01B, 0xF026, 0xF07B, 0xF022, 0xF027, 0xF028, 0xF02D,
     0xF07D, 0xF05F, 0xF02F, 0xF040, 0xF029, 0xF03D, 0xF07F, 0xF009,
     0xFB61, 0xFB7A, 0xFB65, 0xFB72, 0xFB74, 0xFB79, 0xFB75, 0xFB69,
     0xFB6F, 0xFB70, 0xF05E, 0xF024, 0xF201, 0xF702, 0xFB71, 0xFB73,
     0xFB64, 0xFB66, 0xFB67, 0xFB68, 0xFB6A, 0xFB6B, 0xFB6C, 0xFB6D,
     0xF07C, 0xF02A, 0xF700, 0xF02A, 0xFB77, 0xFB78, 0xFB63, 0xFB76,
     0xFB62, 0xFB6E, 0xF02C, 0xF03B, 0xF03A, 0xF021, 0xF700, 0xF30C,
     0xF703, 0xF020, 0xF207, 0xF100, 0xF101, 0xF102, 0xF103, 0xF104,
     0xF105, 0xF106, 0xF107, 0xF108, 0xF109, 0xF208, 0xF209, 0xF307,
     0xF308, 0xF309, 0xF30B, 0xF304, 0xF305, 0xF306, 0xF30A, 0xF301,
     0xF302, 0xF303, 0xF300, 0xF310, 0xF206, 0xF200, 0xF03C, 0xF10A,
     0xF10B, 0xF200, 0xF200, 0xF200, 0xF200, 0xF200, 0xF200, 0xF200,
     0xF30E, 0xF702, 0xF30D, 0xF200, 0xF701, 0xF205, 0xF114, 0xF603,
     0xF118, 0xF601, 0xF602, 0xF117, 0xF600, 0xF119, 0xF115, 0xF116,
     0xF200, 0xF200, 0xF200, 0xF200, 0xF200, 0xF200, 0xF200, 0xF11D,
     0xF200, 0xF200, 0xF200, 0xF200, 0xF200, 0xF200, 0xF200, 0xF200]
    @ replicate 128 0xF200)"

definition shift_map :: "u16 list" where
  "shift_map = map of_nat (
    [0xF200, 0xF01B, 0xF031, 0xF032, 0xF033, 0xF034, 0xF035, 0xF036,
     0xF037, 0xF038, 0xF039, 0xF030, 0xF05D, 0xF02B, 0xF07F, 0xF009,
     0xFB41, 0xFB5A, 0xFB45, 0xFB52, 0xFB54, 0xFB59, 0xFB55, 0xFB49,
     0xFB4F, 0xFB50, 0xF03C, 0xF03E, 0xF201, 0xF702, 0xFB51, 0xFB53,
     0xFB44, 0xFB46, 0xFB47, 0xFB48, 0xFB4A, 0xFB4B, 0xFB4C, 0xFB4D,
     0xF025, 0xF07E, 0xF700, 0xF023, 0xFB57, 0xFB58, 0xFB43, 0xFB56,
     0xFB42, 0xFB4E, 0xF03F, 0xF02E, 0xF02F, 0xF05C, 0xF700, 0xF30C,
     0xF703, 0xF020, 0xF207, 0xF10C, 0xF10D, 0xF10E, 0xF10F, 0xF110,
     0xF111, 0xF112, 0xF113, 0xF11E, 0xF11F, 0xF208, 0xF203, 0xF307,
     0xF308, 0xF309, 0xF30B, 0xF304, 0xF305, 0xF306, 0xF30A, 0xF301,
     0xF302, 0xF303, 0xF300, 0xF310, 0xF206, 0xF200, 0xF03E, 0xF120,
     0xF121, 0xF200, 0xF200, 0xF200, 0xF200, 0xF200, 0xF200, 0xF200,
     0xF30E, 0xF702, 0xF30D, 0xF200, 0xF701, 0xF205, 0xF114, 0xF603,
     0xF20B, 0xF601, 0xF602, 0xF117, 0xF600, 0xF20A, 0xF115, 0xF116,
     0xF200, 0xF200, 0xF200, 0xF200, 0xF200, 0xF200, 0xF200, 0xF11D,
     0xF200, 0xF200, 0xF200, 0xF200, 0xF200, 0xF200, 0xF200, 0xF200]
    @ replicate 128 0xF200)"

definition altgr_map :: "u16 list" where
  "altgr_map = map of_nat (
    [0xF200, 0xF200, 0xF200, 0xF07E, 0xF023, 0xF07B, 0xF05B, 0xF07C,
     0xF060, 0xF05C, 0xF05E, 0xF040, 0xF05D, 0xF07D, 0xF200, 0xF200,
     0xFB61, 0xFB7A, 0xFB65, 0xFB72, 0xFB74, 0xFB79, 0xFB75, 0xFB69,
     0xFB6F, 0xFB70, 0xF200, 0xF07E, 0xF201, 0xF702, 0xFB71, 0xFB73,
     0xFB64, 0xFB66, 0xFB67, 0xFB68, 0xFB6A, 0xFB6B, 0xFB6C, 0xFB6D,
     0xF200, 0xF200, 0xF700, 0xF200, 0xFB77, 0xFB78, 0xFB63, 0xFB76,
     0xFB62, 0xFB6E, 0xF200, 0xF200, 0xF200, 0xF200, 0xF700, 0xF916,
     0xF703, 0xF200, 0xF207, 0xF200, 0xF200, 0xF200, 0xF200, 0xF200,
     0xF200, 0xF200, 0xF200, 0xF200, 0xF200, 0xF914, 0xF202, 0xF911,
     0xF912, 0xF913, 0xF917, 0xF90E, 0xF90F, 0xF910, 0xF918, 0xF90B,
     0xF90C, 0xF90D, 0xF90A, 0xF310, 0xF206, 0xF200, 0xF07C, 0xF200,
     0xF200, 0xF200, 0xF200, 0xF200, 0xF200, 0xF200, 0xF200, 0xF200,
     0xF919, 0xF702, 0xF915, 0xF200, 0xF701, 0xF205, 0xF114, 0xF603,
     0xF118, 0xF601, 0xF602, 0xF117, 0xF600, 0xF119, 0xF115, 0xF116,
     0xF200, 0xF200, 0xF200, 0xF200, 0xF200, 0xF200, 0xF200, 0xF11D,
     0xF200, 0xF200, 0xF200, 0xF200, 0xF200, 0xF200, 0xF200, 0xF200]
    @ replicate 128 0xF200)"

definition ctrl_map :: "u16 list" where
  "ctrl_map = map of_nat (
    [0xF200, 0xF200, 0xF200, 0xF000, 0xF01B, 0xF01C, 0xF01D, 0xF01E,
     0xF01F, 0xF07F, 0xF200, 0xF200, 0xF01F, 0xF200, 0xF200, 0xF200,
     0xF001, 0xF01A, 0xF005, 0xF012, 0xF014, 0xF019, 0xF015, 0xF009,
     0xF00F, 0xF010, 0xF01B, 0xF01D, 0xF201, 0xF702, 0xF011, 0xF013,
     0xF004, 0xF006, 0xF007, 0xF008, 0xF00A, 0xF00B, 0xF00C, 0xF00D,
     0xF007, 0xF000, 0xF700, 0xF01C, 0xF017, 0xF018, 0xF003, 0xF016,
     0xF002, 0xF00E, 0xF200, 0xF200, 0xF200, 0xF07F, 0xF700, 0xF30C,
     0xF703, 0xF000, 0xF207, 0xF122, 0xF123, 0xF124, 0xF125, 0xF126,
     0xF127, 0xF128, 0xF129, 0xF12A, 0xF12B, 0xF208, 0xF204, 0xF307,
     0xF308, 0xF309, 0xF30B, 0xF304, 0xF305, 0xF306, 0xF30A, 0xF301,
     0xF302, 0xF303, 0xF300, 0xF310, 0xF206, 0xF200, 0xF200, 0xF12C,
     0xF12D, 0xF200, 0xF200, 0xF200, 0xF200, 0xF200, 0xF200, 0xF200,
     0xF30E, 0xF702, 0xF30D, 0xF01C, 0xF701, 0xF205, 0xF114, 0xF603,
     0xF118, 0xF601, 0xF602, 0xF117, 0xF600, 0xF119, 0xF115, 0xF116,
     0xF200, 0xF200, 0xF200, 0xF200, 0xF200, 0xF200, 0xF200, 0xF11D,
     0xF200, 0xF200, 0xF200, 0xF200, 0xF200, 0xF200, 0xF200, 0xF200]
    @ replicate 128 0xF200)"

definition altgr_ctrl_map :: "u16 list" where
  "altgr_ctrl_map = map of_nat (
    [0xF200, 0xF200, 0xF200, 0xF200, 0xF200, 0xF200, 0xF200, 0xF200,
     0xF200, 0xF200, 0xF200, 0xF200, 0xF200, 0xF200, 0xF200, 0xF200,
     0xF001, 0xF01A, 0xF005, 0xF012, 0xF014, 0xF019, 0xF015, 0xF009,
     0xF00F, 0xF010, 0xF200, 0xF200, 0xF201, 0xF702, 0xF011, 0xF013,
     0xF004, 0xF006, 0xF007, 0xF008, 0xF00A, 0xF00B, 0xF00C, 0xF00D,
     0xF200, 0xF200, 0xF700, 0xF200, 0xF017, 0xF018, 0xF003, 0xF016,
     0xF002, 0xF00E, 0xF200, 0xF200, 0xF200, 0xF200, 0xF700, 0xF30C,
     0xF703, 0xF200, 0xF207, 0xF200, 0xF200, 0xF200, 0xF200, 0xF200,
     0xF200, 0xF200, 0xF200, 0xF200, 0xF200, 0xF208, 0xF200, 0xF307,
     0xF308, 0xF309, 0xF30B, 0xF304, 0xF305, 0xF306, 0xF30A, 0xF301,
     0xF302, 0xF303, 0xF300, 0xF20C, 0xF206, 0xF200, 0xF200, 0xF200,
     0xF200, 0xF200, 0xF200, 0xF200, 0xF200, 0xF200, 0xF200, 0xF200,
     0xF30E, 0xF702, 0xF30D, 0xF200, 0xF701, 0xF205, 0xF114, 0xF603,
     0xF118, 0xF601, 0xF602, 0xF117, 0xF600, 0xF119, 0xF115, 0xF20C,
     0xF200, 0xF200, 0xF200, 0xF200, 0xF200, 0xF200, 0xF200, 0xF11D,
     0xF200, 0xF200, 0xF200, 0xF200, 0xF200, 0xF200, 0xF200, 0xF200]
    @ replicate 128 0xF200)"

definition alt_map :: "u16 list" where
  "alt_map = map of_nat (
    [0xF200, 0xF81B, 0xF831, 0xF832, 0xF833, 0xF834, 0xF835, 0xF836,
     0xF837, 0xF838, 0xF839, 0xF830, 0xF82D, 0xF83D, 0xF87F, 0xF809,
     0xF861, 0xF87A, 0xF865, 0xF872, 0xF874, 0xF879, 0xF875, 0xF869,
     0xF86F, 0xF870, 0xF85B, 0xF85D, 0xF80D, 0xF702, 0xF871, 0xF873,
     0xF864, 0xF866, 0xF867, 0xF868, 0xF86A, 0xF86B, 0xF86C, 0xF86D,
     0xF827, 0xF860, 0xF700, 0xF85C, 0xF877, 0xF878, 0xF863, 0xF876,
     0xF862, 0xF86E, 0xF200, 0xF82C, 0xF82E, 0xF82F, 0xF700, 0xF30C,
     0xF703, 0xF820, 0xF207, 0xF500, 0xF501, 0xF502, 0xF503, 0xF504,
     0xF505, 0xF506, 0xF507, 0xF508, 0xF509, 0xF208, 0xF209, 0xF907,
     0xF908, 0xF909, 0xF30B, 0xF904, 0xF905, 0xF906, 0xF30A, 0xF901,
     0xF902, 0xF903, 0xF900, 0xF310, 0xF206, 0xF200, 0xF83C, 0xF50A,
     0xF50B, 0xF200, 0xF200, 0xF200, 0xF200, 0xF200, 0xF200, 0xF200,
     0xF30E, 0xF702, 0xF30D, 0xF01C, 0xF701, 0xF205, 0xF114, 0xF212,
     0xF118, 0xF210, 0xF211, 0xF117, 0xF600, 0xF119, 0xF115, 0xF116,
     0xF200, 0xF200, 0xF200, 0xF200, 0xF200, 0xF200, 0xF200, 0xF11D,
     0xF200, 0xF200, 0xF200, 0xF200, 0xF200, 0xF200, 0xF200, 0xF200]
    @ replicate 128 0xF200)"

definition ctrl_alt_map :: "u16 list" where
  "ctrl_alt_map = map of_nat (
    [0xF200, 0xF200, 0xF200, 0xF200, 0xF200, 0xF200, 0xF200, 0xF200,
     0xF200, 0xF200, 0xF200, 0xF200, 0xF200, 0xF200, 0xF200, 0xF200,
     0xF801, 0xF81A, 0xF805, 0xF812, 0xF814, 0xF819, 0xF815, 0xF809,
     0xF80F, 0xF810, 0xF200, 0xF200, 0xF201, 0xF702, 0xF811, 0xF813,
     0xF804, 0xF806, 0xF807, 0xF808, 0xF80A, 0xF80B, 0xF80C, 0xF80D,
     0xF200, 0xF200, 0xF700, 0xF200, 0xF817, 0xF818, 0xF803, 0xF816,
     0xF802, 0xF80E, 0xF200, 0xF200, 0xF200, 0xF200, 0xF700, 0xF30C,
     0xF703, 0xF200, 0xF207, 0xF500, 0xF501, 0xF502, 0xF503, 0xF504,
     0xF505, 0xF506, 0xF507, 0xF508, 0xF509, 0xF208, 0xF200, 0xF307,
     0xF308, 0xF309, 0xF30B, 0xF304, 0xF305, 0xF306, 0xF30A, 0xF301,
     0xF302, 0xF303, 0xF300, 0xF20C, 0xF206, 0xF200, 0xF200, 0xF50A,
     0xF50B, 0xF200, 0xF200, 0xF200, 0xF200, 0xF200, 0xF200, 0xF200,
     0xF30E, 0xF702, 0xF30D, 0xF200, 0xF701, 0xF205, 0xF114, 0xF603,
     0xF118, 0xF601, 0xF602, 0xF117, 0xF600, 0xF119, 0xF115, 0xF20C,
     0xF200, 0xF200, 0xF200, 0xF200, 0xF200, 0xF200, 0xF200, 0xF11D,
     0xF200, 0xF200, 0xF200, 0xF200, 0xF200, 0xF200, 0xF200, 0xF200]
    @ replicate 128 0xF200)"


text \<open>The index is the set of the modifiers that are down: 1 shift, 2 AltGr, 4 control, 8 Alt.\<close>

definition key_maps :: "u16 list option list" where
  "key_maps =
    [Some plain_map, Some shift_map, Some altgr_map, None, Some ctrl_map, None, Some altgr_ctrl_map, None,
     Some alt_map, None, None, None, Some ctrl_alt_map, None] @ replicate 242 None"

section \<open>Strings of the function keys\<close>

definition func_buf :: string where
  "func_buf = concat (map (\<lambda>s. CHR 0x1B # s @ [CHR 0x00])
    [''[[A'', ''[[B'', ''[[C'', ''[[D'', ''[[E'', ''[17~'', ''[18~'', ''[19~'', ''[20~'', ''[21~'',
     ''[23~'', ''[24~'', ''[25~'', ''[26~'', ''[28~'', ''[29~'', ''[31~'', ''[32~'', ''[33~'', ''[34~'',
     ''[1~'', ''[2~'', ''[3~'', ''[4~'', ''[5~'', ''[6~''])"

definition func_table :: "nat option list" where
  "func_table =
    map Some [0, 5, 10, 15, 20, 25, 31, 37, 43, 49, 55, 61, 67, 73, 79, 85, 91, 97, 103, 109, 115, 120, 125, 130, 135, 140] @ replicate 230 None"

text \<open>The string that starts at an offset of the buffer.\<close>

definition func_string :: "nat \<Rightarrow> string" where
  "func_string k = takeWhile (\<lambda>c. c \<noteq> CHR 0x00) (drop k func_buf)"

text \<open>No two characters are combined: the table of accents is empty.\<close>

definition accent_table :: "(u8 \<times> u8 \<times> u8) list" where
  "accent_table = []"

end
