(* ===== verification/Kbd_Driver.thy ===== *)
theory Kbd_Driver
  imports Kbd_Keymap
begin

unbundle bit_operations_syntax

text \<open>
  The keyboard driver (\<^verbatim>\<open>kernel/kbd-linux/keyboard.c\<close>, \<^verbatim>\<open>scancode.c\<close>, \<^verbatim>\<open>linux/kbd_kern.h\<close>) with the glue of
  \<^verbatim>\<open>kernel/keyboard-glue.c\<close>: from a scan code to the strings that are passed to \<^verbatim>\<open>keyboard_data\<close>, and
  the lights. There is one console, so \<^verbatim>\<open>fg_console\<close> is 0; \<^verbatim>\<open>tty\<close> is set first thing by
  \<^verbatim>\<open>handle_scancode\<close>, so the tests for a null \<^verbatim>\<open>tty\<close> succeed. The hook \<^verbatim>\<open>kbd_ledfunc\<close> is never set.
  \<open>None\<close> is an access outside of a table, where the range of the index does not exclude it.
\<close>

section \<open>State\<close>

record kbd_struct =
  lockstate :: u8
  slockstate :: u8
  ledmode :: u8
  ledflagstate :: u8
  default_ledflagstate :: u8
  kbdmode :: u8
  modeflags :: u8

record ledptr =
  led_addr :: u32
  led_mask :: u32
  led_valid :: bool

datatype kbd_out = Data string | Leds u8

text \<open>\<open>kout\<close> is what the driver has passed to the kernel while it handles a scan code.\<close>

record kbd_dev =
  high_keys :: "u8 list"
  e0_keys :: "u8 list"
  prev_scancode :: u32
  k_down :: "u8 list"
  key_down :: "u32 list"
  dead_key_next :: bool
  shift_state :: u32
  npadch :: u32
  diacr :: u8
  key_rep :: bool
  kbd_table :: "kbd_struct list"
  stopped :: bool
  ledstate :: u8
  ledioctl :: u8
  ledptrs :: "ledptr list"
  tasklet_enabled :: bool
  kbd_inited :: bool
  kout :: "kbd_out list"

text \<open>The initial values of the variables.\<close>

definition kbd_dev0 :: kbd_dev where
  "kbd_dev0 =
     \<lparr>high_keys = high_keys0, e0_keys = e0_keys0, prev_scancode = 0,
      k_down = replicate 9 0, key_down = replicate 8 0, dead_key_next = False, shift_state = 0, npadch = -1, diacr = 0, key_rep = False,
      kbd_table = replicate 63 \<lparr>lockstate = 0, slockstate = 0, ledmode = 0, ledflagstate = 0, default_ledflagstate = 0, kbdmode = 0, modeflags = 0\<rparr>,
      stopped = False, ledstate = 0xFF, ledioctl = 0, ledptrs = replicate 3 \<lparr>led_addr = 0, led_mask = 0, led_valid = False\<rparr>,
      tasklet_enabled = False, kbd_inited = False, kout = []\<rparr>"

definition kbd_index :: "'a list \<Rightarrow> nat \<Rightarrow> 'a option" where
  "kbd_index xs i = (if i < length xs then Some (xs ! i) else None)"

section \<open>Console and glue\<close>

definition keyboard_fg_console :: nat where
  "keyboard_fg_console = 0"

definition vc_cons_allocated :: "nat \<Rightarrow> bool" where
  "vc_cons_allocated i = (if i \<ge> 63 then False else i = 0)"

text \<open>The entry \<^verbatim>\<open>kbd\<close> points to.\<close>

definition kb :: "kbd_dev \<Rightarrow> kbd_struct" where
  "kb d = kbd_table d ! keyboard_fg_console"

definition upd_kb :: "(kbd_struct \<Rightarrow> kbd_struct) \<Rightarrow> kbd_dev \<Rightarrow> kbd_dev" where
  "upd_kb f d = d\<lparr>kbd_table := (kbd_table d)[keyboard_fg_console := f (kb d)]\<rparr>"

abbreviation (input) VC_CAPSLOCK :: nat where "VC_CAPSLOCK \<equiv> 2"
abbreviation (input) VC_NUMLOCK :: nat where "VC_NUMLOCK \<equiv> 1"
abbreviation (input) VC_APPLIC :: nat where "VC_APPLIC \<equiv> 0"
abbreviation (input) VC_CKMODE :: nat where "VC_CKMODE \<equiv> 1"
abbreviation (input) VC_REPEAT :: nat where "VC_REPEAT \<equiv> 2"
abbreviation (input) VC_CRLF :: nat where "VC_CRLF \<equiv> 3"
abbreviation (input) VC_META :: nat where "VC_META \<equiv> 4"
abbreviation (input) VC_XLATE :: u8 where "VC_XLATE \<equiv> 0"
abbreviation (input) VC_MEDIUMRAW :: u8 where "VC_MEDIUMRAW \<equiv> 1"
abbreviation (input) VC_RAW :: u8 where "VC_RAW \<equiv> 2"
abbreviation (input) VC_UNICODE :: u8 where "VC_UNICODE \<equiv> 3"

definition vc_kbd_mode :: "kbd_struct \<Rightarrow> nat \<Rightarrow> bool" where
  "vc_kbd_mode k flag = (drop_bit flag (modeflags k) AND 1 \<noteq> 0)"

definition vc_kbd_led :: "kbd_struct \<Rightarrow> nat \<Rightarrow> bool" where
  "vc_kbd_led k flag = (drop_bit flag (ledflagstate k) AND 1 \<noteq> 0)"

definition set_vc_kbd_led :: "nat \<Rightarrow> kbd_struct \<Rightarrow> kbd_struct" where
  "set_vc_kbd_led flag k = k\<lparr>ledflagstate := ledflagstate k OR push_bit flag 1\<rparr>"

definition clr_vc_kbd_led :: "nat \<Rightarrow> kbd_struct \<Rightarrow> kbd_struct" where
  "clr_vc_kbd_led flag k = k\<lparr>ledflagstate := ledflagstate k AND NOT (push_bit flag 1)\<rparr>"

definition chg_vc_kbd_led :: "nat \<Rightarrow> kbd_struct \<Rightarrow> kbd_struct" where
  "chg_vc_kbd_led flag k = k\<lparr>ledflagstate := ledflagstate k XOR push_bit flag 1\<rparr>"

definition chg_vc_kbd_lock :: "nat \<Rightarrow> kbd_struct \<Rightarrow> kbd_struct" where
  "chg_vc_kbd_lock flag k = k\<lparr>lockstate := lockstate k XOR push_bit flag 1\<rparr>"

definition chg_vc_kbd_slock :: "nat \<Rightarrow> kbd_struct \<Rightarrow> kbd_struct" where
  "chg_vc_kbd_slock flag k = k\<lparr>slockstate := slockstate k XOR push_bit flag 1\<rparr>"

text \<open>The map of the keys that are down, an array of words.\<close>

definition test_bit :: "nat \<Rightarrow> u32 list \<Rightarrow> bool" where
  "test_bit nr a = bit (a ! (nr div 32)) (nr mod 32)"

definition set_bit_at :: "nat \<Rightarrow> u32 list \<Rightarrow> u32 list" where
  "set_bit_at nr a = a[nr div 32 := a ! (nr div 32) OR push_bit (nr mod 32) 1]"

definition clear_bit_at :: "nat \<Rightarrow> u32 list \<Rightarrow> u32 list" where
  "clear_bit_at nr a = a[nr div 32 := a ! (nr div 32) AND NOT (push_bit (nr mod 32) 1)]"

section \<open>Output\<close>

text \<open>A string of one character, or an empty one for 0.\<close>

definition put_queue :: "u32 \<Rightarrow> kbd_dev \<Rightarrow> kbd_dev" where
  "put_queue ch d =
     (let c = ucast ch :: u8
      in d\<lparr>kout := kout d @ [Data (if c = 0 then '''' else [char_of (unat c)])]\<rparr>)"

definition puts_queue :: "string \<Rightarrow> kbd_dev \<Rightarrow> kbd_dev" where
  "puts_queue cp d = d\<lparr>kout := kout d @ [Data cp]\<rparr>"

definition to_utf8 :: "u16 \<Rightarrow> kbd_dev \<Rightarrow> kbd_dev" where
  "to_utf8 c d =
     (if c < 0x80 then put_queue (ucast c) d
      else if c < 0x800 then
        put_queue (ucast (0x80 OR (c AND 0x3F))) (put_queue (ucast (0xC0 OR drop_bit 6 c)) d)
      else
        put_queue (ucast (0x80 OR (c AND 0x3F)))
          (put_queue (ucast (0x80 OR (drop_bit 6 c AND 0x3F))) (put_queue (ucast (0xE0 OR drop_bit 12 c)) d)))"

definition applkey :: "char \<Rightarrow> bool \<Rightarrow> kbd_dev \<Rightarrow> kbd_dev" where
  "applkey key mode d = puts_queue [CHR 0x1B, if mode then CHR ''O'' else CHR ''['', key] d"

section \<open>Scan codes to key codes\<close>

abbreviation (input) SC_LIM :: nat where "SC_LIM \<equiv> 89"

definition setkeycode :: "u32 \<Rightarrow> u32 \<Rightarrow> kbd_dev \<Rightarrow> int \<times> kbd_dev" where
  "setkeycode scancode keycode d =
     (if unat scancode < SC_LIM \<or> scancode > 255 \<or> keycode > 127 then (-1, d)
      else if scancode < 128 then (0, d\<lparr>high_keys := (high_keys d)[unat scancode - SC_LIM := ucast keycode]\<rparr>)
      else (0, d\<lparr>e0_keys := (e0_keys d)[unat scancode - 128 := ucast keycode]\<rparr>))"

definition getkeycode :: "u32 \<Rightarrow> kbd_dev \<Rightarrow> int" where
  "getkeycode scancode d =
     (if unat scancode < SC_LIM \<or> scancode > 255 then -1
      else if scancode < 128 then uint (high_keys d ! (unat scancode - SC_LIM))
      else uint (e0_keys d ! (unat scancode - 128)))"

text \<open>\<open>Some keycode\<close> when it returns 1.\<close>

definition kbd_translate :: "u8 \<Rightarrow> kbd_dev \<Rightarrow> u8 option \<times> kbd_dev" where
  "kbd_translate scancode d =
     (if scancode = 0xE0 \<or> scancode = 0xE1 then (None, d\<lparr>prev_scancode := ucast scancode\<rparr>)
      else if scancode = 0 \<or> scancode = 0xFF then (None, d\<lparr>prev_scancode := 0\<rparr>)
      else
        let scancode = scancode AND 0x7F; prev = prev_scancode d in
        if prev \<noteq> 0 then
          if prev \<noteq> 0xE0 then
            if prev = 0xE1 \<and> scancode = 0x1D then (None, d\<lparr>prev_scancode := 0x100\<rparr>)
            else if prev = 0x100 \<and> scancode = 0x45 then (Some 119, d\<lparr>prev_scancode := 0\<rparr>)
            else (None, d\<lparr>prev_scancode := 0\<rparr>)
          else
            let d = d\<lparr>prev_scancode := 0\<rparr> in
            if scancode = 0x2A \<or> scancode = 0x36 then (None, d)
            else if e0_keys d ! unat scancode \<noteq> 0 then (Some (e0_keys d ! unat scancode), d)
            else (None, d)
        else if unat scancode \<ge> SC_LIM then
          let keycode = high_keys d ! (unat scancode - SC_LIM) in
          (if keycode = 0 then None else Some keycode, d)
        else (Some scancode, d))"

text \<open>\<open>True\<close> for 0200: the event stays the release of a key.\<close>

definition kbd_unexpected_up :: "u8 \<Rightarrow> bool" where
  "kbd_unexpected_up keycode = (\<not> (unat keycode \<ge> SC_LIM \<or> keycode = 85))"

section \<open>Modifier keys\<close>

fun foldM :: "('a \<Rightarrow> 's \<Rightarrow> 's option) \<Rightarrow> 'a list \<Rightarrow> 's \<Rightarrow> 's option" where
  "foldM f [] s = Some s"
| "foldM f (x # xs) s = Option.bind (f x s) (foldM f xs)"

abbreviation KTYP :: "u16 \<Rightarrow> u8" where "KTYP x \<equiv> ucast (drop_bit 8 x)"
abbreviation KVAL :: "u16 \<Rightarrow> u8" where "KVAL x \<equiv> ucast x"

text \<open>One key of the loop of \<^verbatim>\<open>compute_shiftstate\<close>; 7 is \<^verbatim>\<open>KT_SHIFT\<close>, 12 \<^verbatim>\<open>KT_SLOCK\<close>, 8 \<^verbatim>\<open>KG_CAPSSHIFT\<close>.\<close>

definition count_key :: "nat \<Rightarrow> kbd_dev \<Rightarrow> kbd_dev option" where
  "count_key k d =
     (if test_bit k (key_down d) then
        let sym = (plain_map ! k) XOR 0xF000 in
        if KTYP sym = 7 \<or> KTYP sym = 12 then
          let val = (if KVAL sym = 8 then 0 else unat (KVAL sym)) in
          Option.bind (kbd_index (k_down d) val) (\<lambda>n.
            Some (d\<lparr>k_down := (k_down d)[val := n + 1], shift_state := shift_state d OR push_bit val 1\<rparr>))
        else Some d
      else Some d)"

definition compute_shiftstate :: "kbd_dev \<Rightarrow> kbd_dev option" where
  "compute_shiftstate d =
     foldM (\<lambda>i d. if key_down d ! i \<noteq> 0 then foldM count_key [32 * i..<32 * i + 32] d else Some d) [0..<8]
       (d\<lparr>shift_state := 0, k_down := replicate 9 0\<rparr>)"

definition do_shift :: "u8 \<Rightarrow> bool \<Rightarrow> kbd_dev \<Rightarrow> kbd_dev option" where
  "do_shift value up d =
     (if key_rep d then Some d
      else
        let old_state = shift_state d;
            d = (if value = 8 \<and> \<not> up then upd_kb (clr_vc_kbd_led VC_CAPSLOCK) d else d);
            v = (if value = 8 then 0 else unat value) in
        Option.bind (kbd_index (k_down d) v) (\<lambda>n.
          let n = (if up then (if n \<noteq> 0 then n - 1 else n) else n + 1);
              d = d\<lparr>k_down := (k_down d)[v := n],
                    shift_state := (if n \<noteq> 0 then shift_state d OR push_bit v 1 else shift_state d AND NOT (push_bit v 1))\<rparr>
          in Some (if up \<and> shift_state d \<noteq> old_state \<and> npadch d \<noteq> -1 then
                     (if kbdmode (kb d) = VC_UNICODE then to_utf8 (ucast (npadch d)) d
                      else put_queue (npadch d AND 0xFF) d)\<lparr>npadch := -1\<rparr>
                   else d)))"

section \<open>Handlers of the key types\<close>

definition handle_diacr :: "u8 \<Rightarrow> kbd_dev \<Rightarrow> u8 \<times> kbd_dev" where
  "handle_diacr ch d =
     (let c = diacr d; d = d\<lparr>diacr := 0\<rparr> in
      case find (\<lambda>(a, b, r). a = c \<and> b = ch) accent_table of
        Some (a, b, r) \<Rightarrow> (r, d)
      | None \<Rightarrow> if ch = 0x20 \<or> ch = c then (c, d) else (ch, put_queue (ucast c) d))"

definition do_self :: "u8 \<Rightarrow> bool \<Rightarrow> kbd_dev \<Rightarrow> kbd_dev option" where
  "do_self value up d =
     (if up then Some d
      else
        let (value, d) = (if diacr d \<noteq> 0 then handle_diacr value d else (value, d)) in
        if dead_key_next d then Some (d\<lparr>dead_key_next := False, diacr := value\<rparr>)
        else Some (put_queue (ucast value) d))"

definition do_fn :: "u8 \<Rightarrow> bool \<Rightarrow> kbd_dev \<Rightarrow> kbd_dev option" where
  "do_fn value up d =
     (if up then Some d
      else case func_table ! unat value of
        Some k \<Rightarrow> Some (puts_queue (func_string k) d)
      | None \<Rightarrow> Some d)"

definition enter_key :: "kbd_dev \<Rightarrow> kbd_dev" where
  "enter_key d =
     (let d = (if diacr d \<noteq> 0 then (put_queue (ucast (diacr d)) d)\<lparr>diacr := 0\<rparr> else d);
          d = put_queue 13 d
      in if vc_kbd_mode (kb d) VC_CRLF then put_queue 10 d else d)"

definition caps_toggle :: "kbd_dev \<Rightarrow> kbd_dev" where
  "caps_toggle d = (if key_rep d then d else upd_kb (chg_vc_kbd_led VC_CAPSLOCK) d)"

definition caps_on :: "kbd_dev \<Rightarrow> kbd_dev" where
  "caps_on d = (if key_rep d then d else upd_kb (set_vc_kbd_led VC_CAPSLOCK) d)"

definition keyboard_stop_tty :: "kbd_dev \<Rightarrow> kbd_dev" where
  "keyboard_stop_tty d = (if stopped d then d else d\<lparr>stopped := True\<rparr>)"

definition keyboard_start_tty :: "kbd_dev \<Rightarrow> kbd_dev" where
  "keyboard_start_tty d = (if \<not> stopped d then d else d\<lparr>stopped := False\<rparr>)"

definition hold_key :: "kbd_dev \<Rightarrow> kbd_dev" where
  "hold_key d = (if key_rep d then d else if stopped d then keyboard_start_tty d else keyboard_stop_tty d)"

definition bare_num :: "kbd_dev \<Rightarrow> kbd_dev" where
  "bare_num d = (if \<not> key_rep d then upd_kb (chg_vc_kbd_led VC_NUMLOCK) d else d)"

definition num_key :: "kbd_dev \<Rightarrow> kbd_dev" where
  "num_key d = (if vc_kbd_mode (kb d) VC_APPLIC then applkey (CHR ''P'') True d else bare_num d)"

definition keyboard_set_console :: "nat \<Rightarrow> kbd_dev \<Rightarrow> kbd_dev" where
  "keyboard_set_console nr d = d"

definition lastcons :: "kbd_dev \<Rightarrow> kbd_dev" where
  "lastcons d = keyboard_set_console 0 d"

text \<open>The consoles that the loops visit, up to the first one that is allocated.\<close>

definition decr_console :: "kbd_dev \<Rightarrow> kbd_dev" where
  "decr_console d =
     (case find vc_cons_allocated (rev [0..<keyboard_fg_console] @ rev [Suc keyboard_fg_console..<63]) of
        None \<Rightarrow> keyboard_set_console keyboard_fg_console d
      | Some i \<Rightarrow> keyboard_set_console i d)"

definition incr_console :: "kbd_dev \<Rightarrow> kbd_dev" where
  "incr_console d =
     (case find vc_cons_allocated ([Suc keyboard_fg_console..<63] @ [0..<keyboard_fg_console]) of
        None \<Rightarrow> keyboard_set_console keyboard_fg_console d
      | Some i \<Rightarrow> keyboard_set_console i d)"

definition compose_key :: "kbd_dev \<Rightarrow> kbd_dev" where
  "compose_key d = d\<lparr>dead_key_next := True\<rparr>"

text \<open>
  The functions whose glue is empty (\<^verbatim>\<open>show_ptregs\<close>, \<^verbatim>\<open>show_mem\<close>, \<^verbatim>\<open>show_state\<close>, \<^verbatim>\<open>send_intr\<close>, \<^verbatim>\<open>scroll_forw\<close>,
  \<^verbatim>\<open>scroll_back\<close>, \<^verbatim>\<open>boot_it\<close>, \<^verbatim>\<open>SAK\<close>, \<^verbatim>\<open>spawn_console\<close>) are \<open>Some\<close>.
\<close>

definition spec_fn_table :: "(kbd_dev \<Rightarrow> kbd_dev option) list" where
  "spec_fn_table =
     [compute_shiftstate, Some \<circ> enter_key, Some, Some,
      Some, Some, Some \<circ> lastcons, Some \<circ> caps_toggle,
      Some \<circ> num_key, Some \<circ> hold_key, Some, Some,
      Some, Some \<circ> caps_on, Some \<circ> compose_key, Some,
      Some \<circ> decr_console, Some \<circ> incr_console, Some, Some \<circ> bare_num]"

text \<open>15 is the value of \<^verbatim>\<open>K_SAK\<close>.\<close>

definition do_spec :: "u8 \<Rightarrow> bool \<Rightarrow> kbd_dev \<Rightarrow> kbd_dev option" where
  "do_spec value up d =
     (if up then Some d
      else if unat value \<ge> length spec_fn_table then Some d
      else if (kbdmode (kb d) = VC_RAW \<or> kbdmode (kb d) = VC_MEDIUMRAW) \<and> value \<noteq> 15 then Some d
      else (spec_fn_table ! unat value) d)"

definition do_dead2 :: "u8 \<Rightarrow> bool \<Rightarrow> kbd_dev \<Rightarrow> kbd_dev option" where
  "do_dead2 value up d =
     (if up then Some d
      else if diacr d \<noteq> 0 then (let (r, d) = handle_diacr value d in Some (d\<lparr>diacr := r\<rparr>))
      else Some (d\<lparr>diacr := value\<rparr>))"

definition do_dead :: "u8 \<Rightarrow> bool \<Rightarrow> kbd_dev \<Rightarrow> kbd_dev option" where
  "do_dead value up d =
     Option.bind (kbd_index (map of_char [CHR 0x60, CHR 0x27, CHR ''^'', CHR ''~'', CHR 0x22, CHR '','']) (unat value))
       (\<lambda>value. do_dead2 value up d)"

definition do_cons :: "u8 \<Rightarrow> bool \<Rightarrow> kbd_dev \<Rightarrow> kbd_dev option" where
  "do_cons value up d = (if up then Some d else Some (keyboard_set_console (unat value) d))"

definition do_cur :: "u8 \<Rightarrow> bool \<Rightarrow> kbd_dev \<Rightarrow> kbd_dev option" where
  "do_cur value up d =
     (if up then Some d
      else Option.bind (kbd_index ''BDCA'' (unat value)) (\<lambda>c. Some (applkey c (vc_kbd_mode (kb d) VC_CKMODE) d)))"

text \<open>The keys of the pad; 14 is \<^verbatim>\<open>K_PENTER\<close>, 15 and 16 the comma and the dot.\<close>

definition do_pad :: "u8 \<Rightarrow> bool \<Rightarrow> kbd_dev \<Rightarrow> kbd_dev option" where
  "do_pad value up d =
     (let pad_chars = ''0123456789+-*/'' @ CHR 0x0D # '',.?()''; app_map = ''pqrstuvwxylSRQMnnmPQ'' in
      if up then Some d
      else if vc_kbd_mode (kb d) VC_APPLIC \<and> k_down d ! 0 = 0 then
        Option.bind (kbd_index app_map (unat value)) (\<lambda>c. Some (applkey c True d))
      else if \<not> vc_kbd_led (kb d) VC_NUMLOCK \<and> (value = 15 \<or> value = 16) then do_fn 22 False d
      else if \<not> vc_kbd_led (kb d) VC_NUMLOCK \<and> value < 10 then
        (if value = 0 then do_fn 21 False d
         else if value = 1 then do_fn 23 False d
         else if value = 2 then do_cur 0 False d
         else if value = 3 then do_fn 25 False d
         else if value = 4 then do_cur 1 False d
         else if value = 6 then do_cur 2 False d
         else if value = 7 then do_fn 20 False d
         else if value = 8 then do_cur 3 False d
         else if value = 9 then do_fn 24 False d
         else Some (applkey (CHR ''G'') (vc_kbd_mode (kb d) VC_APPLIC) d))
      else
        Option.bind (kbd_index pad_chars (unat value)) (\<lambda>c.
          let d = put_queue (of_char c) d in
          Some (if value = 14 \<and> vc_kbd_mode (kb d) VC_CRLF then put_queue 10 d else d)))"

definition do_meta :: "u8 \<Rightarrow> bool \<Rightarrow> kbd_dev \<Rightarrow> kbd_dev option" where
  "do_meta value up d =
     (if up then Some d
      else if vc_kbd_mode (kb d) VC_META then Some (put_queue (ucast value) (put_queue 0x1B d))
      else Some (put_queue (ucast (value OR 0x80)) d))"

text \<open>The sum is an \<^verbatim>\<open>int\<close> of 32 bits.\<close>

definition do_ascii :: "u8 \<Rightarrow> bool \<Rightarrow> kbd_dev \<Rightarrow> kbd_dev option" where
  "do_ascii value up d =
     (if up then Some d
      else
        let (value, base) = (if value < 10 then (value, 10) else (value - 10, 16))
        in Some (d\<lparr>npadch := (if npadch d = -1 then ucast value else npadch d * base + ucast value)\<rparr>))"

definition do_lock :: "u8 \<Rightarrow> bool \<Rightarrow> kbd_dev \<Rightarrow> kbd_dev option" where
  "do_lock value up d = (if up \<or> key_rep d then Some d else Some (upd_kb (chg_vc_kbd_lock (unat value)) d))"

definition do_slock :: "u8 \<Rightarrow> bool \<Rightarrow> kbd_dev \<Rightarrow> kbd_dev option" where
  "do_slock value up d =
     Option.bind (do_shift value up d) (\<lambda>d.
       if up \<or> key_rep d then Some d
       else
         let d = upd_kb (chg_vc_kbd_slock (unat value)) d in
         if key_maps ! unat (lockstate (kb d) XOR slockstate (kb d)) = None
         then Some (upd_kb (chg_vc_kbd_slock (unat value)) (upd_kb (slockstate_update (\<lambda>_. 0)) d))
         else Some d)"

definition do_ignore :: "u8 \<Rightarrow> bool \<Rightarrow> kbd_dev \<Rightarrow> kbd_dev option" where
  "do_ignore value up d = Some d"

text \<open>\<^verbatim>\<open>do_lowercase\<close>, at index 11, has an empty body too.\<close>

definition key_handler :: "(u8 \<Rightarrow> bool \<Rightarrow> kbd_dev \<Rightarrow> kbd_dev option) list" where
  "key_handler =
     [do_self, do_fn, do_spec, do_pad, do_dead, do_cons, do_cur, do_shift,
      do_meta, do_ascii, do_lock, do_ignore, do_slock, do_dead2, do_ignore, do_ignore]"

section \<open>A scan code\<close>

text \<open>The key code is looked up in the map of the modifiers; the types are 2 \<^verbatim>\<open>KT_SPEC\<close>, 7 \<^verbatim>\<open>KT_SHIFT\<close>, 11 \<^verbatim>\<open>KT_LETTER\<close>.\<close>

definition handle_key :: "bool \<Rightarrow> u8 \<Rightarrow> bool \<Rightarrow> kbd_dev \<Rightarrow> kbd_dev option" where
  "handle_key raw_mode keycode up d =
     (let shift_final = (shift_state d OR ucast (slockstate (kb d))) XOR ucast (lockstate (kb d)) in
      Option.bind (kbd_index key_maps (unat shift_final)) (\<lambda>map.
        case map of
          None \<Rightarrow> Option.bind (compute_shiftstate d) (\<lambda>d. Some (upd_kb (slockstate_update (\<lambda>_. 0)) d))
        | Some key_map \<Rightarrow>
            let keysym = key_map ! unat keycode; type = KTYP keysym in
            if type \<ge> 0xF0 then
              let type = type - 0xF0 in
              if raw_mode \<and> type \<noteq> 2 \<and> type \<noteq> 7 then Some d
              else
                Option.bind
                  (if type = 11 \<and> vc_kbd_led (kb d) VC_CAPSLOCK then
                     Option.bind (kbd_index key_maps (unat (shift_final XOR 1))) (\<lambda>map.
                       Some (case map of None \<Rightarrow> keysym | Some key_map \<Rightarrow> key_map ! unat keycode))
                   else Some keysym)
                  (\<lambda>keysym.
                    let type = (if type = 11 then 0 else type) in
                    Option.bind ((key_handler ! unat type) (KVAL keysym) up d) (\<lambda>d.
                      Some (if type \<noteq> 12 then upd_kb (slockstate_update (\<lambda>_. 0)) d else d)))
            else Some (if \<not> up \<and> \<not> raw_mode then to_utf8 keysym d else d)))"

text \<open>The map of the keys that are down; the result tells whether the event counts as a release.\<close>

definition note_key :: "u8 \<Rightarrow> bool \<Rightarrow> kbd_dev \<Rightarrow> bool \<times> kbd_dev" where
  "note_key keycode up d =
     (let was_down = test_bit (unat keycode) (key_down d) in
      if up then
        (if was_down then True else kbd_unexpected_up keycode,
         d\<lparr>key_rep := False, key_down := clear_bit_at (unat keycode) (key_down d)\<rparr>)
      else (False, d\<lparr>key_rep := was_down, key_down := set_bit_at (unat keycode) (key_down d)\<rparr>))"

definition handle_scancode :: "u8 \<Rightarrow> bool \<Rightarrow> kbd_dev \<Rightarrow> kbd_dev option" where
  "handle_scancode scancode down d =
     (let up = (\<not> down);
          raw_mode = (kbdmode (kb d) = VC_RAW);
          d = (if raw_mode then put_queue (ucast (scancode OR (if up then 0x80 else 0))) d else d) in
      case kbd_translate scancode d of
        (None, d) \<Rightarrow> Some d
      | (Some keycode, d) \<Rightarrow>
          let (up, d) = note_key keycode up d;
              (raw_mode, d) = (if kbdmode (kb d) = VC_MEDIUMRAW then (True, put_queue (ucast (keycode + (if up then 0x80 else 0))) d) else (raw_mode, d))
          in if \<not> key_rep d \<or> vc_kbd_mode (kb d) VC_REPEAT then handle_key raw_mode keycode up d else Some d)"

section \<open>Lights\<close>

definition led_bit :: "(u32 \<Rightarrow> u32) \<Rightarrow> ledptr \<Rightarrow> u8 \<Rightarrow> u8 \<Rightarrow> u8" where
  "led_bit mem p b leds =
     (if led_valid p then (if mem (led_addr p) AND led_mask p \<noteq> 0 then leds OR b else leds AND NOT b) else leds)"

text \<open>The modes are 0 \<^verbatim>\<open>LED_SHOW_FLAGS\<close>, 1 \<^verbatim>\<open>LED_SHOW_IOCTL\<close>, 2 \<^verbatim>\<open>LED_SHOW_MEM\<close>; \<open>mem\<close> is the memory.\<close>

definition getleds :: "(u32 \<Rightarrow> u32) \<Rightarrow> kbd_dev \<Rightarrow> u8" where
  "getleds mem d =
     (if ledmode (kb d) = 1 then ledioctl d
      else
        let leds = ledflagstate (kb d) in
        if ledmode (kb d) = 2
        then led_bit mem (ledptrs d ! 2) 4 (led_bit mem (ledptrs d ! 1) 2 (led_bit mem (ledptrs d ! 0) 1 leds))
        else leds)"

definition kbd_bh :: "(u32 \<Rightarrow> u32) \<Rightarrow> kbd_dev \<Rightarrow> kbd_dev" where
  "kbd_bh mem d =
     (let leds = getleds mem d
      in if leds \<noteq> ledstate d then d\<lparr>ledstate := leds, kout := kout d @ [Leds leds]\<rparr> else d)"

definition keyboard_schedule_tasklet :: "(u32 \<Rightarrow> u32) \<Rightarrow> kbd_dev \<Rightarrow> kbd_dev" where
  "keyboard_schedule_tasklet mem d = (if tasklet_enabled d then kbd_bh mem d else d)"

definition setledstate :: "(u32 \<Rightarrow> u32) \<Rightarrow> u32 \<Rightarrow> kbd_dev \<Rightarrow> kbd_dev" where
  "setledstate mem led d =
     keyboard_schedule_tasklet mem
       (if led AND NOT 7 = 0 then upd_kb (ledmode_update (\<lambda>_. 1)) (d\<lparr>ledioctl := ucast led\<rparr>)
        else upd_kb (ledmode_update (\<lambda>_. 0)) d)"

definition register_leds :: "nat \<Rightarrow> u32 \<Rightarrow> u32 \<Rightarrow> u32 \<Rightarrow> kbd_dev \<Rightarrow> kbd_dev" where
  "register_leds console led addr msk d =
     (let set_mode = (\<lambda>m d. d\<lparr>kbd_table := (kbd_table d)[console := (kbd_table d ! console)\<lparr>ledmode := m\<rparr>]\<rparr>) in
      if led < 3 then set_mode 2 (d\<lparr>ledptrs := (ledptrs d)[unat led := \<lparr>led_addr = addr, led_mask = msk, led_valid = True\<rparr>]\<rparr>)
      else set_mode 0 d)"

section \<open>Initialisation and entry\<close>

definition kbd_init :: "(u32 \<Rightarrow> u32) \<Rightarrow> kbd_dev \<Rightarrow> kbd_dev" where
  "kbd_init mem d =
     (let kbd0 = \<lparr>lockstate = 0, slockstate = 0, ledmode = 0, ledflagstate = 0, default_ledflagstate = 0, kbdmode = VC_XLATE, modeflags = push_bit VC_REPEAT 1 OR push_bit VC_META 1\<rparr>
      in keyboard_schedule_tasklet mem (d\<lparr>kbd_table := map (\<lambda>_. kbd0) (kbd_table d), tasklet_enabled := True\<rparr>))"

text \<open>What is passed to the kernel, and the state.\<close>

definition do_scancode :: "(u32 \<Rightarrow> u32) \<Rightarrow> u8 \<Rightarrow> kbd_dev \<Rightarrow> (kbd_out list \<times> kbd_dev) option" where
  "do_scancode mem scancode d =
     (let d = d\<lparr>kout := []\<rparr>;
          d = (if \<not> kbd_inited d then kbd_init mem (d\<lparr>kbd_inited := True\<rparr>) else d) in
      Option.bind
        (if scancode \<noteq> 0 \<and> scancode \<noteq> 0xFF
         then Option.bind (handle_scancode scancode (scancode AND 0x80 = 0) d) (\<lambda>d. Some (kbd_bh mem d)) else Some d)
        (\<lambda>d. Some (kout d, d\<lparr>kout := []\<rparr>)))"

end
