(* ===== verification/Kbd_Inv.thy ===== *)
theory Kbd_Inv
  imports Kbd_Driver
begin

unbundle bit_operations_syntax

text \<open>
  The keyboard driver never leaves its tables: the invariant \<open>kbd_ok\<close> holds of the initial state, and
  every scan code, expected or not, keeps it.
\<close>

section \<open>What the key maps contain\<close>

text \<open>
  Characters, function strings, special functions but compose (14), pad keys below 20, consoles,
  cursor keys and modifiers below 4, meta and ASCII keys, and letters: no locks and no dead keys.
\<close>

definition sym_ok :: "nat \<Rightarrow> bool" where
  "sym_ok s =
     (if s < 0xF200 then 0xF000 \<le> s
      else if s < 0xF300 then s < 0xF214 \<and> s \<noteq> 0xF20E
      else if s < 0xF400 then s < 0xF314
      else if s < 0xF600 then 0xF500 \<le> s
      else if s < 0xF700 then s < 0xF604
      else if s < 0xF800 then s < 0xF704
      else s < 0xFA00 \<or> 0xFB00 \<le> s \<and> s < 0xFC00)"

text \<open>The modifier keys have the same meaning in all maps.\<close>

definition same_shift :: "nat \<Rightarrow> nat \<Rightarrow> bool" where
  "same_shift s p = (s = p \<or> \<not> (0xF700 \<le> s \<and> s < 0xF800) \<and> \<not> (0xF700 \<le> p \<and> p < 0xF800))"

definition map_ok :: "u16 list \<Rightarrow> bool" where
  "map_ok m = (length m = 256 \<and> list_all (\<lambda>s. sym_ok (unat s)) m \<and> list_all2 (\<lambda>s p. same_shift (unat s) (unat p)) m plain_map)"

lemma list_all2_replicate: "list_all2 P (replicate n a) (replicate n b) \<longleftrightarrow> n = 0 \<or> P a b"
  by (auto simp: list_all2_conv_all_nth)

lemma list_all_replicate: "list_all P (replicate n a) \<longleftrightarrow> n = 0 \<or> P a"
  by (auto simp: list_all_iff)

lemma unat_sym: "sym_ok n \<Longrightarrow> unat (of_nat n :: u16) = n"
  by (subst unat_of_nat) (auto simp: sym_ok_def split: if_splits)

lemma map_okI:
  assumes "length xs = 128" "list_all sym_ok xs" "plain_map = map of_nat (ys @ replicate 128 0xF200)" "list_all2 same_shift xs ys" "list_all sym_ok ys"
  shows "map_ok (map of_nat (xs @ replicate 128 0xF200))"
proof -
  have "list_all (\<lambda>n. sym_ok (unat (of_nat n :: u16))) (xs @ replicate 128 0xF200)"
    using assms(2) by (auto simp: list_all_iff unat_sym) (simp_all add: sym_ok_def)
  moreover have "list_all2 (\<lambda>a b. same_shift (unat (of_nat a :: u16)) (unat (of_nat b :: u16))) xs ys"
    using assms(2,4,5) by (auto simp: list_all2_conv_all_nth list_all_length unat_sym)
  ultimately show ?thesis using assms(1)
    by (auto simp: map_ok_def list_all_iff assms(3) list_all2_map1 list_all2_map2 same_shift_def list_all2_replicate intro!: list_all2_appendI)
qed

lemma maps_ok: "map_ok plain_map" "map_ok shift_map" "map_ok altgr_map" "map_ok ctrl_map" "map_ok altgr_ctrl_map" "map_ok alt_map" "map_ok ctrl_alt_map"
  unfolding shift_map_def altgr_map_def ctrl_map_def altgr_ctrl_map_def alt_map_def ctrl_alt_map_def
  subgoal by (subst plain_map_def) (rule map_okI [OF _ _ plain_map_def]; simp add: sym_ok_def same_shift_def)
  by (rule map_okI [OF _ _ plain_map_def]; simp add: sym_ok_def same_shift_def)+

lemma key_map_ok: "Some m \<in> set key_maps \<Longrightarrow> map_ok m"
  using maps_ok by (auto simp: key_maps_def)

lemma key_map_sym:
  assumes "map_ok m" "k < 256"
  shows "sym_ok (unat (m ! k))" "same_shift (unat (m ! k)) (unat (plain_map ! k))"
  using assms by (auto simp: map_ok_def list_all_length list_all2_conv_all_nth)

lemma length_key_maps [simp]: "length key_maps = 256"
  by (simp add: key_maps_def)

text \<open>The two bytes of an entry.\<close>

lemma sym_bytes: "unat (KTYP s) = unat s div 256" "unat (KVAL s) = unat s mod 256"
proof -
  have "unat (drop_bit 8 s) = unat s div 256" by (subst unat_drop_bit_eq) (simp add: drop_bit_eq_div)
  moreover have "unat s < 2 ^ LENGTH(16)" by (rule unsigned_less)
  ultimately show "unat (KTYP s) = unat s div 256" by (simp add: unsigned_ucast_eq take_bit_nat_eq_self less_mult_imp_div_less)
  show "unat (KVAL s) = unat s mod 256" by (simp add: unsigned_ucast_eq take_bit_eq_mod)
qed

section \<open>The invariant\<close>

definition kbd_ok :: "kbd_dev \<Rightarrow> bool" where
  "kbd_ok d =
     (length (k_down d) = 9 \<and> length (key_down d) = 8 \<and> length (kbd_table d) = 63 \<and> length (high_keys d) = 39 \<and> length (e0_keys d) = 128 \<and>
      lockstate (kb d) = 0 \<and> slockstate (kb d) = 0 \<and> ledmode (kb d) = 0 \<and> kbdmode (kb d) = VC_XLATE \<and> unat (shift_state d) < 16 \<and>
      diacr d = 0 \<and> \<not> dead_key_next d \<and> (kbd_inited d \<longrightarrow> modeflags (kb d) = 0x14))"

abbreviation kbd_sound :: "kbd_dev option \<Rightarrow> bool" where
  "kbd_sound r \<equiv> \<exists>d. r = Some d \<and> kbd_ok d"

lemma kbd_ok_dev0: "kbd_ok kbd_dev0"
  by (simp add: kbd_ok_def kbd_dev0_def kb_def keyboard_fg_console_def high_keys0_def e0_keys0_def)

lemma kb_simps [simp]:
  "kb (d\<lparr>kout := x\<rparr>) = kb d" "kb (d\<lparr>npadch := c\<rparr>) = kb d" "kb (d\<lparr>k_down := w\<rparr>) = kb d" "kb (d\<lparr>shift_state := u\<rparr>) = kb d"
  "kb (d\<lparr>key_rep := b\<rparr>) = kb d" "kb (d\<lparr>key_down := v\<rparr>) = kb d" "kb (d\<lparr>stopped := b\<rparr>) = kb d" "kb (d\<lparr>prev_scancode := u\<rparr>) = kb d"
  "kb (d\<lparr>ledstate := e\<rparr>) = kb d" "kb (d\<lparr>kbd_inited := b\<rparr>) = kb d" "kb (d\<lparr>tasklet_enabled := b\<rparr>) = kb d"
  by (simp_all add: kb_def)

lemma kb_upd [simp]: "length (kbd_table d) = 63 \<Longrightarrow> kb (upd_kb f d) = f (kb d)"
  by (simp add: kb_def upd_kb_def keyboard_fg_console_def)

lemma upd_kb_fields [simp]:
  "k_down (upd_kb f d) = k_down d" "key_down (upd_kb f d) = key_down d" "length (kbd_table (upd_kb f d)) = length (kbd_table d)"
  "high_keys (upd_kb f d) = high_keys d" "e0_keys (upd_kb f d) = e0_keys d" "shift_state (upd_kb f d) = shift_state d"
  "diacr (upd_kb f d) = diacr d" "dead_key_next (upd_kb f d) = dead_key_next d" "kbd_inited (upd_kb f d) = kbd_inited d"
  "npadch (upd_kb f d) = npadch d" "key_rep (upd_kb f d) = key_rep d" "kout (upd_kb f d) = kout d" "prev_scancode (upd_kb f d) = prev_scancode d"
  by (simp_all add: upd_kb_def)

lemma kbd_ok_out [simp]:
  "kbd_ok (put_queue c d) = kbd_ok d" "kbd_ok (puts_queue str d) = kbd_ok d" "kbd_ok (applkey k m d) = kbd_ok d" "kbd_ok (to_utf8 w d) = kbd_ok d"
  "kbd_ok (d\<lparr>npadch := n\<rparr>) = kbd_ok d" "kbd_ok (d\<lparr>key_rep := b\<rparr>) = kbd_ok d" "kbd_ok (d\<lparr>stopped := b\<rparr>) = kbd_ok d" "kbd_ok (d\<lparr>kout := x\<rparr>) = kbd_ok d"
  "kbd_ok (d\<lparr>prev_scancode := n\<rparr>) = kbd_ok d"
  by (simp_all add: put_queue_def puts_queue_def applkey_def to_utf8_def kbd_ok_def Let_def)

lemma kbd_ok_led [simp]:
  assumes "kbd_ok d"
  shows "kbd_ok (upd_kb (chg_vc_kbd_led f) d)" "kbd_ok (upd_kb (set_vc_kbd_led f) d)" "kbd_ok (upd_kb (clr_vc_kbd_led f) d)"
    "kbd_ok (upd_kb (slockstate_update (\<lambda>_. 0)) d)"
  using assms by (simp_all add: kbd_ok_def chg_vc_kbd_led_def set_vc_kbd_led_def clr_vc_kbd_led_def)

lemma small_take: "unat (w :: u32) < 16 \<longleftrightarrow> take_bit 4 w = w"
  by (simp add: word_unat_eq_iff unsigned_take_bit_eq take_bit_nat_eq_self_iff)

lemma shift_bit:
  assumes "unat (w :: u32) < 16" "v < 4"
  shows "unat (w OR push_bit v 1) < 16" "unat (w AND NOT (push_bit v 1)) < 16"
proof -
  have w: "n < 4" if "bit w n" for n
    using assms(1) that unfolding small_take by (metis bit_take_bit_iff)
  show "unat (w OR push_bit v 1) < 16" "unat (w AND NOT (push_bit v 1)) < 16"
    unfolding small_take using w assms(2) by (auto intro!: bit_word_eqI simp: bit_simps simp del: push_bit_of_1)
qed

section \<open>Handlers\<close>

lemma kbd_okD:
  assumes "kbd_ok d"
  shows "length (k_down d) = 9" "length (key_down d) = 8" "length (kbd_table d) = 63" "length (high_keys d) = 39" "length (e0_keys d) = 128"
    "lockstate (kb d) = 0" "slockstate (kb d) = 0" "kbdmode (kb d) = 0" "unat (shift_state d) < 16" "diacr d = 0" "\<not> dead_key_next d"
  using assms by (simp_all add: kbd_ok_def)

lemma do_shift_ok:
  assumes "kbd_ok d" "value < 4" shows "kbd_sound (do_shift value up d)"
proof -
  from assms(2) have v: "unat value < 4" "value \<noteq> 8" by (auto simp: word_less_nat_alt)
  then show ?thesis using assms(1) shift_bit [OF kbd_okD(9) [OF assms(1)] v(1)] kbd_okD(1) [OF assms(1)]
    by (auto simp: do_shift_def Let_def kbd_index_def) (simp_all add: kbd_ok_def)
qed

lemma do_self_plain: "kbd_ok d \<Longrightarrow> do_self v up d = Some (if up then d else put_queue (ucast v) d)"
  by (simp add: do_self_def kbd_ok_def)

lemma handlers_ok:
  assumes "kbd_ok d"
  shows "kbd_sound (do_self v up d)" "kbd_sound (do_fn v up d)" "kbd_sound (do_cons v up d)" "kbd_sound (do_meta v up d)" "kbd_sound (do_ascii v up d)"
    "v < 4 \<Longrightarrow> kbd_sound (do_cur v up d)"
  using assms kbd_okD(10,11) [OF assms]
  by (auto simp: do_self_def do_fn_def do_cons_def keyboard_set_console_def do_meta_def do_ascii_def do_cur_def kbd_index_def word_less_nat_alt Let_def split: option.splits)

lemma do_pad_ok:
  assumes "kbd_ok d" "v < 20" shows "kbd_sound (do_pad v up d)"
proof -
  from assms(2) have "unat v < 20" by (simp add: word_less_nat_alt)
  then show ?thesis using assms(1) handlers_ok [OF assms(1)]
    by (auto simp: do_pad_def kbd_index_def Let_def)
qed

section \<open>The modifiers that are down\<close>

definition shift_val :: "u16 \<Rightarrow> nat option" where
  "shift_val s = (if 0xF700 \<le> unat s \<and> unat s < 0xF800 then Some (unat s - 0xF700) else None)"

lemma shift_val_small: "sym_ok (unat s) \<Longrightarrow> shift_val s = Some v \<Longrightarrow> v < 4"
  by (auto simp: shift_val_def sym_ok_def split: if_splits)

lemma shift_val_bytes:
  assumes "sym_ok (unat s)"
  shows "KTYP s = 0xF7 \<longleftrightarrow> shift_val s \<noteq> None" "shift_val s = Some v \<Longrightarrow> unat (KVAL s) = v"
proof -
  show "KTYP s = 0xF7 \<longleftrightarrow> shift_val s \<noteq> None"
    using assms sym_bytes [of s] by (auto simp: word_unat_eq_iff shift_val_def sym_ok_def split: if_splits)
  have "n mod 256 = n - 0xF700" if "0xF700 \<le> n" "n < 0xF800" for n :: nat
  proof -
    have "n = (n - 0xF700) + 247 * 256" using that(1) by simp
    then have "n mod 256 = (n - 0xF700) mod 256" by (metis mod_mult_self1)
    with that show ?thesis by simp
  qed
  then show "shift_val s = Some v \<Longrightarrow> unat (KVAL s) = v" using sym_bytes(2) [of s] by (auto simp: shift_val_def split: if_splits)
qed

lemma U_bytes: "KTYP (s XOR 0xF000) = KTYP s XOR 0xF0" "KVAL (s XOR 0xF000) = KVAL s"
proof -
  have e: "(0xF000 :: u16) = push_bit 8 0xF0" by simp
  show "KTYP (s XOR 0xF000) = KTYP s XOR 0xF0" unfolding e drop_bit_xor unsigned_xor_eq by simp
  show "KVAL (s XOR 0xF000) = KVAL s" 
  proof -
    have "(ucast (0xF000 :: u16) :: u8) = 0" by (simp add: word_unat_eq_iff)
    then show ?thesis unfolding unsigned_xor_eq by (simp only: xor.right_neutral)
  qed
qed

lemma plain_sym: "k < 256 \<Longrightarrow> sym_ok (unat (plain_map ! k))"
  using key_map_sym(1) [OF maps_ok(1)] .

text \<open>A key of the loop, without the checks.\<close>

definition add_key :: "nat \<Rightarrow> kbd_dev \<Rightarrow> kbd_dev" where
  "add_key k d =
     (if test_bit k (key_down d) then
        case shift_val (plain_map ! k) of
          None \<Rightarrow> d
        | Some v \<Rightarrow> d\<lparr>k_down := (k_down d)[v := k_down d ! v + 1], shift_state := shift_state d OR push_bit v 1\<rparr>
      else d)"

lemma count_key_add:
  assumes "k < 256" "length (k_down d) = 9"
  shows "count_key k d = Some (add_key k d)"
proof -
  let ?s = "plain_map ! k"
  have t: "KTYP (?s XOR 0xF000) = 7 \<longleftrightarrow> shift_val ?s \<noteq> None" "KTYP (?s XOR 0xF000) \<noteq> 12"
  proof -
    have "KTYP ?s \<noteq> 0xFC" using plain_sym [OF assms(1)] sym_bytes(1) [of ?s] by (auto simp: word_unat_eq_iff sym_ok_def split: if_splits)
    moreover have "x XOR 0xF0 = (c :: u8) \<longleftrightarrow> x = c XOR 0xF0" for x c by (metis xor.assoc xor_self_eq xor.right_neutral)
    ultimately show "KTYP (?s XOR 0xF000) = 7 \<longleftrightarrow> shift_val ?s \<noteq> None" "KTYP (?s XOR 0xF000) \<noteq> 12"
      using shift_val_bytes(1) [OF plain_sym [OF assms(1)]] unfolding U_bytes by simp_all
  qed
  show ?thesis
  proof (cases "shift_val ?s")
    case (Some v)
    have "v < 4" "unat (KVAL ?s) = v" using shift_val_small [OF plain_sym [OF assms(1)] Some] shift_val_bytes(2) [OF plain_sym [OF assms(1)] Some] .
    moreover from this have "KVAL ?s \<noteq> 8" by (auto simp: word_unat_eq_iff)
    ultimately show ?thesis using Some t assms(2) by (simp add: count_key_def add_key_def U_bytes kbd_index_def Let_def)
  qed (use t in \<open>simp add: count_key_def add_key_def Let_def\<close>)
qed

lemma add_key_fields [simp]: "key_down (add_key k d) = key_down d" "length (k_down (add_key k d)) = length (k_down d)"
  by (auto simp: add_key_def split: option.splits)

lemma foldM_count:
  assumes "set ks \<subseteq> {..<256}" "length (k_down d) = 9"
  shows "foldM count_key ks d = Some (fold add_key ks d)"
  using assms by (induction ks arbitrary: d) (simp_all add: count_key_add)

lemma fold_add_fields [simp]: "key_down (fold add_key ks d) = key_down d" "length (k_down (fold add_key ks d)) = length (k_down d)"
  by (induction ks arbitrary: d) simp_all

lemma fold_add_zero:
  assumes "key_down d ! i = 0" "ks = [32 * i..<32 * i + 32]"
  shows "fold add_key ks d = d"
proof (rule fold_invariant [where Q = "\<lambda>k. k div 32 = i" and P = "\<lambda>x. x = d"])
  show "k div 32 = i" if "k \<in> set ks" for k using that assms(2) by auto
  show "add_key k x = d" if "k div 32 = i" "x = d" for k x using that assms(1) by (simp add: add_key_def test_bit_def)
qed simp

lemma compute_shiftstate_fold:
  "compute_shiftstate d = Some (fold add_key [0..<256] (d\<lparr>shift_state := 0, k_down := replicate 9 0\<rparr>))"
proof -
  let ?d = "d\<lparr>shift_state := 0, k_down := replicate 9 0\<rparr>"
  let ?f = "\<lambda>i d. if key_down d ! i \<noteq> 0 then foldM count_key [32 * i..<32 * i + 32] d else Some d"
  have "foldM ?f [0..<n] ?d = Some (fold add_key [0..<32 * n] ?d)" if "n \<le> 8" for n
    using that
  proof (induction n)
    case (Suc n)
    have a: "foldM f (xs @ [y]) z = Option.bind (foldM f xs z) (f y)" for f :: "nat \<Rightarrow> kbd_dev \<Rightarrow> kbd_dev option" and xs y z
      by (induction xs arbitrary: z) (auto split: Option.bind_splits)
    let ?e = "fold add_key [0..<32 * n] ?d"
    have "?f n ?e = Some (fold add_key [32 * n..<32 * n + 32] ?e)"
      using Suc.prems fold_add_zero [of ?e n] by (simp add: foldM_count subset_eq)
    moreover have "[0..<32 * Suc n] = [0..<32 * n] @ [32 * n..<32 * n + 32]" using upt_add_eq_append [of 0 "32 * n" 32] by (simp add: add.commute)
    ultimately show ?case using Suc by (simp add: a)
  qed simp
  from this [of 8] show ?thesis by (simp add: compute_shiftstate_def)
qed

text \<open>The modifier keys of index \<open>v\<close> that are down.\<close>

definition held :: "kbd_dev \<Rightarrow> nat \<Rightarrow> nat set" where
  "held d v = {k. k < 256 \<and> test_bit k (key_down d) \<and> shift_val (plain_map ! k) = Some v}"

text \<open>The counters and the state of the modifiers say what is down.\<close>

definition tracks :: "kbd_dev \<Rightarrow> bool" where
  "tracks d = ((\<forall>v < 9. k_down d ! v = of_nat (card (held d v))) \<and> (\<forall>v. bit (shift_state d) v \<longleftrightarrow> held d v \<noteq> {}))"

lemma held_small: "k \<in> held d v \<Longrightarrow> v < 4"
  using shift_val_small [OF plain_sym] by (auto simp: held_def)

lemma finite_held [simp]: "finite (held d v)"
  by (rule finite_subset [of _ "{..<256}"]) (auto simp: held_def)

lemma tracks_state: "tracks d \<Longrightarrow> unat (shift_state d) < 16"
  unfolding small_take tracks_def using held_small by (auto intro!: bit_word_eqI simp: bit_take_bit_iff)

lemma fold_add_tracks:
  assumes "n \<le> 256" "k_down d = replicate 9 0" "shift_state d = 0"
  shows "let e = fold add_key [0..<n] d; h = (\<lambda>v. {k \<in> held d v. k < n}) in
    e = d\<lparr>k_down := k_down e, shift_state := shift_state e\<rparr> \<and>
    (\<forall>v < 9. k_down e ! v = of_nat (card (h v))) \<and> (\<forall>v. bit (shift_state e) v \<longleftrightarrow> h v \<noteq> {})"
  using assms(1)
proof (induction n)
  case 0
  then show ?case using assms by (simp add: Let_def)
next
  case (Suc n)
  let ?e = "fold add_key [0..<n] d"
  let ?h = "\<lambda>n v. {k \<in> held d v. k < n}"
  from Suc have IH: "?e = d\<lparr>k_down := k_down ?e, shift_state := shift_state ?e\<rparr>" "k_down ?e ! v = of_nat (card (?h n v))" if "v < 9" for v
    using that by (simp_all add: Let_def)
  from Suc have IHb: "bit (shift_state ?e) v \<longleftrightarrow> ?h n v \<noteq> {}" for v by (simp add: Let_def)
  have l: "length (k_down ?e) = 9" using assms(2) by simp
  show ?case
  proof (cases "\<exists>v. n \<in> held d v")
    case True
    then obtain v where v: "n \<in> held d v" ..
    then have e: "?h (Suc n) w = (if w = v then insert n (?h n v) else ?h n w)" for w
      by (auto simp: held_def less_Suc_eq)
    have "v < 4" using held_small [OF v] .
    moreover have "add_key n ?e = ?e\<lparr>k_down := (k_down ?e)[v := k_down ?e ! v + 1], shift_state := shift_state ?e OR push_bit v 1\<rparr>"
      using v by (simp add: add_key_def held_def)
    moreover have "?e\<lparr>k_down := x, shift_state := y\<rparr> = d\<lparr>k_down := x, shift_state := y\<rparr>" for x y
      by (subst IH(1) [of 0]) simp_all
    ultimately show ?thesis using IH(2) IHb l by (simp add: Let_def e nth_list_update bit_simps)
  next
    case False
    then have "?h (Suc n) v = ?h n v" for v by (auto simp: less_Suc_eq)
    moreover have "add_key n ?e = ?e" using False Suc.prems by (auto simp: add_key_def held_def split: option.splits)
    ultimately show ?thesis using Suc.IH Suc.prems by (simp add: Let_def)
  qed
qed

lemma compute_shiftstate_tracks:
  "\<exists>w u. compute_shiftstate d = Some (d\<lparr>k_down := w, shift_state := u\<rparr>) \<and> length w = 9 \<and> tracks (d\<lparr>k_down := w, shift_state := u\<rparr>)"
proof -
  let ?d = "d\<lparr>shift_state := 0, k_down := replicate 9 0\<rparr>"
  let ?e = "fold add_key [0..<256] ?d"
  have h: "{k \<in> held ?d v. k < 256} = held d v" for v by (auto simp: held_def)
  have l: "length (k_down ?e) = 9" by simp
  have e: "?e = d\<lparr>k_down := k_down ?e, shift_state := shift_state ?e\<rparr>" and t: "\<forall>v < 9. k_down ?e ! v = of_nat (card (held d v))" "\<forall>v. bit (shift_state ?e) v \<longleftrightarrow> held d v \<noteq> {}"
    using fold_add_tracks [of 256 ?d] by (simp_all add: Let_def h)
  have "held (d\<lparr>k_down := w, shift_state := u\<rparr>) v = held d v" for w u v by (simp add: held_def)
  then have "tracks (d\<lparr>k_down := k_down ?e, shift_state := shift_state ?e\<rparr>)" using t unfolding tracks_def by simp
  with trans [OF compute_shiftstate_fold arg_cong [OF e, where f = Some]] l show ?thesis by blast
qed

lemma compute_shiftstate_ok: "kbd_ok d \<Longrightarrow> kbd_sound (compute_shiftstate d)"
  using compute_shiftstate_tracks [of d] by (auto dest!: tracks_state) (auto simp: kbd_ok_def)

section \<open>A scan code\<close>

lemma do_spec_ok:
  assumes "kbd_ok d" "v \<noteq> 14" shows "kbd_sound (do_spec v up d)"
proof (cases "up \<or> unat v \<ge> length spec_fn_table \<or> (kbdmode (kb d) = VC_RAW \<or> kbdmode (kb d) = VC_MEDIUMRAW) \<and> v \<noteq> 15")
  case False
  have "unat v \<noteq> 14" using assms(2) by (auto simp: word_unat_eq_iff)
  moreover have "kbd_sound (f d)" if "i < length spec_fn_table" "i \<noteq> 14" "f = spec_fn_table ! i" for i f
    using that assms(1) compute_shiftstate_ok [OF assms(1)] kbd_okD(10) [OF assms(1)]
    by (auto simp: spec_fn_table_def less_Suc_eq enter_key_def caps_toggle_def num_key_def hold_key_def caps_on_def bare_num_def
        lastcons_def keyboard_set_console_def decr_console_def incr_console_def keyboard_start_tty_def keyboard_stop_tty_def Let_def split: option.splits)
  ultimately show ?thesis using False by (auto simp: do_spec_def)
qed (use assms in \<open>auto simp: do_spec_def\<close>)

lemma sym_type:
  assumes "sym_ok (unat s)"
  shows "KTYP s \<ge> 0xF0" "unat (KTYP s - 0xF0) = unat s div 256 - 240"
proof -
  have "240 \<le> unat s div 256" using assms by (auto simp: sym_ok_def split: if_splits)
  then have "unat (0xF0 :: u8) \<le> unat (KTYP s)" using sym_bytes(1) [of s] by simp
  then show "KTYP s \<ge> 0xF0" unfolding word_le_nat_alt .
  then show "unat (KTYP s - 0xF0) = unat s div 256 - 240" using sym_bytes(1) [of s] by (simp add: unat_sub)
qed

lemma sym_ok_bytes:
  assumes "sym_ok (256 * t + v)" "v < 256"
  shows "240 \<le> t" "t \<le> 251" "t \<noteq> 244" "t \<noteq> 250" "t = 242 \<Longrightarrow> v \<noteq> 14" "t = 243 \<Longrightarrow> v < 20" "t = 246 \<Longrightarrow> v < 4" "t = 247 \<Longrightarrow> v < 4"
  using assms by (auto simp: sym_ok_def split: if_splits)

lemma handler_ok:
  assumes "kbd_ok d" "sym_ok (unat s)" "KTYP s - 0xF0 \<noteq> 11"
  shows "kbd_sound ((key_handler ! unat (KTYP s - 0xF0)) (KVAL s) up d)"
proof -
  obtain t v where t: "unat s div 256 = t" and v: "unat s mod 256 = v" by blast
  have "256 * t + v = unat s" unfolding t [symmetric] v [symmetric] by simp
  moreover have "v < 256" using v by auto
  ultimately have b: "240 \<le> t" "t \<le> 251" "t \<noteq> 244" "t \<noteq> 250" "t = 242 \<Longrightarrow> v \<noteq> 14" "t = 243 \<Longrightarrow> v < 20" "t = 246 \<Longrightarrow> v < 4" "t = 247 \<Longrightarrow> v < 4"
    using sym_ok_bytes [of t v] assms(2) by simp_all
  have k: "unat (KTYP s - 0xF0) = t - 240" "unat (KVAL s) = v" using sym_type(2) [OF assms(2)] sym_bytes(2) [of s] t v by simp_all
  have "t \<noteq> 251" using assms(3) k(1) by (auto simp: word_unat_eq_iff)
  with b(1-4) have "t - 240 \<in> {0, 1, 2, 3, 5, 6, 7, 8, 9}" unfolding insert_iff empty_iff by arith
  moreover have "t - 240 = 2 \<Longrightarrow> KVAL s \<noteq> 14" "t - 240 = 3 \<Longrightarrow> KVAL s < 20" "t - 240 = 6 \<or> t - 240 = 7 \<Longrightarrow> KVAL s < 4"
    using b k(2) by (auto simp: word_unat_eq_iff word_less_nat_alt)
  ultimately show ?thesis unfolding k(1)
    using handlers_ok [OF assms(1)] do_spec_ok [OF assms(1)] do_pad_ok [OF assms(1)] do_shift_ok [OF assms(1)]
    by (auto simp: key_handler_def)
qed

lemma key_maps_at: "i < 256 \<Longrightarrow> key_maps ! i = Some m \<Longrightarrow> map_ok m"
  using key_map_ok nth_mem [of i key_maps] by simp

lemma handle_key_ok:
  assumes "kbd_ok d" shows "kbd_sound (handle_key raw keycode up d)"
proof -
  note k = kbd_okD [OF assms]
  let ?i = "unat (shift_state d)"
  have i: "?i < 256" using k(9) by simp
  have x: "unat (shift_state d XOR 1) < 256"
  proof -
    have "take_bit 4 (shift_state d XOR 1) = shift_state d XOR 1" using k(9) unfolding small_take by (simp add: take_bit_xor)
    then show ?thesis using small_take [of "shift_state d XOR 1"] by simp
  qed
  show ?thesis
  proof (cases "key_maps ! ?i")
    case None
    then show ?thesis using compute_shiftstate_ok [OF assms] k(6,7) i by (auto simp: handle_key_def kbd_index_def)
  next
    case (Some m)
    let ?s = "m ! unat keycode"
    have s: "sym_ok (unat ?s)" by (rule key_map_sym(1) [OF key_maps_at [OF i Some]]) (use unsigned_less [of keycode, where 'a = nat] in simp)
    show ?thesis
    proof (cases "KTYP ?s - 0xF0 = 11")
      case True
      then show ?thesis using Some i x k(6,7) sym_type(1) [OF s] assms
        by (auto simp: handle_key_def kbd_index_def Let_def key_handler_def do_self_plain)
    next
      case False
      then show ?thesis using Some i k(6,7) handler_ok [OF assms s False, of up] sym_type(1) [OF s] assms
        by (auto simp: handle_key_def kbd_index_def Let_def)
    qed
  qed
qed

lemma translate_ok: "kbd_translate c d = (r, d') \<Longrightarrow> \<exists>p. d' = d\<lparr>prev_scancode := p\<rparr>"
  by (auto simp: kbd_translate_def Let_def split: if_splits) (metis kbd_dev.surjective kbd_dev.update_convs(3))+

lemma note_key_ok: "kbd_ok d \<Longrightarrow> kbd_ok (snd (note_key keycode up d))"
  by (simp add: note_key_def Let_def kbd_ok_def clear_bit_at_def set_bit_at_def)

lemma handle_scancode_ok:
  assumes "kbd_ok d" shows "kbd_sound (handle_scancode c down d)"
proof -
  obtain r e where t: "kbd_translate c d = (r, e)" by fastforce
  then have e: "kbd_ok e" using translate_ok assms by fastforce
  show ?thesis
  proof (cases r)
    case None
    with t e kbd_okD(8) [OF assms] show ?thesis by (simp add: handle_scancode_def)
  next
    case (Some keycode)
    have n: "kbd_ok (snd (note_key keycode (\<not> down) e))" using note_key_ok [OF e] .
    then show ?thesis using t Some kbd_okD(8) [OF assms] kbd_okD(8) [OF n] handle_key_ok [OF n]
      by (auto simp: handle_scancode_def Let_def split: prod.splits)
  qed
qed

lemma kbd_bh_ok [simp]: "kbd_ok (kbd_bh mem d) = kbd_ok d"
  by (simp add: kbd_bh_def kbd_ok_def Let_def)

lemma kbd_init_ok: "kbd_ok d \<Longrightarrow> kbd_ok (kbd_init mem (d\<lparr>kbd_inited := b\<rparr>))"
  by (simp add: kbd_init_def keyboard_schedule_tasklet_def Let_def) (simp add: kbd_ok_def kb_def keyboard_fg_console_def)

text \<open>The state in which the scan code is handled.\<close>

definition kbd_ready :: "(u32 \<Rightarrow> u32) \<Rightarrow> kbd_dev \<Rightarrow> kbd_dev" where
  "kbd_ready mem d = (let d = d\<lparr>kout := []\<rparr> in if \<not> kbd_inited d then kbd_init mem (d\<lparr>kbd_inited := True\<rparr>) else d)"

lemma do_scancode_ready:
  "do_scancode mem c d =
     (if c \<noteq> 0 \<and> c \<noteq> 0xFF then
        Option.bind (handle_scancode c (c AND 0x80 = 0) (kbd_ready mem d)) (\<lambda>d. Some (kout (kbd_bh mem d), (kbd_bh mem d)\<lparr>kout := []\<rparr>))
      else Some (kout (kbd_ready mem d), (kbd_ready mem d)\<lparr>kout := []\<rparr>))"
  by (simp add: do_scancode_def kbd_ready_def Let_def split: Option.bind_splits)

lemma kbd_ready_ok: "kbd_ok d \<Longrightarrow> kbd_ok (kbd_ready mem d)" "kbd_inited (kbd_ready mem d)"
  using kbd_init_ok [of "d\<lparr>kout := []\<rparr>"]
  by (simp_all add: kbd_ready_def Let_def kbd_init_def keyboard_schedule_tasklet_def kbd_bh_def)

lemma do_scancode_ok:
  assumes "kbd_ok d"
  shows "\<exists>out d'. do_scancode mem c d = Some (out, d') \<and> kbd_ok d'"
  using handle_scancode_ok [OF kbd_ready_ok(1) [OF assms, of mem], of c "c AND 0x80 = 0"] kbd_ready_ok(1) [OF assms, of mem]
  by (auto simp: do_scancode_ready)

end
