(* ===== verification/Shared_Memory.thy ===== *)
theory Shared_Memory
  imports Hash_Map Info Kbd_Inv
begin

unbundle bit_operations_syntax

text \<open>
  The state of the whole kernel (the core, the console, the clock, the keyboard and the
  shared pages) and the shared memory of \<^verbatim>\<open>kernel/shared_memory.c\<close>: pages named by strings.
\<close>

section \<open>The whole state\<close>

record sys =
  ker :: kstate
  scr :: screen
  ck :: clock
  CONSOLE_ECHO :: u8
  readchar :: u8
  keyboard :: kbd_dev
  NUMBER_SHARED_PAGES :: int
  hash_head :: "cstr hash_t"

type_synonym 'a sresult = "(sys, 'a) result"

text \<open>A call of the core, and a call of the memory manager, on the whole state.\<close>

definition kcall :: "(kstate \<Rightarrow> flow syscall_result) \<Rightarrow> sys \<Rightarrow> (flow \<times> sys) sresult" where
  "kcall f s = lift_trap (\<lambda>k. s\<lparr>ker := k\<rparr>) (bindE (f (ker s)) (\<lambda>(fl, k). Inr (fl, s\<lparr>ker := k\<rparr>)))"

definition mcall :: "(mm_state \<Rightarrow> (mm_state, 'a \<times> mm_state) result) \<Rightarrow> sys \<Rightarrow> ('a \<times> sys) sresult" where
  "mcall f s = lift_trap (\<lambda>k. s\<lparr>ker := k\<rparr>) (bindE (mem_call f (ker s)) (\<lambda>(x, k). Inr (x, s\<lparr>ker := k\<rparr>)))"

definition hcall :: "'a option \<Rightarrow> 'a sresult" where
  "hcall r = (case r of None \<Rightarrow> Inl Loop | Some x \<Rightarrow> Inr x)"

text \<open>\<^verbatim>\<open>printf\<close> in the kernel: the characters go to the screen.\<close>

definition kprintf :: "string \<Rightarrow> varg list \<Rightarrow> sys \<Rightarrow> sys" where
  "kprintf fmt args s =
     (case doprnt 0 fmt args of None \<Rightarrow> s | Some out \<Rightarrow> s\<lparr>scr := console_putbytes (bytes out) (scr s)\<rparr>)"

section \<open>Shared pages\<close>

abbreviation MAX_SHARED_PAGES :: int where "MAX_SHARED_PAGES \<equiv> 100"

definition initalize_hash_head :: "sys \<Rightarrow> sys" where
  "initalize_hash_head s = s\<lparr>hash_head := snd (hash_init_string True (hash_head s))\<rparr>"

text \<open>\<open>None\<close> is a NULL key. The copy of the key lies in a fresh block of the kernel heap.\<close>

definition shm_create :: "cstr option \<Rightarrow> sys \<Rightarrow> (u32 \<times> sys) sresult" where
  "shm_create key s =
     (if NUMBER_SHARED_PAGES s \<ge> MAX_SHARED_PAGES then Inr (0, s)
      else
        let s = s\<lparr>NUMBER_SHARED_PAGES := NUMBER_SHARED_PAGES s + 1\<rparr> in
        case key of
          None \<Rightarrow> Inr (0, s)
        | Some k \<Rightarrow>
            bindE (hcall (hash_get (hash_head s) k 0)) (\<lambda>v.
              if v \<noteq> 0 then Inr (0, s)
              else
                bindE (mcall (virtual_malloc 4096) s) (\<lambda>(page, s).
                  let key_address = of_nat (brk (ker s));
                      s = s\<lparr>ker := (ker s)\<lparr>brk := brk (ker s) + 1\<rparr>\<rparr>
                  in bindE (hcall (hash_set True (key_address, snd k) page (hash_head s))) (\<lambda>(_, ht).
                       Inr (page, s\<lparr>hash_head := ht\<rparr>)))))"

definition map_shared :: "u32 \<Rightarrow> mm_state \<Rightarrow> (mm_state, u32 \<times> mm_state) result" where
  "map_shared page mem =
     bindE (get_ptable_entry_from_virtual_address page (CR3 mem) True PAGE_TABLE_USER_RW mem)
       (\<lambda>(ptable_entry, mem).
          bindE (store32 ptable_entry ((page AND FRAME_MASK) OR PAGE_TABLE_USER_RW) mem) (\<lambda>mem. Inr (page, mem)))"

definition shm_acquire :: "cstr \<Rightarrow> sys \<Rightarrow> (u32 \<times> sys) sresult" where
  "shm_acquire key s =
     bindE (hcall (hash_get (hash_head s) key 0)) (\<lambda>page.
       let s = (if page = 0 then kprintf (''Shared memory for key %s not found'' @ [CHR 0x0A]) [Str (snd key)] s else s)
       in mcall (map_shared page) s)"

definition shm_release :: "cstr \<Rightarrow> sys \<Rightarrow> sys sresult" where
  "shm_release key s =
     (if NUMBER_SHARED_PAGES s < 0 then Inr s
      else
        let s = s\<lparr>NUMBER_SHARED_PAGES := NUMBER_SHARED_PAGES s - 1\<rparr> in
        bindE (hcall (hash_get (hash_head s) key 0)) (\<lambda>address.
          if address \<noteq> 0 then
            bindE (mcall (\<lambda>mem. bindE (virtual_free address 4096 mem) (\<lambda>mem. Inr ((), mem))) s) (\<lambda>(_, s).
              bindE (hcall (hash_del True key (hash_head s))) (\<lambda>(_, ht). Inr (s\<lparr>hash_head := ht\<rparr>)))
          else Inr s))"

section \<open>Keyboard\<close>

definition keyboard_data :: "string \<Rightarrow> sys \<Rightarrow> sys" where
  "keyboard_data str s = (if CONSOLE_ECHO s \<noteq> 0 then kprintf ''%s'' [Str str] s else s)"

text \<open>What the driver calls: the lights are left to \<^verbatim>\<open>kbd_leds\<close>, which is empty (\<^verbatim>\<open>kernel/boot/crt0.S\<close>).\<close>

definition kbd_deliver :: "kbd_out \<Rightarrow> sys \<Rightarrow> sys" where
  "kbd_deliver x s = (case x of Data str \<Rightarrow> keyboard_data str s | Leds leds \<Rightarrow> s)"

definition keyboard_interrupt :: "u8 \<Rightarrow> sys \<Rightarrow> sys sresult" where
  "keyboard_interrupt scancode s =
     (case do_scancode (phys (mm (ker s))) scancode (keyboard s) of
        None \<Rightarrow> Inl OutOfRange
      | Some (out, d) \<Rightarrow> Inr (fold kbd_deliver out (s\<lparr>keyboard := d\<rparr>)))"

definition console_echo :: "int \<Rightarrow> sys \<Rightarrow> sys" where
  "console_echo on s = s\<lparr>CONSOLE_ECHO := of_int on\<rparr>"

definition console_readline :: "u32 \<Rightarrow> u32 \<Rightarrow> int" where
  "console_readline str len = 0"

text \<open>\<^verbatim>\<open>while (readchar == 0);\<close> spins until an interrupt sets the variable; none does.\<close>

definition console_readchar :: "sys \<Rightarrow> (int \<times> sys) sresult" where
  "console_readchar s = (if readchar s = 0 then Inl Loop else Inr (sint (readchar s), s\<lparr>readchar := 0\<rparr>))"

end
