(* ===== verification/Message_Queue.thy ===== *)
theory Message_Queue
  imports Process
begin

text \<open>
  Message queues (\<^verbatim>\<open>kernel/message_queue.c\<close>): a circular buffer of messages and one list of
  blocked processes, which are receivers when the buffer is empty and senders when it is
  full. \<open>Q_mq a\<close> is the list \<^verbatim>\<open>waiting_process\<close> of the queue at \<open>a\<close>.
\<close>

section \<open>Operations\<close>

definition get_free_fid :: "kstate \<Rightarrow> int" where
  "get_free_fid st =
     (case first_from NBQUEUE 0 (\<lambda>i. queue_table st i = None) of None \<Rightarrow> -1 | Some i \<Rightarrow> i)"

definition mq_lookup :: "int \<Rightarrow> kstate \<Rightarrow> addr option" where
  "mq_lookup i st = (if i < 0 \<or> i > int NBQUEUE - 1 then None else queue_table st i)"

definition mq_at :: "addr \<Rightarrow> kstate \<Rightarrow> MessageQueue kresult" where
  "mq_at a st = (case mqs st a of None \<Rightarrow> Inl UseAfterFree | Some x \<Rightarrow> Inr x)"

definition upd_mq :: "addr \<Rightarrow> (MessageQueue \<Rightarrow> MessageQueue) \<Rightarrow> kstate \<Rightarrow> kstate" where
  "upd_mq a f st = st\<lparr>mqs := (mqs st)(a := map_option f (mqs st a))\<rparr>"

definition pcreate :: "int \<Rightarrow> kstate \<Rightarrow> flow syscall_result" where
  "pcreate cnt st =
     (let i = get_free_fid st in
      if cnt \<le> 0 \<or> i = -1 \<or> cnt > QUEUE_MAX_SIZE then Inr (Return (-1), st)
      else
        let a = brk st in
        Inr (Return i,
             st\<lparr>brk := brk st + 2,
                queue_table := (queue_table st)(i := Some a),
                mqs := (mqs st)(a := Some \<lparr>fid = i, capacity = cnt, nb_msg = 0, head = 0, tail = 0,
                                          buffer = replicate (nat cnt) 0\<rparr>),
                qs := q_init (Q_mq a) (qs st)\<rparr>))"

definition pdelete :: "int \<Rightarrow> kstate \<Rightarrow> flow syscall_result" where
  "pdelete i st =
     (case mq_lookup i st of
        None \<Rightarrow> Inr (Return (-1), st)
      | Some deleted \<Rightarrow>
          bindE (wake_all (length (q_of (Q_mq deleted) st)) (skip_message_update (\<lambda>_. True)) (Q_mq deleted) st) (\<lambda>st.
          let st = st\<lparr>queue_table := (queue_table st)(i := None),
                      mqs := (mqs st)(deleted := None)\<rparr> in
          bindE (yield_to_scheduler (K_return 0) st) (\<lambda>st. Inr (Switch, st))))"

text \<open>\<^verbatim>\<open>q->buffer[q->head] = m; q->head = q->head + 1 > q->capacity - 1 ? 0 : q->head + 1;\<close>\<close>

definition put_msg :: "int \<Rightarrow> MessageQueue \<Rightarrow> MessageQueue" where
  "put_msg m q = q\<lparr>buffer := (buffer q)[nat (head q) := m], head := next_index q (head q)\<rparr>"

definition psend :: "int \<Rightarrow> int \<Rightarrow> kstate \<Rightarrow> flow syscall_result" where
  "psend i msg st =
     (case mq_lookup i st of
        None \<Rightarrow> Inr (Return (-1), st)
      | Some qa \<Rightarrow>
          bindE (tbl (current_pid st) st) (\<lambda>cur.
          let st = upd cur (message_update (\<lambda>_. msg)) st in
          bindE (mq_at qa st) (\<lambda>q.
            if nb_msg q = 0 \<and> q_of (Q_mq qa) st \<noteq> [] then
              let st = upd_mq qa (\<lambda>q. put_msg msg q\<lparr>nb_msg := nb_msg q + 1\<rparr>) st in
              case kq_out (Q_mq qa) st of
                (None, st) \<Rightarrow> Inl (PageFault st)
              | (Some new_process, st) \<Rightarrow>
                  bindE (activate cur st) (\<lambda>st.
                  let st = upd new_process (state_update (\<lambda>_. ELECTED)) st in
                  bindE (deref new_process st) (\<lambda>new.
                  bindE (virtual_ctx_sw (Some cur) (K_return 0) new_process (st\<lparr>current_pid := pid new\<rparr>))
                    (\<lambda>st. Inr (Switch, st))))
            else if nb_msg q = capacity q then
              bindE (block_current IN_MSGQUEUE (Q_mq qa) (K_psend cur) st) (\<lambda>st. Inr (Switch, st))
            else Inr (Return 0, upd_mq qa (\<lambda>q. put_msg msg q\<lparr>nb_msg := nb_msg q + 1\<rparr>) st))))"

definition preceive :: "int \<Rightarrow> u32 \<Rightarrow> kstate \<Rightarrow> flow syscall_result" where
  "preceive i msg st =
     (case mq_lookup i st of
        None \<Rightarrow> Inr (Return (-1), st)
      | Some qa \<Rightarrow>
          bindE (mq_at qa st) (\<lambda>q.
            if nb_msg q > 0 then
              let st = (if msg \<noteq> 0 then store_user msg (buffer q ! nat (tail q)) st else st);
                  st = upd_mq qa (\<lambda>q. q\<lparr>tail := next_index q (tail q)\<rparr>) st in
              if nb_msg q = capacity q \<and> q_of (Q_mq qa) st \<noteq> [] then
                case kq_out (Q_mq qa) st of
                  (None, st) \<Rightarrow> Inl (PageFault st)
                | (Some p, st) \<Rightarrow>
                    bindE (deref p st) (\<lambda>proc.
                    let st = upd_mq qa (put_msg (message proc)) st in
                    bindE (activate p st) (\<lambda>st.
                    bindE (yield_to_scheduler (K_return 0) st) (\<lambda>st. Inr (Switch, st))))
              else Inr (Return 0, upd_mq qa (nb_msg_update (\<lambda>n. n - 1)) st)
            else
              bindE (tbl (current_pid st) st) (\<lambda>p.
              bindE (block_current IN_MSGQUEUE (Q_mq qa) (K_preceive qa p msg) st) (\<lambda>st. Inr (Switch, st)))))"

definition preset :: "int \<Rightarrow> kstate \<Rightarrow> flow syscall_result" where
  "preset i st =
     (case mq_lookup i st of
        None \<Rightarrow> Inr (Return (-1), st)
      | Some qa \<Rightarrow>
          bindE (wake_all (length (q_of (Q_mq qa) st)) (skip_message_update (\<lambda>_. True)) (Q_mq qa) st) (\<lambda>st.
          let st = upd_mq qa (\<lambda>q. q\<lparr>nb_msg := 0, head := 0, tail := 0\<rparr>) st in
          bindE (yield_to_scheduler (K_return 0) st) (\<lambda>st. Inr (Switch, st))))"

definition nb_waiting_proc :: "int \<Rightarrow> kstate \<Rightarrow> int kresult" where
  "nb_waiting_proc i st =
     (case queue_table st i of
        None \<Rightarrow> Inl (PageFault st)
      | Some a \<Rightarrow> Inr (int (length (q_of (Q_mq a) st))))"

definition pcount :: "int \<Rightarrow> u32 \<Rightarrow> kstate \<Rightarrow> flow syscall_result" where
  "pcount i countp st =
     (case mq_lookup i st of
        None \<Rightarrow> Inr (Return (-1), st)
      | Some qa \<Rightarrow>
          if countp = 0 then Inr (Return 0, st)
          else bindE (mq_at qa st) (\<lambda>q. bindE (nb_waiting_proc i st) (\<lambda>n.
            Inr (Return 0, store_user countp (if nb_msg q = 0 then - n else n + nb_msg q) st))))"

end
