(* ===== verification/Kernel_Inv.thy ===== *)
theory Kernel_Inv
  imports Process
begin

text \<open>
  The invariant of the kernel's process structures, as separate conjuncts, and how the
  primitive changes (unlinking a process, linking it, changing its fields) act on each.
  Conjuncts that an operation breaks for a moment carry an exception: the set \<open>X\<close> of
  processes that are between two queues, the set \<open>Y\<close> of processes whose continuation is not
  saved yet, the set \<open>C\<close> of children that are being taken from their father (he has ended and
  they are not orphaned yet, or he is collecting their return value), and the difference \<open>d\<close> between a semaphore's counter and its queue.
\<close>

section \<open>Queue changes as total functions\<close>

definition unlink :: "addr \<Rightarrow> kstate \<Rightarrow> kstate" where
  "unlink a st = st\<lparr>qs := \<lparr>lists = (\<lambda>q. remove1 a (q_of q st)), home = (home (qs st))(a := None)\<rparr>\<rparr>"

definition enlink :: "addr \<Rightarrow> queue_id \<Rightarrow> kstate \<Rightarrow> kstate" where
  "enlink a q st = st\<lparr>qs := \<lparr>lists = (lists (qs st))(q := qinsert (prio_of st) a (q_of q st)),
                            home = (home (qs st))(a := Some q)\<rparr>\<rparr>"

lemma unlink_simps [simp]:
  "procs (unlink a st) = procs st"
  "process_table (unlink a st) = process_table st"
  "current_pid (unlink a st) = current_pid st"
  "lists (qs (unlink a st)) q = remove1 a (q_of q st)"
  "home (qs (unlink a st)) = (home (qs st))(a := None)"
  "sems (unlink a st) = sems st"
  "semaphore_table (unlink a st) = semaphore_table st"
  "mqs (unlink a st) = mqs st"
  "queue_table (unlink a st) = queue_table st"
  "brk (unlink a st) = brk st"
  "mm (unlink a st) = mm st"
  "cpu (unlink a st) = cpu st"
  "time_count (unlink a st) = time_count st"
  "prio_of (unlink a st) = prio_of st"
  by (simp_all add: unlink_def prio_of_def fun_eq_iff)

lemma enlink_simps [simp]:
  "procs (enlink a q st) = procs st"
  "process_table (enlink a q st) = process_table st"
  "current_pid (enlink a q st) = current_pid st"
  "lists (qs (enlink a q st)) = (lists (qs st))(q := qinsert (prio_of st) a (q_of q st))"
  "home (qs (enlink a q st)) = (home (qs st))(a := Some q)"
  "sems (enlink a q st) = sems st"
  "semaphore_table (enlink a q st) = semaphore_table st"
  "mqs (enlink a q st) = mqs st"
  "queue_table (enlink a q st) = queue_table st"
  "brk (enlink a q st) = brk st"
  "mm (enlink a q st) = mm st"
  "cpu (enlink a q st) = cpu st"
  "time_count (enlink a q st) = time_count st"
  "prio_of (enlink a q st) = prio_of st"
  by (simp_all add: enlink_def prio_of_def fun_eq_iff)

lemma kq_add_enlink: "home (qs st) a = None \<Longrightarrow> kq_add a q st = Inr (enlink a q st)"
  by (simp add: kq_add_def q_add_def enlink_def)

lemma qwf_home: "qwf s \<Longrightarrow> e \<in> set (lists s q) \<longleftrightarrow> home s e = Some q"
  by (auto simp: qwf_def)

lemma kq_del_unlink:
  assumes "qwf (qs st)" "home (qs st) a = Some q"
  shows "kq_del a st = Inr (unlink a st)"
proof -
  have "(lists (qs st))(q := remove1 a (q_of q st)) = (\<lambda>q. remove1 a (q_of q st))"
    using assms qwf_home [OF assms(1), of a] by (auto simp: fun_eq_iff remove1_idem)
  then show ?thesis using assms by (simp add: kq_del_def q_del_def unlink_def)
qed

lemma kq_out_unlink:
  assumes "qwf (qs st)" "q_of q st \<noteq> []"
  shows "kq_out q st = (Some (last (q_of q st)), unlink (last (q_of q st)) st)"
proof -
  let ?a = "last (q_of q st)"
  have h: "home (qs st) ?a = Some q"
    using assms qwf_home [OF assms(1)] last_in_set by blast
  then have "(lists (qs st))(q := butlast (q_of q st)) = (\<lambda>q. remove1 ?a (q_of q st))"
    using assms qwf_home [OF assms(1), of ?a]
    by (auto simp: fun_eq_iff remove1_idem remove1_last qwf_def)
  then show ?thesis using assms by (simp add: kq_out_eq unlink_def)
qed

section \<open>The conjuncts\<close>

text \<open>Queues: well linked, sorted by priority, made of live processes.\<close>

definition wfq :: "kstate \<Rightarrow> bool" where
  "wfq st \<longleftrightarrow> qwf (qs st) \<and> (\<forall>q. sorted (map (prio_of st) (q_of q st))) \<and>
     (\<forall>a. home (qs st) a \<noteq> None \<longrightarrow> procs st a \<noteq> None)"

text \<open>The process table holds exactly the processes that are not finished, each under its pid.\<close>

definition tab :: "kstate \<Rightarrow> bool" where
  "tab st \<longleftrightarrow>
     (\<forall>i a. process_table st i = Some a \<longrightarrow>
        0 \<le> i \<and> i < int NBPROC \<and> (\<exists>p. procs st a = Some p \<and> pid p = i \<and> state p \<noteq> FINISHED)) \<and>
     (\<forall>a p. procs st a = Some p \<longrightarrow> state p \<noteq> FINISHED \<longrightarrow> process_table st (pid p) = Some a)"

text \<open>A process is in the queue its state says.\<close>

definition place_ok :: "kstate \<Rightarrow> Process \<Rightarrow> queue_id option \<Rightarrow> bool" where
  "place_ok st p h = (case state p of
      ELECTED \<Rightarrow> h = None
    | ACTIVABLE \<Rightarrow> h = Some Q_activable
    | ASLEEP \<Rightarrow> h = None
    | ZOMBIE \<Rightarrow> h = None
    | FINISHED \<Rightarrow> h = Some Q_finished
    | WAITING_PID \<Rightarrow> h = Some Q_waiting_pid
    | IN_MSGQUEUE \<Rightarrow> (\<exists>i qa. queue_table st i = Some qa \<and> h = Some (Q_mq qa))
    | IN_SEM \<Rightarrow> (\<exists>s. semaphore_table st (waited_sem p) = Some s \<and> h = Some (Q_sem s)))"

definition places :: "addr set \<Rightarrow> kstate \<Rightarrow> bool" where
  "places X st \<longleftrightarrow> (\<forall>a p. procs st a = Some p \<longrightarrow>
     (if a \<in> X then home (qs st) a = None \<and> state p \<noteq> FINISHED
      else state p \<noteq> ELECTED \<and> place_ok st p (home (qs st) a)))"

text \<open>
  Fathers and children: the list of a process that has not ended names exactly the
  processes whose father it is, and a father named by a process has not ended. The idle
  process has no father (its field is never set).
\<close>

definition ended :: "Process \<Rightarrow> bool" where
  "ended p \<longleftrightarrow> state p = ZOMBIE \<or> state p = FINISHED"

definition child_of :: "kstate \<Rightarrow> int \<Rightarrow> int \<Rightarrow> bool" where
  "child_of st f c \<longleftrightarrow> c \<noteq> 0 \<and> (\<exists>b q. process_table st c = Some b \<and> procs st b = Some q \<and> father_pid q = f)"

definition family :: "int set \<Rightarrow> kstate \<Rightarrow> bool" where
  "family C st \<longleftrightarrow>
     (\<forall>a p. procs st a = Some p \<longrightarrow> \<not> ended p \<longrightarrow>
        distinct (children p) \<and> (\<forall>c. c \<in> set (children p) \<longleftrightarrow> child_of st (pid p) c \<and> c \<notin> C)) \<and>
     (\<forall>b q. procs st b = Some q \<longrightarrow> state q \<noteq> FINISHED \<longrightarrow> pid q \<noteq> 0 \<longrightarrow> father_pid q \<noteq> -1 \<longrightarrow>
        pid q \<notin> C \<longrightarrow>
        (\<exists>a p. process_table st (father_pid q) = Some a \<and> procs st a = Some p \<and> \<not> ended p))"

text \<open>The idle process is always there and always ready, unless it runs.\<close>

definition idle_ok :: "addr set \<Rightarrow> kstate \<Rightarrow> bool" where
  "idle_ok X st \<longleftrightarrow> (\<exists>a p. process_table st 0 = Some a \<and> procs st a = Some p \<and>
     (state p = ACTIVABLE \<or> a \<in> X \<and> state p = ELECTED))"

text \<open>
  A pid whose former owner is still waiting to be freed is used again at most by a process
  that has not run yet (or was killed before it ran).
\<close>

definition stale :: "kstate \<Rightarrow> bool" where
  "stale st \<longleftrightarrow> (\<forall>a p b q. procs st a = Some p \<longrightarrow> state p = FINISHED \<longrightarrow>
     process_table st (pid p) = Some b \<longrightarrow> procs st b = Some q \<longrightarrow>
     state q = ACTIVABLE \<or> state q = ZOMBIE)"

text \<open>
  Semaphores: a negative counter is the number of blocked processes. No semaphore is ever
  marked as deleted (the code that would do so is never reached, see \<open>sdelete\<close>).
\<close>

definition sem_ok :: "int \<Rightarrow> int \<Rightarrow> Semaphore \<Rightarrow> bool" where
  "sem_ok i n x \<longleftrightarrow> sid x = i \<and> - SEMAPHORE_MAX_SIZE \<le> count x \<and> count x \<le> SEMAPHORE_MAX_SIZE \<and>
     n = max 0 (- count x)"

definition sem_inv :: "(addr \<Rightarrow> int) \<Rightarrow> kstate \<Rightarrow> bool" where
  "sem_inv d st \<longleftrightarrow> (\<forall>s x. sems st s = Some x \<longrightarrow> \<not> was_deleted x) \<and>
     (\<forall>i s. semaphore_table st i = Some s \<longrightarrow> 0 \<le> i \<and> i < int NBSEMAPHORE \<and>
       (\<exists>x. sems st s = Some x \<and> sem_ok i (int (length (q_of (Q_sem s) st)) - d s) x))"

text \<open>Message queues: the indices describe a circular buffer.\<close>

definition buffer_ok :: "MessageQueue \<Rightarrow> bool" where
  "buffer_ok q \<longleftrightarrow> 0 < capacity q \<and> capacity q \<le> QUEUE_MAX_SIZE \<and> int (length (buffer q)) = capacity q \<and>
     0 \<le> nb_msg q \<and> nb_msg q \<le> capacity q \<and> 0 \<le> tail q \<and> tail q < capacity q \<and>
     head q = (tail q + nb_msg q) mod capacity q"

definition mq_inv :: "kstate \<Rightarrow> bool" where
  "mq_inv st \<longleftrightarrow> (\<forall>i qa. queue_table st i = Some qa \<longrightarrow> 0 \<le> i \<and> i < int NBQUEUE \<and>
     (\<exists>q. mqs st qa = Some q \<and> fid q = i \<and> buffer_ok q))"

text \<open>Blocks beyond \<open>brk\<close> are not in use.\<close>

definition fresh :: "kstate \<Rightarrow> bool" where
  "fresh st \<longleftrightarrow> (\<forall>a. brk st \<le> a \<longrightarrow> procs st a = None \<and> sems st a = None \<and> mqs st a = None)"

text \<open>
  Continuations. \<open>ready\<close>: what makes it safe to resume a process there; \<open>cont_ok\<close>: a
  suspended process stands where its state says, and will be ready when it is woken.
\<close>

definition ptr_ok :: "u32 \<Rightarrow> bool" where
  "ptr_ok r \<longleftrightarrow> r = 0 \<or> 0x4000000 \<le> r"

definition zombie_child :: "kstate \<Rightarrow> int \<Rightarrow> int \<Rightarrow> bool" where
  "zombie_child st f c \<longleftrightarrow> c \<noteq> 0 \<and> (\<exists>b q. process_table st c = Some b \<and> procs st b = Some q \<and>
     state q = ZOMBIE \<and> father_pid q = f)"

definition ready :: "kstate \<Rightarrow> addr \<Rightarrow> Process \<Rightarrow> kcont \<Rightarrow> bool" where
  "ready st a p k = (case k of
      K_new_process \<Rightarrow> \<not> skip_message p
    | K_return v \<Rightarrow> \<not> skip_message p
    | K_tick \<Rightarrow> \<not> skip_message p
    | K_exit \<Rightarrow> False
    | K_start b \<Rightarrow> \<not> skip_message p \<and>
        (\<exists>q. procs st b = Some q \<and> state q \<noteq> FINISHED \<and> pid q \<noteq> 0 \<and> father_pid q = pid p \<and> \<not> skip_message q)
    | K_waitpid_any r \<Rightarrow> \<not> skip_message p \<and> ptr_ok r \<and> zombie_child st (pid p) (waited_pid p)
    | K_waitpid i r \<Rightarrow> \<not> skip_message p \<and> ptr_ok r \<and> zombie_child st (pid p) i
    | K_wait s \<Rightarrow> \<not> skip_message p \<and> sems st s \<noteq> None
    | K_psend b \<Rightarrow> b = a
    | K_preceive qa b m \<Rightarrow> b = a \<and> skip_message p)"

definition blocked_ok :: "kstate \<Rightarrow> addr \<Rightarrow> Process \<Rightarrow> bool" where
  "blocked_ok st a p = (\<not> skip_message p \<and> (case state p of
      ASLEEP \<Rightarrow> (\<exists>v. registers p = K_return v)
    | WAITING_PID \<Rightarrow> (\<exists>r. registers p = K_waitpid_any r \<and> ptr_ok r) \<or>
                     (\<exists>i r. registers p = K_waitpid i r \<and> ptr_ok r)
    | IN_SEM \<Rightarrow> (\<exists>s. home (qs st) a = Some (Q_sem s) \<and> registers p = K_wait s)
    | IN_MSGQUEUE \<Rightarrow> (\<exists>qa q. home (qs st) a = Some (Q_mq qa) \<and> mqs st qa = Some q \<and>
        (nb_msg q = 0 \<and> (\<exists>m. registers p = K_preceive qa a m) \<or>
         nb_msg q = capacity q \<and> registers p = K_psend a))
    | _ \<Rightarrow> True))"

definition cont_ok :: "kstate \<Rightarrow> addr \<Rightarrow> Process \<Rightarrow> bool" where
  "cont_ok st a p \<longleftrightarrow> ended p \<or> (if state p = ACTIVABLE then ready st a p (registers p) else blocked_ok st a p)"

definition conts :: "addr set \<Rightarrow> kstate \<Rightarrow> bool" where
  "conts Y st \<longleftrightarrow> (\<forall>a p. procs st a = Some p \<longrightarrow> a \<notin> Y \<longrightarrow> cont_ok st a p)"

lemmas [kinv_defs] = wfq_def tab_def places_def family_def idle_ok_def stale_def sem_inv_def
  mq_inv_def fresh_def conts_def

definition kI :: "addr set \<Rightarrow> addr set \<Rightarrow> int set \<Rightarrow> (addr \<Rightarrow> int) \<Rightarrow> kstate \<Rightarrow> bool" where
  "kI X Y C d st \<longleftrightarrow> wfq st \<and> tab st \<and> places X st \<and> family C st \<and> idle_ok X st \<and> stale st \<and>
     sem_inv d st \<and> mq_inv st \<and> fresh st \<and> conts Y st"

lemma kID:
  assumes "kI X Y C d st"
  shows "wfq st" "tab st" "places X st" "family C st" "idle_ok X st" "stale st" "sem_inv d st"
    "mq_inv st" "fresh st" "conts Y st"
  using assms by (simp_all add: kI_def)

lemma kI_qwf: "kI X Y C d st \<Longrightarrow> qwf (qs st)"
  by (simp add: kI_def wfq_def)

lemma kI_cont_ok: "kI X Y C d st \<Longrightarrow> procs st a = Some p \<Longrightarrow> a \<notin> Y \<Longrightarrow> cont_ok st a p"
  by (simp add: kI_def conts_def)

text \<open>
  The state between two system calls: the current process, and no other, is elected and
  in no queue.
\<close>

definition kinv :: "kstate \<Rightarrow> bool" where
  "kinv st \<longleftrightarrow> (\<exists>c p. process_table st (current_pid st) = Some c \<and> procs st c = Some p \<and>
     state p = ELECTED \<and> \<not> skip_message p \<and> kI {c} {c} {} (\<lambda>_. 0) st)"


section \<open>Continuations under change\<close>

lemma ready_mono:
  assumes "ready st a p k"
    and "\<And>b q. procs st b = Some q \<Longrightarrow> state q \<noteq> FINISHED \<Longrightarrow> pid q \<noteq> 0 \<Longrightarrow> father_pid q = pid p \<Longrightarrow>
        \<not> skip_message q \<Longrightarrow> \<exists>q'. procs st' b = Some q' \<and> state q' \<noteq> FINISHED \<and> pid q' \<noteq> 0 \<and>
          father_pid q' = pid p \<and> \<not> skip_message q'"
    and "\<And>c. zombie_child st (pid p) c \<Longrightarrow> zombie_child st' (pid p) c"
    and "\<And>s. sems st s \<noteq> None \<Longrightarrow> sems st' s \<noteq> None"
  shows "ready st' a p k"
  using assms unfolding ready_def by (cases k) (simp_all, blast+)

lemma conts_mono:
  assumes "conts Y st" and "Y \<subseteq> Y'"
    and new: "\<And>a p. procs st' a = Some p \<Longrightarrow> a \<notin> Y' \<Longrightarrow> procs st a = Some p \<or> ended p"
    and "\<And>a p b q. procs st a = Some p \<Longrightarrow> a \<notin> Y' \<Longrightarrow> \<not> ended p \<Longrightarrow> procs st b = Some q \<Longrightarrow> state q \<noteq> FINISHED \<Longrightarrow>
        pid q \<noteq> 0 \<Longrightarrow> father_pid q = pid p \<Longrightarrow> \<not> skip_message q \<Longrightarrow>
        \<exists>q'. procs st' b = Some q' \<and> state q' \<noteq> FINISHED \<and> pid q' \<noteq> 0 \<and> father_pid q' = pid p \<and> \<not> skip_message q'"
    and "\<And>a p c. procs st a = Some p \<Longrightarrow> a \<notin> Y' \<Longrightarrow> \<not> ended p \<Longrightarrow> zombie_child st (pid p) c \<Longrightarrow> zombie_child st' (pid p) c"
    and "\<And>s. sems st s \<noteq> None \<Longrightarrow> sems st' s \<noteq> None"
    and "\<And>a p. procs st a = Some p \<Longrightarrow> a \<notin> Y' \<Longrightarrow> \<not> ended p \<Longrightarrow> home (qs st') a = home (qs st) a"
    and "\<And>a qa q. a \<notin> Y' \<Longrightarrow> home (qs st) a = Some (Q_mq qa) \<Longrightarrow> mqs st qa = Some q \<Longrightarrow>
        \<exists>q'. mqs st' qa = Some q' \<and> (nb_msg q = 0 \<longrightarrow> nb_msg q' = 0) \<and>
          (nb_msg q = capacity q \<longrightarrow> nb_msg q' = capacity q')"
  shows "conts Y' st'"
  unfolding conts_def
proof (intro allI impI)
  fix a p assume p: "procs st' a = Some p" and a: "a \<notin> Y'"
  show "cont_ok st' a p"
  proof (cases "ended p")
    case False
    with new [OF p a] have p': "procs st a = Some p" by blast
    with assms(1,2) a False have c: "cont_ok st a p" by (auto simp: conts_def)
    show ?thesis
    proof (cases "state p = ACTIVABLE")
      case True
      with c False have "ready st a p (registers p)" by (simp add: cont_ok_def)
      then have "ready st' a p (registers p)"
        by (rule ready_mono) (use p' a False assms(4-6) in blast)+
      with True show ?thesis by (simp add: cont_ok_def)
    next
      case act: False
      with c False have "blocked_ok st a p" by (simp add: cont_ok_def)
      then have "blocked_ok st' a p"
        using assms(7) [OF p' a False] assms(8) [OF a] by (cases "state p") (fastforce simp: blocked_ok_def)+
      with act show ?thesis by (simp add: cont_ok_def)
    qed
  qed (simp add: cont_ok_def)
qed


section \<open>Unlinking and linking\<close>

text \<open>How a change of one queue's length moves the difference \<open>d\<close>.\<close>

definition sem_shift :: "queue_id \<Rightarrow> int \<Rightarrow> (addr \<Rightarrow> int) \<Rightarrow> addr \<Rightarrow> int" where
  "sem_shift q n d = (case q of Q_sem s \<Rightarrow> d(s := d s + n) | _ \<Rightarrow> d)"

lemma sem_shift_simps [simp]:
  "sem_shift Q_activable n d = d"
  "sem_shift Q_finished n d = d"
  "sem_shift Q_waiting_pid n d = d"
  "sem_shift (Q_mq qa) n d = d"
  "sem_shift (Q_sem s) n d = d(s := d s + n)"
  by (simp_all add: sem_shift_def)

lemma place_ok_cong:
  "semaphore_table st' = semaphore_table st \<Longrightarrow> queue_table st' = queue_table st \<Longrightarrow> place_ok st' = place_ok st"
  by (intro ext) (simp add: place_ok_def split: State.splits)

lemma place_ok_frame [simp]:
  "place_ok (unlink a st) = place_ok st"
  "place_ok (enlink a q st) = place_ok st"
  "place_ok (upd a f st) = place_ok st"
  by (rule place_ok_cong; simp)+

lemma placesI:
  assumes "\<And>a p. procs st a = Some p \<Longrightarrow> a \<in> X \<Longrightarrow> home (qs st) a = None \<and> state p \<noteq> FINISHED"
    and "\<And>a p. procs st a = Some p \<Longrightarrow> a \<notin> X \<Longrightarrow> state p \<noteq> ELECTED \<and> place_ok st p (home (qs st) a)"
  shows "places X st"
  using assms by (simp add: places_def)

lemma placesD:
  assumes "places X st" "procs st a = Some p"
  shows "a \<in> X \<Longrightarrow> home (qs st) a = None \<and> state p \<noteq> FINISHED"
    and "a \<notin> X \<Longrightarrow> state p \<noteq> ELECTED \<and> place_ok st p (home (qs st) a)"
  using assms by (auto simp: places_def)

lemma place_ok_home:
  "place_ok st p (Some Q_activable) \<longleftrightarrow> state p = ACTIVABLE"
  "place_ok st p (Some Q_waiting_pid) \<longleftrightarrow> state p = WAITING_PID"
  "place_ok st p (Some Q_finished) \<longleftrightarrow> state p = FINISHED"
  "place_ok st p (Some (Q_sem s)) \<longleftrightarrow> state p = IN_SEM \<and> semaphore_table st (waited_sem p) = Some s"
  "place_ok st p (Some (Q_mq qa)) \<longleftrightarrow> state p = IN_MSGQUEUE \<and> (\<exists>i. queue_table st i = Some qa)"
  "place_ok st p None \<longleftrightarrow> state p = ELECTED \<or> state p = ASLEEP \<or> state p = ZOMBIE"
  by (auto simp: place_ok_def split: State.splits)

lemma place_ok_FINISHED: "place_ok st p h \<Longrightarrow> state p = FINISHED \<longleftrightarrow> h = Some Q_finished"
  by (auto simp: place_ok_def split: State.splits)

lemma family_rel_frame [simp]:
  "child_of (unlink a st) = child_of st"
  "child_of (enlink a q st) = child_of st"
  "zombie_child (unlink a st) = zombie_child st"
  "zombie_child (enlink a q st) = zombie_child st"
  by (simp_all add: child_of_def zombie_child_def fun_eq_iff)

lemma link_frame [simp]:
  "tab (unlink a st) = tab st"
  "tab (enlink a q st) = tab st"
  "family C (unlink a st) = family C st"
  "family C (enlink a q st) = family C st"
  "idle_ok X (unlink a st) = idle_ok X st"
  "idle_ok X (enlink a q st) = idle_ok X st"
  "stale (unlink a st) = stale st"
  "stale (enlink a q st) = stale st"
  "mq_inv (unlink a st) = mq_inv st"
  "mq_inv (enlink a q st) = mq_inv st"
  "fresh (unlink a st) = fresh st"
  "fresh (enlink a q st) = fresh st"
  by (simp_all add: tab_def family_def idle_ok_def stale_def mq_inv_def fresh_def)

lemma conts_link: 
  assumes "conts Y st"
  shows "conts (insert a Y) (unlink a st)" "conts (insert a Y) (enlink a q st)"
proof -
  show "conts (insert a Y) (unlink a st)"
    by (rule conts_mono [OF assms]) (simp_all, blast+)
  show "conts (insert a Y) (enlink a q st)"
    by (rule conts_mono [OF assms]) (simp_all, blast+)
qed

lemma idle_ok_mono: "idle_ok X st \<Longrightarrow> X \<subseteq> X' \<Longrightarrow> idle_ok X' st"
  unfolding idle_ok_def by blast

lemma wfq_unlink: "wfq st \<Longrightarrow> wfq (unlink a st)"
  by (auto simp: wfq_def qwf_def sorted_remove1 filter_remove1 sorted_map_remove1 split: if_splits)

lemma wfq_enlink: "wfq st \<Longrightarrow> home (qs st) a = None \<Longrightarrow> procs st a \<noteq> None \<Longrightarrow> wfq (enlink a q st)"
  by (auto simp: wfq_def qwf_def sorted_qinsert split: if_splits)

lemma sem_inv_length:
  assumes "sem_inv d st" "sems st' = sems st" "semaphore_table st' = semaphore_table st"
    and len: "\<And>s. int (length (q_of (Q_sem s) st')) - d' s = int (length (q_of (Q_sem s) st)) - d s"
  shows "sem_inv d' st'"
  using assms(1) unfolding sem_inv_def assms(2,3) len .

lemma sem_inv_unlink:
  assumes "sem_inv d st" "wfq st" "home (qs st) a = Some q"
  shows "sem_inv (sem_shift q (-1) d) (unlink a st)"
proof -
  have "int (length (remove1 a (q_of (Q_sem s) st))) - sem_shift q (-1) d s = int (length (q_of (Q_sem s) st)) - d s" for s
  proof (cases "q = Q_sem s")
    case True
    with assms have "a \<in> set (q_of (Q_sem s) st)" by (simp add: wfq_def qwf_home)
    moreover from this have "0 < length (q_of (Q_sem s) st)" by (rule length_pos_if_in_set)
    ultimately show ?thesis using True by (simp add: length_remove1 of_nat_diff Suc_le_eq)
  next
    case False
    with assms have "a \<notin> set (q_of (Q_sem s) st)" by (simp add: wfq_def qwf_home)
    with False show ?thesis by (cases q) (simp_all add: remove1_idem)
  qed
  then show ?thesis by (intro sem_inv_length [OF assms(1)]) simp_all
qed

lemma sem_inv_enlink: "sem_inv d st \<Longrightarrow> sem_inv (sem_shift q 1 d) (enlink a q st)"
  by (rule sem_inv_length, assumption) (cases q; simp)+

lemma kI_unlink:
  assumes I: "kI X Y C d st" and a: "home (qs st) a = Some q" and q: "q \<noteq> Q_finished"
  shows "kI (insert a X) (insert a Y) C (sem_shift q (-1) d) (unlink a st)"
proof -
  have "places (insert a X) (unlink a st)"
  proof (rule placesI)
    fix b p assume b: "procs (unlink a st) b = Some p" "b \<in> insert a X"
    with I a q placesD [of X st b p] show "home (qs (unlink a st)) b = None \<and> state p \<noteq> FINISHED"
      unfolding kI_def by (cases "b \<in> X") (auto dest: place_ok_FINISHED)
  next
    fix b p assume "procs (unlink a st) b = Some p" "b \<notin> insert a X"
    with I placesD [of X st b p]
    show "state p \<noteq> ELECTED \<and> place_ok (unlink a st) p (home (qs (unlink a st)) b)"
      unfolding kI_def by simp
  qed
  moreover have "idle_ok (insert a X) st" using I unfolding kI_def by (auto intro: idle_ok_mono)
  ultimately show ?thesis
    using I wfq_unlink sem_inv_unlink [OF _ _ a] conts_link(1) by (simp add: kI_def)
qed

lemma kI_enlink:
  assumes I: "kI X Y C d st" and a: "procs st a = Some p" "a \<in> X" "a \<in> Y"
    and q: "place_ok st p (Some q)"
  shows "kI (X - {a}) Y C (sem_shift q 1 d) (enlink a q st)"
proof -
  have h: "home (qs st) a = None" using I a unfolding kI_def places_def by auto
  have s: "state p \<noteq> ELECTED" using q by (auto simp: place_ok_def)
  have "places (X - {a}) (enlink a q st)"
  proof (rule placesI)
    fix b p' assume "procs (enlink a q st) b = Some p'" "b \<in> X - {a}"
    with I placesD [of X st b p']
    show "home (qs (enlink a q st)) b = None \<and> state p' \<noteq> FINISHED" unfolding kI_def by simp
  next
    fix b p' assume b: "procs (enlink a q st) b = Some p'" "b \<notin> X - {a}"
    with I a q s placesD [of X st b p']
    show "state p' \<noteq> ELECTED \<and> place_ok (enlink a q st) p' (home (qs (enlink a q st)) b)"
      unfolding kI_def by (cases "b = a") simp_all
  qed
  moreover have "conts Y (enlink a q st)"
    using I a(3) conts_link(2) [of Y st a q] by (simp add: kI_def insert_absorb)
  moreover have "idle_ok (X - {a}) st" using I a s unfolding kI_def idle_ok_def by fastforce
  ultimately show ?thesis
    using I h a wfq_enlink sem_inv_enlink by (simp add: kI_def)
qed


section \<open>Changing the fields of a process\<close>

lemma tabD:
  "tab st \<Longrightarrow> process_table st i = Some a \<Longrightarrow>
    0 \<le> i \<and> i < int NBPROC \<and> (\<exists>p. procs st a = Some p \<and> pid p = i \<and> state p \<noteq> FINISHED)"
  by (simp add: tab_def)

lemma tabD':
  "tab st \<Longrightarrow> procs st a = Some p \<Longrightarrow> state p \<noteq> FINISHED \<Longrightarrow> process_table st (pid p) = Some a"
  by (simp add: tab_def)

lemma tab_pid: "tab st \<Longrightarrow> process_table st i = Some a \<Longrightarrow> procs st a = Some p \<Longrightarrow> pid p = i \<and> state p \<noteq> FINISHED"
  by (drule (1) tabD) auto

lemma prio_of_upd_eq:
  "(\<And>p. procs st a = Some p \<Longrightarrow> priority (f p) = priority p) \<Longrightarrow> prio_of (upd a f st) = prio_of st"
  by (auto simp: prio_of_def fun_eq_iff split: option.splits)

lemma prio_of_upd_other: "b \<noteq> a \<Longrightarrow> prio_of (upd a f st) b = prio_of st b"
  by (simp add: prio_of_def)

lemma wfq_upd:
  assumes "wfq st" and "(\<forall>p. procs st a = Some p \<longrightarrow> priority (f p) = priority p) \<or> home (qs st) a = None"
  shows "wfq (upd a f st)"
proof -
  have "map (prio_of (upd a f st)) (q_of q st) = map (prio_of st) (q_of q st)" for q
    using assms(2)
  proof
    assume h: "home (qs st) a = None"
    have "a \<notin> set (q_of q st)" using assms(1) h by (simp add: wfq_def qwf_home)
    then show ?thesis by (auto intro!: prio_of_upd_other)
  qed (simp add: prio_of_upd_eq)
  then have "\<forall>q. sorted (map (prio_of (upd a f st)) (q_of q (upd a f st)))"
    using assms(1) by (simp add: wfq_def del: map_eq_conv)
  then show ?thesis using assms(1) by (auto simp: wfq_def)
qed

lemma procs_updD: "procs (upd a f st) b = Some q \<Longrightarrow>
    b \<noteq> a \<and> procs st b = Some q \<or> b = a \<and> (\<exists>p. procs st a = Some p \<and> q = f p)"
  by (auto split: if_splits)

lemma child_of_upd:
  assumes "procs st a = Some p" "father_pid (f p) = father_pid p"
  shows "child_of (upd a f st) = child_of st"
  using assms by (auto simp: child_of_def fun_eq_iff)

lemma zombie_child_upd:
  assumes "procs st a = Some p" "father_pid (f p) = father_pid p" "state (f p) = ZOMBIE \<longleftrightarrow> state p = ZOMBIE"
  shows "zombie_child (upd a f st) = zombie_child st"
  using assms by (auto simp: zombie_child_def fun_eq_iff)

lemma tab_upd:
  assumes "tab st" "procs st a = Some p" "pid (f p) = pid p" "state (f p) = FINISHED \<longleftrightarrow> state p = FINISHED"
  shows "tab (upd a f st)"
  unfolding tab_def
proof (intro conjI allI impI)
  fix i b assume i: "process_table (upd a f st) i = Some b"
  with assms(1) obtain q where q: "0 \<le> i" "i < int NBPROC" "procs st b = Some q" "pid q = i" "state q \<noteq> FINISHED"
    by (auto dest: tabD)
  then show "0 \<le> i" "i < int NBPROC" by simp_all
  show "\<exists>q. procs (upd a f st) b = Some q \<and> pid q = i \<and> state q \<noteq> FINISHED"
    using q assms(2-4) by (cases "b = a") auto
next
  fix b q assume "procs (upd a f st) b = Some q" "state q \<noteq> FINISHED"
  with assms show "process_table (upd a f st) (pid q) = Some b"
    by (cases "b = a") (auto dest: tabD')
qed

lemma stale_upd:
  assumes "stale st" "procs st a = Some p" "pid (f p) = pid p" "state (f p) = FINISHED \<longleftrightarrow> state p = FINISHED"
    and "state p = ACTIVABLE \<or> state p = ZOMBIE \<longrightarrow> state (f p) = ACTIVABLE \<or> state (f p) = ZOMBIE"
  shows "stale (upd a f st)"
  unfolding stale_def
proof (intro allI impI)
  fix b q c r
  assume b: "procs (upd a f st) b = Some q" "state q = FINISHED" "process_table (upd a f st) (pid q) = Some c"
    "procs (upd a f st) c = Some r"
  from b assms obtain q0 where q0: "procs st b = Some q0" "state q0 = FINISHED" "pid q0 = pid q"
    by (cases "b = a") auto
  from b assms obtain r0 where r0: "procs st c = Some r0"
    "state r0 = ACTIVABLE \<or> state r0 = ZOMBIE \<longrightarrow> state r = ACTIVABLE \<or> state r = ZOMBIE"
    by (cases "c = a") auto
  from q0 r0 b(3) assms(1) show "state r = ACTIVABLE \<or> state r = ZOMBIE"
    unfolding stale_def by (metis upd_simps(2))
qed

lemma family_upd:
  assumes "family C st" "procs st a = Some p" "pid (f p) = pid p" "father_pid (f p) = father_pid p"
    "children (f p) = children p" "state (f p) = FINISHED \<longleftrightarrow> state p = FINISHED"
    "state (f p) = ZOMBIE \<longleftrightarrow> state p = ZOMBIE"
  shows "family C (upd a f st)"
proof -
  have e: "ended (f p) = ended p" using assms by (simp add: ended_def)
  note co = child_of_upd [where f = f, OF assms(2,4)]
  have live: "(\<exists>b q. process_table (upd a f st) i = Some b \<and> procs (upd a f st) b = Some q \<and> \<not> ended q) \<longleftrightarrow>
      (\<exists>b q. process_table st i = Some b \<and> procs st b = Some q \<and> \<not> ended q)" for i
    using assms(2) e by (auto split: if_splits)
  show ?thesis
    unfolding family_def live co
  proof (intro conjI allI impI)
    fix b q assume b: "procs (upd a f st) b = Some q" "\<not> ended q"
    then obtain q0 where "procs st b = Some q0" "\<not> ended q0" "children q = children q0" "pid q = pid q0"
      using assms e by (cases "b = a") auto
    with assms(1) show "distinct (children q)" "\<And>c. c \<in> set (children q) \<longleftrightarrow> child_of st (pid q) c \<and> c \<notin> C"
      unfolding family_def by auto
  next
    fix b q assume b: "procs (upd a f st) b = Some q" "state q \<noteq> FINISHED" "pid q \<noteq> 0" "father_pid q \<noteq> -1" "pid q \<notin> C"
    then obtain q0 where "procs st b = Some q0" "state q0 \<noteq> FINISHED" "pid q0 = pid q" "father_pid q0 = father_pid q"
      using assms by (cases "b = a") auto
    with b assms(1) show "\<exists>a p. process_table st (father_pid q) = Some a \<and> procs st a = Some p \<and> \<not> ended p"
      unfolding family_def by metis
  qed
qed

lemma conts_upd:
  assumes "conts Y st" "procs st a = Some p" "a \<in> Y" "pid (f p) = pid p" "father_pid (f p) = father_pid p"
    "state (f p) = FINISHED \<longleftrightarrow> state p = FINISHED" "state (f p) = ZOMBIE \<longleftrightarrow> state p = ZOMBIE"
    "\<not> skip_message p \<longrightarrow> \<not> skip_message (f p)"
  shows "conts Y (upd a f st)"
proof (rule conts_mono [OF assms(1)])
  show "\<exists>q'. procs (upd a f st) b = Some q' \<and> state q' \<noteq> FINISHED \<and> pid q' \<noteq> 0 \<and> father_pid q' = pid r \<and> \<not> skip_message q'"
    if "procs st b = Some q" "state q \<noteq> FINISHED" "pid q \<noteq> 0" "father_pid q = pid r" "\<not> skip_message q" for b q r
    using assms that by (cases "b = a") auto
qed (use assms zombie_child_upd [where f = f, OF assms(2,5,7)] in \<open>auto split: if_splits\<close>)

lemma kI_upd:
  assumes I: "kI X Y C d st" and p: "procs st a = Some p" and Y: "a \<in> Y"
    and keep: "pid (f p) = pid p" "father_pid (f p) = father_pid p" "children (f p) = children p"
      "state (f p) = FINISHED \<longleftrightarrow> state p = FINISHED" "state (f p) = ZOMBIE \<longleftrightarrow> state p = ZOMBIE"
      "\<not> skip_message p \<longrightarrow> \<not> skip_message (f p)"
      "priority (f p) = priority p \<or> home (qs st) a = None"
    and stay: "state (f p) = state p \<and> waited_sem (f p) = waited_sem p \<or>
      a \<in> X \<and> (state (f p) = ACTIVABLE \<or> state p \<noteq> ACTIVABLE) \<and>
      (pid p = 0 \<longrightarrow> state (f p) = ACTIVABLE \<or> state (f p) = ELECTED) \<or>
      a \<in> X \<and> state (f p) = ELECTED \<and> (\<forall>b q. procs st b = Some q \<longrightarrow> state q = FINISHED \<longrightarrow> pid q \<noteq> pid p)"
  shows "kI X Y C d (upd a f st)"
proof -
  have w: "wfq (upd a f st)" using I p keep(7) by (intro wfq_upd) (auto simp: kI_def)
  have t: "tab (upd a f st)" using I p keep by (intro tab_upd [where p = p]) (auto simp: kI_def)
  have fam: "family C (upd a f st)" using I p keep by (intro family_upd [where p = p]) (auto simp: kI_def)
  have co: "conts Y (upd a f st)" using I p keep Y by (intro conts_upd [where p = p]) (auto simp: kI_def)
  have pl: "places X (upd a f st)"
  proof (rule placesI)
    fix b q assume b: "procs (upd a f st) b = Some q" "b \<in> X"
    then obtain q0 where "procs st b = Some q0" "state q = FINISHED \<longleftrightarrow> state q0 = FINISHED"
      using p keep by (cases "b = a") auto
    with I b show "home (qs (upd a f st)) b = None \<and> state q \<noteq> FINISHED"
      unfolding kI_def by (auto dest: placesD(1))
  next
    fix b q assume b: "procs (upd a f st) b = Some q" "b \<notin> X"
    then obtain q0 where q0: "procs st b = Some q0" "state q = state q0" "waited_sem q = waited_sem q0"
      using p stay by (cases "b = a") auto
    then have "place_ok st q = place_ok st q0" by (simp add: place_ok_def fun_eq_iff split: State.splits)
    with I b q0 show "state q \<noteq> ELECTED \<and> place_ok (upd a f st) q (home (qs (upd a f st)) b)"
      unfolding kI_def by (auto dest: placesD(2))
  qed
  have sid: "sem_inv d (upd a f st)" "mq_inv (upd a f st)" "fresh (upd a f st)"
    using I p by (auto simp: kI_def sem_inv_def mq_inv_def fresh_def)
  have id: "idle_ok X (upd a f st)"
  proof -
    from I obtain z r where z: "process_table st 0 = Some z" "procs st z = Some r"
      "state r = ACTIVABLE \<or> z \<in> X \<and> state r = ELECTED" unfolding kI_def idle_ok_def by blast
    have "pid p = 0" if "z = a" using I z p that unfolding kI_def by (auto dest: tab_pid)
    with z p stay show ?thesis unfolding idle_ok_def by (cases "z = a") auto
  qed
  have "stale (upd a f st)"
  proof (cases "state (f p) = ELECTED \<and> state p = ACTIVABLE")
    case True
    with stay have nf: "\<forall>b q. procs st b = Some q \<longrightarrow> state q = FINISHED \<longrightarrow> pid q \<noteq> pid p" by auto
    have tp: "process_table st (pid p) = Some a" using I p True unfolding kI_def by (auto dest: tabD')
    show ?thesis unfolding stale_def
    proof (intro allI impI)
      fix b q c r
      assume b: "procs (upd a f st) b = Some q" "state q = FINISHED" "process_table (upd a f st) (pid q) = Some c"
        "procs (upd a f st) c = Some r"
      then have q: "procs st b = Some q" using True p by (auto split: if_splits)
      with nf b(2) have "pid q \<noteq> pid p" by blast
      moreover have "c = a \<Longrightarrow> pid q = pid p" using b(3) I p unfolding kI_def by (auto dest: tab_pid)
      ultimately show "state r = ACTIVABLE \<or> state r = ZOMBIE"
        using I q b unfolding kI_def stale_def by (metis procs_updD upd_simps(2))
    qed
  next
    case False
    then show ?thesis using I p keep stay by (intro stale_upd [where p = p]) (auto simp: kI_def)
  qed
  with w t fam co pl sid id show ?thesis by (simp add: kI_def)
qed


section \<open>Frame: what the invariant does not look at\<close>

lemma aux_frame [simp]:
  "child_of (st\<lparr>mm := m\<rparr>) = child_of st" "zombie_child (st\<lparr>mm := m\<rparr>) = zombie_child st"
  "place_ok (st\<lparr>mm := m\<rparr>) = place_ok st" "prio_of (st\<lparr>mm := m\<rparr>) = prio_of st"
  "child_of (st\<lparr>cpu := k\<rparr>) = child_of st" "zombie_child (st\<lparr>cpu := k\<rparr>) = zombie_child st"
  "place_ok (st\<lparr>cpu := k\<rparr>) = place_ok st" "prio_of (st\<lparr>cpu := k\<rparr>) = prio_of st"
  "child_of (st\<lparr>tss_cr3 := w\<rparr>) = child_of st" "zombie_child (st\<lparr>tss_cr3 := w\<rparr>) = zombie_child st"
  "place_ok (st\<lparr>tss_cr3 := w\<rparr>) = place_ok st" "prio_of (st\<lparr>tss_cr3 := w\<rparr>) = prio_of st"
  "child_of (st\<lparr>tss_esp0 := e\<rparr>) = child_of st" "zombie_child (st\<lparr>tss_esp0 := e\<rparr>) = zombie_child st"
  "place_ok (st\<lparr>tss_esp0 := e\<rparr>) = place_ok st" "prio_of (st\<lparr>tss_esp0 := e\<rparr>) = prio_of st"
  "child_of (st\<lparr>user_mem := u\<rparr>) = child_of st" "zombie_child (st\<lparr>user_mem := u\<rparr>) = zombie_child st"
  "place_ok (st\<lparr>user_mem := u\<rparr>) = place_ok st" "prio_of (st\<lparr>user_mem := u\<rparr>) = prio_of st"
  "child_of (st\<lparr>time_count := t\<rparr>) = child_of st" "zombie_child (st\<lparr>time_count := t\<rparr>) = zombie_child st"
  "place_ok (st\<lparr>time_count := t\<rparr>) = place_ok st" "prio_of (st\<lparr>time_count := t\<rparr>) = prio_of st"
  "child_of (st\<lparr>current_pid := i\<rparr>) = child_of st" "zombie_child (st\<lparr>current_pid := i\<rparr>) = zombie_child st"
  "place_ok (st\<lparr>current_pid := i\<rparr>) = place_ok st" "prio_of (st\<lparr>current_pid := i\<rparr>) = prio_of st"
  by (simp_all add: child_of_def zombie_child_def prio_of_def fun_eq_iff place_ok_def split: State.splits)

lemma cont_frame [simp]:
  "cont_ok (st\<lparr>mm := m\<rparr>) = cont_ok st" "ready (st\<lparr>mm := m\<rparr>) = ready st"
  "cont_ok (st\<lparr>cpu := k\<rparr>) = cont_ok st" "ready (st\<lparr>cpu := k\<rparr>) = ready st"
  "cont_ok (st\<lparr>tss_cr3 := w\<rparr>) = cont_ok st" "ready (st\<lparr>tss_cr3 := w\<rparr>) = ready st"
  "cont_ok (st\<lparr>tss_esp0 := e\<rparr>) = cont_ok st" "ready (st\<lparr>tss_esp0 := e\<rparr>) = ready st"
  "cont_ok (st\<lparr>user_mem := u\<rparr>) = cont_ok st" "ready (st\<lparr>user_mem := u\<rparr>) = ready st"
  "cont_ok (st\<lparr>time_count := t\<rparr>) = cont_ok st" "ready (st\<lparr>time_count := t\<rparr>) = ready st"
  "cont_ok (st\<lparr>current_pid := i\<rparr>) = cont_ok st" "ready (st\<lparr>current_pid := i\<rparr>) = ready st"
  by (simp_all add: cont_ok_def ready_def blocked_ok_def fun_eq_iff split: State.splits kcont.splits)

lemma kI_frame [simp]:
  "kI X Y C d (st\<lparr>mm := m\<rparr>) = kI X Y C d st"
  "kI X Y C d (st\<lparr>cpu := k\<rparr>) = kI X Y C d st"
  "kI X Y C d (st\<lparr>tss_cr3 := w\<rparr>) = kI X Y C d st"
  "kI X Y C d (st\<lparr>tss_esp0 := e\<rparr>) = kI X Y C d st"
  "kI X Y C d (st\<lparr>user_mem := u\<rparr>) = kI X Y C d st"
  "kI X Y C d (st\<lparr>time_count := t\<rparr>) = kI X Y C d st"
  "kI X Y C d (st\<lparr>current_pid := i\<rparr>) = kI X Y C d st"
  by (simp_all add: kI_def kinv_defs)

lemma store_user_frame [simp]:
  "kI X Y C d (store_user va v st) = kI X Y C d st"
  "procs (store_user va v st) = procs st"
  "process_table (store_user va v st) = process_table st"
  "current_pid (store_user va v st) = current_pid st"
  "qs (store_user va v st) = qs st"
  "sems (store_user va v st) = sems st"
  "semaphore_table (store_user va v st) = semaphore_table st"
  "mqs (store_user va v st) = mqs st"
  "queue_table (store_user va v st) = queue_table st"
  "brk (store_user va v st) = brk st"
  by (simp_all add: store_user_def)

section \<open>Entering and leaving transit\<close>

lemma kI_transit:
  assumes "kI X Y C d st" "procs st a = Some p" "home (qs st) a = None" "state p \<noteq> FINISHED"
  shows "kI (insert a X) (insert a Y) C d st"
proof -
  have "places (insert a X) st"
    using assms by (intro placesI) (auto simp: kI_def dest: placesD)
  moreover have "conts (insert a Y) st" using assms by (auto simp: kI_def conts_def)
  moreover have "idle_ok (insert a X) st" using assms by (auto simp: kI_def intro: idle_ok_mono)
  ultimately show ?thesis using assms(1) by (simp add: kI_def)
qed

lemma kI_settle:
  assumes "kI X Y C d st" "procs st a = Some p" "place_ok st p None" "state p \<noteq> ELECTED" "a \<in> X"
  shows "kI (X - {a}) Y C d st"
proof -
  have "places (X - {a}) st"
  proof (rule placesI)
    fix b q assume "procs st b = Some q" "b \<in> X - {a}"
    with assms(1) show "home (qs st) b = None \<and> state q \<noteq> FINISHED" by (auto simp: kI_def dest: placesD)
  next
    fix b q assume "procs st b = Some q" "b \<notin> X - {a}"
    with assms show "state q \<noteq> ELECTED \<and> place_ok st q (home (qs st) b)"
      unfolding kI_def using placesD [of X st b q] by (cases "b = a") auto
  qed
  moreover have "idle_ok (X - {a}) st" using assms unfolding kI_def idle_ok_def by fastforce
  ultimately show ?thesis using assms(1) by (simp add: kI_def)
qed

lemma kI_conts:
  assumes "kI X Y C d st" "\<And>p. procs st a = Some p \<Longrightarrow> cont_ok st a p"
  shows "kI X (Y - {a}) C d st"
  using assms unfolding kI_def conts_def by blast

lemma kI_conts_mono: "kI X Y C d st \<Longrightarrow> Y \<subseteq> Y' \<Longrightarrow> kI X Y' C d st"
  unfolding kI_def conts_def by blast

lemma activate_eq:
  assumes "home (qs st) a = None"
  shows "activate a st = Inr (enlink a Q_activable (upd a (state_update (\<lambda>_. ACTIVABLE)) st))"
  using assms by (simp add: activate_def set_state_and_queue_def kq_add_enlink)

lemma kI_activate:
  assumes I: "kI X Y C d st" and a: "a \<in> X" "a \<in> Y" and p: "procs st a = Some p" "\<not> ended p"
  shows "kI (X - {a}) Y C d (enlink a Q_activable (upd a (state_update (\<lambda>_. ACTIVABLE)) st))"
proof -
  have "kI X Y C d (upd a (state_update (\<lambda>_. ACTIVABLE)) st)"
    using I a p by (intro kI_upd [where p = p]) (auto simp: ended_def)
  from kI_enlink [OF this, of a "p\<lparr>state := ACTIVABLE\<rparr>" Q_activable] show ?thesis
    using a p by (simp add: place_ok_home)
qed

end
