(* ===== verification/Scheduler_Spec.thy ===== *)
theory Scheduler_Spec
  imports Kernel_Inv
begin

text \<open>
  The scheduler: from every state in which the current process has given up the processor
  it returns, elects an activable process of the highest priority and re-establishes the
  invariant; and the code that follows a context switch (\<open>resume\<close>) runs without fault.
\<close>

section \<open>Freeing the finished processes\<close>

definition purge :: "addr set \<Rightarrow> kstate \<Rightarrow> kstate" where
  "purge F st = st\<lparr>procs := (\<lambda>a. if a \<in> F then None else procs st a),
     qs := \<lparr>lists = (lists (qs st))(Q_finished := filter (\<lambda>a. a \<notin> F) (q_of Q_finished st)),
            home = (\<lambda>a. if a \<in> F then None else home (qs st) a)\<rparr>\<rparr>"

lemma purge_simps [simp]:
  "procs (purge F st) = (\<lambda>a. if a \<in> F then None else procs st a)"
  "process_table (purge F st) = process_table st"
  "current_pid (purge F st) = current_pid st"
  "lists (qs (purge F st)) = (lists (qs st))(Q_finished := filter (\<lambda>a. a \<notin> F) (q_of Q_finished st))"
  "home (qs (purge F st)) = (\<lambda>a. if a \<in> F then None else home (qs st) a)"
  "sems (purge F st) = sems st"
  "semaphore_table (purge F st) = semaphore_table st"
  "mqs (purge F st) = mqs st"
  "queue_table (purge F st) = queue_table st"
  "brk (purge F st) = brk st"
  "mm (purge F st) = mm st"
  "cpu (purge F st) = cpu st"
  "time_count (purge F st) = time_count st"
  "place_ok (purge F st) = place_ok st"
  by (simp_all add: purge_def place_ok_def fun_eq_iff split: State.splits)

lemma wfq_purge:
  assumes "wfq st" "F \<subseteq> set (q_of Q_finished st)"
  shows "wfq (purge F st)"
proof -
  have F: "home (qs st) a = Some Q_finished" if "a \<in> F" for a
    using assms that by (auto simp: wfq_def qwf_home)
  have "map (prio_of (purge F st)) (q_of q (purge F st)) = map (prio_of st) (q_of q (purge F st))" for q
    using F assms by (auto simp: prio_of_def wfq_def qwf_home)
  then have "\<forall>q. sorted (map (prio_of (purge F st)) (q_of q (purge F st)))"
    using assms by (auto simp: wfq_def intro!: sorted_filter simp del: map_eq_conv)
  moreover have "qwf (qs (purge F st))"
    using F assms(1) by (auto simp: wfq_def qwf_def) 
  ultimately show ?thesis using F assms(1) by (auto simp: wfq_def)
qed

lemma purge_finished:
  assumes "kI X Y C d st" "F \<subseteq> set (q_of Q_finished st)" "a \<in> F"
  shows "\<exists>p. procs st a = Some p \<and> state p = FINISHED"
proof -
  have h: "home (qs st) a = Some Q_finished" using assms by (auto simp: kI_def wfq_def qwf_home)
  then obtain p where p: "procs st a = Some p" using assms(1) unfolding kI_def wfq_def by blast
  with h assms(1) show ?thesis
    unfolding kI_def using placesD [of X st a p] by (cases "a \<in> X") (auto simp: place_ok_home)
qed

lemma kI_purge:
  assumes I: "kI X Y C d st" and F: "F \<subseteq> set (q_of Q_finished st)"
  shows "kI X Y C d (purge F st)"
proof -
  have live: "procs st a = Some p \<Longrightarrow> state p \<noteq> FINISHED \<Longrightarrow> a \<notin> F" for a p
    using purge_finished [OF I F, of a] by auto
  have tb: "process_table st i = Some a \<Longrightarrow> a \<notin> F" for i a
    using I live unfolding kI_def by (auto dest: tabD)
  have zc: "zombie_child (purge F st) = zombie_child st" and co: "child_of (purge F st) = child_of st"
    using tb by (auto simp: zombie_child_def child_of_def fun_eq_iff)
  have fa: "(\<exists>a p. process_table st i = Some a \<and> procs (purge F st) a = Some p \<and> \<not> ended p) \<longleftrightarrow>
      (\<exists>a p. process_table st i = Some a \<and> procs st a = Some p \<and> \<not> ended p)" for i
    using tb by (auto split: if_splits)
  have ct: "conts Y (purge F st)"
  proof (rule conts_mono [of Y st])
    fix a p assume "procs st a = Some p" "\<not> ended p"
    then show "home (qs (purge F st)) a = home (qs st) a" using live by (auto simp: ended_def)
  qed (use I live zc in \<open>auto simp: kI_def split: if_splits\<close>)
  show ?thesis
    unfolding kI_def
  proof (intro conjI ct)
    show "wfq (purge F st)" using I F by (auto simp: kI_def intro: wfq_purge)
    show "tab (purge F st)" using I live unfolding kI_def tab_def by (fastforce split: if_splits)
    show "places X (purge F st)" using I
      by (intro placesI) (auto simp: kI_def split: if_splits dest: placesD)
    show "family C (purge F st)"
      unfolding family_def co purge_simps(2) fa
      using I unfolding kI_def family_def by (simp split: if_splits)
    show "idle_ok X (purge F st)" using I tb unfolding kI_def idle_ok_def by auto
    have "stale st" using I by (simp add: kI_def)
    then show "stale (purge F st)" unfolding stale_def by (metis (mono_tags) option.distinct(1) purge_simps(1,2))
    have "sem_inv d st" using I by (simp add: kI_def)
    then show "sem_inv d (purge F st)" by (rule sem_inv_length) simp_all
    show "mq_inv (purge F st)" using I by (simp add: kI_def mq_inv_def)
    show "fresh (purge F st)" using I by (simp add: kI_def fresh_def)
  qed
qed


lemma wfq_free:
  assumes "wfq st" "home (qs st) a = None"
  shows "wfq (st\<lparr>procs := (procs st)(a := None)\<rparr>)"
proof -
  let ?st = "st\<lparr>procs := (procs st)(a := None)\<rparr>"
  have "prio_of ?st b = prio_of st b" if "b \<in> set (q_of q st)" for b q
    using assms that by (auto simp: prio_of_def wfq_def qwf_home)
  then have "map (prio_of ?st) (q_of q st) = map (prio_of st) (q_of q st)" for q by simp
  then have "\<forall>q. sorted (map (prio_of ?st) (q_of q ?st))"
    using assms by (simp add: wfq_def del: map_eq_conv)
  then show ?thesis using assms by (auto simp: wfq_def)
qed

lemma free_all_purge:
  assumes "wfq st" "\<forall>a \<in> set (q_of Q_finished st). \<not> pid_is st (current_pid st) a"
  shows "free_all st = Inr (purge (set (q_of Q_finished st)) st)"
  using assms
proof (induction st rule: free_all.induct)
  case (1 st)
  show ?case
  proof (cases "q_of Q_finished st = []")
    case True
    have "purge {} st = st" by (simp add: purge_def)
    with True show ?thesis by (subst free_all.simps) (simp add: kq_out_eq)
  next
    case False
    let ?a = "last (q_of Q_finished st)"
    let ?st1 = "(unlink ?a st)\<lparr>procs := (procs st)(?a := None)\<rparr>"
    have wf: "qwf (qs st)" using 1 by (simp add: wfq_def)
    have a: "?a \<in> set (q_of Q_finished st)" using False by simp
    then have h: "home (qs st) ?a = Some Q_finished" using wf by (simp add: qwf_home)
    then obtain p where p: "procs st ?a = Some p" using "1.prems"(1) unfolding wfq_def by blast
    with a "1.prems"(2) have "pid p \<noteq> current_pid st" by (auto simp: pid_is_def)
    with p have fp: "free_process ?a (unlink ?a st) = Inr ?st1"
      by (simp add: free_process_def deref_def)
    have out: "kq_out Q_finished st = (Some ?a, unlink ?a st)" by (rule kq_out_unlink [OF wf False])
    have dist: "distinct (q_of Q_finished st)" using wf by (simp add: qwf_def)
    have w1: "wfq ?st1" using wfq_free [OF wfq_unlink [OF "1.prems"(1), of ?a], of ?a] by simp
    have pids: "\<forall>b \<in> set (q_of Q_finished ?st1). \<not> pid_is ?st1 (current_pid ?st1) b"
      using "1.prems"(2) dist by (auto simp: pid_is_def)
    have "free_all ?st1 = Inr (purge (set (q_of Q_finished ?st1)) ?st1)"
      by (rule "1.IH" [OF out [symmetric] refl fp w1 pids])
    moreover have "purge (set (q_of Q_finished ?st1)) ?st1 = purge (set (q_of Q_finished st)) st"
    proof -
      have S: "set (q_of Q_finished ?st1) = set (q_of Q_finished st) - {?a}" using dist by simp
      have oth: "q \<noteq> Q_finished \<Longrightarrow> remove1 ?a (q_of q st) = q_of q st" for q
        using h wf by (simp add: remove1_idem qwf_home)
      show ?thesis
        unfolding S by (rule kstate.equality)
          (use a in \<open>auto simp: purge_def unlink_def fun_eq_iff oth filter_empty_conv dist\<close>)
    qed
    ultimately show ?thesis by (subst free_all.simps) (simp add: out fp)
  qed
qed

lemma filter_keep_one:
  assumes "distinct xs" "c \<in> set xs"
  shows "filter (\<lambda>a. a \<notin> set xs - {c}) xs = [c]"
proof -
  have "filter (\<lambda>a. a \<notin> set xs - {c}) xs = filter (\<lambda>a. a = c) xs"
    by (rule filter_cong) auto
  also have "\<dots> = [c]" using assms by (induction xs) (auto intro!: filter_False)
  finally show ?thesis .
qed

lemma free_finished_purge:
  assumes wf: "wfq st" and c: "c \<in> set (q_of Q_finished st) \<longrightarrow> pid_is st (current_pid st) c"
    and uniq: "\<forall>b \<in> set (q_of Q_finished st). pid_is st (current_pid st) b \<longrightarrow> b = c"
  shows "free_finished_process st = Inr (purge (set (q_of Q_finished st) - {c}) st)"
proof (cases "c \<in> set (q_of Q_finished st)")
  case False
  with uniq have np: "\<forall>b \<in> set (q_of Q_finished st). \<not> pid_is st (current_pid st) b" by blast
  then have "List.find (pid_is st (current_pid st)) (q_of Q_finished st) = None"
    by (simp add: find_None_iff)
  with False free_all_purge [OF wf np] show ?thesis by (simp add: free_finished_process_def)
next
  case True
  let ?F = "q_of Q_finished st" and ?st1 = "unlink c st"
  have q: "qwf (qs st)" using wf by (simp add: wfq_def)
  have h: "home (qs st) c = Some Q_finished" using True q by (simp add: qwf_home)
  have dist: "distinct ?F" using q by (simp add: qwf_def)
  obtain b where b: "List.find (pid_is st (current_pid st)) ?F = Some b"
    using True c find_None_iff [of "pid_is st (current_pid st)" ?F] by fastforce
  then have "b = c" using uniq find_SomeD by fastforce
  with b have f: "List.find (pid_is st (current_pid st)) ?F = Some c" by simp
  have "\<forall>b \<in> set (q_of Q_finished ?st1). \<not> pid_is ?st1 (current_pid ?st1) b"
    using uniq dist by (auto simp: pid_is_def)
  from free_all_purge [OF wfq_unlink [OF wf] this] have fa: "free_all ?st1 = Inr (purge (set ?F - {c}) ?st1)"
    using dist by simp
  have "kq_add c Q_finished (purge (set ?F - {c}) ?st1) = Inr (enlink c Q_finished (purge (set ?F - {c}) ?st1))"
    by (rule kq_add_enlink) simp
  moreover have "enlink c Q_finished (purge (set ?F - {c}) ?st1) = purge (set ?F - {c}) st"
  proof -
    have oth: "q \<noteq> Q_finished \<Longrightarrow> remove1 c (q_of q st) = q_of q st" for q
      using h q by (simp add: remove1_idem qwf_home)
    have e: "filter (\<lambda>a. a \<notin> set ?F - {c}) (remove1 c ?F) = []"
      using dist by (auto simp: filter_empty_conv)
    show ?thesis
      by (rule kstate.equality)
        (use h e filter_keep_one [OF dist True] in
          \<open>simp_all add: enlink_def purge_def unlink_def fun_eq_iff oth qinsert_def\<close>)
  qed
  ultimately show ?thesis
    using f fa kq_del_unlink [OF q h] by (simp add: free_finished_process_def)
qed


section \<open>Waking the sleepers\<close>

text \<open>The state as if the continuation of the process that gives up the processor were already saved.\<close>

definition saved :: "addr \<Rightarrow> kcont \<Rightarrow> kstate \<Rightarrow> kstate" where
  "saved c k st = upd c (registers_update (\<lambda>_. k)) st"

lemma saved_simps [simp]:
  "process_table (saved c k st) = process_table st"
  "current_pid (saved c k st) = current_pid st"
  "qs (saved c k st) = qs st"
  "sems (saved c k st) = sems st"
  "semaphore_table (saved c k st) = semaphore_table st"
  "mqs (saved c k st) = mqs st"
  "queue_table (saved c k st) = queue_table st"
  "brk (saved c k st) = brk st"
  "time_count (saved c k st) = time_count st"
  "prio_of (saved c k st) = prio_of st"
  by (simp_all add: saved_def prio_of_upd_eq)

lemma procs_saved: "procs (saved c k st) a =
    map_option (\<lambda>p. if a = c then p\<lparr>registers := k\<rparr> else p) (procs st a)"
  by (simp add: saved_def option.map_ident)

lemma wfq_saved [simp]: "wfq (saved c k st) = wfq st"
  by (simp add: wfq_def procs_saved)

lemma upd_commute:
  "a \<noteq> b \<or> (\<forall>p. f (g p) = g (f p)) \<Longrightarrow> upd a f (upd b g st) = upd b g (upd a f st)"
  by (rule kstate.equality) (auto simp: upd_def fun_eq_iff option.map_comp comp_def)

lemma upd_enlink:
  assumes "\<And>p. priority (f p) = priority p"
  shows "upd b f (enlink a q st) = enlink a q (upd b f st)"
proof -
  have "prio_of (upd b f st) = prio_of st" by (rule prio_of_upd_eq) (rule assms)
  then show ?thesis unfolding enlink_def by (simp add: upd_def)
qed

lemma saved_wake: "saved c k (enlink a Q_activable (upd a (state_update (\<lambda>_. ACTIVABLE)) st)) =
    enlink a Q_activable (upd a (state_update (\<lambda>_. ACTIVABLE)) (saved c k st))"
  unfolding saved_def by (subst upd_enlink) (simp_all add: upd_commute)

lemma saved_purge: "c \<notin> F \<Longrightarrow> saved c k (purge F st) = purge F (saved c k st)"
  by (rule kstate.equality) (auto simp: saved_def purge_def upd_def fun_eq_iff)

lemma kI_wake_asleep:
  assumes I: "kI {} {} {} d st" and p: "procs st a = Some p" "state p = ASLEEP"
  shows "home (qs st) a = None"
    and "kI {} {} {} d (enlink a Q_activable (upd a (state_update (\<lambda>_. ACTIVABLE)) st))"
proof -
  show h: "home (qs st) a = None"
    using I p placesD(2) [of "{}" st a p] by (cases "home (qs st) a") (auto simp: kI_def place_ok_def)
  let ?st = "enlink a Q_activable (upd a (state_update (\<lambda>_. ACTIVABLE)) st)"
  have "kI {a} {a} {} d st" using kI_transit [OF I p(1) h] p by simp
  from kI_activate [OF this _ _ p(1)] p have *: "kI {} {a} {} d ?st" by (simp add: ended_def)
  have "cont_ok st a p" using I p by (auto simp: kI_def conts_def)
  then have "\<not> skip_message p \<and> (\<exists>v. registers p = K_return v)"
    using p by (simp add: cont_ok_def ended_def blocked_ok_def)
  with p have "cont_ok ?st a (p\<lparr>state := ACTIVABLE\<rparr>)" by (auto simp: cont_ok_def ready_def)
  with kI_conts [OF *, of a] p show "kI {} {} {} d ?st" by simp
qed

text \<open>What one round of the scheduler may do to the processes: only sleepers change, to activable.\<close>

definition woken :: "kstate \<Rightarrow> kstate \<Rightarrow> bool" where
  "woken st st' \<longleftrightarrow>
     (\<forall>a. procs st' a = procs st a \<or>
        (\<exists>p. procs st a = Some p \<and> state p = ASLEEP \<and> wakeup_date p \<le> time_count st \<and>
             procs st' a = Some (p\<lparr>state := ACTIVABLE\<rparr>))) \<and>
     process_table st' = process_table st \<and> current_pid st' = current_pid st \<and>
     time_count st' = time_count st \<and> sems st' = sems st \<and> mqs st' = mqs st \<and>
     semaphore_table st' = semaphore_table st \<and> queue_table st' = queue_table st \<and>
     (\<forall>q. q \<noteq> Q_activable \<longrightarrow> q_of q st' = q_of q st)"

lemma woken_refl: "woken st st"
  by (simp add: woken_def)

lemma woken_trans:
  assumes "woken st st1" "woken st1 st2" shows "woken st st2"
proof -
  have "procs st2 a = procs st a \<or> (\<exists>p. procs st a = Some p \<and> state p = ASLEEP \<and>
      wakeup_date p \<le> time_count st \<and> procs st2 a = Some (p\<lparr>state := ACTIVABLE\<rparr>))" for a
  proof -
    have "procs st1 a = procs st a \<or> (\<exists>p. procs st a = Some p \<and> state p = ASLEEP \<and>
      wakeup_date p \<le> time_count st \<and> procs st1 a = Some (p\<lparr>state := ACTIVABLE\<rparr>))"
      using assms(1) by (simp add: woken_def)
    moreover have "procs st2 a = procs st1 a \<or> (\<exists>p. procs st1 a = Some p \<and> state p = ASLEEP \<and>
      wakeup_date p \<le> time_count st \<and> procs st2 a = Some (p\<lparr>state := ACTIVABLE\<rparr>))"
      using assms by (simp add: woken_def)
    ultimately show ?thesis by (elim disjE exE conjE) (simp_all, metis, auto)
  qed
  then show ?thesis using assms by (simp add: woken_def)
qed

lemma woken_asleep: "woken st st' \<Longrightarrow> procs st' a = Some p \<Longrightarrow> state p = ASLEEP \<Longrightarrow> procs st a = Some p"
  by (auto simp: woken_def dest!: spec [of _ a])

lemma woken_wake:
  assumes "procs st a = Some p" "state p = ASLEEP" "wakeup_date p \<le> time_count st"
  shows "woken st (enlink a Q_activable (upd a (state_update (\<lambda>_. ACTIVABLE)) st))"
  using assms by (auto simp: woken_def)

lemma wakeup_loop_ok:
  assumes "kI {} {} {} d (saved c k st)"
  shows "\<exists>st'. wakeup_loop n i st = Inr st' \<and> kI {} {} {} d (saved c k st') \<and> woken st st' \<and>
    (\<forall>j a p. i \<le> j \<longrightarrow> j < i + int n \<longrightarrow> process_table st j = Some a \<longrightarrow> procs st' a = Some p \<longrightarrow>
       state p = ASLEEP \<longrightarrow> time_count st < wakeup_date p)"
  using assms
proof (induction n arbitrary: i st)
  case 0
  then show ?case by (auto simp: woken_refl)
next
  case (Suc n)
  let ?wake = "\<lambda>a. enlink a Q_activable (upd a (state_update (\<lambda>_. ACTIVABLE)) st)"
  let ?one = "case process_table st i of None \<Rightarrow> Inr st
     | Some a \<Rightarrow> bindE (deref a st) (\<lambda>p.
         if state p = ASLEEP \<and> wakeup_date p \<le> time_count st then activate a st else Inr st)"
  have "\<exists>st1. ?one = Inr st1 \<and> kI {} {} {} d (saved c k st1) \<and> woken st st1 \<and>
      (\<forall>a p. process_table st i = Some a \<longrightarrow> procs st1 a = Some p \<longrightarrow> state p = ASLEEP \<longrightarrow> time_count st < wakeup_date p)"
  proof (cases "process_table st i")
    case None
    then show ?thesis using Suc.prems by (simp add: woken_refl)
  next
    case (Some a)
    have "tab (saved c k st)" using Suc.prems by (simp add: kI_def)
    then obtain p' where "procs (saved c k st) a = Some p'"
      using Some by (auto dest: tabD)
    then obtain p where p: "procs st a = Some p"
      "procs (saved c k st) a = Some (if a = c then p\<lparr>registers := k\<rparr> else p)" by (auto simp: procs_saved)
    show ?thesis
    proof (cases "state p = ASLEEP \<and> wakeup_date p \<le> time_count st")
      case True
      then have "state (if a = c then p\<lparr>registers := k\<rparr> else p) = ASLEEP" by simp
      from kI_wake_asleep [OF Suc.prems p(2) this]
      have "home (qs st) a = None" "kI {} {} {} d (saved c k (?wake a))" by (simp_all add: saved_wake)
      then show ?thesis using True Some p(1) woken_wake [OF p(1)] by (simp add: deref_def activate_eq)
    next
      case False
      then show ?thesis using Some p(1) Suc.prems by (auto simp: deref_def woken_refl)
    qed
  qed
  then obtain st1 where one: "?one = Inr st1" and I1: "kI {} {} {} d (saved c k st1)" and w1: "woken st st1"
    and a1: "\<And>a p. process_table st i = Some a \<Longrightarrow> procs st1 a = Some p \<Longrightarrow> state p = ASLEEP \<Longrightarrow> time_count st < wakeup_date p"
    by blast
  from Suc.IH [OF I1, of "i + 1"] obtain st' where r: "wakeup_loop n (i + 1) st1 = Inr st'"
    "kI {} {} {} d (saved c k st')" and w2: "woken st1 st'"
    and a2: "\<And>j a p. i + 1 \<le> j \<Longrightarrow> j < i + 1 + int n \<Longrightarrow> process_table st1 j = Some a \<Longrightarrow> procs st' a = Some p \<Longrightarrow>
       state p = ASLEEP \<Longrightarrow> time_count st1 < wakeup_date p" by blast
  have same: "process_table st1 = process_table st" "time_count st1 = time_count st" using w1 by (auto simp: woken_def)
  have "time_count st < wakeup_date p"
    if j: "i \<le> j" "j < i + int (Suc n)" "process_table st j = Some a" "procs st' a = Some p" "state p = ASLEEP" for j a p
  proof (cases "j = i")
    case True
    have "procs st1 a = Some p" by (rule woken_asleep [OF w2 j(4,5)])
    with True j a1 show ?thesis by blast
  next
    case False
    with j same a2 [of j a p] show ?thesis by simp
  qed
  with r woken_trans [OF w1 w2] show ?case by (auto simp: one)
qed


section \<open>The scheduler\<close>

text \<open>
  \<open>off c k st\<close>: the current process, in block \<open>c\<close>, has given up the processor (it is queued,
  asleep or ended), will go on at \<open>k\<close>, and the scheduler is about to run.
\<close>

definition off :: "addr \<Rightarrow> kcont \<Rightarrow> kstate \<Rightarrow> bool" where
  "off c k st \<longleftrightarrow> kI {} {} {} (\<lambda>_. 0) (saved c k st) \<and>
     (\<exists>pc. procs st c = Some pc \<and> pid pc = current_pid st \<and>
        (state pc = FINISHED \<longrightarrow> process_table st (current_pid st) = None)) \<and>
     (\<forall>b q. procs st b = Some q \<longrightarrow> state q = FINISHED \<longrightarrow> pid q = current_pid st \<longrightarrow> b = c)"

definition running :: "kstate \<Rightarrow> addr \<Rightarrow> Process \<Rightarrow> bool" where
  "running st c p \<longleftrightarrow> process_table st (current_pid st) = Some c \<and> procs st c = Some p \<and>
     state p = ELECTED \<and> kI {c} {c} {} (\<lambda>_. 0) st"

lemma kinv_running: "kinv st \<longleftrightarrow> (\<exists>c p. running st c p \<and> \<not> skip_message p)"
  by (auto simp: kinv_def running_def)

lemma kI_finished_home:
  assumes "kI X Y C d st" "procs st a = Some p"
  shows "state p = FINISHED \<longleftrightarrow> a \<in> set (q_of Q_finished st)"
proof -
  have q: "qwf (qs st)" using assms(1) by (simp add: kI_def wfq_def)
  show ?thesis
    using assms placesD [of X st a p] unfolding kI_def qwf_home [OF q]
    by (cases "a \<in> X") (auto dest: place_ok_FINISHED)
qed

lemma kI_activable_home:
  assumes "kI {} Y C d st" "procs st a = Some p"
  shows "state p = ACTIVABLE \<longleftrightarrow> a \<in> set (q_of Q_activable st)"
proof -
  have q: "qwf (qs st)" using assms(1) by (simp add: kI_def wfq_def)
  show ?thesis
    using assms placesD(2) [of "{}" st a p] unfolding kI_def qwf_home [OF q]
    by (auto simp: place_ok_def split: State.splits)
qed

lemma scheduler_frees:
  assumes "off c k st"
  shows "\<exists>st1. free_finished_process st = Inr st1 \<and> off c k st1 \<and>
    (\<forall>b q. procs st1 b = Some q \<longrightarrow> state q = FINISHED \<longrightarrow> b = c) \<and>
    (\<forall>a p. procs st a = Some p \<longrightarrow> state p \<noteq> FINISHED \<or> a = c \<longrightarrow> procs st1 a = Some p) \<and>
    time_count st1 = time_count st \<and> process_table st1 = process_table st"
proof -
  let ?F = "set (q_of Q_finished st) - {c}"
  have I: "kI {} {} {} (\<lambda>_. 0) (saved c k st)" using assms by (simp add: off_def)
  from assms obtain pc where pc: "procs st c = Some pc" "pid pc = current_pid st"
    "state pc = FINISHED \<longrightarrow> process_table st (current_pid st) = None"
    and uniq: "\<And>b q. procs st b = Some q \<Longrightarrow> state q = FINISHED \<Longrightarrow> pid q = current_pid st \<Longrightarrow> b = c"
    by (auto simp: off_def)
  have fin: "state q = FINISHED \<longleftrightarrow> b \<in> set (q_of Q_finished st)" if "procs st b = Some q" for b q
    using kI_finished_home [OF I, of b] that by (cases "b = c") (auto simp: procs_saved)
  have wf: "wfq st" using I by (simp add: kI_def)
  have "free_finished_process st = Inr (purge ?F st)"
  proof (rule free_finished_purge [OF wf])
    show "\<forall>b \<in> set (q_of Q_finished st). pid_is st (current_pid st) b \<longrightarrow> b = c"
      using fin uniq by (auto simp: pid_is_def split: option.splits)
    show "c \<in> set (q_of Q_finished st) \<longrightarrow> pid_is st (current_pid st) c"
      using pc by (simp add: pid_is_def)
  qed
  moreover have one: "\<forall>b q. procs (purge ?F st) b = Some q \<longrightarrow> state q = FINISHED \<longrightarrow> b = c"
    using fin by (auto split: if_splits)
  moreover have "off c k (purge ?F st)"
    unfolding off_def
  proof (intro conjI)
    show "kI {} {} {} (\<lambda>_. 0) (saved c k (purge ?F st))"
      using kI_purge [OF I, of ?F] by (simp add: saved_purge subset_iff)
    show "\<exists>pc. procs (purge ?F st) c = Some pc \<and> pid pc = current_pid (purge ?F st) \<and>
        (state pc = FINISHED \<longrightarrow> process_table (purge ?F st) (current_pid (purge ?F st)) = None)"
      using pc by simp
  qed (use one in blast)
  moreover have "\<forall>a p. procs st a = Some p \<longrightarrow> state p \<noteq> FINISHED \<or> a = c \<longrightarrow> procs (purge ?F st) a = Some p"
    using fin by simp
  ultimately show ?thesis
    by (intro exI [of _ "purge ?F st"] conjI) (assumption | simp only: purge_simps)+
qed

text \<open>
  The state in which the scheduler leaves the processor: \<open>n\<close> is elected, the continuation of
  the process that was suspended is saved, and no process that could run has a higher priority.
\<close>

definition elected_max :: "kstate \<Rightarrow> Process \<Rightarrow> bool" where
  "elected_max st p \<longleftrightarrow> (\<forall>a q. procs st a = Some q \<longrightarrow> state q = ACTIVABLE \<longrightarrow> priority q \<le> priority p)"

lemma elect_ok:
  assumes I: "kI {} {} {} (\<lambda>_. 0) (saved c k st)" and pc: "procs st c = Some pc"
    and fin: "\<And>b q. procs st b = Some q \<Longrightarrow> state q = FINISHED \<Longrightarrow> b = c \<and> process_table st (pid q) = None"
    and n: "q_of Q_activable st \<noteq> []" "n = last (q_of Q_activable st)"
    and st3: "st3 = saved c k (upd n (state_update (\<lambda>_. ELECTED)) (unlink n st))"
  shows "\<exists>p. procs st3 n = Some p \<and> state p = ELECTED \<and> process_table st3 (pid p) = Some n \<and>
    kI {n} {n} {} (\<lambda>_. 0) st3 \<and> ready st3 n p (registers p) \<and> elected_max st3 p"
proof -
  have q: "qwf (qs st)" using I by (simp add: kI_def wfq_def)
  have h: "home (qs (saved c k st)) n = Some Q_activable"
    using n last_in_set [OF n(1)] q by (simp add: qwf_home)
  then obtain p where p: "procs (saved c k st) n = Some p" using I unfolding kI_def wfq_def by blast
  have act: "state p = ACTIVABLE" using kI_activable_home [OF I p] n last_in_set [OF n(1)] by simp
  let ?su = "unlink n (saved c k st)"
  have "st3 = upd n (state_update (\<lambda>_. ELECTED)) (saved c k (unlink n st))"
    unfolding st3 saved_def by (rule upd_commute) simp
  also have "saved c k (unlink n st) = ?su"
    by (rule kstate.equality) (simp_all add: saved_def unlink_def upd_def)
  finally have s3: "st3 = upd n (state_update (\<lambda>_. ELECTED)) ?su" .
  have "kI {n} {n} {} (\<lambda>_. 0) ?su" using kI_unlink [OF I h] by simp
  moreover have "\<forall>b r. procs ?su b = Some r \<longrightarrow> state r = FINISHED \<longrightarrow> pid r \<noteq> pid p"
  proof (intro allI impI notI)
    fix b r assume b: "procs ?su b = Some r" "state r = FINISHED" "pid r = pid p"
    then obtain r0 where "procs st b = Some r0" "state r0 = FINISHED" "pid r0 = pid r"
      by (auto simp: procs_saved split: if_splits)
    with fin b have "process_table st (pid p) = None" by metis
    moreover have "process_table (saved c k st) (pid p) = Some n"
      using I p act by (intro tabD' [OF _ p]) (simp_all add: kI_def)
    ultimately show False by simp
  qed
  ultimately have I3: "kI {n} {n} {} (\<lambda>_. 0) st3"
    unfolding s3 using p act by (intro kI_upd [where p = p]) auto
  have t: "process_table st3 (pid p) = Some n"
    using I p act unfolding s3 by (auto simp: kI_def dest: tabD')
  have "ready (saved c k st) n p (registers p)"
    using kI_cont_ok [OF I p] act by (simp add: cont_ok_def ended_def)
  then have "ready (saved c k st) n (p\<lparr>state := ELECTED\<rparr>) (registers p)"
    by (simp add: ready_def split: kcont.splits)
  then have r: "ready st3 n (p\<lparr>state := ELECTED\<rparr>) (registers p)"
  proof (rule ready_mono)
    show "zombie_child st3 (pid (p\<lparr>state := ELECTED\<rparr>)) ch" if "zombie_child (saved c k st) (pid (p\<lparr>state := ELECTED\<rparr>)) ch" for ch
      using that p act zombie_child_upd [of ?su n p "state_update (\<lambda>_. ELECTED)"] unfolding s3 by simp
  qed (use p in \<open>auto simp: s3\<close>)
  have "elected_max st3 (p\<lparr>state := ELECTED\<rparr>)"
    unfolding elected_max_def
  proof (intro allI impI)
    fix a r assume a: "procs st3 a = Some r" "state r = ACTIVABLE"
    then have a': "procs (saved c k st) a = Some r" using p unfolding s3 by (auto split: if_splits)
    with a kI_activable_home [OF I a'] have "a \<in> set (q_of Q_activable st)" by simp
    moreover have "sorted (map (prio_of (saved c k st)) (q_of Q_activable st))"
      using I unfolding kI_def wfq_def by simp
    ultimately have "prio_of (saved c k st) a \<le> prio_of (saved c k st) n"
      using lq.out_max_prio [of "qs st" "prio_of (saved c k st)" Q_activable n] q n
      by (auto simp: q_out_def)
    then show "priority r \<le> priority (p\<lparr>state := ELECTED\<rparr>)" using a' p by (auto simp: prio_of_def procs_saved split: if_splits)
  qed
  with I3 t r p show ?thesis by (intro exI [of _ "p\<lparr>state := ELECTED\<rparr>"]) (simp add: s3)
qed


lemma virtual_ctx_sw_eq:
  assumes "procs st n = Some p" "procs st c = Some pc"
  shows "virtual_ctx_sw (Some c) k n st =
      Inr ((saved c k st)\<lparr>mm := (mm st)\<lparr>CR3 := cr3 p\<rparr>, tss_cr3 := cr3 p,
             tss_esp0 := (fst (kernel_stack p), snd (kernel_stack p) + 4 * kernel_stack_size p),
             cpu := (if n = c then k else registers p)\<rparr>)"
proof -
  have "upd c (registers_update (\<lambda>_. k)) (st\<lparr>mm := m, tss_cr3 := w, tss_esp0 := e\<rparr>) =
      (saved c k st)\<lparr>mm := m, tss_cr3 := w, tss_esp0 := e\<rparr>" for m w e
    by (rule kstate.equality) (simp_all add: saved_def upd_def)
  then show ?thesis using assms by (auto simp: virtual_ctx_sw_def deref_def Let_def procs_saved)
qed

text \<open>The process to switch from: the finished one that is still in its queue, or the current one.\<close>

lemma old_process:
  assumes I: "kI {} {} {} (\<lambda>_. 0) (saved c k st)" and pc: "procs st c = Some pc" "pid pc = current_pid st"
    and fin: "\<And>b q. procs st b = Some q \<Longrightarrow> state q = FINISHED \<Longrightarrow> b = c"
  shows "(if q_of Q_finished st = [] then process_table st (current_pid st) else Some (last (q_of Q_finished st))) = Some c"
proof -
  have fh: "state q = FINISHED \<longleftrightarrow> b \<in> set (q_of Q_finished st)" if "procs (saved c k st) b = Some q" for b q
    using kI_finished_home [OF I that] by simp
  show ?thesis
  proof (cases "q_of Q_finished st = []")
    case True
    with fh [of c] pc have "state pc \<noteq> FINISHED" by (simp add: procs_saved)
    then have "process_table (saved c k st) (pid (pc\<lparr>registers := k\<rparr>)) = Some c"
      using pc by (intro tabD' [OF kID(2) [OF I]]) (simp_all add: procs_saved)
    with True pc show ?thesis by simp
  next
    case False
    let ?b = "last (q_of Q_finished st)"
    have "home (qs (saved c k st)) ?b = Some Q_finished"
      using kI_qwf [OF I] last_in_set [OF False] by (simp add: qwf_home)
    then obtain q where q: "procs (saved c k st) ?b = Some q"
      using kID(1) [OF I] unfolding wfq_def by blast
    with fh [OF q] last_in_set [OF False] have "state q = FINISHED" by simp
    with q fin have "?b = c" by (auto simp: procs_saved split: if_splits)
    with False show ?thesis by simp
  qed
qed

lemma scheduler_ok:
  assumes "off c k st"
  shows "\<exists>st' n p. scheduler k st = Inr st' \<and> running st' n p \<and> ready st' n p (cpu st') \<and>
    elected_max st' p \<and> CR3 (mm st') = cr3 p \<and>
    (\<forall>pc. procs st c = Some pc \<longrightarrow> (\<exists>pc'. procs st' c = Some pc' \<and> registers pc' = k))"
proof -
  obtain st1 where st1: "free_finished_process st = Inr st1" "off c k st1"
    and one: "\<And>b q. procs st1 b = Some q \<Longrightarrow> state q = FINISHED \<Longrightarrow> b = c"
    using scheduler_frees [OF assms] by blast
  from st1(2) have I1: "kI {} {} {} (\<lambda>_. 0) (saved c k st1)" by (simp add: off_def)
  from wakeup_loop_ok [OF I1, of NBPROC 0] obtain st2 where st2: "wakeup_process st1 = Inr st2"
    "kI {} {} {} (\<lambda>_. 0) (saved c k st2)" and wk: "woken st1 st2"
    unfolding wakeup_process_def by blast
  have same: "process_table st2 = process_table st1" "current_pid st2 = current_pid st1"
    using wk by (simp_all add: woken_def)
  have fin2: "procs st1 b = Some q" if "procs st2 b = Some q" "state q = FINISHED" for b q
    using wk that unfolding woken_def by (auto dest!: spec [of _ b])
  from st1(2) obtain pc where pc: "procs st1 c = Some pc" "pid pc = current_pid st1"
    "state pc = FINISHED \<longrightarrow> process_table st1 (current_pid st1) = None" by (auto simp: off_def)
  have "procs st2 c = procs st1 c \<or> (state pc = ASLEEP \<and> procs st2 c = Some (pc\<lparr>state := ACTIVABLE\<rparr>))"
    using wk pc(1) unfolding woken_def by (auto dest!: spec [of _ c])
  then obtain pc2 where pc2: "procs st2 c = Some pc2" "pid pc2 = current_pid st2"
    "state pc2 = FINISHED \<longleftrightarrow> state pc = FINISHED" using pc same by auto
  have fin: "b = c \<and> process_table st2 (pid q) = None" if "procs st2 b = Some q" "state q = FINISHED" for b q
    using fin2 [OF that] one that(2) pc same by auto
  obtain z pz where z: "process_table st2 0 = Some z" "procs (saved c k st2) z = Some pz" "state pz = ACTIVABLE"
    using kID(5) [OF st2(2)] by (auto simp: idle_ok_def)
  define n where "n = last (q_of Q_activable st2)"
  have ne: "q_of Q_activable st2 \<noteq> []" using kI_activable_home [OF st2(2) z(2)] z(3) by auto
  have out: "kq_out Q_activable st2 = (Some n, unlink n st2)"
    unfolding n_def using kI_qwf [OF st2(2)] ne by (intro kq_out_unlink) simp_all
  let ?st3 = "upd n (state_update (\<lambda>_. ELECTED)) (unlink n st2)"
  obtain p where p: "procs (saved c k ?st3) n = Some p" "state p = ELECTED"
    "process_table (saved c k ?st3) (pid p) = Some n" "kI {n} {n} {} (\<lambda>_. 0) (saved c k ?st3)"
    "ready (saved c k ?st3) n p (registers p)" "elected_max (saved c k ?st3) p"
    using elect_ok [OF st2(2) pc2(1) fin ne n_def refl] by blast
  then obtain p3 where p3: "procs ?st3 n = Some p3" "pid p3 = pid p" "cr3 p3 = cr3 p"
    by (auto simp: procs_saved split: if_splits)
  have "n \<notin> set (q_of Q_finished st2)"
    using kI_qwf [OF st2(2)] last_in_set [OF ne] by (simp add: n_def qwf_home)
  then have "q_of Q_finished ?st3 = q_of Q_finished st2" by (simp add: remove1_idem)
  with old_process [OF st2(2) pc2(1,2)] fin have old: "(if q_of Q_finished ?st3 = [] then process_table ?st3 (current_pid ?st3)
      else Some (last (q_of Q_finished ?st3))) = Some c" by (simp split: if_splits)
  have "procs (?st3\<lparr>current_pid := pid p3\<rparr>) n = Some p3"
    "procs (?st3\<lparr>current_pid := pid p3\<rparr>) c = Some (if c = n then pc2\<lparr>state := ELECTED\<rparr> else pc2)"
    using p3 pc2 by auto
  note sw = virtual_ctx_sw_eq [OF this, of k]
  have cp: "(if n = c then k else registers p3) = registers p"
    using p(1) p3(1) by (auto simp: procs_saved)
  have sv: "saved c k (?st3\<lparr>current_pid := pid p3\<rparr>) = (saved c k ?st3)\<lparr>current_pid := pid p3\<rparr>"
    by (simp add: saved_def upd_def)
  let ?m = "(mm st2)\<lparr>CR3 := cr3 p3\<rparr>"
  let ?e = "(fst (kernel_stack p3), snd (kernel_stack p3) + 4 * kernel_stack_size p3)"
  let ?st' = "(saved c k ?st3)\<lparr>current_pid := pid p3, mm := ?m, tss_cr3 := cr3 p3, tss_esp0 := ?e, cpu := registers p\<rparr>"
  have d: "deref n ?st3 = Inr p3" using p3(1) by (simp add: deref_def del: upd_simps)
  have "scheduler k st = Inr ?st'"
    unfolding scheduler_def st1(1) bindE_simps st2(1) out prod.case option.case Let_def old d
    unfolding sw sv cp by simp
  moreover have "running ?st' n p" using p p3 by (simp add: running_def)
  moreover have "ready ?st' n p (cpu ?st')" "elected_max ?st' p" "CR3 (mm ?st') = cr3 p"
    using p p3 by (simp_all add: elected_max_def)
  moreover have "\<exists>pc'. procs ?st' c = Some pc' \<and> registers pc' = k"
    using pc2 by (auto simp: procs_saved)
  ultimately show ?thesis by blast
qed

end
