(* ===== verification/Process_Inv.thy ===== *)
theory Process_Inv
  imports Scheduler_Spec
begin

text \<open>
  The system calls on processes keep the kernel invariant: giving up the processor,
  ending a process, collecting a child, changing a priority, creating a process.
\<close>

section \<open>Giving up the processor\<close>

lemma cont_ok_saved [simp]: "cont_ok (saved c k st) = cont_ok st"
proof -
  have z: "zombie_child (saved c k st) = zombie_child st"
    unfolding saved_def by (cases "procs st c") (simp add: zombie_child_def fun_eq_iff fun_upd_idem, simp add: zombie_child_upd)
  have b: "(\<exists>q. procs (saved c k st) b = Some q \<and> P q) \<longleftrightarrow> (\<exists>q. procs st b = Some q \<and> P q)"
    if "\<And>q. P (q\<lparr>registers := k\<rparr>) = P q" for b P
    using that by (cases "procs st b") (auto simp: procs_saved)
  have "ready (saved c k st) a p x = ready st a p x" for a p x
    by (cases x) (simp_all add: ready_def z b)
  then show ?thesis
    by (auto simp: cont_ok_def fun_eq_iff blocked_ok_def split: State.splits)
qed

lemma off_intro:
  assumes I: "kI {} {c} {} (\<lambda>_. 0) st" and pc: "procs st c = Some pc" "pid pc = current_pid st"
    and k: "cont_ok st c (pc\<lparr>registers := k\<rparr>)"
    and fin: "state pc = FINISHED \<longrightarrow> process_table st (current_pid st) = None"
      "\<And>b q. procs st b = Some q \<Longrightarrow> state q = FINISHED \<Longrightarrow> pid q = current_pid st \<Longrightarrow> b = c"
  shows "off c k st"
proof -
  have "kI {} {c} {} (\<lambda>_. 0) (saved c k st)"
    unfolding saved_def using I pc by (intro kI_upd [where p = pc]) auto
  then have "kI {} ({c} - {c}) {} (\<lambda>_. 0) (saved c k st)"
    by (rule kI_conts) (use pc k in \<open>auto simp: procs_saved\<close>)
  with pc fin show ?thesis unfolding off_def by simp
qed

lemma running_no_stale:
  assumes "process_table st (current_pid st) = Some c" "procs st c = Some p" "state p = ELECTED" "stale st"
    "procs st b = Some q" "state q = FINISHED"
  shows "pid q \<noteq> current_pid st"
  using assms unfolding stale_def by force

definition resumable :: "kstate \<Rightarrow> bool" where
  "resumable st \<longleftrightarrow> (\<exists>n p. running st n p \<and> ready st n p (cpu st))"

lemma block_current_elects:
  assumes c: "process_table st (current_pid st) = Some c" "procs st c = Some p" "state p = ELECTED"
    and I: "kI {c} {c} {} d st" and d: "sem_shift q 1 d = (\<lambda>_. 0)"
    and q: "place_ok st (p\<lparr>state := s\<rparr>) (Some q)" and s: "pid p = 0 \<longrightarrow> s = ACTIVABLE" "s \<noteq> FINISHED"
    and k: "cont_ok (enlink c q (upd c (state_update (\<lambda>_. s)) st)) c (p\<lparr>state := s, registers := k\<rparr>)"
  shows "\<exists>st' n p'. block_current s q k st = Inr st' \<and> running st' n p' \<and> ready st' n p' (cpu st') \<and>
    elected_max st' p' \<and> CR3 (mm st') = cr3 p' \<and> (\<exists>pc. procs st' c = Some pc \<and> registers pc = k)"
proof -
  let ?st1 = "upd c (state_update (\<lambda>_. s)) st" and ?st2 = "enlink c q (upd c (state_update (\<lambda>_. s)) st)"
  have h: "home (qs st) c = None" using I c(2) by (auto simp: kI_def dest: placesD)
  have ne: "s \<noteq> ELECTED" "s \<noteq> ZOMBIE" using q by (auto simp: place_ok_def)
  have pid: "pid p = current_pid st" using tab_pid [OF kID(2) [OF I] c(1,2)] by simp
  have "kI {c} {c} {} d ?st1"
    using I c s ne by (intro kI_upd [where p = p]) auto
  from kI_enlink [OF this, of c "p\<lparr>state := s\<rparr>" q] have I2: "kI {} {c} {} (\<lambda>_. 0) ?st2"
    using c q d by simp
  have "off c k ?st2"
  proof (rule off_intro [OF I2, of "p\<lparr>state := s\<rparr>"])
    show "b = c" if "procs ?st2 b = Some q'" "state q' = FINISHED" "pid q' = current_pid ?st2" for b q'
      using running_no_stale [OF c kID(6) [OF I], of b q'] that s(2) by (auto split: if_splits)
  qed (use c pid k s in simp_all)
  from scheduler_ok [OF this] obtain st' n p' where "scheduler k ?st2 = Inr st'" and
    r: "running st' n p'" "ready st' n p' (cpu st')" "elected_max st' p'" "CR3 (mm st') = cr3 p'"
    and "\<forall>pc. procs ?st2 c = Some pc \<longrightarrow> (\<exists>pc'. procs st' c = Some pc' \<and> registers pc' = k)" by blast
  then have "block_current s q k st = Inr st'" "\<exists>pc. procs st' c = Some pc \<and> registers pc = k"
    using c h by (auto simp: block_current_def tbl_def set_state_and_queue_def kq_add_enlink)
  with r show ?thesis by blast
qed

lemma block_current_ok:
  assumes c: "process_table st (current_pid st) = Some c" "procs st c = Some p" "state p = ELECTED"
    and I: "kI {c} {c} {} d st" and d: "sem_shift q 1 d = (\<lambda>_. 0)"
    and q: "place_ok st (p\<lparr>state := s\<rparr>) (Some q)" and s: "pid p = 0 \<longrightarrow> s = ACTIVABLE" "s \<noteq> FINISHED"
    and k: "cont_ok (enlink c q (upd c (state_update (\<lambda>_. s)) st)) c (p\<lparr>state := s, registers := k\<rparr>)"
  shows "\<exists>st'. block_current s q k st = Inr st' \<and> resumable st'"
  using block_current_elects [OF assms] unfolding resumable_def by blast

lemma yield_block: "yield_to_scheduler k st = block_current ACTIVABLE Q_activable k st"
  by (simp add: yield_to_scheduler_def block_current_def activate_def)

lemma yield_ok:
  assumes c: "process_table st (current_pid st) = Some c" "procs st c = Some p" "state p = ELECTED"
    and I: "kI {c} {c} {} (\<lambda>_. 0) st" and k: "k = K_tick \<or> (\<exists>v. k = K_return v)" "\<not> skip_message p"
  shows "\<exists>st'. yield_to_scheduler k st = Inr st' \<and> resumable st'"
  unfolding yield_block
  by (rule block_current_ok [OF c I]) (use k in \<open>auto simp: place_ok_home cont_ok_def ready_def\<close>)

lemma yield_elects:
  assumes c: "process_table st (current_pid st) = Some c" "procs st c = Some p" "state p = ELECTED"
    and I: "kI {c} {c} {} (\<lambda>_. 0) st" and k: "k = K_tick \<or> (\<exists>v. k = K_return v)" "\<not> skip_message p"
  shows "\<exists>st' n p'. yield_to_scheduler k st = Inr st' \<and> running st' n p' \<and> ready st' n p' (cpu st') \<and>
    elected_max st' p' \<and> CR3 (mm st') = cr3 p' \<and> (\<exists>pc. procs st' c = Some pc \<and> registers pc = k)"
  unfolding yield_block
  by (rule block_current_elects [OF c I]) (use k in \<open>auto simp: place_ok_home cont_ok_def ready_def\<close>)

section \<open>The end of a process\<close>

lemma wfq_table [simp]: "wfq (st\<lparr>process_table := t\<rparr>) = wfq st"
proof -
  have "prio_of (st\<lparr>process_table := t\<rparr>) = prio_of st" by (simp add: prio_of_def fun_eq_iff)
  then show ?thesis by (simp add: wfq_def)
qed

definition fin :: "int \<Rightarrow> addr \<Rightarrow> kstate \<Rightarrow> kstate" where
  "fin i a st = (enlink a Q_finished (upd a (state_update (\<lambda>_. FINISHED)) st))
     \<lparr>process_table := (process_table st)(i := None)\<rparr>"

lemma fin_simps [simp]:
  "procs (fin i a st) = (procs st)(a := map_option (state_update (\<lambda>_. FINISHED)) (procs st a))"
  "process_table (fin i a st) = (process_table st)(i := None)"
  "current_pid (fin i a st) = current_pid st"
  "home (qs (fin i a st)) = (home (qs st))(a := Some Q_finished)"
  "q \<noteq> Q_finished \<Longrightarrow> q_of q (fin i a st) = q_of q st"
  "sems (fin i a st) = sems st"
  "semaphore_table (fin i a st) = semaphore_table st"
  "mqs (fin i a st) = mqs st"
  "queue_table (fin i a st) = queue_table st"
  "brk (fin i a st) = brk st"
  "place_ok (fin i a st) = place_ok st"
  by (simp_all add: fin_def, simp add: place_ok_def fun_eq_iff split: State.splits)

lemma finish_fatherless_fin:
  "process_table st i = Some a \<Longrightarrow> home (qs st) a = None \<Longrightarrow> finish_fatherless i st = Inr (fin i a st)"
  by (simp add: finish_fatherless_def tbl_def set_state_and_queue_def kq_add_enlink fin_def)

lemma family_fin:
  assumes F: "family C st" and T: "tab st" and a: "process_table st i = Some a" "procs st a = Some p" "ended p"
    and ch: "i \<in> C \<or> father_pid p = -1" and self: "father_pid p \<noteq> i"
  shows "family (C - {i}) (fin i a st)"
proof -
  have pid: "pid p = i" using tab_pid [OF T a(1,2)] by simp
  have oth: "child_of (fin i a st) f c \<longleftrightarrow> child_of st f c" if "c \<noteq> i" for f c
  proof -
    have "process_table st c \<noteq> Some a" using that T a pid by (auto dest: tab_pid)
    then show ?thesis using that by (auto simp: child_of_def)
  qed
  show ?thesis
    unfolding family_def
  proof (intro conjI allI impI)
    fix b q assume b: "procs (fin i a st) b = Some q" "\<not> ended q"
    then have bq: "procs st b = Some q" by (auto simp: ended_def split: if_splits)
    from F bq b have D: "distinct (children q)" and E: "\<And>c. c \<in> set (children q) \<longleftrightarrow> child_of st (pid q) c \<and> c \<notin> C"
      unfolding family_def by auto
    show "distinct (children q)" by (rule D)
    have "process_table st (pid q) = Some b" using T bq b(2) by (auto simp: ended_def dest: tabD')
    then have "0 \<le> pid q" using tabD [OF T] by blast
    then have ni: "i \<notin> set (children q)" using E [of i] ch a by (auto simp: child_of_def)
    show "c \<in> set (children q) \<longleftrightarrow> child_of (fin i a st) (pid q) c \<and> c \<notin> C - {i}" for c
    proof (cases "c = i")
      case True
      with ni show ?thesis by (simp add: child_of_def)
    next
      case False
      with E [of c] oth show ?thesis by simp
    qed
  next
    fix b q assume b: "procs (fin i a st) b = Some q" "state q \<noteq> FINISHED" "pid q \<noteq> 0" "father_pid q \<noteq> -1" "pid q \<notin> C - {i}"
    then have bq: "procs st b = Some q" and ba: "b \<noteq> a" using a(2) by (auto split: if_splits)
    have "pid q \<noteq> i" using T bq b(2) a(1) ba by (auto dest: tabD')
    with F bq b obtain f r where f: "process_table st (father_pid q) = Some f" "procs st f = Some r" "\<not> ended r"
      unfolding family_def by blast
    with a have "f \<noteq> a" by auto
    with f a pid T have "father_pid q \<noteq> i" by auto
    with f \<open>f \<noteq> a\<close> show "\<exists>f r. process_table (fin i a st) (father_pid q) = Some f \<and>
        procs (fin i a st) f = Some r \<and> \<not> ended r" by simp
  qed
qed

text \<open>The idle process is still there when no other process loses its place.\<close>

lemma idle_ok_other:
  assumes "idle_ok X st" "process_table st' 0 = process_table st 0"
    and "\<And>z r. process_table st 0 = Some z \<Longrightarrow> procs st z = Some r \<Longrightarrow> state r = ACTIVABLE \<or> z \<in> X \<and> state r = ELECTED \<Longrightarrow>
      \<exists>r'. procs st' z = Some r' \<and> (state r' = ACTIVABLE \<or> z \<in> X' \<and> state r' = ELECTED)"
  shows "idle_ok X' st'"
  using assms unfolding idle_ok_def by metis

lemma wfq_fin:
  assumes "wfq st" "home (qs st) a = None" "procs st a = Some p"
  shows "wfq (fin i a st)"
proof -
  have "wfq (enlink a Q_finished (upd a (state_update (\<lambda>_. FINISHED)) st))"
    using assms by (intro wfq_enlink wfq_upd) simp_all
  then show ?thesis unfolding fin_def by simp
qed

lemma tab_fin:
  assumes T: "tab st" and a: "process_table st i = Some a" "procs st a = Some p"
  shows "tab (fin i a st)"
  unfolding tab_def
proof (intro conjI allI impI)
  have pid: "pid p = i" using tab_pid [OF T a] by simp
  fix j b assume j: "process_table (fin i a st) j = Some b"
  then have jb: "process_table st j = Some b" "j \<noteq> i" by (auto split: if_splits)
  with T a pid have "b \<noteq> a" by (auto dest: tab_pid)
  with tabD [OF T jb(1)] show "0 \<le> j" "j < int NBPROC"
    "\<exists>q. procs (fin i a st) b = Some q \<and> pid q = j \<and> state q \<noteq> FINISHED" by auto
next
  fix b q assume b: "procs (fin i a st) b = Some q" "state q \<noteq> FINISHED"
  then have bq: "procs st b = Some q" "b \<noteq> a" using a by (auto split: if_splits)
  from tabD' [OF T bq(1) b(2)] have t: "process_table st (pid q) = Some b" .
  with bq a have "pid q \<noteq> i" by auto
  with t show "process_table (fin i a st) (pid q) = Some b" by simp
qed

lemma stale_fin:
  assumes T: "tab st" and S: "stale st" and a: "process_table st i = Some a" "procs st a = Some p"
  shows "stale (fin i a st)"
  unfolding stale_def
proof (intro allI impI)
  have pid: "pid p = i" using tab_pid [OF T a] by simp
  fix b q e r
  assume b: "procs (fin i a st) b = Some q" "state q = FINISHED" "process_table (fin i a st) (pid q) = Some e"
    "procs (fin i a st) e = Some r"
  then have e: "process_table st (pid q) = Some e" "pid q \<noteq> i" by (auto split: if_splits)
  then have "b \<noteq> a" using b(1) a(2) pid by auto
  moreover have "e \<noteq> a" using e a pid T by (auto dest: tab_pid)
  ultimately show "state r = ACTIVABLE \<or> state r = ZOMBIE"
    using S b e(1) unfolding stale_def by (metis fin_simps(1) fun_upd_apply)
qed

lemma places_fin:
  assumes P: "places X st" and a: "procs st a = Some p" "a \<notin> X"
  shows "places X (fin i a st)"
proof (rule placesI)
  fix b q assume "procs (fin i a st) b = Some q" "b \<in> X"
  with a placesD(1) [OF P] show "home (qs (fin i a st)) b = None \<and> state q \<noteq> FINISHED"
    by (auto split: if_splits)
next
  fix b q assume b: "procs (fin i a st) b = Some q" "b \<notin> X"
  with a placesD(2) [OF P, of b q]
  show "state q \<noteq> ELECTED \<and> place_ok (fin i a st) q (home (qs (fin i a st)) b)"
    by (cases "b = a") (auto simp: place_ok_home)
qed

lemma conts_fin:
  assumes K: "conts Y st" and a: "process_table st i = Some a" "procs st a = Some p" "state p = ZOMBIE"
    and father: "\<And>b q. procs st b = Some q \<Longrightarrow> \<not> ended q \<Longrightarrow> b \<notin> Y \<Longrightarrow> pid q \<noteq> father_pid p"
  shows "conts Y (fin i a st)"
proof (rule conts_mono [OF K])
  show "home (qs (fin i a st)) b = home (qs st) b" if "procs st b = Some q" "\<not> ended q" for b q
    using that a by (auto simp: ended_def)
  fix b q assume b: "procs st b = Some q" "b \<notin> Y" "\<not> ended q"
  from father [OF b(1,3,2)] have nf: "pid q \<noteq> father_pid p" .
  show "\<exists>r'. procs (fin i a st) e = Some r' \<and> state r' \<noteq> FINISHED \<and> pid r' \<noteq> 0 \<and> father_pid r' = pid q \<and> \<not> skip_message r'"
    if "procs st e = Some r" "state r \<noteq> FINISHED" "pid r \<noteq> 0" "father_pid r = pid q" "\<not> skip_message r" for e r
    using that nf a by (cases "e = a") auto
  show "zombie_child (fin i a st) (pid q) c" if "zombie_child st (pid q) c" for c
  proof -
    from that obtain e r where e: "c \<noteq> 0" "process_table st c = Some e" "procs st e = Some r" "state r = ZOMBIE"
      "father_pid r = pid q" unfolding zombie_child_def by blast
    then have "e \<noteq> a" "c \<noteq> i" using nf a by auto
    with e show ?thesis unfolding zombie_child_def by simp
  qed
qed (use a in \<open>auto simp: ended_def split: if_splits\<close>)

lemma kI_fin:
  assumes I: "kI X Y C d st" and a: "process_table st i = Some a" "procs st a = Some p" "state p = ZOMBIE" "a \<notin> X"
    and i: "i \<noteq> 0" and ch: "i \<in> C \<or> father_pid p = -1" and self: "father_pid p \<noteq> i"
    and father: "\<And>b q. procs st b = Some q \<Longrightarrow> \<not> ended q \<Longrightarrow> b \<notin> Y \<Longrightarrow> pid q \<noteq> father_pid p"
  shows "kI X Y (C - {i}) d (fin i a st)"
proof -
  note T = kID(2) [OF I]
  have "home (qs st) a = None"
    using placesD(2) [OF kID(3) [OF I] a(2,4)] a(3) by (auto simp: place_ok_def)
  from wfq_fin [OF kID(1) [OF I] this a(2)] have "wfq (fin i a st)" .
  moreover have "family (C - {i}) (fin i a st)"
    using family_fin [OF kID(4) [OF I] T a(1,2) _ ch self] a(3) by (simp add: ended_def)
  moreover have "idle_ok X (fin i a st)" using i a(2-4) by (intro idle_ok_other [OF kID(5) [OF I]]) auto
  moreover have "sem_inv d (fin i a st)"
    by (rule sem_inv_length [OF kID(7) [OF I]]) simp_all
  moreover have "mq_inv (fin i a st)" "fresh (fin i a st)"
    using kID(8,9) [OF I] a by (auto simp: mq_inv_def fresh_def)
  ultimately show ?thesis
    using tab_fin [OF T a(1,2)] places_fin [OF kID(3) [OF I] a(2,4)] stale_fin [OF T kID(6) [OF I] a(1,2)]
      conts_fin [OF kID(10) [OF I] a(1-3) father] by (simp add: kI_def)
qed

lemma family_zombie:
  assumes F: "family {} st" and T: "tab st" and a: "procs st a = Some p" "\<not> ended p"
  shows "family (set (children p)) (upd a (state_update (\<lambda>_. ZOMBIE)) st)" (is "family _ ?st")
proof -
  have tp: "process_table st (pid p) = Some a" using tabD' [OF T a(1)] a(2) by (simp add: ended_def)
  have ch: "c \<in> set (children p) \<longleftrightarrow> child_of st (pid p) c" for c
    using F a unfolding family_def by auto
  have co: "child_of ?st = child_of st" using a by (intro child_of_upd) simp_all
  show ?thesis
    unfolding family_def co
  proof (intro conjI allI impI)
    fix b q assume b: "procs ?st b = Some q" "\<not> ended q"
    then have bq: "procs st b = Some q" "b \<noteq> a" using a by (auto simp: ended_def split: if_splits)
    with F b have E: "distinct (children q)" "\<And>c. c \<in> set (children q) \<longleftrightarrow> child_of st (pid q) c"
      unfolding family_def by auto
    show "distinct (children q)" by fact
    have "pid q \<noteq> pid p" using tabD' [OF T bq(1)] b(2) tp bq(2) by (auto simp: ended_def)
    then show "c \<in> set (children q) \<longleftrightarrow> child_of st (pid q) c \<and> c \<notin> set (children p)" for c
      unfolding E(2) ch by (auto simp: child_of_def)
  next
    fix b q assume b: "procs ?st b = Some q" "state q \<noteq> FINISHED" "pid q \<noteq> 0" "father_pid q \<noteq> -1"
      "pid q \<notin> set (children p)"
    then obtain q0 where q0: "procs st b = Some q0" "state q0 \<noteq> FINISHED" "pid q0 = pid q" "father_pid q0 = father_pid q"
      using a by (cases "b = a") (auto simp: ended_def)
    with b(3,4) F obtain f r where f: "process_table st (father_pid q) = Some f" "procs st f = Some r" "\<not> ended r"
      unfolding family_def by (metis empty_iff)
    have "father_pid q = pid p" if "f = a" using tab_pid [OF T f(1,2)] f a that by simp
    then have "child_of st (pid p) (pid q)" if "f = a"
      using tabD' [OF T q0(1,2)] q0 b(3) that by (auto simp: child_of_def)
    with b(5) ch have "f \<noteq> a" by blast
    with f show "\<exists>f r. process_table ?st (father_pid q) = Some f \<and> procs ?st f = Some r \<and> \<not> ended r" by simp
  qed
qed

lemma kI_zombie:
  assumes I: "kI X Y {} d st" and a: "procs st a = Some p" "a \<in> X" "\<not> ended p" "pid p \<noteq> 0"
  shows "kI (X - {a}) (Y - {a}) (set (children p)) d (upd a (state_update (\<lambda>_. ZOMBIE)) st)"
    (is "kI _ _ _ _ ?st")
proof -
  note T = kID(2) [OF I]
  have h: "home (qs st) a = None" using placesD(1) [OF kID(3) [OF I] a(1,2)] by simp
  have "wfq ?st" by (rule wfq_upd [OF kID(1) [OF I]]) simp
  moreover have "tab ?st" using T a by (intro tab_upd [where p = p]) (auto simp: ended_def)
  moreover have "places (X - {a}) ?st"
  proof (rule placesI)
    fix b q assume "procs ?st b = Some q" "b \<in> X - {a}"
    with placesD(1) [OF kID(3) [OF I], of b q] show "home (qs ?st) b = None \<and> state q \<noteq> FINISHED" by simp
  next
    fix b q assume "procs ?st b = Some q" "b \<notin> X - {a}"
    with a h placesD(2) [OF kID(3) [OF I], of b q]
    show "state q \<noteq> ELECTED \<and> place_ok ?st q (home (qs ?st) b)"
      by (cases "b = a") (auto simp: place_ok_home)
  qed
  moreover have "idle_ok (X - {a}) ?st"
  proof (rule idle_ok_other [OF kID(5) [OF I]])
    fix z r assume z: "process_table st 0 = Some z" "procs st z = Some r" "state r = ACTIVABLE \<or> z \<in> X \<and> state r = ELECTED"
    then have "z \<noteq> a" using a tab_pid [OF T z(1), of r] by auto
    with z show "\<exists>r'. procs ?st z = Some r' \<and> (state r' = ACTIVABLE \<or> z \<in> X - {a} \<and> state r' = ELECTED)" by simp
  qed simp
  moreover have "stale ?st" using kID(6) [OF I] a by (intro stale_upd [where p = p]) (auto simp: ended_def)
  moreover have "sem_inv d ?st" by (rule sem_inv_length [OF kID(7) [OF I]]) simp_all
  moreover have "mq_inv ?st" "fresh ?st" using kID(8,9) [OF I] a by (auto simp: mq_inv_def fresh_def)
  moreover have "conts Y ?st"
  proof (rule conts_mono [OF kID(10) [OF I]])
    show "\<exists>r'. procs ?st e = Some r' \<and> state r' \<noteq> FINISHED \<and> pid r' \<noteq> 0 \<and> father_pid r' = pid q \<and> \<not> skip_message r'"
      if "procs st e = Some r" "state r \<noteq> FINISHED" "pid r \<noteq> 0" "father_pid r = pid q" "\<not> skip_message r" for e r q
      using that a by (cases "e = a") auto
    show "zombie_child ?st f c" if "zombie_child st f c" for f c
      using that a unfolding zombie_child_def by auto
  qed (use a in \<open>auto simp: ended_def split: if_splits\<close>)
  ultimately have *: "kI (X - {a}) Y (set (children p)) d ?st"
    using family_zombie [OF kID(4) [OF I] T a(1,3)] by (simp add: kI_def)
  show ?thesis by (rule kI_conts [OF *]) (use a in \<open>auto simp: cont_ok_def ended_def\<close>)
qed


section \<open>Orphans\<close>

lemma ready_eq:
  "pid p' = pid p \<Longrightarrow> skip_message p' = skip_message p \<Longrightarrow> waited_pid p' = waited_pid p \<Longrightarrow>
    ready st a p' k = ready st a p k"
  by (cases k) (simp_all add: ready_def)

lemma place_ok_eq:
  "state p' = state p \<Longrightarrow> waited_sem p' = waited_sem p \<Longrightarrow> place_ok st p' = place_ok st p"
  by (simp add: place_ok_def fun_eq_iff split: State.splits)

text \<open>A child that loses its father counts no more for the processes that are not its father.\<close>

lemma orphan_keeps_child:
  assumes "procs st b = Some q" "f \<noteq> father_pid q" "procs st e = Some r" "state r \<noteq> FINISHED" "pid r \<noteq> 0" "father_pid r = f"
    "\<not> skip_message r"
  shows "\<exists>r'. procs (upd b (father_pid_update (\<lambda>_. -1)) st) e = Some r' \<and> state r' \<noteq> FINISHED \<and> pid r' \<noteq> 0 \<and>
    father_pid r' = f \<and> \<not> skip_message r'"
  using assms by (cases "e = b") auto

lemma orphan_keeps_zombie:
  assumes "procs st b = Some q" "f \<noteq> father_pid q" "zombie_child st f e"
  shows "zombie_child (upd b (father_pid_update (\<lambda>_. -1)) st) f e"
proof -
  from assms(3) obtain g r where "e \<noteq> 0" "process_table st e = Some g" "procs st g = Some r" "state r = ZOMBIE" "father_pid r = f"
    unfolding zombie_child_def by blast
  moreover from this assms(1,2) have "g \<noteq> b" by auto
  ultimately show ?thesis unfolding zombie_child_def by simp
qed

lemma family_orphan:
  assumes F: "family C st" and T: "tab st" and c: "process_table st c = Some b" "procs st b = Some q" "c \<in> C"
  shows "family (C - {c}) (upd b (father_pid_update (\<lambda>_. -1)) st)" (is "family _ ?st")
  unfolding family_def
proof (intro conjI allI impI)
  have pid: "pid q = c" using tab_pid [OF T c(1,2)] by simp
  fix e r assume e: "procs ?st e = Some r" "\<not> ended r"
  then obtain r0 where r0: "procs st e = Some r0" "\<not> ended r0" "children r = children r0" "pid r = pid r0"
    using c by (cases "e = b") (auto simp: ended_def)
  with F have E: "distinct (children r)" "\<And>x. x \<in> set (children r) \<longleftrightarrow> child_of st (pid r) x \<and> x \<notin> C"
    unfolding family_def by auto
  show "distinct (children r)" by fact
  have "0 \<le> pid r" using tabD' [OF T r0(1)] r0 tabD [OF T] by (auto simp: ended_def)
  then have "\<not> child_of ?st (pid r) c" using c by (auto simp: child_of_def)
  moreover have "child_of ?st (pid r) x = child_of st (pid r) x" if "x \<noteq> c" for x
  proof -
    have "process_table st x \<noteq> Some b" using that tab_pid [OF T _ c(2), of x] pid by auto
    then show ?thesis by (auto simp: child_of_def)
  qed
  ultimately show "x \<in> set (children r) \<longleftrightarrow> child_of ?st (pid r) x \<and> x \<notin> C - {c}" for x
    using E(2) [of x] c(3) by (cases "x = c") auto
next
  fix e r assume e: "procs ?st e = Some r" "state r \<noteq> FINISHED" "pid r \<noteq> 0" "father_pid r \<noteq> -1" "pid r \<notin> C - {c}"
  then have r0: "procs st e = Some r" "e \<noteq> b" using c by (auto split: if_splits)
  have "pid r \<noteq> c" using tabD' [OF T r0(1) e(2)] r0(2) c(1) by auto
  with F r0 e obtain f s where f: "process_table st (father_pid r) = Some f" "procs st f = Some s" "\<not> ended s"
    unfolding family_def by blast
  then show "\<exists>f s. process_table ?st (father_pid r) = Some f \<and> procs ?st f = Some s \<and> \<not> ended s"
    using c by (cases "f = b") (auto simp: ended_def)
qed

lemma places_orphan:
  assumes "places X st" "procs st b = Some q"
  shows "places X (upd b (father_pid_update (\<lambda>_. -1)) st)" (is "places _ ?st")
proof (rule placesI)
  fix e r assume "procs ?st e = Some r" "e \<in> X"
  with placesD(1) [OF assms(1)] assms(2) show "home (qs ?st) e = None \<and> state r \<noteq> FINISHED"
    by (cases "e = b") auto
next
  fix e r assume "procs ?st e = Some r" "e \<notin> X"
  then obtain r0 where "procs st e = Some r0" "e \<notin> X" "state r = state r0" "waited_sem r = waited_sem r0"
    using assms(2) by (cases "e = b") auto
  with placesD(2) [OF assms(1)] place_ok_eq [of r r0 st] show "state r \<noteq> ELECTED \<and> place_ok ?st r (home (qs ?st) e)" by simp
qed

text \<open>The orphan's own continuation is still in order.\<close>

lemma cont_ok_orphan:
  assumes q: "procs st b = Some q" "cont_ok st b q" and self: "\<not> ended q \<Longrightarrow> pid q \<noteq> father_pid q"
  shows "cont_ok (upd b (father_pid_update (\<lambda>_. -1)) st) b (q\<lparr>father_pid := -1\<rparr>)" (is "cont_ok ?st _ _")
proof (cases "ended q \<or> state q \<noteq> ACTIVABLE")
  case True
  with q(2) show ?thesis by (auto simp: cont_ok_def ended_def blocked_ok_def split: State.splits)
next
  case act: False
  with q(2) have "ready st b q (registers q)" by (simp add: cont_ok_def)
  moreover have "pid q \<noteq> father_pid q" using self act by blast
  ultimately have "ready ?st b q (registers q)"
    by (intro ready_mono [of st b q "registers q" ?st])
      (use orphan_keeps_child [OF q(1)] orphan_keeps_zombie [OF q(1)] in \<open>auto simp del: upd_simps(1)\<close>)
  with act show ?thesis by (simp add: cont_ok_def ready_eq [of "q\<lparr>father_pid := -1\<rparr>" q])
qed

lemma kI_orphan:
  assumes I: "kI X Y C d st" and c: "process_table st c = Some b" "procs st b = Some q" "c \<in> C"
    and father: "\<And>e r. procs st e = Some r \<Longrightarrow> \<not> ended r \<Longrightarrow> e \<notin> Y \<Longrightarrow> pid r \<noteq> father_pid q"
  shows "kI X Y (C - {c}) d (upd b (father_pid_update (\<lambda>_. -1)) st)" (is "kI _ _ _ _ ?st")
proof -
  note T = kID(2) [OF I]
  have "conts (insert b Y) ?st"
    by (rule conts_mono [OF kID(10) [OF I]])
      (use c father orphan_keeps_child [OF c(2)] orphan_keeps_zombie [OF c(2)] in \<open>auto split: if_splits\<close>)
  moreover have "wfq ?st" by (rule wfq_upd [OF kID(1) [OF I]]) simp
  moreover have "tab ?st" using T c by (intro tab_upd [where p = q]) auto
  moreover have "idle_ok X ?st" by (intro idle_ok_other [OF kID(5) [OF I]]) auto
  moreover have "stale ?st" using kID(6) [OF I] c by (intro stale_upd [where p = q]) auto
  moreover have "sem_inv d ?st" by (rule sem_inv_length [OF kID(7) [OF I]]) simp_all
  moreover have "mq_inv ?st" "fresh ?st" using kID(8,9) [OF I] c by (auto simp: mq_inv_def fresh_def)
  ultimately have J: "kI X (insert b Y) (C - {c}) d ?st"
    using family_orphan [OF kID(4) [OF I] T c] places_orphan [OF kID(3) [OF I] c(2)] by (simp add: kI_def)
  show ?thesis
  proof (cases "b \<in> Y")
    case True
    with J show ?thesis by (simp add: insert_absorb)
  next
    case False
    have "cont_ok ?st b (q\<lparr>father_pid := -1\<rparr>)"
      by (rule cont_ok_orphan [OF c(2) kI_cont_ok [OF I c(2) False]]) (use father [OF c(2) _ False] in blast)
    with kI_conts [OF J, of b] c(2) False show ?thesis by simp
  qed
qed


text \<open>
  What the end of a process may do to the others: nothing, except that zombies may be
  finished, their pid being released.
\<close>

definition buried :: "kstate \<Rightarrow> kstate \<Rightarrow> bool" where
  "buried st st' \<longleftrightarrow> current_pid st' = current_pid st \<and>
     (\<forall>i. process_table st' i = process_table st i \<or> process_table st' i = None) \<and>
     (\<forall>a. procs st a = None \<longrightarrow> procs st' a = None) \<and>
     (\<forall>a p. procs st a = Some p \<longrightarrow> (\<exists>p'. procs st' a = Some p' \<and> pid p' = pid p \<and>
        registers p' = registers p \<and> skip_message p' = skip_message p \<and>
        (state p' = state p \<or> state p = ZOMBIE \<and> state p' = FINISHED \<and> process_table st' (pid p) = None)))"

lemma buried_refl: "buried st st"
  by (simp add: buried_def)

lemma buriedD:
  assumes "buried st st'" "procs st a = Some p"
  obtains p' where "procs st' a = Some p'" "pid p' = pid p" "registers p' = registers p"
    "skip_message p' = skip_message p"
    "state p' = state p \<or> state p = ZOMBIE \<and> state p' = FINISHED \<and> process_table st' (pid p) = None"
  using assms unfolding buried_def by blast

lemma buried_trans:
  assumes A: "buried st st1" and B: "buried st1 st2" shows "buried st st2"
  unfolding buried_def
proof (intro conjI allI impI)
  show "current_pid st2 = current_pid st" using A B by (simp add: buried_def)
  show "process_table st2 i = process_table st i \<or> process_table st2 i = None" for i
    using A B unfolding buried_def by metis
  show "procs st2 a = None" if "procs st a = None" for a using A B that by (simp add: buried_def)
  fix a p assume p: "procs st a = Some p"
  from A p obtain p1 where p1: "procs st1 a = Some p1" "pid p1 = pid p" "registers p1 = registers p"
    "skip_message p1 = skip_message p"
    "state p1 = state p \<or> state p = ZOMBIE \<and> state p1 = FINISHED \<and> process_table st1 (pid p) = None"
    by (rule buriedD)
  from B p1(1) obtain p2 where p2: "procs st2 a = Some p2" "pid p2 = pid p1" "registers p2 = registers p1"
    "skip_message p2 = skip_message p1"
    "state p2 = state p1 \<or> state p1 = ZOMBIE \<and> state p2 = FINISHED \<and> process_table st2 (pid p1) = None"
    by (rule buriedD)
  have "process_table st2 (pid p) = None" if "process_table st1 (pid p) = None"
    using B that unfolding buried_def by metis
  with p1 p2 show "\<exists>p'. procs st2 a = Some p' \<and> pid p' = pid p \<and> registers p' = registers p \<and>
      skip_message p' = skip_message p \<and>
      (state p' = state p \<or> state p = ZOMBIE \<and> state p' = FINISHED \<and> process_table st2 (pid p) = None)"
    by auto
qed

lemma buried_fin:
  assumes "procs st a = Some p" "pid p = i" "state p = ZOMBIE"
  shows "buried st (fin i a st)"
  using assms by (auto simp: buried_def)

lemma buried_orphan: "buried st (upd b (father_pid_update f) st)"
  by (auto simp: buried_def)

text \<open>
  One round of the loop: the child \<open>c\<close> at \<open>b\<close> loses its father, and is finished if it is a zombie;
  only it changes.
\<close>

lemma orphan_round:
  assumes I: "kI X Y (insert c C) d st" "c \<notin> C" and b: "c \<noteq> 0" "process_table st c = Some b" "procs st b = Some q"
    and father: "\<And>e r. procs st e = Some r \<Longrightarrow> \<not> ended r \<Longrightarrow> pid r \<noteq> father_pid q"
    and X: "b \<in> X \<Longrightarrow> state q \<noteq> ZOMBIE"
  defines "st1 \<equiv> upd b (father_pid_update (\<lambda>_. -1)) st"
  shows "\<exists>st2. (if state q = ZOMBIE then finish_fatherless c st1 else Inr st1) = Inr st2 \<and> kI X Y C d st2 \<and> buried st st2 \<and>
    (\<forall>e. e \<noteq> b \<longrightarrow> procs st2 e = procs st e) \<and> (\<forall>i. i \<noteq> c \<longrightarrow> process_table st2 i = process_table st i) \<and>
    (\<exists>r. procs st2 b = Some r \<and> pid r = c \<and> (state r = state q \<or> state r = FINISHED))"
proof -
  let ?q = "q\<lparr>father_pid := -1\<rparr>"
  have q1: "procs st1 b = Some ?q" using b by (simp add: st1_def)
  have pid: "pid q = c" using tab_pid [OF kID(2) [OF I(1)] b(2,3)] by simp
  have "kI X Y (insert c C - {c}) d st1"
    unfolding st1_def using I(1) b(2,3) by (rule kI_orphan) (use father in auto)
  with I(2) have I1: "kI X Y C d st1" by simp
  have bur: "buried st st1" unfolding st1_def by (rule buried_orphan)
  show ?thesis
  proof (cases "state q = ZOMBIE")
    case True
    then have bX: "b \<notin> X" using X by blast
    have h: "home (qs st1) b = None"
      using placesD(2) [OF kID(3) [OF I1] q1 bX] True by (simp add: place_ok_def)
    have "kI X Y (C - {c}) d (fin c b st1)"
      by (rule kI_fin [OF I1 _ q1]) (use b True bX kID(2) [OF I1] tabD' tabD in \<open>fastforce simp: ended_def st1_def\<close>)+
    moreover have "finish_fatherless c st1 = Inr (fin c b st1)" using b h by (simp add: finish_fatherless_fin st1_def)
    moreover have "buried st1 (fin c b st1)" by (rule buried_fin [OF q1]) (simp_all add: pid True)
    ultimately show ?thesis using b pid True I(2) buried_trans [OF bur] by (auto simp: st1_def)
  next
    case False
    then show ?thesis using I1 b pid bur by (auto simp: st1_def)
  qed
qed

lemma orphan_loop_ok:
  assumes "kI X Y (set cs) d st" "distinct cs"
    and "\<And>c. c \<in> set cs \<Longrightarrow> \<exists>b q. c \<noteq> 0 \<and> process_table st c = Some b \<and> procs st b = Some q \<and> father_pid q = f"
    and "\<And>e r. procs st e = Some r \<Longrightarrow> \<not> ended r \<Longrightarrow> pid r \<noteq> f"
    and "\<And>a p. a \<in> X \<Longrightarrow> procs st a = Some p \<Longrightarrow> state p \<noteq> ZOMBIE"
  shows "\<exists>st'. orphan_loop cs st = Inr st' \<and> kI X Y {} d st' \<and> buried st st'"
  using assms
proof (induction cs arbitrary: st)
  case Nil
  then show ?case by (simp add: buried_refl)
next
  case (Cons c cs)
  from Cons.prems(3) [of c] obtain b q where b: "c \<noteq> 0" "process_table st c = Some b" "procs st b = Some q" "father_pid q = f"
    by auto
  have pid: "pid q = c" using tab_pid [OF kID(2) [OF Cons.prems(1)] b(2,3)] by simp
  have "kI X Y (insert c (set cs)) d st" "c \<notin> set cs" using Cons.prems(1,2) by simp_all
  from orphan_round [OF this b(1-3)] b(3,4) Cons.prems(4,5) obtain st2 where
    z: "(if state q = ZOMBIE then finish_fatherless c (upd b (father_pid_update (\<lambda>_. -1)) st)
       else Inr (upd b (father_pid_update (\<lambda>_. -1)) st)) = Inr st2" and I2: "kI X Y (set cs) d st2" and bur: "buried st st2"
    and oth: "\<And>e. e \<noteq> b \<Longrightarrow> procs st2 e = procs st e" "\<And>i. i \<noteq> c \<Longrightarrow> process_table st2 i = process_table st i"
    and b2: "\<exists>r. procs st2 b = Some r \<and> pid r = c \<and> (state r = state q \<or> state r = FINISHED)"
    by blast
  have "\<exists>st'. orphan_loop cs st2 = Inr st' \<and> kI X Y {} d st' \<and> buried st2 st'"
  proof (rule Cons.IH [OF I2])
    show "distinct cs" using Cons.prems(2) by simp
    show "\<exists>b q. x \<noteq> 0 \<and> process_table st2 x = Some b \<and> procs st2 b = Some q \<and> father_pid q = f" if "x \<in> set cs" for x
    proof -
      have "x \<noteq> c" using that Cons.prems(2) by auto
      from Cons.prems(3) [of x] that obtain e r where e: "x \<noteq> 0" "process_table st x = Some e" "procs st e = Some r" "father_pid r = f"
        by auto
      with \<open>x \<noteq> c\<close> b pid tab_pid [OF kID(2) [OF Cons.prems(1)], of x e] have "e \<noteq> b" by auto
      with e oth \<open>x \<noteq> c\<close> show ?thesis by auto
    qed
    show "pid r \<noteq> f" if "procs st2 e = Some r" "\<not> ended r" for e r
      using that Cons.prems(4) [of e r] Cons.prems(4) [OF b(3)] b2 oth(1) [of e] pid
      by (cases "e = b") (auto simp: ended_def)
    show "state p \<noteq> ZOMBIE" if "a \<in> X" "procs st2 a = Some p" for a p
      using that Cons.prems(5) [of a] b2 oth(1) [of a] b(3) by (cases "a = b") auto
  qed
  then obtain st' where "orphan_loop cs st2 = Inr st'" "kI X Y {} d st'" "buried st2 st'" by blast
  moreover have "orphan_loop (c # cs) st = orphan_loop cs st2"
    using b z by (simp add: tbl_def deref_def Let_def)
  ultimately show ?case using buried_trans [OF bur] by auto
qed


section \<open>Waking the father\<close>

lemma kI_waiting_home:
  assumes "kI X Y C d st" "a \<in> set (q_of Q_waiting_pid st)"
  shows "\<exists>p. procs st a = Some p \<and> state p = WAITING_PID \<and> a \<notin> X \<and> home (qs st) a = Some Q_waiting_pid"
proof -
  have h: "home (qs st) a = Some Q_waiting_pid" using assms kI_qwf [OF assms(1)] by (simp add: qwf_home)
  then obtain p where p: "procs st a = Some p" using kID(1) [OF assms(1)] unfolding wfq_def by blast
  have "a \<notin> X" using placesD(1) [OF kID(3) [OF assms(1)] p] h by auto
  with placesD(2) [OF kID(3) [OF assms(1)] p] h p show ?thesis by (auto simp: place_ok_home)
qed

text \<open>
  The father that waits for a given child is woken by that child only. The kernel does not
  check it (see \<open>waitpid_wrong_child\<close>), so it is a hypothesis on the call that ends a process.
\<close>

definition awaited :: "kstate \<Rightarrow> int \<Rightarrow> int \<Rightarrow> bool" where
  "awaited st f i \<longleftrightarrow> (\<forall>w p j r. procs st w = Some p \<longrightarrow> pid p = f \<longrightarrow> state p = WAITING_PID \<longrightarrow>
     registers p = K_waitpid j r \<longrightarrow> j = i)"

lemma awake_father_ok:
  assumes I: "kI X Y C d st" and a: "process_table st i = Some a" "procs st a = Some p" "state p = ZOMBIE"
    and i: "i \<noteq> 0" and g: "awaited st (father_pid p) i"
  shows "\<exists>st'. awake_father i st = Inr st' \<and> kI X Y C d st' \<and> process_table st' = process_table st \<and>
    current_pid st' = current_pid st \<and>
    (\<forall>b. procs st' b = procs st b \<or> (\<exists>w. procs st b = Some w \<and> state w = WAITING_PID \<and>
       procs st' b = Some (w\<lparr>waited_pid := i, state := ACTIVABLE\<rparr>)))"
proof (cases "List.find (pid_is st (father_pid p)) (q_of Q_waiting_pid st)")
  case None
  then have "awake_father i st = Inr st" using a by (simp add: awake_father_def tbl_def deref_def)
  with I show ?thesis by auto
next
  case (Some w)
  from find_SomeD [OF Some] have w: "w \<in> set (q_of Q_waiting_pid st)" "pid_is st (father_pid p) w" by auto
  from kI_waiting_home [OF I w(1)] obtain r where r: "procs st w = Some r" "state r = WAITING_PID" "w \<notin> X"
    "home (qs st) w = Some Q_waiting_pid" by blast
  have pid: "pid r = father_pid p" using w(2) r(1) by (simp add: pid_is_def)
  let ?st1 = "unlink w st" and ?f = "waited_pid_update (\<lambda>_. i)"
  let ?st2 = "upd w ?f ?st1"
  let ?st3 = "enlink w Q_activable (upd w (state_update (\<lambda>_. ACTIVABLE)) ?st2)"
  have I1: "kI (insert w X) (insert w Y) C d ?st1" using kI_unlink [OF I r(4)] by simp
  have I2: "kI (insert w X) (insert w Y) C d ?st2"
    using I1 r by (intro kI_upd [where p = r]) auto
  have "kI (insert w X - {w}) (insert w Y) C d ?st3"
    using I2 r by (intro kI_activate [where p = "?f r"]) (auto simp: ended_def)
  then have I3: "kI X (insert w Y) C d ?st3" using r(3) by simp
  have "kI X Y C d ?st3"
  proof (cases "w \<in> Y")
    case True
    with I3 show ?thesis by (simp add: insert_absorb)
  next
    case False
    have "w \<noteq> a" using r a by auto
    then have z: "zombie_child ?st3 (pid r) i" using a i pid by (auto simp: zombie_child_def)
    from kI_cont_ok [OF I r(1) False] r(2) have "blocked_ok st w r" by (simp add: cont_ok_def ended_def)
    then have "cont_ok ?st3 w (r\<lparr>waited_pid := i, state := ACTIVABLE\<rparr>)"
      using r(2) z g pid r(1) by (auto simp: cont_ok_def ready_def blocked_ok_def awaited_def)
    with kI_conts [OF I3, of w] r(1) False show ?thesis by simp
  qed
  moreover have "awake_father i st = Inr ?st3"
  proof -
    have "kq_del w st = Inr ?st1" by (rule kq_del_unlink [OF kI_qwf [OF I] r(4)])
    moreover have "activate w ?st2 = Inr ?st3" by (rule activate_eq) simp
    moreover have "q_of Q_waiting_pid st \<noteq> []" using w(1) by auto
    ultimately show ?thesis using Some a by (simp add: awake_father_def tbl_def deref_def)
  qed
  ultimately show ?thesis using r by auto
qed

section \<open>\<^verbatim>\<open>__process_end\<close>\<close>

text \<open>The state of \<^verbatim>\<open>__process_end\<close> after its loop, before it calls the scheduler.\<close>

lemma upd_state_twice:
  "upd a (state_update (\<lambda>_. s)) (upd a (state_update (\<lambda>_. t)) st) = upd a (state_update (\<lambda>_. s)) st"
  by (simp add: upd_def option.map_comp comp_def)

lemma fin_zombie_eq: "fin i a (upd a (state_update (\<lambda>_. ZOMBIE)) st) = fin i a st"
  by (simp add: fin_def upd_state_twice)

text \<open>
  The first half: the process \<open>a\<close> of number \<open>i\<close> becomes a zombie and wakes its father, or is finished
  when it has none. Of the others only a waiting father changes.
\<close>

definition passed_away :: "int \<Rightarrow> addr \<Rightarrow> Process \<Rightarrow> kstate \<Rightarrow> kstate \<Rightarrow> bool" where
  "passed_away i a p st st1 \<longleftrightarrow> current_pid st1 = current_pid st \<and>
     (\<exists>p1. procs st1 a = Some p1 \<and> pid p1 = i \<and> ended p1 \<and> children p1 = children p \<and> father_pid p1 = father_pid p \<and>
        (state p1 = FINISHED \<longrightarrow> process_table st1 i = None)) \<and>
     (father_pid p \<noteq> -1 \<longrightarrow> process_table st1 = process_table st) \<and>
     (\<forall>j. j \<noteq> i \<longrightarrow> process_table st1 j = process_table st j) \<and>
     (\<forall>b. b \<noteq> a \<longrightarrow> procs st1 b = procs st b \<or> (\<exists>w. procs st b = Some w \<and> state w = WAITING_PID \<and>
         procs st1 b = Some (w\<lparr>waited_pid := i, state := ACTIVABLE\<rparr>)))"

lemma passed_away_other:
  assumes "passed_away i a p st st1" "procs st1 b = Some q" "b \<noteq> a"
  shows "\<exists>w. procs st b = Some w \<and> pid w = pid q \<and> father_pid w = father_pid q \<and> (ended w \<longleftrightarrow> ended q) \<and>
    (state w = FINISHED \<longleftrightarrow> state q = FINISHED) \<and> (state w = ELECTED \<longrightarrow> w = q)"
  using assms by (auto simp: passed_away_def ended_def dest!: spec [of _ b])

lemma passed_away_kept:
  assumes "passed_away i a p st st1" "procs st b = Some w" "b \<noteq> a"
  shows "\<exists>q. procs st1 b = Some q \<and> pid w = pid q \<and> father_pid w = father_pid q \<and> (state w = ELECTED \<longrightarrow> w = q)"
  using assms by (auto simp: passed_away_def dest!: spec [of _ b])

lemma passed_away_zombie:
  assumes Iz: "kI X Y C d (upd a (state_update (\<lambda>_. ZOMBIE)) st)"
    and a: "process_table st i = Some a" "procs st a = Some p" "pid p = i" "i \<noteq> 0" "father_pid p \<noteq> -1" "\<not> ended p"
    and g: "awaited st (father_pid p) i"
  shows "\<exists>st1. awake_father i (upd a (state_update (\<lambda>_. ZOMBIE)) st) = Inr st1 \<and> kI X Y C d st1 \<and> passed_away i a p st st1"
proof -
  let ?z = "upd a (state_update (\<lambda>_. ZOMBIE)) st"
  have "awaited ?z (father_pid p) i" using g a(2) by (auto simp: awaited_def split: if_splits)
  with awake_father_ok [OF Iz, of i a "p\<lparr>state := ZOMBIE\<rparr>"] a
  obtain st1 where st1: "awake_father i ?z = Inr st1" "kI X Y C d st1"
    "process_table st1 = process_table st" "current_pid st1 = current_pid st"
    and ch: "\<And>b. procs st1 b = procs ?z b \<or> (\<exists>w. procs ?z b = Some w \<and> state w = WAITING_PID \<and>
       procs st1 b = Some (w\<lparr>waited_pid := i, state := ACTIVABLE\<rparr>))" by auto
  have "procs st1 a = Some (p\<lparr>state := ZOMBIE\<rparr>)" using ch [of a] a(2) by auto
  moreover have "procs st1 b = procs st b \<or> (\<exists>w. procs st b = Some w \<and> state w = WAITING_PID \<and>
       procs st1 b = Some (w\<lparr>waited_pid := i, state := ACTIVABLE\<rparr>))" if "b \<noteq> a" for b
    using ch [of b] that by simp
  ultimately show ?thesis using st1 a(3) by (intro exI [of _ st1]) (simp add: ended_def passed_away_def)
qed

lemma passed_away_finished:
  assumes I: "kI X Y {} d st" and Iz: "kI (X - {a}) Y' (set (children p)) d (upd a (state_update (\<lambda>_. ZOMBIE)) st)"
    and a: "process_table st i = Some a" "procs st a = Some p" "pid p = i" "i \<noteq> 0" "father_pid p = -1" "\<not> ended p" "a \<in> X"
  shows "\<exists>st1. finish_fatherless i st = Inr st1 \<and> kI (X - {a}) Y' (set (children p)) d st1 \<and> passed_away i a p st st1"
proof -
  let ?z = "upd a (state_update (\<lambda>_. ZOMBIE)) st"
  note T = kID(2) [OF I]
  have ni: "i \<notin> set (children p)"
    using kID(4) [OF I] a tabD [OF T a(1)] unfolding family_def child_of_def by auto
  have h: "home (qs st) a = None" using placesD(1) [OF kID(3) [OF I] a(2,7)] by simp
  have "kI (X - {a}) Y' (set (children p) - {i}) d (fin i a ?z)"
  proof (rule kI_fin [OF Iz, of i a "p\<lparr>state := ZOMBIE\<rparr>"])
    show "pid q \<noteq> father_pid (p\<lparr>state := ZOMBIE\<rparr>)" if "procs ?z b = Some q" "\<not> ended q" for b q
      using that tabD' [OF kID(2) [OF Iz] that(1)] tabD [OF kID(2) [OF Iz]] a(5) by (force simp: ended_def)
  qed (use a tabD [OF T a(1)] in auto)
  then have "kI (X - {a}) Y' (set (children p)) d (fin i a st)"
    using ni by (simp add: fin_zombie_eq)
  moreover have "finish_fatherless i st = Inr (fin i a st)" using a h by (simp add: finish_fatherless_fin)
  ultimately show ?thesis using a by (intro exI [of _ "fin i a st"]) (simp add: ended_def passed_away_def)
qed

text \<open>The second half: the children lose their father.\<close>

lemma passed_away_orphans:
  assumes I: "kI X Y {} d st" and a: "process_table st i = Some a" "procs st a = Some p" "\<not> ended p"
    and X: "\<forall>b \<in> X - {a}. \<forall>q. procs st b = Some q \<longrightarrow> state q = ELECTED"
    and I1: "kI (X - {a}) Y' (set (children p)) d st1" and D: "passed_away i a p st st1"
  shows "\<exists>st'. orphan_loop (children p) st1 = Inr st' \<and> kI (X - {a}) Y' {} d st' \<and> buried st1 st'"
proof (rule orphan_loop_ok [where f = i, OF I1])
  note T = kID(2) [OF I] and away = passed_away_other [OF D] and kept = passed_away_kept [OF D]
  have pid: "pid p = i" using tab_pid [OF T a(1,2)] by simp
  obtain p1 where p1: "procs st1 a = Some p1" "ended p1" "father_pid p1 = father_pid p" using D by (auto simp: passed_away_def)
  have fam: "distinct (children p)" "\<And>c. c \<in> set (children p) \<longleftrightarrow> child_of st i c"
    using kID(4) [OF I] a pid unfolding family_def by auto
  show "distinct (children p)" by fact
  show "\<exists>b q. c \<noteq> 0 \<and> process_table st1 c = Some b \<and> procs st1 b = Some q \<and> father_pid q = i"
    if "c \<in> set (children p)" for c
  proof -
    from that fam obtain b w where b: "c \<noteq> 0" "process_table st c = Some b" "procs st b = Some w" "father_pid w = i"
      unfolding child_of_def by auto
    show ?thesis
    proof (cases "b = a")
      case True
      then have "father_pid p \<noteq> -1" "father_pid p = i" using b a tabD [OF T a(1)] by auto
      then show ?thesis using b True a p1 D by (auto simp: passed_away_def)
    next
      case False
      then have "c \<noteq> i" using b a by auto
      with b D kept [OF b(3) False] show ?thesis by (auto simp: passed_away_def)
    qed
  qed
  show "pid r \<noteq> i" if "procs st1 e = Some r" "\<not> ended r" for e r
  proof
    assume "pid r = i"
    have "e \<noteq> a" using that p1 by auto
    from away [OF that(1) this] that(2) obtain w where "procs st e = Some w" "pid w = i" "\<not> ended w"
      using \<open>pid r = i\<close> by auto
    with tabD' [OF T this(1)] a(1) \<open>e \<noteq> a\<close> show False by (auto simp: ended_def)
  qed
  show "state q \<noteq> ZOMBIE" if "b \<in> X - {a}" "procs st1 b = Some q" for b q
    using away [OF that(2)] X that by auto
qed

text \<open>Who is finished after both halves under the number \<open>i\<close>: the process itself, or one that was before.\<close>

lemma passed_away_finished_only:
  assumes T: "tab st" and a: "process_table st i = Some a" and D: "passed_away i a p st st1" and bur: "buried st1 st'"
    and b: "procs st' b = Some q" "state q = FINISHED" "pid q = i" "b \<noteq> a"
  shows "\<exists>q0. procs st b = Some q0 \<and> state q0 = FINISHED \<and> pid q0 = i"
proof -
  have "procs st1 b \<noteq> None" using b(1) bur unfolding buried_def by auto
  then obtain r where r: "procs st1 b = Some r" by blast
  with bur obtain q' where "procs st' b = Some q'" "pid q' = pid r" by (rule buriedD)
  with b have r': "pid r = i" by auto
  from passed_away_other [OF D r b(4)] obtain w where w: "procs st b = Some w" "pid w = i" using r' by auto
  have "state w = FINISHED" using tabD' [OF T w(1)] w(2) a b(4) by auto
  with w show ?thesis by blast
qed

lemma process_end_body:
  assumes I: "kI X Y {} d st" and a: "process_table st i = Some a" "procs st a = Some p" "\<not> ended p" "a \<in> X"
    and i: "i \<noteq> 0" and X: "\<forall>b \<in> X - {a}. \<forall>q. procs st b = Some q \<longrightarrow> state q = ELECTED"
    and g: "awaited st (father_pid p) i"
  shows "\<exists>st' p'. process_end i k st = (if i = current_pid st' then bindE (scheduler k st') (\<lambda>st. Inr (True, st))
      else Inr (False, st')) \<and> current_pid st' = current_pid st \<and> kI (X - {a}) (Y - {a}) {} d st' \<and>
    procs st' a = Some p' \<and> pid p' = i \<and> ended p' \<and> (state p' = FINISHED \<longrightarrow> process_table st' i = None) \<and>
    (\<forall>b q. procs st b = Some q \<longrightarrow> state q = ELECTED \<longrightarrow> b \<noteq> a \<longrightarrow>
       (\<exists>q'. procs st' b = Some q' \<and> pid q' = pid q \<and> state q' = ELECTED \<and> skip_message q' = skip_message q)) \<and>
    (\<forall>b q. procs st' b = Some q \<longrightarrow> state q = FINISHED \<longrightarrow> pid q = i \<longrightarrow> b = a \<or>
       (\<exists>q0. procs st b = Some q0 \<and> state q0 = FINISHED \<and> pid q0 = i))"
proof -
  let ?z = "upd a (state_update (\<lambda>_. ZOMBIE)) st"
  note T = kID(2) [OF I]
  have pid: "pid p = i" using tab_pid [OF T a(1,2)] by simp
  have Iz: "kI (X - {a}) (Y - {a}) (set (children p)) d ?z"
    using I a(2,4,3) i pid by (intro kI_zombie) simp_all
  obtain st1 where e: "(if father_pid p \<noteq> -1 then awake_father i ?z else finish_fatherless i st) = Inr st1"
    and I1: "kI (X - {a}) (Y - {a}) (set (children p)) d st1" and D: "passed_away i a p st st1"
    using passed_away_zombie [OF Iz a(1,2) pid i _ a(3) g] passed_away_finished [OF I Iz a(1,2) pid i _ a(3,4)] by metis
  obtain p1 where p1: "procs st1 a = Some p1" "pid p1 = i" "ended p1" "children p1 = children p"
    "state p1 = FINISHED \<longrightarrow> process_table st1 i = None" using D by (auto simp: passed_away_def)
  from passed_away_orphans [OF I a(1-3) X I1 D] obtain st' where
    o: "orphan_loop (children p1) st1 = Inr st'" "kI (X - {a}) (Y - {a}) {} d st'" and bur: "buried st1 st'"
    unfolding p1(4) by blast
  from bur p1(1) obtain p' where p': "procs st' a = Some p'" "pid p' = pid p1"
    "state p' = state p1 \<or> state p1 = ZOMBIE \<and> state p' = FINISHED \<and> process_table st' (pid p1) = None"
    by (rule buriedD)
  have "current_pid st' = current_pid st" using bur D by (simp add: buried_def passed_away_def)
  moreover have "process_end i k st = (if i = current_pid st' then bindE (scheduler k st') (\<lambda>st. Inr (True, st))
      else Inr (False, st'))"
    using a(1,2) e p1(1) o(1) by (simp add: process_end_def tbl_def deref_def)
  moreover have "ended p'" "state p' = FINISHED \<longrightarrow> process_table st' i = None"
    using p' p1 bur unfolding ended_def buried_def by metis+
  moreover have "\<exists>q'. procs st' b = Some q' \<and> pid q' = pid q \<and> state q' = ELECTED \<and> skip_message q' = skip_message q"
    if "procs st b = Some q" "state q = ELECTED" "b \<noteq> a" for b q
  proof -
    have "procs st1 b = Some q" using passed_away_kept [OF D that(1,3)] that(2) by auto
    with bur obtain q' where "procs st' b = Some q'" "pid q' = pid q" "skip_message q' = skip_message q"
      "state q' = state q \<or> state q = ZOMBIE \<and> state q' = FINISHED \<and> process_table st' (pid q) = None" by (rule buriedD)
    with that(2) show ?thesis by auto
  qed
  ultimately show ?thesis using o(2) p' p1(2) passed_away_finished_only [OF T a(1) D bur]
    by (intro exI [of _ st'] exI [of _ p'] conjI) blast+
qed


section \<open>\<^verbatim>\<open>exit\<close> and \<^verbatim>\<open>kill\<close>\<close>

text \<open>
  How a system call may end: back in the calling process with the invariant, or after a
  context switch in a state that can be resumed.
\<close>

definition good :: "flow \<Rightarrow> kstate \<Rightarrow> bool" where
  "good fl st \<longleftrightarrow> (case fl of Return v \<Rightarrow> kinv st | Switch \<Rightarrow> resumable st | _ \<Rightarrow> False)"

definition safe :: "flow syscall_result \<Rightarrow> bool" where
  "safe r \<longleftrightarrow> (\<exists>fl st. r = Inr (fl, st) \<and> good fl st)"

lemma safe_simps [simp]:
  "safe (Inl e) = False"
  "safe (Inr (Return v, st)) = kinv st"
  "safe (Inr (Switch, st)) = resumable st"
  by (simp_all add: safe_def good_def)

lemma safe_switch:
  "\<exists>st'. r = Inr st' \<and> resumable st' \<Longrightarrow> safe (bindE r (\<lambda>st. Inr (Switch, st)))"
  by auto

lemma end_current_ok:
  assumes R: "running st c p" and i: "current_pid st \<noteq> 0" and g: "awaited st (father_pid p) (current_pid st)"
  shows "\<exists>st'. process_end (current_pid st) k st = Inr (True, st') \<and> resumable st'"
proof -
  from R have c: "process_table st (current_pid st) = Some c" "procs st c = Some p" "state p = ELECTED"
    and I: "kI {c} {c} {} (\<lambda>_. 0) st" by (auto simp: running_def)
  obtain st1 p1 where e: "process_end (current_pid st) k st =
      (if current_pid st = current_pid st1 then bindE (scheduler k st1) (\<lambda>st. Inr (True, st)) else Inr (False, st1))"
    "current_pid st1 = current_pid st" and I1: "kI ({c} - {c}) ({c} - {c}) {} (\<lambda>_. 0) st1"
    and p1: "procs st1 c = Some p1" "pid p1 = current_pid st" "ended p1"
      "state p1 = FINISHED \<longrightarrow> process_table st1 (current_pid st) = None"
    and f: "\<forall>b q. procs st1 b = Some q \<longrightarrow> state q = FINISHED \<longrightarrow> pid q = current_pid st \<longrightarrow> b = c \<or>
       (\<exists>q0. procs st b = Some q0 \<and> state q0 = FINISHED \<and> pid q0 = current_pid st)"
    using process_end_body [OF I c(1,2) _ _ i _ g, of k] c(3) by (auto simp: ended_def)
  have "off c k st1"
  proof (rule off_intro [OF _ p1(1)])
    show "kI {} {c} {} (\<lambda>_. 0) st1" using I1 by (auto intro: kI_conts_mono)
    show "b = c" if "procs st1 b = Some q" "state q = FINISHED" "pid q = current_pid st1" for b q
      using f that e(2) running_no_stale [OF c kID(6) [OF I], of b] by auto
  qed (use p1 e in \<open>simp_all add: cont_ok_def ended_def\<close>)
  from scheduler_ok [OF this] e show ?thesis by (auto simp: resumable_def)
qed

lemma running_upd:
  assumes "running st c p" "pid (f p) = pid p" "father_pid (f p) = father_pid p" "children (f p) = children p"
    "state (f p) = state p" "skip_message (f p) = skip_message p \<or> \<not> skip_message (f p)"
  shows "running (upd c f st) c (f p)"
proof -
  from assms(1) have c: "process_table st (current_pid st) = Some c" "procs st c = Some p" "state p = ELECTED"
    and I: "kI {c} {c} {} (\<lambda>_. 0) st" by (auto simp: running_def)
  have h: "home (qs st) c = None" using placesD(1) [OF kID(3) [OF I] c(2)] by simp
  have "kI {c} {c} {} (\<lambda>_. 0) (upd c f st)"
    using I c assms h by (intro kI_upd [where p = p]) auto
  with c assms show ?thesis by (simp add: running_def)
qed

lemma exit_ok:
  assumes R: "running st c p" and i: "current_pid st \<noteq> 0" and g: "awaited st (father_pid p) (current_pid st)"
  shows "safe (exit v st)"
proof -
  let ?f = "retval_update (\<lambda>_. v)"
  have c: "process_table st (current_pid st) = Some c" "procs st c = Some p" using R by (auto simp: running_def)
  have "running (upd c ?f st) c (?f p)" using R by (intro running_upd) auto
  moreover have "awaited (upd c ?f st) (father_pid (?f p)) (current_pid st)"
    using g by (auto simp: awaited_def split: if_splits)
  ultimately obtain st' where "process_end (current_pid st) K_exit (upd c ?f st) = Inr (True, st')" "resumable st'"
    using end_current_ok [of "upd c ?f st" c "?f p" K_exit] i by auto
  then show ?thesis using c by (simp add: exit_def tbl_def)
qed

lemma kI_sems:
  assumes I: "kI X Y C d st" and s: "sems st s = Some x"
    and x': "\<not> was_deleted (f x)" "sid (f x) = sid x" "- SEMAPHORE_MAX_SIZE \<le> count (f x)" "count (f x) \<le> SEMAPHORE_MAX_SIZE"
    and d': "d' s = int (length (q_of (Q_sem s) st)) - max 0 (- count (f x))" "\<And>t. t \<noteq> s \<Longrightarrow> d' t = d t"
  shows "kI X Y C d' (st\<lparr>sems := (sems st)(s := map_option f (sems st s))\<rparr>)" (is "kI _ _ _ _ ?st")
proof -
  have si: "sem_inv d' ?st"
    unfolding sem_inv_def
  proof (intro conjI allI impI)
    fix t y assume "sems ?st t = Some y"
    with kID(7) [OF I] x'(1) s show "\<not> was_deleted y" by (auto simp: sem_inv_def split: if_splits)
  next
    fix i t assume "semaphore_table ?st i = Some t"
    then have it: "semaphore_table st i = Some t" by simp
    with kID(7) [OF I] show "0 \<le> i" "i < int NBSEMAPHORE" by (auto simp: sem_inv_def)
    from it kID(7) [OF I] obtain y where y: "sems st t = Some y" "sem_ok i (int (length (q_of (Q_sem t) st)) - d t) y"
      unfolding sem_inv_def by blast
    then show "\<exists>y. sems ?st t = Some y \<and> sem_ok i (int (length (q_of (Q_sem t) ?st)) - d' t) y"
      using s x' d' by (cases "t = s") (auto simp: sem_ok_def)
  qed
  have "place_ok ?st = place_ok st" "child_of ?st = child_of st" "zombie_child ?st = zombie_child st" "prio_of ?st = prio_of st"
    by (rule place_ok_cong) (simp_all add: child_of_def zombie_child_def prio_of_def fun_eq_iff)
  moreover have "conts Y ?st"
    by (rule conts_mono [OF kID(10) [OF I]]) (use s calculation in auto)
  ultimately show ?thesis
    using I si s by (auto simp: kI_def wfq_def tab_def places_def family_def idle_ok_def stale_def mq_inv_def fresh_def)
qed


text \<open>
  Taking a suspended process out of whatever queue it is in, as \<^verbatim>\<open>kill\<close> does (with the
  counter of the semaphore it was blocked on).
\<close>

lemma running_other:
  assumes "running st c p" "procs st a = Some q" "a \<noteq> c"
  shows "state q \<noteq> ELECTED \<and> place_ok st q (home (qs st) a)"
  using assms placesD(2) [of "{c}" st a q] by (auto simp: running_def kI_def)

lemma detach_ok:
  assumes R: "running st c p" and a: "procs st a = Some q" "a \<noteq> c" "\<not> ended q"
  shows "\<exists>st'. (if q_linked a (qs st) then
            bindE (kq_del a st) (\<lambda>st.
              if state q = IN_SEM then
                case semaphore_table st (waited_sem q) of
                  None \<Rightarrow> Inl (PageFault st)
                | Some s \<Rightarrow> Inr (st\<lparr>sems := (sems st)(s := map_option (count_update (\<lambda>x. to_short (x + 1))) (sems st s))\<rparr>)
              else Inr st)
          else Inr st) = Inr st' \<and> kI {a, c} {a, c} {} (\<lambda>_. 0) st' \<and> procs st' = procs st \<and>
        process_table st' = process_table st \<and> current_pid st' = current_pid st"
proof -
  have I: "kI {c} {c} {} (\<lambda>_. 0) st" using R by (simp add: running_def)
  note pl = running_other [OF R a(1,2)]
  show ?thesis
  proof (cases "home (qs st) a")
    case None
    from kI_transit [OF I a(1) None] a(3) show ?thesis
      using None by (simp add: q_linked_def ended_def)
  next
    case (Some qu)
    have nf: "qu \<noteq> Q_finished" using pl Some a(3) by (auto simp: place_ok_home ended_def)
    have del: "kq_del a st = Inr (unlink a st)" by (rule kq_del_unlink [OF kI_qwf [OF I] Some])
    have J: "kI {a, c} {a, c} {} (sem_shift qu (-1) (\<lambda>_. 0)) (unlink a st)" by (rule kI_unlink [OF I Some nf])
    show ?thesis
    proof (cases "state q = IN_SEM")
      case False
      then have "sem_shift qu (-1) (\<lambda>_. 0) = (\<lambda>_. 0)"
        using pl Some by (cases qu) (auto simp: place_ok_home)
      with J del Some False show ?thesis by (auto simp: q_linked_def)
    next
      case True
      with pl Some obtain s where s: "semaphore_table st (waited_sem q) = Some s" "qu = Q_sem s"
        by (auto simp: place_ok_def)
      with kID(7) [OF J] obtain x where x: "sems st s = Some x" "\<not> was_deleted x"
        "sem_ok (waited_sem q) (int (length (remove1 a (q_of (Q_sem s) st))) + 1) x"
        unfolding sem_inv_def by (auto dest!: spec [of _ "waited_sem q"] spec [of _ s])
      then have cnt: "- SEMAPHORE_MAX_SIZE \<le> count x" "count x < 0"
        "int (length (remove1 a (q_of (Q_sem s) st))) = - count x - 1" by (auto simp: sem_ok_def max_def split: if_splits)
      let ?f = "count_update (\<lambda>x. to_short (x + 1))"
      have "kI {a, c} {a, c} {} (\<lambda>_. 0) ((unlink a st)\<lparr>sems := (sems (unlink a st))(s := map_option ?f (sems (unlink a st) s))\<rparr>)"
        using J s(2) by (intro kI_sems [where x = x and d = "sem_shift qu (-1) (\<lambda>_. 0)"]) (use x cnt in auto)
      with del Some True s show ?thesis by (auto simp: q_linked_def)
    qed
  qed
qed

lemma end_other_ok:
  assumes I: "kI {a, c} {a, c} {} (\<lambda>_. 0) st" and a: "process_table st i = Some a" "procs st a = Some q" "\<not> ended q" "i \<noteq> 0" "a \<noteq> c"
    and c: "process_table st (current_pid st) = Some c" "procs st c = Some p" "state p = ELECTED" "\<not> skip_message p"
    and g: "awaited st (father_pid q) i"
  shows "\<exists>st'. process_end i k st = Inr (False, st') \<and> kinv st'"
proof -
  have X: "\<forall>b \<in> {a, c} - {a}. \<forall>r. procs st b = Some r \<longrightarrow> state r = ELECTED"
    using c by auto
  have "a \<in> {a, c}" by simp
  from process_end_body [OF I a(1-3) this a(4) X g, where k = k] obtain st3 where
    e: "process_end i k st = (if i = current_pid st3 then bindE (scheduler k st3) (\<lambda>st. Inr (True, st)) else Inr (False, st3))"
      "current_pid st3 = current_pid st" and I3: "kI ({a, c} - {a}) ({a, c} - {a}) {} (\<lambda>_. 0) st3"
    and el: "\<forall>b q. procs st b = Some q \<longrightarrow> state q = ELECTED \<longrightarrow> b \<noteq> a \<longrightarrow>
      (\<exists>q'. procs st3 b = Some q' \<and> pid q' = pid q \<and> state q' = ELECTED \<and> skip_message q' = skip_message q)"
    by - (elim exE conjE, intro that)
  from el c a(5) obtain p' where p': "procs st3 c = Some p'" "pid p' = pid p" "state p' = ELECTED" "\<not> skip_message p'"
    by blast
  have "{a, c} - {a} = {c}" using a(5) by auto
  with I3 have I3': "kI {c} {c} {} (\<lambda>_. 0) st3" by simp
  have "process_table st3 (current_pid st3) = Some c"
    using tabD' [OF kID(2) [OF I3'] p'(1)] p' e(2) tab_pid [OF kID(2) [OF I] c(1,2)] by simp
  with p' I3' have "kinv st3" by (auto simp: kinv_def)
  moreover have "i \<noteq> current_pid st" using c(1) a(1,5) by auto
  ultimately show ?thesis using e by auto
qed

lemma kill_ok:
  assumes R: "running st c p" and sk: "\<not> skip_message p" and i: "current_pid st \<noteq> 0"
    and g: "\<And>a q. process_table st i = Some a \<Longrightarrow> procs st a = Some q \<Longrightarrow> awaited st (father_pid q) i"
  shows "safe (kill i st)"
proof -
  have K: "kinv st" using R sk by (auto simp: kinv_running)
  from R have c: "process_table st (current_pid st) = Some c" "procs st c = Some p" "state p = ELECTED"
    and I: "kI {c} {c} {} (\<lambda>_. 0) st" by (auto simp: running_def)
  show ?thesis
  proof (cases "\<not> is_valid_pid i st \<or> i = 0")
    case True
    with K show ?thesis by (simp add: kill_def)
  next
    case False
    then obtain a where a: "process_table st i = Some a" "i \<noteq> 0" by (auto simp: is_valid_pid_def)
    from tabD [OF kID(2) [OF I] a(1)] obtain q where q: "procs st a = Some q" "pid q = i" "state q \<noteq> FINISHED" by blast
    let ?r = "retval_update (\<lambda>_. 0)"
    show ?thesis
    proof (cases "state q = ZOMBIE")
      case True
      with False a q K show ?thesis by (simp add: kill_def tbl_def deref_def)
    next
      case nz: False
      then have ne: "\<not> ended q" using q by (simp add: ended_def)
      show ?thesis
      proof (cases "a = c")
        case True
        then have ic: "i = current_pid st" and qp: "q = p" using q c tab_pid [OF kID(2) [OF I] c(1,2)] by auto
        have h: "home (qs st) a = None" using placesD(1) [OF kID(3) [OF I] c(2)] True by simp
        have "running (upd c ?r st) c (?r p)" using R by (intro running_upd) auto
        moreover have "awaited (upd c ?r st) (father_pid (?r p)) (current_pid st)"
          using g [OF a(1) q(1)] ic qp c by (auto simp: awaited_def split: if_splits)
        ultimately obtain st' where "process_end i (K_return 0) (upd c ?r st) = Inr (True, st')" "resumable st'"
          using end_current_ok [of "upd c ?r st" c "?r p" "K_return 0"] i ic by auto
        then show ?thesis using False a q nz h True by (simp add: kill_def tbl_def deref_def q_linked_def)
      next
        case ac: False
        from detach_ok [OF R q(1) ac ne] obtain st1 where
          det: "(if q_linked a (qs st) then
            bindE (kq_del a st) (\<lambda>st.
              if state q = IN_SEM then
                case semaphore_table st (waited_sem q) of
                  None \<Rightarrow> Inl (PageFault st)
                | Some s \<Rightarrow> Inr (st\<lparr>sems := (sems st)(s := map_option (count_update (\<lambda>x. to_short (x + 1))) (sems st s))\<rparr>)
              else Inr st)
          else Inr st) = Inr st1" and I1: "kI {a, c} {a, c} {} (\<lambda>_. 0) st1"
          and same: "procs st1 = procs st" "process_table st1 = process_table st" "current_pid st1 = current_pid st"
          by blast
        let ?st2 = "upd a ?r st1"
        have I2: "kI {a, c} {a, c} {} (\<lambda>_. 0) ?st2"
          using I1 q same by (intro kI_upd [where p = q]) auto
        have "awaited ?st2 (father_pid (?r q)) i"
          using g [OF a(1) q(1)] same q by (auto simp: awaited_def split: if_splits)
        with I2 obtain st3 where e: "process_end i (K_return 0) ?st2 = Inr (False, st3)" and "kinv st3"
          using end_other_ok [of a c ?st2 i "?r q" p "K_return 0"] a q ne ac c sk same by (auto simp: ended_def)
        moreover have "kill i st = Inr (Return 0, st3)"
          using False a q nz det e same unfolding kill_def by (simp add: tbl_def deref_def)
        ultimately show ?thesis by simp
      qed
    qed
  qed
qed

end
