(* ===== verification/Process_Calls.thy ===== *)
theory Process_Calls
  imports Process_Inv
begin

text \<open>
  The remaining system calls on processes and the code after a context switch, each shown
  to run without fault and to keep the invariant.
\<close>

section \<open>Collecting a child\<close>

lemma kI_children:
  assumes I: "kI X Y C d st" and a: "procs st a = Some p" "a \<in> Y"
    and F: "family C' (upd a (children_update g) st)"
  shows "kI X Y C' d (upd a (children_update g) st)" (is "kI _ _ _ _ ?st")
proof -
  have "wfq ?st" by (rule wfq_upd [OF kID(1) [OF I]]) simp
  moreover have "tab ?st" using kID(2) [OF I] a by (intro tab_upd [where p = p]) auto
  moreover have "stale ?st" using kID(6) [OF I] a by (intro stale_upd [where p = p]) auto
  moreover have "conts Y ?st" using kID(10) [OF I] a by (intro conts_upd [where p = p]) auto
  moreover have "places X ?st"
  proof (rule placesI)
    fix e r assume "procs ?st e = Some r" "e \<in> X"
    with placesD(1) [OF kID(3) [OF I]] a show "home (qs ?st) e = None \<and> state r \<noteq> FINISHED"
      by (cases "e = a") auto
  next
    fix e r assume "procs ?st e = Some r" "e \<notin> X"
    then obtain r0 where "procs st e = Some r0" "e \<notin> X" "state r = state r0" "waited_sem r = waited_sem r0"
      using a by (cases "e = a") auto
    with placesD(2) [OF kID(3) [OF I]] place_ok_eq [of r r0 st]
    show "state r \<noteq> ELECTED \<and> place_ok ?st r (home (qs ?st) e)" by simp
  qed
  moreover have "idle_ok X ?st"
  proof -
    obtain z r where "process_table st 0 = Some z" "procs st z = Some r"
      "state r = ACTIVABLE \<or> z \<in> X \<and> state r = ELECTED" using kID(5) [OF I] unfolding idle_ok_def by blast
    then show ?thesis unfolding idle_ok_def by (cases "z = a") auto
  qed
  moreover have "sem_inv d ?st" by (rule sem_inv_length [OF kID(7) [OF I]]) simp_all
  moreover have "mq_inv ?st" "fresh ?st" using kID(8,9) [OF I] a by (auto simp: mq_inv_def fresh_def)
  ultimately show ?thesis using F by (simp add: kI_def)
qed

lemma family_remove_child:
  assumes F: "family {} st" and T: "tab st" and a: "procs st a = Some p" "\<not> ended p" "i \<in> set (children p)"
  shows "family {i} (upd a (children_update (remove1 i)) st)" (is "family _ ?st")
proof -
  have co: "child_of ?st = child_of st" using a by (intro child_of_upd) simp_all
  have fa: "(\<exists>f s. process_table ?st n = Some f \<and> procs ?st f = Some s \<and> \<not> ended s) \<longleftrightarrow>
      (\<exists>f s. process_table st n = Some f \<and> procs st f = Some s \<and> \<not> ended s)" for n
    using a by (auto simp: ended_def)
  have tp: "process_table st (pid p) = Some a" using tabD' [OF T a(1)] a(2) by (simp add: ended_def)
  have chp: "distinct (children p)" "\<And>c. c \<in> set (children p) \<longleftrightarrow> child_of st (pid p) c"
    using F a unfolding family_def by auto
  show ?thesis
    unfolding family_def co fa
  proof (intro conjI allI impI)
    fix b q assume b: "procs ?st b = Some q" "\<not> ended q"
    have "distinct (children q) \<and> (\<forall>c. (c \<in> set (children q)) = (child_of st (pid q) c \<and> c \<notin> {i}))"
    proof (cases "b = a")
      case True
      then have "q = children_update (remove1 i) p" using b a by simp
      with chp show "distinct (children q) \<and> (\<forall>c. (c \<in> set (children q)) = (child_of st (pid q) c \<and> c \<notin> {i}))"
        by auto
    next
      case False
      then have bq: "procs st b = Some q" using b by simp
      then have E: "distinct (children q)" "\<And>c. c \<in> set (children q) \<longleftrightarrow> child_of st (pid q) c"
        using F b(2) unfolding family_def by auto
      have "pid q \<noteq> pid p" using tabD' [OF T bq] b(2) tp False by (auto simp: ended_def)
      then have "\<not> child_of st (pid q) i" using a(3) chp(2) [of i] by (auto simp: child_of_def)
      with E show "distinct (children q) \<and> (\<forall>c. (c \<in> set (children q)) = (child_of st (pid q) c \<and> c \<notin> {i}))"
        by auto
    qed
    then show "distinct (children q)" "c \<in> set (children q) \<longleftrightarrow> child_of st (pid q) c \<and> c \<notin> {i}" for c
      by simp_all
  next
    fix b q assume b: "procs ?st b = Some q" "state q \<noteq> FINISHED" "pid q \<noteq> 0" "father_pid q \<noteq> -1"
    then obtain q0 where "procs st b = Some q0" "state q0 \<noteq> FINISHED" "pid q0 = pid q" "father_pid q0 = father_pid q"
      using a by (cases "b = a") auto
    with b F show "\<exists>f s. process_table st (father_pid q) = Some f \<and> procs st f = Some s \<and> \<not> ended s"
      unfolding family_def by (metis empty_iff)
  qed
qed

lemma running_frame:
  assumes "running st c p" shows "running (store_user va v st) c p"
  using assms by (simp add: running_def)

lemma finish_zombie_ok:
  assumes R: "running st c p" and z: "zombie_child st (pid p) i" and r: "ptr_ok r"
  shows "\<exists>st' p'. finish_zombie i r st = Inr st' \<and> running st' c p' \<and> skip_message p' = skip_message p \<and>
    process_table st' i = None \<and>
    (\<forall>b q. process_table st i = Some b \<longrightarrow> procs st b = Some q \<longrightarrow>
       (\<exists>q'. procs st' b = Some q' \<and> state q' = FINISHED) \<and>
       (r \<noteq> 0 \<longrightarrow> user_mem st' = user_mem (store_user r (retval q) st)))"
proof -
  from z obtain b q where b: "i \<noteq> 0" "process_table st i = Some b" "procs st b = Some q" "state q = ZOMBIE" "father_pid q = pid p"
    unfolding zombie_child_def by blast
  define st1 where "st1 = (if r \<noteq> 0 then store_user r (retval q) st else st)"
  have R1: "running st1 c p" using R running_frame by (simp add: st1_def)
  have same: "process_table st1 = process_table st" "procs st1 = procs st" "current_pid st1 = current_pid st"
    by (simp_all add: st1_def)
  from R1 have c: "process_table st1 (current_pid st1) = Some c" "procs st1 c = Some p" "state p = ELECTED"
    and I: "kI {c} {c} {} (\<lambda>_. 0) st1" by (auto simp: running_def)
  note T = kID(2) [OF I]
  have cur: "current_pid st1 = pid p" "0 \<le> pid p" using tab_pid [OF T c(1,2)] tabD [OF T c(1)] by auto
  have bc: "b \<noteq> c" using b c same by auto
  have "child_of st1 (pid p) i" using b same by (auto simp: child_of_def)
  then have ic: "i \<in> set (children p)" using kID(4) [OF I] c unfolding family_def by (auto simp: ended_def)
  let ?st2 = "upd c (children_update (remove1 i)) st1" and ?p = "children_update (remove1 i) p"
  have I2: "kI {c} {c} {i} (\<lambda>_. 0) ?st2"
    using I c(2) by (rule kI_children) (use c ic T kID(4) [OF I] in \<open>auto intro!: family_remove_child simp: ended_def\<close>)
  have b2: "process_table ?st2 i = Some b" "procs ?st2 b = Some q" using b bc same by auto
  have uniq: "pid r \<noteq> father_pid q" if "procs ?st2 e = Some r" "\<not> ended r" "e \<notin> {c}" for e r
    using tabD' [OF T, of e r] that c(1) cur b(5) by (auto simp: ended_def)
  have ip: "father_pid q \<noteq> i" using b(2,5) c(1) bc cur same by auto
  have "kI {c} {c} ({i} - {i}) (\<lambda>_. 0) (fin i b ?st2)"
    by (rule kI_fin [OF I2 b2 b(4)]) (use bc b(1) ip uniq in auto)
  then have "running (fin i b ?st2) c ?p"
    using c bc ip b(5) cur same by (auto simp: running_def)
  moreover have "finish_zombie i r st = Inr (fin i b ?st2)"
  proof -
    have h: "home (qs ?st2) b = None"
      using placesD(2) [OF kID(3) [OF I2] b2(2)] bc b(4) by (auto simp: place_ok_def)
    have "(if r \<noteq> 0 then if r < 0x4000000 then Inl (Panic ''Dirty hacker stopped'')
        else bindE (tbl i st) (\<lambda>a. bindE (deref a st) (\<lambda>p. Inr (store_user r (retval p) st))) else Inr st) = Inr st1"
      using r b by (auto simp: st1_def ptr_ok_def tbl_def deref_def)
    moreover have "remove_from_children i (current_pid st1) st1 = Inr ?st2"
      using c ic cur by (simp add: remove_from_children_def tbl_def deref_def)
    ultimately show ?thesis
      using b2(1) h
      by (simp add: finish_zombie_def tbl_def set_state_and_queue_def kq_add_enlink fin_def del: upd_simps(1))
  qed
  moreover have "user_mem (fin i b ?st2) = user_mem st1" by (simp add: fin_def enlink_def)
  ultimately show ?thesis using b b2 bc by (intro exI [of _ "fin i b ?st2"] exI [of _ ?p]) (auto simp: st1_def)
qed

section \<open>After a context switch\<close>

lemma resume_ok:
  assumes R: "running st n p" and r: "ready st n p (cpu st)"
  shows "\<exists>fl st'. resume st = Inr (fl, st') \<and> kinv st' \<and> fl \<noteq> Switch \<and> fl \<noteq> Hang"
proof (cases "cpu st")
  case (K_start b)
  with r obtain q where q: "procs st b = Some q" "\<not> skip_message q" "\<not> skip_message p" by (auto simp: ready_def)
  then have "q\<lparr>skip_message := False\<rparr> = q" by simp
  then have "upd b (skip_message_update (\<lambda>_. False)) st = st" using q by (simp add: upd_def fun_upd_idem)
  with K_start q R show ?thesis by (auto simp: resume_def deref_def kinv_running)
next
  case (K_waitpid_any rp)
  with r have "\<not> skip_message p" "ptr_ok rp" "zombie_child st (pid p) (waited_pid p)" by (auto simp: ready_def)
  with finish_zombie_ok [OF R] obtain st' p' where "finish_zombie (waited_pid p) rp st = Inr st'" "running st' n p'" "\<not> skip_message p'"
    by metis
  with K_waitpid_any R show ?thesis by (auto simp: resume_def tbl_def deref_def running_def kinv_def)
next
  case (K_waitpid i rp)
  with r have "\<not> skip_message p" "ptr_ok rp" "zombie_child st (pid p) i" by (auto simp: ready_def)
  with finish_zombie_ok [OF R] obtain st' p' where "finish_zombie i rp st = Inr st'" "running st' n p'" "\<not> skip_message p'"
    by metis
  with K_waitpid show ?thesis by (auto simp: resume_def kinv_running)
next
  case (K_wait s)
  with r obtain x where x: "sems st s = Some x" "\<not> skip_message p" by (auto simp: ready_def)
  moreover have "\<not> was_deleted x" using R x kID(7) unfolding running_def sem_inv_def by blast
  ultimately show ?thesis using K_wait R by (auto simp: resume_def resume_wait_def kinv_running)
next
  case (K_psend b)
  with r have b: "b = n" by (simp add: ready_def)
  let ?f = "skip_message_update (\<lambda>_. False)"
  have "running (upd n ?f st) n (?f p)" using R by (intro running_upd) auto
  then have "kinv (upd n ?f st)" unfolding kinv_running by (intro exI conjI, assumption) simp
  with K_psend b R show ?thesis by (auto simp: resume_def resume_psend_def deref_def running_def kinv_def)
next
  case (K_preceive qa b m)
  with r have b: "b = n" "skip_message p" by (auto simp: ready_def)
  let ?f = "skip_message_update (\<lambda>_. False)"
  have "running (upd n ?f st) n (?f p)" using R by (intro running_upd) auto
  then have "kinv (upd n ?f st)" unfolding kinv_running by (intro exI conjI, assumption) simp
  with K_preceive b R show ?thesis by (auto simp: resume_def resume_preceive_def deref_def running_def)
qed (use assms in \<open>auto simp: resume_def ready_def kinv_running\<close>)


section \<open>Simple calls\<close>

lemma getprio_ok:
  assumes "kinv st" shows "safe (getprio i st)"
proof (cases "is_valid_pid i st")
  case True
  then obtain a where a: "process_table st i = Some a" by (auto simp: is_valid_pid_def)
  from assms obtain c where "kI {c} {c} {} (\<lambda>_. 0) st" by (auto simp: kinv_def)
  from tabD [OF kID(2) [OF this] a] obtain p where "procs st a = Some p" by blast
  with a True assms show ?thesis by (simp add: getprio_def tbl_def deref_def)
qed (use assms in \<open>simp add: getprio_def\<close>)

lemma wait_clock_ok:
  assumes R: "running st c p" and sk: "\<not> skip_message p" and i: "current_pid st \<noteq> 0"
  shows "safe (wait_clock w st)"
proof -
  from R have c: "process_table st (current_pid st) = Some c" "procs st c = Some p" "state p = ELECTED"
    and I: "kI {c} {c} {} (\<lambda>_. 0) st" by (auto simp: running_def)
  have pid: "pid p = current_pid st" using tab_pid [OF kID(2) [OF I] c(1,2)] by simp
  let ?f = "wakeup_date_update (\<lambda>_. w) \<circ> state_update (\<lambda>_. ASLEEP)"
  let ?st = "upd c ?f st"
  have "kI {c} {c} {} (\<lambda>_. 0) ?st" using I c pid i by (intro kI_upd [where p = p]) auto
  then have J: "kI ({c} - {c}) {c} {} (\<lambda>_. 0) ?st"
    by (rule kI_settle) (use c in \<open>auto simp: place_ok_home\<close>)
  have "off c (K_return 0) ?st"
  proof (rule off_intro [where pc = "?f p"])
    show "kI {} {c} {} (\<lambda>_. 0) ?st" using J by simp
    show "b = c" if "procs ?st b = Some q" "state q = FINISHED" "pid q = current_pid ?st" for b q
      using running_no_stale [OF c kID(6) [OF I], of b q] that by (auto split: if_splits)
  qed (use c pid sk in \<open>auto simp: cont_ok_def blocked_ok_def ended_def\<close>)
  from scheduler_ok [OF this] have "\<exists>st'. scheduler (K_return 0) ?st = Inr st' \<and> resumable st'"
    by (auto simp: resumable_def)
  moreover have "upd c (wakeup_date_update (\<lambda>_. w)) (upd c (state_update (\<lambda>_. ASLEEP)) st) = ?st"
    by (simp add: upd_def option.map_comp)
  ultimately show ?thesis using c(1) by (auto simp: wait_clock_def tbl_def)
qed

text \<open>The search of \<^verbatim>\<open>waitpid(-1)\<close> never follows a dangling entry and finds a zombie child if there is one.\<close>

lemma find_zombie_ok:
  assumes "\<And>c. c \<in> set cs \<Longrightarrow> child_of st f c"
  shows "\<exists>r. find_zombie cs st = Inr r \<and>
    (case r of None \<Rightarrow> (\<forall>c \<in> set cs. \<not> zombie_child st f c) | Some c \<Rightarrow> c \<in> set cs \<and> zombie_child st f c)"
  using assms
proof (induction cs)
  case (Cons c cs)
  from Cons.prems [of c] obtain b q where b: "c \<noteq> 0" "process_table st c = Some b" "procs st b = Some q" "father_pid q = f"
    by (auto simp: child_of_def)
  then have z: "child_is_zombie st c = Inr (state q = ZOMBIE)" by (simp add: child_is_zombie_def tbl_def deref_def)
  show ?case
  proof (cases "state q = ZOMBIE")
    case True
    with z b show ?thesis by (auto simp: zombie_child_def)
  next
    case False
    then have nz: "\<not> zombie_child st f c" using b by (simp add: zombie_child_def)
    have "\<And>x. x \<in> set cs \<Longrightarrow> child_of st f x" using Cons.prems by simp
    from Cons.IH [OF this] obtain r where r: "find_zombie cs st = Inr r"
      "case r of None \<Rightarrow> \<forall>c \<in> set cs. \<not> zombie_child st f c | Some c \<Rightarrow> c \<in> set cs \<and> zombie_child st f c" by blast
    with False z nz show ?thesis by (intro exI [of _ r]) (cases r; simp)
  qed
qed simp

lemma waitpid_ok:
  assumes R: "running st c p" and sk: "\<not> skip_message p" and i: "current_pid st \<noteq> 0"
  shows "safe (waitpid j r st)"
proof -
  from R have c: "process_table st (current_pid st) = Some c" "procs st c = Some p" "state p = ELECTED"
    and I: "kI {c} {c} {} (\<lambda>_. 0) st" by (auto simp: running_def)
  have K: "kinv st" using R sk by (auto simp: kinv_running)
  have pid: "pid p = current_pid st" using tab_pid [OF kID(2) [OF I] c(1,2)] by simp
  have fz: "safe (bindE (finish_zombie x r st) (\<lambda>st. Inr (Return x, st)))" if "zombie_child st (pid p) x" "ptr_ok r" for x
  proof -
    from finish_zombie_ok [OF R that] obtain st' p' where "finish_zombie x r st = Inr st'" "running st' c p'"
      "skip_message p' = skip_message p" by blast
    with sk show ?thesis by (auto simp: kinv_running)
  qed
  have bl: "safe (bindE (block_current WAITING_PID Q_waiting_pid k st) (\<lambda>st. Inr (Switch, st)))"
    if "k = K_waitpid_any r \<or> k = K_waitpid j r" "ptr_ok r" for k
    by (rule safe_switch, rule block_current_ok [OF c I])
      (use that sk pid i in \<open>auto simp: place_ok_home cont_ok_def blocked_ok_def ended_def\<close>)
  consider "r \<noteq> 0 \<and> r < 0x4000000 \<or> j \<ge> int NBPROC" | "ptr_ok r" "j < 0" | "ptr_ok r" "0 \<le> j" "j < int NBPROC"
    by atomize_elim (auto simp: ptr_ok_def not_less)
  then show ?thesis
  proof cases
    case 1
    with K show ?thesis by (auto simp: waitpid_def)
  next
    case 2
    have "\<exists>z. find_zombie (children p) st = Inr z \<and> (case z of None \<Rightarrow> (\<forall>c \<in> set (children p). \<not> zombie_child st (pid p) c)
        | Some x \<Rightarrow> x \<in> set (children p) \<and> zombie_child st (pid p) x)"
      by (rule find_zombie_ok) (use kID(4) [OF I] c in \<open>auto simp: family_def ended_def\<close>)
    then obtain z where z: "find_zombie (children p) st = Inr z"
      "\<And>x. z = Some x \<Longrightarrow> zombie_child st (pid p) x" by (auto split: option.splits)
    from 2 have nr: "\<not> (r \<noteq> 0 \<and> r < 0x4000000)" by (auto simp: ptr_ok_def not_less)
    have "safe (case z of Some x \<Rightarrow> bindE (finish_zombie x r st) (\<lambda>st. Inr (Return x, st))
        | None \<Rightarrow> bindE (block_current WAITING_PID Q_waiting_pid (K_waitpid_any r) st) (\<lambda>st. Inr (Switch, st)))"
      using fz [OF z(2) 2(1)] bl [of "K_waitpid_any r"] 2(1) by (cases z) auto
    with 2 nr c z(1) K show ?thesis by (simp add: waitpid_def tbl_def deref_def)
  next
    case 3
    from 3 have nr: "\<not> (r \<noteq> 0 \<and> r < 0x4000000)" by (auto simp: ptr_ok_def not_less)
    show ?thesis
    proof (cases "process_table st j")
      case None
      with 3 nr K show ?thesis by (simp add: waitpid_def)
    next
      case (Some a)
      from tabD [OF kID(2) [OF I] Some] obtain q where q: "procs st a = Some q" "pid q = j" by blast
      have j0: "j \<noteq> 0" if "father_pid q = current_pid st" "state q = ZOMBIE"
        using kID(5) [OF I] Some q that unfolding idle_ok_def by auto
      then have "zombie_child st (pid p) j" if "father_pid q = current_pid st" "state q = ZOMBIE"
        using that Some q pid by (auto simp: zombie_child_def)
      with fz bl [of "K_waitpid j r"] 3 nr Some q K show ?thesis
        by (auto simp: waitpid_def deref_def)
    qed
  qed
qed


section \<open>Changing a priority\<close>

lemma pid_is_unique:
  assumes I: "kI X Y C d st" and p: "procs st a = Some p" "state p \<noteq> FINISHED"
    and b: "b \<in> set (q_of q st)" "q \<noteq> Q_finished" "pid_is st (pid p) b"
  shows "b = a"
proof -
  have hb: "home (qs st) b = Some q" using b kI_qwf [OF I] by (simp add: qwf_home)
  from b(3) obtain r where r: "procs st b = Some r" "pid r = pid p" by (auto simp: pid_is_def split: option.splits)
  have "state r \<noteq> FINISHED"
    using kI_finished_home [OF I r(1)] hb b(2) kI_qwf [OF I] by (simp add: qwf_home)
  from tabD' [OF kID(2) [OF I] r(1) this] tabD' [OF kID(2) [OF I] p] r(2) show ?thesis by simp
qed

text \<open>
  \<^verbatim>\<open>__get_queue\<close> finds the queue the process is linked in. For semaphores and message
  queues the search stops at the first table entry whose queue holds a process of that pid;
  no other queue does.
\<close>

lemma get_queue_home:
  assumes I: "kI X Y C d st" and p: "procs st a = Some p" "a \<notin> X" "home (qs st) a = Some q" "q \<noteq> Q_finished"
  shows "get_queue p st = Some q"
proof -
  have pl: "place_ok st p (Some q)" using placesD(2) [OF kID(3) [OF I] p(1,2)] p(3) by simp
  have nf: "state p \<noteq> FINISHED" using pl p(4) by (auto dest: place_ok_FINISHED)
  have inq: "list_ex (pid_is st (pid p)) (q_of q' st) \<longleftrightarrow> q' = q" if "q' \<noteq> Q_finished" for q'
  proof
    assume "list_ex (pid_is st (pid p)) (q_of q' st)"
    then obtain b where "b \<in> set (q_of q' st)" "pid_is st (pid p) b" by (auto simp: list_ex_iff)
    with pid_is_unique [OF I p(1) nf] that have "a \<in> set (q_of q' st)" by blast
    with kI_qwf [OF I] p(3) show "q' = q" by (simp add: qwf_home)
  next
    assume "q' = q"
    with p kI_qwf [OF I] have "a \<in> set (q_of q' st)" by (simp add: qwf_home)
    moreover have "pid_is st (pid p) a" using p(1) by (simp add: pid_is_def)
    ultimately show "list_ex (pid_is st (pid p)) (q_of q' st)" by (auto simp: list_ex_iff)
  qed
  have search: "Option.bind (first_from N 0 (\<lambda>i. case t i of None \<Rightarrow> False
        | Some x \<Rightarrow> list_ex (pid_is st (pid p)) (q_of (Q x) st))) (\<lambda>i. map_option Q (t i)) = Some q"
    if t: "t j = Some x" "q = Q x" "0 \<le> j" "j < int N" and Q: "\<And>y. Q y \<noteq> Q_finished"
    for N and t :: "int \<Rightarrow> addr option" and Q j x
  proof -
    let ?P = "\<lambda>i. case t i of None \<Rightarrow> False | Some x \<Rightarrow> list_ex (pid_is st (pid p)) (q_of (Q x) st)"
    have "?P j" using t inq [OF Q, of x] by simp
    then have "first_from N 0 ?P \<noteq> None" using t by (auto simp: first_from_None)
    then obtain i where i: "first_from N 0 ?P = Some i" by blast
    from first_from_Some [OF this] obtain y where "t i = Some y" "list_ex (pid_is st (pid p)) (q_of (Q y) st)"
      by (auto split: option.splits)
    with inq [OF Q, of y] i show ?thesis by simp
  qed
  show ?thesis
  proof (cases q)
    case (Q_sem s)
    with pl have s: "state p = IN_SEM" "semaphore_table st (waited_sem p) = Some s" by (auto simp: place_ok_home)
    moreover have "0 \<le> waited_sem p" "waited_sem p < int NBSEMAPHORE"
      using kID(7) [OF I] s(2) unfolding sem_inv_def by blast+
    ultimately show ?thesis using search [of "semaphore_table st" "waited_sem p" s Q_sem] Q_sem
      by (simp add: get_queue_def)
  next
    case (Q_mq s)
    with pl obtain i where s: "state p = IN_MSGQUEUE" "queue_table st i = Some s" by (auto simp: place_ok_home)
    moreover have "0 \<le> i" "i < int NBQUEUE" using kID(8) [OF I] s(2) unfolding mq_inv_def by blast+
    ultimately show ?thesis using search [of "queue_table st" i s Q_mq] Q_mq
      by (simp add: get_queue_def)
  qed (use pl p(4) in \<open>auto simp: place_ok_home get_queue_def\<close>)
qed


lemma cont_ok_reprio:
  assumes "cont_ok st a p" "procs st a = Some p" "procs st' = (procs st)(a \<mapsto> p\<lparr>priority := n\<rparr>)"
    "process_table st' = process_table st" "sems st' = sems st" "mqs st' = mqs st" "home (qs st') a = home (qs st) a"
  shows "cont_ok st' a (p\<lparr>priority := n\<rparr>)"
proof -
  have z: "zombie_child st' f c" if zc: "zombie_child st f c" for f c
  proof -
    from zc obtain e r where "c \<noteq> 0" "process_table st c = Some e" "procs st e = Some r" "state r = ZOMBIE" "father_pid r = f"
      unfolding zombie_child_def by blast
    with assms(2-4) show ?thesis unfolding zombie_child_def by (cases "e = a") auto
  qed
  have q: "\<exists>q'. procs st' b = Some q' \<and> state q' \<noteq> FINISHED \<and> pid q' \<noteq> 0 \<and> father_pid q' = pid p \<and> \<not> skip_message q'"
    if "procs st b = Some q" "state q \<noteq> FINISHED" "pid q \<noteq> 0" "father_pid q = pid p" "\<not> skip_message q" for b q
    using assms(2,3) that by (cases "b = a") auto
  have "ready st' a p k" if "ready st a p k" for k
    by (rule ready_mono [OF that]) (use q z assms(5) in auto)
  then have "ready st' a (p\<lparr>priority := n\<rparr>) k" if "ready st a p k" for k
    using that ready_eq [of "p\<lparr>priority := n\<rparr>" p st' a k] by simp
  then show ?thesis
    using assms(1,6,7) unfolding cont_ok_def by (auto simp: ended_def blocked_ok_def split: State.splits)
qed

lemma reprio_ok:
  assumes R: "running st c p" and a: "process_table st i = Some a" "procs st a = Some q" "\<not> ended q"
  shows "\<exists>st'. (if q_linked a (qs st) then
           case get_queue q st of
             None \<Rightarrow> Inl (Panic ''chprio: failed assertion'')
           | Some queue \<Rightarrow> bindE (kq_del a st) (\<lambda>st. kq_add a queue (upd a (priority_update (\<lambda>_. n)) st))
         else Inr (upd a (priority_update (\<lambda>_. n)) st)) = Inr st' \<and>
     kI {c} {c} {} (\<lambda>_. 0) st' \<and> process_table st' = process_table st \<and> current_pid st' = current_pid st \<and>
     procs st' = (procs st)(a \<mapsto> q\<lparr>priority := n\<rparr>)"
proof -
  let ?f = "priority_update (\<lambda>_. n)"
  from R have I: "kI {c} {c} {} (\<lambda>_. 0) st" by (simp add: running_def)
  show ?thesis
  proof (cases "home (qs st) a")
    case None
    have "kI {c} (insert a {c}) {} (\<lambda>_. 0) (upd a ?f st)"
      using kI_conts_mono [OF I, of "insert a {c}"] a(2) None by (intro kI_upd [where p = q]) auto
    then have "kI {c} (insert a {c} - {a}) {} (\<lambda>_. 0) (upd a ?f st)" if "a \<noteq> c"
      by (rule kI_conts) (use that a(2) in \<open>auto intro!: cont_ok_reprio kI_cont_ok [OF I]\<close>)
    moreover have "kI {c} {c} {} (\<lambda>_. 0) (upd a ?f st)" if "a = c"
      using \<open>kI {c} (insert a {c}) {} (\<lambda>_. 0) (upd a ?f st)\<close> that by simp
    ultimately have "kI {c} {c} {} (\<lambda>_. 0) (upd a ?f st)" by (cases "a = c") auto
    with None a show ?thesis by (simp add: q_linked_def)
  next
    case (Some qu)
    have ac: "a \<noteq> c" using placesD(1) [OF kID(3) [OF I] a(2)] Some by auto
    have pl: "place_ok st q (Some qu)" using placesD(2) [OF kID(3) [OF I] a(2)] ac Some by simp
    then have nf: "qu \<noteq> Q_finished" using a(3) by (auto simp: place_ok_home ended_def)
    have gq: "get_queue q st = Some qu" by (rule get_queue_home [OF I a(2) _ Some nf]) (use ac in simp)
    have del: "kq_del a st = Inr (unlink a st)" by (rule kq_del_unlink [OF kI_qwf [OF I] Some])
    let ?st1 = "upd a ?f (unlink a st)" and ?d = "sem_shift qu (-1) (\<lambda>_. 0)"
    have "kI {a, c} {a, c} {} ?d ?st1"
      using kI_unlink [OF I Some nf] a(2) by (intro kI_upd [where p = q]) auto
    from kI_enlink [OF this, of a "?f q" qu] have "kI ({a, c} - {a}) {a, c} {} (sem_shift qu 1 ?d) (enlink a qu ?st1)"
      using a(2) pl place_ok_eq [of "?f q" q st] by simp
    moreover have "{a, c} - {a} = {c}" using ac by auto
    moreover have "sem_shift qu 1 ?d = (\<lambda>_. 0)" by (cases qu) auto
    ultimately have J: "kI {c} {a, c} {} (\<lambda>_. 0) (enlink a qu ?st1)" by simp
    have "kI {c} ({a, c} - {a}) {} (\<lambda>_. 0) (enlink a qu ?st1)"
      by (rule kI_conts [OF J]) (use a(2) Some ac in \<open>auto intro!: cont_ok_reprio kI_cont_ok [OF I]\<close>)
    moreover have "kq_add a qu ?st1 = Inr (enlink a qu ?st1)" by (rule kq_add_enlink) simp
    ultimately show ?thesis using Some gq del a(2) \<open>{a, c} - {a} = {c}\<close> by (auto simp: q_linked_def)
  qed
qed

lemma chprio_ok:
  assumes R: "running st c p" and sk: "\<not> skip_message p"
  shows "safe (chprio i n st)"
proof -
  from R have c: "process_table st (current_pid st) = Some c" "procs st c = Some p" "state p = ELECTED"
    and I: "kI {c} {c} {} (\<lambda>_. 0) st" by (auto simp: running_def)
  have K: "kinv st" using R sk by (auto simp: kinv_running)
  show ?thesis
  proof (cases "\<not> is_valid_pid i st \<or> n > MAXPRIO \<or> n \<le> 0 \<or> i = 0")
    case True
    with K show ?thesis unfolding chprio_def by simp
  next
    case False
    then obtain a where a: "process_table st i = Some a" by (auto simp: is_valid_pid_def)
    from tabD [OF kID(2) [OF I] a] obtain q where q: "procs st a = Some q" by blast
    show ?thesis
    proof (cases "ended q")
      case True
      with False a q K show ?thesis unfolding chprio_def by (simp add: ended_def tbl_def deref_def)
    next
      case ne: False
      from reprio_ok [OF R a q this, of n] obtain st1 where
        r: "(if q_linked a (qs st) then
           case get_queue q st of
             None \<Rightarrow> Inl (Panic ''chprio: failed assertion'')
           | Some queue \<Rightarrow> bindE (kq_del a st) (\<lambda>st. kq_add a queue (upd a (priority_update (\<lambda>_. n)) st))
         else Inr (upd a (priority_update (\<lambda>_. n)) st)) = Inr st1"
        "kI {c} {c} {} (\<lambda>_. 0) st1" "process_table st1 = process_table st" "current_pid st1 = current_pid st"
        "procs st1 = (procs st)(a \<mapsto> q\<lparr>priority := n\<rparr>)" by blast
      obtain p1 where p1: "procs st1 c = Some p1" "state p1 = ELECTED" "\<not> skip_message p1"
        using r(5) c q sk by (cases "a = c") auto
      have "\<exists>st'. yield_to_scheduler (K_return (priority q)) st1 = Inr st' \<and> resumable st'"
        by (rule yield_ok [OF _ p1(1,2) r(2)]) (use c r p1 in auto)
      with False a q ne r(1) show ?thesis unfolding chprio_def
        by (auto simp: ended_def tbl_def deref_def)
    qed
  qed
qed

end
