(* ===== verification/Wake.thy ===== *)
theory Wake
  imports Process_Calls
begin

text \<open>
  Waking blocked processes: the loops and single steps that move a process from a
  semaphore's or a message queue's list to the activable list, and the completion of a
  system call after the context switch it may have caused.
\<close>

section \<open>A whole system call\<close>

text \<open>
  A system call as its caller sees it: if it gave up the processor, the elected process
  finishes its own call.
\<close>

definition complete :: "flow syscall_result \<Rightarrow> flow syscall_result" where
  "complete r = bindE r (\<lambda>(fl, st). if fl = Switch then resume st else Inr (fl, st))"

definition sound :: "flow syscall_result \<Rightarrow> bool" where
  "sound r \<longleftrightarrow> (\<exists>fl st. complete r = Inr (fl, st) \<and> kinv st \<and> fl \<noteq> Switch \<and> fl \<noteq> Hang)"

lemma safe_sound: "safe r \<Longrightarrow> sound r"
proof -
  assume "safe r"
  then obtain fl st where r: "r = Inr (fl, st)" "good fl st" by (auto simp: safe_def)
  show "sound r"
  proof (cases "fl = Switch")
    case True
    with r obtain n p where "running st n p" "ready st n p (cpu st)" by (auto simp: good_def resumable_def)
    from resume_ok [OF this] r True show ?thesis by (auto simp: sound_def complete_def)
  next
    case False
    with r have "kinv st \<and> fl \<noteq> Hang" by (auto simp: good_def split: flow.splits)
    with r False show ?thesis by (auto simp: sound_def complete_def)
  qed
qed

section \<open>Waking one process\<close>

definition awake :: "addr \<Rightarrow> (Process \<Rightarrow> Process) \<Rightarrow> kstate \<Rightarrow> kstate" where
  "awake a f st = enlink a Q_activable (upd a (state_update (\<lambda>_. ACTIVABLE)) (upd a f (unlink a st)))"

lemma awake_simps [simp]:
  "process_table (awake a f st) = process_table st"
  "current_pid (awake a f st) = current_pid st"
  "sems (awake a f st) = sems st"
  "semaphore_table (awake a f st) = semaphore_table st"
  "mqs (awake a f st) = mqs st"
  "queue_table (awake a f st) = queue_table st"
  "brk (awake a f st) = brk st"
  "procs (awake a f st) = (procs st)(a := map_option (\<lambda>p. (f p)\<lparr>state := ACTIVABLE\<rparr>) (procs st a))"
  "q \<noteq> Q_activable \<Longrightarrow> q_of q (awake a f st) = remove1 a (q_of q st)"
  "home (qs (awake a f st)) = (home (qs st))(a := Some Q_activable)"
  by (simp_all add: awake_def option.map_comp comp_def)

lemma activate_awake: "activate a (upd a f (unlink a st)) = Inr (awake a f st)"
  unfolding awake_def by (rule activate_eq) simp

text \<open>
  No process waits for \<^verbatim>\<open>start\<close> to return the pid of the process in block \<open>a\<close>. When \<^verbatim>\<open>start\<close>
  returns it resets the \<open>skip_message\<close> of the process it created, even if that process has
  meanwhile been woken by the deletion of a queue, and that process then takes the deletion
  for a message.
\<close>

definition no_pending_start :: "kstate \<Rightarrow> addr \<Rightarrow> bool" where
  "no_pending_start st a \<longleftrightarrow> (\<forall>b q. procs st b = Some q \<longrightarrow> state q = ACTIVABLE \<longrightarrow> registers q \<noteq> K_start a)"

lemma conts_skip:
  assumes ct: "conts Y st" and a: "procs st a = Some p" "a \<in> Y" and n: "no_pending_start st a"
  shows "conts Y (upd a (skip_message_update g) st)" (is "conts _ ?st")
  unfolding conts_def
proof (intro allI impI)
  fix b q assume b: "procs ?st b = Some q" "b \<notin> Y"
  then have bq: "procs st b = Some q" "b \<noteq> a" using a by (auto split: if_splits)
  with ct b have co: "cont_ok st b q" by (simp add: conts_def)
  have z: "zombie_child ?st = zombie_child st" using a by (intro zombie_child_upd) simp_all
  show "cont_ok ?st b q"
  proof (cases "ended q \<or> state q \<noteq> ACTIVABLE")
    case True
    with co show ?thesis by (auto simp: cont_ok_def blocked_ok_def ended_def split: State.splits)
  next
    case False
    with co have r: "ready st b q (registers q)" by (simp add: cont_ok_def)
    moreover have "registers q \<noteq> K_start a" using n bq False by (auto simp: no_pending_start_def)
    ultimately have "ready ?st b q (registers q)"
      by (cases "registers q") (auto simp: ready_def z)
    with False show ?thesis by (simp add: cont_ok_def)
  qed
qed

lemma kI_skip:
  assumes I: "kI X Y C d st" and a: "procs st a = Some p" "a \<in> Y" and n: "no_pending_start st a"
  shows "kI X Y C d (upd a (skip_message_update g) st)" (is "kI _ _ _ _ ?st")
proof -
  have "wfq ?st" by (rule wfq_upd [OF kID(1) [OF I]]) simp
  moreover have "tab ?st" using kID(2) [OF I] a by (intro tab_upd [where p = p]) auto
  moreover have "stale ?st" using kID(6) [OF I] a by (intro stale_upd [where p = p]) auto
  moreover have "family C ?st" using kID(4) [OF I] a by (intro family_upd [where p = p]) auto
  moreover have "conts Y ?st" by (rule conts_skip [OF kID(10) [OF I] a n])
  moreover have "places X ?st"
  proof (rule placesI)
    fix e r assume "procs ?st e = Some r" "e \<in> X"
    with placesD(1) [OF kID(3) [OF I]] a show "home (qs ?st) e = None \<and> state r \<noteq> FINISHED"
      by (cases "e = a") auto
  next
    fix e r assume "procs ?st e = Some r" "e \<notin> X"
    then obtain r0 where "procs st e = Some r0" "e \<notin> X" "state r = state r0" "waited_sem r = waited_sem r0"
      using a by (cases "e = a") auto
    with placesD(2) [OF kID(3) [OF I]] place_ok_eq [of r r0 st]
    show "state r \<noteq> ELECTED \<and> place_ok ?st r (home (qs ?st) e)" by simp
  qed
  moreover have "idle_ok X ?st"
  proof -
    obtain z r where "process_table st 0 = Some z" "procs st z = Some r"
      "state r = ACTIVABLE \<or> z \<in> X \<and> state r = ELECTED" using kID(5) [OF I] unfolding idle_ok_def by blast
    then show ?thesis unfolding idle_ok_def by (cases "z = a") auto
  qed
  moreover have "sem_inv d ?st" by (rule sem_inv_length [OF kID(7) [OF I]]) simp_all
  moreover have "mq_inv ?st" "fresh ?st" using kID(8,9) [OF I] a by (auto simp: mq_inv_def fresh_def)
  ultimately show ?thesis by (simp add: kI_def)
qed

lemma kI_awake:
  assumes I: "kI X Y C d st" and a: "home (qs st) a = Some q" "q \<noteq> Q_finished" "procs st a = Some p" "\<not> ended p"
    and f: "f = id \<or> f = skip_message_update (\<lambda>_. True) \<and> no_pending_start st a"
    and k: "a \<notin> Y \<Longrightarrow> ready st a (f p) (registers p)"
  shows "kI X Y C (sem_shift q (-1) d) (awake a f st)"
proof -
  let ?d = "sem_shift q (-1) d"
  have aX: "a \<notin> X" using placesD(1) [OF kID(3) [OF I] a(3)] a(1) by auto
  have I1: "kI (insert a X) (insert a Y) C ?d (unlink a st)" by (rule kI_unlink [OF I a(1,2)])
  have I2: "kI (insert a X) (insert a Y) C ?d (upd a f (unlink a st))"
    using f
  proof
    assume "f = id"
    with I1 a show ?thesis by (intro kI_upd [where p = p]) auto
  next
    assume f: "f = skip_message_update (\<lambda>_. True) \<and> no_pending_start st a"
    then have "no_pending_start (unlink a st) a" by (simp add: no_pending_start_def)
    with kI_skip [OF I1, of a p] a f show ?thesis by simp
  qed
  have fp: "state (f p) = state p" "pid (f p) = pid p" "registers (f p) = registers p"
    using f by auto
  have "kI (insert a X - {a}) (insert a Y) C ?d (awake a f st)"
    unfolding awake_def using I2 a fp by (intro kI_activate [where p = "f p"]) (auto simp: ended_def)
  then have I3: "kI X (insert a Y) C ?d (awake a f st)" using aX by simp
  show ?thesis
  proof (cases "a \<in> Y")
    case True
    with I3 show ?thesis by (simp add: insert_absorb)
  next
    case False
    have act: "cont_ok (awake a f st) a ((f p)\<lparr>state := ACTIVABLE\<rparr>)"
    proof -
      have r: "ready st a (f p) (registers p)" by (rule k [OF False])
      have "zombie_child (awake a f st) g c" if z: "zombie_child st g c" for g c
      proof -
        from z obtain e r where e: "c \<noteq> 0" "process_table st c = Some e" "procs st e = Some r" "state r = ZOMBIE" "father_pid r = g"
          unfolding zombie_child_def by blast
        then have "e \<noteq> a" using a by (auto simp: ended_def)
        with e show ?thesis unfolding zombie_child_def by simp
      qed
      moreover have "\<exists>q'. procs (awake a f st) b = Some q' \<and> state q' \<noteq> FINISHED \<and> pid q' \<noteq> 0 \<and> father_pid q' = pid p \<and> \<not> skip_message q'"
        if "procs st b = Some q" "state q \<noteq> FINISHED" "pid q \<noteq> 0" "father_pid q = pid p" "\<not> skip_message q" "b \<noteq> a" for b q
        using that by simp
      ultimately show ?thesis
        using r a f fp
        by (cases "registers p") (auto simp: cont_ok_def ready_def)
    qed
    have "kI X (insert a Y - {a}) C ?d (awake a f st)"
      by (rule kI_conts [OF I3]) (use act a in auto)
    with False show ?thesis by simp
  qed
qed


lemma kI_queue_member:
  assumes I: "kI X Y C d st" and a: "a \<in> set (q_of q st)"
  shows "\<exists>p. procs st a = Some p \<and> home (qs st) a = Some q \<and> a \<notin> X \<and> place_ok st p (Some q)"
proof -
  have h: "home (qs st) a = Some q" using a kI_qwf [OF I] by (simp add: qwf_home)
  then obtain p where p: "procs st a = Some p" using kID(1) [OF I] unfolding wfq_def by blast
  have "a \<notin> X" using placesD(1) [OF kID(3) [OF I] p] h by auto
  with placesD(2) [OF kID(3) [OF I] p] h p show ?thesis by simp
qed

section \<open>Waking a whole queue\<close>

text \<open>A blocked process that will be ready when it is woken with the change \<open>f\<close>, whatever happens to others.\<close>

definition wakeable :: "(Process \<Rightarrow> Process) \<Rightarrow> kstate \<Rightarrow> addr \<Rightarrow> Process \<Rightarrow> bool" where
  "wakeable f st a p \<longleftrightarrow> (\<forall>x. registers p \<noteq> K_start x) \<and>
     (\<forall>st'. sems st' = sems st \<longrightarrow> ready st' a (f p) (registers p))"

definition woke_others :: "addr set \<Rightarrow> kstate \<Rightarrow> kstate \<Rightarrow> bool" where
  "woke_others X st st' \<longleftrightarrow> process_table st' = process_table st \<and> current_pid st' = current_pid st \<and>
     sems st' = sems st \<and> semaphore_table st' = semaphore_table st \<and> mqs st' = mqs st \<and>
     queue_table st' = queue_table st \<and> brk st' = brk st \<and> (\<forall>a \<in> X. procs st' a = procs st a)"

lemma woke_others_refl: "woke_others X st st"
  by (simp add: woke_others_def)

lemma woke_others_trans: "woke_others X st st1 \<Longrightarrow> woke_others X st1 st2 \<Longrightarrow> woke_others X st st2"
  by (simp add: woke_others_def)

lemma wake_all_ok:
  assumes "kI X Y C d st" and q: "(\<exists>s. q = Q_sem s) \<or> (\<exists>s. q = Q_mq s)" and "Y \<subseteq> X"
    and f: "f = id \<or> f = skip_message_update (\<lambda>_. True)"
    and "\<And>a. a \<in> set (q_of q st) \<Longrightarrow> f \<noteq> id \<Longrightarrow> no_pending_start st a"
    and "\<And>a p. a \<in> set (q_of q st) \<Longrightarrow> procs st a = Some p \<Longrightarrow> wakeable f st a p"
  shows "\<exists>st'. wake_all (length (q_of q st)) f q st = Inr st' \<and>
    kI X Y C (sem_shift q (- int (length (q_of q st))) d) st' \<and> q_of q st' = [] \<and> woke_others X st st'"
  using assms(1,5,6)
proof (induction "length (q_of q st)" arbitrary: st d)
  case 0
  moreover have "sem_shift q 0 d = d" using q by auto
  ultimately show ?case by (simp add: woke_others_refl)
next
  case (Suc n)
  let ?a = "last (q_of q st)"
  have ne: "q_of q st \<noteq> []" using Suc.hyps(2) by auto
  then have am: "?a \<in> set (q_of q st)" by simp
  from kI_queue_member [OF Suc.prems(1) am] obtain p where p: "procs st ?a = Some p" "home (qs st) ?a = Some q" "?a \<notin> X"
    "place_ok st p (Some q)" by blast
  have ne': "\<not> ended p" using p(4) q by (auto simp: ended_def place_ok_home)
  have w: "wakeable f st ?a p" by (rule Suc.prems(3) [OF am p(1)])
  let ?st1 = "awake ?a f st"
  have J: "kI X Y C (sem_shift q (-1) d) ?st1"
    by (rule kI_awake [OF Suc.prems(1) p(2) _ p(1) ne']) (use q f Suc.prems(2) [OF am] w in \<open>auto simp: wakeable_def\<close>)
  have q1: "q_of q ?st1 = remove1 ?a (q_of q st)" using q by auto
  have dist: "distinct (q_of q st)" using kI_qwf [OF Suc.prems(1)] by (simp add: qwf_def)
  have n1: "n = length (q_of q ?st1)" using Suc.hyps(2) am by (simp add: q1 length_remove1)
  have "\<exists>st'. wake_all (length (q_of q ?st1)) f q ?st1 = Inr st' \<and>
      kI X Y C (sem_shift q (- int (length (q_of q ?st1))) (sem_shift q (-1) d)) st' \<and> q_of q st' = [] \<and> woke_others X ?st1 st'"
  proof (rule Suc.hyps(1) [OF n1 J])
    fix b assume b: "b \<in> set (q_of q ?st1)"
    then have b': "b \<in> set (q_of q st)" "b \<noteq> ?a" using dist by (auto simp: q1)
    show "no_pending_start ?st1 b" if "f \<noteq> id"
      using Suc.prems(2) [OF b'(1) that] w p(1) f by (auto simp: no_pending_start_def wakeable_def)
    show "wakeable f ?st1 b r" if "procs ?st1 b = Some r" for r
      using Suc.prems(3) [OF b'(1)] that b'(2) by (simp add: wakeable_def)
  qed
  then obtain st' where st': "wake_all n f q ?st1 = Inr st'"
    "kI X Y C (sem_shift q (- int n) (sem_shift q (-1) d)) st'" "q_of q st' = []" "woke_others X ?st1 st'"
    unfolding n1 [symmetric] by blast
  have "wake_all (length (q_of q st)) f q st = wake_all n f q ?st1"
    using kq_out_unlink [OF kI_qwf [OF Suc.prems(1)] ne] Suc.hyps(2) activate_awake [of ?a f st]
    by (simp flip: Suc.hyps(2))
  moreover have "sem_shift q (- int n) (sem_shift q (-1) d) = sem_shift q (- int (length (q_of q st))) d"
    using q by (auto simp: fun_eq_iff simp flip: Suc.hyps(2))
  moreover have "woke_others X st ?st1" using p(3) by (auto simp: woke_others_def)
  ultimately show ?case using st' woke_others_trans by fastforce
qed


lemma yield_running:
  assumes "running st c p" "\<not> skip_message p"
  shows "safe (bindE (yield_to_scheduler (K_return v) st) (\<lambda>st. Inr (Switch, st)))"
  by (rule safe_switch, rule yield_ok [of st c p]) (use assms in \<open>auto simp: running_def\<close>)

end
