(* ===== verification/Message_Queue_Inv.thy ===== *)
theory Message_Queue_Inv
  imports Message_Queue Wake
begin

text \<open>The system calls on message queues keep the kernel invariant and run without fault.\<close>

section \<open>The circular buffer\<close>

text \<open>The messages in a queue, oldest first.\<close>

definition contents :: "MessageQueue \<Rightarrow> int list" where
  "contents q = map (\<lambda>k. buffer q ! nat ((tail q + int k) mod capacity q)) [0..<nat (nb_msg q)]"

lemma next_index_mod: "0 \<le> i \<Longrightarrow> i < capacity q \<Longrightarrow> next_index q i = (i + 1) mod capacity q"
  by (cases "i + 1 = capacity q") (auto simp: next_index_def)

lemma buffer_ok_head: "buffer_ok q \<Longrightarrow> 0 \<le> head q \<and> head q < capacity q"
  by (auto simp: buffer_ok_def)

lemma put_msg_ok:
  assumes "buffer_ok q" "nb_msg q < capacity q"
  shows "buffer_ok (put_msg m q\<lparr>nb_msg := nb_msg q + 1\<rparr>)"
proof -
  have "next_index q (head q) = (tail q + (nb_msg q + 1)) mod capacity q"
    using buffer_ok_head [OF assms(1)] assms(1)
    by (simp add: next_index_mod buffer_ok_def mod_add_left_eq add.assoc)
  with assms show ?thesis by (auto simp: buffer_ok_def put_msg_def next_index_def)
qed

lemma take_msg_ok:
  assumes "buffer_ok q" "0 < nb_msg q"
  shows "buffer_ok (q\<lparr>tail := next_index q (tail q), nb_msg := nb_msg q - 1\<rparr>)"
proof -
  have "(next_index q (tail q) + (nb_msg q - 1)) mod capacity q = head q"
    using assms(1) by (simp add: next_index_mod buffer_ok_def mod_add_left_eq)
  with assms show ?thesis by (auto simp: buffer_ok_def next_index_def)
qed

text \<open>A message taken from a full buffer and one put in its place.\<close>

lemma exchange_msg_ok:
  assumes "buffer_ok q" "nb_msg q = capacity q"
  shows "buffer_ok (put_msg m (q\<lparr>tail := next_index q (tail q)\<rparr>))"
proof -
  have h: "head q = tail q" using assms by (simp add: buffer_ok_def)
  have "next_index q (tail q) = (next_index q (tail q) + capacity q) mod capacity q"
    using assms(1) by (auto simp: next_index_def buffer_ok_def)
  with assms h show ?thesis by (auto simp: buffer_ok_def put_msg_def next_index_def)
qed

section \<open>Lookup and update\<close>

lemma mq_lookup_ok:
  assumes "kI X Y C d st" "mq_lookup i st = Some qa"
  obtains q where "queue_table st i = Some qa" "mqs st qa = Some q" "fid q = i" "buffer_ok q"
proof -
  have t: "queue_table st i = Some qa" using assms(2) by (simp add: mq_lookup_def split: if_splits)
  moreover from t kID(8) [OF assms(1)] obtain q where "mqs st qa = Some q" "fid q = i" "buffer_ok q"
    unfolding mq_inv_def by blast
  ultimately show ?thesis by (intro that)
qed

lemma upd_mq_simps [simp]:
  "procs (upd_mq s f st) = procs st"
  "process_table (upd_mq s f st) = process_table st"
  "current_pid (upd_mq s f st) = current_pid st"
  "qs (upd_mq s f st) = qs st"
  "mqs (upd_mq s f st) = (mqs st)(s := map_option f (mqs st s))"
  "semaphore_table (upd_mq s f st) = semaphore_table st"
  "sems (upd_mq s f st) = sems st"
  "queue_table (upd_mq s f st) = queue_table st"
  "brk (upd_mq s f st) = brk st"
  by (simp_all add: upd_mq_def)

text \<open>
  Changing the queue at \<open>qa\<close>: the processes blocked on it must still fit its number of
  messages, unless their continuations are excepted.
\<close>

lemma kI_upd_mq:
  assumes I: "kI X Y C d st" and q: "mqs st qa = Some q" "fid (f q) = fid q" "buffer_ok (f q)" and Y: "Y \<subseteq> Y'"
    and w: "\<And>a. a \<in> set (q_of (Q_mq qa) st) \<Longrightarrow> a \<notin> Y' \<Longrightarrow>
      (nb_msg q = 0 \<longrightarrow> nb_msg (f q) = 0) \<and> (nb_msg q = capacity q \<longrightarrow> nb_msg (f q) = capacity (f q))"
  shows "kI X Y' C d (upd_mq qa f st)" (is "kI _ _ _ _ ?st")
proof -
  have e: "place_ok ?st = place_ok st" "child_of ?st = child_of st" "zombie_child ?st = zombie_child st" "prio_of ?st = prio_of st"
    by (rule place_ok_cong) (simp_all add: child_of_def zombie_child_def prio_of_def fun_eq_iff)
  have "conts Y' ?st"
  proof (rule conts_mono [OF kID(10) [OF I] Y])
    fix a x y assume a: "a \<notin> Y'" "home (qs st) a = Some (Q_mq x)" "mqs st x = Some y"
    have "a \<in> set (q_of (Q_mq x) st)" using a(2) kI_qwf [OF I] by (simp add: qwf_home)
    then show "\<exists>q'. mqs ?st x = Some q' \<and> (nb_msg y = 0 \<longrightarrow> nb_msg q' = 0) \<and> (nb_msg y = capacity y \<longrightarrow> nb_msg q' = capacity q')"
      using w [of a] a q by (cases "x = qa") auto
  qed (use e in auto)
  moreover have "mq_inv ?st"
  proof -
    have "0 \<le> i \<and> i < int NBQUEUE \<and> (\<exists>r. mqs ?st x = Some r \<and> fid r = i \<and> buffer_ok r)" if "queue_table st i = Some x" for i x
    proof -
      from that kID(8) [OF I] obtain r where "0 \<le> i" "i < int NBQUEUE" "mqs st x = Some r" "fid r = i" "buffer_ok r"
        unfolding mq_inv_def by blast
      with q show ?thesis by (cases "x = qa") auto
    qed
    then show ?thesis by (simp add: mq_inv_def)
  qed
  moreover have "sem_inv d ?st" by (rule sem_inv_length [OF kID(7) [OF I]]) simp_all
  moreover have "fresh ?st" using kID(9) [OF I] q by (auto simp: fresh_def)
  ultimately show ?thesis
    using I e by (simp add: kI_def wfq_def tab_def places_def family_def idle_ok_def stale_def)
qed

lemma mq_member:
  assumes I: "kI X Y C d st" and a: "a \<in> set (q_of (Q_mq qa) st)" "Y \<subseteq> X" and q: "mqs st qa = Some q"
  shows "\<exists>p. procs st a = Some p \<and> home (qs st) a = Some (Q_mq qa) \<and> a \<notin> X \<and> state p = IN_MSGQUEUE \<and>
    \<not> skip_message p \<and> (nb_msg q = 0 \<and> (\<exists>m. registers p = K_preceive qa a m) \<or>
                         nb_msg q = capacity q \<and> registers p = K_psend a)"
proof -
  from kI_queue_member [OF I a(1)] obtain p where p: "procs st a = Some p" "home (qs st) a = Some (Q_mq qa)" "a \<notin> X"
    "state p = IN_MSGQUEUE" by (auto simp: place_ok_home)
  with a(2) have "a \<notin> Y" by auto
  from kI_cont_ok [OF I p(1) this] p q show ?thesis
    by (auto simp: cont_ok_def ended_def blocked_ok_def)
qed

lemma no_waiters:
  assumes I: "kI X Y C d st" and "Y \<subseteq> X" "mqs st qa = Some q" "nb_msg q \<noteq> 0" "nb_msg q \<noteq> capacity q"
  shows "q_of (Q_mq qa) st = []"
proof (rule ccontr)
  assume "q_of (Q_mq qa) st \<noteq> []"
  then have "hd (q_of (Q_mq qa) st) \<in> set (q_of (Q_mq qa) st)" by simp
  from mq_member [OF I this assms(2,3)] assms(4,5) show False by auto
qed

section \<open>The calls\<close>

lemma preset_pdelete_wake:
  assumes I: "kI {c} {c} {} (\<lambda>_. 0) st" and q: "mqs st qa = Some q"
    and g: "\<And>a. a \<in> set (q_of (Q_mq qa) st) \<Longrightarrow> no_pending_start st a"
  shows "\<exists>st'. wake_all (length (q_of (Q_mq qa) st)) (skip_message_update (\<lambda>_. True)) (Q_mq qa) st = Inr st' \<and>
    kI {c} {c} {} (\<lambda>_. 0) st' \<and> q_of (Q_mq qa) st' = [] \<and> woke_others {c} st st'"
proof -
  have "wakeable (skip_message_update (\<lambda>_. True)) st a p" if "a \<in> set (q_of (Q_mq qa) st)" "procs st a = Some p" for a p
    using mq_member [OF I that(1) _ q] that(2) by (auto simp: wakeable_def ready_def)
  with wake_all_ok [OF I, of "Q_mq qa" "skip_message_update (\<lambda>_. True)"] g show ?thesis by auto
qed

lemma preset_ok:
  assumes R: "running st c p" and sk: "\<not> skip_message p"
    and g: "\<And>qa a. mq_lookup i st = Some qa \<Longrightarrow> a \<in> set (q_of (Q_mq qa) st) \<Longrightarrow> no_pending_start st a"
  shows "safe (preset i st)"
proof (cases "mq_lookup i st")
  case None
  then show ?thesis using assms by (auto simp: preset_def kinv_running)
next
  case (Some qa)
  from R have I: "kI {c} {c} {} (\<lambda>_. 0) st" by (simp add: running_def)
  from I Some obtain q where q: "mqs st qa = Some q" "buffer_ok q" by (rule mq_lookup_ok)
  from preset_pdelete_wake [OF I q(1) g [OF Some]] obtain st1 where
    st1: "wake_all (length (q_of (Q_mq qa) st)) (skip_message_update (\<lambda>_. True)) (Q_mq qa) st = Inr st1"
      "kI {c} {c} {} (\<lambda>_. 0) st1" "q_of (Q_mq qa) st1 = []" "woke_others {c} st st1" by blast
  have q1: "mqs st1 qa = Some q" using q st1(4) by (simp add: woke_others_def)
  let ?f = "\<lambda>q. q\<lparr>nb_msg := 0, head := 0, tail := 0\<rparr>"
  have "kI {c} {c} {} (\<lambda>_. 0) (upd_mq qa ?f st1)"
    by (rule kI_upd_mq [OF st1(2) q1]) (use q st1(3) in \<open>auto simp: buffer_ok_def\<close>)
  with R st1(4) have "running (upd_mq qa ?f st1) c p" by (simp add: running_def woke_others_def)
  from yield_running [OF this sk] show ?thesis using Some st1(1) by (simp add: preset_def)
qed

lemma kI_drop_mq:
  assumes I: "kI X Y C d st" and s: "queue_table st i = Some s" "q_of (Q_mq s) st = []"
  shows "kI X Y C d (st\<lparr>queue_table := (queue_table st)(i := None), mqs := (mqs st)(s := None)\<rparr>)" (is "kI _ _ _ _ ?st")
proof -
  have e: "child_of ?st = child_of st" "zombie_child ?st = zombie_child st" "prio_of ?st = prio_of st"
    by (simp_all add: child_of_def zombie_child_def prio_of_def fun_eq_iff)
  have nh: "home (qs st) b \<noteq> Some (Q_mq s)" for b
    using qwf_home [OF kI_qwf [OF I], of b "Q_mq s"] s(2) by auto
  have inj: "j = i" if "queue_table st j = Some s" for j
    using kID(8) [OF I] s(1) that unfolding mq_inv_def by (metis option.inject)
  have "places X ?st"
  proof (rule placesI)
    fix b q assume b: "procs ?st b = Some q" "b \<notin> X"
    then have pl: "state q \<noteq> ELECTED" "place_ok st q (home (qs st) b)"
      using placesD(2) [OF kID(3) [OF I], of b q] by auto
    have "\<exists>j qa. queue_table ?st j = Some qa \<and> home (qs st) b = Some (Q_mq qa)" if "state q = IN_MSGQUEUE"
    proof -
      from pl(2) that obtain j qa where j: "queue_table st j = Some qa" "home (qs st) b = Some (Q_mq qa)"
        by (auto simp: place_ok_def)
      with nh have "j \<noteq> i" using s(1) by auto
      with j show ?thesis by auto
    qed
    with pl show "state q \<noteq> ELECTED \<and> place_ok ?st q (home (qs ?st) b)"
      by (cases "state q") (auto simp: place_ok_def)
  qed (use placesD(1) [OF kID(3) [OF I]] in auto)
  moreover have "conts Y ?st" by (rule conts_mono [OF kID(10) [OF I]]) (use e nh in auto)
  moreover have "mq_inv ?st"
  proof -
    have "0 \<le> j \<and> j < int NBQUEUE \<and> (\<exists>q. mqs ?st x = Some q \<and> fid q = j \<and> buffer_ok q)" if "queue_table ?st j = Some x" for j x
    proof -
      from that have j: "queue_table st j = Some x" "j \<noteq> i" by (auto split: if_splits)
      then have "x \<noteq> s" using inj by auto
      with j kID(8) [OF I] show ?thesis unfolding mq_inv_def by auto
    qed
    then show ?thesis by (simp add: mq_inv_def)
  qed
  moreover have "sem_inv d ?st" by (rule sem_inv_length [OF kID(7) [OF I]]) simp_all
  moreover have "fresh ?st" using kID(9) [OF I] by (auto simp: fresh_def)
  ultimately show ?thesis
    using I e by (simp add: kI_def wfq_def tab_def family_def idle_ok_def stale_def)
qed

lemma pdelete_ok:
  assumes R: "running st c p" and sk: "\<not> skip_message p"
    and g: "\<And>qa a. mq_lookup i st = Some qa \<Longrightarrow> a \<in> set (q_of (Q_mq qa) st) \<Longrightarrow> no_pending_start st a"
  shows "safe (pdelete i st)"
proof (cases "mq_lookup i st")
  case None
  then show ?thesis using assms by (auto simp: pdelete_def kinv_running)
next
  case (Some qa)
  from R have I: "kI {c} {c} {} (\<lambda>_. 0) st" by (simp add: running_def)
  from I Some obtain q where q: "queue_table st i = Some qa" "mqs st qa = Some q" by (rule mq_lookup_ok)
  from preset_pdelete_wake [OF I q(2) g [OF Some]] obtain st1 where
    st1: "wake_all (length (q_of (Q_mq qa) st)) (skip_message_update (\<lambda>_. True)) (Q_mq qa) st = Inr st1"
      "kI {c} {c} {} (\<lambda>_. 0) st1" "q_of (Q_mq qa) st1 = []" "woke_others {c} st st1" by blast
  let ?st2 = "st1\<lparr>queue_table := (queue_table st1)(i := None), mqs := (mqs st1)(qa := None)\<rparr>"
  have "kI {c} {c} {} (\<lambda>_. 0) ?st2"
    by (rule kI_drop_mq [OF st1(2) _ st1(3)]) (use q st1(4) in \<open>simp add: woke_others_def\<close>)
  with R st1(4) have "running ?st2 c p" by (simp add: running_def woke_others_def)
  from yield_running [OF this sk] show ?thesis using Some st1(1) by (simp add: pdelete_def)
qed


text \<open>The receiver that \<^verbatim>\<open>psend\<close> elects takes its message at once and the queue is empty again.\<close>

lemma deliver_ok:
  assumes I: "kI {n} W {} (\<lambda>_. 0) st" and n: "process_table st (current_pid st) = Some n" "procs st n = Some p"
      "state p = ELECTED" "\<not> skip_message p"
    and q: "mqs st qa = Some q" "buffer_ok q" "nb_msg q = 1" and k: "cpu st = K_preceive qa n m"
    and W: "\<And>a r. a \<in> W \<Longrightarrow> a \<noteq> n \<Longrightarrow> procs st a = Some r \<Longrightarrow> state r = IN_MSGQUEUE \<and> home (qs st) a = Some (Q_mq qa) \<and>
      \<not> skip_message r \<and> (\<exists>m. registers r = K_preceive qa a m)"
    and sub: "set (q_of (Q_mq qa) st) \<subseteq> W"
  shows "\<exists>st'. resume st = Inr (Return 0, st') \<and> kinv st'"
proof -
  let ?st1 = "if m \<noteq> 0 then store_user m (buffer q ! nat (tail q)) st else st"
  let ?q = "q\<lparr>tail := next_index q (tail q), nb_msg := nb_msg q - 1\<rparr>"
  let ?f = "\<lambda>_. ?q"
  let ?st2 = "?st1\<lparr>mqs := (mqs ?st1)(qa \<mapsto> ?q)\<rparr>"
  have e2: "?st2 = upd_mq qa ?f ?st1" using q by (auto simp: upd_mq_def)
  have "kI {n} W {} (\<lambda>_. 0) ?st1" using I by simp
  then have J: "kI {n} W {} (\<lambda>_. 0) ?st2"
    unfolding e2 by (rule kI_upd_mq) (use q take_msg_ok [of q] sub in \<open>auto split: if_splits\<close>)
  have "cont_ok ?st2 a r" if a: "procs ?st2 a = Some r" "a \<noteq> n" for a r
  proof (cases "a \<in> W")
    case False
    with kI_cont_ok [OF J a(1)] show ?thesis by blast
  next
    case True
    have "procs st a = Some r" using a(1) by (auto split: if_splits)
    from W [OF True a(2) this] show ?thesis using q by (auto simp: cont_ok_def ended_def blocked_ok_def)
  qed
  then have "conts {n} ?st2" by (simp add: conts_def)
  with J have "kI {n} {n} {} (\<lambda>_. 0) ?st2" by (simp add: kI_def)
  then have "kinv ?st2" unfolding kinv_def using n by (intro exI [of _ n] exI [of _ p]) auto
  moreover have "resume st = Inr (Return 0, ?st2)"
    using k n q by (simp add: resume_def resume_preceive_def deref_def Let_def)
  ultimately show ?thesis by blast
qed


lemma psend_deliver:
  assumes R: "running st c p" and sk: "\<not> skip_message p"
    and q: "mqs st qa = Some q" "buffer_ok q" "nb_msg q = 0" and w: "q_of (Q_mq qa) st \<noteq> []"
    and st1: "st1 = upd_mq qa (\<lambda>q. put_msg v q\<lparr>nb_msg := nb_msg q + 1\<rparr>) st"
  shows "\<exists>n st2 new st4 st5. kq_out (Q_mq qa) st1 = (Some n, st2) \<and>
     activate c st2 = Inr st4 \<and> deref n (upd n (state_update (\<lambda>_. ELECTED)) st4) = Inr new \<and>
     virtual_ctx_sw (Some c) (K_return 0) n ((upd n (state_update (\<lambda>_. ELECTED)) st4)\<lparr>current_pid := pid new\<rparr>) = Inr st5 \<and>
     (\<exists>st6. resume st5 = Inr (Return 0, st6) \<and> kinv st6)"
proof -
  from R have c: "process_table st (current_pid st) = Some c" "procs st c = Some p" "state p = ELECTED"
    and I: "kI {c} {c} {} (\<lambda>_. 0) st" by (auto simp: running_def)
  let ?W = "set (q_of (Q_mq qa) st)" and ?n = "last (q_of (Q_mq qa) st)"
  let ?q1 = "put_msg v q\<lparr>nb_msg := nb_msg q + 1\<rparr>"
  have b1: "buffer_ok ?q1" by (rule put_msg_ok [OF q(2)]) (use q in \<open>auto simp: buffer_ok_def\<close>)
  have I1: "kI {c} ({c} \<union> ?W) {} (\<lambda>_. 0) st1"
    unfolding st1 by (rule kI_upd_mq [OF I q(1)]) (use b1 in \<open>auto simp: put_msg_def\<close>)
  have nW: "?n \<in> ?W" using w by simp
  have wait: "\<exists>r. procs st a = Some r \<and> home (qs st) a = Some (Q_mq qa) \<and> a \<noteq> c \<and> state r = IN_MSGQUEUE \<and>
      \<not> skip_message r \<and> (\<exists>m. registers r = K_preceive qa a m)" if "a \<in> ?W" for a
    using mq_member [OF I that _ q(1)] q(2,3) by (auto simp: buffer_ok_def)
  from wait [OF nW] obtain r m where r: "procs st ?n = Some r" "home (qs st) ?n = Some (Q_mq qa)" "?n \<noteq> c"
    "state r = IN_MSGQUEUE" "\<not> skip_message r" "registers r = K_preceive qa ?n m" by blast
  let ?st2 = "unlink ?n st1"
  have "q_of (Q_mq qa) st1 \<noteq> []" "last (q_of (Q_mq qa) st1) = ?n" using w by (auto simp: st1)
  then have out: "kq_out (Q_mq qa) st1 = (Some ?n, ?st2)" using kq_out_unlink [OF kI_qwf [OF I1]] by fastforce
  have I2: "kI {?n, c} ({c} \<union> ?W) {} (\<lambda>_. 0) ?st2"
    using kI_unlink [OF I1, of ?n "Q_mq qa"] r(2) nW by (simp add: st1 insert_absorb)
  let ?st4 = "enlink c Q_activable (upd c (state_update (\<lambda>_. ACTIVABLE)) ?st2)"
  have p2: "procs ?st2 c = Some p" "procs ?st2 ?n = Some r" using c r by (simp_all add: st1)
  have hc: "home (qs ?st2) c = None" using placesD(1) [OF kID(3) [OF I2] p2(1)] by simp
  have "kI ({?n, c} - {c}) ({c} \<union> ?W) {} (\<lambda>_. 0) ?st4"
    by (rule kI_activate [OF I2 _ _ p2(1)]) (use c in \<open>auto simp: ended_def\<close>)
  then have I4: "kI {?n} ({c} \<union> ?W) {} (\<lambda>_. 0) ?st4" using r(3) by (simp add: insert_Diff_if)
  let ?st5 = "upd ?n (state_update (\<lambda>_. ELECTED)) ?st4"
  let ?new = "r\<lparr>state := ELECTED\<rparr>" and ?p = "p\<lparr>state := ACTIVABLE\<rparr>"
  have I5: "kI {?n} ({c} \<union> ?W) {} (\<lambda>_. 0) ?st5"
    by (rule kI_upd [OF I4, where p = r]) (use p2 r nW in auto)
  let ?st6 = "?st5\<lparr>current_pid := pid ?new\<rparr>"
  have p6: "procs ?st6 ?n = Some ?new" "procs ?st6 c = Some ?p" using p2 r(3) by auto
  note sw = virtual_ctx_sw_eq [OF p6, of "K_return 0"]
  define st7 where "st7 = (saved c (K_return 0) ?st6)\<lparr>mm := (mm ?st6)\<lparr>CR3 := cr3 ?new\<rparr>, tss_cr3 := cr3 ?new,
    tss_esp0 := (fst (kernel_stack ?new), snd (kernel_stack ?new) + 4 * kernel_stack_size ?new),
    cpu := (if ?n = c then K_return 0 else registers ?new)\<rparr>"
  have I6: "kI {?n} ({c} \<union> ?W) {} (\<lambda>_. 0) (saved c (K_return 0) ?st6)"
    unfolding saved_def using I5 p6 by (intro kI_upd [where p = ?p]) auto
  have cW: "c \<notin> ?W" using wait by blast
  have "kI {?n} ({c} \<union> ?W - {c}) {} (\<lambda>_. 0) (saved c (K_return 0) ?st6)"
    by (rule kI_conts [OF I6]) (use p6 sk in \<open>auto simp: procs_saved cont_ok_def ready_def\<close>)
  then have I7: "kI {?n} ?W {} (\<lambda>_. 0) st7" using cW by (simp add: st7_def)
  have "\<exists>st8. resume st7 = Inr (Return 0, st8) \<and> kinv st8"
  proof (rule deliver_ok [OF I7])
    have "process_table st (pid r) = Some ?n" using tabD' [OF kID(2) [OF I] r(1)] r(4) by simp
    then show "process_table st7 (current_pid st7) = Some ?n" by (simp add: st7_def st1)
    show "procs st7 ?n = Some ?new" using p6 r(3) by (simp add: st7_def procs_saved)
    show "mqs st7 qa = Some ?q1" using q(1) by (simp add: st7_def st1)
    show "buffer_ok ?q1" by (rule b1)
    show "nb_msg ?q1 = 1" using q(3) by (simp add: put_msg_def)
    show "cpu st7 = K_preceive qa ?n m" using r by (simp add: st7_def)
    show "set (q_of (Q_mq qa) st7) \<subseteq> ?W" by (simp add: st7_def st1 set_remove1_subset)
    show "state x = IN_MSGQUEUE \<and> home (qs st7) a = Some (Q_mq qa) \<and> \<not> skip_message x \<and> (\<exists>m. registers x = K_preceive qa a m)"
      if "a \<in> ?W" "a \<noteq> ?n" "procs st7 a = Some x" for a x
      using wait [OF that(1)] that(2,3) by (auto simp: st7_def st1 procs_saved)
  qed (use r in simp_all)
  moreover have "activate c ?st2 = Inr ?st4" by (rule activate_eq [OF hc])
  moreover have "deref ?n ?st5 = Inr ?new" using p6(1) by (simp add: deref_def del: upd_simps(1))
  moreover have "virtual_ctx_sw (Some c) (K_return 0) ?n ?st6 = Inr st7" using sw by (simp add: st7_def)
  ultimately show ?thesis using out by blast
qed


lemma running_kinv: "running st c p \<Longrightarrow> \<not> skip_message p \<Longrightarrow> kinv st"
  by (auto simp: kinv_running)

text \<open>The three ways of \<^verbatim>\<open>psend\<close> after the message is noted in the sender: hand over, wait, or store.\<close>

lemma psend_eq:
  assumes "mq_lookup i st = Some qa" "process_table st (current_pid st) = Some c"
    "st1 = upd c (message_update (\<lambda>_. v)) st" "mqs st1 qa = Some q"
  shows "psend i v st =
    (if nb_msg q = 0 \<and> q_of (Q_mq qa) st1 \<noteq> [] then
       let st = upd_mq qa (\<lambda>q. put_msg v q\<lparr>nb_msg := nb_msg q + 1\<rparr>) st1 in
       case kq_out (Q_mq qa) st of
         (None, st) \<Rightarrow> Inl (PageFault st)
       | (Some new_process, st) \<Rightarrow>
           bindE (activate c st) (\<lambda>st.
           let st = upd new_process (state_update (\<lambda>_. ELECTED)) st in
           bindE (deref new_process st) (\<lambda>new.
           bindE (virtual_ctx_sw (Some c) (K_return 0) new_process (st\<lparr>current_pid := pid new\<rparr>))
             (\<lambda>st. Inr (Switch, st))))
     else if nb_msg q = capacity q then
       bindE (block_current IN_MSGQUEUE (Q_mq qa) (K_psend c) st1) (\<lambda>st. Inr (Switch, st))
     else Inr (Return 0, upd_mq qa (\<lambda>q. put_msg v q\<lparr>nb_msg := nb_msg q + 1\<rparr>) st1))"
proof -
  have "mq_at qa st1 = Inr q" using assms(4) by (simp add: mq_at_def)
  then show ?thesis using assms(1,2) unfolding assms(3) by (simp add: psend_def tbl_def Let_def)
qed

lemma psend_found_ok:
  assumes R: "running st c p" "\<not> skip_message p" "current_pid st \<noteq> 0"
    and q: "mqs st qa = Some q" "buffer_ok q" "queue_table st i = Some qa"
    and ps: "mq_lookup i st0 = Some qa" "process_table st0 (current_pid st0) = Some c" "st = upd c (message_update (\<lambda>_. v)) st0"
  shows "sound (psend i v st0)"
proof -
  from R have c: "process_table st (current_pid st) = Some c" "procs st c = Some p" "state p = ELECTED"
    and I: "kI {c} {c} {} (\<lambda>_. 0) st" by (auto simp: running_def)
  have pid: "pid p = current_pid st" using tab_pid [OF kID(2) [OF I] c(1,2)] by simp
  note ps = psend_eq [OF ps q(1)]
  let ?st2 = "upd_mq qa (\<lambda>q. put_msg v q\<lparr>nb_msg := nb_msg q + 1\<rparr>) st"
  consider "nb_msg q = 0" "q_of (Q_mq qa) st \<noteq> []" | "nb_msg q = capacity q" "nb_msg q \<noteq> 0"
    | "nb_msg q \<noteq> capacity q" "nb_msg q \<noteq> 0 \<or> q_of (Q_mq qa) st = []"
    using q(2) by (auto simp: buffer_ok_def)
  then show ?thesis
  proof cases
    case 1
    from psend_deliver [OF R(1,2) q(1,2) 1 refl, of v] obtain n st2 new st4 st5 st6 where
      o: "kq_out (Q_mq qa) ?st2 = (Some n, st2)" "activate c st2 = Inr st4"
        "deref n (upd n (state_update (\<lambda>_. ELECTED)) st4) = Inr new"
        "virtual_ctx_sw (Some c) (K_return 0) n ((upd n (state_update (\<lambda>_. ELECTED)) st4)\<lparr>current_pid := pid new\<rparr>) = Inr st5"
        "resume st5 = Inr (Return 0, st6)" "kinv st6" by blast
    have "psend i v st0 = Inr (Switch, st5)" unfolding ps using 1 o(1-4) by (simp add: Let_def)
    with o(5,6) show ?thesis by (auto simp: sound_def complete_def)
  next
    case 2
    have "\<exists>st'. block_current IN_MSGQUEUE (Q_mq qa) (K_psend c) st = Inr st' \<and> resumable st'"
      by (rule block_current_ok [OF c I])
        (use q 2 pid R(2,3) in \<open>auto simp: place_ok_home cont_ok_def blocked_ok_def ended_def\<close>)
    then have "safe (psend i v st0)" unfolding ps using 2 by auto
    then show ?thesis by (rule safe_sound)
  next
    case 3
    have "q_of (Q_mq qa) st = []" using no_waiters [OF I _ q(1)] 3 by auto
    then have "kI {c} {c} {} (\<lambda>_. 0) ?st2"
      using put_msg_ok [OF q(2), of v] q(2) 3 by (intro kI_upd_mq [OF I q(1)]) (auto simp: put_msg_def buffer_ok_def)
    then have "kinv ?st2" using c R(2) unfolding kinv_def by auto
    then have "safe (psend i v st0)" unfolding ps using 3 by auto
    then show ?thesis by (rule safe_sound)
  qed
qed

lemma psend_ok:
  assumes R: "running st c p" and sk: "\<not> skip_message p" and i0: "current_pid st \<noteq> 0"
  shows "sound (psend i v st)"
proof (cases "mq_lookup i st")
  case None
  then show ?thesis using running_kinv [OF R sk] by (intro safe_sound) (simp add: psend_def)
next
  case (Some qa)
  let ?f = "message_update (\<lambda>_. v)"
  have R1: "running (upd c ?f st) c (?f p)" using R by (intro running_upd) auto
  then have "kI {c} {c} {} (\<lambda>_. 0) (upd c ?f st)" by (simp add: running_def)
  moreover have "mq_lookup i (upd c ?f st) = Some qa" using Some by (simp add: mq_lookup_def split: if_splits)
  ultimately obtain q where "queue_table (upd c ?f st) i = Some qa" "mqs (upd c ?f st) qa = Some q" "buffer_ok q" by (rule mq_lookup_ok)
  with psend_found_ok [OF R1 _ _ _ _ _ Some _ refl] show ?thesis using R sk i0 by (simp add: running_def)
qed


lemma upd_mq_unlink: "upd_mq s f (unlink a st) = unlink a (upd_mq s f st)"
  by (simp add: upd_mq_def unlink_def split: option.splits)

lemma upd_mq_upd_mq: "upd_mq s g (upd_mq s f st) = upd_mq s (\<lambda>q. g (f q)) st"
  by (simp add: upd_mq_def option.map_comp comp_def)

lemma preceive_exchange:
  assumes R: "running st c p" and sk: "\<not> skip_message p"
    and q: "mqs st qa = Some q" "buffer_ok q" "nb_msg q = capacity q" and w: "q_of (Q_mq qa) st \<noteq> []"
    and st1: "st1 = upd_mq qa (\<lambda>q. q\<lparr>tail := next_index q (tail q)\<rparr>) st"
  shows "\<exists>a st2 r st3. kq_out (Q_mq qa) st1 = (Some a, st2) \<and> deref a st2 = Inr r \<and>
    activate a (upd_mq qa (put_msg (message r)) st2) = Inr st3 \<and> running st3 c p"
proof -
  from R have I: "kI {c} {c} {} (\<lambda>_. 0) st" by (simp add: running_def)
  let ?a = "last (q_of (Q_mq qa) st)"
  have am: "?a \<in> set (q_of (Q_mq qa) st)" using w by simp
  from mq_member [OF I am _ q(1)] q(2,3) obtain r where r: "procs st ?a = Some r" "home (qs st) ?a = Some (Q_mq qa)"
    "?a \<noteq> c" "state r = IN_MSGQUEUE" "registers r = K_psend ?a" by (auto simp: buffer_ok_def)
  let ?f = "\<lambda>q. put_msg (message r) (q\<lparr>tail := next_index q (tail q)\<rparr>)"
  let ?st2 = "upd_mq qa ?f st"
  have I2: "kI {c} {c} {} (\<lambda>_. 0) ?st2"
    by (rule kI_upd_mq [OF I q(1)]) (use q exchange_msg_ok [OF q(2,3)] in \<open>auto simp: put_msg_def\<close>)
  have "kI {c} {c} {} (sem_shift (Q_mq qa) (-1) (\<lambda>_. 0)) (awake ?a id ?st2)"
    by (rule kI_awake [OF I2 _ _ _ , of ?a _ r]) (use r in \<open>auto simp: ended_def ready_def\<close>)
  with R r(3) have "running (awake ?a id ?st2) c p" by (simp add: running_def)
  moreover have "q_of (Q_mq qa) st1 \<noteq> []" "last (q_of (Q_mq qa) st1) = ?a" "qwf (qs st1)"
    using w kI_qwf [OF I] by (auto simp: st1)
  then have "kq_out (Q_mq qa) st1 = (Some ?a, unlink ?a st1)" using kq_out_unlink by fastforce
  moreover have "deref ?a (unlink ?a st1) = Inr r" using r(1) by (simp add: deref_def st1)
  moreover have "activate ?a (upd_mq qa (put_msg (message r)) (unlink ?a st1)) = Inr (awake ?a id ?st2)"
  proof -
    have "upd ?a id (unlink ?a ?st2) = unlink ?a ?st2" by (simp add: upd_def option.map_id)
    with activate_awake [of ?a id ?st2] show ?thesis by (simp add: st1 upd_mq_unlink upd_mq_upd_mq)
  qed
  ultimately show ?thesis by blast
qed

lemma preceive_ok:
  assumes R: "running st c p" and sk: "\<not> skip_message p" and i0: "current_pid st \<noteq> 0"
  shows "safe (preceive i m st)"
proof (cases "mq_lookup i st")
  case None
  then show ?thesis using running_kinv [OF R sk] by (simp add: preceive_def)
next
  case (Some qa)
  from R have c: "process_table st (current_pid st) = Some c" "procs st c = Some p" "state p = ELECTED"
    and I: "kI {c} {c} {} (\<lambda>_. 0) st" by (auto simp: running_def)
  have pid: "pid p = current_pid st" using tab_pid [OF kID(2) [OF I] c(1,2)] by simp
  from I Some obtain q where q: "queue_table st i = Some qa" "mqs st qa = Some q" "buffer_ok q" by (rule mq_lookup_ok)
  let ?st1 = "if m \<noteq> 0 then store_user m (buffer q ! nat (tail q)) st else st"
  let ?t = "\<lambda>q. q\<lparr>tail := next_index q (tail q)\<rparr>"
  let ?st2 = "upd_mq qa ?t ?st1"
  have R1: "running ?st1 c p" using R by (simp add: running_def)
  then have I1: "kI {c} {c} {} (\<lambda>_. 0) ?st1" by (simp add: running_def)
  have q1: "mqs ?st1 qa = Some q" "q_of (Q_mq qa) ?st1 = q_of (Q_mq qa) st" using q by auto
  consider "nb_msg q = 0" | "nb_msg q > 0" "nb_msg q = capacity q" "q_of (Q_mq qa) st \<noteq> []"
    | "nb_msg q > 0" "nb_msg q \<noteq> capacity q \<or> q_of (Q_mq qa) st = []"
    using q(3) unfolding buffer_ok_def by linarith
  then show ?thesis
  proof cases
    case 1
    have "\<exists>st'. block_current IN_MSGQUEUE (Q_mq qa) (K_preceive qa c m) st = Inr st' \<and> resumable st'"
      by (rule block_current_ok [OF c I])
        (use q 1 pid i0 sk in \<open>auto simp: place_ok_home cont_ok_def blocked_ok_def ended_def\<close>)
    with Some q 1 c show ?thesis by (auto simp: preceive_def mq_at_def tbl_def)
  next
    case 2
    from preceive_exchange [OF R1 sk q1(1) q(3) 2(2) _ refl] 2(3) q1 obtain a st2 r st3 where
      o: "kq_out (Q_mq qa) ?st2 = (Some a, st2)" "deref a st2 = Inr r"
        "activate a (upd_mq qa (put_msg (message r)) st2) = Inr st3" "running st3 c p" by auto
    have "preceive i m st = bindE (yield_to_scheduler (K_return 0) st3) (\<lambda>st. Inr (Switch, st))"
      using Some q(2) 2 o(1-3) q1(2) by (simp add: preceive_def mq_at_def Let_def)
    with yield_running [OF o(4) sk] show ?thesis by simp
  next
    case 3
    have e: "q_of (Q_mq qa) st = []" using no_waiters [OF I _ q(2)] 3 by auto
    let ?f = "\<lambda>q. q\<lparr>tail := next_index q (tail q), nb_msg := nb_msg q - 1\<rparr>"
    have u: "upd_mq qa (nb_msg_update (\<lambda>n. n - 1)) ?st2 = upd_mq qa ?f ?st1"
      unfolding upd_mq_upd_mq by (rule arg_cong [where f = "\<lambda>h. upd_mq qa h ?st1"], rule ext, rule MessageQueue.equality) simp_all
    have "kI {c} {c} {} (\<lambda>_. 0) (upd_mq qa ?f ?st1)"
      using take_msg_ok [OF q(3) 3(1)] e q1(2) by (intro kI_upd_mq [OF I1 q1(1)]) auto
    then have "kinv (upd_mq qa ?f ?st1)" using R1 sk unfolding kinv_def running_def by auto
    moreover have "preceive i m st = Inr (Return 0, upd_mq qa ?f ?st1)"
      using Some q(2) 3 q1(2) e u by (simp add: preceive_def mq_at_def Let_def)
    ultimately show ?thesis by simp
  qed
qed

lemma pcount_ok:
  assumes K: "kinv st" shows "safe (pcount i m st)"
proof (cases "mq_lookup i st")
  case (Some qa)
  from K obtain c where I: "kI {c} {c} {} (\<lambda>_. 0) st" by (auto simp: kinv_def)
  from I Some obtain q where q: "queue_table st i = Some qa" "mqs st qa = Some q" by (rule mq_lookup_ok)
  have "kinv (store_user m v st)" for v using K by (simp add: kinv_def)
  with Some q K show ?thesis by (simp add: pcount_def mq_at_def nb_waiting_proc_def)
qed (use K in \<open>simp add: pcount_def\<close>)

section \<open>Creation\<close>

lemma free_fid:
  assumes "get_free_fid st = i" "i \<noteq> -1"
  shows "0 \<le> i \<and> i < int NBQUEUE \<and> queue_table st i = None"
proof -
  from assms have "first_from NBQUEUE 0 (\<lambda>i. queue_table st i = None) = Some i"
    unfolding get_free_fid_def by (simp split: option.splits)
  from first_from_Some [OF this] show ?thesis by simp
qed

lemma fresh_mq_queue:
  assumes I: "kI X Y C d st" and s: "brk st \<le> s"
  shows "q_of (Q_mq s) st = []"
proof (rule ccontr)
  assume "q_of (Q_mq s) st \<noteq> []"
  then have "last (q_of (Q_mq s) st) \<in> set (q_of (Q_mq s) st)" by simp
  from kI_queue_member [OF I this] obtain i where "queue_table st i = Some s"
    by (auto simp: place_ok_home)
  with kID(8) [OF I] have "mqs st s \<noteq> None" unfolding mq_inv_def by blast
  with kID(9) [OF I] s show False by (simp add: fresh_def)
qed

lemma kI_new_mq:
  assumes I: "kI X Y C d st" and i: "queue_table st i = None" "0 \<le> i" "i < int NBQUEUE"
    and x: "fid x = i" "buffer_ok x"
  shows "kI X Y C d (st\<lparr>brk := brk st + 2, queue_table := (queue_table st)(i := Some (brk st)),
     mqs := (mqs st)(brk st := Some x), qs := q_init (Q_mq (brk st)) (qs st)\<rparr>)" (is "kI _ _ _ _ ?st")
proof -
  have e: "q_of (Q_mq (brk st)) st = []" by (rule fresh_mq_queue [OF I]) simp
  then have qe: "q_init (Q_mq (brk st)) (qs st) = qs st" by (simp add: q_init_def fun_upd_idem)
  have f: "child_of ?st = child_of st" "zombie_child ?st = zombie_child st" "prio_of ?st = prio_of st"
    by (simp_all add: child_of_def zombie_child_def prio_of_def fun_eq_iff)
  have sb: "mqs st (brk st) = None" using kID(9) [OF I] by (simp add: fresh_def)
  have "places X ?st"
  proof (rule placesI)
    fix b q assume "procs ?st b = Some q" "b \<notin> X"
    then have pl: "state q \<noteq> ELECTED" "place_ok st q (home (qs st) b)" using placesD(2) [OF kID(3) [OF I], of b q] by auto
    have "\<exists>j qa. queue_table ?st j = Some qa \<and> home (qs st) b = Some (Q_mq qa)" if "state q = IN_MSGQUEUE"
    proof -
      from pl(2) that obtain j qa where j: "queue_table st j = Some qa" "home (qs st) b = Some (Q_mq qa)"
        by (auto simp: place_ok_def)
      with i(1) have "j \<noteq> i" by auto
      with j show ?thesis by auto
    qed
    with pl show "state q \<noteq> ELECTED \<and> place_ok ?st q (home (qs ?st) b)"
      by (cases "state q") (auto simp: place_ok_def qe)
  qed (use placesD(1) [OF kID(3) [OF I]] in \<open>auto simp: qe\<close>)
  moreover have "conts Y ?st" by (rule conts_mono [OF kID(10) [OF I]]) (use f qe sb in auto)
  moreover have "mq_inv ?st"
  proof -
    have "0 \<le> j \<and> j < int NBQUEUE \<and> (\<exists>y. mqs ?st t = Some y \<and> fid y = j \<and> buffer_ok y)" if j: "queue_table ?st j = Some t" for j t
    proof (cases "j = i")
      case True
      with j i x show ?thesis by auto
    next
      case False
      with j have "queue_table st j = Some t" by simp
      with kID(8) [OF I] obtain y where "0 \<le> j" "j < int NBQUEUE" "mqs st t = Some y" "fid y = j" "buffer_ok y"
        unfolding mq_inv_def by blast
      moreover from this sb have "t \<noteq> brk st" by auto
      ultimately show ?thesis by auto
    qed
    then show ?thesis unfolding mq_inv_def by blast
  qed
  moreover have "sem_inv d ?st" by (rule sem_inv_length [OF kID(7) [OF I]]) (simp_all add: qe)
  moreover have "fresh ?st" using kID(9) [OF I] by (auto simp: fresh_def)
  ultimately show ?thesis
    using I f qe by (simp add: kI_def wfq_def tab_def family_def idle_ok_def stale_def)
qed

lemma pcreate_ok:
  assumes K: "kinv st"
  shows "safe (pcreate n st)"
proof (cases "n \<le> 0 \<or> get_free_fid st = -1 \<or> n > QUEUE_MAX_SIZE")
  case True
  with K show ?thesis by (auto simp: pcreate_def)
next
  case False
  from K obtain c p where c: "process_table st (current_pid st) = Some c" "procs st c = Some p"
     "state p = ELECTED" "\<not> skip_message p" and I: "kI {c} {c} {} (\<lambda>_. 0) st" by (auto simp: kinv_def)
  let ?q = "\<lparr>fid = get_free_fid st, capacity = n, nb_msg = 0, head = 0, tail = 0, buffer = replicate (nat n) 0\<rparr>"
  let ?st = "st\<lparr>brk := brk st + 2, queue_table := (queue_table st)(get_free_fid st := Some (brk st)),
     mqs := (mqs st)(brk st := Some ?q), qs := q_init (Q_mq (brk st)) (qs st)\<rparr>"
  have "buffer_ok ?q" using False by (auto simp: buffer_ok_def)
  then have "kI {c} {c} {} (\<lambda>_. 0) ?st"
    using False free_fid [of st] by (intro kI_new_mq [OF I]) auto
  then have "kinv ?st" unfolding kinv_def using c by (intro exI [of _ c] exI [of _ p]) simp
  with False show ?thesis by (simp add: pcreate_def Let_def)
qed

end
