(* ===== verification/Semaphore.thy ===== *)
theory Semaphore
  imports Process
begin

text \<open>
  Semaphores (\<^verbatim>\<open>kernel/semaphore.c\<close>). The counter is a \<^verbatim>\<open>short\<close>: increments and decrements
  go through \<open>to_short\<close>. \<open>Q_sem s\<close> is the list \<^verbatim>\<open>waiting_process\<close> of the semaphore at \<open>s\<close>.
\<close>

section \<open>Operations\<close>

definition get_free_sem :: "kstate \<Rightarrow> int" where
  "get_free_sem st =
     (case first_from NBSEMAPHORE 0 (\<lambda>i. semaphore_table st i = None) of None \<Rightarrow> -1 | Some i \<Rightarrow> i)"

text \<open>\<^verbatim>\<open>sem < 0 || sem > NBSEMAPHORE - 1 || !semaphore_table[sem]\<close>, negated: the semaphore found.\<close>

definition sem_lookup :: "int \<Rightarrow> kstate \<Rightarrow> addr option" where
  "sem_lookup sem st =
     (if sem < 0 \<or> sem > int NBSEMAPHORE - 1 then None else semaphore_table st sem)"

definition sem_at :: "addr \<Rightarrow> kstate \<Rightarrow> Semaphore kresult" where
  "sem_at s st = (case sems st s of None \<Rightarrow> Inl UseAfterFree | Some x \<Rightarrow> Inr x)"

definition upd_sem :: "addr \<Rightarrow> (Semaphore \<Rightarrow> Semaphore) \<Rightarrow> kstate \<Rightarrow> kstate" where
  "upd_sem s f st = st\<lparr>sems := (sems st)(s := map_option f (sems st s))\<rparr>"

abbreviation incr_count :: "Semaphore \<Rightarrow> Semaphore" where
  "incr_count \<equiv> count_update (\<lambda>c. to_short (c + 1))"

abbreviation decr_count :: "Semaphore \<Rightarrow> Semaphore" where
  "decr_count \<equiv> count_update (\<lambda>c. to_short (c - 1))"

definition screate :: "int \<Rightarrow> kstate \<Rightarrow> flow syscall_result" where
  "screate cnt st =
     (let i = get_free_sem st in
      if cnt < 0 \<or> i = -1 then Inr (Return (-1), st)
      else
        let s = brk st in
        Inr (Return i,
             st\<lparr>brk := brk st + 1,
                semaphore_table := (semaphore_table st)(i := Some s),
                sems := (sems st)(s := Some \<lparr>sid = i, count = cnt, was_reset = False, was_deleted = False\<rparr>),
                qs := q_init (Q_sem s) (qs st)\<rparr>))"

text \<open>\<^verbatim>\<open>__nb_waiting_proc2\<close> reads the list head inside the semaphore the table points to.\<close>

definition nb_waiting_proc2 :: "int \<Rightarrow> kstate \<Rightarrow> int kresult" where
  "nb_waiting_proc2 sem st =
     (case semaphore_table st sem of
        None \<Rightarrow> Inl (PageFault st)
      | Some s \<Rightarrow> Inr (int (length (q_of (Q_sem s) st))))"

definition sdelete :: "int \<Rightarrow> kstate \<Rightarrow> flow syscall_result" where
  "sdelete sem st =
     (case sem_lookup sem st of
        None \<Rightarrow> Inr (Return (-1), st)
      | Some deleted \<Rightarrow>
          bindE (wake_all (length (q_of (Q_sem deleted) st)) id (Q_sem deleted) st) (\<lambda>st.
          let st = st\<lparr>semaphore_table := (semaphore_table st)(sem := None)\<rparr> in
          bindE (nb_waiting_proc2 sem st) (\<lambda>n.
          let st = (if n = 0 then st\<lparr>sems := (sems st)(deleted := None)\<rparr>
                    else upd_sem deleted (was_deleted_update (\<lambda>_. True)) st) in
          bindE (yield_to_scheduler (K_return 0) st) (\<lambda>st. Inr (Switch, st)))))"

text \<open>
  \<^verbatim>\<open>p = queue_out(...); p->state = ACTIVABLE; queue_add(p, &activable_list, ...)\<close>: an empty
  queue gives a NULL \<open>p\<close>, and the store to \<open>p->state\<close> page-faults.
\<close>

definition wake_one :: "queue_id \<Rightarrow> kstate \<Rightarrow> kstate kresult" where
  "wake_one q st =
     (case kq_out q st of
        (None, st) \<Rightarrow> Inl (PageFault st)
      | (Some p, st) \<Rightarrow> activate p st)"

definition signal :: "int \<Rightarrow> kstate \<Rightarrow> flow syscall_result" where
  "signal sem st =
     (case sem_lookup sem st of
        None \<Rightarrow> Inr (Return (-1), st)
      | Some s \<Rightarrow> bindE (sem_at s st) (\<lambda>x.
          if count x \<ge> SEMAPHORE_MAX_SIZE then Inr (Return (-2), st)
          else
            let st = upd_sem s incr_count st in
            bindE (sem_at s st) (\<lambda>x.
              if count x \<le> 0 then
                let st = upd_sem s (was_reset_update (\<lambda>_. False)) st in
                bindE (wake_one (Q_sem s) st) (\<lambda>st.
                bindE (yield_to_scheduler (K_return 0) st) (\<lambda>st. Inr (Switch, st)))
              else Inr (Return 0, st))))"

fun signaln_loop :: "nat \<Rightarrow> addr \<Rightarrow> kstate \<Rightarrow> kstate kresult" where
  "signaln_loop 0 s st = Inr st"
| "signaln_loop (Suc n) s st =
     (let st = upd_sem s incr_count st in
      bindE (sem_at s st) (\<lambda>x.
      bindE (if count x \<le> 0 then wake_one (Q_sem s) st else Inr st)
        (\<lambda>st. signaln_loop n s st)))"

definition signaln :: "int \<Rightarrow> int \<Rightarrow> kstate \<Rightarrow> flow syscall_result" where
  "signaln sem cnt st =
     (case sem_lookup sem st of
        None \<Rightarrow> Inr (Return (-1), st)
      | Some s \<Rightarrow>
          if cnt < 0 then Inr (Return (-2), st)
          else bindE (sem_at s st) (\<lambda>x.
            if count x + cnt > SEMAPHORE_MAX_SIZE then Inr (Return (-2), st)
            else
              let st = upd_sem s (was_reset_update (\<lambda>_. False)) st in
              bindE (signaln_loop (nat cnt) s st) (\<lambda>st.
              bindE (yield_to_scheduler (K_return 0) st) (\<lambda>st. Inr (Switch, st)))))"

definition try_wait :: "int \<Rightarrow> kstate \<Rightarrow> flow syscall_result" where
  "try_wait sem st =
     (case sem_lookup sem st of
        None \<Rightarrow> Inr (Return (-1), st)
      | Some s \<Rightarrow> bindE (sem_at s st) (\<lambda>x.
          if count x = - SEMAPHORE_MAX_SIZE then Inr (Return (-2), st)
          else if count x > 0 then Inr (Return 0, upd_sem s decr_count st)
          else Inr (Return (-3), st)))"

definition wait :: "int \<Rightarrow> kstate \<Rightarrow> flow syscall_result" where
  "wait sem st =
     (case sem_lookup sem st of
        None \<Rightarrow> Inr (Return (-1), st)
      | Some s \<Rightarrow> bindE (sem_at s st) (\<lambda>x.
          if count x \<le> - SEMAPHORE_MAX_SIZE then Inr (Return (-2), st)
          else
            let st = upd_sem s decr_count st in
            bindE (sem_at s st) (\<lambda>x.
              if count x < 0 then
                bindE (tbl (current_pid st) st) (\<lambda>cur.
                let st = upd cur (waited_sem_update (\<lambda>_. sem)) st in
                bindE (block_current IN_SEM (Q_sem s) (K_wait s) st) (\<lambda>st. Inr (Switch, st)))
              else Inr (Return 0, st))))"

definition sreset :: "int \<Rightarrow> int \<Rightarrow> kstate \<Rightarrow> flow syscall_result" where
  "sreset sem cnt st =
     (case sem_lookup sem st of
        None \<Rightarrow> Inr (Return (-1), st)
      | Some s \<Rightarrow>
          if cnt < 0 then Inr (Return (-1), st)
          else
            bindE (wake_all (length (q_of (Q_sem s) st)) id (Q_sem s) st) (\<lambda>st.
            let st = upd_sem s (was_reset_update (\<lambda>_. True)) (upd_sem s (count_update (\<lambda>_. cnt)) st) in
            bindE (yield_to_scheduler (K_return 0) st) (\<lambda>st. Inr (Switch, st))))"

text \<open>\<^verbatim>\<open>(int)s->count & 0xffff\<close>\<close>

definition scount :: "int \<Rightarrow> kstate \<Rightarrow> flow syscall_result" where
  "scount sem st =
     (case sem_lookup sem st of
        None \<Rightarrow> Inr (Return (-1), st)
      | Some s \<Rightarrow> bindE (sem_at s st) (\<lambda>x. Inr (Return (count x mod 65536), st)))"

end
