(* ===== verification/Semaphore_Inv.thy ===== *)
theory Semaphore_Inv
  imports Semaphore Wake
begin

text \<open>The system calls on semaphores keep the kernel invariant and run without fault, \<^verbatim>\<open>sdelete\<close> excepted.\<close>

section \<open>Lookup and update\<close>

lemma sem_lookup_ok:
  assumes "kI X Y C d st" "sem_lookup i st = Some s"
  obtains x where "semaphore_table st i = Some s" "sems st s = Some x"
    "sem_ok i (int (length (q_of (Q_sem s) st)) - d s) x" "\<not> was_deleted x" "0 \<le> i" "i < int NBSEMAPHORE"
proof -
  have t: "semaphore_table st i = Some s" using assms(2) by (simp add: sem_lookup_def split: if_splits)
  moreover from t kID(7) [OF assms(1)] obtain x where "sems st s = Some x"
    "sem_ok i (int (length (q_of (Q_sem s) st)) - d s) x" "0 \<le> i" "i < int NBSEMAPHORE" unfolding sem_inv_def by blast
  moreover from this kID(7) [OF assms(1)] have "\<not> was_deleted x" unfolding sem_inv_def by blast
  ultimately show ?thesis by (intro that)
qed

lemma upd_sem_simps [simp]:
  "procs (upd_sem s f st) = procs st"
  "process_table (upd_sem s f st) = process_table st"
  "current_pid (upd_sem s f st) = current_pid st"
  "qs (upd_sem s f st) = qs st"
  "sems (upd_sem s f st) = (sems st)(s := map_option f (sems st s))"
  "semaphore_table (upd_sem s f st) = semaphore_table st"
  "mqs (upd_sem s f st) = mqs st"
  "queue_table (upd_sem s f st) = queue_table st"
  "brk (upd_sem s f st) = brk st"
  by (simp_all add: upd_sem_def)

lemma kI_upd_sem:
  assumes "kI X Y C d st" "sems st s = Some x"
    "\<not> was_deleted (f x)" "sid (f x) = sid x" "- SEMAPHORE_MAX_SIZE \<le> count (f x)" "count (f x) \<le> SEMAPHORE_MAX_SIZE"
    "d' s = int (length (q_of (Q_sem s) st)) - max 0 (- count (f x))" "\<And>t. t \<noteq> s \<Longrightarrow> d' t = d t"
  shows "kI X Y C d' (upd_sem s f st)"
  unfolding upd_sem_def by (rule kI_sems [where f = f and d = d and x = x]) (use assms in auto)

lemma sem_wakeable:
  assumes I: "kI X Y C d st" and a: "a \<in> set (q_of (Q_sem s) st)" "procs st a = Some p" "Y \<subseteq> X"
  shows "wakeable id st a p"
proof -
  from kI_queue_member [OF I a(1)] a(2,3) have p: "home (qs st) a = Some (Q_sem s)" "a \<notin> Y"
    "state p = IN_SEM" "semaphore_table st (waited_sem p) = Some s" by (auto simp: place_ok_home)
  from kI_cont_ok [OF I a(2) p(2)] p(1,3) have "registers p = K_wait s" "\<not> skip_message p"
    by (auto simp: cont_ok_def ended_def blocked_ok_def)
  moreover have "sems st s \<noteq> None" using kID(7) [OF I] p(4) unfolding sem_inv_def by blast
  ultimately show ?thesis by (auto simp: wakeable_def ready_def)
qed

lemma wake_one_ok:
  assumes I: "kI X Y C d st" and q: "q_of (Q_sem s) st \<noteq> []" and Y: "Y \<subseteq> X"
  shows "\<exists>st'. wake_one (Q_sem s) st = Inr st' \<and> kI X Y C (d(s := d s - 1)) st' \<and> woke_others X st st' \<and>
    (\<forall>t. length (q_of (Q_sem t) st') = (if t = s then length (q_of (Q_sem t) st) - 1 else length (q_of (Q_sem t) st)))"
proof -
  let ?a = "last (q_of (Q_sem s) st)"
  have am: "?a \<in> set (q_of (Q_sem s) st)" using q by simp
  from kI_queue_member [OF I am] obtain p where p: "procs st ?a = Some p" "home (qs st) ?a = Some (Q_sem s)" "?a \<notin> X"
    "state p = IN_SEM" by (auto simp: place_ok_home)
  have "wakeable id st ?a p" by (rule sem_wakeable [OF I am p(1) Y])
  then have "kI X Y C (sem_shift (Q_sem s) (-1) d) (awake ?a id st)"
    using p by (intro kI_awake [OF I p(2) _ p(1)]) (auto simp: ended_def wakeable_def)
  moreover have "wake_one (Q_sem s) st = Inr (awake ?a id st)"
  proof -
    have "upd ?a id (unlink ?a st) = unlink ?a st" by (simp add: upd_def option.map_id)
    with activate_awake [of ?a id st] kq_out_unlink [OF kI_qwf [OF I] q] show ?thesis by (simp add: wake_one_def)
  qed
  moreover have "length (remove1 ?a (q_of (Q_sem t) st)) = (if t = s then length (q_of (Q_sem t) st) - 1 else length (q_of (Q_sem t) st))" for t
    using p(2) am kI_qwf [OF I] by (auto simp: qwf_home remove1_idem length_remove1)
  moreover have "woke_others X st (awake ?a id st)" using p(3) by (auto simp: woke_others_def)
  ultimately show ?thesis by auto
qed

section \<open>The calls\<close>

lemma signal_ok:
  assumes R: "running st c p" and sk: "\<not> skip_message p"
  shows "safe (signal i st)"
proof (cases "sem_lookup i st")
  case None
  then show ?thesis using assms by (auto simp: signal_def kinv_running)
next
  case (Some s)
  from R have I: "kI {c} {c} {} (\<lambda>_. 0) st" by (simp add: running_def)
  from I Some obtain x where x: "sems st s = Some x" "sem_ok i (int (length (q_of (Q_sem s) st)) - 0) x" "\<not> was_deleted x"
    by (rule sem_lookup_ok) simp
  let ?st1 = "upd_sem s incr_count st"
  show ?thesis
  proof (cases "count x \<ge> SEMAPHORE_MAX_SIZE")
    case True
    with Some x R sk show ?thesis by (auto simp: signal_def sem_at_def kinv_running)
  next
    case False
    have ts: "to_short (count x + 1) = count x + 1" using x(2) False by (simp add: sem_ok_def)
    have x1: "sems ?st1 s = Some (x\<lparr>count := count x + 1\<rparr>)" using x ts by simp
    let ?d = "\<lambda>t. if t = s \<and> count x < 0 then 1 else (0::int)"
    have I1: "kI {c} {c} {} ?d ?st1"
      by (rule kI_upd_sem [OF I x(1)]) (use x ts False in \<open>auto simp: sem_ok_def max_def split: if_splits\<close>)
    show ?thesis
    proof (cases "count x < 0")
      case neg: True
      let ?st2 = "upd_sem s (was_reset_update (\<lambda>_. False)) ?st1"
      have I2: "kI {c} {c} {} ?d ?st2"
        by (rule kI_upd_sem [OF I1 x1]) (use x ts False neg in \<open>auto simp: sem_ok_def max_def split: if_splits\<close>)
      have "q_of (Q_sem s) ?st2 \<noteq> []" using x(2) neg by (auto simp: sem_ok_def)
      from wake_one_ok [OF I2 this] obtain st3 where st3: "wake_one (Q_sem s) ?st2 = Inr st3"
        "kI {c} {c} {} (?d(s := ?d s - 1)) st3" "woke_others {c} ?st2 st3" by blast
      have "?d(s := ?d s - 1) = (\<lambda>_. 0)" using neg by auto
      with st3 R have "running st3 c p" by (simp add: running_def woke_others_def)
      from yield_running [OF this sk] show ?thesis
        using Some x ts False neg st3(1) x1 by (simp add: signal_def sem_at_def)
    next
      case pos: False
      then have "?d = (\<lambda>_. 0)" by auto
      with I1 R sk have "kinv ?st1" by (auto simp: kinv_def running_def)
      with Some x ts False pos show ?thesis by (simp add: signal_def sem_at_def)
    qed
  qed
qed

lemma signaln_loop_ok:
  assumes "kI X Y C (\<lambda>_. 0) st" "Y \<subseteq> X" "sems st s = Some x" "semaphore_table st (sid x) = Some s"
    "count x + int n \<le> SEMAPHORE_MAX_SIZE"
  shows "\<exists>st'. signaln_loop n s st = Inr st' \<and> kI X Y C (\<lambda>_. 0) st' \<and>
    (\<forall>a \<in> X. procs st' a = procs st a) \<and> process_table st' = process_table st \<and> current_pid st' = current_pid st \<and>
    sems st' s = Some (x\<lparr>count := count x + int n\<rparr>) \<and>
    length (q_of (Q_sem s) st') = length (q_of (Q_sem s) st) - n"
  using assms
proof (induction n arbitrary: st x)
  case 0
  then show ?case by simp
next
  case (Suc n)
  from kID(7) [OF Suc.prems(1)] Suc.prems(3,4) have x: "sem_ok (sid x) (int (length (q_of (Q_sem s) st))) x" "\<not> was_deleted x"
    unfolding sem_inv_def by fastforce+
  let ?st1 = "upd_sem s incr_count st" and ?x1 = "x\<lparr>count := count x + 1\<rparr>"
  have ts: "to_short (count x + 1) = count x + 1" using x(1) Suc.prems(5) by (simp add: sem_ok_def)
  have x1: "sems ?st1 s = Some ?x1" using Suc.prems(3) ts by simp
  let ?d = "\<lambda>t. if t = s \<and> count x < 0 then 1 else (0::int)"
  have I1: "kI X Y C ?d ?st1"
    by (rule kI_upd_sem [OF Suc.prems(1,3)]) (use x ts Suc.prems(5) in \<open>auto simp: sem_ok_def max_def split: if_splits\<close>)
  have "\<exists>st2. (if count ?x1 \<le> 0 then wake_one (Q_sem s) ?st1 else Inr ?st1) = Inr st2 \<and> kI X Y C (\<lambda>_. 0) st2 \<and>
      woke_others X ?st1 st2 \<and> length (q_of (Q_sem s) st2) = length (q_of (Q_sem s) st) - 1"
  proof (cases "count x < 0")
    case True
    have "q_of (Q_sem s) ?st1 \<noteq> []" using x(1) True by (auto simp: sem_ok_def)
    from wake_one_ok [OF I1 this Suc.prems(2)] obtain st2 where st2: "wake_one (Q_sem s) ?st1 = Inr st2"
      "kI X Y C (?d(s := ?d s - 1)) st2" "woke_others X ?st1 st2" "length (q_of (Q_sem s) st2) = length (q_of (Q_sem s) st) - 1"
      by auto
    moreover have "?d(s := ?d s - 1) = (\<lambda>_. 0)" using True by auto
    ultimately show ?thesis using True by auto
  next
    case False
    then have "?d = (\<lambda>_. 0)" "length (q_of (Q_sem s) st) = 0" using x(1) by (auto simp: sem_ok_def)
    with I1 False show ?thesis by (auto simp: woke_others_refl)
  qed
  then obtain st2 where st2: "(if count ?x1 \<le> 0 then wake_one (Q_sem s) ?st1 else Inr ?st1) = Inr st2"
    "kI X Y C (\<lambda>_. 0) st2" "woke_others X ?st1 st2" "length (q_of (Q_sem s) st2) = length (q_of (Q_sem s) st) - 1" by blast
  have "\<exists>st'. signaln_loop n s st2 = Inr st' \<and> kI X Y C (\<lambda>_. 0) st' \<and>
    (\<forall>a \<in> X. procs st' a = procs st2 a) \<and> process_table st' = process_table st2 \<and> current_pid st' = current_pid st2 \<and>
    sems st' s = Some (?x1\<lparr>count := count ?x1 + int n\<rparr>) \<and> length (q_of (Q_sem s) st') = length (q_of (Q_sem s) st2) - n"
    by (rule Suc.IH [OF st2(2) Suc.prems(2)]) (use st2(3) x1 Suc.prems(4,5) in \<open>auto simp: woke_others_def\<close>)
  moreover have "signaln_loop (Suc n) s st = signaln_loop n s st2"
    using x1 st2(1) by (simp add: sem_at_def del: upd_sem_simps)
  ultimately show ?case using st2(3,4) by (auto simp: woke_others_def algebra_simps)
qed

lemma signaln_ok:
  assumes R: "running st c p" and sk: "\<not> skip_message p"
  shows "safe (signaln i n st)"
proof (cases "sem_lookup i st")
  case None
  then show ?thesis using assms by (auto simp: signaln_def kinv_running)
next
  case (Some s)
  have K: "kinv st" using assms by (auto simp: kinv_running)
  from R have I: "kI {c} {c} {} (\<lambda>_. 0) st" by (simp add: running_def)
  from I Some obtain x where x: "sems st s = Some x" "sem_ok i (int (length (q_of (Q_sem s) st)) - 0) x" "\<not> was_deleted x"
    "semaphore_table st i = Some s" by (rule sem_lookup_ok) simp
  consider "n < 0" | "n \<ge> 0" "count x + n > SEMAPHORE_MAX_SIZE" | "n \<ge> 0" "count x + n \<le> SEMAPHORE_MAX_SIZE" by linarith
  then show ?thesis
  proof cases
    case 3
    let ?st1 = "upd_sem s (was_reset_update (\<lambda>_. False)) st"
    have I1: "kI {c} {c} {} (\<lambda>_. 0) ?st1"
      by (rule kI_upd_sem [OF I x(1)]) (use x in \<open>auto simp: sem_ok_def\<close>)
    from signaln_loop_ok [OF I1, of s "x\<lparr>was_reset := False\<rparr>" "nat n"] x 3
    obtain st2 where st2: "signaln_loop (nat n) s ?st1 = Inr st2" "kI {c} {c} {} (\<lambda>_. 0) st2"
      "procs st2 c = procs st c" "process_table st2 = process_table st" "current_pid st2 = current_pid st"
      by (auto simp: sem_ok_def)
    then have "running st2 c p" using R by (simp add: running_def)
    from yield_running [OF this sk] show ?thesis using Some x 3 st2(1) by (simp add: signaln_def sem_at_def)
  qed (use Some x K in \<open>simp_all add: signaln_def sem_at_def\<close>)
qed

lemma try_wait_ok:
  assumes K: "kinv st"
  shows "safe (try_wait i st)"
proof (cases "sem_lookup i st")
  case None
  then show ?thesis using K by (simp add: try_wait_def)
next
  case (Some s)
  from K obtain c p where R: "running st c p" "\<not> skip_message p" by (auto simp: kinv_running)
  from R have I: "kI {c} {c} {} (\<lambda>_. 0) st" by (simp add: running_def)
  from I Some obtain x where x: "sems st s = Some x" "sem_ok i (int (length (q_of (Q_sem s) st)) - 0) x" "\<not> was_deleted x"
    by (rule sem_lookup_ok) simp
  have "kinv (upd_sem s decr_count st)" if "count x > 0"
  proof -
    have "to_short (count x - 1) = count x - 1" using x(2) that by (simp add: sem_ok_def)
    then have "kI {c} {c} {} (\<lambda>_. 0) (upd_sem s decr_count st)"
      by (intro kI_upd_sem [OF I x(1)]) (use x that in \<open>auto simp: sem_ok_def\<close>)
    with R show ?thesis by (auto simp: kinv_def running_def)
  qed
  with Some x K show ?thesis by (simp add: try_wait_def sem_at_def)
qed


lemma wait_ok:
  assumes R: "running st c p" and sk: "\<not> skip_message p" and i0: "current_pid st \<noteq> 0"
  shows "safe (wait i st)"
proof (cases "sem_lookup i st")
  case None
  then show ?thesis using assms by (auto simp: wait_def kinv_running)
next
  case (Some s)
  from R have c: "process_table st (current_pid st) = Some c" "procs st c = Some p" "state p = ELECTED"
    and I: "kI {c} {c} {} (\<lambda>_. 0) st" by (auto simp: running_def)
  have pid: "pid p = current_pid st" using tab_pid [OF kID(2) [OF I] c(1,2)] by simp
  from I Some obtain x where x: "sems st s = Some x" "sem_ok i (int (length (q_of (Q_sem s) st)) - 0) x" "\<not> was_deleted x"
    "semaphore_table st i = Some s" by (rule sem_lookup_ok) simp
  show ?thesis
  proof (cases "count x \<le> - SEMAPHORE_MAX_SIZE")
    case True
    with Some x R sk show ?thesis by (auto simp: wait_def sem_at_def kinv_running)
  next
    case False
    let ?st1 = "upd_sem s decr_count st"
    let ?d = "\<lambda>t. if t = s \<and> count x \<le> 0 then -1 else (0::int)"
    have ts: "to_short (count x - 1) = count x - 1" using x(2) False by (simp add: sem_ok_def)
    have I1: "kI {c} {c} {} ?d ?st1"
      by (rule kI_upd_sem [OF I x(1)]) (use x ts False in \<open>auto simp: sem_ok_def max_def split: if_splits\<close>)
    show ?thesis
    proof (cases "count x \<le> 0")
      case neg: True
      let ?f = "waited_sem_update (\<lambda>_. i)"
      let ?st2 = "upd c ?f ?st1"
      have I2: "kI {c} {c} {} ?d ?st2" using I1 c by (intro kI_upd [where p = p]) auto
      have "\<exists>st'. block_current IN_SEM (Q_sem s) (K_wait s) ?st2 = Inr st' \<and> resumable st'"
        by (rule block_current_ok [where c = c and p = "?f p" and d = ?d])
          (use c I2 neg x(4) pid i0 sk in \<open>auto simp: place_ok_home cont_ok_def blocked_ok_def ended_def\<close>)
      with Some x ts False neg c show ?thesis by (auto simp: wait_def sem_at_def tbl_def)
    next
      case pos: False
      then have "?d = (\<lambda>_. 0)" by auto
      with I1 R sk have "kinv ?st1" by (auto simp: kinv_def running_def)
      with Some x ts False pos show ?thesis by (simp add: wait_def sem_at_def)
    qed
  qed
qed

lemma wake_sem_ok:
  assumes I: "kI {c} {c} {} (\<lambda>_. 0) st"
  shows "\<exists>st'. wake_all (length (q_of (Q_sem s) st)) id (Q_sem s) st = Inr st' \<and>
    kI {c} {c} {} ((\<lambda>_. 0)(s := - int (length (q_of (Q_sem s) st)))) st' \<and> q_of (Q_sem s) st' = [] \<and> woke_others {c} st st'"
  using wake_all_ok [OF I, of "Q_sem s" id] sem_wakeable [OF I, of _ s] by auto

lemma sreset_ok:
  assumes R: "running st c p" and sk: "\<not> skip_message p" and n: "n \<le> SEMAPHORE_MAX_SIZE"
  shows "safe (sreset i n st)"
proof (cases "sem_lookup i st = None \<or> n < 0")
  case True
  then show ?thesis using assms by (auto simp: sreset_def kinv_running split: option.splits)
next
  case False
  then obtain s where s: "sem_lookup i st = Some s" "n \<ge> 0" by auto
  from R have I: "kI {c} {c} {} (\<lambda>_. 0) st" by (simp add: running_def)
  from I s(1) obtain x where x: "sems st s = Some x" "\<not> was_deleted x" by (rule sem_lookup_ok)
  from wake_sem_ok [OF I] obtain st1 where st1: "wake_all (length (q_of (Q_sem s) st)) id (Q_sem s) st = Inr st1"
    "kI {c} {c} {} ((\<lambda>_. 0)(s := - int (length (q_of (Q_sem s) st)))) st1" "q_of (Q_sem s) st1 = []" "woke_others {c} st st1" by blast
  have x1: "sems st1 s = Some x" using x st1(4) by (simp add: woke_others_def)
  let ?st2 = "upd_sem s (count_update (\<lambda>_. n)) st1"
  let ?st3 = "upd_sem s (was_reset_update (\<lambda>_. True)) ?st2"
  have I2: "kI {c} {c} {} (\<lambda>_. 0) ?st2"
    by (rule kI_upd_sem [OF st1(2) x1]) (use x s n st1(3) in auto)
  have "kI {c} {c} {} (\<lambda>_. 0) ?st3"
    by (rule kI_upd_sem [OF I2, of s "x\<lparr>count := n\<rparr>"]) (use x x1 s n st1(3) in auto)
  with R st1(4) have "running ?st3 c p" by (simp add: running_def woke_others_def)
  from yield_running [OF this sk] show ?thesis using s st1(1) by (simp add: sreset_def)
qed

lemma scount_ok:
  assumes K: "kinv st" shows "safe (scount i st)"
proof (cases "sem_lookup i st")
  case (Some s)
  from K obtain c where I: "kI {c} {c} {} (\<lambda>_. 0) st" by (auto simp: kinv_def)
  from I Some obtain x where "sems st s = Some x" by (rule sem_lookup_ok)
  with Some K show ?thesis by (simp add: scount_def sem_at_def)
qed (use K in \<open>simp add: scount_def\<close>)

text \<open>
  \<^verbatim>\<open>sdelete\<close> on an existing semaphore: it wakes the blocked processes and clears the table
  entry, then reads that entry again: the page fault finds this state.
\<close>

lemma kI_drop_sem:
  assumes I: "kI X Y C d st" and s: "semaphore_table st i = Some s" "q_of (Q_sem s) st = []"
  shows "kI X Y C d (st\<lparr>semaphore_table := (semaphore_table st)(i := None)\<rparr>)" (is "kI _ _ _ _ ?st")
proof -
  have e: "child_of ?st = child_of st" "zombie_child ?st = zombie_child st" "prio_of ?st = prio_of st"
    by (simp_all add: child_of_def zombie_child_def prio_of_def fun_eq_iff)
  have "places X ?st"
  proof (rule placesI)
    fix b q assume b: "procs ?st b = Some q" "b \<notin> X"
    then have pl: "state q \<noteq> ELECTED" "place_ok st q (home (qs st) b)"
      using placesD(2) [OF kID(3) [OF I], of b q] by auto
    have "waited_sem q \<noteq> i" if "state q = IN_SEM"
    proof
      assume "waited_sem q = i"
      with pl(2) that s have "home (qs st) b = Some (Q_sem s)" by (auto simp: place_ok_def)
      with kI_qwf [OF I] s(2) show False by (metis empty_iff list.set(1) qwf_home)
    qed
    with pl show "state q \<noteq> ELECTED \<and> place_ok ?st q (home (qs ?st) b)"
      by (auto simp: place_ok_def split: State.splits)
  qed (use placesD(1) [OF kID(3) [OF I]] in auto)
  moreover have "conts Y ?st" by (rule conts_mono [OF kID(10) [OF I]]) (use e in auto)
  moreover have "sem_inv d ?st" using kID(7) [OF I] by (auto simp: sem_inv_def)
  ultimately show ?thesis
    using I e by (simp add: kI_def wfq_def tab_def family_def idle_ok_def stale_def mq_inv_def fresh_def)
qed

lemma sdelete_fault:
  assumes R: "running st c p" and s: "sem_lookup i st = Some s"
  shows "\<exists>st'. sdelete i st = Inl (PageFault st') \<and> running st' c p \<and> semaphore_table st' i = None \<and>
    (\<forall>a q. a \<in> set (q_of (Q_sem s) st) \<longrightarrow> procs st' a = Some q \<longrightarrow> home (qs st') a \<noteq> Some (Q_sem s)) \<and>
    woke_others {c} st (st'\<lparr>semaphore_table := semaphore_table st\<rparr>)"
proof -
  from R have I: "kI {c} {c} {} (\<lambda>_. 0) st" by (simp add: running_def)
  from I s have t: "semaphore_table st i = Some s" by (rule sem_lookup_ok)
  from wake_sem_ok [OF I] obtain st1 where st1: "wake_all (length (q_of (Q_sem s) st)) id (Q_sem s) st = Inr st1"
    "kI {c} {c} {} ((\<lambda>_. 0)(s := - int (length (q_of (Q_sem s) st)))) st1" "q_of (Q_sem s) st1 = []" "woke_others {c} st st1" by blast
  let ?st2 = "st1\<lparr>semaphore_table := (semaphore_table st1)(i := None)\<rparr>"
  have t1: "semaphore_table st1 i = Some s" using t st1(4) by (simp add: woke_others_def)
  have J: "kI {c} {c} {} ((\<lambda>_. 0)(s := - int (length (q_of (Q_sem s) st)))) ?st2"
    by (rule kI_drop_sem [OF st1(2) t1 st1(3)])
  have "sem_inv (\<lambda>_. 0) ?st2"
  proof -
    have ns: "semaphore_table ?st2 j \<noteq> Some s" for j
    proof
      assume "semaphore_table ?st2 j = Some s"
      then have "semaphore_table st1 j = Some s" "j \<noteq> i" by (auto split: if_splits)
      with kID(7) [OF st1(2)] t1 show False unfolding sem_inv_def sem_ok_def by (metis option.inject)
    qed
    have sd: "sem_inv ((\<lambda>_. 0)(s := - int (length (q_of (Q_sem s) st)))) ?st2" by (rule kID(7) [OF J])
    show ?thesis
      unfolding sem_inv_def
    proof (intro conjI allI impI)
      fix t x assume "sems ?st2 t = Some x"
      with sd show "\<not> was_deleted x" unfolding sem_inv_def by blast
    next
      fix j t assume jt: "semaphore_table ?st2 j = Some t"
      with ns have "t \<noteq> s" by blast
      from sd jt have *: "0 \<le> j \<and> j < int NBSEMAPHORE \<and> (\<exists>x. sems ?st2 t = Some x \<and>
          sem_ok j (int (length (q_of (Q_sem t) ?st2)) - ((\<lambda>_. 0)(s := - int (length (q_of (Q_sem s) st)))) t) x)"
        unfolding sem_inv_def by blast
      with \<open>t \<noteq> s\<close> show "0 \<le> j" "j < int NBSEMAPHORE"
        "\<exists>x. sems ?st2 t = Some x \<and> sem_ok j (int (length (q_of (Q_sem t) ?st2)) - 0) x" by simp_all
    qed
  qed
  with J have "kI {c} {c} {} (\<lambda>_. 0) ?st2" by (simp add: kI_def)
  with R st1(4) have "running ?st2 c p" by (simp add: running_def woke_others_def)
  moreover have "sdelete i st = Inl (PageFault ?st2)"
    using s st1(1) by (simp add: sdelete_def nb_waiting_proc2_def Let_def)
  moreover have "home (qs ?st2) a \<noteq> Some (Q_sem s)" for a
    using qwf_home [OF kI_qwf [OF st1(2)], of a "Q_sem s"] st1(3) by auto
  moreover have "woke_others {c} st (?st2\<lparr>semaphore_table := semaphore_table st\<rparr>)"
    using st1(4) by (simp add: woke_others_def)
  ultimately show ?thesis by (intro exI [of _ ?st2]) auto
qed


section \<open>Creation\<close>

lemma free_sem:
  assumes "get_free_sem st = i" "i \<noteq> -1"
  shows "0 \<le> i \<and> i < int NBSEMAPHORE \<and> semaphore_table st i = None"
proof -
  from assms have "first_from NBSEMAPHORE 0 (\<lambda>i. semaphore_table st i = None) = Some i"
    unfolding get_free_sem_def by (simp split: option.splits)
  from first_from_Some [OF this] show ?thesis by simp
qed

lemma fresh_sem_queue:
  assumes I: "kI X Y C d st" and s: "brk st \<le> s"
  shows "q_of (Q_sem s) st = []"
proof (rule ccontr)
  assume "q_of (Q_sem s) st \<noteq> []"
  then have "last (q_of (Q_sem s) st) \<in> set (q_of (Q_sem s) st)" by simp
  from kI_queue_member [OF I this] obtain p :: Process where "semaphore_table st (waited_sem p) = Some s"
    by (auto simp: place_ok_home)
  with kID(7) [OF I] have "sems st s \<noteq> None" unfolding sem_inv_def by blast
  with kID(9) [OF I] s show False by (simp add: fresh_def)
qed

lemma kI_new_sem:
  assumes I: "kI X Y C (\<lambda>_. 0) st" and i: "semaphore_table st i = None" "0 \<le> i" "i < int NBSEMAPHORE"
    and x: "sid x = i" "0 \<le> count x" "count x \<le> SEMAPHORE_MAX_SIZE" "\<not> was_deleted x"
  shows "kI X Y C (\<lambda>_. 0) (st\<lparr>brk := brk st + 1, semaphore_table := (semaphore_table st)(i := Some (brk st)),
     sems := (sems st)(brk st := Some x), qs := q_init (Q_sem (brk st)) (qs st)\<rparr>)" (is "kI _ _ _ _ ?st")
proof -
  have e: "q_of (Q_sem (brk st)) st = []" by (rule fresh_sem_queue [OF I]) simp
  then have qe: "q_init (Q_sem (brk st)) (qs st) = qs st" by (simp add: q_init_def fun_upd_idem)
  have f: "child_of ?st = child_of st" "zombie_child ?st = zombie_child st" "prio_of ?st = prio_of st"
    by (simp_all add: child_of_def zombie_child_def prio_of_def fun_eq_iff)
  have sb: "sems st (brk st) = None" using kID(9) [OF I] by (simp add: fresh_def)
  have "places X ?st"
  proof (rule placesI)
    fix b q assume "procs ?st b = Some q" "b \<notin> X"
    then have "state q \<noteq> ELECTED" "place_ok st q (home (qs st) b)" using placesD(2) [OF kID(3) [OF I], of b q] by auto
    with i(1) show "state q \<noteq> ELECTED \<and> place_ok ?st q (home (qs ?st) b)"
      by (auto simp: place_ok_def qe split: State.splits)
  qed (use placesD(1) [OF kID(3) [OF I]] in \<open>auto simp: qe\<close>)
  moreover have "conts Y ?st" by (rule conts_mono [OF kID(10) [OF I]]) (use f qe sb in auto)
  moreover have "sem_inv (\<lambda>_. 0) ?st"
    unfolding sem_inv_def
  proof (intro conjI allI impI)
    fix t y assume "sems ?st t = Some y"
    with kID(7) [OF I] x(4) show "\<not> was_deleted y" unfolding sem_inv_def by (auto split: if_splits)
  next
    fix j t assume j: "semaphore_table ?st j = Some t"
    have "0 \<le> j \<and> j < int NBSEMAPHORE \<and> (\<exists>y. sems ?st t = Some y \<and> sem_ok j (int (length (q_of (Q_sem t) ?st)) - 0) y)"
    proof (cases "j = i")
      case True
      with j i x e show ?thesis by (auto simp: sem_ok_def qe)
    next
      case False
      with j have "semaphore_table st j = Some t" by simp
      with kID(7) [OF I] obtain y where "0 \<le> j" "j < int NBSEMAPHORE" "sems st t = Some y"
        "sem_ok j (int (length (q_of (Q_sem t) st)) - 0) y" unfolding sem_inv_def by blast
      moreover from this sb have "t \<noteq> brk st" by auto
      ultimately show ?thesis by (auto simp: qe)
    qed
    then show "0 \<le> j" "j < int NBSEMAPHORE"
      "\<exists>y. sems ?st t = Some y \<and> sem_ok j (int (length (q_of (Q_sem t) ?st)) - 0) y" by blast+
  qed
  moreover have "fresh ?st" using kID(9) [OF I] by (auto simp: fresh_def)
  ultimately show ?thesis
    using I f qe by (simp add: kI_def wfq_def tab_def family_def idle_ok_def stale_def mq_inv_def)
qed

lemma screate_ok:
  assumes K: "kinv st" and n: "n \<le> SEMAPHORE_MAX_SIZE"
  shows "safe (screate n st)"
proof (cases "n < 0 \<or> get_free_sem st = -1")
  case True
  with K show ?thesis by (auto simp: screate_def)
next
  case False
  from K obtain c p where c: "process_table st (current_pid st) = Some c" "procs st c = Some p"
     "state p = ELECTED" "\<not> skip_message p" and I: "kI {c} {c} {} (\<lambda>_. 0) st" by (auto simp: kinv_def)
  have "kI {c} {c} {} (\<lambda>_. 0) (st\<lparr>brk := brk st + 1,
     semaphore_table := (semaphore_table st)(get_free_sem st := Some (brk st)),
     sems := (sems st)(brk st := Some \<lparr>sid = get_free_sem st, count = n, was_reset = False, was_deleted = False\<rparr>),
     qs := q_init (Q_sem (brk st)) (qs st)\<rparr>)"
    by (rule kI_new_sem [OF I]) (use False free_sem [of st] n in auto)
  with c have "kinv (st\<lparr>brk := brk st + 1,
     semaphore_table := (semaphore_table st)(get_free_sem st := Some (brk st)),
     sems := (sems st)(brk st := Some \<lparr>sid = get_free_sem st, count = n, was_reset = False, was_deleted = False\<rparr>),
     qs := q_init (Q_sem (brk st)) (qs st)\<rparr>)" unfolding kinv_def by auto
  with False show ?thesis by (simp add: screate_def Let_def)
qed

end
