(* ===== verification/Start_Inv.thy ===== *)
theory Start_Inv
  imports Process_Calls
begin

text \<open>
  \<^verbatim>\<open>start\<close>: the new process enters the table, its father's list of children and the activable
  queue (or the processor) and the invariant is kept. The memory part of \<^verbatim>\<open>start\<close> changes
  nothing but the memory manager's state.
\<close>

section \<open>Memory operations leave the kernel structures alone\<close>

lemma mem_do_Inr: "mem_do f st = Inr st' \<longleftrightarrow> (\<exists>m. f (mm st) = Inr m \<and> st' = st\<lparr>mm := m\<rparr>)"
  by (auto simp: mem_do_def)

lemma mem_call_Inr: "mem_call f st = Inr r \<longleftrightarrow> (\<exists>x m. f (mm st) = Inr (x, m) \<and> r = (x, st\<lparr>mm := m\<rparr>))"
  by (auto simp: mem_call_def)

lemma load_program_mm:
  assumes "load_program kp n ssize st = Inr (x, st')"
  shows "\<exists>m. st' = st\<lparr>mm := m\<rparr>"
  using assms
  by (auto simp: load_program_def Let_def mem_do_Inr mem_call_Inr)

section \<open>A new process\<close>

lemma fresh_home:
  assumes "kI X Y C d st" "brk st \<le> a"
  shows "procs st a = None" "home (qs st) a = None"
proof -
  show p: "procs st a = None" using kID(9) [OF assms(1)] assms(2) by (simp add: fresh_def)
  show "home (qs st) a = None"
  proof (rule ccontr)
    assume "home (qs st) a \<noteq> None"
    with kID(1) [OF assms(1)] have "procs st a \<noteq> None" by (simp add: wfq_def)
    with p show False by simp
  qed
qed

lemma free_pid:
  assumes "get_free_pid st = i" "i \<noteq> -1"
  shows "0 \<le> i \<and> i < int NBPROC \<and> process_table st i = None"
proof -
  from assms have "first_from NBPROC 0 (\<lambda>i. process_table st i = None) = Some i"
    unfolding get_free_pid_def by (simp split: option.splits)
  from first_from_Some [OF this] show ?thesis by simp
qed

definition enrol :: "int \<Rightarrow> addr \<Rightarrow> Process \<Rightarrow> addr \<Rightarrow> kstate \<Rightarrow> kstate" where
  "enrol i a q c st = upd c (children_update (\<lambda>cs. i # cs))
     (st\<lparr>process_table := (process_table st)(i := Some a), procs := (procs st)(a := Some q)\<rparr>)"

lemma enrol_simps [simp]:
  "process_table (enrol i a q c st) = (process_table st)(i := Some a)"
  "current_pid (enrol i a q c st) = current_pid st"
  "qs (enrol i a q c st) = qs st"
  "sems (enrol i a q c st) = sems st"
  "semaphore_table (enrol i a q c st) = semaphore_table st"
  "mqs (enrol i a q c st) = mqs st"
  "queue_table (enrol i a q c st) = queue_table st"
  "brk (enrol i a q c st) = brk st"
  "mm (enrol i a q c st) = mm st"
  by (simp_all add: enrol_def)

lemma procs_enrol:
  "c \<noteq> a \<Longrightarrow> procs (enrol i a q c st) b =
     (if b = a then Some q else if b = c then map_option (children_update (\<lambda>cs. i # cs)) (procs st c) else procs st b)"
  by (simp add: enrol_def)

lemma procs_enrolD:
  assumes "procs (enrol i a q c st) b = Some r" "c \<noteq> a" "b \<noteq> a"
  shows "\<exists>r0. procs st b = Some r0 \<and> r = (if b = c then children_update (\<lambda>cs. i # cs) r0 else r0)"
  using assms by (auto simp: procs_enrol split: if_splits)

text \<open>What holds when \<^verbatim>\<open>start\<close> enters the new process \<open>q\<close> at \<open>a\<close> under the number \<open>i\<close>, below its father \<open>p\<close> at \<open>c\<close>.\<close>

definition enrolling :: "int \<Rightarrow> addr \<Rightarrow> Process \<Rightarrow> addr \<Rightarrow> Process \<Rightarrow> kstate \<Rightarrow> bool" where
  "enrolling i a q c p st \<longleftrightarrow>
     kI {c} {c} {} (\<lambda>_. 0) st \<and> procs st c = Some p \<and> \<not> ended p \<and>
     process_table st i = None \<and> 0 \<le> i \<and> i < int NBPROC \<and>
     a < brk st \<and> procs st a = None \<and> home (qs st) a = None \<and>
     pid q = i \<and> father_pid q = pid p \<and> children q = [] \<and> state q = ACTIVABLE \<and> \<not> skip_message q"

lemma enrollingD:
  assumes "enrolling i a q c p st"
  shows "kI {c} {c} {} (\<lambda>_. 0) st" "procs st c = Some p" "\<not> ended p" "c \<noteq> a"
    "process_table st i = None" "0 \<le> i" "i < int NBPROC" "a < brk st" "procs st a = None" "home (qs st) a = None"
    "pid q = i" "father_pid q = pid p" "children q = []" "state q = ACTIVABLE" "\<not> skip_message q"
  using assms by (auto simp: enrolling_def)

text \<open>The other processes keep all but the father's list of children.\<close>

lemma enrol_other:
  assumes "enrolling i a q c p st" "procs (enrol i a q c st) b = Some r" "b \<noteq> a"
  shows "\<exists>r0. procs st b = Some r0 \<and> pid r0 = pid r \<and> state r0 = state r \<and> father_pid r0 = father_pid r \<and>
    waited_sem r0 = waited_sem r \<and> priority r0 = priority r \<and> skip_message r0 = skip_message r \<and> (b \<noteq> c \<longrightarrow> r0 = r)"
  using procs_enrolD [OF assms(2) enrollingD(4) [OF assms(1)] assms(3)] by (auto split: if_splits)

lemma enrol_kept:
  assumes "enrolling i a q c p st" "procs st b = Some r0"
  shows "\<exists>r. procs (enrol i a q c st) b = Some r \<and> pid r = pid r0 \<and> state r = state r0 \<and> father_pid r = father_pid r0 \<and>
    skip_message r = skip_message r0"
  using assms(2) enrollingD(4,9) [OF assms(1)] by (cases "b = c") (auto simp: procs_enrol)

lemma enrol_new: "enrolling i a q c p st \<Longrightarrow> procs (enrol i a q c st) a = Some q"
  using enrollingD(4) by (simp add: procs_enrol)

lemma enrolling_nonzero:
  assumes "enrolling i a q c p st"
  shows "i \<noteq> 0" "process_table st j \<noteq> Some a"
proof -
  note e = enrollingD [OF assms]
  show "i \<noteq> 0" using kID(5) [OF e(1)] e(5) unfolding idle_ok_def by auto
  show "process_table st j \<noteq> Some a" using kID(2) [OF e(1)] e(9) by (auto dest: tabD)
qed

lemma wfq_enrol:
  assumes E: "enrolling i a q c p st"
  shows "wfq (enrol i a q c st)" (is "wfq ?st")
proof -
  note e = enrollingD [OF E] and W = kID(1) [OF enrollingD(1) [OF E]]
  have "prio_of ?st b = prio_of st b" if "b \<noteq> a" for b
    using that e(2,4) by (auto simp: prio_of_def procs_enrol)
  moreover have "a \<notin> set (q_of x st)" for x using e(10) kI_qwf [OF e(1)] by (simp add: qwf_home)
  ultimately have "map (prio_of ?st) (q_of x st) = map (prio_of st) (q_of x st)" for x
    by (intro map_cong refl) metis
  then have "\<forall>x. sorted (map (prio_of ?st) (q_of x ?st))" using W by (simp add: wfq_def del: map_eq_conv)
  moreover have "procs ?st b \<noteq> None" if "home (qs ?st) b \<noteq> None" for b
    using W that e(4) by (auto simp: wfq_def procs_enrol)
  ultimately show ?thesis using W by (simp add: wfq_def)
qed

lemma tab_enrol:
  assumes E: "enrolling i a q c p st"
  shows "tab (enrol i a q c st)" (is "tab ?st")
  unfolding tab_def
proof (intro conjI allI impI)
  note e = enrollingD [OF E] and T = kID(2) [OF enrollingD(1) [OF E]]
  fix j b assume j: "process_table ?st j = Some b"
  have "0 \<le> j \<and> j < int NBPROC \<and> (\<exists>r. procs ?st b = Some r \<and> pid r = j \<and> state r \<noteq> FINISHED)"
  proof (cases "j = i")
    case True
    with j e enrol_new [OF E] show ?thesis by auto
  next
    case False
    with j tabD [OF T, of j b] obtain r0 where "0 \<le> j" "j < int NBPROC" "procs st b = Some r0" "pid r0 = j" "state r0 \<noteq> FINISHED"
      by auto
    with enrol_kept [OF E, of b r0] show ?thesis by auto
  qed
  then show "0 \<le> j" "j < int NBPROC" "\<exists>r. procs ?st b = Some r \<and> pid r = j \<and> state r \<noteq> FINISHED" by auto
next
  note e = enrollingD [OF E] and T = kID(2) [OF enrollingD(1) [OF E]]
  fix b r assume b: "procs ?st b = Some r" "state r \<noteq> FINISHED"
  show "process_table ?st (pid r) = Some b"
  proof (cases "b = a")
    case True
    with b e(11) enrol_new [OF E] show ?thesis by simp
  next
    case False
    with enrol_other [OF E b(1)] b(2) tabD' [OF T, of b] e(5) show ?thesis by auto
  qed
qed

lemma places_enrol:
  assumes E: "enrolling i a q c p st"
  shows "places {a, c} (enrol i a q c st)" (is "places _ ?st")
proof (rule placesI)
  note e = enrollingD [OF E] and P = kID(3) [OF enrollingD(1) [OF E]]
  fix b r assume b: "procs ?st b = Some r" "b \<in> {a, c}"
  show "home (qs ?st) b = None \<and> state r \<noteq> FINISHED"
  proof (cases "b = a")
    case True
    with b e(10,14) enrol_new [OF E] show ?thesis by auto
  next
    case False
    with b enrol_other [OF E b(1)] placesD(1) [OF P, of b] show ?thesis by auto
  qed
next
  note e = enrollingD [OF E] and P = kID(3) [OF enrollingD(1) [OF E]]
  fix b r assume b: "procs ?st b = Some r" "b \<notin> {a, c}"
  then have "procs st b = Some r" using e(4) by (simp add: procs_enrol)
  moreover have "place_ok ?st = place_ok st" by (rule place_ok_cong) simp_all
  ultimately show "state r \<noteq> ELECTED \<and> place_ok ?st r (home (qs ?st) b)"
    using placesD(2) [OF P, of b r] b(2) by simp
qed

lemma stale_enrol:
  assumes E: "enrolling i a q c p st"
  shows "stale (enrol i a q c st)" (is "stale ?st")
  unfolding stale_def
proof (intro allI impI)
  note e = enrollingD [OF E]
  fix b x f y
  assume b: "procs ?st b = Some x" "state x = FINISHED" "process_table ?st (pid x) = Some f" "procs ?st f = Some y"
  then have "b \<noteq> a" using e(14) enrol_new [OF E] by auto
  from enrol_other [OF E b(1) this] b(2) obtain x0 where x0: "procs st b = Some x0" "state x0 = FINISHED" "pid x0 = pid x" by auto
  show "state y = ACTIVABLE \<or> state y = ZOMBIE"
  proof (cases "pid x = i")
    case True
    with b e(14) enrol_new [OF E] show ?thesis by auto
  next
    case False
    then have f: "process_table st (pid x) = Some f" using b(3) by simp
    then have "f \<noteq> a" using enrolling_nonzero(2) [OF E] by auto
    from enrol_other [OF E b(4) this] obtain y0 where "procs st f = Some y0" "state y0 = state y" by auto
    with x0 f kID(6) [OF e(1)] show ?thesis unfolding stale_def by metis
  qed
qed

lemma conts_enrol:
  assumes E: "enrolling i a q c p st"
  shows "conts {a, c} (enrol i a q c st)" (is "conts _ ?st")
proof (rule conts_mono [OF kID(10) [OF enrollingD(1) [OF E]]])
  show "zombie_child ?st f x" if zc: "zombie_child st f x" for f x
  proof -
    from zc obtain b r where b: "x \<noteq> 0" "process_table st x = Some b" "procs st b = Some r" "state r = ZOMBIE" "father_pid r = f"
      unfolding zombie_child_def by blast
    with enrollingD(5) [OF E] have "x \<noteq> i" by auto
    with b enrol_kept [OF E b(3)] show ?thesis unfolding zombie_child_def by auto
  qed
  show "\<exists>q'. procs ?st b = Some q' \<and> state q' \<noteq> FINISHED \<and> pid q' \<noteq> 0 \<and> father_pid q' = pid x \<and> \<not> skip_message q'"
    if "procs st b = Some r" "state r \<noteq> FINISHED" "pid r \<noteq> 0" "father_pid r = pid x" "\<not> skip_message r" for b r x
    using enrol_kept [OF E that(1)] that by auto
qed (use enrollingD(4) [OF E] in \<open>auto simp: procs_enrol\<close>)

text \<open>The new process has no children, and is the child of its father alone.\<close>

lemma child_of_enrol:
  assumes E: "enrolling i a q c p st"
  shows "child_of (enrol i a q c st) f x \<longleftrightarrow> (if x = i then f = pid p else child_of st f x)"
proof (cases "x = i")
  case True
  then show ?thesis using enrolling_nonzero(1) [OF E] enrollingD [OF E] enrol_new [OF E] by (auto simp: child_of_def)
next
  case False
  then show ?thesis using enrolling_nonzero(2) [OF E, of x] enrollingD(2,4) [OF E] by (auto simp: child_of_def procs_enrol)
qed

lemma enrolling_childless:
  assumes E: "enrolling i a q c p st"
  shows "\<not> child_of st i x"
proof
  note e = enrollingD [OF E]
  assume "child_of st i x"
  then obtain b r where b: "x \<noteq> 0" "process_table st x = Some b" "procs st b = Some r" "father_pid r = i"
    by (auto simp: child_of_def)
  with tab_pid [OF kID(2) [OF e(1)] b(2,3)] kID(4) [OF e(1)] have "i = -1 \<or> process_table st i \<noteq> None"
    unfolding family_def by (metis empty_iff option.distinct(1))
  with e(5,6) show False by simp
qed

lemma enrol_children:
  assumes E: "enrolling i a q c p st" and b: "procs (enrol i a q c st) b = Some r" "\<not> ended r"
  shows "distinct (children r) \<and> (\<forall>x. x \<in> set (children r) \<longleftrightarrow> child_of (enrol i a q c st) (pid r) x)"
proof (cases "b = a")
  note e = enrollingD [OF E] and T = kID(2) [OF enrollingD(1) [OF E]] and co = child_of_enrol [OF E]
  have tc: "process_table st (pid p) = Some c" using tabD' [OF T e(2)] e(3) by (simp add: ended_def)
  {
    case True
    then have "r = q" using b enrol_new [OF E] by simp
    with e(11,13) enrolling_childless [OF E] tc e(5) show ?thesis by (auto simp: co)
  next
    case False
    from procs_enrolD [OF b(1) e(4) False] obtain r0 where r0: "procs st b = Some r0"
      "r = (if b = c then children_update (\<lambda>cs. i # cs) r0 else r0)" by blast
    then have n: "\<not> ended r0" "pid r = pid r0" using b(2) by (auto simp: ended_def split: if_splits)
    with r0(1) kID(4) [OF e(1)] have F: "distinct (children r0)" "\<And>x. x \<in> set (children r0) \<longleftrightarrow> child_of st (pid r0) x"
      unfolding family_def by auto
    have ni: "\<not> child_of st (pid r0) i" using e(5) by (simp add: child_of_def)
    have "pid r \<noteq> pid p" if "b \<noteq> c" using tabD' [OF T r0(1)] n tc that by (auto simp: ended_def)
    with F ni r0 e(2) n show ?thesis by (cases "b = c") (auto simp: co)
  }
qed

lemma family_enrol:
  assumes E: "enrolling i a q c p st"
  shows "family {} (enrol i a q c st)" (is "family _ ?st")
  unfolding family_def
proof (intro conjI allI impI)
  fix b r assume "procs ?st b = Some r" "\<not> ended r"
  from enrol_children [OF E this]
  show "distinct (children r)" "x \<in> set (children r) \<longleftrightarrow> child_of ?st (pid r) x \<and> x \<notin> {}" for x by simp_all
next
  note e = enrollingD [OF E]
  fix b r assume b: "procs ?st b = Some r" "state r \<noteq> FINISHED" "pid r \<noteq> 0" "father_pid r \<noteq> -1"
  have "\<exists>f s. process_table st (father_pid r) = Some f \<and> procs st f = Some s \<and> \<not> ended s"
  proof (cases "b = a")
    case True
    then have "r = q" using b enrol_new [OF E] by simp
    moreover have "process_table st (pid p) = Some c" using tabD' [OF kID(2) [OF e(1)] e(2)] e(3) by (simp add: ended_def)
    ultimately show ?thesis using e(2,3,12) by auto
  next
    case False
    from procs_enrolD [OF b(1) e(4) False] obtain r0 where "procs st b = Some r0"
      "r = (if b = c then children_update (\<lambda>cs. i # cs) r0 else r0)" by blast
    with b kID(4) [OF e(1)] show ?thesis unfolding family_def by (auto split: if_splits)
  qed
  then obtain f s where f: "process_table st (father_pid r) = Some f" "procs st f = Some s" "\<not> ended s" by blast
  have "f \<noteq> a" "father_pid r \<noteq> i" using f(1) enrolling_nonzero(2) [OF E] e(5) by auto
  with f e(2,4) show "\<exists>f s. process_table ?st (father_pid r) = Some f \<and> procs ?st f = Some s \<and> \<not> ended s"
    by (cases "f = c") (auto simp: procs_enrol ended_def)
qed

lemma kI_enrol:
  assumes I: "kI {c} {c} {} (\<lambda>_. 0) st" and c: "procs st c = Some p" "\<not> ended p"
    and i: "process_table st i = None" "0 \<le> i" "i < int NBPROC"
    and a: "a < brk st" "procs st a = None" "home (qs st) a = None"
    and q: "pid q = i" "father_pid q = pid p" "children q = []" "state q = ACTIVABLE" "\<not> skip_message q"
  shows "kI {a, c} {a, c} {} (\<lambda>_. 0) (enrol i a q c st)" (is "kI _ _ _ _ ?st")
proof -
  have E: "enrolling i a q c p st" using assms by (simp add: enrolling_def)
  note e = enrollingD [OF E] and i0 = enrolling_nonzero [OF E]
  obtain z r where z: "process_table st 0 = Some z" "procs st z = Some r"
    "state r = ACTIVABLE \<or> z \<in> {c} \<and> state r = ELECTED" using kID(5) [OF I] unfolding idle_ok_def by blast
  have "idle_ok {a, c} ?st" using z i0 enrol_kept [OF E z(2)] unfolding idle_ok_def by auto
  moreover have "sem_inv (\<lambda>_. 0) ?st" by (rule sem_inv_length [OF kID(7) [OF I]]) simp_all
  moreover have "mq_inv ?st" using kID(8) [OF I] by (simp add: mq_inv_def)
  moreover have "fresh ?st" using kID(9) [OF I] a(1) c e(4) by (auto simp: fresh_def procs_enrol)
  ultimately show ?thesis
    using family_enrol [OF E] wfq_enrol [OF E] tab_enrol [OF E] places_enrol [OF E] stale_enrol [OF E] conts_enrol [OF E] by (simp add: kI_def)
qed

section \<open>Electing or queueing the new process\<close>

text \<open>
  \<open>c\<close> runs, and its child at \<open>a\<close>, entered in the table, is in no queue yet: the state in which \<^verbatim>\<open>start\<close>
  compares the two priorities.
\<close>

definition newborn :: "kstate \<Rightarrow> addr \<Rightarrow> Process \<Rightarrow> addr \<Rightarrow> Process \<Rightarrow> bool" where
  "newborn st c p a q \<longleftrightarrow> kI {a, c} {a, c} {} (\<lambda>_. 0) st \<and> a \<noteq> c \<and>
     process_table st (current_pid st) = Some c \<and> procs st c = Some p \<and> state p = ELECTED \<and> \<not> skip_message p \<and>
     procs st a = Some q \<and> process_table st (pid q) = Some a \<and> state q = ACTIVABLE \<and> pid q \<noteq> 0 \<and>
     father_pid q = pid p \<and> \<not> skip_message q \<and> registers q = K_new_process"

lemma newbornD:
  assumes "newborn st c p a q"
  shows "kI {a, c} {a, c} {} (\<lambda>_. 0) st" "a \<noteq> c"
    "process_table st (current_pid st) = Some c" "procs st c = Some p" "state p = ELECTED" "\<not> skip_message p"
    "procs st a = Some q" "process_table st (pid q) = Some a" "state q = ACTIVABLE" "pid q \<noteq> 0"
    "father_pid q = pid p" "\<not> skip_message q" "registers q = K_new_process"
    "home (qs st) a = None" "home (qs st) c = None" "{a, c} - {c} = {a}" "{a, c} - {a} = {c}"
    "0 \<le> current_pid st" "pid p = current_pid st"
proof -
  show "0 \<le> current_pid st" "pid p = current_pid st"
    using assms tabD [OF kID(2)] tab_pid [OF kID(2)] unfolding newborn_def by blast+
  show "home (qs st) a = None" "home (qs st) c = None"
    using assms placesD(1) [OF kID(3)] unfolding newborn_def by blast+
qed (use assms in \<open>auto simp: newborn_def\<close>)

lemma elect_newborn:
  assumes N: "newborn st c p a q" and pr: "priority q > priority p"
    and g: "\<forall>b r. procs st b = Some r \<longrightarrow> state r = FINISHED \<longrightarrow> pid r \<noteq> pid q"
  shows "safe (elect_or_queue a st)"
proof -
  note n = newbornD [OF N]
  let ?st1 = "enlink c Q_activable (upd c (state_update (\<lambda>_. ACTIVABLE)) st)"
  let ?st2 = "upd a (state_update (\<lambda>_. ELECTED)) ?st1"
  let ?p = "p\<lparr>state := ACTIVABLE\<rparr>" and ?q = "q\<lparr>state := ELECTED\<rparr>"
  have "kI ({a, c} - {c}) {a, c} {} (\<lambda>_. 0) ?st1"
    by (rule kI_activate [OF n(1) _ _ n(4)]) (use n(5) in \<open>auto simp: ended_def\<close>)
  then have I1: "kI {a} {a, c} {} (\<lambda>_. 0) ?st1" by (simp only: n(16))
  have I2: "kI {a} {a, c} {} (\<lambda>_. 0) ?st2"
    by (rule kI_upd [OF I1, where p = q]) (use n(2,7-12) g in auto)
  let ?st3 = "?st2\<lparr>current_pid := pid q\<rparr>"
  have pr3: "procs ?st3 a = Some ?q" "procs ?st3 c = Some ?p" using n(2,4,7) by auto
  have I3: "kI {a} {a, c} {} (\<lambda>_. 0) (saved c (K_start a) ?st3)"
    unfolding saved_def using I2 pr3 by (intro kI_upd [where p = ?p]) auto
  have "cont_ok (saved c (K_start a) ?st3) c (?p\<lparr>registers := K_start a\<rparr>)"
    unfolding cont_ok_saved using pr3 n(2,4-12) by (simp add: cont_ok_def ready_def)
  then have "kI {a} ({a, c} - {c}) {} (\<lambda>_. 0) (saved c (K_start a) ?st3)"
    by (intro kI_conts [OF I3]) (use pr3 in \<open>auto simp: procs_saved\<close>)
  then have I4: "kI {a} {a} {} (\<lambda>_. 0) (saved c (K_start a) ?st3)" by (simp only: n(16))
  obtain st4 where st4: "virtual_ctx_sw (Some c) (K_start a) a ?st3 = Inr st4"
    "st4 = (saved c (K_start a) ?st3)\<lparr>mm := mm st4, tss_cr3 := tss_cr3 st4, tss_esp0 := tss_esp0 st4, cpu := K_new_process\<rparr>"
    using virtual_ctx_sw_eq [OF pr3, of "K_start a"] n(2,13) by auto
  have "running st4 a ?q"
    using I4 n(2,7,8) by (subst st4(2)) (simp add: running_def procs_saved)
  moreover have "ready st4 a ?q (cpu st4)" using n(12) by (subst st4(2)) (simp add: ready_def)
  ultimately have "resumable st4" by (auto simp: resumable_def)
  moreover have "activate c st = Inr ?st1" by (rule activate_eq [OF n(15)])
  ultimately show ?thesis
    using pr n(2-4,7,8,18) st4(1) by (simp add: elect_or_queue_def deref_def tbl_def Let_def)
qed

lemma queue_newborn:
  assumes N: "newborn st c p a q" and pr: "\<not> priority q > priority p"
  shows "safe (elect_or_queue a st)"
proof -
  note n = newbornD [OF N]
  let ?st1 = "enlink a Q_activable (upd a (state_update (\<lambda>_. ACTIVABLE)) st)"
  let ?f = "skip_message_update (\<lambda>_. False)"
  have "kI ({a, c} - {a}) {a, c} {} (\<lambda>_. 0) ?st1"
    by (rule kI_activate [OF n(1) _ _ n(7)]) (use n(9) in \<open>auto simp: ended_def\<close>)
  then have I1: "kI {c} {a, c} {} (\<lambda>_. 0) ?st1" by (simp only: n(17))
  have "kI {c} ({a, c} - {a}) {} (\<lambda>_. 0) ?st1"
    by (rule kI_conts [OF I1]) (use n(7-13) in \<open>auto simp: cont_ok_def ready_def\<close>)
  then have "kI {c} {c} {} (\<lambda>_. 0) ?st1" by (simp only: n(17))
  then have "kinv ?st1" using n(2-6) by (auto simp: kinv_def)
  moreover have "upd a ?f ?st1 = ?st1"
  proof -
    have "q\<lparr>state := ACTIVABLE, skip_message := False\<rparr> = q\<lparr>state := ACTIVABLE\<rparr>" using n(12) by simp
    then have "procs (upd a ?f ?st1) = procs ?st1" using n(7) by (simp add: fun_eq_iff)
    then show ?thesis unfolding upd_def by (simp add: fun_upd_idem)
  qed
  moreover have "activate a st = Inr ?st1" by (rule activate_eq [OF n(14)])
  ultimately show ?thesis
    using pr n(2-12,18,19) by (simp add: elect_or_queue_def deref_def tbl_def)
qed

text \<open>
  What \<^verbatim>\<open>start\<close> needs from its environment: the program exists and there is memory for it,
  and a pid that is given to a process elected at once does not still belong to a finished
  process that waits to be freed: \<^verbatim>\<open>__scheduler\<close> and \<^verbatim>\<open>__free_finished_process\<close> recognise the
  process that runs by its pid only.
\<close>

definition start_mem_ok :: "kparams \<Rightarrow> string \<Rightarrow> u32 \<Rightarrow> int \<Rightarrow> kstate \<Rightarrow> bool" where
  "start_mem_ok kp n ssize arg st =
     (case bindE (load_program kp n ssize (st\<lparr>brk := brk st + 1\<rparr>)) (\<lambda>((dir, ustack), st1).
           bindE (mem_do (store32u (ustack - 36) (of_int arg)) st1) (\<lambda>st2.
             mem_do (pgdir_copy (pgdir kp) dir (ustack - 4) TWO_GIGABYTES (sint (ssize + 8))) st2)) of
        Inl e \<Rightarrow> False
      | Inr st \<Rightarrow> True)"

lemma case_sum_Inr: "(case r of Inl e \<Rightarrow> False | Inr x \<Rightarrow> True) \<longleftrightarrow> (\<exists>x. r = Inr x)"
  by (cases r) auto

definition pid_reusable :: "int \<Rightarrow> kstate \<Rightarrow> bool" where
  "pid_reusable prio st \<longleftrightarrow>
     (\<forall>c p. process_table st (current_pid st) = Some c \<longrightarrow> procs st c = Some p \<longrightarrow> prio > priority p \<longrightarrow>
        (\<forall>b r. procs st b = Some r \<longrightarrow> state r = FINISHED \<longrightarrow> pid r \<noteq> get_free_pid st))"


lemma kI_brk:
  assumes "kI X Y C d st" "brk st \<le> n"
  shows "kI X Y C d (st\<lparr>brk := n\<rparr>)"
proof -
  have e: "place_ok (st\<lparr>brk := n\<rparr>) = place_ok st" "child_of (st\<lparr>brk := n\<rparr>) = child_of st"
    "zombie_child (st\<lparr>brk := n\<rparr>) = zombie_child st" "prio_of (st\<lparr>brk := n\<rparr>) = prio_of st"
    by (rule place_ok_cong) (simp_all add: child_of_def zombie_child_def prio_of_def fun_eq_iff)
  have "conts Y (st\<lparr>brk := n\<rparr>)"
    by (rule conts_mono [OF kID(10) [OF assms(1)]]) (use e in auto)
  then show ?thesis
    using assms e by (simp add: kI_def wfq_def tab_def places_def family_def idle_ok_def stale_def mq_inv_def fresh_def sem_inv_def)
qed

lemma kinv_brk: "kinv st \<Longrightarrow> brk st \<le> n \<Longrightarrow> kinv (st\<lparr>brk := n, mm := m\<rparr>)"
  unfolding kinv_def by (auto intro: kI_brk)

lemma qinsert_const: "qinsert (\<lambda>_. 1) i = (\<lambda>xs. i # xs)"
proof
  show "qinsert (\<lambda>_. 1) i xs = i # xs" for xs by (cases xs) (simp_all add: qinsert_def)
qed

text \<open>When the arguments are good and there is memory, \<^verbatim>\<open>start\<close> enters the process and compares the priorities.\<close>

lemma start_enrols:
  assumes ld: "load_program kp n ssize (st\<lparr>brk := brk st + 1\<rparr>) = Inr ((dir, ustack), st1)"
    and st1: "st1 = st\<lparr>brk := brk st + 1, mm := m\<rparr>"
    and m1: "store32u (ustack - 36) (of_int arg) (mm st1) = Inr m1"
    and m2: "pgdir_copy (pgdir kp) dir (ustack - 4) TWO_GIGABYTES (sint (ssize + 8)) m1 = Inr m2"
    and ok: "\<not> ssize > 0x10000000" "get_free_pid st \<noteq> -1" "\<not> prio > MAXPRIO"
    and c: "process_table st (current_pid st) = Some c" "procs st c \<noteq> None" "brk st \<noteq> c" "current_pid st \<noteq> -1"
      "process_table st (get_free_pid st) = None"
  shows "start kp n ssize prio arg st = elect_or_queue (brk st)
    (enrol (get_free_pid st) (brk st) (init_process (get_free_pid st) n (brk st + 1) ssize prio dir (current_pid st)) c
      (st\<lparr>brk := brk st + 2, mm := m2\<rparr>))"
proof -
  let ?i = "get_free_pid st" and ?a = "brk st" and ?s = "st\<lparr>brk := brk st + 2, mm := m2\<rparr>"
  let ?q = "init_process ?i n (brk st + 1) ssize prio dir (current_pid st)"
  have gp: "get_free_pid st1 = ?i" by (simp add: get_free_pid_def st1)
  let ?st2 = "st1\<lparr>brk := brk st1 + 1, process_table := (process_table st1)(?i := Some ?a),
      procs := (procs st1)(?a := Some (init_process ?i n (brk st1) ssize prio dir (current_pid st1)))\<rparr>"
  have "mem_do (store32u (ustack - 36) (of_int arg)) ?st2 = Inr (?st2\<lparr>mm := m1\<rparr>)"
    "mem_do (pgdir_copy (pgdir kp) dir (ustack - 4) TWO_GIGABYTES (sint (ssize + 8))) (?st2\<lparr>mm := m1\<rparr>)
       = Inr (?st2\<lparr>mm := m2\<rparr>)"
    using m1 m2 by (auto simp: mem_do_Inr)
  moreover have "add_child (current_pid st) ?i (?st2\<lparr>mm := m2\<rparr>) = Inr (enrol ?i ?a ?q c ?s)"
  proof -
    have "add_child (current_pid st) ?i (?st2\<lparr>mm := m2\<rparr>) = Inr (upd c (children_update (\<lambda>cs. ?i # cs)) (?st2\<lparr>mm := m2\<rparr>))"
      using c st1 by (auto simp: add_child_def tbl_def deref_def qinsert_const)
    moreover have "?st2\<lparr>mm := m2\<rparr> = ?s\<lparr>process_table := (process_table ?s)(?i := Some ?a), procs := (procs ?s)(?a := Some ?q)\<rparr>"
      by (rule kstate.equality) (simp_all add: st1)
    ultimately show ?thesis by (simp only: enrol_def)
  qed
  ultimately show ?thesis using ok ld gp st1 by (simp add: start_def Let_def)
qed

lemma start_ok:
  assumes R: "running st c p" and sk: "\<not> skip_message p"
    and mem: "start_mem_ok kp n ssize arg st" and g: "pid_reusable prio st"
  shows "safe (start kp n ssize prio arg st)"
proof -
  from R have c: "process_table st (current_pid st) = Some c" "procs st c = Some p" "state p = ELECTED"
    and I: "kI {c} {c} {} (\<lambda>_. 0) st" by (auto simp: running_def)
  have K: "kinv st" using R sk by (auto simp: kinv_running)
  let ?a = "brk st" and ?i = "get_free_pid st"
  from mem obtain dir ustack st1 m1 m2 where
    ld: "load_program kp n ssize (st\<lparr>brk := brk st + 1\<rparr>) = Inr ((dir, ustack), st1)"
    and m1: "store32u (ustack - 36) (of_int arg) (mm st1) = Inr m1"
    and m2: "pgdir_copy (pgdir kp) dir (ustack - 4) TWO_GIGABYTES (sint (ssize + 8)) m1 = Inr m2"
    unfolding start_mem_ok_def case_sum_Inr by (auto simp: mem_do_Inr)
  from load_program_mm [OF ld] obtain m where st1: "st1 = st\<lparr>brk := brk st + 1, mm := m\<rparr>" by auto
  have gp: "get_free_pid st1 = ?i" by (simp add: get_free_pid_def st1)
  consider "ssize > 0x10000000" | "\<not> ssize > 0x10000000" "?i = -1 \<or> prio > MAXPRIO"
    | "\<not> ssize > 0x10000000" "?i \<noteq> -1" "\<not> prio > MAXPRIO" by blast
  then show ?thesis
  proof cases
    case 1
    with K show ?thesis by (simp add: start_def)
  next
    case 2
    have "kinv st1" unfolding st1 using K by (intro kinv_brk) simp_all
    with 2 ld gp show ?thesis by (simp add: start_def Let_def)
  next
    case 3
    let ?q = "init_process ?i n (brk st + 1) ssize prio dir (current_pid st)"
    let ?s = "st\<lparr>brk := brk st + 2, mm := m2\<rparr>"
    let ?st4 = "enrol ?i ?a ?q c ?s"
    have fp: "0 \<le> ?i" "?i < int NBPROC" "process_table st ?i = None" using free_pid [OF refl 3(2)] by auto
    note T = kID(2) [OF I]
    have cur: "pid p = current_pid st" "current_pid st \<noteq> -1" using tab_pid [OF T c(1,2)] tabD [OF T c(1)] by auto
    have fa: "procs st ?a = None" "home (qs st) ?a = None" using fresh_home [OF I, of ?a] by auto
    have ac: "?a \<noteq> c" using fa c by auto
    have Is: "kI {c} {c} {} (\<lambda>_. 0) ?s" using kI_brk [OF I, of "brk st + 2"] by simp
    have I4: "kI {?a, c} {?a, c} {} (\<lambda>_. 0) ?st4"
      by (rule kI_enrol [OF Is, of p]) (use c fp fa cur in \<open>auto simp: init_process_def ended_def\<close>)
    have p4: "procs ?st4 c = Some (children_update (\<lambda>cs. ?i # cs) p)" "procs ?st4 ?a = Some ?q"
      using ac c by (simp_all add: procs_enrol)
    have i0: "?i \<noteq> 0" using kID(5) [OF I] fp(3) by (auto simp: idle_ok_def)
    have "newborn ?st4 c (children_update (\<lambda>cs. ?i # cs) p) ?a ?q" unfolding newborn_def
      by (intro conjI I4 ac p4) (use c sk cur i0 fp in \<open>auto simp: init_process_def\<close>)
    note new = elect_newborn [OF this] queue_newborn [OF this]
    have "priority (children_update (\<lambda>cs. ?i # cs) p) < priority ?q \<longrightarrow>
        (\<forall>b r. procs ?st4 b = Some r \<longrightarrow> state r = FINISHED \<longrightarrow> pid r \<noteq> pid ?q)"
      using g c ac unfolding pid_reusable_def
      by (auto simp: init_process_def procs_enrol split: if_splits)
    with new have "safe (elect_or_queue ?a ?st4)" by blast
    moreover have "start kp n ssize prio arg st = elect_or_queue ?a ?st4"
      by (rule start_enrols [OF ld st1 m1 m2 3 c(1) _ ac cur(2) fp(3)]) (use c(2) in simp)
    ultimately show ?thesis by simp
  qed
qed

end
