(* ===== verification/Syscall.thy ===== *)
theory Syscall
  imports Shared_Memory Message_Queue_Inv Semaphore_Inv Start_Inv
begin

text \<open>
  Entry into the kernel: the system-call dispatcher (\<^verbatim>\<open>kernel/syscall_kernel.c\<close>), the timer
  interrupt (\<^verbatim>\<open>tic_PIT\<close> of \<^verbatim>\<open>kernel/time.c\<close>) and the page-fault handler
  (\<^verbatim>\<open>kernel/interruptions.c\<close>).
\<close>

section \<open>Dispatcher\<close>

datatype syscall_number =
  START | GETPID | GETPRIO | CHPRIO | KILL | WAITPID | EXIT | CONS_WRITE | CONS_READ | CONS_ECHO |
  SCOUNT | SCREATE | SDELETE | SIGNAL | SIGNALN | SRESET | TRY_WAIT | WAIT | PCOUNT | PCREATE |
  PDELETE | PRECEIVE | PRESET | PSEND | CLOCK_SETTINGS | CURRENT_CLOCK | WAIT_CLOCK | SYS_INFO |
  SHM_CREATE | SHM_ACQUIRE | SHM_RELEASE

definition syscall_numbers :: "syscall_number list" where
  "syscall_numbers =
     [START, GETPID, GETPRIO, CHPRIO, KILL, WAITPID, EXIT, CONS_WRITE, CONS_READ, CONS_ECHO,
      SCOUNT, SCREATE, SDELETE, SIGNAL, SIGNALN, SRESET, TRY_WAIT, WAIT, PCOUNT, PCREATE,
      PDELETE, PRECEIVE, PRESET, PSEND, CLOCK_SETTINGS, CURRENT_CLOCK, WAIT_CLOCK, SYS_INFO,
      SHM_CREATE, SHM_ACQUIRE, SHM_RELEASE]"

text \<open>What the kernel reads in the caller's address space: a C string, and a range of bytes.\<close>

record uenv =
  ustr :: "u32 \<Rightarrow> string"
  ubytes :: "u32 \<Rightarrow> nat \<Rightarrow> u8 list"

definition valid_user_address :: "u32 \<Rightarrow> bool" where
  "valid_user_address address \<longleftrightarrow> \<not> (address \<noteq> 0 \<and> address < 0x4000000)"

definition ret_ptr :: "(u32 \<times> sys) sresult \<Rightarrow> (flow \<times> sys) sresult" where
  "ret_ptr r = bindE r (\<lambda>(p, s). Inr (Return (sint p), s))"

definition syscall_case :: "kparams \<Rightarrow> uenv \<Rightarrow> syscall_number \<Rightarrow> u32 \<Rightarrow> u32 \<Rightarrow> u32 \<Rightarrow> u32 \<Rightarrow> sys \<Rightarrow> (flow \<times> sys) sresult" where
  "syscall_case kp ue n param1 param2 param3 param4 s =
     (let i1 = sint param1; i2 = sint param2 in
      case n of
        START \<Rightarrow> kcall (start kp (ustr ue param1) param2 (sint param3) (sint param4)) s
      | GETPID \<Rightarrow> kcall getpid s
      | GETPRIO \<Rightarrow> kcall (getprio i1) s
      | CHPRIO \<Rightarrow> kcall (chprio i1 i2) s
      | KILL \<Rightarrow> kcall (kill i1) s
      | WAITPID \<Rightarrow> kcall (waitpid i1 param2) s
      | EXIT \<Rightarrow> kcall (exit i1) s
      | CONS_WRITE \<Rightarrow>
          if \<not> valid_user_address param1 then Inr (Return 0, s)
          else Inr (Return 0, s\<lparr>scr := console_putbytes (ubytes ue param1 (nat i2)) (scr s)\<rparr>)
      | CONS_READ \<Rightarrow> Inr (Return (console_readline param1 param2), s)
      | CONS_ECHO \<Rightarrow> Inr (Return 0, console_echo i1 s)
      | SCOUNT \<Rightarrow> kcall (scount i1) s
      | SCREATE \<Rightarrow> kcall (screate (to_short i1)) s
      | SDELETE \<Rightarrow> kcall (sdelete i1) s
      | SIGNAL \<Rightarrow> kcall (signal i1) s
      | SIGNALN \<Rightarrow> kcall (signaln i1 (to_short i2)) s
      | SRESET \<Rightarrow> kcall (sreset i1 (to_short i2)) s
      | TRY_WAIT \<Rightarrow> kcall (try_wait i1) s
      | WAIT \<Rightarrow> kcall (wait i1) s
      | PCOUNT \<Rightarrow> kcall (pcount i1 param2) s
      | PCREATE \<Rightarrow> kcall (pcreate i1) s
      | PDELETE \<Rightarrow> kcall (pdelete i1) s
      | PRECEIVE \<Rightarrow> kcall (preceive i1 param2) s
      | PRESET \<Rightarrow> kcall (preset i1) s
      | PSEND \<Rightarrow> kcall (psend i1 i2) s
      | CLOCK_SETTINGS \<Rightarrow> Inr (Return 0, s\<lparr>ker := clock_settings param1 param2 (ck s) (ker s)\<rparr>)
      | CURRENT_CLOCK \<Rightarrow> Inr (Return (sint (current_clock (ker s))), s)
      | WAIT_CLOCK \<Rightarrow> kcall (wait_clock param1) s
      | SYS_INFO \<Rightarrow> Inr (Return 0, s\<lparr>scr := sys_info (ker s) (scr s)\<rparr>)
      | SHM_CREATE \<Rightarrow> ret_ptr (shm_create (if param1 = 0 then None else Some (param1, ustr ue param1)) s)
      | SHM_ACQUIRE \<Rightarrow> ret_ptr (shm_acquire (param1, ustr ue param1) s)
      | SHM_RELEASE \<Rightarrow> bindE (shm_release (param1, ustr ue param1) s) (\<lambda>s. Inr (Return 0, s)))"

definition syscall :: "kparams \<Rightarrow> uenv \<Rightarrow> u32 \<Rightarrow> u32 \<Rightarrow> u32 \<Rightarrow> u32 \<Rightarrow> u32 \<Rightarrow> sys \<Rightarrow> (flow \<times> sys) sresult" where
  "syscall kp ue syscall_num param1 param2 param3 param4 s =
     (if unat syscall_num < length syscall_numbers
      then syscall_case kp ue (syscall_numbers ! unat syscall_num) param1 param2 param3 param4 s
      else Inl (Panic ''Syscall number %d not recognized !''))"

section \<open>Completion and faults\<close>

text \<open>After a context switch the elected process goes on.\<close>

definition complete_sys :: "(flow \<times> sys) sresult \<Rightarrow> (flow \<times> sys) sresult" where
  "complete_sys r = bindE r (\<lambda>(fl, s). if fl = Switch then kcall resume s else Inr (fl, s))"

definition pagefault_interrupt :: "sys \<Rightarrow> (flow \<times> sys) sresult" where
  "pagefault_interrupt s = kcall (exit 0) (kprintf (''Page Fault occurred'' @ [CHR 0x0A]) [] s)"

definition handle_fault :: "(flow \<times> sys) sresult \<Rightarrow> (flow \<times> sys) sresult" where
  "handle_fault r = (case r of Inl (PageFault s) \<Rightarrow> pagefault_interrupt s | _ \<Rightarrow> r)"

definition gpf_interrupt :: "sys \<Rightarrow> (flow \<times> sys) sresult" where
  "gpf_interrupt s = Inl (Panic (''General Protection Fault occurred'' @ [CHR 0x0A]))"

text \<open>A system call as its caller sees it (\<^verbatim>\<open>IT_49_handler\<close>).\<close>

definition IT_49 :: "kparams \<Rightarrow> uenv \<Rightarrow> u32 \<Rightarrow> u32 \<Rightarrow> u32 \<Rightarrow> u32 \<Rightarrow> u32 \<Rightarrow> sys \<Rightarrow> (flow \<times> sys) sresult" where
  "IT_49 kp ue num param1 param2 param3 param4 s =
     complete_sys (handle_fault (syscall kp ue num param1 param2 param3 param4 s))"

section \<open>The timer interrupt\<close>

text \<open>The scheduling part of \<^verbatim>\<open>tic_PIT\<close>, every \<^verbatim>\<open>SCHEDFREQ\<close> ticks.\<close>

definition tick_schedule :: "kstate \<Rightarrow> flow syscall_result" where
  "tick_schedule k =
     (if time_count k mod SCHEDFREQ = 0 then
        bindE (tbl (current_pid k) k) (\<lambda>old_process.
        bindE (deref old_process k) (\<lambda>p.
        bindE (if state p = ELECTED then activate old_process k else Inr k) (\<lambda>k.
        bindE (scheduler K_tick k) (\<lambda>k. Inr (Switch, k)))))
      else Inr (Iret, k))"

definition tic_PIT :: "sys \<Rightarrow> (flow \<times> sys) sresult" where
  "tic_PIT s =
     (let s = s\<lparr>ker := (ker s)\<lparr>time_count := time_count (ker s) + 1\<rparr>\<rparr>;
          s = s\<lparr>ck := update_time (time_count (ker s)) (ck s)\<rparr>;
          s = s\<lparr>scr := show_time (ck s) (scr s)\<rparr>;
          s = s\<lparr>scr := sys_info (ker s) (scr s)\<rparr>
      in kcall tick_schedule s)"

definition IT_32 :: "sys \<Rightarrow> (flow \<times> sys) sresult" where
  "IT_32 s = complete_sys (tic_PIT s)"

end
