(* ===== verification/System_Inv.thy ===== *)
theory System_Inv
  imports Syscall
begin

text \<open>
  The invariant of the whole system: every interrupt and every system call that a process
  may make keeps it and ends without a trap.
\<close>

section \<open>Frames of the console\<close>

lemma console_on_screen: "on_screen st \<Longrightarrow> on_screen (console_putbytes cs st)"
  unfolding console_putbytes_def by (induction cs arbitrary: st) (simp_all add: handle_car_on_screen)

lemma on_screen_pos: "current_lig st' = current_lig st \<Longrightarrow> current_col st' = current_col st \<Longrightarrow> on_screen st' = on_screen st"
  by (simp add: on_screen_def)

lemma fold_inv: "(\<And>x y. P y \<Longrightarrow> P (g x y)) \<Longrightarrow> P y \<Longrightarrow> P (fold g xs y)"
  by (induction xs arbitrary: y) auto

lemma on_screen_write_car [simp]: "on_screen (write_car l c x f b st) = on_screen st"
  by (rule on_screen_pos) simp_all

lemma on_screen_write_info [simp]: "on_screen st \<Longrightarrow> on_screen (write_info l sh str n st)"
  unfolding write_info_def by (auto intro!: fold_inv [where P = on_screen])

lemma on_screen_write_entry: "on_screen (snd ps) \<Longrightarrow> on_screen (snd (write_entry l fmt args ps))"
  by (auto simp: write_entry_def split: option.splits prod.splits)

lemma on_screen_blank [simp]: "on_screen st \<Longrightarrow> on_screen (blank_rest l t st)"
  unfolding blank_rest_def by (auto intro!: fold_inv [where P = on_screen])

lemma on_screen_sys_info: "on_screen st \<Longrightarrow> on_screen (sys_info k st)"
proof -
  note e = on_screen_write_entry
  have p: "on_screen st \<Longrightarrow> on_screen (write_pids l t q k st)" for l t q st
    unfolding write_pids_def
    by (rule fold_inv [where P = "\<lambda>ps. on_screen (snd ps)"]) (auto split: option.splits intro: e)
  have "on_screen st \<Longrightarrow> on_screen (write_process_table k st)" for st
    unfolding write_process_table_def
    by (rule fold_inv [where P = "\<lambda>ps. on_screen (snd ps)"]) (auto split: option.splits intro: e)
  moreover have "on_screen st \<Longrightarrow> on_screen (write_queue_table k st)" for st
    unfolding write_queue_table_def
    by (rule fold_inv [where P = "\<lambda>ps. on_screen (snd ps)"]) (auto split: option.splits intro: e)
  ultimately show "on_screen st \<Longrightarrow> on_screen (sys_info k st)"
    by (simp add: sys_info_def write_activable_def write_finished_def p)
qed

lemma on_screen_show_time: "on_screen st \<Longrightarrow> on_screen (show_time c st)"
  unfolding show_time_def write_time_def
  by (auto split: option.splits intro!: fold_inv [where P = on_screen])

section \<open>The invariant\<close>

definition devices_ok :: "sys \<Rightarrow> bool" where
  "devices_ok s \<longleftrightarrow> on_screen (scr s) \<and> is_string_table (hash_head s) \<and> clock_frequency (ck s) \<noteq> 0 \<and> kbd_ok (keyboard s)"

definition sysinv :: "sys \<Rightarrow> bool" where
  "sysinv s \<longleftrightarrow> kinv (ker s) \<and> devices_ok s"

definition sound_sys :: "(flow \<times> sys) sresult \<Rightarrow> bool" where
  "sound_sys r \<longleftrightarrow> (\<exists>fl s. complete_sys r = Inr (fl, s) \<and> sysinv s \<and> fl \<noteq> Switch \<and> fl \<noteq> Hang)"

lemma sysinvD: "sysinv s \<Longrightarrow> kinv (ker s)" "sysinv s \<Longrightarrow> devices_ok s"
  by (simp_all add: sysinv_def)

lemma devices_ker [simp]: "devices_ok (s\<lparr>ker := k\<rparr>) = devices_ok s"
  by (simp add: devices_ok_def)

lemma devices_kprintf: "devices_ok s \<Longrightarrow> devices_ok (kprintf fmt args s)"
  by (simp add: kprintf_def devices_ok_def console_on_screen split: option.splits)

lemma complete_kcall:
  assumes "complete (f (ker s)) = Inr (fl, k)"
  shows "complete_sys (kcall f s) = Inr (fl, s\<lparr>ker := k\<rparr>)"
  using assms by (cases "f (ker s)") (auto simp: complete_def complete_sys_def kcall_def split: if_splits prod.splits)

lemma sound_kcall:
  assumes "devices_ok s" "sound (f (ker s))"
  shows "sound_sys (kcall f s)"
proof -
  from assms(2) obtain fl k where "complete (f (ker s)) = Inr (fl, k)" "kinv k" "fl \<noteq> Switch" "fl \<noteq> Hang"
    by (auto simp: sound_def)
  with complete_kcall [of f s, OF this(1)] assms(1) show ?thesis by (auto simp: sound_sys_def sysinv_def)
qed

lemma sound_return: "sysinv s \<Longrightarrow> sound_sys (Inr (Return v, s))"
  by (simp add: sound_sys_def complete_sys_def)

lemma kprintf_ker [simp]: "ker (kprintf fmt args s) = ker s" "hash_head (kprintf fmt args s) = hash_head s"
  by (simp_all add: kprintf_def split: option.splits)

lemma kinv_frame [simp]:
  "kinv (k\<lparr>mm := x\<rparr>) = kinv k"
  "kinv (k\<lparr>time_count := t\<rparr>) = kinv k"
  "kinv (store_user a v k) = kinv k"
  by (simp_all add: kinv_def)

section \<open>The timer\<close>

lemma tick_safe:
  assumes "kinv k" shows "sound (tick_schedule k)"
proof (cases "time_count k mod SCHEDFREQ = 0")
  case False
  with assms show ?thesis by (simp add: tick_schedule_def sound_def complete_def)
next
  case True
  from assms obtain c p where R: "running k c p" and sk: "\<not> skip_message p" by (auto simp: kinv_running)
  then have c: "process_table k (current_pid k) = Some c" "procs k c = Some p" "state p = ELECTED"
    and I: "kI {c} {c} {} (\<lambda>_. 0) k" by (auto simp: running_def)
  from yield_ok [OF c I _ sk, of K_tick] obtain k' where k': "yield_to_scheduler K_tick k = Inr k'" "resumable k'" by blast
  have "tick_schedule k = Inr (Switch, k')"
    using True c k'(1) by (simp add: tick_schedule_def yield_to_scheduler_def tbl_def deref_def)
  with k'(2) have "safe (tick_schedule k)" by simp
  then show ?thesis by (rule safe_sound)
qed

lemma clock_frequency_update [simp]: "clock_frequency (update_time t c) = clock_frequency c"
  by (simp add: update_time_def Let_def)

lemma tic_PIT_ok:
  assumes "sysinv s" shows "sound_sys (tic_PIT s)"
  unfolding tic_PIT_def Let_def
  by (rule sound_kcall) (use assms in \<open>auto simp: sysinv_def devices_ok_def on_screen_sys_info on_screen_show_time intro!: tick_safe\<close>)

section \<open>System calls\<close>

text \<open>
  The conditions under which the calls keep the invariant. Each of them excludes a run in
  which the code misbehaves, and is discussed where it is defined: \<open>pid_reusable\<close>,
  \<open>awaited\<close>, \<open>no_pending_start\<close>. The others ask that the memory manager does not run out
  of pages and that the table of shared pages has fewer than \<open>2 ^ 29\<close> slots. The idle process
  makes no system call.
\<close>

definition caller_awaited :: "kstate \<Rightarrow> bool" where
  "caller_awaited k \<longleftrightarrow> (\<forall>c p. process_table k (current_pid k) = Some c \<longrightarrow> procs k c = Some p \<longrightarrow>
     awaited k (father_pid p) (current_pid k))"

definition no_starter_waits :: "int \<Rightarrow> kstate \<Rightarrow> bool" where
  "no_starter_waits i k \<longleftrightarrow> (\<forall>qa a. mq_lookup i k = Some qa \<longrightarrow> a \<in> set (q_of (Q_mq qa) k) \<longrightarrow> no_pending_start k a)"

definition succeeds :: "'e + 'a \<Rightarrow> bool" where
  "succeeds r = (case r of Inl _ \<Rightarrow> False | Inr _ \<Rightarrow> True)"

definition call_guard :: "kparams \<Rightarrow> uenv \<Rightarrow> syscall_number \<Rightarrow> u32 \<Rightarrow> u32 \<Rightarrow> u32 \<Rightarrow> u32 \<Rightarrow> sys \<Rightarrow> bool" where
  "call_guard kp ue n p1 p2 p3 p4 s \<longleftrightarrow>
     (let k = ker s; key = (p1, ustr ue p1); small = (length (htable (hash_head s)) < 2 ^ 29);
          found = hash_get (hash_head s) key 0
      in current_pid k \<noteq> 0 \<and>
         (case n of
            START \<Rightarrow> start_mem_ok kp (ustr ue p1) p2 (sint p4) k \<and> pid_reusable (sint p3) k
          | KILL \<Rightarrow> (\<forall>a q. process_table k (sint p1) = Some a \<longrightarrow> procs k a = Some q \<longrightarrow> awaited k (father_pid q) (sint p1))
          | EXIT \<Rightarrow> caller_awaited k
          | SDELETE \<Rightarrow> sem_lookup (sint p1) k = None \<or> caller_awaited k
          | PDELETE \<Rightarrow> no_starter_waits (sint p1) k
          | PRESET \<Rightarrow> no_starter_waits (sint p1) k
          | SHM_CREATE \<Rightarrow> small \<and> succeeds (virtual_malloc 4096 (mm k))
          | SHM_ACQUIRE \<Rightarrow> (\<forall>v. found = Some v \<longrightarrow> succeeds (map_shared v (mm k)))
          | SHM_RELEASE \<Rightarrow> small \<and> (\<forall>v. found = Some v \<longrightarrow> v \<noteq> 0 \<longrightarrow> succeeds (virtual_free v 4096 (mm k)))
          | _ \<Rightarrow> True))"

lemma handle_fault_Inr [simp]: "handle_fault (Inr x) = Inr x"
  by (simp add: handle_fault_def)

lemma sound_handled:
  assumes s: "devices_ok s" and f: "sound (f (ker s))"
  shows "sound_sys (handle_fault (kcall f s))"
proof -
  from f obtain x where "f (ker s) = Inr x" by (cases "f (ker s)") (auto simp: sound_def complete_def)
  then have "handle_fault (kcall f s) = kcall f s" by (simp add: kcall_def split: prod.splits)
  with sound_kcall [of s f, OF s f] show ?thesis by simp
qed

subsection \<open>Deleting a semaphore\<close>

lemma wake_all_same:
  "wake_all n f q st = Inr st' \<Longrightarrow> procs st' w = Some p \<Longrightarrow> state p \<noteq> ACTIVABLE \<Longrightarrow> procs st w = Some p"
proof (induction n arbitrary: st)
  case (Suc n)
  show ?case
  proof (cases "q_of q st = []")
    case True
    with Suc.prems show ?thesis by (simp add: kq_out_eq)
  next
    case False
    let ?a = "last (q_of q st)"
    obtain st1 where st1: "kq_out q st = (Some ?a, st1)" "procs st1 = procs st" using False by (simp add: kq_out_eq)
    from Suc.prems(1) st1(1) obtain st2 where st2: "activate ?a (upd ?a f st1) = Inr st2" "wake_all n f q st2 = Inr st'" by auto
    from Suc.IH [OF st2(2) Suc.prems(2,3)] have "procs st2 w = Some p" .
    moreover have "procs st2 = (procs st)(?a := map_option (\<lambda>p. (f p)\<lparr>state := ACTIVABLE\<rparr>) (procs st ?a))"
      using st2(1) st1(2) by (auto simp: activate_def set_state_and_queue_def kq_add_Inr option.map_comp comp_def)
    ultimately show ?thesis using Suc.prems(3) by (auto split: if_splits)
  qed
qed simp

lemma sdelete_same:
  assumes "sem_lookup i st = Some s" "sdelete i st = Inl (PageFault st')" "procs st' w = Some p" "state p \<noteq> ACTIVABLE"
    "wake_all (length (q_of (Q_sem s) st)) id (Q_sem s) st = Inr st1"
  shows "procs st w = Some p"
  using assms by (intro wake_all_same [OF assms(5)]) (auto simp: sdelete_def nb_waiting_proc2_def Let_def)

lemma sdelete_handled:
  assumes s: "sysinv s" and i0: "current_pid (ker s) \<noteq> 0" and g: "sem_lookup i (ker s) = None \<or> caller_awaited (ker s)"
  shows "sound_sys (handle_fault (kcall (sdelete i) s))"
proof (cases "sem_lookup i (ker s)")
  case None
  have "sound (sdelete i (ker s))" by (rule safe_sound) (use None s in \<open>simp add: sdelete_def sysinv_def\<close>)
  with sysinvD(2) [OF s] show ?thesis by (rule sound_handled)
next
  case (Some a)
  from s obtain c p where R: "running (ker s) c p" by (auto simp: sysinv_def kinv_running)
  from sdelete_fault [OF R Some] obtain k where k: "sdelete i (ker s) = Inl (PageFault k)" "running k c p"
    "woke_others {c} (ker s) (k\<lparr>semaphore_table := semaphore_table (ker s)\<rparr>)" by blast
  have I: "kI {c} {c} {} (\<lambda>_. 0) (ker s)" using R by (simp add: running_def)
  from wake_sem_ok [OF I, of a] obtain k1 where
    k1: "wake_all (length (q_of (Q_sem a) (ker s))) id (Q_sem a) (ker s) = Inr k1" by blast
  have cp: "current_pid k = current_pid (ker s)" using k(3) by (simp add: woke_others_def)
  have "awaited (ker s) (father_pid p) (current_pid (ker s))"
    using g Some R by (auto simp: caller_awaited_def running_def)
  then have "awaited k (father_pid p) (current_pid k)"
    unfolding awaited_def cp using sdelete_same [OF Some k(1) _ _ k1] by (metis State.distinct(21))
  from exit_ok [OF k(2) _ this, of 0] i0 cp have "sound (exit 0 k)" by (intro safe_sound) simp
  moreover have "devices_ok (kprintf (''Page Fault occurred'' @ [CHR 0x0A]) [] (s\<lparr>ker := k\<rparr>))"
    using sysinvD(2) [OF s] by (intro devices_kprintf) simp
  ultimately have "sound_sys (kcall (exit 0) (kprintf (''Page Fault occurred'' @ [CHR 0x0A]) [] (s\<lparr>ker := k\<rparr>)))"
    by (intro sound_kcall) simp_all
  moreover have "handle_fault (kcall (sdelete i) s) = kcall (exit 0) (kprintf (''Page Fault occurred'' @ [CHR 0x0A]) [] (s\<lparr>ker := k\<rparr>))"
    using k(1) by (simp add: kcall_def handle_fault_def pagefault_interrupt_def)
  ultimately show ?thesis by simp
qed

subsection \<open>Shared memory\<close>

lemma table_get: "is_string_table m \<Longrightarrow> \<exists>v. hash_get m k d = Some v"
  using strings.get_ok(1) [of m k d] by (auto simp: is_string_table_def)

lemma table_set:
  assumes "is_string_table m" "length (htable m) < 2 ^ 29"
  shows "\<exists>m'. hash_set True k v m = Some (0, m') \<and> is_string_table m'"
  using strings.set_ok [of m k v] assms by (auto simp: is_string_table_def)

lemma table_del:
  assumes "is_string_table m" "length (htable m) < 2 ^ 29"
  shows "\<exists>m'. hash_del True k m = Some (0, m') \<and> is_string_table m'"
  using strings.del_ok [of m k] assms by (auto simp: is_string_table_def)

lemma mcall_succeeds:
  assumes "succeeds (f (mm (ker s)))"
  shows "\<exists>x m. mcall f s = Inr (x, s\<lparr>ker := (ker s)\<lparr>mm := m\<rparr>\<rparr>)"
  using assms by (cases "f (mm (ker s))") (auto simp: succeeds_def mcall_def mem_call_def)

lemma mm_brk: "k\<lparr>mm := m, brk := n\<rparr> = k\<lparr>brk := n, mm := m\<rparr>"
  by simp

lemma shm_create_sound:
  assumes s: "sysinv s" and g: "length (htable (hash_head s)) < 2 ^ 29" "succeeds (virtual_malloc 4096 (mm (ker s)))"
  shows "\<exists>v s'. shm_create key s = Inr (v, s') \<and> sysinv s'"
proof (cases "NUMBER_SHARED_PAGES s \<ge> MAX_SHARED_PAGES \<or> key = None")
  case True
  with s show ?thesis by (auto simp: shm_create_def sysinv_def devices_ok_def)
next
  case False
  then obtain k where k: "key = Some k" "\<not> NUMBER_SHARED_PAGES s \<ge> MAX_SHARED_PAGES" by auto
  have t: "is_string_table (hash_head s)" using s by (simp add: sysinv_def devices_ok_def)
  obtain v where v: "hash_get (hash_head s) k 0 = Some v" using table_get [OF t] by blast
  let ?s = "s\<lparr>NUMBER_SHARED_PAGES := NUMBER_SHARED_PAGES s + 1\<rparr>"
  have "succeeds (virtual_malloc 4096 (mm (ker ?s)))" using g(2) by simp
  from mcall_succeeds [of "virtual_malloc 4096" ?s, OF this] obtain p mem where p: "mcall (virtual_malloc 4096) ?s = Inr (p, ?s\<lparr>ker := (ker s)\<lparr>mm := mem\<rparr>\<rparr>)" by auto
  obtain ht where ht: "hash_set True (of_nat (brk (ker s)), snd k) p (hash_head s) = Some (0, ht)" "is_string_table ht"
    using table_set [OF t g(1)] by blast
  have "kinv ((ker s)\<lparr>mm := mem, brk := brk (ker s) + 1\<rparr>)"
    using kinv_brk [of "ker s" "brk (ker s) + 1" mem] s by (simp add: sysinv_def mm_brk del: kinv_frame)
  with s ht(2) k v p ht(1) show ?thesis
    by (simp add: shm_create_def hcall_def Let_def sysinv_def devices_ok_def)
qed

lemma shm_acquire_sound:
  assumes s: "sysinv s" and g: "\<forall>v. hash_get (hash_head s) key 0 = Some v \<longrightarrow> succeeds (map_shared v (mm (ker s)))"
  shows "\<exists>v s'. shm_acquire key s = Inr (v, s') \<and> sysinv s'"
proof -
  have t: "is_string_table (hash_head s)" using s by (simp add: sysinv_def devices_ok_def)
  obtain v where v: "hash_get (hash_head s) key 0 = Some v" using table_get [OF t] by blast
  let ?s = "if v = 0 then kprintf (''Shared memory for key %s not found'' @ [CHR 0x0A]) [Str (snd key)] s else s"
  have i: "sysinv ?s" using s devices_kprintf [OF sysinvD(2) [OF s]] by (simp add: sysinv_def)
  have "succeeds (map_shared v (mm (ker ?s)))" using g v by (cases "v = 0") auto
  from mcall_succeeds [of "map_shared v" ?s, OF this] obtain p mem where "mcall (map_shared v) ?s = Inr (p, ?s\<lparr>ker := (ker ?s)\<lparr>mm := mem\<rparr>\<rparr>)" by blast
  moreover have "sysinv (?s\<lparr>ker := (ker ?s)\<lparr>mm := mem\<rparr>\<rparr>)" using i by (simp add: sysinv_def)
  ultimately show ?thesis using v by (simp add: shm_acquire_def hcall_def Let_def)
qed

lemma shm_release_sound:
  assumes s: "sysinv s" and g: "length (htable (hash_head s)) < 2 ^ 29"
    "\<forall>v. hash_get (hash_head s) key 0 = Some v \<longrightarrow> v \<noteq> 0 \<longrightarrow> succeeds (virtual_free v 4096 (mm (ker s)))"
  shows "\<exists>s'. shm_release key s = Inr s' \<and> sysinv s'"
proof -
  have t: "is_string_table (hash_head s)" using s by (simp add: sysinv_def devices_ok_def)
  obtain v where v: "hash_get (hash_head s) key 0 = Some v" using table_get [OF t] by blast
  let ?s = "s\<lparr>NUMBER_SHARED_PAGES := NUMBER_SHARED_PAGES s - 1\<rparr>"
  let ?f = "\<lambda>mem. bindE (virtual_free v 4096 mem) (\<lambda>mem. Inr ((), mem))"
  have si: "sysinv ?s" using s by (simp add: sysinv_def devices_ok_def)
  show ?thesis
  proof (cases "NUMBER_SHARED_PAGES s < 0 \<or> v = 0")
    case True
    with v s si show ?thesis by (auto simp: shm_release_def hcall_def Let_def)
  next
    case False
    have "succeeds (?f (mm (ker ?s)))" using g(2) v False by (auto simp: succeeds_def split: sum.splits)
    from mcall_succeeds [of ?f, OF this] obtain mem where m: "mcall ?f ?s = Inr ((), ?s\<lparr>ker := (ker ?s)\<lparr>mm := mem\<rparr>\<rparr>)" by auto
    obtain ht where ht: "hash_del True key (hash_head s) = Some (0, ht)" "is_string_table ht" using table_del [OF t g(1)] by blast
    have "shm_release key s = Inr (?s\<lparr>ker := (ker ?s)\<lparr>mm := mem\<rparr>, hash_head := ht\<rparr>)"
      using False v m ht(1) by (simp add: shm_release_def hcall_def Let_def)
    with s ht(2) show ?thesis by (simp add: sysinv_def devices_ok_def)
  qed
qed

subsection \<open>All of them\<close>

lemma syscall_case_ok:
  assumes s: "sysinv s" and g: "call_guard kp ue n p1 p2 p3 p4 s"
  shows "sound_sys (handle_fault (syscall_case kp ue n p1 p2 p3 p4 s))"
proof -
  from s obtain c p where R: "running (ker s) c p" and sk: "\<not> skip_message p" by (auto simp: sysinv_def kinv_running)
  from g have i0: "current_pid (ker s) \<noteq> 0" by (simp add: call_guard_def Let_def)
  have K: "kinv (ker s)" and D: "devices_ok s" using s by (simp_all add: sysinv_def)
  have cp: "process_table (ker s) (current_pid (ker s)) = Some c" "procs (ker s) c = Some p" using R by (simp_all add: running_def)
  note call = sound_handled [OF D] safe_sound
  show ?thesis
  proof (cases n)
    case START
    with g have "safe (start kp (ustr ue p1) p2 (sint p3) (sint p4) (ker s))"
      by (intro start_ok [OF R sk]) (simp_all add: call_guard_def Let_def)
    with START show ?thesis by (simp add: syscall_case_def call)
  next
    case KILL
    with g have "safe (kill (sint p1) (ker s))"
      by (intro kill_ok [OF R sk i0]) (simp add: call_guard_def Let_def)
    with KILL show ?thesis by (simp add: syscall_case_def call)
  next
    case EXIT
    with g cp have "safe (exit (sint p1) (ker s))"
      by (intro exit_ok [OF R i0]) (simp add: call_guard_def caller_awaited_def Let_def)
    with EXIT show ?thesis by (simp add: syscall_case_def call)
  next
    case SDELETE
    with g sdelete_handled [OF s i0, of "sint p1"] show ?thesis by (simp add: syscall_case_def call_guard_def Let_def)
  next
    case PDELETE
    with g have "safe (pdelete (sint p1) (ker s))"
      by (intro pdelete_ok [OF R sk]) (simp add: call_guard_def no_starter_waits_def Let_def)
    with PDELETE show ?thesis by (simp add: syscall_case_def call)
  next
    case PRESET
    with g have "safe (preset (sint p1) (ker s))"
      by (intro preset_ok [OF R sk]) (simp add: call_guard_def no_starter_waits_def Let_def)
    with PRESET show ?thesis by (simp add: syscall_case_def call)
  next
    case SHM_CREATE
    from shm_create_sound [OF s, of "if p1 = 0 then None else Some (p1, ustr ue p1)"] g SHM_CREATE obtain v s' where
      "shm_create (if p1 = 0 then None else Some (p1, ustr ue p1)) s = Inr (v, s')" "sysinv s'"
      by (auto simp: call_guard_def Let_def split del: if_split)
    with SHM_CREATE show ?thesis by (simp add: syscall_case_def ret_ptr_def sound_return Let_def)
  next
    case SHM_ACQUIRE
    from shm_acquire_sound [OF s, of "(p1, ustr ue p1)"] g SHM_ACQUIRE obtain v s' where
      "shm_acquire (p1, ustr ue p1) s = Inr (v, s')" "sysinv s'"
      by (auto simp: call_guard_def Let_def)
    with SHM_ACQUIRE show ?thesis by (simp add: syscall_case_def ret_ptr_def sound_return Let_def)
  next
    case SHM_RELEASE
    from shm_release_sound [OF s, of "(p1, ustr ue p1)"] g SHM_RELEASE obtain s' where
      "shm_release (p1, ustr ue p1) s = Inr s'" "sysinv s'"
      by (auto simp: call_guard_def Let_def)
    with SHM_RELEASE show ?thesis by (simp add: syscall_case_def sound_return Let_def)
  next
    case PSEND
    with psend_ok [OF R sk i0] show ?thesis by (simp add: syscall_case_def sound_handled [OF D])
  next
    case CLOCK_SETTINGS
    with s show ?thesis by (simp add: syscall_case_def clock_settings_def sysinv_def sound_return)
  next
    case CONS_WRITE
    with s show ?thesis by (simp add: syscall_case_def sysinv_def devices_ok_def console_on_screen sound_return)
  next
    case SYS_INFO
    with s show ?thesis by (simp add: syscall_case_def sysinv_def devices_ok_def on_screen_sys_info sound_return)
  next
    case CONS_ECHO
    with s show ?thesis by (simp add: syscall_case_def console_echo_def sysinv_def devices_ok_def sound_return)
  qed (use s K to_short_range in \<open>simp_all add: syscall_case_def call sound_return getpid_def chprio_ok [OF R sk] getprio_ok
      waitpid_ok [OF R sk i0] scount_ok screate_ok signal_ok [OF R sk] signaln_ok [OF R sk] sreset_ok [OF R sk] try_wait_ok
      wait_ok [OF R sk i0] pcount_ok pcreate_ok preceive_ok [OF R sk i0] wait_clock_ok [OF R sk i0]\<close>)
qed

end
