(* ===== verification/System.thy ===== *)
theory System
  imports System_Inv
begin

text \<open>
  The system as a transition relation: the running process makes a system call, or an
  interrupt of the timer or of the keyboard comes between two of its instructions.
\<close>

section \<open>Events\<close>

datatype event = Call uenv u32 u32 u32 u32 u32 | Tick | Key u8

text \<open>\<^verbatim>\<open>IT_49_handler\<close>, \<^verbatim>\<open>IT_32_handler\<close> and \<^verbatim>\<open>IT_33_handler\<close>: one interrupt, to the return to user mode.\<close>

definition interrupt :: "kparams \<Rightarrow> event \<Rightarrow> sys \<Rightarrow> (flow \<times> sys) sresult" where
  "interrupt kp e s =
     (case e of
        Call ue num p1 p2 p3 p4 \<Rightarrow> IT_49 kp ue num p1 p2 p3 p4 s
      | Tick \<Rightarrow> IT_32 s
      | Key scancode \<Rightarrow> bindE (keyboard_interrupt scancode s) (\<lambda>s. Inr (Iret, s)))"

definition permitted :: "kparams \<Rightarrow> event \<Rightarrow> sys \<Rightarrow> bool" where
  "permitted kp e s =
     (case e of
        Call ue num p1 p2 p3 p4 \<Rightarrow>
          unat num < length syscall_numbers \<and> call_guard kp ue (syscall_numbers ! unat num) p1 p2 p3 p4 s
      | _ \<Rightarrow> True)"

inductive sys_step :: "kparams \<Rightarrow> sys \<Rightarrow> sys \<Rightarrow> bool" for kp where
  event: "permitted kp e s \<Longrightarrow> interrupt kp e s = Inr (fl, s') \<Longrightarrow> sys_step kp s s'"

inductive sys_run :: "kparams \<Rightarrow> sys \<Rightarrow> sys \<Rightarrow> bool" for kp where
  none: "sys_run kp s s"
| more: "sys_run kp s t \<Longrightarrow> sys_step kp t u \<Longrightarrow> sys_run kp s u"

inductive_cases sys_stepE: "sys_step kp s s'"

section \<open>The invariant\<close>

lemma sysinv_keyboard:
  assumes "sysinv s" shows "\<exists>s'. keyboard_interrupt c s = Inr s' \<and> sysinv s'"
proof -
  have "sysinv (kbd_deliver x t)" if "sysinv t" for x t
    using that devices_kprintf [of t "''%s''"] by (cases x) (simp_all add: kbd_deliver_def keyboard_data_def sysinv_def)
  then have d: "sysinv (fold kbd_deliver out t)" if "sysinv t" for out t
    using that by (auto intro!: fold_inv [where P = sysinv])
  have "kbd_ok (keyboard s)" using assms by (simp add: sysinv_def devices_ok_def)
  from do_scancode_ok [OF this] obtain out e where e: "do_scancode (phys (mm (ker s))) c (keyboard s) = Some (out, e)" "kbd_ok e" by blast
  with assms have "sysinv (s\<lparr>keyboard := e\<rparr>)" by (simp add: sysinv_def devices_ok_def)
  with d e(1) show ?thesis by (simp add: keyboard_interrupt_def)
qed

lemma interrupt_ok:
  assumes "sysinv s" "permitted kp e s"
  shows "\<exists>fl s'. interrupt kp e s = Inr (fl, s') \<and> sysinv s' \<and> fl \<noteq> Switch \<and> fl \<noteq> Hang"
proof (cases e)
  case (Call ue num p1 p2 p3 p4)
  with assms(2) have "sound_sys (handle_fault (syscall kp ue num p1 p2 p3 p4 s))"
    using syscall_case_ok [OF assms(1)] by (simp add: permitted_def syscall_def)
  with Call show ?thesis by (simp add: interrupt_def IT_49_def sound_sys_def)
next
  case Tick
  with tic_PIT_ok [OF assms(1)] show ?thesis by (simp add: interrupt_def IT_32_def sound_sys_def)
next
  case (Key c)
  with sysinv_keyboard [OF assms(1), of c] show ?thesis by (auto simp: interrupt_def)
qed

lemma sys_step_inv: "sys_step kp s s' \<Longrightarrow> sysinv s \<Longrightarrow> sysinv s'"
  by (erule sys_stepE) (drule (1) interrupt_ok, auto)

lemma sys_run_inv: "sys_run kp s s' \<Longrightarrow> sysinv s \<Longrightarrow> sysinv s'"
  by (induction rule: sys_run.induct) (auto intro: sys_step_inv)

end
