(* ===== verification/Example.thy ===== *)
theory Example
  imports System
begin

text \<open>
  A small concrete system on which the theorems can be applied: the idle process, a running
  process with a child that is ready, a semaphore and a message queue.
\<close>

definition ex_process :: "int \<Rightarrow> State \<Rightarrow> kcont \<Rightarrow> int \<Rightarrow> int \<Rightarrow> int list \<Rightarrow> Process" where
  "ex_process i s k prio father cs =
     \<lparr>pid = i, name = ''p'', kernel_stack = (20, 0), user_stack = 0, registers = k, state = s,
      initial_kernel_stack = (20, 0), kernel_stack_size = 8192, user_stack_size = 0, priority = prio,
      wakeup_date = 0, father_pid = father, children = cs, waited_pid = 0, message = 0,
      skip_message = False, waited_sem = 0, retval = 0, cr3 = 0\<rparr>"

text \<open>The child \<open>p\<close> is in the list \<open>w\<close>; \<open>n\<close> is the counter of the semaphore.\<close>

definition ex_state :: "Process \<Rightarrow> queue_id option \<Rightarrow> int \<Rightarrow> kstate" where
  "ex_state p w n =
     \<lparr>procs = [0 \<mapsto> ex_process 0 ACTIVABLE K_tick 1 0 [], 1 \<mapsto> ex_process 1 ELECTED K_new_process 128 (-1) [2], 2 \<mapsto> p],
      process_table = [0 \<mapsto> 0, 1 \<mapsto> 1, 2 \<mapsto> 2], current_pid = 1,
      qs = \<lparr>lists = (\<lambda>q. (if q = Q_activable then [0] else []) @ (if w = Some q then [2] else [])),
            home = (\<lambda>a. if a = 0 then Some Q_activable else if a = 2 then w else None)\<rparr>,
      sems = [3 \<mapsto> \<lparr>sid = 0, count = n, was_reset = False, was_deleted = False\<rparr>], semaphore_table = [0 \<mapsto> 3],
      mqs = [4 \<mapsto> \<lparr>fid = 0, capacity = 2, nb_msg = 1, head = 1, tail = 0, buffer = [7, 0]\<rparr>], queue_table = [0 \<mapsto> 4],
      brk = 5, mm = \<lparr>phys = (\<lambda>_. 0), PHYSICAL_MEMORY_HEAD = 0x4000000, next_virtual_address = 0, CR3 = 0\<rparr>,
      tss_cr3 = 0, tss_esp0 = (0, 0), cpu = K_new_process, user_mem = (\<lambda>_ _. 0), time_count = 0\<rparr>"

lemma ex_procs: "procs (ex_state p w n) a = Some q \<longleftrightarrow>
    a = 0 \<and> q = ex_process 0 ACTIVABLE K_tick 1 0 [] \<or> a = 1 \<and> q = ex_process 1 ELECTED K_new_process 128 (-1) [2] \<or>
    a = 2 \<and> q = p"
  by (auto simp: ex_state_def)

lemma ex_fields [simp]:
  "process_table (ex_state p w n) = [0 \<mapsto> 0, 1 \<mapsto> 1, 2 \<mapsto> 2]" "current_pid (ex_state p w n) = 1"
  "q_of q (ex_state p w n) = (if q = Q_activable then [0] else []) @ (if w = Some q then [2] else [])"
  "home (qs (ex_state p w n)) = (\<lambda>a. if a = 0 then Some Q_activable else if a = 2 then w else None)"
  "semaphore_table (ex_state p w n) = [0 \<mapsto> 3]" "queue_table (ex_state p w n) = [0 \<mapsto> 4]"
  "sems (ex_state p w n) = [3 \<mapsto> \<lparr>sid = 0, count = n, was_reset = False, was_deleted = False\<rparr>]"
  "mqs (ex_state p w n) = [4 \<mapsto> \<lparr>fid = 0, capacity = 2, nb_msg = 1, head = 1, tail = 0, buffer = [7, 0]\<rparr>]"
  by (simp_all add: ex_state_def)

lemma ex_state_kinv:
  assumes p: "pid p = 2" "father_pid p = 1" "children p = []" "priority p = 64" "state p \<noteq> FINISHED" "state p \<noteq> ELECTED"
    and w: "place_ok (ex_state p w n) p w" "cont_ok (ex_state p w n) 2 p"
    and n: "n = (if w = Some (Q_sem 3) then -1 else 1)"
  shows "kinv (ex_state p w n)"
proof -
  let ?st = "ex_state p w n"
  have e: "\<exists>p. procs ?st 1 = Some p \<and> state p = ELECTED \<and> \<not> skip_message p"
    by (simp add: ex_state_def ex_process_def)
  have "wfq ?st"
    using p(4) by (auto simp: wfq_def qwf_def prio_of_def ex_state_def ex_process_def split: if_splits)
  moreover have "tab ?st" using p by (auto simp: tab_def ex_procs ex_process_def split: if_splits)
  moreover have "places {1} ?st" unfolding places_def
    using p w by (auto simp: place_ok_def ex_procs ex_process_def)
  moreover have "family {} ?st"
    using p by (auto simp: family_def child_of_def ended_def ex_procs ex_process_def split: if_splits)
  moreover have "idle_ok {1} ?st" by (auto simp: idle_ok_def ex_procs ex_process_def)
  moreover have "stale ?st" using p by (auto simp: stale_def ex_procs ex_process_def)
  moreover have "sem_inv (\<lambda>_. 0) ?st" using n by (auto simp: sem_inv_def sem_ok_def split: if_splits)
  moreover have "mq_inv ?st" by (auto simp: mq_inv_def buffer_ok_def split: if_splits)
  moreover have "fresh ?st" by (auto simp: fresh_def ex_state_def)
  moreover have "conts {1} ?st" unfolding conts_def
    using w(2) by (auto simp: ex_procs) (simp add: cont_ok_def ready_def ex_process_def)
  ultimately show ?thesis using e by (auto simp: kinv_def kI_def)
qed

text \<open>The child is ready, is blocked on the semaphore, has ended.\<close>

definition ex_kernel :: kstate where
  "ex_kernel = ex_state (ex_process 2 ACTIVABLE K_new_process 64 1 []) (Some Q_activable) 1"

definition ex_blocked :: kstate where
  "ex_blocked = ex_state (ex_process 2 IN_SEM (K_wait 3) 64 1 []) (Some (Q_sem 3)) (-1)"

definition ex_zombie :: kstate where
  "ex_zombie = ex_state ((ex_process 2 ZOMBIE K_exit 64 1 [])\<lparr>retval := 42\<rparr>) None 1"

lemma ex_kinv: "kinv ex_kernel"
  unfolding ex_kernel_def by (rule ex_state_kinv) (simp_all add: ex_process_def place_ok_def cont_ok_def ready_def)

lemma ex_blocked_kinv: "kinv ex_blocked"
  unfolding ex_blocked_def by (rule ex_state_kinv) (simp_all add: ex_process_def place_ok_def cont_ok_def blocked_ok_def)

lemma ex_zombie_kinv: "kinv ex_zombie"
  unfolding ex_zombie_def by (rule ex_state_kinv) (simp_all add: ex_process_def place_ok_def cont_ok_def ended_def)

definition ex_sys :: sys where
  "ex_sys =
     \<lparr>ker = ex_kernel, scr = screen0,
      ck = \<lparr>clock_ticks = 200, clock_frequency = 200, hours = 0, minutes = 0, seconds = 0\<rparr>,
      CONSOLE_ECHO = 1, readchar = 0, keyboard = kbd_dev0, NUMBER_SHARED_PAGES = 0, hash_head = snd (hash_init_string True table0)\<rparr>"

lemma ex_sysinv: "sysinv ex_sys"
  using ex_kinv init_tables(1) [of table0]
  by (simp add: sysinv_def devices_ok_def ex_sys_def on_screen_def screen0_def kbd_ok_dev0)

definition ex_env :: uenv where
  "ex_env = \<lparr>ustr = (\<lambda>_. []), ubytes = (\<lambda>_ _. [])\<rparr>"

definition ex_params :: kparams where
  "ex_params = \<lparr>symbols_table = [], pgdir = 0\<rparr>"

text \<open>The running process asks for its pid, for a semaphore, and sleeps.\<close>

lemma ex_permitted:
  "permitted ex_params (Call ex_env 1 0 0 0 0) ex_sys"
  "permitted ex_params (Call ex_env 17 0 0 0 0) ex_sys"
  by (simp_all add: permitted_def call_guard_def syscall_numbers_def Let_def ex_sys_def ex_kernel_def)

end
