(* ===== verification/Scheduler_Frame.thy ===== *)
theory Scheduler_Frame
  imports Message_Queue_Inv Semaphore_Inv Start_Inv
begin

text \<open>
  What a context switch leaves alone. The scheduler frees finished processes, wakes
  sleepers and elects a process; it changes no other field of a process than \<^verbatim>\<open>state\<close> and
  \<^verbatim>\<open>registers\<close>, no semaphore, no message queue and no list but \<^verbatim>\<open>activable_list\<close> and
  \<^verbatim>\<open>finished_list\<close>.
\<close>

definition runnable :: "Process \<Rightarrow> bool" where
  "runnable p \<longleftrightarrow> state p = ACTIVABLE \<or> state p = ELECTED"

text \<open>The two agree but for the state and the saved context.\<close>

definition moved :: "Process \<Rightarrow> Process \<Rightarrow> bool" where
  "moved p p' \<longleftrightarrow> p'\<lparr>state := ELECTED, registers := K_tick\<rparr> = p\<lparr>state := ELECTED, registers := K_tick\<rparr> \<and> (state p' = state p \<or> runnable p')"

lemma moved_refl [simp]: "moved p p"
  by (simp add: moved_def)

lemma moved_trans: "moved p q \<Longrightarrow> moved q r \<Longrightarrow> moved p r"
  by (auto simp: moved_def runnable_def)

lemma moved_simps [simp]:
  "moved p (p\<lparr>registers := k\<rparr>)"
  "moved p (p\<lparr>state := ELECTED\<rparr>)" "moved p (p\<lparr>state := ACTIVABLE\<rparr>)"
  by (auto simp: moved_def runnable_def)

lemma moved_fields:
  assumes "moved p p'"
  shows "pid p' = pid p" "priority p' = priority p" "father_pid p' = father_pid p" "children p' = children p"
    "retval p' = retval p" "message p' = message p" "skip_message p' = skip_message p" "waited_sem p' = waited_sem p"
    "runnable p \<Longrightarrow> runnable p'" "state p' = state p \<or> runnable p'"
proof -
  have e: "p'\<lparr>state := ELECTED, registers := K_tick\<rparr> = p\<lparr>state := ELECTED, registers := K_tick\<rparr>" using assms by (simp add: moved_def)
  show "pid p' = pid p" "priority p' = priority p" "father_pid p' = father_pid p" "children p' = children p"
    "retval p' = retval p" "message p' = message p" "skip_message p' = skip_message p" "waited_sem p' = waited_sem p"
    using arg_cong [OF e, of pid] arg_cong [OF e, of priority] arg_cong [OF e, of father_pid] arg_cong [OF e, of children]
      arg_cong [OF e, of retval] arg_cong [OF e, of message] arg_cong [OF e, of skip_message] arg_cong [OF e, of waited_sem]
    by simp_all
  show "runnable p \<Longrightarrow> runnable p'" "state p' = state p \<or> runnable p'" using assms by (auto simp: moved_def runnable_def)
qed

text \<open>\<open>F\<close>: the blocks that may be freed.\<close>

definition kept :: "addr set \<Rightarrow> kstate \<Rightarrow> kstate \<Rightarrow> bool" where
  "kept F st st' \<longleftrightarrow>
     (\<forall>a p'. procs st' a = Some p' \<longrightarrow> (\<exists>p. procs st a = Some p \<and> moved p p')) \<and>
     (\<forall>a. procs st a \<noteq> None \<longrightarrow> a \<notin> F \<longrightarrow> procs st' a \<noteq> None) \<and>
     (\<forall>q. q \<noteq> Q_activable \<longrightarrow> q \<noteq> Q_finished \<longrightarrow> q_of q st' = q_of q st) \<and>
     process_table st' = process_table st \<and> sems st' = sems st \<and> semaphore_table st' = semaphore_table st \<and>
     mqs st' = mqs st \<and> queue_table st' = queue_table st \<and> user_mem st' = user_mem st \<and>
     time_count st' = time_count st"

lemma kept_refl: "kept F st st"
  by (simp add: kept_def)

lemma kept_trans:
  assumes 1: "kept F st st1" and 2: "kept F st1 st2" shows "kept F st st2"
proof -
  have "\<exists>p. procs st a = Some p \<and> moved p p'" if "procs st2 a = Some p'" for a p'
  proof -
    from 2 that obtain p1 where "procs st1 a = Some p1" "moved p1 p'" unfolding kept_def by blast
    with 1 show ?thesis unfolding kept_def by (blast intro: moved_trans)
  qed
  with 1 2 show ?thesis unfolding kept_def by simp
qed

lemma kept_keep:
  assumes "kept F st st'" "procs st a = Some p" "a \<notin> F"
  obtains p' where "procs st' a = Some p'" "moved p p'"
proof -
  obtain p' where p': "procs st' a = Some p'" using assms by (auto simp: kept_def)
  with assms(1) obtain q where "procs st a = Some q" "moved q p'"
    unfolding kept_def by blast
  with assms(2) p' that show ?thesis by auto
qed

lemma kept_upd_state: "kept F st (upd a (state_update (\<lambda>_. s)) st)" if "s = ELECTED \<or> s = ACTIVABLE"
  using that by (auto simp: kept_def runnable_def)

lemma kept_upd_registers: "kept F st (upd a (registers_update (\<lambda>_. k)) st)"
  by (auto simp: kept_def runnable_def)

lemma kept_activate: "activate a st = Inr st' \<Longrightarrow> kept F st st'"
  by (auto simp: activate_def set_state_and_queue_def kq_add_Inr kept_def runnable_def)

lemma kept_add: "kq_add a q st = Inr st' \<Longrightarrow> q = Q_activable \<or> q = Q_finished \<Longrightarrow> kept F st st'"
  by (auto simp: kq_add_Inr kept_def)

lemma kept_wakeup_loop: "wakeup_loop n i st = Inr st' \<Longrightarrow> kept F st st'"
proof (induction n arbitrary: i st)
  case (Suc n)
  then obtain st1 where s: "(case process_table st i of None \<Rightarrow> Inr st
            | Some a \<Rightarrow> bindE (deref a st) (\<lambda>p.
                if state p = ASLEEP \<and> wakeup_date p \<le> time_count st then activate a st else Inr st)) = Inr st1"
    and w: "wakeup_loop n (i + 1) st1 = Inr st'" by auto
  have "kept F st st1" using s by (auto intro: kept_activate kept_refl split: option.splits if_splits)
  with Suc.IH [OF w] show ?case by (blast intro: kept_trans)
qed (simp add: kept_refl)

lemma kept_free_all: "free_all st = Inr st' \<Longrightarrow> set (q_of Q_finished st) \<subseteq> F \<Longrightarrow> kept F st st' \<and> q_of Q_finished st' = []"
proof (induction st rule: free_all.induct)
  case (1 st)
  show ?case
  proof (cases "q_of Q_finished st = []")
    case True
    with 1(2) show ?thesis by (subst (asm) free_all.simps) (simp add: kq_out_eq kept_refl)
  next
    case False
    let ?a = "last (q_of Q_finished st)"
    obtain st1 where out: "kq_out Q_finished st = (Some ?a, st1)" and st1: "procs st1 = procs st"
      "q_of Q_finished st1 = butlast (q_of Q_finished st)" "kept F st st1"
      using False by (auto simp: kq_out_eq kept_def)
    from 1(2) out obtain st2 where f: "free_process ?a st1 = Inr st2" "free_all st2 = Inr st'"
      by (subst (asm) free_all.simps) auto
    have a: "?a \<in> F" using False 1(3) by auto
    have st2: "st2 = st1\<lparr>procs := (procs st1)(?a := None)\<rparr>"
      using f(1) by (auto simp: free_process_def split: if_splits)
    have k2: "kept F st1 st2" using a by (auto simp: st2 kept_def)
    have "set (q_of Q_finished st2) \<subseteq> F" using st1(2) 1(3) by (auto simp: st2 dest: in_set_butlastD)
    from 1(1) [OF out [symmetric] refl f(1) f(2) this] st1(3) k2 show ?thesis by (blast intro: kept_trans)
  qed
qed

lemma kept_free_finished:
  assumes "free_finished_process st = Inr st'" "set (q_of Q_finished st) \<subseteq> F" "qwf (qs st)"
  shows "kept F st st'"
proof (cases "List.find (pid_is st (current_pid st)) (q_of Q_finished st)")
  case None
  with assms kept_free_all [of st st' F] show ?thesis by (simp add: free_finished_process_def)
next
  case (Some c)
  with assms(1) obtain st1 st2 where s: "kq_del c st = Inr st1" "free_all st1 = Inr st2" "kq_add c Q_finished st2 = Inr st'"
    by (auto simp: free_finished_process_def)
  have "home (qs st) c = Some Q_finished" using find_SomeD [OF Some] qwf_home [OF assms(3)] by simp
  with s(1) have st1: "kept F st st1" "set (q_of Q_finished st1) \<subseteq> F"
    using assms(2) by (auto simp: kq_del_Inr kept_def dest: notin_set_remove1)
  have "kept F st1 st2" using kept_free_all [OF s(2) st1(2)] by simp
  moreover have "kept F st2 st'" by (rule kept_add [OF s(3)]) simp
  ultimately show ?thesis using st1(1) by (blast intro: kept_trans)
qed

lemma kept_ctx_sw: "virtual_ctx_sw old k n st = Inr st' \<Longrightarrow> kept F st st'"
  by (auto simp: virtual_ctx_sw_def Let_def kept_def deref_def upd_def split: option.splits if_splits)

lemma kept_scheduler:
  assumes "scheduler k st = Inr st'" "qwf (qs st)"
  shows "kept (set (q_of Q_finished st)) st st'"
proof -
  let ?F = "set (q_of Q_finished st)"
  from assms(1) obtain st1 st2 where s: "free_finished_process st = Inr st1" "wakeup_process st1 = Inr st2"
    and e: "(case kq_out Q_activable st2 of
         (None, st) \<Rightarrow> Inl (PageFault st)
       | (Some new_process, st) \<Rightarrow>
           let st = upd new_process (state_update (\<lambda>_. ELECTED)) st;
               old_process = (if q_of Q_finished st = [] then process_table st (current_pid st)
                              else Some (last (q_of Q_finished st)))
           in bindE (deref new_process st) (\<lambda>new.
                virtual_ctx_sw old_process k new_process (st\<lparr>current_pid := pid new\<rparr>))) = Inr st'"
    by (auto simp: scheduler_def)
  have "q_of Q_activable st2 \<noteq> []" using e by (auto simp: kq_out_eq)
  then obtain a st3 where st3: "kq_out Q_activable st2 = (Some a, st3)" by (simp add: kq_out_eq)
  with e obtain new :: Process and old where
    v: "virtual_ctx_sw old k a ((upd a (state_update (\<lambda>_. ELECTED)) st3)\<lparr>current_pid := pid new\<rparr>) = Inr st'"
    by (simp add: Let_def split del: if_split) blast
  have "kept ?F st st1" by (rule kept_free_finished [OF s(1) _ assms(2)]) simp
  moreover have "kept ?F st1 st2" using s(2) kept_wakeup_loop by (simp add: wakeup_process_def)
  moreover have "kept ?F st2 st3" using st3 by (auto simp: kq_out_eq kept_def split: if_splits)
  moreover have "kept ?F st3 ((upd a (state_update (\<lambda>_. ELECTED)) st3)\<lparr>current_pid := pid new\<rparr>)"
    by (auto simp: kept_def)
  moreover note kept_ctx_sw [OF v]
  ultimately show ?thesis by (blast intro: kept_trans)
qed

lemma kept_yield:
  assumes "yield_to_scheduler k st = Inr st'" "qwf (qs st)"
  shows "kept (set (q_of Q_finished st)) st st'"
proof -
  from assms(1) obtain c st1 where s: "activate c st = Inr st1" "scheduler k st1 = Inr st'"
    by (auto simp: yield_to_scheduler_def)
  have q1: "q_of Q_finished st1 = q_of Q_finished st" using s(1) by (auto simp: activate_def set_state_and_queue_def kq_add_Inr)
  have "qwf (qs st1)" using s(1) assms(2)
    by (auto simp: activate_def set_state_and_queue_def kq_add_Inr qwf_def split: if_splits)
  from kept_scheduler [OF s(2) this] kept_activate [OF s(1)] show ?thesis unfolding q1 by (blast intro: kept_trans)
qed

lemma qwf_awake:
  assumes "qwf (qs st)" shows "qwf (qs (awake a f st))"
proof -
  have "distinct (q_of q st)" "e \<in> set (q_of q st) \<longleftrightarrow> home (qs st) e = Some q" for q e
    using assms by (auto simp: qwf_def)
  then show ?thesis by (auto simp: qwf_def awake_def)
qed

lemma kept_yield_awake:
  assumes y: "yield_to_scheduler k (awake a f st) = Inr st'" and q: "qwf (qs st)" and p: "procs st a = Some p"
  shows "\<exists>p'. procs st' a = Some p' \<and> moved ((f p)\<lparr>state := ACTIVABLE\<rparr>) p' \<and> runnable p'"
    and "x \<noteq> Q_activable \<Longrightarrow> x \<noteq> Q_finished \<Longrightarrow> q_of x st' = remove1 a (q_of x st)"
proof -
  let ?st = "awake a f st"
  have k: "kept (set (q_of Q_finished ?st)) ?st st'" by (rule kept_yield [OF y qwf_awake [OF q]])
  have "a \<notin> set (q_of Q_finished ?st)" using qwf_home [OF qwf_awake [OF q], of a a f Q_finished] by simp
  moreover have "procs ?st a = Some ((f p)\<lparr>state := ACTIVABLE\<rparr>)" using p by simp
  ultimately obtain p' where "procs st' a = Some p'" "moved ((f p)\<lparr>state := ACTIVABLE\<rparr>) p'" using kept_keep [OF k] by metis
  moreover have "runnable ((f p)\<lparr>state := ACTIVABLE\<rparr>)" by (simp add: runnable_def)
  ultimately show "\<exists>p'. procs st' a = Some p' \<and> moved ((f p)\<lparr>state := ACTIVABLE\<rparr>) p' \<and> runnable p'"
    using moved_fields(9) by blast
  show "x \<noteq> Q_activable \<Longrightarrow> x \<noteq> Q_finished \<Longrightarrow> q_of x st' = remove1 a (q_of x st)"
    using k by (simp add: kept_def)
qed

end
