(* ===== verification/Kernel_Props.thy ===== *)
theory Kernel_Props
  imports Example Scheduler_Frame
begin

text \<open>
  What the system calls promise to the processes: scheduling, semaphores, message queues,
  creation and end of processes.
\<close>

section \<open>Scheduling\<close>

text \<open>
  C7. When the timer interrupt reschedules, the process that runs next has the highest priority
  of all processes that are ready, its address space is the current one, and the process that
  was interrupted is suspended in the interrupt handler.
\<close>

theorem tick_elects_highest:
  assumes "kinv k" "time_count k mod SCHEDFREQ = 0" "process_table k (current_pid k) = Some c"
  shows "\<exists>k' n p pc. tick_schedule k = Inr (Switch, k') \<and> process_table k' (current_pid k') = Some n \<and>
    procs k' n = Some p \<and> state p = ELECTED \<and> CR3 (mm k') = cr3 p \<and>
    (\<forall>a q. procs k' a = Some q \<longrightarrow> state q = ACTIVABLE \<longrightarrow> priority q \<le> priority p) \<and>
    procs k' c = Some pc \<and> registers pc = K_tick"
proof -
  from assms(1,3) obtain p where R: "running k c p" and sk: "\<not> skip_message p" by (auto simp: kinv_running running_def)
  then have c: "process_table k (current_pid k) = Some c" "procs k c = Some p" "state p = ELECTED"
    and I: "kI {c} {c} {} (\<lambda>_. 0) k" by (auto simp: running_def)
  from yield_elects [OF c I _ sk, of K_tick] obtain k' n p' pc where y: "yield_to_scheduler K_tick k = Inr k'"
    "running k' n p'" "elected_max k' p'" "CR3 (mm k') = cr3 p'" "procs k' c = Some pc" "registers pc = K_tick" by blast
  have "tick_schedule k = Inr (Switch, k')"
    using assms(2) c y(1) by (simp add: tick_schedule_def yield_to_scheduler_def tbl_def deref_def)
  with y(2-) show ?thesis unfolding running_def elected_max_def by blast
qed

theorem tick_elects_highest_witness:
  "\<exists>k' n p. tick_schedule ex_kernel = Inr (Switch, k') \<and> process_table k' (current_pid k') = Some n \<and>
     procs k' n = Some p \<and> state p = ELECTED"
proof -
  have "time_count ex_kernel mod SCHEDFREQ = 0" "process_table ex_kernel (current_pid ex_kernel) = Some 1"
    by (simp_all add: ex_kernel_def ex_state_def)
  from tick_elects_highest [OF ex_kinv this] show ?thesis by auto
qed

section \<open>Semaphores\<close>

lemma wake_one_eq:
  assumes "qwf (qs st)" "q_of q st \<noteq> []"
  shows "wake_one q st = Inr (awake (last (q_of q st)) id st)"
proof -
  let ?a = "last (q_of q st)"
  have "upd ?a id (unlink ?a st) = unlink ?a st" by (simp add: upd_def option.map_id)
  with activate_awake [of ?a id st] kq_out_unlink [OF assms] show ?thesis by (simp add: wake_one_def)
qed

lemma last_max: "sorted (map f xs) \<Longrightarrow> x \<in> set xs \<Longrightarrow> f x \<le> f (last xs)"
  by (induction xs) auto





section \<open>Message queues\<close>

lemma contents_put:
  assumes "buffer_ok q" "nb_msg q < capacity q"
  shows "contents (put_msg m q\<lparr>nb_msg := nb_msg q + 1\<rparr>) = contents q @ [m]"
proof -
  have h: "head q = (tail q + nb_msg q) mod capacity q" "0 \<le> head q" "head q < capacity q" "0 \<le> nb_msg q" "0 < capacity q"
    "int (length (buffer q)) = capacity q"
    using assms(1) buffer_ok_head [OF assms(1)] by (simp_all add: buffer_ok_def)
  have ne: "(tail q + int k) mod capacity q \<noteq> head q" if "int k < nb_msg q" for k
  proof
    assume "(tail q + int k) mod capacity q = head q"
    then have "capacity q dvd nb_msg q - int k" unfolding h(1) by (metis add_diff_cancel_left mod_eq_dvd_iff)
    then show False using that assms(2) h(4) zdvd_imp_le by fastforce
  qed
  let ?q = "put_msg m q\<lparr>nb_msg := nb_msg q + 1\<rparr>"
  have "[0..<nat (nb_msg ?q)] = [0..<nat (nb_msg q)] @ [nat (nb_msg q)]" using h(4) by (simp add: nat_add_distrib)
  moreover have "buffer ?q ! nat ((tail q + int k) mod capacity q) = buffer q ! nat ((tail q + int k) mod capacity q)"
    if "k < nat (nb_msg q)" for k
  proof -
    have "0 \<le> (tail q + int k) mod capacity q" using h(5) by simp
    moreover have "(tail q + int k) mod capacity q \<noteq> head q" using that by (intro ne) simp
    ultimately have "nat (head q) \<noteq> nat ((tail q + int k) mod capacity q)" using h(2) by (simp add: eq_nat_nat_iff)
    then show ?thesis by (simp add: put_msg_def)
  qed
  moreover have "buffer ?q ! nat ((tail q + nb_msg q) mod capacity q) = m"
    using h by (simp add: put_msg_def flip: h(1))
  ultimately show ?thesis using h(4) by (simp add: contents_def put_msg_def)
qed

lemma contents_take:
  assumes "buffer_ok q" "0 < nb_msg q"
  shows "contents q = buffer q ! nat (tail q) # contents (q\<lparr>tail := next_index q (tail q), nb_msg := nb_msg q - 1\<rparr>)"
proof -
  have b: "0 \<le> tail q" "tail q < capacity q" using assms(1) by (simp_all add: buffer_ok_def)
  obtain n where n: "nat (nb_msg q) = Suc n" using assms(2) by (metis gr0_implies_Suc zero_less_nat_eq)
  have "[0..<Suc n] = 0 # map Suc [0..<n]" by (simp add: map_Suc_upt upt_conv_Cons)
  moreover have "nat (nb_msg q - 1) = n" using n by simp
  moreover have "(tail q + int (Suc k)) mod capacity q = (next_index q (tail q) + int k) mod capacity q" for k
    unfolding next_index_mod [OF b] mod_add_left_eq by (simp add: ac_simps)
  ultimately show ?thesis using b by (simp add: contents_def n comp_def)
qed

lemma contents_exchange:
  assumes "buffer_ok q" "nb_msg q = capacity q"
  shows "contents (put_msg m (q\<lparr>tail := next_index q (tail q)\<rparr>)) = tl (contents q) @ [m]"
proof -
  let ?q = "q\<lparr>tail := next_index q (tail q), nb_msg := nb_msg q - 1\<rparr>"
  have pos: "0 < nb_msg q" using assms by (simp add: buffer_ok_def)
  have "put_msg m (q\<lparr>tail := next_index q (tail q)\<rparr>) = put_msg m ?q\<lparr>nb_msg := nb_msg ?q + 1\<rparr>"
    by (simp add: put_msg_def next_index_def)
  with contents_put [OF take_msg_ok [OF assms(1) pos], of m] contents_take [OF assms(1) pos] assms(2)
  show ?thesis by simp
qed

lemma contents_empty: "buffer_ok q \<Longrightarrow> contents q = [] \<longleftrightarrow> nb_msg q = 0"
  by (auto simp: contents_def buffer_ok_def)

lemma length_contents: "buffer_ok q \<Longrightarrow> int (length (contents q)) = nb_msg q"
  by (simp add: contents_def buffer_ok_def)

text \<open>
  C10. A message queue is a bounded list, first in first out. Sending to a queue that is not full
  and for which nobody waits appends the message and returns at once.
\<close>

theorem psend_appends:
  assumes "kinv st" "mq_lookup i st = Some qa" "mqs st qa = Some q" "int (length (contents q)) < capacity q"
    "q_of (Q_mq qa) st = []"
  shows "\<exists>st' q'. psend i m st = Inr (Return 0, st') \<and> mqs st' qa = Some q' \<and> contents q' = contents q @ [m]"
proof -
  from assms(1) obtain c p where R: "running st c p" by (auto simp: kinv_running)
  from R have I: "kI {c} {c} {} (\<lambda>_. 0) st" and c: "process_table st (current_pid st) = Some c" by (simp_all add: running_def)
  from I assms(2,3) have b: "buffer_ok q" by (auto elim: mq_lookup_ok)
  have lt: "nb_msg q < capacity q" using assms(4) length_contents [OF b] by simp
  have "psend i m st = Inr (Return 0, upd_mq qa (\<lambda>q. put_msg m q\<lparr>nb_msg := nb_msg q + 1\<rparr>) (upd c (message_update (\<lambda>_. m)) st))"
    using assms(2,3,5) c lt by (simp add: psend_def tbl_def mq_at_def)
  with contents_put [OF b lt, of m] assms(3) show ?thesis by simp
qed

theorem psend_appends_witness:
  "\<exists>st' q'. psend 0 9 ex_kernel = Inr (Return 0, st') \<and> mqs st' 4 = Some q' \<and> contents q' = [7, 9]"
proof -
  let ?q = "\<lparr>fid = 0, capacity = 2, nb_msg = 1, head = 1, tail = 0, buffer = [7, 0]\<rparr>"
  have "mq_lookup 0 ex_kernel = Some 4" "mqs ex_kernel 4 = Some ?q" "q_of (Q_mq 4) ex_kernel = []"
    by (simp_all add: ex_kernel_def mq_lookup_def)
  moreover have "contents ?q = [7]" by (simp add: contents_def)
  ultimately show ?thesis using psend_appends [OF ex_kinv, of 0 4 ?q 9] by simp
qed

definition message_of :: "kstate \<Rightarrow> addr \<Rightarrow> int" where
  "message_of st a = (case procs st a of None \<Rightarrow> 0 | Some p \<Rightarrow> message p)"



end
