(* ===== verification/Process_Props.thy ===== *)
theory Process_Props
  imports Kernel_Props
begin

text \<open>What the system calls on processes promise: collecting, creating, changing priorities, errors.\<close>

section \<open>Collecting a child\<close>



section \<open>Priorities\<close>

text \<open>
  After \<^verbatim>\<open>chprio\<close>, \<^verbatim>\<open>getprio\<close> returns the new priority; no other process changes its
  priority; the caller will get the old one when it runs again, and the process that runs next
  has the highest priority of those that are ready.
\<close>

theorem chprio_getprio:
  assumes "kinv st" "process_table st i = Some a" "procs st a = Some p" "state p \<noteq> ZOMBIE" "0 < n" "n \<le> MAXPRIO" "i \<noteq> 0"
    "process_table st (current_pid st) = Some c"
  shows "\<exists>st' pc. chprio i n st = Inr (Switch, st') \<and> getprio i st' = Inr (Return n, st') \<and>
    procs st' c = Some pc \<and> registers pc = K_return (priority p) \<and>
    (\<forall>b q q'. procs st b = Some q \<longrightarrow> procs st' b = Some q' \<longrightarrow> b \<noteq> a \<longrightarrow> priority q' = priority q) \<and>
    (\<exists>m pm. process_table st' (current_pid st') = Some m \<and> procs st' m = Some pm \<and> elected_max st' pm)"
proof -
  from assms(1,8) obtain pc where R: "running st c pc" and sk: "\<not> skip_message pc" by (auto simp: kinv_running running_def)
  then have c: "process_table st (current_pid st) = Some c" "procs st c = Some pc" "state pc = ELECTED"
    and I: "kI {c} {c} {} (\<lambda>_. 0) st" by (auto simp: running_def)
  have v: "is_valid_pid i st" "\<not> ended p" using tabD [OF kID(2) [OF I] assms(2)] assms(2-4) by (auto simp: is_valid_pid_def ended_def)
  from reprio_ok [OF R assms(2,3) v(2), of n] obtain st1 where
    r: "(if q_linked a (qs st) then
       case get_queue p st of
         None \<Rightarrow> Inl (Panic ''chprio: failed assertion'')
       | Some queue \<Rightarrow> bindE (kq_del a st) (\<lambda>st. kq_add a queue (upd a (priority_update (\<lambda>_. n)) st))
     else Inr (upd a (priority_update (\<lambda>_. n)) st)) = Inr st1"
    "kI {c} {c} {} (\<lambda>_. 0) st1" "process_table st1 = process_table st" "current_pid st1 = current_pid st"
    "procs st1 = (procs st)(a \<mapsto> p\<lparr>priority := n\<rparr>)" by blast
  obtain p1 where p1: "procs st1 c = Some p1" "state p1 = ELECTED" "\<not> skip_message p1"
    using r(5) c assms(3) sk by (cases "a = c") auto
  have "process_table st1 (current_pid st1) = Some c" using c r by simp
  from yield_elects [OF this p1(1,2) r(2) _ p1(3), of "K_return (priority p)"] obtain st' m pm pc' where
    y: "yield_to_scheduler (K_return (priority p)) st1 = Inr st'" "running st' m pm" "elected_max st' pm"
      "procs st' c = Some pc'" "registers pc' = K_return (priority p)" by blast
  have k: "kept (set (q_of Q_finished st1)) st1 st'" by (rule kept_yield [OF y(1) kI_qwf [OF r(2)]])
  have pa: "procs st1 a = Some (p\<lparr>priority := n\<rparr>)" using r(5) by simp
  then have "a \<notin> set (q_of Q_finished st1)" using kI_finished_home [OF r(2) pa] v(2) by (simp add: ended_def)
  with k pa obtain p' where p': "procs st' a = Some p'" "moved (p\<lparr>priority := n\<rparr>) p'" by (elim kept_keep)
  have "process_table st' i = Some a" using k assms(2) r(3) by (simp add: kept_def)
  moreover have "state p' \<noteq> ZOMBIE" using moved_fields(10) [OF p'(2)] assms(4) by (auto simp: runnable_def)
  ultimately have "getprio i st' = Inr (Return n, st')"
    using v(1) p'(1) moved_fields(2) [OF p'(2)] by (simp add: getprio_def is_valid_pid_def tbl_def deref_def)
  moreover have "priority q' = priority q" if "procs st b = Some q" "procs st' b = Some q'" "b \<noteq> a" for b q q'
  proof -
    from k that(2) obtain q1 where "procs st1 b = Some q1" "moved q1 q'" unfolding kept_def by blast
    with that r(5) show ?thesis using moved_fields(2) by auto
  qed
  moreover have "chprio i n st = Inr (Switch, st')"
    using v assms(2-7) r(1) y(1) unfolding chprio_def by (simp add: ended_def tbl_def deref_def)
  ultimately show ?thesis using y(2-) by (auto simp: running_def)
qed

theorem chprio_getprio_witness: "\<exists>st'. chprio 2 200 ex_kernel = Inr (Switch, st') \<and> getprio 2 st' = Inr (Return 200, st')"
proof -
  let ?p = "ex_process 2 ACTIVABLE K_new_process 64 1 []"
  have "process_table ex_kernel 2 = Some 2" "procs ex_kernel 2 = Some ?p" "state ?p \<noteq> ZOMBIE"
    "process_table ex_kernel (current_pid ex_kernel) = Some 1"
    by (simp_all add: ex_kernel_def ex_state_def ex_process_def)
  then show ?thesis using chprio_getprio [OF ex_kinv, of 2 2 ?p 200 1] by auto
qed

end
