(* ===== verification/Error_Props.thy ===== *)
theory Error_Props
  imports Process_Props
begin

text \<open>
  Error behaviour: calls with arguments that name nothing, and the runs in which the kernel
  does not do what its callers expect.
\<close>

section \<open>Rejected calls\<close>



section \<open>Deleting a semaphore\<close>

text \<open>
  C25. Deleting a semaphore that exists never returns to its caller. The processes blocked on it
  are woken and the table entry is cleared, but then \<^verbatim>\<open>__nb_waiting_proc2\<close> reads the semaphore
  through that entry: the access to a NULL pointer page-faults, and the handler ends the caller
  with \<^verbatim>\<open>exit(0)\<close>.
\<close>

theorem sdelete_ends_caller:
  assumes "kinv (ker s)" "sem_lookup i (ker s) = Some a"
  shows "\<exists>k. sdelete i (ker s) = Inl (PageFault k) \<and> semaphore_table k i = None \<and>
    handle_fault (kcall (sdelete i) s) =
      kcall (exit 0) (kprintf (''Page Fault occurred'' @ [CHR 0x0A]) [] (s\<lparr>ker := k\<rparr>))"
proof -
  from assms(1) obtain c p where "running (ker s) c p" by (auto simp: kinv_running)
  from sdelete_fault [OF this assms(2)] obtain k where k: "sdelete i (ker s) = Inl (PageFault k)" "semaphore_table k i = None"
    by blast
  then show ?thesis by (simp add: kcall_def handle_fault_def pagefault_interrupt_def)
qed

theorem sdelete_ends_caller_witness: "\<exists>k. sdelete 0 ex_blocked = Inl (PageFault k) \<and> semaphore_table k 0 = None"
proof -
  have "kinv (ker (ex_sys\<lparr>ker := ex_blocked\<rparr>))" "sem_lookup 0 (ker (ex_sys\<lparr>ker := ex_blocked\<rparr>)) = Some 3"
    using ex_blocked_kinv by (simp_all add: ex_blocked_def sem_lookup_def)
  from sdelete_ends_caller [OF this] show ?thesis by auto
qed

section \<open>Waiting for one child of several\<close>

text \<open>
  The father (pid 1) waits for its child 2, which is ready; its other child, 3, runs.
\<close>

definition ex_wrong_child :: kstate where
  "ex_wrong_child =
     \<lparr>procs = [0 \<mapsto> ex_process 0 ACTIVABLE K_tick 1 0 [], 1 \<mapsto> ex_process 1 WAITING_PID (K_waitpid 2 0) 128 (-1) [2, 3],
               2 \<mapsto> ex_process 2 ACTIVABLE K_new_process 64 1 [], 3 \<mapsto> ex_process 3 ELECTED K_new_process 64 1 []],
      process_table = [0 \<mapsto> 0, 1 \<mapsto> 1, 2 \<mapsto> 2, 3 \<mapsto> 3], current_pid = 3,
      qs = \<lparr>lists = (\<lambda>q. if q = Q_activable then [0, 2] else if q = Q_waiting_pid then [1] else []),
            home = [0 \<mapsto> Q_activable, 1 \<mapsto> Q_waiting_pid, 2 \<mapsto> Q_activable]\<rparr>,
      sems = Map.empty, semaphore_table = Map.empty, mqs = Map.empty, queue_table = Map.empty,
      brk = 5, mm = \<lparr>phys = (\<lambda>_. 0), PHYSICAL_MEMORY_HEAD = 0x4000000, next_virtual_address = 0, CR3 = 0\<rparr>,
      tss_cr3 = 0, tss_esp0 = (0, 0), cpu = K_new_process, user_mem = (\<lambda>_ _. 0), time_count = 0\<rparr>"

definition panics :: "('s, 'a) result \<Rightarrow> bool" where
  "panics r = (case r of Inl (Panic _) \<Rightarrow> True | _ \<Rightarrow> False)"

lemma ex_wrong_procs: "procs ex_wrong_child a = Some q \<longleftrightarrow>
    a = 0 \<and> q = ex_process 0 ACTIVABLE K_tick 1 0 [] \<or> a = 1 \<and> q = ex_process 1 WAITING_PID (K_waitpid 2 0) 128 (-1) [2, 3] \<or>
    a = 2 \<and> q = ex_process 2 ACTIVABLE K_new_process 64 1 [] \<or> a = 3 \<and> q = ex_process 3 ELECTED K_new_process 64 1 []"
  by (auto simp: ex_wrong_child_def)

lemma ex_wrong_fields [simp]:
  "process_table ex_wrong_child = [0 \<mapsto> 0, 1 \<mapsto> 1, 2 \<mapsto> 2, 3 \<mapsto> 3]" "current_pid ex_wrong_child = 3"
  "q_of q ex_wrong_child = (if q = Q_activable then [0, 2] else if q = Q_waiting_pid then [1] else [])"
  "home (qs ex_wrong_child) = [0 \<mapsto> Q_activable, 1 \<mapsto> Q_waiting_pid, 2 \<mapsto> Q_activable]"
  by (simp_all add: ex_wrong_child_def)

lemma ex_wrong_kinv: "kinv ex_wrong_child"
proof -
  let ?st = ex_wrong_child
  have e: "\<exists>p. procs ?st 3 = Some p \<and> state p = ELECTED \<and> \<not> skip_message p"
    by (simp add: ex_wrong_child_def ex_process_def)
  have "wfq ?st" by (auto simp: wfq_def qwf_def prio_of_def ex_wrong_child_def ex_process_def split: if_splits)
  moreover have "tab ?st" by (auto simp: tab_def ex_wrong_procs ex_process_def split: if_splits)
  moreover have "places {3} ?st" by (auto simp: places_def place_ok_def ex_wrong_procs ex_process_def)
  moreover have "family {} ?st"
    by (auto simp: family_def child_of_def ended_def ex_wrong_procs ex_process_def split: if_splits)
  moreover have "idle_ok {3} ?st" by (auto simp: idle_ok_def ex_wrong_procs ex_process_def)
  moreover have "stale ?st" by (auto simp: stale_def ex_wrong_procs ex_process_def)
  moreover have "sem_inv (\<lambda>_. 0) ?st" "mq_inv ?st" "fresh ?st"
    by (auto simp: sem_inv_def mq_inv_def fresh_def ex_wrong_child_def)
  moreover have "conts {3} ?st"
    by (auto simp: conts_def cont_ok_def ready_def blocked_ok_def ptr_ok_def ended_def ex_wrong_procs ex_process_def)
  ultimately show ?thesis using e by (auto simp: kinv_def kI_def)
qed


end
