(* ===== verification/Mmu_Spec.thy ===== *)
theory Mmu_Spec
  imports Mmu
begin

unbundle bit_operations_syntax

text \<open>
  What the memory manager promises: the list of free blocks as a stack, page tables that
  translate what was mapped, and allocation as long as there are free blocks.
\<close>

section \<open>Pages\<close>

abbreviation frame_of :: "u32 \<Rightarrow> u32" where "frame_of a \<equiv> a AND FRAME_MASK"

text \<open>A page of the memory that the kernel maps one to one.\<close>

definition kpage :: "u32 \<Rightarrow> bool" where
  "kpage x \<longleftrightarrow> frame_of x = x \<and> 0x1000 \<le> x \<and> x < 0x10000000"

definition entry :: "u32 \<Rightarrow> nat \<Rightarrow> u32" where
  "entry t i = t + 4 * of_nat i"

lemma frame_mask: "(0xFFFFF000 :: u32) = NOT (mask 12)"
  by (simp add: mask_eq_exp_minus_1)

lemma unat_frame: "unat (frame_of a) = unat a div 4096 * 4096"
proof -
  have "frame_of a = push_bit 12 (drop_bit 12 a)"
    unfolding frame_mask by (auto intro!: bit_word_eqI simp: bit_simps)
  moreover have "unat a div 4096 * 4096 < 2 ^ 32"
    using unsigned_less [of a, where 'a = nat] div_times_less_eq_dividend [of "unat a" 4096] by simp
  ultimately show ?thesis
    by (simp add: push_bit_eq_mult unat_word_ariths unat_drop_bit_eq drop_bit_eq_div [where 'a = nat])
qed

lemma kpage_unat: "kpage x \<longleftrightarrow> 4096 dvd unat x \<and> 4096 \<le> unat x \<and> unat x < 2 ^ 28"
  unfolding kpage_def word_unat_eq_iff unat_frame word_le_nat_alt word_less_nat_alt
  by (auto simp: dvd_div_mult_self) (metis dvd_triv_right)

lemma kpage_entry:
  assumes "kpage t" "i < 1024"
  shows "unat (entry t i) = unat t + 4 * i" "kmapped (entry t i)" "frame_of (entry t i) = t"
proof -
  from assms(1) obtain k where k: "unat t = 4096 * k" "4096 \<le> unat t" "unat t < 2 ^ 28" by (auto simp: kpage_unat)
  have lt: "unat t + 4 * i < 2 ^ 28" using k assms(2) by simp
  have "unat (4 * of_nat i :: u32) = 4 * i" using assms(2) by (simp add: unat_word_ariths unat_of_nat)
  then show u: "unat (entry t i) = unat t + 4 * i" unfolding entry_def using lt by (simp add: unat_word_ariths)
  show "kmapped (entry t i)" unfolding kmapped_def word_le_nat_alt word_less_nat_alt u using k lt by simp
  have "(4096 * k + 4 * i) div 4096 = k" using assms(2) by simp
  then show "frame_of (entry t i) = t" unfolding word_unat_eq_iff unat_frame u k(1) by simp
qed

lemma entry_inj: "kpage t \<Longrightarrow> kpage t' \<Longrightarrow> i < 1024 \<Longrightarrow> j < 1024 \<Longrightarrow> entry t i = entry t' j \<longleftrightarrow> t = t' \<and> i = j"
  using kpage_entry [of t i] kpage_entry [of t' j] by (metis add_left_cancel mult_cancel1 zero_neq_numeral)

lemma kpage_mapped: "kpage t \<Longrightarrow> kmapped t"
  by (simp add: kpage_def kmapped_def)

lemma kpage_nonzero: "kpage t \<Longrightarrow> t \<noteq> 0"
  by (auto simp: kpage_def)

lemma frame_idem: "kpage t \<Longrightarrow> frame_of t = t"
  by (simp add: kpage_def)

lemma bit_small: "x < 0x1000 \<Longrightarrow> bit (x :: u32) n \<Longrightarrow> n < 12"
proof -
  assume "x < 0x1000" "bit x n"
  then have "unat x < 2 ^ 12" by (simp add: word_less_nat_alt)
  then have "take_bit 12 x = x" unfolding word_unat_eq_iff by (simp add: unsigned_take_bit_eq take_bit_nat_eq_self)
  with \<open>bit x n\<close> show "n < 12" by (metis bit_take_bit_iff)
qed

lemma bit_frame: "kpage t \<Longrightarrow> bit t n \<Longrightarrow> 12 \<le> n"
  unfolding kpage_def frame_mask by (metis bit_and_iff bit_not_iff bit_mask_iff not_le possible_bit_word)

lemma frame_flags: "kpage t \<Longrightarrow> flags < 0x1000 \<Longrightarrow> frame_of (t OR flags) = t"
  unfolding frame_mask
  by (rule bit_word_eqI) (auto simp: bit_simps dest: bit_small bit_frame)

lemma bit0_flags: "kpage t \<Longrightarrow> bit (t OR flags) 0 = bit flags 0"
  using bit_frame [of t 0] by (auto simp: bit_simps)

text \<open>The number of the page of a virtual address, and its two indices.\<close>

definition page :: "u32 \<Rightarrow> nat" where "page va = unat va div 4096"

lemma page_less: "page va < 1024 * 1024"
  using unsigned_less [of va, where 'a = nat] by (simp add: page_def div_less_iff_less_mult)

lemma index_entry:
  "pgdir + 4 * pd_index va = entry pgdir (page va div 1024)"
  "t + 4 * pt_index va = entry t (page va mod 1024)"
proof -
  have "pd_index va = of_nat (page va div 1024)"
    unfolding word_unat_eq_iff pd_index_def page_def
    using unsigned_less [of va, where 'a = nat]
    by (simp add: unat_drop_bit_eq drop_bit_eq_div [where 'a = nat] unat_of_nat div_mult2_eq [symmetric])
  then show "pgdir + 4 * pd_index va = entry pgdir (page va div 1024)" by (simp add: entry_def)
  have m: "(0x3FF :: u32) = mask 10" by (simp add: mask_eq_exp_minus_1)
  have "pt_index va = of_nat (page va mod 1024)"
    unfolding word_unat_eq_iff pt_index_def page_def m take_bit_eq_mask [symmetric]
    by (simp add: unsigned_take_bit_eq unat_drop_bit_eq drop_bit_eq_div [where 'a = nat] take_bit_eq_mod [where 'a = nat] unat_of_nat)
  then show "t + 4 * pt_index va = entry t (page va mod 1024)" by (simp add: entry_def)
qed

lemma index_less: "page va div 1024 < 1024" "page va mod 1024 < 1024"
  using page_less [of va] by (simp_all add: div_less_iff_less_mult)

section \<open>A pool of blocks\<close>

text \<open>Taking \<open>n\<close> blocks one after the other, and giving back a list of blocks.\<close>

fun takes :: "('m \<Rightarrow> 'e + 'b \<times> 'm) \<Rightarrow> nat \<Rightarrow> 'm \<Rightarrow> 'e + 'b list \<times> 'm" where
  "takes f 0 m = Inr ([], m)"
| "takes f (Suc n) m = bindE (f m) (\<lambda>(b, m). bindE (takes f n m) (\<lambda>(bs, m). Inr (b # bs, m)))"

fun gives :: "('b \<Rightarrow> 'm \<Rightarrow> 'e + 'm) \<Rightarrow> 'b list \<Rightarrow> 'm \<Rightarrow> 'e + 'm" where
  "gives f [] m = Inr m"
| "gives f (b # bs) m = bindE (f b m) (gives f bs)"

text \<open>The contract of an allocator whose free blocks form a stack.\<close>

locale block_pool =
  fixes allocate :: "'m \<Rightarrow> 'e + 'b \<times> 'm" and release :: "'b \<Rightarrow> 'm \<Rightarrow> 'e + 'm"
    and pool :: "'m \<Rightarrow> 'b list \<Rightarrow> bool" and block :: "'b \<Rightarrow> bool"
  assumes allocate_pops: "pool m (b # bs) \<Longrightarrow> \<exists>m'. allocate m = Inr (b, m') \<and> pool m' bs"
    and allocate_stops: "pool m [] \<Longrightarrow> \<exists>e. allocate m = Inl e"
    and release_pushes: "pool m bs \<Longrightarrow> block b \<Longrightarrow> b \<notin> set bs \<Longrightarrow> \<exists>m'. release b m = Inr m' \<and> pool m' (b # bs)"
begin

lemma takes_pops:
  "pool m (cs @ bs) \<Longrightarrow> \<exists>m'. takes allocate (length cs) m = Inr (cs, m') \<and> pool m' bs"
proof (induction cs arbitrary: m)
  case (Cons c cs)
  then obtain m1 where "allocate m = Inr (c, m1)" "pool m1 (cs @ bs)" using allocate_pops [of m c "cs @ bs"] by auto
  with Cons.IH [of m1] show ?case by auto
qed simp

lemma takes_stops: "pool m bs \<Longrightarrow> length bs < n \<Longrightarrow> \<exists>e. takes allocate n m = Inl e"
proof (induction bs arbitrary: m n)
  case Nil
  then show ?case using allocate_stops [of m] by (cases n) auto
next
  case (Cons b bs)
  then obtain m1 where "allocate m = Inr (b, m1)" "pool m1 bs" using allocate_pops by blast
  with Cons.IH [of m1 "n - 1"] Cons.prems show ?case by (cases n) auto
qed

lemma gives_pushes:
  "pool m bs \<Longrightarrow> distinct (cs @ bs) \<Longrightarrow> list_all block cs \<Longrightarrow> \<exists>m'. gives release cs m = Inr m' \<and> pool m' (rev cs @ bs)"
proof (induction cs arbitrary: m bs)
  case (Cons c cs)
  then obtain m1 where "release c m = Inr m1" "pool m1 (c # bs)" using release_pushes [of m bs c] by auto
  with Cons.IH [of m1 "c # bs"] Cons.prems show ?case by auto
qed simp

lemma last_given_first_taken:
  assumes "pool m bs" "block b" "b \<notin> set bs"
  shows "\<exists>m1 m2. release b m = Inr m1 \<and> allocate m1 = Inr (b, m2) \<and> pool m2 bs"
  using release_pushes [OF assms] allocate_pops by blast

end

section \<open>The list of free blocks\<close>

fun chain :: "(u32 \<Rightarrow> u32) \<Rightarrow> u32 \<Rightarrow> u32 list \<Rightarrow> bool" where
  "chain m h [] \<longleftrightarrow> h = 0"
| "chain m h (b # bs) \<longleftrightarrow> h = b \<and> kpage b \<and> chain m (m b) bs"

definition free_list :: "mm_state \<Rightarrow> u32 list \<Rightarrow> bool" where
  "free_list mm bs \<longleftrightarrow> chain (phys mm) (PHYSICAL_MEMORY_HEAD mm) bs \<and> distinct bs"

lemma chain_cong: "\<forall>b \<in> set bs. m' b = m b \<Longrightarrow> chain m' h bs = chain m h bs"
  by (induction bs arbitrary: h) auto

lemma chain_kpage: "chain m h bs \<Longrightarrow> b \<in> set bs \<Longrightarrow> kpage b"
  by (induction bs arbitrary: h) auto

lemma free_list_kpage: "free_list mm bs \<Longrightarrow> b \<in> set bs \<Longrightarrow> kpage b"
  by (auto simp: free_list_def dest: chain_kpage)

lemma free_list_cong:
  "\<forall>b \<in> set bs. phys mm' b = phys mm b \<Longrightarrow> PHYSICAL_MEMORY_HEAD mm' = PHYSICAL_MEMORY_HEAD mm \<Longrightarrow>
   free_list mm' bs = free_list mm bs"
  using chain_cong [of bs "phys mm'" "phys mm"] by (simp add: free_list_def)

lemma load32_kpage [simp]: "kpage a \<Longrightarrow> load32 a mm = Inr (phys mm a)"
  by (simp add: load32_def kpage_mapped)

lemma store32_kpage [simp]: "kpage a \<Longrightarrow> store32 a v mm = Inr (mm\<lparr>phys := (phys mm)(a := v)\<rparr>)"
  by (simp add: store32_def kpage_mapped)

lemma allocate_block:
  "free_list mm (b # bs) \<Longrightarrow> allocate_physical_memory_address mm = Inr (b, mm\<lparr>PHYSICAL_MEMORY_HEAD := phys mm b\<rparr>) \<and>
     free_list (mm\<lparr>PHYSICAL_MEMORY_HEAD := phys mm b\<rparr>) bs"
  by (auto simp: free_list_def allocate_physical_memory_address_def)

lemma allocate_exhausted: "free_list mm [] \<Longrightarrow> allocate_physical_memory_address mm = Inl (PageFault mm)"
  by (simp add: free_list_def allocate_physical_memory_address_def load32_def kmapped_def)

lemma free_block:
  "free_list mm bs \<Longrightarrow> kpage b \<Longrightarrow> b \<notin> set bs \<Longrightarrow>
   \<exists>mm'. free_physical_memory_address b mm = Inr mm' \<and> free_list mm' (b # bs)"
  using chain_cong [of bs "(phys mm)(b := PHYSICAL_MEMORY_HEAD mm)" "phys mm"]
  by (auto simp: free_physical_memory_address_def free_list_def)

interpretation blocks: block_pool allocate_physical_memory_address free_physical_memory_address free_list kpage
proof
  show "\<exists>m'. allocate_physical_memory_address m = Inr (b, m') \<and> free_list m' bs" if "free_list m (b # bs)" for m b bs
    using allocate_block [OF that] by blast
  show "\<exists>e. allocate_physical_memory_address m = Inl e" if "free_list m []" for m
    using allocate_exhausted [OF that] by blast
qed (rule free_block)

section \<open>Clearing and copying pages\<close>

definition in_page :: "u32 \<Rightarrow> u32 \<Rightarrow> bool" where
  "in_page t a \<longleftrightarrow> (\<exists>i < 1024. a = entry t i)"

lemma in_page_entry [simp]: "i < 1024 \<Longrightarrow> in_page t (entry t i)"
  by (auto simp: in_page_def)

lemma in_page_other: "kpage t \<Longrightarrow> kpage t' \<Longrightarrow> i < 1024 \<Longrightarrow> in_page t' (entry t i) \<longleftrightarrow> t = t'"
  by (auto simp: in_page_def entry_inj)

lemma entry_0 [simp]: "entry t 0 = t"
  by (simp add: entry_def)

lemma in_page_base: "kpage t \<Longrightarrow> kpage t' \<Longrightarrow> in_page t' t \<longleftrightarrow> t = t'"
  using in_page_other [of t t' 0] by simp

lemma entry_Suc: "entry t k + 4 = entry t (Suc k)"
  by (simp add: entry_def algebra_simps)

lemma if_merge: "P \<longleftrightarrow> a = e \<or> Q \<Longrightarrow> (if Q then z else (m(e := z)) a) = (if P then z else m a)"
  by simp

lemma clear_words_eq:
  assumes "kpage t" "k + n \<le> 1024"
  shows "clear_words n (entry t k) mm =
    Inr (mm\<lparr>phys := \<lambda>a. if \<exists>i. k \<le> i \<and> i < k + n \<and> a = entry t i then 0 else phys mm a\<rparr>)"
  using assms(2)
proof (induction n arbitrary: k mm)
  case (Suc n)
  have "kmapped (entry t k)" using kpage_entry(2) [OF assms(1), of k] Suc.prems by simp
  then have "clear_words (Suc n) (entry t k) mm = clear_words n (entry t (Suc k)) (mm\<lparr>phys := (phys mm)(entry t k := 0)\<rparr>)"
    by (simp add: store32_def entry_Suc)
  also have "\<dots> = Inr (mm\<lparr>phys := \<lambda>a. if \<exists>i. Suc k \<le> i \<and> i < Suc k + n \<and> a = entry t i then 0 else ((phys mm)(entry t k := 0)) a\<rparr>)"
    using Suc by (simp cong: if_cong)
  also have "(\<lambda>a. if \<exists>i. Suc k \<le> i \<and> i < Suc k + n \<and> a = entry t i then 0 else ((phys mm)(entry t k := 0)) a) =
    (\<lambda>a. if \<exists>i. k \<le> i \<and> i < k + Suc n \<and> a = entry t i then 0 else phys mm a)"
  proof
    fix a
    have "(\<exists>i. k \<le> i \<and> i < k + Suc n \<and> a = entry t i) \<longleftrightarrow> a = entry t k \<or> (\<exists>i. Suc k \<le> i \<and> i < Suc k + n \<and> a = entry t i)"
      by (metis Suc_leD Suc_le_eq add_Suc add_Suc_right less_add_Suc1 nat_less_le order_refl)
    then show "(if \<exists>i. Suc k \<le> i \<and> i < Suc k + n \<and> a = entry t i then 0 else ((phys mm)(entry t k := 0)) a) =
      (if \<exists>i. k \<le> i \<and> i < k + Suc n \<and> a = entry t i then 0 else phys mm a)" by (rule if_merge)
  qed
  finally show ?case .
next
  case (0 k mm)
  have "(\<lambda>a. if \<exists>i. k \<le> i \<and> i < k + 0 \<and> a = entry t i then 0 else phys mm a) = phys mm" by (rule ext) auto
  then show ?case by simp
qed

lemma clear_page:
  "kpage t \<Longrightarrow> clear_words 1024 t mm = Inr (mm\<lparr>phys := \<lambda>a. if in_page t a then 0 else phys mm a\<rparr>)"
  using clear_words_eq [of t 0 1024 mm] by (simp add: in_page_def)

section \<open>Address spaces\<close>

text \<open>
  The page table that a directory has for its \<open>i\<close>-th 4 MB, and the abstract view of a page
  directory: a map from page numbers to frames.
\<close>

definition table_of :: "mm_state \<Rightarrow> u32 \<Rightarrow> nat \<Rightarrow> u32" where
  "table_of mm pgdir i = frame_of (phys mm (entry pgdir i))"

definition space :: "mm_state \<Rightarrow> u32 \<Rightarrow> nat \<Rightarrow> u32 option" where
  "space mm pgdir n =
     (let t = table_of mm pgdir (n div 1024); e = phys mm (entry t (n mod 1024))
      in if t \<noteq> 0 \<and> bit e 0 then Some (frame_of e) else None)"

text \<open>
  A directory and its tables are pages of their own, none of them in the list \<open>bs\<close> of free blocks.
\<close>

definition directory :: "mm_state \<Rightarrow> u32 \<Rightarrow> u32 list \<Rightarrow> bool" where
  "directory mm pgdir bs \<longleftrightarrow> kpage pgdir \<and> pgdir \<notin> set bs \<and>
     (\<forall>i < 1024. table_of mm pgdir i \<noteq> 0 \<longrightarrow>
        kpage (table_of mm pgdir i) \<and> table_of mm pgdir i \<noteq> pgdir \<and> table_of mm pgdir i \<notin> set bs) \<and>
     (\<forall>i < 1024. \<forall>j < 1024. table_of mm pgdir i \<noteq> 0 \<longrightarrow> table_of mm pgdir i = table_of mm pgdir j \<longrightarrow> i = j)"

lemma directoryD:
  assumes "directory mm pgdir bs"
  shows "kpage pgdir" "pgdir \<notin> set bs"
    "\<And>i. i < 1024 \<Longrightarrow> table_of mm pgdir i \<noteq> 0 \<Longrightarrow>
       kpage (table_of mm pgdir i) \<and> table_of mm pgdir i \<noteq> pgdir \<and> table_of mm pgdir i \<notin> set bs"
    "\<And>i j. i < 1024 \<Longrightarrow> j < 1024 \<Longrightarrow> table_of mm pgdir i \<noteq> 0 \<Longrightarrow> table_of mm pgdir i = table_of mm pgdir j \<Longrightarrow> i = j"
  using assms unfolding directory_def by blast+

text \<open>A directory with its tables is the same where its pages are the same.\<close>

lemma directory_cong:
  assumes "directory mm pgdir bs" "set bs' \<subseteq> set bs"
    "\<And>i. i < 1024 \<Longrightarrow> table_of mm' pgdir i = table_of mm pgdir i"
  shows "directory mm' pgdir bs'"
  using assms unfolding directory_def by (auto 0 3)

lemma load32_entry [simp]: "kpage t \<Longrightarrow> i < 1024 \<Longrightarrow> load32 (entry t i) mm = Inr (phys mm (entry t i))"
  by (simp add: load32_def kpage_entry)

lemma store32_entry [simp]:
  "kpage t \<Longrightarrow> i < 1024 \<Longrightarrow> store32 (entry t i) v mm = Inr (mm\<lparr>phys := (phys mm)(entry t i := v)\<rparr>)"
  by (simp add: store32_def kpage_entry)

text \<open>Finding the table entry of an address, on every branch.\<close>

lemma get_entry_present:
  assumes "directory mm pgdir bs" "table_of mm pgdir (page va div 1024) = t" "t \<noteq> 0"
  shows "get_ptable_entry_from_virtual_address va pgdir False flags mm = Inr (entry t (page va mod 1024), mm)"
    and "flags \<noteq> 0 \<Longrightarrow> get_ptable_entry_from_virtual_address va pgdir True flags mm =
      Inr (entry t (page va mod 1024), mm\<lparr>phys := (phys mm)(entry pgdir (page va div 1024) := t OR flags)\<rparr>)"
  using directoryD(1) [OF assms(1)] assms(2,3) index_less [of va]
  by (simp_all add: get_ptable_entry_from_virtual_address_def set_table_permission_def index_entry table_of_def)

lemma get_entry_absent:
  assumes "directory mm pgdir bs" "table_of mm pgdir (page va div 1024) = 0"
  shows "get_ptable_entry_from_virtual_address va pgdir False flags mm =
    Inl (Panic ''Failed to get page table in get_ptable_entry_from_virtual_address'')"
  using directoryD(1) [OF assms(1)] assms(2) index_less [of va]
  by (simp add: get_ptable_entry_from_virtual_address_def index_entry table_of_def)

lemma get_entry_created:
  assumes "directory mm pgdir ys" "table_of mm pgdir (page va div 1024) = 0" "free_list mm (b # bs)"
    "flags < 0x1000"
  shows "get_ptable_entry_from_virtual_address va pgdir True flags mm =
    Inr (entry b (page va mod 1024),
      mm\<lparr>PHYSICAL_MEMORY_HEAD := phys mm b,
         phys := (\<lambda>a. if in_page b a then 0 else phys mm a)(entry pgdir (page va div 1024) := b OR flags)\<rparr>)"
proof -
  have b: "kpage b" "b \<noteq> 0" "b AND FRAME_MASK = b"
    using free_list_kpage [OF assms(3), of b] by (simp_all add: kpage_nonzero frame_idem)
  show ?thesis
    using directoryD(1) [OF assms(1)] assms(2) index_less [of va] allocate_block [OF assms(3)] b frame_flags [OF b(1) assms(4)]
    by (simp add: get_ptable_entry_from_virtual_address_def set_table_permission_def index_entry table_of_def clear_page cong: if_cong)
qed

text \<open>What a table entry is, after a change of one word of a table.\<close>

lemma table_of_upd_table:
  assumes "directory mm pgdir bs" "table_of mm pgdir i = t" "i < 1024" "t \<noteq> 0" "j < 1024" "k < 1024"
  shows "table_of (mm\<lparr>phys := (phys mm)(entry t j := v)\<rparr>) pgdir k = table_of mm pgdir k"
proof -
  have "kpage t" "t \<noteq> pgdir" "kpage pgdir"
    using directoryD(3) [OF assms(1,3)] directoryD(1) [OF assms(1)] assms(2,4) by simp_all
  then have "entry pgdir k \<noteq> entry t j" using entry_inj assms(5,6) by simp
  then show ?thesis by (simp add: table_of_def)
qed

lemma directory_set_entry:
  assumes "directory mm pgdir bs" "table_of mm pgdir i = t" "i < 1024" "t \<noteq> 0" "j < 1024"
  shows "directory (mm\<lparr>phys := (phys mm)(entry t j := v)\<rparr>) pgdir bs"
  using directory_cong [OF assms(1) subset_refl] table_of_upd_table [OF assms] by blast

lemma free_list_set_entry:
  assumes "free_list mm bs" "kpage t" "t \<notin> set bs" "j < 1024"
  shows "free_list (mm\<lparr>phys := (phys mm)(entry t j := v)\<rparr>) bs"
proof -
  have "b \<noteq> entry t j" if "b \<in> set bs" for b
    using entry_inj [of b t 0 j] free_list_kpage [OF assms(1) that] assms(2-4) that by auto
  then show ?thesis using free_list_cong [of bs "mm\<lparr>phys := (phys mm)(entry t j := v)\<rparr>" mm] assms(1) by auto
qed

lemma space_set_entry:
  assumes "directory mm pgdir bs" "table_of mm pgdir (page va div 1024) = t" "t \<noteq> 0" "kpage f" "flags < 0x1000" "bit flags 0"
    "n < 1024 * 1024"
  shows "space (mm\<lparr>phys := (phys mm)(entry t (page va mod 1024) := f OR flags)\<rparr>) pgdir n =
    (if n = page va then Some f else space mm pgdir n)"
proof -
  let ?i = "page va div 1024" and ?j = "page va mod 1024"
  let ?mm = "mm\<lparr>phys := (phys mm)(entry t ?j := f OR flags)\<rparr>"
  have n: "n div 1024 < 1024" "n mod 1024 < 1024" using assms(7) by (simp_all add: div_less_iff_less_mult)
  have tab: "table_of ?mm pgdir (n div 1024) = table_of mm pgdir (n div 1024)"
    using table_of_upd_table [OF assms(1,2) index_less(1) assms(3) index_less(2) n(1)] by simp
  have eq: "n = page va \<longleftrightarrow> n div 1024 = ?i \<and> n mod 1024 = ?j" by (metis div_mult_mod_eq)
  have kt: "kpage t" using directoryD(3) [OF assms(1) index_less(1)] assms(2,3) by blast
  show ?thesis
  proof (cases "n = page va")
    case True
    then show ?thesis using tab assms(2,3) bit0_flags [OF assms(4), of flags] frame_flags [OF assms(4,5)] assms(6)
      by (simp add: space_def)
  next
    case False
    let ?t' = "table_of mm pgdir (n div 1024)"
    have "entry ?t' (n mod 1024) \<noteq> entry t ?j" if "?t' \<noteq> 0"
    proof
      assume "entry ?t' (n mod 1024) = entry t ?j"
      then have "?t' = t" "n mod 1024 = ?j"
        using entry_inj [OF _ kt n(2) index_less(2)] directoryD(3) [OF assms(1) n(1) that] by simp_all
      moreover from this have "n div 1024 = ?i" using directoryD(4) [OF assms(1) n(1) index_less(1) that] assms(2) by simp
      ultimately show False using False eq by simp
    qed
    then show ?thesis using False tab by (auto simp: space_def Let_def)
  qed
qed

lemma space_cong:
  assumes "table_of mm' pgdir (n div 1024) = table_of mm pgdir (n div 1024)"
    "table_of mm pgdir (n div 1024) \<noteq> 0 \<Longrightarrow>
       phys mm' (entry (table_of mm pgdir (n div 1024)) (n mod 1024)) = phys mm (entry (table_of mm pgdir (n div 1024)) (n mod 1024))"
  shows "space mm' pgdir n = space mm pgdir n"
  using assms by (auto simp: space_def Let_def)

text \<open>
  \<^verbatim>\<open>get_ptable_entry_from_virtual_address\<close> with \<^verbatim>\<open>create_if_not_present\<close>: it takes a block from
  the free list when the table is missing, and no address is translated differently.
\<close>

lemma set_permission_entry:
  assumes D: "directory mm pgdir (bs @ xs)" and F: "free_list mm bs" and i: "i < 1024" and fl: "flags < 0x1000"
    and t: "table_of mm pgdir i = t" "t \<noteq> 0"
  shows "\<And>k. k < 1024 \<Longrightarrow> table_of (mm\<lparr>phys := (phys mm)(entry pgdir i := t OR flags)\<rparr>) pgdir k = table_of mm pgdir k"
    "directory (mm\<lparr>phys := (phys mm)(entry pgdir i := t OR flags)\<rparr>) pgdir (bs @ xs)"
    "free_list (mm\<lparr>phys := (phys mm)(entry pgdir i := t OR flags)\<rparr>) bs"
    "\<And>n. n < 1024 * 1024 \<Longrightarrow> space (mm\<lparr>phys := (phys mm)(entry pgdir i := t OR flags)\<rparr>) pgdir n = space mm pgdir n"
proof -
  let ?mm = "mm\<lparr>phys := (phys mm)(entry pgdir i := t OR flags)\<rparr>"
  have pg: "kpage pgdir" "pgdir \<notin> set bs" using directoryD(1,2) [OF D] by simp_all
  have kt: "kpage t" using directoryD(3) [OF D i] t by simp
  show tab: "table_of ?mm pgdir k = table_of mm pgdir k" if "k < 1024" for k
    using t frame_flags [OF kt fl] entry_inj [OF pg(1) pg(1) that i] by (auto simp: table_of_def)
  then show "directory ?mm pgdir (bs @ xs)" using directory_cong [OF D subset_refl] by blast
  show "free_list ?mm bs" by (rule free_list_set_entry [OF F pg i])
  show "space ?mm pgdir n = space mm pgdir n" if "n < 1024 * 1024" for n
  proof -
    have n: "n div 1024 < 1024" "n mod 1024 < 1024" using that by (simp_all add: div_less_iff_less_mult)
    show ?thesis
      using directoryD(3) [OF D n(1)] entry_inj [OF _ pg(1) n(2) i] by (intro space_cong tab n) auto
  qed
qed

lemma create_entry:
  assumes D: "directory mm pgdir (b # bs @ xs)" and F: "free_list mm (b # bs)" and i: "i < 1024" and fl: "flags < 0x1000"
    and xs: "b \<notin> set xs"
    and t: "table_of mm pgdir i = 0"
    and mm': "mm' = mm\<lparr>PHYSICAL_MEMORY_HEAD := phys mm b, phys := (\<lambda>a. if in_page b a then 0 else phys mm a)(entry pgdir i := b OR flags)\<rparr>"
  shows "\<And>k. k < 1024 \<Longrightarrow> table_of mm' pgdir k = (if k = i then b else table_of mm pgdir k)"
    "directory mm' pgdir (bs @ xs)" "free_list mm' bs"
    "\<And>n. n < 1024 * 1024 \<Longrightarrow> space mm' pgdir n = space mm pgdir n"
proof -
  have pg: "kpage pgdir" "pgdir \<noteq> b" "pgdir \<notin> set bs" "pgdir \<notin> set xs" using directoryD(1,2) [OF D] by auto
  have kb: "kpage b" "b \<noteq> 0" "b \<notin> set bs"
    using free_list_kpage [OF F, of b] F by (simp_all add: kpage_nonzero free_list_def)
  show tab: "table_of mm' pgdir k = (if k = i then b else table_of mm pgdir k)" if "k < 1024" for k
    using frame_flags [OF kb(1) fl] entry_inj [OF pg(1) pg(1) that i] in_page_other [OF pg(1) kb(1) that] pg(2)
    by (simp add: table_of_def mm')
  show "directory mm' pgdir (bs @ xs)"
    unfolding directory_def using tab directoryD(3,4) [OF D] kb pg xs by (simp split: if_splits) metis
  have "free_list (mm\<lparr>PHYSICAL_MEMORY_HEAD := phys mm b\<rparr>) bs" using allocate_block [OF F] by blast
  moreover have "phys mm' c = phys mm c" if "c \<in> set bs" for c
  proof -
    have "kpage c" "c \<noteq> b" "c \<noteq> pgdir" using free_list_kpage [OF F, of c] that kb(3) pg(3) by auto
    then show ?thesis using entry_inj [of c pgdir 0 i] in_page_base [of c b] pg(1) kb(1) i by (auto simp: mm')
  qed
  ultimately show "free_list mm' bs"
    using free_list_cong [of bs mm' "mm\<lparr>PHYSICAL_MEMORY_HEAD := phys mm b\<rparr>"] by (simp add: mm')
  show "space mm' pgdir n = space mm pgdir n" if "n < 1024 * 1024" for n
  proof -
    have n: "n div 1024 < 1024" "n mod 1024 < 1024" using that by (simp_all add: div_less_iff_less_mult)
    show ?thesis
    proof (cases "n div 1024 = i")
      case True
      have "phys mm' (entry b (n mod 1024)) = 0"
        using entry_inj [OF kb(1) pg(1) n(2) i] pg(2) n(2) by (simp add: mm')
      then show ?thesis using True tab [OF n(1)] t by (simp add: space_def)
    next
      case False
      have "phys mm' (entry t' (n mod 1024)) = phys mm (entry t' (n mod 1024))" if "t' = table_of mm pgdir (n div 1024)" "t' \<noteq> 0" for t'
        using directoryD(3) [OF D n(1)] that entry_inj [OF _ pg(1) n(2) i, of t'] in_page_other [OF _ kb(1) n(2), of t'] by (auto simp: mm')
      with False tab [OF n(1)] show ?thesis by (intro space_cong) auto
    qed
  qed
qed

lemma get_entry_create:
  assumes D: "directory mm pgdir (bs @ xs)" and F: "free_list mm bs" and fl: "flags < 0x1000" "flags \<noteq> 0"
    and xs: "set bs \<inter> set xs = {}"
    and room: "table_of mm pgdir (page va div 1024) = 0 \<Longrightarrow> bs \<noteq> []"
  obtains t mm' bs' where
    "get_ptable_entry_from_virtual_address va pgdir True flags mm = Inr (entry t (page va mod 1024), mm')"
    "t \<noteq> 0" "table_of mm' pgdir (page va div 1024) = t" "directory mm' pgdir (bs' @ xs)" "free_list mm' bs'"
    "bs' = (if table_of mm pgdir (page va div 1024) = 0 then tl bs else bs)"
    "\<And>n. n < 1024 * 1024 \<Longrightarrow> space mm' pgdir n = space mm pgdir n" "CR3 mm' = CR3 mm"
proof (cases "table_of mm pgdir (page va div 1024) = 0")
  case True
  with room obtain b cs where bs: "bs = b # cs" by (cases bs) auto
  have D': "directory mm pgdir (b # cs @ xs)" and x: "b \<notin> set xs" using D xs bs by auto
  note F' = F [unfolded bs]
  note c = create_entry [OF D' F' index_less(1) fl(1) x True HOL.refl]
  show ?thesis
    using get_entry_created [OF D True F' fl(1)] c(1) [OF index_less(1)] kpage_nonzero [OF free_list_kpage [OF F', of b]] True bs
    by (intro that [OF _ _ _ c(2,3) _ c(4)]) simp_all
next
  case False
  let ?t = "table_of mm pgdir (page va div 1024)"
  note c = set_permission_entry [OF D F index_less(1) fl(1) HOL.refl False]
  show ?thesis
    using get_entry_present(2) [OF D HOL.refl False fl(2)] c(1) [OF index_less(1)] False
    by (intro that [OF _ _ _ c(2,3) _ c(4)]) simp_all
qed

text \<open>Mapping one page to a frame: the steps that all callers of the page-table code share.\<close>

lemma map_frame:
  assumes D: "directory mm pgdir (bs @ xs)" and F: "free_list mm bs" and fl: "flags < 0x1000" "bit flags 0"
    and xs: "set bs \<inter> set xs = {}" and room: "table_of mm pgdir (page va div 1024) = 0 \<Longrightarrow> bs \<noteq> []"
  obtains e mm1 bs' where
    "get_ptable_entry_from_virtual_address va pgdir True flags mm = Inr (e, mm1)"
    "bs' = (if table_of mm pgdir (page va div 1024) = 0 then tl bs else bs)" "free_list mm1 bs'"
    "\<And>f. kpage f \<Longrightarrow> \<exists>mm2. store32 e (f OR flags) mm1 = Inr mm2 \<and> directory mm2 pgdir (bs' @ xs) \<and> free_list mm2 bs' \<and>
       CR3 mm2 = CR3 mm \<and> PHYSICAL_MEMORY_HEAD mm2 = PHYSICAL_MEMORY_HEAD mm1 \<and>
       table_of mm2 pgdir (page va div 1024) \<noteq> 0 \<and>
       (\<forall>n < 1024 * 1024. space mm2 pgdir n = (if n = page va then Some f else space mm pgdir n))"
proof -
  have "flags \<noteq> 0" using fl(2) by auto
  from get_entry_create [OF D F fl(1) this xs room] obtain t mm1 bs' where
    g: "get_ptable_entry_from_virtual_address va pgdir True flags mm = Inr (entry t (page va mod 1024), mm1)"
    and t: "t \<noteq> 0" "table_of mm1 pgdir (page va div 1024) = t" and D1: "directory mm1 pgdir (bs' @ xs)" and F1: "free_list mm1 bs'"
    and bs': "bs' = (if table_of mm pgdir (page va div 1024) = 0 then tl bs else bs)"
    and sp: "\<And>n. n < 1024 * 1024 \<Longrightarrow> space mm1 pgdir n = space mm pgdir n" and c: "CR3 mm1 = CR3 mm"
    by blast
  have kt: "kpage t" "t \<notin> set bs'" using directoryD(3) [OF D1 index_less(1)] t by auto
  show ?thesis
  proof (rule that [OF g bs' F1])
    fix f assume f: "kpage f"
    let ?mm2 = "mm1\<lparr>phys := (phys mm1)(entry t (page va mod 1024) := f OR flags)\<rparr>"
    have "store32 (entry t (page va mod 1024)) (f OR flags) mm1 = Inr ?mm2" using kt(1) index_less(2) by simp
    moreover have "table_of ?mm2 pgdir (page va div 1024) \<noteq> 0"
      using table_of_upd_table [OF D1 t(2) index_less(1) t(1) index_less(2) index_less(1)] t by simp
    moreover note directory_set_entry [OF D1 t(2) index_less(1) t(1) index_less(2)] free_list_set_entry [OF F1 kt index_less(2)]
      space_set_entry [OF D1 t(2,1) f fl] sp c
    ultimately show "\<exists>mm2. store32 (entry t (page va mod 1024)) (f OR flags) mm1 = Inr mm2 \<and> directory mm2 pgdir (bs' @ xs) \<and>
       free_list mm2 bs' \<and> CR3 mm2 = CR3 mm \<and> PHYSICAL_MEMORY_HEAD mm2 = PHYSICAL_MEMORY_HEAD mm1 \<and>
       table_of mm2 pgdir (page va div 1024) \<noteq> 0 \<and>
       (\<forall>n < 1024 * 1024. space mm2 pgdir n = (if n = page va then Some f else space mm pgdir n))"
      by (intro exI [of _ ?mm2]) simp
  qed
qed

lemma directory_head: "directory mm pgdir bs \<Longrightarrow> directory (mm\<lparr>PHYSICAL_MEMORY_HEAD := h\<rparr>) pgdir bs"
  by (erule directory_cong) (simp_all add: table_of_def)

lemma space_head [simp]: "space (mm\<lparr>PHYSICAL_MEMORY_HEAD := h\<rparr>) pgdir n = space mm pgdir n"
  by (simp add: space_def table_of_def)

lemma map_page_ok:
  assumes D: "directory mm pgdir (bs @ xs)" and F: "free_list mm bs" and fl: "flags < 0x1000" "bit flags 0"
    and xs: "set bs \<inter> set xs = {}" and len: "2 \<le> length bs"
  obtains f bs' mm' where
    "map_page_from_virtual_address pgdir va flags mm = Inr mm'" "f \<in> set bs" "f \<notin> set bs'"
    "\<exists>m \<le> 2. bs' = drop m bs" "directory mm' pgdir (bs' @ f # xs)" "free_list mm' bs'" "CR3 mm' = CR3 mm"
    "\<And>n. n < 1024 * 1024 \<Longrightarrow> space mm' pgdir n = (if n = page va then Some f else space mm pgdir n)"
proof (rule map_frame [OF D F fl xs, of va])
  show "bs \<noteq> []" using len by auto
next
  fix e mm1 cs
  assume g: "get_ptable_entry_from_virtual_address va pgdir True flags mm = Inr (e, mm1)"
    and cs: "cs = (if table_of mm pgdir (page va div 1024) = 0 then tl bs else bs)" and F1: "free_list mm1 cs"
    and st: "\<And>f. kpage f \<Longrightarrow> \<exists>mm2. store32 e (f OR flags) mm1 = Inr mm2 \<and> directory mm2 pgdir (cs @ xs) \<and> free_list mm2 cs \<and>
       CR3 mm2 = CR3 mm \<and> PHYSICAL_MEMORY_HEAD mm2 = PHYSICAL_MEMORY_HEAD mm1 \<and> table_of mm2 pgdir (page va div 1024) \<noteq> 0 \<and>
       (\<forall>n < 1024 * 1024. space mm2 pgdir n = (if n = page va then Some f else space mm pgdir n))"
  from len obtain b1 b2 ds where bs: "bs = b1 # b2 # ds" by (cases bs; cases "tl bs") auto
  let ?m = "if table_of mm pgdir (page va div 1024) = 0 then 2 else 1 :: nat"
  obtain f where f: "cs = f # drop ?m bs" "f \<in> set bs"
    using cs bs by (cases "table_of mm pgdir (page va div 1024) = 0") auto
  define bs' where "bs' = drop ?m bs"
  have f': "cs = f # bs'" "\<exists>m \<le> 2. bs' = drop m bs" using f(1) unfolding bs'_def by (auto intro!: exI [of _ ?m])
  have kf: "kpage f" using free_list_kpage [OF F f(2)] .
  from st [OF kf] obtain mm2 where 2: "store32 e (f OR flags) mm1 = Inr mm2" "directory mm2 pgdir (cs @ xs)" "free_list mm2 cs"
    "CR3 mm2 = CR3 mm" "PHYSICAL_MEMORY_HEAD mm2 = PHYSICAL_MEMORY_HEAD mm1"
    and sp: "\<And>n. n < 1024 * 1024 \<Longrightarrow> space mm2 pgdir n = (if n = page va then Some f else space mm pgdir n)" by blast
  have h: "PHYSICAL_MEMORY_HEAD mm1 = f" "f \<notin> set bs'" using F1 f'(1) by (auto simp: free_list_def)
  have F': "free_list (mm2\<lparr>PHYSICAL_MEMORY_HEAD := phys mm2 f\<rparr>) bs'" using allocate_block [of mm2 f bs'] 2(3) f'(1) by simp
  have D': "directory (mm2\<lparr>PHYSICAL_MEMORY_HEAD := phys mm2 f\<rparr>) pgdir (bs' @ f # xs)"
    using 2(2) f'(1) by (intro directory_head) (auto elim: directory_cong)
  show ?thesis
    using g 2 h kf sp frame_idem [OF kf]
    by (intro that [OF _ f(2) h(2) f'(2) D' F']) (simp_all add: map_page_from_virtual_address_def)
qed

lemma translate_mapped:
  assumes "directory mm pgdir bs" "space mm pgdir (page va) = Some f"
  shows "get_physical_address_from_virtual_address va pgdir mm = Inr (f + (va AND 0xFFF), mm)"
proof -
  let ?t = "table_of mm pgdir (page va div 1024)"
  have t: "?t \<noteq> 0" and f: "f = frame_of (phys mm (entry ?t (page va mod 1024)))"
    using assms(2) by (auto simp: space_def Let_def split: if_splits)
  have "kpage ?t" using directoryD(3) [OF assms(1) index_less(1) t] by simp
  then show ?thesis
    using get_entry_present(1) [OF assms(1) HOL.refl t, of 0] index_less(2) [of va] f
    by (simp add: get_physical_address_from_virtual_address_def)
qed

section \<open>Regions\<close>

lemma page_add:
  assumes "page va + k < 1024 * 1024" shows "page (va + of_nat (4096 * k)) = page va + k"
proof -
  obtain r where "unat va = 4096 * page va + r" "r < 4096"
    using that [of "unat va mod 4096"] by (simp add: page_def)
  with assms have lt: "unat va + 4096 * k < 2 ^ 32" by simp
  then have "unat (of_nat (4096 * k) :: u32) = 4096 * k" unfolding unat_of_nat by simp
  with lt have "unat (va + of_nat (4096 * k)) = unat va + 4096 * k" unfolding unat_word_ariths(1) by simp
  then show ?thesis by (simp add: page_def)
qed

lemma map_region_loop_ok:
  assumes "directory mm pgdir (bs @ xs)" "free_list mm bs" "flags < 0x1000" "bit flags 0"
    "set bs \<inter> set xs = {}" "2 * d \<le> length bs" "k + d = sz div 4096 + 1" "page va + k + d \<le> 1024 * 1024"
  shows "\<exists>mm' bs' fs. map_region_loop pgdir va flags sz (4096 * k) mm = Inr mm' \<and> length fs = d \<and> distinct fs \<and>
    set fs \<subseteq> set bs \<and> (\<exists>m \<le> 2 * d. bs' = drop m bs) \<and> set fs \<inter> set bs' = {} \<and>
    directory mm' pgdir (bs' @ fs @ xs) \<and> free_list mm' bs' \<and> CR3 mm' = CR3 mm \<and>
    (\<forall>n < 1024 * 1024. space mm' pgdir n =
       (if page va + k \<le> n \<and> n < page va + k + d then Some (fs ! (n - (page va + k))) else space mm pgdir n))"
  using assms
proof (induction d arbitrary: mm bs xs k)
  case 0
  then have "k = sz div 4096 + 1" by simp
  then have "\<not> 4096 * k \<le> sz" using div_less_iff_less_mult [of 4096 sz k] by (simp add: mult.commute)
  then have "map_region_loop pgdir va flags sz (4096 * k) mm = Inr mm" by (subst map_region_loop.simps) simp
  with 0 show ?case by - (rule exI [of _ mm], rule exI [of _ bs], rule exI [of _ "[]"], auto)
next
  case (Suc d)
  have pg: "page (va + of_nat (4096 * k)) = page va + k" using Suc.prems(8) by (intro page_add) simp
  have two: "2 \<le> length bs" using Suc.prems(6) by simp
  obtain f bs1 mm1 where
    m: "map_page_from_virtual_address pgdir (va + of_nat (4096 * k)) flags mm = Inr mm1" and f: "f \<in> set bs" "f \<notin> set bs1"
      "\<exists>m \<le> 2. bs1 = drop m bs"
    and D1: "directory mm1 pgdir (bs1 @ f # xs)" and F1: "free_list mm1 bs1" and c: "CR3 mm1 = CR3 mm"
    and sp: "\<And>n. n < 1024 * 1024 \<Longrightarrow> space mm1 pgdir n = (if n = page va + k then Some f else space mm pgdir n)"
    by (rule map_page_ok [OF Suc.prems(1-5) two, of "va + of_nat (4096 * k)", unfolded pg]) (rule that)
  from f(3) obtain m1 where m1: "m1 \<le> 2" "bs1 = drop m1 bs" by blast
  have sub: "set bs1 \<subseteq> set bs" unfolding m1(2) by (rule set_drop_subset)
  have dis: "set bs1 \<inter> set (f # xs) = {}" using f(2) sub Suc.prems(5) by auto
  have l: "2 * d \<le> length bs1" "Suc k + d = sz div 4096 + 1" "page va + Suc k + d \<le> 1024 * 1024"
    using Suc.prems(6-8) m1 by simp_all
  from Suc.IH [OF D1 F1 Suc.prems(3,4) dis l] obtain mm' bs' fs where
    r: "map_region_loop pgdir va flags sz (4096 * Suc k) mm1 = Inr mm'" and fs: "length fs = d" "distinct fs"
      "set fs \<subseteq> set bs1" "\<exists>m \<le> 2 * d. bs' = drop m bs1" "set fs \<inter> set bs' = {}"
    and D': "directory mm' pgdir (bs' @ fs @ f # xs)" and F': "free_list mm' bs'" and c': "CR3 mm' = CR3 mm1"
    and sp': "\<And>n. n < 1024 * 1024 \<Longrightarrow> space mm' pgdir n =
       (if page va + Suc k \<le> n \<and> n < page va + Suc k + d then Some (fs ! (n - (page va + Suc k))) else space mm1 pgdir n)"
    by blast
  from fs(4) obtain m where m': "m \<le> 2 * d" "bs' = drop m bs1" by blast
  then have suffix: "\<exists>m \<le> 2 * Suc d. bs' = drop m bs" using m1 by (intro exI [of _ "m + m1"]) simp
  have sub': "set bs' \<subseteq> set bs1" unfolding m'(2) by (rule set_drop_subset)
  have "k \<le> sz div 4096" using Suc.prems(7) by simp
  then have "4096 * k \<le> sz" using less_eq_div_iff_mult_less_eq [of 4096 k sz] by (simp add: mult.commute)
  then have "map_region_loop pgdir va flags sz (4096 * k) mm = Inr mm'"
    using m r by (subst map_region_loop.simps) (simp add: add.commute)
  moreover have "directory mm' pgdir (bs' @ (f # fs) @ xs)" using D' by (rule directory_cong) auto
  moreover have "space mm' pgdir n = (if page va + k \<le> n \<and> n < page va + k + Suc d
      then Some ((f # fs) ! (n - (page va + k))) else space mm pgdir n)" if "n < 1024 * 1024" for n
    using sp [OF that] sp' [OF that] by (cases "n = page va + k") (auto simp: nth_Cons')
  ultimately show ?case using fs f(1,2) F' c c' suffix sub sub'
    by - (rule exI [of _ mm'], rule exI [of _ bs'], rule exI [of _ "f # fs"], auto)
qed

lemma map_region_ok:
  assumes "directory mm pgdir (bs @ xs)" "free_list mm bs" "flags < 0x1000" "bit flags 0" "set bs \<inter> set xs = {}"
    "2 * (unat sz div 4096 + 1) \<le> length bs" "page va + unat sz div 4096 < 1024 * 1024"
  shows "\<exists>mm' bs' fs. map_region pgdir va flags sz mm = Inr mm' \<and>
    length fs = unat sz div 4096 + 1 \<and> distinct fs \<and> set fs \<subseteq> set bs \<and> set fs \<inter> set bs' = {} \<and>
    directory mm' pgdir (bs' @ fs @ xs) \<and> free_list mm' bs' \<and>
    (\<forall>n < 1024 * 1024. space mm' pgdir n =
       (if page va \<le> n \<and> n \<le> page va + unat sz div 4096 then Some (fs ! (n - page va)) else space mm pgdir n))"
proof -
  have "0 + (unat sz div 4096 + 1) = unat sz div 4096 + 1" "page va + 0 + (unat sz div 4096 + 1) \<le> 1024 * 1024"
    using assms(7) by simp_all
  from map_region_loop_ok [OF assms(1-6) this] obtain mm' bs' fs where
    r: "map_region pgdir va flags sz mm = Inr mm'" "length fs = unat sz div 4096 + 1" "distinct fs" "set fs \<subseteq> set bs"
      "set fs \<inter> set bs' = {}" "directory mm' pgdir (bs' @ fs @ xs)" "free_list mm' bs'"
    and sp: "\<And>n. n < 1024 * 1024 \<Longrightarrow> space mm' pgdir n = (if page va + 0 \<le> n \<and> n < page va + 0 + (unat sz div 4096 + 1)
       then Some (fs ! (n - (page va + 0))) else space mm pgdir n)"
    unfolding map_region_def mult_0_right by blast
  have "space mm' pgdir n = (if page va \<le> n \<and> n \<le> page va + unat sz div 4096 then Some (fs ! (n - page va)) else space mm pgdir n)"
    if "n < 1024 * 1024" for n using sp [OF that] by (simp add: less_Suc_eq_le)
  with r show ?thesis by blast
qed

section \<open>Initialisation\<close>

definition block_address :: "nat \<Rightarrow> u32" where "block_address i = of_nat (0x4000000 + 16384 * i)"

lemma unat_block_address: "i < 12288 \<Longrightarrow> unat (block_address i) = 0x4000000 + 16384 * i"
  unfolding block_address_def unat_of_nat by simp

lemma block_address_inj: "i < 12288 \<Longrightarrow> j < 12288 \<Longrightarrow> block_address i = block_address j \<longleftrightarrow> i = j"
  by (auto simp: word_unat_eq_iff unat_block_address)

lemma kpage_block: "i < 12288 \<Longrightarrow> kpage (block_address i)"
proof -
  assume i: "i < 12288"
  have "0x4000000 + 16384 * i = 4096 * (0x4000 + 4 * i)" by simp
  then have "4096 dvd 0x4000000 + 16384 * i" by (metis dvd_triv_left)
  with i show "kpage (block_address i)" unfolding kpage_unat unat_block_address [OF i] by simp
qed

lemma init_loop_chain:
  assumes "k + d = 12287"
  shows "\<exists>mm'. init_free_list_loop (0x4000000 + 16384 * k) mm = Inr mm' \<and>
    chain (phys mm') (block_address k) (map block_address [k..<12288]) \<and>
    PHYSICAL_MEMORY_HEAD mm' = PHYSICAL_MEMORY_HEAD mm \<and> CR3 mm' = CR3 mm \<and>
    (\<forall>a. a \<notin> block_address ` {k..<12288} \<longrightarrow> phys mm' a = phys mm a)"
  using assms
proof (induction d arbitrary: k mm)
  case 0
  then have k: "k = 12287" by simp
  have s: "store32 (block_address k) 0 mm = Inr (mm\<lparr>phys := (phys mm)(block_address k := 0)\<rparr>)"
    using kpage_block [of k] k by simp
  have "init_free_list_loop (0x4000000 + 16384 * k) mm = store32 (block_address k) 0 mm"
    using k by (subst init_free_list_loop.simps) (simp add: block_address_def)
  with s kpage_block [of k] k show ?case by (simp add: upt_rec [of 12287])
next
  case (Suc d)
  then have k: "k < 12287" by simp
  let ?mm = "mm\<lparr>phys := (phys mm)(block_address k := block_address (Suc k))\<rparr>"
  have "store32 (block_address k) (block_address (Suc k)) mm = Inr ?mm" using kpage_block [of k] k by simp
  then have st: "init_free_list_loop (0x4000000 + 16384 * k) mm = init_free_list_loop (0x4000000 + 16384 * Suc k) ?mm"
    using k by (subst init_free_list_loop.simps) (simp add: block_address_def algebra_simps)
  from Suc.IH [of "Suc k" ?mm] Suc.prems obtain mm' where i:
    "init_free_list_loop (0x4000000 + 16384 * Suc k) ?mm = Inr mm'"
    "chain (phys mm') (block_address (Suc k)) (map block_address [Suc k..<12288])"
    "PHYSICAL_MEMORY_HEAD mm' = PHYSICAL_MEMORY_HEAD mm" "CR3 mm' = CR3 mm"
    and fr: "\<And>a. a \<notin> block_address ` {Suc k..<12288} \<Longrightarrow> phys mm' a = phys ?mm a" by auto
  have "block_address k \<notin> block_address ` {Suc k..<12288}" using k by (auto simp: block_address_inj)
  then have nx: "phys mm' (block_address k) = block_address (Suc k)" by (simp add: fr)
  have u: "[k..<12288] = k # [Suc k..<12288]" using k by (simp add: upt_conv_Cons)
  have "chain (phys mm') (block_address k) (map block_address [k..<12288])"
    unfolding u using nx i(2) kpage_block [of k] k by simp
  moreover have "phys mm' a = phys mm a" if "a \<notin> block_address ` {k..<12288}" for a
  proof -
    have "a \<notin> block_address ` {Suc k..<12288}" "a \<noteq> block_address k" using that k by auto
    then show ?thesis by (simp add: fr)
  qed
  ultimately show ?case using st i by auto
qed

section \<open>Pages of the kernel\<close>

lemma frame_flags7: "kpage b \<Longrightarrow> frame_of (b OR 7) = b" "kpage b \<Longrightarrow> bit (b OR 7) 0"
  using frame_flags [of b 7] bit0_flags [of b 7] by simp_all

text \<open>\<^verbatim>\<open>virtual_malloc(4096)\<close>: one block, mapped at its own address.\<close>

lemma virtual_malloc_page:
  assumes D: "directory mm (CR3 mm) (b # bs @ xs)" and F: "free_list mm (b # bs)"
    and xs: "set (b # bs) \<inter> set xs = {}" and room: "table_of mm (CR3 mm) (page b div 1024) = 0 \<Longrightarrow> bs \<noteq> []"
  obtains mm' bs' where "virtual_malloc 4096 mm = Inr (b, mm')"
    "bs' = (if table_of mm (CR3 mm) (page b div 1024) = 0 then tl bs else bs)"
    "directory mm' (CR3 mm') (bs' @ b # xs)" "free_list mm' bs'" "CR3 mm' = CR3 mm" "table_of mm' (CR3 mm') (page b div 1024) \<noteq> 0"
    "\<And>n. n < 1024 * 1024 \<Longrightarrow> space mm' (CR3 mm') n = (if n = page b then Some b else space mm (CR3 mm) n)"
proof -
  let ?mm = "mm\<lparr>PHYSICAL_MEMORY_HEAD := phys mm b\<rparr>"
  have al: "allocate_physical_memory_address mm = Inr (b, ?mm)" "free_list ?mm bs" using allocate_block [OF F] by blast+
  have kb: "kpage b" "b \<noteq> 0" using free_list_kpage [OF F, of b] by (simp_all add: kpage_nonzero)
  have nb: "b \<notin> set bs" using F by (simp add: free_list_def)
  have D1: "directory ?mm (CR3 mm) (bs @ b # xs)" using D by (intro directory_head) (auto elim: directory_cong)
  have tb: "table_of ?mm (CR3 mm) (page b div 1024) = table_of mm (CR3 mm) (page b div 1024)" by (simp add: table_of_def)
  have dis: "set bs \<inter> set (b # xs) = {}" using xs nb by auto
  show ?thesis
  proof (rule map_frame [OF D1 al(2) _ _ dis, of 7 b])
    show "bs \<noteq> []" if "table_of ?mm (CR3 mm) (page b div 1024) = 0" using room that tb by simp
  next
    fix e mm1 bs'
    assume g: "get_ptable_entry_from_virtual_address b (CR3 mm) True 7 ?mm = Inr (e, mm1)"
      and bs': "bs' = (if table_of ?mm (CR3 mm) (page b div 1024) = 0 then tl bs else bs)"
      and st: "\<And>f. kpage f \<Longrightarrow> \<exists>mm2. store32 e (f OR 7) mm1 = Inr mm2 \<and> directory mm2 (CR3 mm) (bs' @ b # xs) \<and>
        free_list mm2 bs' \<and> CR3 mm2 = CR3 ?mm \<and> PHYSICAL_MEMORY_HEAD mm2 = PHYSICAL_MEMORY_HEAD mm1 \<and>
        table_of mm2 (CR3 mm) (page b div 1024) \<noteq> 0 \<and>
        (\<forall>n < 1024 * 1024. space mm2 (CR3 mm) n = (if n = page b then Some f else space ?mm (CR3 mm) n))"
    from st [OF kb(1)] obtain mm2 where 2: "store32 e (b OR 7) mm1 = Inr mm2" "directory mm2 (CR3 mm) (bs' @ b # xs)"
      "free_list mm2 bs'" "CR3 mm2 = CR3 mm" "table_of mm2 (CR3 mm) (page b div 1024) \<noteq> 0"
      and sp: "\<And>n. n < 1024 * 1024 \<Longrightarrow> space mm2 (CR3 mm) n = (if n = page b then Some b else space mm (CR3 mm) n)" by auto
    have fin: "virtual_malloc_loop 4096 1 b mm2 = Inr (b, mm2)" by (subst virtual_malloc_loop.simps) simp
    have "virtual_malloc 4096 mm = Inr (b, mm2)"
      unfolding virtual_malloc_def using al(1) kb g 2(1) fin frame_idem [OF kb(1)]
      by (subst virtual_malloc_loop.simps) simp
    then show ?thesis using that 2 sp bs' tb by simp
  qed simp_all
qed

text \<open>\<^verbatim>\<open>virtual_free(b, 4096)\<close>: the frame of a mapped page goes back to the list.\<close>

lemma virtual_free_page:
  assumes D: "directory mm (CR3 mm) (bs @ b # xs)" and F: "free_list mm bs" and b: "kpage b" "b \<notin> set bs" "b \<notin> set xs"
    and sp: "space mm (CR3 mm) (page va) = Some b"
  obtains mm' where "virtual_free va 4096 mm = Inr mm'" "free_list mm' (b # bs)" "CR3 mm' = CR3 mm"
    "directory mm' (CR3 mm') (b # bs @ xs)"
    "\<And>n. n < 1024 * 1024 \<Longrightarrow> space mm' (CR3 mm') n = space mm (CR3 mm) n"
proof -
  let ?p = "CR3 mm" and ?i = "page va div 1024" and ?j = "page va mod 1024"
  let ?t = "table_of mm ?p ?i"
  have t: "?t \<noteq> 0" and f: "frame_of (phys mm (entry ?t ?j)) = b"
    using sp by (auto simp: space_def Let_def split: if_splits)
  have kt: "kpage ?t" "?t \<noteq> ?p" "?t \<noteq> b" "?t \<notin> set bs" "?t \<notin> set xs" using directoryD(3) [OF D index_less(1) t] by auto
  have pg: "kpage ?p" "?p \<noteq> b" using directoryD(1,2) [OF D] by auto
  let ?m1 = "mm\<lparr>phys := (phys mm)(b := PHYSICAL_MEMORY_HEAD mm), PHYSICAL_MEMORY_HEAD := b\<rparr>"
  let ?m2 = "?m1\<lparr>phys := (phys ?m1)(entry ?t ?j := b OR 3)\<rparr>"
  have fr: "free_physical_memory_address b mm = Inr ?m1" using b(1) by (simp add: free_physical_memory_address_def)
  have F1: "free_list ?m1 (b # bs)" using free_block [OF F b(1,2)] fr by auto
  have nb: "entry t k \<noteq> b" if "kpage t" "k < 1024" "t \<noteq> b" for t k using entry_inj [OF that(1) b(1) that(2), of 0] that(3) by auto
  have tab: "table_of ?m1 ?p k = table_of mm ?p k" if "k < 1024" for k
    using nb [OF pg(1) that pg(2)] by (simp add: table_of_def)
  have D1: "directory ?m1 ?p (b # bs @ xs)" using tab by (intro directory_cong [OF D]) auto
  have sp1: "space ?m1 ?p n = space mm ?p n" if "n < 1024 * 1024" for n
  proof -
    have n: "n div 1024 < 1024" "n mod 1024 < 1024" using that by (simp_all add: div_less_iff_less_mult)
    show ?thesis using directoryD(3) [OF D n(1)] nb [OF _ n(2)] by (intro space_cong tab n) auto
  qed
  note st = tab [OF index_less(1)] index_less(1) t index_less(2)
  have g: "get_ptable_entry_from_virtual_address va ?p False 0 mm = Inr (entry ?t ?j, mm)"
    using get_entry_present(1) [OF D HOL.refl t] .
  have fin: "virtual_free_loop 4096 1 (va + 4096) ?m2 = Inr ?m2" by (subst virtual_free_loop.simps) simp
  have "virtual_free va 4096 mm = Inr ?m2"
    unfolding virtual_free_def using g fr f kt(1) index_less(2) fin frame_idem [OF b(1)]
    by (subst virtual_free_loop.simps) simp
  moreover have "free_list ?m2 (b # bs)" using free_list_set_entry [OF F1 kt(1) _ index_less(2)] kt(3,4) by auto
  moreover have "directory ?m2 ?p (b # bs @ xs)" using directory_set_entry [OF D1 st] .
  moreover have "space ?m2 ?p n = space mm ?p n" if "n < 1024 * 1024" for n
    using space_set_entry [OF D1 st(1) t b(1) _ _ that, of 3] sp1 [OF that] sp by simp
  ultimately show ?thesis using that [of ?m2] by simp
qed

end
