(* ===== verification/Mmu_Props.thy ===== *)
theory Mmu_Props
  imports Mmu_Spec
begin

unbundle bit_operations_syntax

text \<open>
  Theorems about physical memory and page tables, from the state the boot code leaves to
  the allocation, mapping and release of pages.
\<close>

section \<open>Memory at boot\<close>

text \<open>The memory before \<^verbatim>\<open>init_free_list\<close>: the list's head is initialised, every page is clear.\<close>

definition boot_memory :: mm_state where
  "boot_memory = \<lparr>phys = (\<lambda>_. 0), PHYSICAL_MEMORY_HEAD = MEMORY_START, next_virtual_address = 0xC0000000, CR3 = 0x1000\<rparr>"

abbreviation all_blocks :: "u32 list" where "all_blocks \<equiv> map block_address [0..<12288]"

lemma distinct_blocks: "distinct all_blocks"
  by (auto simp: distinct_map inj_on_def block_address_inj)

lemma blocks_Cons: "all_blocks = MEMORY_START # map block_address [Suc 0..<12288]"
  by (subst upt_conv_Cons) (simp_all add: block_address_def)

lemma init_free_list_ok:
  assumes "PHYSICAL_MEMORY_HEAD mm = MEMORY_START"
  shows "\<exists>mm'. init_free_list mm = Inr mm' \<and> free_list mm' all_blocks \<and> CR3 mm' = CR3 mm \<and>
    (\<forall>a. a \<notin> set all_blocks \<longrightarrow> phys mm' a = phys mm a)"
proof -
  have b: "block_address 0 = MEMORY_START" by (simp add: block_address_def)
  from init_loop_chain [of 0 12287 mm] obtain mm' where "init_free_list mm = Inr mm'"
    "chain (phys mm') (block_address 0) all_blocks" "PHYSICAL_MEMORY_HEAD mm' = PHYSICAL_MEMORY_HEAD mm"
    "CR3 mm' = CR3 mm" "\<forall>a. a \<notin> block_address ` {0..<12288} \<longrightarrow> phys mm' a = phys mm a"
    unfolding init_free_list_def by auto
  with assms distinct_blocks b show ?thesis by (auto simp: free_list_def)
qed

text \<open>
  C34. \<^verbatim>\<open>init_free_list\<close> ends, and cuts the memory from 64 MB to 256 MB into 12288 blocks, 16 KB
  apart. Each is handed out exactly once, in the order of addresses; the request after the
  last one reads the list's end through the null pointer, and page-faults.
\<close>

theorem all_memory_allocated_once:
  assumes "PHYSICAL_MEMORY_HEAD mm = MEMORY_START"
  shows "\<exists>mm' mm''. init_free_list mm = Inr mm' \<and>
    takes allocate_physical_memory_address 12288 mm' = Inr (map (\<lambda>i. MEMORY_START + 16384 * of_nat i) [0..<12288], mm'') \<and>
    distinct (map (\<lambda>i. MEMORY_START + 16384 * of_nat i) [0..<12288] :: u32 list) \<and>
    allocate_physical_memory_address mm'' = Inl (PageFault mm'')"
proof -
  from init_free_list_ok [OF assms] obtain mm' where i: "init_free_list mm = Inr mm'" "free_list mm' (all_blocks @ [])" by auto
  from blocks.takes_pops [OF i(2)] obtain mm'' where t: "takes allocate_physical_memory_address 12288 mm' = Inr (all_blocks, mm'')"
    "free_list mm'' []" by auto
  have "all_blocks = map (\<lambda>i. MEMORY_START + 16384 * of_nat i) [0..<12288]" by (simp add: block_address_def)
  with i(1) t allocate_exhausted [OF t(2)] distinct_blocks show ?thesis by metis
qed

theorem all_memory_allocated_once_witness:
  "\<exists>mm' mm''. init_free_list boot_memory = Inr mm' \<and> allocate_physical_memory_address mm'' = Inl (PageFault mm'')"
  using all_memory_allocated_once [of boot_memory] by (auto simp: boot_memory_def)

text \<open>After the initialisation the clear page at \<open>0x1000\<close> is an empty directory.\<close>

lemma boot_directory:
  obtains mm where "init_free_list boot_memory = Inr mm" "free_list mm all_blocks" "CR3 mm = 0x1000" "directory mm 0x1000 all_blocks"
    "\<And>n. n < 1024 * 1024 \<Longrightarrow> space mm 0x1000 n = None"
proof -
  have "PHYSICAL_MEMORY_HEAD boot_memory = MEMORY_START" "CR3 boot_memory = 0x1000" "phys boot_memory = (\<lambda>_. 0)"
    by (simp_all add: boot_memory_def)
  with init_free_list_ok obtain mm where mm: "init_free_list boot_memory = Inr mm" "free_list mm all_blocks" "CR3 mm = 0x1000"
    and z: "\<And>a. a \<notin> set all_blocks \<Longrightarrow> phys mm a = 0" by metis
  have k: "kpage 0x1000" by (simp add: kpage_unat)
  have low: "0x1000 \<notin> set all_blocks" by (auto simp: word_unat_eq_iff unat_block_address)
  have t: "table_of mm 0x1000 i = 0" if "i < 1024" for i
  proof -
    have "unat (entry 0x1000 i) < 8192" using kpage_entry(1) [OF k that] that by simp
    then have "entry 0x1000 i \<notin> set all_blocks" by (auto simp: unat_block_address)
    then show ?thesis by (simp add: table_of_def z)
  qed
  then have "directory mm 0x1000 all_blocks" using k low by (simp add: directory_def)
  moreover have "space mm 0x1000 n = None" if "n < 1024 * 1024" for n
    using t [of "n div 1024"] that by (simp add: space_def div_less_iff_less_mult)
  ultimately show ?thesis using that mm by blast
qed

section \<open>Blocks that are given back\<close>

text \<open>
  Blocks that are given back are the next ones handed out, the last one first, and the
  rest of the list is left alone.
\<close>

theorem freed_blocks_come_back:
  assumes "free_list mm bs" "distinct (cs @ bs)" "list_all kpage cs"
  shows "\<exists>mm1 mm2. gives free_physical_memory_address cs mm = Inr mm1 \<and>
    takes allocate_physical_memory_address (length cs) mm1 = Inr (rev cs, mm2) \<and> free_list mm2 bs"
proof -
  from blocks.gives_pushes [OF assms] obtain mm1 where "gives free_physical_memory_address cs mm = Inr mm1" "free_list mm1 (rev cs @ bs)"
    by blast
  with blocks.takes_pops [of mm1 "rev cs" bs] show ?thesis by auto
qed

theorem freed_blocks_come_back_witness:
  "\<exists>mm mm1 mm2. gives free_physical_memory_address [0x2000, 0x3000] mm = Inr mm1 \<and>
    takes allocate_physical_memory_address 2 mm1 = Inr ([0x3000, 0x2000], mm2)"
proof -
  obtain mm where F: "free_list mm all_blocks" by (rule boot_directory)
  have "distinct ([0x2000, 0x3000] @ all_blocks)"
    using distinct_blocks by (auto simp: word_unat_eq_iff unat_block_address)
  moreover have "list_all kpage [0x2000, 0x3000]" by (simp add: kpage_unat)
  moreover have "length [0x2000, 0x3000 :: u32] = 2" "rev [0x2000, 0x3000 :: u32] = [0x3000, 0x2000]" by simp_all
  ultimately show ?thesis using freed_blocks_come_back [OF F, of "[0x2000, 0x3000]"] by metis
qed

section \<open>Mapping a region\<close>

text \<open>
  C15. \<^verbatim>\<open>map_region\<close>, with two free blocks per page at hand, ends and maps the pages of the region
  to blocks taken from the free list, one each, and translates no other page differently. No
  block that is mapped or still free is a page table: a process cannot reach its own tables.
  One page more than \<^verbatim>\<open>size\<close> asks for is mapped when \<^verbatim>\<open>size\<close> is a multiple of the page size.
\<close>

theorem map_region_maps:
  assumes "directory mm pgdir bs" "free_list mm bs" "flags < 0x1000" "bit flags 0"
    "2 * (unat sz div 4096 + 1) \<le> length bs" "page va + unat sz div 4096 < 1024 * 1024"
  shows "\<exists>mm' bs' fs. map_region pgdir va flags sz mm = Inr mm' \<and>
    length fs = unat sz div 4096 + 1 \<and> distinct fs \<and> set fs \<subseteq> set bs \<and> set fs \<inter> set bs' = {} \<and>
    directory mm' pgdir (bs' @ fs) \<and> free_list mm' bs' \<and>
    (\<forall>n < 1024 * 1024. space mm' pgdir n =
       (if page va \<le> n \<and> n \<le> page va + unat sz div 4096 then Some (fs ! (n - page va)) else space mm pgdir n))"
  using map_region_ok [of mm pgdir bs "[]" flags sz va] assms by simp

theorem map_region_maps_witness:
  "\<exists>mm mm' f. init_free_list boot_memory = Inr mm \<and> map_region 0x1000 0x40000000 PAGE_TABLE_USER_RW 8192 mm = Inr mm' \<and>
     space mm 0x1000 0x40001 = None \<and> space mm' 0x1000 0x40001 = Some f"
proof -
  obtain mm where b: "init_free_list boot_memory = Inr mm" and F: "free_list mm all_blocks" and D: "directory mm 0x1000 all_blocks"
    and n: "\<And>n. n < 1024 * 1024 \<Longrightarrow> space mm 0x1000 n = None" by (rule boot_directory) (rule that)
  have p: "page 0x40000000 = 0x40000" by (simp add: page_def)
  from map_region_maps [OF D F, of 7 8192 "0x40000000"] p obtain mm' bs' fs where
    "map_region 0x1000 0x40000000 7 8192 mm = Inr mm'" and
    sp: "\<forall>n < 1024 * 1024. space mm' 0x1000 n = (if page 0x40000000 \<le> n \<and> n \<le> page 0x40000000 + unat (8192 :: u32) div 4096
       then Some (fs ! (n - page 0x40000000)) else space mm 0x1000 n)" by auto
  moreover have "space mm' 0x1000 0x40001 = Some (fs ! 1)" using sp [rule_format, of "0x40001"] by (simp add: p)
  ultimately show ?thesis using b n [of "0x40001"] by auto
qed

section \<open>Pages of the kernel\<close>

text \<open>
  A page that \<^verbatim>\<open>virtual_malloc\<close> returns is the first free block, at its own address, which
  the current directory then translates to itself; \<^verbatim>\<open>virtual_free\<close> puts it back at the head of
  the list. No other page is translated differently.
\<close>

theorem virtual_malloc_free:
  assumes "directory mm (CR3 mm) (b # bs)" "free_list mm (b # bs)" "bs \<noteq> []"
  shows "\<exists>mm1 mm2 bs'. virtual_malloc 4096 mm = Inr (b, mm1) \<and> free_list mm1 bs' \<and>
    get_physical_address_from_virtual_address b (CR3 mm) mm1 = Inr (b, mm1) \<and>
    virtual_free b 4096 mm1 = Inr mm2 \<and> free_list mm2 (b # bs') \<and> directory mm2 (CR3 mm) (b # bs') \<and>
    (\<forall>n < 1024 * 1024. n \<noteq> page b \<longrightarrow> space mm2 (CR3 mm) n = space mm (CR3 mm) n)"
proof -
  have "directory mm (CR3 mm) (b # bs @ [])" using assms(1) by simp
  then show ?thesis
  proof (rule virtual_malloc_page [OF _ assms(2)])
    show "bs \<noteq> []" by (rule assms(3))
  next
    fix mm1 bs'
    assume v: "virtual_malloc 4096 mm = Inr (b, mm1)" and bs': "bs' = (if table_of mm (CR3 mm) (page b div 1024) = 0 then tl bs else bs)"
      and D: "directory mm1 (CR3 mm1) (bs' @ b # [])" and F: "free_list mm1 bs'" and c: "CR3 mm1 = CR3 mm"
      and sp: "\<And>n. n < 1024 * 1024 \<Longrightarrow> space mm1 (CR3 mm1) n = (if n = page b then Some b else space mm (CR3 mm) n)"
    have b: "kpage b" "b \<notin> set bs" using free_list_kpage [OF assms(2), of b] assms(2) by (simp_all add: free_list_def)
    then have nb: "b \<notin> set bs'" using bs' by (cases bs) auto
    have s: "space mm1 (CR3 mm1) (page b) = Some b" using sp [OF page_less] by simp
    have "b AND 0xFFF = (b AND FRAME_MASK) AND 0xFFF" using frame_idem [OF b(1)] by simp
    also have "\<dots> = b AND (FRAME_MASK AND 0xFFF)" by (simp only: and.assoc)
    finally have off: "b AND 0xFFF = 0" by simp
    from virtual_free_page [OF D F b(1) nb _ s] obtain mm2 where "virtual_free b 4096 mm1 = Inr mm2" "free_list mm2 (b # bs')" "CR3 mm2 = CR3 mm1"
      "directory mm2 (CR3 mm2) (b # bs' @ [])" and sp2: "\<And>n. n < 1024 * 1024 \<Longrightarrow> space mm2 (CR3 mm2) n = space mm1 (CR3 mm1) n"
      by auto
    then show ?thesis using v F c translate_mapped [OF D s] off sp by auto
  qed simp_all
qed

theorem virtual_malloc_free_witness:
  "\<exists>mm mm1 mm2. init_free_list boot_memory = Inr mm \<and> virtual_malloc 4096 mm = Inr (MEMORY_START, mm1) \<and>
     virtual_free MEMORY_START 4096 mm1 = Inr mm2"
proof -
  obtain mm where b: "init_free_list boot_memory = Inr mm" and F: "free_list mm all_blocks" and c: "CR3 mm = 0x1000"
    and D: "directory mm 0x1000 all_blocks" by (rule boot_directory) (rule that)
  have "map block_address [Suc 0..<12288] \<noteq> []" by simp
  from virtual_malloc_free [OF _ _ this, of mm MEMORY_START] F D c blocks_Cons b show ?thesis by auto
qed

end
