(* ===== verification/Shm_Props.thy ===== *)
theory Shm_Props
  imports Example Mmu_Props
begin

unbundle bit_operations_syntax

text \<open>
  Shared pages: the page that one process creates under a name is the one that another process,
  with a page directory of its own, acquires under it.
\<close>

text \<open>\<^verbatim>\<open>shm_acquire\<close>'s mapping of the page in the current directory.\<close>

lemma map_shared_page:
  assumes D: "directory mem (CR3 mem) bs" and F: "free_list mem bs" and b: "kpage b" and bs: "bs \<noteq> []"
  shows "\<exists>mem'. map_shared b mem = Inr (b, mem') \<and> CR3 mem' = CR3 mem \<and>
    (\<forall>n < 1024 * 1024. space mem' (CR3 mem) n = (if n = page b then Some b else space mem (CR3 mem) n))"
proof -
  have D': "directory mem (CR3 mem) (bs @ [])" using D by simp
  show ?thesis
  proof (rule map_frame [OF D' F, of 7 b])
    show "bs \<noteq> []" by (rule bs)
  next
    fix e mm1 bs'
    assume g: "get_ptable_entry_from_virtual_address b (CR3 mem) True 7 mem = Inr (e, mm1)"
      and st: "\<And>f. kpage f \<Longrightarrow> \<exists>mm2. store32 e (f OR 7) mm1 = Inr mm2 \<and> directory mm2 (CR3 mem) (bs' @ []) \<and>
        free_list mm2 bs' \<and> CR3 mm2 = CR3 mem \<and> PHYSICAL_MEMORY_HEAD mm2 = PHYSICAL_MEMORY_HEAD mm1 \<and>
        table_of mm2 (CR3 mem) (page b div 1024) \<noteq> 0 \<and>
        (\<forall>n < 1024 * 1024. space mm2 (CR3 mem) n = (if n = page b then Some f else space mem (CR3 mem) n))"
    from st [OF b] g frame_idem [OF b] show ?thesis by (auto simp: map_shared_def)
  qed simp_all
qed

text \<open>The same kernel, with another process's page directory loaded.\<close>

definition in_space :: "u32 \<Rightarrow> sys \<Rightarrow> sys" where
  "in_space pd s = s\<lparr>ker := (ker s)\<lparr>mm := (mm (ker s))\<lparr>CR3 := pd\<rparr>\<rparr>\<rparr>"

lemma directory_CR3 [simp]: "directory (mem\<lparr>CR3 := x\<rparr>) pd bs = directory mem pd bs"
  by (simp add: directory_def table_of_def)

lemma free_list_CR3 [simp]: "free_list (mem\<lparr>CR3 := x\<rparr>) bs = free_list mem bs"
  by (simp add: free_list_def)

text \<open>
  C17. Creating a shared page under a name that is not in use takes the first free block and
  registers it under the name; whoever then acquires the name, given as a string of the same
  characters at any address, with any page directory, gets that address, and the directory
  translates it to the block. The kernel's data stay consistent.
\<close>

theorem shm_create_acquire:
  assumes "sysinv s" "hash_get (hash_head s) k 0 = Some 0" "NUMBER_SHARED_PAGES s < MAX_SHARED_PAGES"
    "length (htable (hash_head s)) < 2 ^ 29"
    "directory (mm (ker s)) (CR3 (mm (ker s))) (b # b' # b'' # bs)" "free_list (mm (ker s)) (b # b' # b'' # bs)"
  shows "\<exists>s1 bs'. shm_create (Some k) s = Inr (b, s1) \<and> sysinv s1 \<and>
    free_list (mm (ker s1)) bs' \<and> directory (mm (ker s1)) (CR3 (mm (ker s))) bs' \<and>
    (\<forall>k' pd. snd k' = snd k \<longrightarrow> directory (mm (ker s1)) pd bs' \<longrightarrow>
       (\<exists>s2. shm_acquire k' (in_space pd s1) = Inr (b, s2) \<and> space (mm (ker s2)) pd (page b) = Some b))"
proof -
  let ?mem = "mm (ker s)"
  have ht: "is_string_table (hash_head s)" using assms(1) by (simp add: sysinv_def devices_ok_def)
  have b: "kpage b" using free_list_kpage [OF assms(6), of b] by simp
  have D: "directory ?mem (CR3 ?mem) (b # (b' # b'' # bs) @ [])" using assms(5) by simp
  show ?thesis
  proof (rule virtual_malloc_page [OF D assms(6)])
    fix mem bs'
    assume v: "virtual_malloc 4096 ?mem = Inr (b, mem)"
      and bs': "bs' = (if table_of ?mem (CR3 ?mem) (page b div 1024) = 0 then tl (b' # b'' # bs) else b' # b'' # bs)"
      and D1: "directory mem (CR3 mem) (bs' @ b # [])" and F1: "free_list mem bs'" and c: "CR3 mem = CR3 ?mem"
    let ?key = "(of_nat (brk (ker s)), snd k)"
    from string_set [OF ht assms(4), of ?key b] obtain h where
      h: "hash_set True ?key b (hash_head s) = Some (0, h)" "is_string_table h" "\<And>x. snd x = snd k \<Longrightarrow> hash_get h x 0 = Some b" by auto
    let ?s1 = "s\<lparr>NUMBER_SHARED_PAGES := NUMBER_SHARED_PAGES s + 1, ker := (ker s)\<lparr>mm := mem, brk := brk (ker s) + 1\<rparr>, hash_head := h\<rparr>"
    have cr: "shm_create (Some k) s = Inr (b, ?s1)"
      using assms(2,3) v h(1) by (simp add: shm_create_def hcall_def mcall_def mem_call_def Let_def)
    have "succeeds (virtual_malloc 4096 ?mem)" using v by (simp add: succeeds_def)
    from shm_create_sound [OF assms(1,4) this, of "Some k"] cr have i: "sysinv ?s1" by auto
    have ne: "bs' \<noteq> []" using bs' by simp
    have "\<exists>s2. shm_acquire k' (in_space pd ?s1) = Inr (b, s2) \<and> space (mm (ker s2)) pd (page b) = Some b"
      if "snd k' = snd k" "directory mem pd bs'" for k' pd
    proof -
      have "directory (mem\<lparr>CR3 := pd\<rparr>) (CR3 (mem\<lparr>CR3 := pd\<rparr>)) bs'" "free_list (mem\<lparr>CR3 := pd\<rparr>) bs'"
        using that(2) F1 by simp_all
      from map_shared_page [OF this b ne] obtain mem' where m: "map_shared b (mem\<lparr>CR3 := pd\<rparr>) = Inr (b, mem')"
        "space mem' pd (page b) = Some b" using page_less [of b] by auto
      then show ?thesis using h(3) [OF that(1)] kpage_nonzero [OF b]
        by (simp add: shm_acquire_def in_space_def hcall_def mcall_def mem_call_def)
    qed
    moreover have "directory mem (CR3 ?mem) bs'" using D1 c by (auto elim: directory_cong)
    ultimately show ?thesis using cr i F1 by (intro exI [of _ ?s1] exI [of _ bs']) simp
  qed simp_all
qed

text \<open>The example, with the memory that \<^verbatim>\<open>init_free_list\<close> leaves.\<close>

theorem shm_create_acquire_witness:
  "\<exists>s s1 s2. sysinv s \<and> shm_create (Some (0x80001000, ''page'')) s = Inr (MEMORY_START, s1) \<and>
     shm_acquire (0x90001000, ''page'') (in_space 0x1000 s1) = Inr (MEMORY_START, s2)"
proof -
  obtain mem where F: "free_list mem all_blocks" and c: "CR3 mem = 0x1000" and D: "directory mem 0x1000 all_blocks"
    by (rule boot_directory) (rule that)
  let ?s = "ex_sys\<lparr>ker := (ker ex_sys)\<lparr>mm := mem\<rparr>\<rparr>"
  have i: "sysinv ?s" using ex_sysinv by (simp add: sysinv_def)
  have "[0..<12288] = 0 # 1 # 2 # [3..<12288]"
    by (subst upt_conv_Cons, simp, subst upt_conv_Cons, simp, subst upt_conv_Cons, simp, simp add: numeral_3_eq_3 numeral_2_eq_2)
  moreover have "block_address 0 = MEMORY_START" by (simp add: block_address_def)
  ultimately obtain b' b'' bs where bl: "all_blocks = MEMORY_START # b' # b'' # bs" by (simp only: list.map)
  have h: "hash_head ?s = snd (hash_init_string True table0)" "NUMBER_SHARED_PAGES ?s = 0" by (simp_all add: ex_sys_def)
  have "hash_get (hash_head ?s) (0x80001000, ''page'') 0 = Some 0"
    unfolding h using init_tables(1) [of table0] strings.get_ok(1) [of "snd (hash_init_string True table0)" "(0x80001000, ''page'')" 0]
    by (simp add: is_string_table_def) (simp add: hash_init_string_def hash_init_fresh habs_fresh)
  moreover have "NUMBER_SHARED_PAGES ?s < MAX_SHARED_PAGES" "length (htable (hash_head ?s)) < 2 ^ 29"
    unfolding h using init_tables(2) [of table0] by simp_all
  moreover have "directory (mm (ker ?s)) (CR3 (mm (ker ?s))) (MEMORY_START # b' # b'' # bs)"
    "free_list (mm (ker ?s)) (MEMORY_START # b' # b'' # bs)" "CR3 (mm (ker ?s)) = 0x1000"
    using F D c unfolding bl by simp_all
  ultimately obtain s1 bs' where "shm_create (Some (0x80001000, ''page'')) ?s = Inr (MEMORY_START, s1)"
    "directory (mm (ker s1)) 0x1000 bs'" "\<forall>k' pd. snd k' = ''page'' \<longrightarrow> directory (mm (ker s1)) pd bs' \<longrightarrow>
       (\<exists>s2. shm_acquire k' (in_space pd s1) = Inr (MEMORY_START, s2) \<and> space (mm (ker s2)) pd (page MEMORY_START) = Some MEMORY_START)"
    using shm_create_acquire [OF i, of "(0x80001000, ''page'')"] by (metis snd_conv)
  with i show ?thesis by (metis snd_conv)
qed

end
