(* ===== verification/Start_Memory.thy ===== *)
theory Start_Memory
  imports Mmu_Props Start_Inv
begin

unbundle bit_operations_syntax

text \<open>
  The page tables of all processes together, and the memory that \<^verbatim>\<open>start\<close> needs: the address
  space of a new process is set up without a fault as long as there are enough free blocks
  that follow one another.
\<close>

section \<open>All directories and tables\<close>

definition is_block :: "u32 \<Rightarrow> bool" where
  "is_block x \<longleftrightarrow> (\<exists>k < 12288. x = block_address k)"

text \<open>
  \<open>D\<close> are the page directories and \<open>T\<close> the page tables, \<open>bs\<close> the free blocks, \<open>kd\<close> is the
  directory of the kernel. The tables of the first 256 MB are there in every directory.
\<close>

definition paging :: "u32 \<Rightarrow> u32 list \<Rightarrow> u32 set \<Rightarrow> u32 set \<Rightarrow> mm_state \<Rightarrow> bool" where
  "paging kd bs D T mem \<longleftrightarrow>
     free_list mem bs \<and> list_all is_block bs \<and> D \<inter> T = {} \<and> (D \<union> T) \<inter> set bs = {} \<and>
     (\<forall>x \<in> D \<union> T. kpage x \<and> (x < MEMORY_START \<or> is_block x)) \<and>
     (\<forall>d \<in> D. \<forall>i < 1024. table_of mem d i \<in> insert 0 T) \<and>
     (\<forall>d \<in> D. \<forall>i < 64. table_of mem d i \<noteq> 0) \<and> kd \<in> D \<and> CR3 mem \<in> D"

lemma pagingD:
  assumes "paging kd bs D T mem"
  shows "free_list mem bs" "list_all is_block bs" "D \<inter> T = {}" "(D \<union> T) \<inter> set bs = {}"
    "\<And>x. x \<in> D \<union> T \<Longrightarrow> kpage x" "\<And>x. x \<in> D \<union> T \<Longrightarrow> x < MEMORY_START \<or> is_block x"
    "\<And>d i. d \<in> D \<Longrightarrow> i < 1024 \<Longrightarrow> table_of mem d i \<noteq> 0 \<Longrightarrow> table_of mem d i \<in> T"
    "\<And>d i. d \<in> D \<Longrightarrow> i < 64 \<Longrightarrow> table_of mem d i \<noteq> 0" "kd \<in> D" "CR3 mem \<in> D"
  using assms unfolding paging_def by blast+

text \<open>Words that belong neither to a directory nor to the list of free blocks.\<close>

definition data_word :: "u32 list \<Rightarrow> u32 set \<Rightarrow> u32 \<Rightarrow> bool" where
  "data_word bs D a \<longleftrightarrow> kmapped a \<and> a \<notin> set bs \<and> (\<forall>d \<in> D. \<not> in_page d a)"

lemma paging_cong:
  assumes p: "paging kd bs D T mem" and c: "CR3 mem' = CR3 mem" "PHYSICAL_MEMORY_HEAD mem' = PHYSICAL_MEMORY_HEAD mem"
    and w: "\<And>b. b \<in> set bs \<Longrightarrow> phys mem' b = phys mem b"
    and t: "\<And>d i. d \<in> D \<Longrightarrow> i < 1024 \<Longrightarrow> table_of mem' d i = table_of mem d i"
  shows "paging kd bs D T mem'"
proof -
  have "free_list mem' bs" using free_list_cong [of bs mem' mem] w c(2) pagingD(1) [OF p] by blast
  then show ?thesis using p c(1) t unfolding paging_def by (simp add: Ball_def)
qed

lemma paging_store:
  assumes p: "paging kd bs D T mem" and a: "data_word bs D a"
  shows "paging kd bs D T (mem\<lparr>phys := (phys mem)(a := v)\<rparr>)"
proof (rule paging_cong [OF p])
  show "phys (mem\<lparr>phys := (phys mem)(a := v)\<rparr>) b = phys mem b" if "b \<in> set bs" for b
    using a that by (auto simp: data_word_def)
  show "table_of (mem\<lparr>phys := (phys mem)(a := v)\<rparr>) d i = table_of mem d i" if "d \<in> D" "i < 1024" for d i
    using a that by (auto simp: data_word_def in_page_def table_of_def)
qed simp_all

lemma table_word:
  assumes p: "paging kd bs D T mem" and t: "t \<in> T" "j < 1024"
  shows "data_word bs D (entry t j)"
proof -
  have k: "kpage t" using pagingD(5) [OF p] t(1) by blast
  have "entry t j \<noteq> b" if "b \<in> set bs" for b
    using entry_inj [OF k free_list_kpage [OF pagingD(1) [OF p] that] t(2), of 0] pagingD(4) [OF p] that t(1) by auto
  moreover have "\<not> in_page d (entry t j)" if "d \<in> D" for d
    using in_page_other [OF k _ t(2), of d] pagingD(3,5) [OF p] that t(1) by auto
  ultimately show ?thesis using kpage_entry(2) [OF k t(2)] by (auto simp: data_word_def)
qed

section \<open>Table entries\<close>

lemma get_present_entry:
  assumes p: "paging kd bs D T mem" and d: "d \<in> D" and t: "table_of mem d (page va div 1024) \<noteq> 0"
  shows "\<exists>e. get_ptable_entry_from_virtual_address va d False flags mem = Inr (e, mem) \<and> data_word bs D e"
proof -
  let ?t = "table_of mem d (page va div 1024)"
  have "kpage d" using pagingD(5) [OF p] d by blast
  moreover have "?t \<in> T" using pagingD(7) [OF p d index_less(1) t] .
  ultimately show ?thesis using t index_less [of va] table_word [OF p _ index_less(2), of ?t va]
    by (simp add: get_ptable_entry_from_virtual_address_def index_entry table_of_def)
qed

lemma paging_set_flags:
  assumes p: "paging kd bs D T mem" and d: "d \<in> D" "i < 1024" and t: "table_of mem d i \<noteq> 0" and fl: "flags < 0x1000"
  shows "paging kd bs D T (mem\<lparr>phys := (phys mem)(entry d i := table_of mem d i OR flags)\<rparr>)"
proof -
  let ?t = "table_of mem d i"
  have k: "kpage d" "kpage ?t" using pagingD(5) [OF p] pagingD(7) [OF p d t] d(1) by blast+
  show ?thesis
  proof (rule paging_cong [OF p])
    show "phys (mem\<lparr>phys := (phys mem)(entry d i := ?t OR flags)\<rparr>) b = phys mem b" if "b \<in> set bs" for b
      using entry_inj [OF k(1) free_list_kpage [OF pagingD(1) [OF p] that] d(2), of 0] pagingD(4) [OF p] that d(1) by auto
    show "table_of (mem\<lparr>phys := (phys mem)(entry d i := ?t OR flags)\<rparr>) d' j = table_of mem d' j" if "d' \<in> D" "j < 1024" for d' j
      using entry_inj [OF _ k(1) that(2) d(2), of d'] pagingD(5) [OF p, of d'] that(1) frame_flags [OF k(2) fl]
      by (auto simp: table_of_def)
  qed simp_all
qed

lemma paging_new_table:
  assumes p: "paging kd (b # bs) D T mem" and d: "d \<in> D" "i < 1024" and t: "table_of mem d i = 0" and fl: "flags < 0x1000"
    and m: "mem' = mem\<lparr>PHYSICAL_MEMORY_HEAD := phys mem b, phys := (\<lambda>a. if in_page b a then 0 else phys mem a)(entry d i := b OR flags)\<rparr>"
  shows "paging kd bs D (insert b T) mem'"
proof -
  note P = pagingD [OF p]
  have kb: "kpage b" "b \<notin> set bs" "is_block b" "b \<notin> D" "b \<notin> T"
    using free_list_kpage [OF P(1), of b] P(1,2,4) by (auto simp: free_list_def)
  have kd: "kpage d'" if "d' \<in> D" for d' using P(5) that by blast
  have "free_list (mem\<lparr>PHYSICAL_MEMORY_HEAD := phys mem b\<rparr>) bs" using allocate_block [OF P(1)] by blast
  moreover have "phys mem' c = phys mem c" if "c \<in> set bs" for c
  proof -
    have c: "kpage c" "c \<noteq> b" "c \<noteq> d" using free_list_kpage [OF P(1), of c] that kb(2) P(4) d(1) by auto
    then show ?thesis using entry_inj [OF c(1) kd [OF d(1)] _ d(2), of 0] in_page_base [OF c(1) kb(1)] by (auto simp: m)
  qed
  ultimately have f: "free_list mem' bs" using free_list_cong [of bs mem' "mem\<lparr>PHYSICAL_MEMORY_HEAD := phys mem b\<rparr>"] by (simp add: m)
  have tab: "table_of mem' d' j = (if d' = d \<and> j = i then b else table_of mem d' j)" if "d' \<in> D" "j < 1024" for d' j
    using entry_inj [OF kd [OF that(1)] kd [OF d(1)] that(2) d(2)] in_page_other [OF kd [OF that(1)] kb(1) that(2)] kb(4) that(1)
      frame_flags [OF kb(1) fl] by (auto simp: table_of_def m)
  have "i \<ge> 64" using P(8) [OF d(1)] t by (metis not_le)
  then show ?thesis using f kb P(2-4) P(5,6) P(7,8) P(9,10) tab kpage_nonzero [OF kb(1)] unfolding paging_def
    by (simp add: m) blast
qed

text \<open>\<^verbatim>\<open>get_ptable_entry_from_virtual_address\<close> with \<^verbatim>\<open>create_if_not_present\<close>: at most one block is used.\<close>

lemma get_kept_entry:
  assumes p: "paging kd bs D T mem" and d: "d \<in> D" and fl: "flags < 0x1000" "flags \<noteq> 0"
    and t: "table_of mem d (page va div 1024) \<noteq> 0"
  shows "\<exists>e mem'. get_ptable_entry_from_virtual_address va d True flags mem = Inr (e, mem') \<and>
    paging kd bs D T mem' \<and> data_word bs D e \<and> CR3 mem' = CR3 mem"
proof -
  let ?t = "table_of mem d (page va div 1024)"
  let ?m = "mem\<lparr>phys := (phys mem)(entry d (page va div 1024) := ?t OR flags)\<rparr>"
  have "kpage d" using pagingD(5) [OF p] d by blast
  then have "get_ptable_entry_from_virtual_address va d True flags mem = Inr (entry ?t (page va mod 1024), ?m)"
    using t index_less [of va] fl(2)
    by (simp add: get_ptable_entry_from_virtual_address_def set_table_permission_def index_entry table_of_def Let_def)
  moreover note q = paging_set_flags [OF p d index_less(1) t fl(1)]
  moreover have "data_word bs D (entry ?t (page va mod 1024))"
    using table_word [OF q pagingD(7) [OF p d index_less(1) t] index_less(2)] .
  ultimately show ?thesis by simp
qed

lemma get_created_entry:
  assumes p: "paging kd (b # bs) D T mem" and d: "d \<in> D" and fl: "flags < 0x1000" "flags \<noteq> 0"
  shows "\<exists>e mem' T' bs'. get_ptable_entry_from_virtual_address va d True flags mem = Inr (e, mem') \<and>
    (bs' = bs \<or> bs' = b # bs) \<and> paging kd bs' D T' mem' \<and> data_word bs' D e \<and> CR3 mem' = CR3 mem"
proof (cases "table_of mem d (page va div 1024) = 0")
  case True
  have k: "kpage d" using pagingD(5) [OF p] d by blast
  have b: "kpage b" "b \<noteq> 0" "b AND FRAME_MASK = b"
    using free_list_kpage [OF pagingD(1) [OF p], of b] by (simp_all add: kpage_nonzero frame_idem)
  let ?m = "mem\<lparr>PHYSICAL_MEMORY_HEAD := phys mem b,
     phys := (\<lambda>a. if in_page b a then 0 else phys mem a)(entry d (page va div 1024) := b OR flags)\<rparr>"
  have "get_ptable_entry_from_virtual_address va d True flags mem = Inr (entry b (page va mod 1024), ?m)"
    using k True index_less [of va] allocate_block [OF pagingD(1) [OF p]] b frame_flags [OF b(1) fl(1)]
    by (simp add: get_ptable_entry_from_virtual_address_def set_table_permission_def index_entry table_of_def clear_page Let_def cong: if_cong)
  moreover note q = paging_new_table [OF p d index_less(1) True fl(1) HOL.refl]
  moreover have "data_word bs D (entry b (page va mod 1024))" using table_word [OF q _ index_less(2), of b] by simp
  ultimately show ?thesis
    by - (rule exI [of _ "entry b (page va mod 1024)"], rule exI [of _ ?m], rule exI [of _ "insert b T"], rule exI [of _ bs], simp)
qed (use get_kept_entry [OF p d fl, of va] in blast)

section \<open>Blocks that follow one another\<close>

definition pages :: "int \<Rightarrow> nat" where "pages sz = nat ((sz + 4095) div 4096)"

lemma pages_less: "int k * 4096 < sz \<longleftrightarrow> k < pages sz"
  unfolding pages_def zless_nat_eq_int_zless by linarith

lemma pages_bound: "0 \<le> sz \<Longrightarrow> sz \<le> 4096 * int (pages sz)"
  using pages_less [of "pages sz" sz] by (simp add: mult.commute)

text \<open>The block numbers of a run of adjacent blocks.\<close>

definition block_run :: "nat \<Rightarrow> nat \<Rightarrow> u32 list" where
  "block_run k n = map block_address [k..<k + n]"

lemma block_run_simps [simp]: "block_run k 0 = []" "length (block_run k n) = n"
  by (simp_all add: block_run_def)

lemma block_run_Suc: "block_run k (Suc n) = block_address k # block_run (Suc k) n"
  by (simp add: block_run_def upt_conv_Cons del: upt_Suc)

lemma block_run_append: "block_run k (m + n) = block_run k m @ block_run (k + m) n"
  by (simp add: block_run_def upt_add_eq_append [of k "k + m" n] add.assoc [symmetric])

lemma page_block: "k < 12288 \<Longrightarrow> page (block_address k) div 1024 < 64"
proof -
  assume "k < 12288"
  then have "unat (block_address k) < 64 * 4194304" unfolding unat_block_address [OF \<open>k < 12288\<close>] by linarith
  then have "unat (block_address k) div 4194304 < 64" by (rule less_mult_imp_div_less)
  then show "page (block_address k) div 1024 < 64" by (simp add: page_def div_mult2_eq [symmetric])
qed

lemma virtual_malloc_loop_ok:
  assumes "paging kd (block_run k d @ bs) D T mem" "k + d \<le> 12288" "j + d = pages sz"
  shows "\<exists>mem'. virtual_malloc_loop sz (int j) a mem = Inr (if a = 0 \<and> d > 0 then block_address k else a, mem') \<and>
    paging kd bs D T mem' \<and> CR3 mem' = CR3 mem"
  using assms
proof (induction d arbitrary: k j a mem)
  case 0
  then have "\<not> int j * 4096 < sz" by (simp add: pages_less)
  then show ?case using 0 by (subst virtual_malloc_loop.simps) simp
next
  case (Suc d)
  let ?b = "block_address k" and ?bs = "block_run (Suc k) d @ bs"
  have p: "paging kd (?b # ?bs) D T mem" using Suc.prems(1) by (simp add: block_run_Suc)
  let ?m = "mem\<lparr>PHYSICAL_MEMORY_HEAD := phys mem ?b\<rparr>"
  have al: "allocate_physical_memory_address mem = Inr (?b, ?m)" "free_list ?m ?bs" using allocate_block [OF pagingD(1) [OF p]] by blast+
  have kb: "kpage ?b" using Suc.prems(2) by (intro kpage_block) simp
  have p1: "paging kd ?bs D T ?m" using p al(2) unfolding paging_def by (simp add: table_of_def)
  have "table_of ?m (CR3 ?m) (page ?b div 1024) \<noteq> 0" using pagingD(8,10) [OF p1] page_block [of k] Suc.prems(2) by simp
  from get_kept_entry [OF p1 pagingD(10) [OF p1] _ _ this, of 7] obtain e m1 where
    g: "get_ptable_entry_from_virtual_address ?b (CR3 mem) True 7 ?m = Inr (e, m1)" and p2: "paging kd ?bs D T m1" "data_word ?bs D e"
    "CR3 m1 = CR3 mem" by auto
  let ?m2 = "m1\<lparr>phys := (phys m1)(e := ?b OR 7)\<rparr>"
  have st: "store32 e (?b OR 7) m1 = Inr ?m2" using p2(2) by (simp add: store32_def data_word_def)
  have lt: "int j * 4096 < sz" using Suc.prems(3) by (simp add: pages_less)
  let ?a = "if a = 0 then ?b else a"
  have step: "virtual_malloc_loop sz (int j) a mem = virtual_malloc_loop sz (int (Suc j)) ?a ?m2"
    using lt al(1) g st kpage_nonzero [OF kb] frame_idem [OF kb] by (subst virtual_malloc_loop.simps) (simp add: add.commute)
  have nz: "?a \<noteq> 0" using kpage_nonzero [OF kb] by simp
  from Suc.IH [OF paging_store [OF p2(1,2)], of "Suc j" ?a "?b OR 7"] Suc.prems(2,3) obtain m3 where
    "virtual_malloc_loop sz (int (Suc j)) ?a ?m2 = Inr (?a, m3)" "paging kd bs D T m3" "CR3 m3 = CR3 ?m2" using nz by auto
  then show ?case using step p2(3) by auto
qed

lemma virtual_malloc_ok:
  assumes "paging kd (block_run k (pages sz) @ bs) D T mem" "k + pages sz \<le> 12288" "0 < sz"
  shows "\<exists>mem'. virtual_malloc sz mem = Inr (block_address k, mem') \<and> paging kd bs D T mem' \<and> CR3 mem' = CR3 mem"
proof -
  have "0 < pages sz" using assms(3) pages_less [of 0 sz] by simp
  then show ?thesis using virtual_malloc_loop_ok [OF assms(1,2), of 0 sz 0] by (simp add: virtual_malloc_def)
qed

section \<open>A new directory\<close>

lemma copy_words_ok:
  assumes "kpage b" "kpage kd" "b \<noteq> kd" "k + n \<le> 1024"
  shows "\<exists>mem'. copy_words n (entry b k) (entry kd k) mem = Inr mem' \<and> CR3 mem' = CR3 mem \<and>
    PHYSICAL_MEMORY_HEAD mem' = PHYSICAL_MEMORY_HEAD mem \<and> (\<forall>a. \<not> in_page b a \<longrightarrow> phys mem' a = phys mem a) \<and>
    (\<forall>i < 1024. phys mem' (entry b i) = (if k \<le> i \<and> i < k + n then phys mem (entry kd i) else phys mem (entry b i)))"
  using assms(4)
proof (induction n arbitrary: k mem)
  case (Suc n)
  let ?m = "mem\<lparr>phys := (phys mem)(entry b k := phys mem (entry kd k))\<rparr>"
  have st: "copy_words (Suc n) (entry b k) (entry kd k) mem = copy_words n (entry b (Suc k)) (entry kd (Suc k)) ?m"
    using assms(1,2) Suc.prems by (simp add: entry_Suc)
  have e: "entry b i = entry b k \<longleftrightarrow> i = k" "entry kd i \<noteq> entry b k" if "i < 1024" for i
    using entry_inj [OF assms(1,1) that, of k] entry_inj [OF assms(2,1) that, of k] assms(3) Suc.prems by simp_all
  have o: "\<not> in_page b a \<Longrightarrow> a \<noteq> entry b k" for a using Suc.prems by auto
  from Suc.IH [of "Suc k" ?m] Suc.prems obtain mem' where "copy_words n (entry b (Suc k)) (entry kd (Suc k)) ?m = Inr mem'"
    "CR3 mem' = CR3 mem" "PHYSICAL_MEMORY_HEAD mem' = PHYSICAL_MEMORY_HEAD mem" "\<forall>a. \<not> in_page b a \<longrightarrow> phys mem' a = phys ?m a"
    "\<forall>i < 1024. phys mem' (entry b i) = (if Suc k \<le> i \<and> i < Suc k + n then phys ?m (entry kd i) else phys ?m (entry b i))" by auto
  then show ?case using st e o Suc.prems by (intro exI [of _ mem']) (auto simp: not_less_eq_eq le_Suc_eq)
qed auto

lemma fill_new_pgdir_ok:
  assumes p: "paging kd bs D T mem" and b: "kpage b" "is_block b" "b \<notin> D" "b \<notin> T" "b \<notin> set bs"
  shows "\<exists>mem'. fill_new_pgdir b kd mem = Inr mem' \<and> paging kd bs (insert b D) T mem' \<and> CR3 mem' = CR3 mem"
proof -
  note P = pagingD [OF p]
  have k: "kpage kd" "b \<noteq> kd" using P(5,9) b(3) by auto
  from copy_words_ok [OF b(1) k, of 0 64 mem] obtain m1 where m1: "copy_words 64 b kd mem = Inr m1" "CR3 m1 = CR3 mem"
    "PHYSICAL_MEMORY_HEAD m1 = PHYSICAL_MEMORY_HEAD mem" and o: "\<And>a. \<not> in_page b a \<Longrightarrow> phys m1 a = phys mem a"
    and w: "\<And>i. i < 64 \<Longrightarrow> phys m1 (entry b i) = phys mem (entry kd i)" by auto
  have e: "b + 4 * 64 = entry b 64" by (simp add: entry_def)
  define m2 where m2: "m2 = m1\<lparr>phys := \<lambda>a. if \<exists>i. 64 \<le> i \<and> i < 64 + 960 \<and> a = entry b i then 0 else phys m1 a\<rparr>"
  have c: "clear_words 960 (b + 4 * 64) m1 = Inr m2" unfolding e m2 by (rule clear_words_eq [OF b(1)]) simp
  have out: "phys m2 a = phys mem a" if "\<not> in_page b a" for a
  proof -
    have "\<not> (\<exists>i. 64 \<le> i \<and> i < 64 + 960 \<and> a = entry b i)" using that by (auto simp: in_page_def)
    then show ?thesis using o [OF that] by (auto simp: m2)
  qed
  have tb: "table_of m2 b i = (if i < 64 then table_of mem kd i else 0)" if "i < 1024" for i
  proof (cases "i < 64")
    case True
    then have "\<not> (\<exists>j. 64 \<le> j \<and> j < 64 + 960 \<and> entry b i = entry b j)" using entry_inj [OF b(1) b(1)] by fastforce
    then show ?thesis using True w [OF True] by (auto simp: table_of_def m2)
  next
    case False
    then have "\<exists>j. 64 \<le> j \<and> j < 64 + 960 \<and> entry b i = entry b j" using that by (intro exI [of _ i]) simp
    then show ?thesis using False by (auto simp: table_of_def m2)
  qed
  have td: "table_of m2 d i = table_of mem d i" if "d \<in> D" "i < 1024" for d i
    using out [of "entry d i"] in_page_other [OF P(5) b(1) that(2), of d] that(1) b(3) by (auto simp: table_of_def)
  have "free_list m2 bs"
  proof -
    have "phys m2 c = phys mem c" if "c \<in> set bs" for c
      using out [of c] in_page_base [OF free_list_kpage [OF P(1) that] b(1)] that b(5) by auto
    then show ?thesis using free_list_cong [of bs m2 mem] P(1) m1(3) by (simp add: m2)
  qed
  moreover have "\<forall>d \<in> insert b D. \<forall>i < 1024. table_of m2 d i \<in> insert 0 T"
    using tb td P(7) P(9) by (metis insert_iff)
  moreover have "\<forall>d \<in> insert b D. \<forall>i < 64. table_of m2 d i \<noteq> 0"
    using tb td P(8) P(9) by (auto simp del: not_less)
  ultimately have "paging kd bs (insert b D) T m2" using P(2-6,9,10) b m1(2) unfolding paging_def by (auto simp: m2)
  then show ?thesis using m1 c by (simp add: fill_new_pgdir_def m2)
qed

section \<open>Data\<close>

text \<open>The word that a byte lies in.\<close>

abbreviation word_of_byte :: "u32 \<Rightarrow> u32" where "word_of_byte a \<equiv> a AND 0xFFFFFFFC"

lemma unat_word_of_byte: "unat (word_of_byte a) = unat a div 4 * 4"
proof -
  have m: "(0xFFFFFFFC :: u32) = NOT (mask 2)" by (simp add: mask_eq_exp_minus_1)
  have "\<And>n :: nat. 2 \<le> n \<Longrightarrow> Suc (Suc (n - 2)) = n" by simp
  then have "word_of_byte a = push_bit 2 (drop_bit 2 a)" unfolding m by (auto intro!: bit_word_eqI simp: bit_simps not_less)
  moreover have "unat a div 4 * 4 < 2 ^ 32"
    using unsigned_less [of a, where 'a = nat] div_times_less_eq_dividend [of "unat a" 4] by simp
  ultimately show ?thesis
    by (simp add: push_bit_eq_mult unat_word_ariths unat_drop_bit_eq drop_bit_eq_div [where 'a = nat])
qed

lemma kmapped_byte: "4096 \<le> unat a \<Longrightarrow> unat a < 2 ^ 28 \<Longrightarrow> kmapped (word_of_byte a)"
proof -
  assume "4096 \<le> unat a" "unat a < 2 ^ 28"
  moreover have "unat a div 4 * 4 \<le> unat a" by simp
  moreover have "4096 div 4 * 4 \<le> unat a div 4 * 4" using \<open>4096 \<le> unat a\<close> by (intro mult_le_mono1 div_le_mono)
  ultimately show "kmapped (word_of_byte a)" unfolding kmapped_def word_le_nat_alt word_less_nat_alt unat_word_of_byte by simp
qed

text \<open>The bytes of a run of blocks that belong to nobody else are data.\<close>

lemma block_in_run:
  assumes "is_block x" "k + n \<le> 12288" "unat (block_address k) \<le> unat w" "unat w < unat (block_address k) + 16384 * n"
    "unat x \<le> unat w" "unat w < unat x + 4096" "0 < n"
  shows "x \<in> set (block_run k n)"
proof -
  from assms(1) obtain j where j: "j < 12288" "x = block_address j" by (auto simp: is_block_def)
  have u: "unat (block_address k) = 0x4000000 + 16384 * k" using assms(2,7) by (intro unat_block_address) simp
  have "16384 * k < 16384 * j + 4096" "16384 * j < 16384 * k + 16384 * n"
    using assms(3-6) unfolding u j(2) unat_block_address [OF j(1)] by linarith+
  then have "k \<le> j" "j < k + n" by linarith+
  then show ?thesis by (auto simp: block_run_def j(2))
qed

lemma data_region:
  assumes p: "paging kd bs D T mem" and x: "set (block_run k n) \<inter> (D \<union> set bs) = {}" and n: "k + n \<le> 12288"
    and a: "unat (block_address k) \<le> unat a" "unat a < unat (block_address k) + 16384 * n"
  shows "data_word bs D (word_of_byte a)"
proof -
  note P = pagingD [OF p]
  let ?w = "word_of_byte a"
  have n0: "0 < n" using a by (cases n) simp_all
  have u: "unat (block_address k) = 0x4000000 + 16384 * k" using n n0 by (intro unat_block_address) simp
  have w: "unat ?w \<le> unat a" "unat (block_address k) \<le> unat ?w"
  proof -
    show "unat ?w \<le> unat a" unfolding unat_word_of_byte by simp
    have "unat (block_address k) div 4 * 4 \<le> unat ?w" unfolding unat_word_of_byte by (intro mult_le_mono1 div_le_mono a(1))
    moreover have "unat (block_address k) = (0x1000000 + 4096 * k) * 4" using u by simp
    then have "unat (block_address k) div 4 * 4 = unat (block_address k)" by (metis nonzero_mult_div_cancel_right zero_neq_numeral)
    ultimately show "unat (block_address k) \<le> unat ?w" by simp
  qed
  have w2: "unat ?w < unat (block_address k) + 16384 * n" using w(1) a(2) by simp
  have "unat ?w < 0x10000000" "0x4000000 \<le> unat ?w" using w w2 n unfolding u by linarith+
  then have "kmapped ?w" unfolding kmapped_def word_le_nat_alt word_less_nat_alt by simp
  moreover have "?w \<notin> set bs"
  proof
    assume i: "?w \<in> set bs"
    then have "is_block ?w" using P(2) by (simp add: list_all_iff)
    from block_in_run [OF this n w(2) w2 order_refl _ n0] i x show False by auto
  qed
  moreover have "\<not> in_page d ?w" if d: "d \<in> D" for d
  proof
    assume "in_page d ?w"
    then obtain i where i: "i < 1024" "?w = entry d i" by (auto simp: in_page_def)
    have kd: "kpage d" using P(5) d by blast
    have e: "unat ?w = unat d + 4 * i" unfolding i(2) using kpage_entry(1) [OF kd i(1)] .
    have "\<not> d < MEMORY_START"
    proof
      assume "d < MEMORY_START"
      then have lt: "unat d < 0x4000000" by (simp add: word_less_nat_alt)
      from kd obtain q where q: "unat d = 4096 * q" by (auto simp: kpage_unat)
      have "q < 0x4000" using lt q by simp
      then have "unat d + 4096 \<le> 0x4000000" using q by simp
      then show False using e i(1) w(2) u by simp
    qed
    then have "is_block d" using P(6) d by blast
    from block_in_run [OF this n w(2) w2 _ _ n0] e i(1) d x show False by auto
  qed
  ultimately show ?thesis by (simp add: data_word_def)
qed

lemma store8_ok:
  assumes p: "paging kd bs D T mem" and a: "data_word bs D (word_of_byte a)"
  shows "\<exists>mem'. store8 a v mem = Inr mem' \<and> paging kd bs D T mem' \<and> CR3 mem' = CR3 mem"
  using paging_store [OF p a] a by (simp add: store8_def load32_def store32_def data_word_def)

lemma copy_bytes_ok:
  assumes "paging kd bs D T mem"
    "\<And>i. i < n \<Longrightarrow> data_word bs D (word_of_byte (dst + of_nat i))" "\<And>i. i < n \<Longrightarrow> kmapped (word_of_byte (src + of_nat i))"
  shows "\<exists>mem'. copy_bytes n dst src mem = Inr mem' \<and> paging kd bs D T mem' \<and> CR3 mem' = CR3 mem"
  using assms
proof (induction n arbitrary: dst src mem)
  case (Suc n)
  have "\<exists>v. load8 src mem = Inr v" using Suc.prems(3) [of 0] by (simp add: load8_def load32_def)
  then obtain v where v: "load8 src mem = Inr v" ..
  from store8_ok [OF Suc.prems(1), of dst v] Suc.prems(2) [of 0] obtain m1 where
    m1: "store8 dst v mem = Inr m1" "paging kd bs D T m1" "CR3 m1 = CR3 mem" by auto
  have "data_word bs D (word_of_byte (dst + 1 + of_nat i))" "kmapped (word_of_byte (src + 1 + of_nat i))" if "i < n" for i
    using Suc.prems(2,3) [of "Suc i"] that by (simp_all add: add.assoc)
  from Suc.IH [OF m1(2) this] v m1 show ?case by auto
qed simp

lemma store32u_ok:
  assumes p: "paging kd bs D T mem" and a: "\<And>i. i < 4 \<Longrightarrow> data_word bs D (word_of_byte (a + of_nat i))"
  shows "\<exists>mem'. store32u a v mem = Inr mem' \<and> paging kd bs D T mem' \<and> CR3 mem' = CR3 mem"
proof -
  have d: "data_word bs D (word_of_byte a)" "data_word bs D (word_of_byte (a + 1))" "data_word bs D (word_of_byte (a + 2))"
    "data_word bs D (word_of_byte (a + 3))" using a [of 0] a [of 1] a [of 2] a [of 3] by simp_all
  from store8_ok [OF p d(1)] obtain m1 where m1: "store8 a v mem = Inr m1" "paging kd bs D T m1" "CR3 m1 = CR3 mem" by blast
  from store8_ok [OF m1(2) d(2)] obtain m2 where m2: "store8 (a + 1) (drop_bit 8 v) m1 = Inr m2" "paging kd bs D T m2" "CR3 m2 = CR3 m1" by blast
  from store8_ok [OF m2(2) d(3)] obtain m3 where m3: "store8 (a + 2) (drop_bit 16 v) m2 = Inr m3" "paging kd bs D T m3" "CR3 m3 = CR3 m2" by blast
  from store8_ok [OF m3(2) d(4)] obtain m4 where "store8 (a + 3) (drop_bit 24 v) m3 = Inr m4" "paging kd bs D T m4" "CR3 m4 = CR3 m3" by blast
  with m1 m2 m3 show ?thesis by (simp add: store32u_def)
qed

section \<open>Copying translations\<close>

lemma kernel_table: "paging kd bs D T mem \<Longrightarrow> d \<in> D \<Longrightarrow> unat va < 0x10000000 \<Longrightarrow> table_of mem d (page va div 1024) \<noteq> 0"
proof -
  assume p: "paging kd bs D T mem" "d \<in> D" and "unat va < 0x10000000"
  then have "unat va < 64 * 4194304" by simp
  then have "unat va div 4194304 < 64" by (rule less_mult_imp_div_less)
  then have "page va div 1024 < 64" by (simp add: page_def div_mult2_eq [symmetric])
  with pagingD(8) [OF p] show ?thesis by blast
qed

lemma pgdir_copy_loop_ok:
  assumes "paging kd bs D T mem" "d \<in> D" "r \<le> length bs" "j + r = pages sz"
    "\<And>i. i < pages sz \<Longrightarrow> unat (sa + 4096 * of_nat i) < 0x10000000"
  shows "\<exists>mem' cs bs' T'. pgdir_copy_loop kd d sa da sz (int j) mem = Inr mem' \<and> bs = cs @ bs' \<and> length cs \<le> r \<and>
    paging kd bs' D T' mem' \<and> CR3 mem' = CR3 mem"
  using assms(1,3,4)
proof (induction r arbitrary: j bs T mem)
  case 0
  then have "\<not> int j * 4096 < sz" by (simp add: pages_less)
  then show ?case using 0 by (subst pgdir_copy_loop.simps) auto
next
  case (Suc r)
  then obtain b cs where bs: "bs = b # cs" by (cases bs) auto
  have j: "j < pages sz" using Suc.prems(3) by simp
  let ?sa = "sa + 4096 * of_nat j" and ?da = "da + 4096 * of_nat j"
  from get_present_entry [OF Suc.prems(1) pagingD(9) [OF Suc.prems(1)] kernel_table [OF Suc.prems(1) pagingD(9) [OF Suc.prems(1)] assms(5) [OF j]], of 0]
  obtain e where e: "get_ptable_entry_from_virtual_address ?sa kd False 0 mem = Inr (e, mem)" "data_word bs D e" by blast
  from get_created_entry [OF Suc.prems(1) [unfolded bs] assms(2), of 7 ?da] obtain e' m1 T1 bs1 where
    g: "get_ptable_entry_from_virtual_address ?da d True 7 mem = Inr (e', m1)" and
    p1: "bs1 = cs \<or> bs1 = b # cs" "paging kd bs1 D T1 m1" "data_word bs1 D e'" "CR3 m1 = CR3 mem" by auto
  let ?v = "(phys m1 e AND FRAME_MASK) OR 7"
  let ?m2 = "m1\<lparr>phys := (phys m1)(e' := ?v)\<rparr>"
  have step: "pgdir_copy_loop kd d sa da sz (int j) mem = pgdir_copy_loop kd d sa da sz (int (Suc j)) ?m2"
    using j e g p1(3) pages_less [of j sz]
    by (subst pgdir_copy_loop.simps) (simp add: load32_def store32_def data_word_def add.commute)
  have "r \<le> length bs1" "Suc j + r = pages sz" using p1(1) bs Suc.prems(2,3) by auto
  from Suc.IH [OF paging_store [OF p1(2,3)] this, of ?v] obtain mem' cs' bs' T' where r:
    "pgdir_copy_loop kd d sa da sz (int (Suc j)) ?m2 = Inr mem'" "bs1 = cs' @ bs'" "length cs' \<le> r" "paging kd bs' D T' mem'"
    "CR3 mem' = CR3 ?m2" by blast
  have "bs = (if bs1 = cs then b # cs' else cs') @ bs'" "length (if bs1 = cs then b # cs' else cs') \<le> Suc r"
    using r(2,3) p1(1) bs by auto
  then show ?case using step r p1(4)
    by - (rule exI [of _ mem'], rule exI [of _ "if bs1 = cs then b # cs' else cs'"], rule exI [of _ bs'], rule exI [of _ T'], simp)
qed

lemma pgdir_copy_ok:
  assumes "paging kd (block_run k n @ bs) D T mem" "d \<in> D" "pages sz \<le> n"
    "\<And>i. i < pages sz \<Longrightarrow> unat (sa + 4096 * of_nat i) < 0x10000000"
  shows "\<exists>mem' c T'. pgdir_copy kd d sa da sz mem = Inr mem' \<and> c \<le> pages sz \<and>
    paging kd (block_run (k + c) (n - c) @ bs) D T' mem' \<and> CR3 mem' = CR3 mem"
proof -
  from pgdir_copy_loop_ok [OF assms(1,2) _ _ assms(4), of "pages sz" 0 sz da] assms(3) obtain mem' cs bs' T' where
    r: "pgdir_copy kd d sa da sz mem = Inr mem'" "block_run k n @ bs = cs @ bs'" "length cs \<le> pages sz"
    "paging kd bs' D T' mem'" "CR3 mem' = CR3 mem" by (auto simp: pgdir_copy_def)
  have n: "length cs + (n - length cs) = n" using r(3) assms(3) by simp
  have "block_run k n = block_run k (length cs) @ block_run (k + length cs) (n - length cs)"
    using block_run_append [of k "length cs" "n - length cs"] unfolding n .
  with r(2) have "bs' = block_run (k + length cs) (n - length cs) @ bs" by simp
  with r show ?thesis by blast
qed

lemma paging_disjoint: "paging kd (xs @ ys) D T mem \<Longrightarrow> set xs \<inter> (D \<union> set ys) = {}"
  by (auto simp: paging_def free_list_def)

lemma unat_add_small: "unat a + n < 2 ^ 32 \<Longrightarrow> unat (a + of_nat n :: u32) = unat a + n"
  by (simp add: unat_word_ariths unat_of_nat)

section \<open>The address space of a new process\<close>

lemma block_offset: "k < 12288 \<Longrightarrow> n < 0x80000000 \<Longrightarrow> unat (block_address k + of_nat n) = 0x4000000 + 16384 * k + n"
  by (subst unat_add_small) (simp_all add: unat_block_address)

text \<open>The code: its copy, the new directory, and the code's translations from 1 GB on.\<close>

lemma load_code:
  assumes p: "paging kd (block_run k (pages z + Suc (pages z + r)) @ bs) D T mem"
    and k: "k + (pages z + Suc (pages z + r)) \<le> 12288" and z: "0 < z"
    and src: "4096 \<le> unat src" "unat src + nat z \<le> 0x4000000"
  shows "\<exists>m1 m2 m3 m4 m5 c T'. virtual_malloc z mem = Inr (block_address k, m1) \<and>
    allocate_physical_memory_address m1 = Inr (block_address (k + pages z), m2) \<and>
    fill_new_pgdir (block_address (k + pages z)) kd m2 = Inr m3 \<and> copy_bytes (nat z) (block_address k) src m3 = Inr m4 \<and>
    pgdir_copy kd (block_address (k + pages z)) (block_address k) ONE_GIGABYTE z m4 = Inr m5 \<and> c \<le> pages z \<and>
    paging kd (block_run (k + Suc (pages z) + c) (pages z + r - c) @ bs) (insert (block_address (k + pages z)) D) T' m5 \<and>
    CR3 m5 = CR3 mem"
proof -
  let ?N = "pages z" and ?b = "block_address (k + pages z)"
  let ?bs2 = "block_run (k + Suc ?N) (?N + r) @ bs"
  have split: "block_run k (?N + Suc (?N + r)) @ bs = block_run k ?N @ ?b # ?bs2"
    unfolding block_run_append [of k ?N "Suc (?N + r)"] block_run_Suc by simp
  note p0 = p [unfolded split]
  have kN: "k + ?N \<le> 12288" "k + ?N < 12288" "k < 12288" using k by simp_all
  from virtual_malloc_ok [OF p0 kN(1) z] obtain m1 where m1: "virtual_malloc z mem = Inr (block_address k, m1)"
    "paging kd (?b # ?bs2) D T m1" "CR3 m1 = CR3 mem" by blast
  note P1 = pagingD [OF m1(2)]
  let ?m2 = "m1\<lparr>PHYSICAL_MEMORY_HEAD := phys m1 ?b\<rparr>"
  have al: "allocate_physical_memory_address m1 = Inr (?b, ?m2)" "free_list ?m2 ?bs2" using allocate_block [OF P1(1)] by blast+
  have p2: "paging kd ?bs2 D T ?m2" using m1(2) al(2) unfolding paging_def by (simp add: table_of_def)
  have "kpage ?b" "is_block ?b" "?b \<notin> D" "?b \<notin> T" "?b \<notin> set ?bs2"
    using kpage_block [OF kN(2)] kN(2) P1(1,4) by (auto simp: is_block_def free_list_def)
  from fill_new_pgdir_ok [OF p2 this] obtain m3 where m3: "fill_new_pgdir ?b kd ?m2 = Inr m3" "paging kd ?bs2 (insert ?b D) T m3"
    "CR3 m3 = CR3 mem" using m1(3) by auto
  have dis: "set (block_run k ?N) \<inter> (insert ?b D \<union> set ?bs2) = {}" using paging_disjoint [OF p0] by auto
  have len: "nat z \<le> 4096 * ?N" using pages_bound [of z] z by simp
  have off: "unat (block_address k + of_nat i) = 0x4000000 + 16384 * k + i" if "i < 4096 * ?N" for i
    using that kN(1,3) by (intro block_offset) simp_all
  have "data_word ?bs2 (insert ?b D) (word_of_byte (block_address k + of_nat i))" if "i < nat z" for i
    using that len off [of i] unat_block_address [OF kN(3)] by (intro data_region [OF m3(2) dis kN(1)]) simp_all
  moreover have "kmapped (word_of_byte (src + of_nat i))" if "i < nat z" for i
    using that src unat_add_small [of src i] by (intro kmapped_byte) simp_all
  ultimately obtain m4 where m4: "copy_bytes (nat z) (block_address k) src m3 = Inr m4" "paging kd ?bs2 (insert ?b D) T m4" "CR3 m4 = CR3 mem"
    using copy_bytes_ok [OF m3(2), of "nat z" "block_address k" src] m3(3) by auto
  have "unat (block_address k + 4096 * of_nat i) < 0x10000000" if "i < ?N" for i
  proof -
    have "4096 * i < 4096 * ?N" using that by simp
    from off [OF this] kN(1) that show ?thesis by simp
  qed
  from pgdir_copy_ok [OF m4(2) _ _ this, of ?b z "ONE_GIGABYTE"] obtain m5 c T' where
    "pgdir_copy kd ?b (block_address k) ONE_GIGABYTE z m4 = Inr m5" "c \<le> ?N"
    "paging kd (block_run (k + Suc ?N + c) (?N + r - c) @ bs) (insert ?b D) T' m5" "CR3 m5 = CR3 mem"
    using m4(3) by auto
  then show ?thesis using m1(1) al(1) m3(1) m4(1) by blast
qed

text \<open>The stack: its pages, the argument, and the translations from 2 GB on, which are made twice.\<close>

lemma load_stack:
  assumes p: "paging kd (block_run k (pages z + (pages z + (pages z + r))) @ bs) D T mem"
    and k: "k + (pages z + (pages z + (pages z + r))) \<le> 12288" and z: "z = int n + 8" "32 \<le> n" "ssize = of_nat n" and d: "d \<in> D"
  shows "\<exists>m1 m2 m3 m4 c T'. virtual_malloc z mem = Inr (block_address k, m1) \<and>
    pgdir_copy kd d (block_address k + ssize + 4) TWO_GIGABYTES z m1 = Inr m2 \<and>
    store32u (block_address k + ssize + 4 - 36) v m2 = Inr m3 \<and>
    pgdir_copy kd d (block_address k + ssize + 4 - 4) TWO_GIGABYTES z m3 = Inr m4 \<and> c \<le> 2 * pages z \<and>
    paging kd (block_run (k + pages z + c) (2 * pages z + r - c) @ bs) D T' m4 \<and> CR3 m4 = CR3 mem"
proof -
  let ?N = "pages z"
  have N: "n + 8 \<le> 4096 * ?N" using pages_bound [of z] z by simp
  have kN: "k + ?N \<le> 12288" "k < 12288" using k N by (auto intro: Nat.gr0I)
  have w: "block_address k + ssize + 4 = block_address k + of_nat (n + 4)" "block_address k + ssize + 4 - 4 = block_address k + of_nat n"
    "block_address k + ssize + 4 - 36 = block_address k + of_nat (n - 32)"
    using z(2,3) by (simp_all add: of_nat_diff)
  have src: "unat (block_address k + of_nat m + 4096 * of_nat i) < 0x10000000" if "m \<le> n + 4" "i < ?N" for m i
  proof -
    have "int i * 4096 < z" using that(2) pages_less by simp
    then have i: "4096 * i < n + 8" using z(1) by simp
    have "unat (block_address k + of_nat (m + 4096 * i)) = 0x4000000 + 16384 * k + (m + 4096 * i)"
      using that(1) i N kN by (intro block_offset) simp_all
    then show ?thesis using that(1) i N kN(1) by (simp add: add.assoc)
  qed
  have split: "block_run k (?N + (?N + (?N + r))) @ bs = block_run k ?N @ (block_run (k + ?N) (?N + (?N + r)) @ bs)"
    unfolding block_run_append [of k ?N "?N + (?N + r)"] by simp
  note p0 = p [unfolded split]
  have "0 < z" using z(1) by simp
  from virtual_malloc_ok [OF p0 kN(1) this] obtain m1 where m1: "virtual_malloc z mem = Inr (block_address k, m1)"
    "paging kd (block_run (k + ?N) (?N + (?N + r)) @ bs) D T m1" "CR3 m1 = CR3 mem" by blast
  from pgdir_copy_ok [OF m1(2) d _ src, of z "n + 4" "TWO_GIGABYTES"] obtain m2 c T2 where
    m2: "pgdir_copy kd d (block_address k + of_nat (n + 4)) TWO_GIGABYTES z m1 = Inr m2" "c \<le> ?N"
    "paging kd (block_run (k + ?N + c) (?N + (?N + r) - c) @ bs) D T2 m2" "CR3 m2 = CR3 mem" using m1(3) by auto
  let ?bs2 = "block_run (k + ?N + c) (?N + (?N + r) - c) @ bs"
  have "set ?bs2 \<subseteq> set (block_run (k + ?N) (?N + (?N + r)) @ bs)" using m2(2) by (auto simp: block_run_def)
  then have dis: "set (block_run k ?N) \<inter> (D \<union> set ?bs2) = {}" using paging_disjoint [OF p0] by blast
  have "data_word ?bs2 D (word_of_byte (block_address k + of_nat (n - 32) + of_nat i))" if "i < 4" for i
  proof (rule data_region [OF m2(3) dis kN(1)])
    have "unat (block_address k + of_nat (n - 32 + i)) = 0x4000000 + 16384 * k + (n - 32 + i)"
      using that N kN by (intro block_offset) simp_all
    then show "unat (block_address k) \<le> unat (block_address k + of_nat (n - 32) + of_nat i)"
      "unat (block_address k + of_nat (n - 32) + of_nat i) < unat (block_address k) + 16384 * ?N"
      using that N z(2) unat_block_address [OF kN(2)] by (simp_all only: of_nat_add add.assoc)
  qed
  from store32u_ok [OF m2(3) this] obtain m3 where m3: "store32u (block_address k + of_nat (n - 32)) v m2 = Inr m3" "paging kd ?bs2 D T2 m3"
    "CR3 m3 = CR3 mem" using m2(4) by auto
  have "?N \<le> ?N + (?N + r) - c" using m2(2) by simp
  from pgdir_copy_ok [OF m3(2) d this src, of n "TWO_GIGABYTES"] obtain m4 c' T4 where
    m4: "pgdir_copy kd d (block_address k + of_nat n) TWO_GIGABYTES z m3 = Inr m4" "c' \<le> ?N"
    "paging kd (block_run (k + ?N + c + c') (?N + (?N + r) - c - c') @ bs) D T4 m4" "CR3 m4 = CR3 mem" using m3(3) by auto
  have "k + ?N + c + c' = k + ?N + (c + c')" "?N + (?N + r) - c - c' = 2 * ?N + r - (c + c')" by simp_all
  with m1(1) m2(1,2) m3(1) m4 show ?thesis unfolding w(2,3) unfolding w(1)
    by - (rule exI [of _ m1], rule exI [of _ m2], rule exI [of _ m3], rule exI [of _ m4], rule exI [of _ "c + c'"], rule exI [of _ T4], simp)
qed

text \<open>
  \<^verbatim>\<open>start\<close> finds the memory it needs when the program is in the kernel's image and enough
  blocks that follow one another are free: two for each page of code, three for each page
  of the stack, and one for the directory.
\<close>

lemma mem_call_eq: "f (mm st) = Inr (x, m) \<Longrightarrow> mem_call f st = Inr (x, st\<lparr>mm := m\<rparr>)"
  by (simp add: mem_call_def)

lemma mem_do_eq: "f (mm st) = Inr m \<Longrightarrow> mem_do f st = Inr (st\<lparr>mm := m\<rparr>)"
  by (simp add: mem_do_def)

definition program_ok :: "uapps \<Rightarrow> bool" where
  "program_ok u \<longleftrightarrow> 4096 \<le> unat (ustart u) \<and> unat (ustart u) < unat (uend u) \<and> unat (uend u) \<le> 0x4000000"

definition start_blocks :: "uapps \<Rightarrow> u32 \<Rightarrow> nat" where
  "start_blocks u ssize = 2 * pages (int (unat (uend u) - unat (ustart u))) + 3 * pages (int (unat ssize) + 8) + 1"

lemma sint_small: "unat (w :: u32) < 2 ^ 31 \<Longrightarrow> sint w = int (unat w)"
proof -
  assume "unat w < 2 ^ 31"
  then have "int (unat w) < int (2 ^ 31)" by (simp only: of_nat_less_iff)
  then have "signed_take_bit 31 (int (unat w)) = int (unat w)" by (intro signed_take_bit_int_eq_self) (simp_all add: order_trans [OF _ uint_ge_0])
  then show "sint w = int (unat w)" by (simp add: sint_uint)
qed

lemma program_size:
  assumes "program_ok u" shows "sint (uend u - ustart u) = int (unat (uend u) - unat (ustart u))"
proof -
  have "unat (uend u - ustart u) = unat (uend u) - unat (ustart u)"
    using assms by (simp add: program_ok_def unat_sub_if')
  moreover from this have "unat (uend u - ustart u) < 2 ^ 31" using assms by (auto simp: program_ok_def)
  ultimately show ?thesis using sint_small by metis
qed

lemma start_memory:
  assumes p: "paging (pgdir kp) (block_run k (start_blocks u ssize + r) @ bs) D T (mm st)"
    and k: "k + start_blocks u ssize + r \<le> 12288" and s: "32 \<le> unat ssize" "unat ssize \<le> 0x10000000"
    and u: "List.find (\<lambda>u. uname u = n) (symbols_table kp) = Some u" "program_ok u"
  shows "start_mem_ok kp n ssize arg st"
proof -
  let ?z = "sint (uend u - ustart u)" and ?y = "sint (ssize + 8)"
  have z: "?z = int (unat (uend u) - unat (ustart u))" using program_size [OF u(2)] .
  have "unat (ssize + 8) = unat ssize + 8" using s(2) unat_add_small [of ssize 8] by simp
  then have y: "?y = int (unat ssize) + 8" using s(2) by (subst sint_small) simp_all
  have n: "start_blocks u ssize + r = pages ?z + Suc (pages ?z + (3 * pages ?y + r))" unfolding start_blocks_def z y by simp
  have zs: "0 < ?z" "4096 \<le> unat (ustart u)" "unat (ustart u) + nat ?z \<le> 0x4000000" using u(2) unfolding z program_ok_def nat_int of_nat_0_less_iff by linarith+
  have k': "k + (pages ?z + Suc (pages ?z + (3 * pages ?y + r))) \<le> 12288" using k n by simp
  from load_code [OF p [unfolded n] k' zs] obtain m1 m2 m3 m4 m5 c T' where
    code: "virtual_malloc ?z (mm st) = Inr (block_address k, m1)"
    "allocate_physical_memory_address m1 = Inr (block_address (k + pages ?z), m2)"
    "fill_new_pgdir (block_address (k + pages ?z)) (pgdir kp) m2 = Inr m3"
    "copy_bytes (nat ?z) (block_address k) (ustart u) m3 = Inr m4"
    "pgdir_copy (pgdir kp) (block_address (k + pages ?z)) (block_address k) ONE_GIGABYTE ?z m4 = Inr m5" and c: "c \<le> pages ?z"
    and p5: "paging (pgdir kp) (block_run (k + Suc (pages ?z) + c) (pages ?z + (3 * pages ?y + r) - c) @ bs)
      (insert (block_address (k + pages ?z)) D) T' m5" by blast
  let ?k = "k + Suc (pages ?z) + c" and ?d = "block_address (k + pages ?z)"
  have l: "pages ?z + (3 * pages ?y + r) - c = pages ?y + (pages ?y + (pages ?y + (pages ?z - c + r)))" using c by simp
  have k2: "?k + (pages ?y + (pages ?y + (pages ?y + (pages ?z - c + r)))) \<le> 12288" using k' c by simp
  have sz: "?y = int (unat ssize) + 8" "32 \<le> unat ssize" "ssize = of_nat (unat ssize)" using y s(1) by simp_all
  from load_stack [OF p5 [unfolded l] k2 sz insertI1, of "of_int arg"] obtain m6 m7 m8 m9 where
    "virtual_malloc ?y m5 = Inr (block_address ?k, m6)"
    "pgdir_copy (pgdir kp) ?d (block_address ?k + ssize + 4) TWO_GIGABYTES ?y m6 = Inr m7"
    "store32u (block_address ?k + ssize + 4 - 36) (of_int arg) m7 = Inr m8"
    "pgdir_copy (pgdir kp) ?d (block_address ?k + ssize + 4 - 4) TWO_GIGABYTES ?y m8 = Inr m9" by blast
  with code u(1) show ?thesis unfolding start_mem_ok_def load_program_def get_symbol_from_name_def
    by (simp add: mem_call_eq mem_do_eq Let_def)
qed

end
