(* ===== verification/Boot_Memory.thy ===== *)
theory Boot_Memory
  imports Start_Memory
begin

unbundle bit_operations_syntax

text \<open>
  The memory of the idle process, which \<^verbatim>\<open>__init_idle\<close> maps in the kernel's own directory.
  What the operations do to the translations is known from \<open>Mmu_Spec\<close>, that they keep all
  directories in order from \<open>Start_Memory\<close>; the two views meet in the list of free blocks.
\<close>

lemma chain_unique: "chain m h bs \<Longrightarrow> chain m h cs \<Longrightarrow> bs = cs"
proof (induction bs arbitrary: h cs)
  case Nil
  then show ?case by (cases cs) (auto simp: kpage_def)
next
  case (Cons b bs)
  then show ?case by (cases cs) (auto simp: kpage_def)
qed

lemma free_list_unique: "free_list mem bs \<Longrightarrow> free_list mem cs \<Longrightarrow> bs = cs"
  unfolding free_list_def using chain_unique by blast

section \<open>Regions\<close>

lemma paging_allocate:
  assumes "paging kd (b # bs) D T mem"
  shows "paging kd bs D T (mem\<lparr>PHYSICAL_MEMORY_HEAD := phys mem b\<rparr>)"
  using assms allocate_block [OF pagingD(1) [OF assms]] unfolding paging_def by (simp add: table_of_def)

lemma paging_map_page:
  assumes p: "paging kd bs D T mem" and d: "d \<in> D" and l: "2 \<le> length bs"
  shows "\<exists>mem' T' m. map_page_from_virtual_address d va 7 mem = Inr mem' \<and> m \<le> 2 \<and> paging kd (drop m bs) D T' mem' \<and> CR3 mem' = CR3 mem"
proof -
  from l obtain b c cs where bs: "bs = b # c # cs" by (cases bs; cases "tl bs") auto
  from get_created_entry [OF p [unfolded bs] d, of 7 va] obtain e m1 T1 bs1 where
    g: "get_ptable_entry_from_virtual_address va d True 7 mem = Inr (e, m1)"
    and p1: "bs1 = c # cs \<or> bs1 = b # c # cs" "paging kd bs1 D T1 m1" "data_word bs1 D e" "CR3 m1 = CR3 mem" by auto
  from p1(1) obtain f where f: "bs1 = f # tl bs1" by auto
  let ?m2 = "m1\<lparr>phys := (phys m1)(e := (PHYSICAL_MEMORY_HEAD m1 AND FRAME_MASK) OR 7)\<rparr>"
  have p2: "paging kd (f # tl bs1) D T1 ?m2" using paging_store [OF p1(2,3)] f by metis
  have h: "PHYSICAL_MEMORY_HEAD ?m2 = f" "kpage f" using pagingD(1) [OF p2] by (auto simp: free_list_def)
  have "map_page_from_virtual_address d va 7 mem = Inr (?m2\<lparr>PHYSICAL_MEMORY_HEAD := phys ?m2 f\<rparr>)"
    using g p1(3) h by (simp add: map_page_from_virtual_address_def store32_def data_word_def)
  moreover have "tl bs1 = drop (if bs1 = c # cs then 2 else 1) bs" using p1(1) bs by auto
  then have "paging kd (drop (if bs1 = c # cs then 2 else 1) bs) D T1 (?m2\<lparr>PHYSICAL_MEMORY_HEAD := phys ?m2 f\<rparr>)"
    using paging_allocate [OF p2] by metis
  moreover have "(if bs1 = c # cs then 2 else 1) \<le> (2 :: nat)" "CR3 (?m2\<lparr>PHYSICAL_MEMORY_HEAD := phys ?m2 f\<rparr>) = CR3 mem"
    using p1(4) by simp_all
  ultimately show ?thesis by blast
qed

lemma paging_map_region_loop:
  assumes "paging kd bs D T mem" "d \<in> D" "2 * r \<le> length bs" "k + r = sz div 4096 + 1"
  shows "\<exists>mem' T' m. map_region_loop d va 7 sz (4096 * k) mem = Inr mem' \<and> m \<le> 2 * r \<and> paging kd (drop m bs) D T' mem' \<and> CR3 mem' = CR3 mem"
  using assms(1,3,4)
proof (induction r arbitrary: k bs T mem)
  case 0
  then have "\<not> 4096 * k \<le> sz" using div_less_iff_less_mult [of 4096 sz k] by (simp add: mult.commute)
  then have "map_region_loop d va 7 sz (4096 * k) mem = Inr mem" by (subst map_region_loop.simps) simp
  with 0 show ?case by - (rule exI [of _ mem], rule exI [of _ T], rule exI [of _ 0], simp)
next
  case (Suc r)
  have "2 \<le> length bs" using Suc.prems(2) by simp
  from paging_map_page [OF Suc.prems(1) assms(2) this, of "va + of_nat (4096 * k)"] obtain m1 T1 n where
    1: "map_page_from_virtual_address d (va + of_nat (4096 * k)) 7 mem = Inr m1" "n \<le> 2" "paging kd (drop n bs) D T1 m1" "CR3 m1 = CR3 mem" by blast
  have "2 * r \<le> length (drop n bs)" "Suc k + r = sz div 4096 + 1" using Suc.prems(2,3) 1(2) by simp_all
  from Suc.IH [OF 1(3) this] obtain mem' T' m where
    2: "map_region_loop d va 7 sz (4096 * Suc k) m1 = Inr mem'" "m \<le> 2 * r" "paging kd (drop m (drop n bs)) D T' mem'" "CR3 mem' = CR3 m1" by blast
  have "k \<le> sz div 4096" using Suc.prems(3) by simp
  then have "4096 * k \<le> sz" using less_eq_div_iff_mult_less_eq [of 4096 k sz] by (simp add: mult.commute)
  then have "map_region_loop d va 7 sz (4096 * k) mem = Inr mem'"
    using 1 2 by (subst map_region_loop.simps) (simp add: add.commute)
  then show ?case using 1(2,4) 2(2-4) by - (rule exI [of _ mem'], rule exI [of _ T'], rule exI [of _ "m + n"], simp)
qed

lemma paging_map_region:
  assumes "paging kd bs D T mem" "d \<in> D" "2 * (unat sz div 4096 + 1) \<le> length bs"
  shows "\<exists>mem' T' m. map_region d va 7 sz mem = Inr mem' \<and> m \<le> 2 * (unat sz div 4096 + 1) \<and> paging kd (drop m bs) D T' mem' \<and> CR3 mem' = CR3 mem"
  using paging_map_region_loop [OF assms, of 0 "unat sz" va] by (simp add: map_region_def)

text \<open>The same region, in both views.\<close>

lemma map_region_both:
  assumes "paging kd bs D T mem" "d \<in> D" "directory mem d (bs @ xs)" "set bs \<inter> set xs = {}"
    "2 * (unat sz div 4096 + 1) \<le> length bs" "page va + unat sz div 4096 < 1024 * 1024"
  shows "\<exists>mem' T' m fs. map_region d va 7 sz mem = Inr mem' \<and> m \<le> 2 * (unat sz div 4096 + 1) \<and>
    paging kd (drop m bs) D T' mem' \<and> CR3 mem' = CR3 mem \<and> directory mem' d (drop m bs @ fs @ xs) \<and>
    set fs \<subseteq> set bs \<and> set fs \<inter> set (drop m bs) = {} \<and> length fs = unat sz div 4096 + 1 \<and>
    (\<forall>n < 1024 * 1024. space mem' d n =
       (if page va \<le> n \<and> n \<le> page va + unat sz div 4096 then Some (fs ! (n - page va)) else space mem d n))"
proof -
  from paging_map_region [OF assms(1,2,5), of va] obtain mem' T' m where
    1: "map_region d va 7 sz mem = Inr mem'" "m \<le> 2 * (unat sz div 4096 + 1)" "paging kd (drop m bs) D T' mem'" "CR3 mem' = CR3 mem" by blast
  have fl: "(7 :: u32) < 0x1000" "bit (7 :: u32) 0" by simp_all
  from map_region_ok [OF assms(3) pagingD(1) [OF assms(1)] fl assms(4-6)] obtain mem2 bs' fs where
    2: "map_region d va 7 sz mem = Inr mem2" "length fs = unat sz div 4096 + 1" "set fs \<subseteq> set bs" "set fs \<inter> set bs' = {}"
      "directory mem2 d (bs' @ fs @ xs)" "free_list mem2 bs'"
      "\<forall>n < 1024 * 1024. space mem2 d n =
       (if page va \<le> n \<and> n \<le> page va + unat sz div 4096 then Some (fs ! (n - page va)) else space mem d n)" by blast
  have e: "mem2 = mem'" "bs' = drop m bs" using 1(1) 2(1,6) free_list_unique [OF _ pagingD(1) [OF 1(3)], of bs'] by auto
  with 1 2(2-5,7) e show ?thesis by - (rule exI [of _ mem'], rule exI [of _ T'], rule exI [of _ m], rule exI [of _ fs], simp)
qed

section \<open>Writing through the page tables\<close>

lemma store_keeps_space:
  assumes D: "directory mem d bs" and w: "\<not> in_page d w" "\<And>i. i < 1024 \<Longrightarrow> table_of mem d i \<noteq> 0 \<Longrightarrow> \<not> in_page (table_of mem d i) w"
  shows "directory (mem\<lparr>phys := (phys mem)(w := v)\<rparr>) d bs"
    "n < 1024 * 1024 \<Longrightarrow> space (mem\<lparr>phys := (phys mem)(w := v)\<rparr>) d n = space mem d n"
proof -
  let ?m = "mem\<lparr>phys := (phys mem)(w := v)\<rparr>"
  have t: "table_of ?m d i = table_of mem d i" if "i < 1024" for i
    using w(1) that by (auto simp: table_of_def)
  then show "directory ?m d bs" using directory_cong [OF D subset_refl] by blast
  assume "n < 1024 * 1024"
  then have n: "n div 1024 < 1024" "n mod 1024 < 1024" by (simp_all add: div_less_iff_less_mult)
  then show "space ?m d n = space mem d n" using w(2) [OF n(1)] by (intro space_cong t) auto
qed

lemma unat_offset: "unat (va AND 0xFFF :: u32) = unat va mod 4096"
proof -
  have m: "(0xFFF :: u32) = mask 12" by (simp add: mask_eq_exp_minus_1)
  show ?thesis unfolding m take_bit_eq_mask [symmetric] by (simp add: unsigned_take_bit_eq take_bit_eq_mod [where 'a = nat])
qed

lemma frame_byte:
  assumes "kpage f"
  shows "\<exists>j < 1024. word_of_byte (f + (va AND 0xFFF)) = entry f j"
    "unat f \<le> unat (f + (va AND 0xFFF))" "unat (f + (va AND 0xFFF)) < unat f + 4096"
proof -
  let ?r = "unat va mod 4096"
  have r: "?r < 4096" by simp
  from assms obtain k where k: "unat f = 4096 * k" "unat f < 2 ^ 28" by (auto simp: kpage_unat)
  have u: "unat (f + (va AND 0xFFF)) = unat f + ?r" using k(2) r by (simp add: unat_word_ariths unat_offset)
  then show "unat f \<le> unat (f + (va AND 0xFFF))" "unat (f + (va AND 0xFFF)) < unat f + 4096" using r by simp_all
  have j: "?r div 4 < 1024" using r by (intro less_mult_imp_div_less) simp
  have "(4096 * k + ?r) div 4 * 4 = 4096 * k + 4 * (?r div 4)"
  proof -
    have "(4096 * k + ?r) div 4 = 1024 * k + ?r div 4" by (simp add: div_add1_eq [of "4096 * k" ?r 4])
    then show ?thesis by simp
  qed
  then have "unat (word_of_byte (f + (va AND 0xFFF))) = unat (entry f (?r div 4))"
    unfolding unat_word_of_byte u k(1) kpage_entry(1) [OF assms j] by simp
  then show "\<exists>j < 1024. word_of_byte (f + (va AND 0xFFF)) = entry f j" using j by (auto simp: word_unat_eq_iff)
qed

lemma copy_to_virtual_ok:
  assumes "paging kd bs D T mem" "directory mem d (bs @ fs)" and d: "d \<in> D" and fs: "list_all is_block fs" "set fs \<inter> (D \<union> set bs) = {}"
    and "\<And>i. i < n \<Longrightarrow> \<exists>f \<in> set fs. space mem d (page (dst + of_nat i)) = Some f"
    "\<And>i. i < n \<Longrightarrow> kmapped (word_of_byte (src + of_nat i))"
  shows "\<exists>mem'. copy_to_virtual d n dst src mem = Inr mem' \<and> paging kd bs D T mem' \<and> directory mem' d (bs @ fs) \<and> CR3 mem' = CR3 mem"
  using assms(1,2,6,7)
proof (induction n arbitrary: dst src mem)
  case (Suc n)
  have "\<exists>v. load8 src mem = Inr v" using Suc.prems(4) [of 0] by (simp add: load8_def load32_def)
  then obtain v where v: "load8 src mem = Inr v" ..
  from Suc.prems(3) [of 0] obtain f where f: "f \<in> set fs" "space mem d (page dst) = Some f" by auto
  from fs(1) f(1) obtain k where k: "k < 12288" "f = block_address k" by (auto simp: list_all_iff is_block_def)
  have kf: "kpage f" using kpage_block k by simp
  let ?pa = "f + (dst AND 0xFFF)"
  note fb = frame_byte [OF kf, of dst]
  from fb(1) obtain j where j: "j < 1024" "word_of_byte ?pa = entry f j" by blast
  have run: "set (block_run k 1) = {f}" using k by (simp add: block_run_def)
  have "set (block_run k 1) \<inter> (D \<union> set bs) = {}" using fs(2) f(1) run by auto
  then have dw: "data_word bs D (word_of_byte ?pa)" using fb(2,3) k by (intro data_region [OF Suc.prems(1), of k 1]) simp_all
  let ?v = "(phys mem (word_of_byte ?pa) AND NOT (push_bit (8 * unat (?pa AND 3)) 0xFF)) OR push_bit (8 * unat (?pa AND 3)) (v AND 0xFF)"
  let ?m = "mem\<lparr>phys := (phys mem)(word_of_byte ?pa := ?v)\<rparr>"
  have st: "store8 ?pa v mem = Inr ?m" using dw by (simp add: store8_def load32_def store32_def data_word_def)
  have nd: "\<not> in_page d (word_of_byte ?pa)" using dw d by (simp add: data_word_def)
  have nt: "\<not> in_page (table_of mem d i) (word_of_byte ?pa)" if "i < 1024" "table_of mem d i \<noteq> 0" for i
    using directoryD(3) [OF Suc.prems(2) that] in_page_other [OF kf _ j(1), of "table_of mem d i"] f(1) j(2) by auto
  have keep: "directory ?m d (bs @ fs)" using store_keeps_space(1) [OF Suc.prems(2) nd] nt by blast
  have same: "space ?m d (page va) = space mem d (page va)" for va
    using store_keeps_space(2) [OF Suc.prems(2) nd _ page_less] nt by blast
  have "\<exists>f \<in> set fs. space ?m d (page (dst + 1 + of_nat i)) = Some f" if "i < n" for i
    using same Suc.prems(3) [of "Suc i"] that by (simp add: add.assoc)
  moreover have "kmapped (word_of_byte (src + 1 + of_nat i))" if "i < n" for i
    using Suc.prems(4) [of "Suc i"] that by (simp add: add.assoc)
  ultimately obtain mem' where "copy_to_virtual d n (dst + 1) (src + 1) ?m = Inr mem'" "paging kd bs D T mem'" "directory mem' d (bs @ fs)"
    "CR3 mem' = CR3 ?m" using Suc.IH [OF paging_store [OF Suc.prems(1) dw] keep] by blast
  then show ?case using v st translate_mapped [OF Suc.prems(2) f(2)] by simp
qed auto

section \<open>The idle process\<close>

lemma virtual_malloc_end: "sz \<le> 4096 \<Longrightarrow> virtual_malloc_loop sz 1 a mem = Inr (a, mem)"
  by (subst virtual_malloc_loop.simps) simp

lemma virtual_malloc_small: "0 < sz \<Longrightarrow> sz \<le> 4096 \<Longrightarrow> virtual_malloc sz mem = virtual_malloc 4096 mem"
proof -
  assume sz: "0 < sz" "sz \<le> 4096"
  then have "virtual_malloc_loop sz (0 + 1) = virtual_malloc_loop 4096 (0 + 1)" by (intro ext) (simp add: virtual_malloc_end)
  with sz show ?thesis unfolding virtual_malloc_def by (subst (1 2) virtual_malloc_loop.simps) (simp cong: if_cong)
qed

lemma pages_small: "0 < sz \<Longrightarrow> sz \<le> 4096 \<Longrightarrow> pages sz = 1"
  using pages_less [of 0 sz] pages_less [of 1 sz] by simp

lemma malloc_both:
  assumes p: "paging kd (block_run k (Suc n)) D T mem" and D: "directory mem kd (block_run k (Suc n) @ xs)"
    and xs: "set (block_run k (Suc n)) \<inter> set xs = {}" and c: "CR3 mem = kd" and k: "k + Suc n \<le> 12288" and sz: "0 < sz" "sz \<le> 4096"
  shows "\<exists>mem'. virtual_malloc sz mem = Inr (block_address k, mem') \<and> paging kd (block_run (Suc k) n) D T mem' \<and>
    directory mem' kd (block_run (Suc k) n @ block_address k # xs) \<and> CR3 mem' = kd"
proof -
  have "block_run k (pages sz) @ block_run (Suc k) n = block_run k (Suc n)"
    using block_run_append [of k 1 n] pages_small [OF sz] by simp
  then have "paging kd (block_run k (pages sz) @ block_run (Suc k) n) D T mem" using p by simp
  from virtual_malloc_ok [OF this _ sz(1)] k pages_small [OF sz] obtain mem' where
    1: "virtual_malloc sz mem = Inr (block_address k, mem')" "paging kd (block_run (Suc k) n) D T mem'" "CR3 mem' = CR3 mem" by auto
  have t: "table_of mem (CR3 mem) (page (block_address k) div 1024) \<noteq> 0"
    using kernel_table [OF p pagingD(10) [OF p], of "block_address k"] unat_block_address [of k] k by simp
  have D': "directory mem (CR3 mem) (block_address k # block_run (Suc k) n @ xs)" using D c by (simp add: block_run_Suc)
  have F: "free_list mem (block_address k # block_run (Suc k) n)" using pagingD(1) [OF p] by (simp add: block_run_Suc)
  have "directory mem' (CR3 mem') (block_run (Suc k) n @ block_address k # xs)"
  proof (rule virtual_malloc_page [OF D' F])
    show "set (block_address k # block_run (Suc k) n) \<inter> set xs = {}" using xs by (simp add: block_run_Suc)
    show "block_run (Suc k) n \<noteq> []" if "table_of mem (CR3 mem) (page (block_address k) div 1024) = 0" using that t by simp
  next
    fix mm' bs'
    assume "virtual_malloc 4096 mem = Inr (block_address k, mm')"
      "bs' = (if table_of mem (CR3 mem) (page (block_address k) div 1024) = 0 then tl (block_run (Suc k) n) else block_run (Suc k) n)"
      "directory mm' (CR3 mm') (bs' @ block_address k # xs)"
    then show ?thesis using 1(1) t virtual_malloc_small [OF sz, of mem] by simp
  qed
  with 1 c show ?thesis by simp
qed

lemma drop_run: "m \<le> n \<Longrightarrow> drop m (block_run k n) = block_run (k + m) (n - m)"
  by (simp add: block_run_def drop_map drop_upt)

lemma page_region: "i < 0x10000000 \<Longrightarrow> page (ONE_GIGABYTE + of_nat i) = page ONE_GIGABYTE + i div 4096"
proof -
  assume "i < 0x10000000"
  then have "unat (ONE_GIGABYTE + of_nat i) = 0x40000000 + i" by (subst unat_add_small) simp_all
  moreover have "(0x40000000 + i) div 4096 = 0x40000 + i div 4096" by (simp add: div_add1_eq [of "0x40000000" i 4096])
  ultimately show ?thesis by (simp add: page_def)
qed

definition idle_blocks :: "uapps \<Rightarrow> nat" where
  "idle_blocks u = 3 + 2 * (unat (uend u - ustart u) div 4096 + 1) + 22"

lemma idle_mallocs:
  assumes p: "paging kd (block_run k (Suc (Suc (Suc n)))) D T mem" and d: "directory mem kd (block_run k (Suc (Suc (Suc n))))"
    and c: "CR3 mem = kd" and k: "k + Suc (Suc (Suc n)) \<le> 12288"
  shows "\<exists>m1 m2 m3. virtual_malloc 136 mem = Inr (block_address k, m1) \<and>
    virtual_malloc 5 m1 = Inr (block_address (k + 1), m2) \<and> virtual_malloc 2048 m2 = Inr (block_address (k + 2), m3) \<and>
    paging kd (block_run (k + 3) n) D T m3 \<and> CR3 m3 = kd \<and>
    directory m3 kd (block_run (k + 3) n @ [block_address (k + 2), block_address (k + 1), block_address k]) \<and>
    set (block_run (k + 3) n) \<inter> set [block_address (k + 2), block_address (k + 1), block_address k] = {}"
proof -
  have e: "Suc (Suc k) = k + 2" "Suc (k + 2) = k + 3" by simp_all
  have ds: "distinct (block_run k (Suc (Suc (Suc n))))" using pagingD(1) [OF p] by (simp add: free_list_def)
  have d': "directory mem kd (block_run k (Suc (Suc (Suc n))) @ [])" using d by simp
  from malloc_both [OF p d' _ c k, of 136] obtain m1 where
    m1: "virtual_malloc 136 mem = Inr (block_address k, m1)" "paging kd (block_run (Suc k) (Suc (Suc n))) D T m1"
    "directory m1 kd (block_run (Suc k) (Suc (Suc n)) @ [block_address k])" "CR3 m1 = kd" by auto
  have x1: "set (block_run (Suc k) (Suc (Suc n))) \<inter> set [block_address k] = {}" using ds by (simp add: block_run_Suc)
  from malloc_both [OF m1(2,3) x1 m1(4), of 5] k obtain m2 where
    m2: "virtual_malloc 5 m1 = Inr (block_address (k + 1), m2)" "paging kd (block_run (Suc (Suc k)) (Suc n)) D T m2"
    "directory m2 kd (block_run (Suc (Suc k)) (Suc n) @ [block_address (k + 1), block_address k])" "CR3 m2 = kd" by auto
  have x2: "set (block_run (Suc (Suc k)) (Suc n)) \<inter> set [block_address (k + 1), block_address k] = {}"
    using ds by (auto simp: block_run_Suc)
  have "Suc (Suc k) + Suc n \<le> 12288" using k by simp
  from malloc_both [OF m2(2,3) x2 m2(4) this, of 2048] obtain m3 where
    m3: "virtual_malloc 2048 m2 = Inr (block_address (k + 2), m3)" "paging kd (block_run (k + 3) n) D T m3"
    "directory m3 kd (block_run (k + 3) n @ [block_address (k + 2), block_address (k + 1), block_address k])" "CR3 m3 = kd" unfolding e by auto
  have "set (block_run (k + 3) n) \<inter> set [block_address (k + 2), block_address (k + 1), block_address k] = {}"
    using ds unfolding block_run_Suc e by auto
  with m1(1) m2(1) m3 show ?thesis by blast
qed

lemma idle_memory:
  assumes p: "paging kd (block_run k n) D T mem" and d: "directory mem kd (block_run k n)" and c: "CR3 mem = kd"
    and k: "k + n \<le> 12288" "idle_blocks u \<le> n" and u: "program_ok u"
  shows "\<exists>m1 m2 m3 m4 m5 m6 j T'. virtual_malloc 136 mem = Inr (block_address k, m1) \<and>
    virtual_malloc 5 m1 = Inr (block_address (k + 1), m2) \<and> virtual_malloc 2048 m2 = Inr (block_address (k + 2), m3) \<and>
    map_region kd ONE_GIGABYTE 7 (uend u - ustart u) m3 = Inr m4 \<and>
    copy_to_virtual kd (nat (sint (uend u - ustart u))) ONE_GIGABYTE (ustart u) m4 = Inr m5 \<and>
    map_region kd TWO_GIGABYTES 7 (4096 * 10) m5 = Inr m6 \<and> j \<le> idle_blocks u \<and>
    paging kd (block_run (k + j) (n - j)) D T' m6 \<and> CR3 m6 = kd"
proof -
  let ?z = "uend u - ustart u"
  let ?M = "unat ?z div 4096 + 1"
  have kd: "kd \<in> D" using pagingD(9) [OF p] .
  let ?xs = "[block_address (k + 2), block_address (k + 1), block_address k]"
  from k(2) obtain n3 where n: "n = Suc (Suc (Suc n3))" "2 * ?M + 22 \<le> n3"
    using le_Suc_ex [OF k(2)] by (auto simp: idle_blocks_def)
  from idle_mallocs [OF p [unfolded n(1)] d [unfolded n(1)] c] k(1) obtain m1 m2 m3 where
    m: "virtual_malloc 136 mem = Inr (block_address k, m1)" "virtual_malloc 5 m1 = Inr (block_address (k + 1), m2)"
      "virtual_malloc 2048 m2 = Inr (block_address (k + 2), m3)"
    and p3: "paging kd (block_run (k + 3) n3) D T m3" and c3: "CR3 m3 = kd" and d3: "directory m3 kd (block_run (k + 3) n3 @ ?xs)"
    and x3: "set (block_run (k + 3) n3) \<inter> set ?xs = {}" unfolding n(1) by blast
  have zu: "unat ?z = unat (uend u) - unat (ustart u)" using u by (simp add: program_ok_def unat_sub_if')
  have zn: "nat (sint ?z) = unat ?z" "unat (ustart u) + unat ?z \<le> 0x4000000" "unat ?z < 0x10000000"
    using u unfolding program_size [OF u] nat_int zu program_ok_def by auto
  have pg: "page ONE_GIGABYTE = 0x40000" "page TWO_GIGABYTES = 0x80000" by (simp_all add: page_def)
  have zd: "unat ?z div 4096 < 0x10000" using zn(3) by (intro less_mult_imp_div_less) simp
  have "2 * ?M \<le> length (block_run (k + 3) n3)" "page ONE_GIGABYTE + unat ?z div 4096 < 1024 * 1024" using n(2) zd pg by simp_all
  from map_region_both [OF p3 kd d3 x3 this] obtain m4 T4 i fs where
    m4: "map_region kd ONE_GIGABYTE 7 ?z m3 = Inr m4" "i \<le> 2 * ?M" "paging kd (drop i (block_run (k + 3) n3)) D T4 m4" "CR3 m4 = kd"
      "directory m4 kd (drop i (block_run (k + 3) n3) @ fs @ ?xs)" "set fs \<subseteq> set (block_run (k + 3) n3)"
      "set fs \<inter> set (drop i (block_run (k + 3) n3)) = {}" "length fs = ?M"
    and sp: "\<And>n. n < 1024 * 1024 \<Longrightarrow> space m4 kd n =
      (if page ONE_GIGABYTE \<le> n \<and> n \<le> page ONE_GIGABYTE + unat ?z div 4096 then Some (fs ! (n - page ONE_GIGABYTE)) else space m3 kd n)"
    unfolding c3 by blast
  let ?bs4 = "drop i (block_run (k + 3) n3)"
  have fs: "list_all is_block fs" "set fs \<inter> (D \<union> set ?bs4) = {}"
    using m4(6,7) pagingD(2,4) [OF p3] by (auto simp: list_all_iff)
  have d4: "directory m4 kd (?bs4 @ fs)" using m4(5) by (rule directory_cong) auto
  have dst: "\<exists>f \<in> set fs. space m4 kd (page (ONE_GIGABYTE + of_nat a)) = Some f" if "a < unat ?z" for a
  proof -
    have "page (ONE_GIGABYTE + of_nat a) = page ONE_GIGABYTE + a div 4096" using that zn(3) by (intro page_region) simp
    moreover have "a div 4096 \<le> unat ?z div 4096" using that by (intro div_le_mono) simp
    ultimately have "space m4 kd (page (ONE_GIGABYTE + of_nat a)) = Some (fs ! (a div 4096))" "a div 4096 < length fs"
      using sp [OF page_less, of "ONE_GIGABYTE + of_nat a"] m4(8) by simp_all
    then show ?thesis by auto
  qed
  have src: "kmapped (word_of_byte (ustart u + of_nat a))" if "a < unat ?z" for a
    using that zn(2) u unat_add_small [of "ustart u" a] by (intro kmapped_byte) (simp_all add: program_ok_def)
  from copy_to_virtual_ok [OF m4(3) d4 kd fs dst src] obtain m5 where m5: "copy_to_virtual kd (unat ?z) ONE_GIGABYTE (ustart u) m4 = Inr m5" "paging kd ?bs4 D T4 m5"
    "directory m5 kd (?bs4 @ fs)" "CR3 m5 = kd" unfolding m4(4) by blast
  have "set ?bs4 \<inter> set fs = {}" "2 * (unat (4096 * 10 :: u32) div 4096 + 1) \<le> length ?bs4"
    "page TWO_GIGABYTES + unat (4096 * 10 :: u32) div 4096 < 1024 * 1024" using m4(2,7) n(2) pg by auto
  from map_region_both [OF m5(2) kd m5(3) this] obtain m6 T6 i' where
    m6: "map_region kd TWO_GIGABYTES 7 (4096 * 10) m5 = Inr m6" "i' \<le> 22" "paging kd (drop i' ?bs4) D T6 m6" "CR3 m6 = kd"
    using m5(4) by auto
  have "drop i' ?bs4 = block_run (k + (3 + i + i')) (n - (3 + i + i'))"
    using m4(2) m6(2) n by (simp add: drop_run add.assoc)
  moreover have "3 + i + i' \<le> idle_blocks u" using m4(2) m6(2) by (simp add: idle_blocks_def)
  ultimately show ?thesis using m m4(1) m5(1) m6(1,3,4) unfolding zn(1)
    by - (rule exI [of _ m1], rule exI [of _ m2], rule exI [of _ m3], rule exI [of _ m4], rule exI [of _ m5], rule exI [of _ m6],
        rule exI [of _ "3 + i + i'"], rule exI [of _ T6], simp)
qed

end
