(* ===== verification/Early_Mm.thy ===== *)
theory Early_Mm
  imports Mmu_Spec
begin

unbundle bit_operations_syntax

text \<open>
  The first page tables (\<^verbatim>\<open>kernel/boot/early_mm.c\<close>), built before paging is enabled: accesses
  are physical and do not fault. The symbols of the linker script are the fields of a record.
\<close>

section \<open>The code\<close>

record layout =
  k_start :: u32
  text_start :: u32
  text_end :: u32
  multiboot_start :: u32
  multiboot_end :: u32
  bootstrap_stack_start :: u32
  bootstrap_stack_end :: u32
  rodata_start :: u32
  rodata_end :: u32
  data_start :: u32
  data_end :: u32
  bss_start :: u32
  bss_end :: u32
  k_end :: u32
  mem_end :: u32
  k_pgdir :: u32
  k_pgtab :: u32

text \<open>The two assertions; when one fails, the kernel executes \<^verbatim>\<open>hlt\<close> for ever.\<close>

definition ASSERT_ALIGNED :: "u32 \<Rightarrow> bool" where
  "ASSERT_ALIGNED symbol \<longleftrightarrow> (symbol AND 0xFFFFF000) = symbol"

definition ASSERT_CONSISTENT :: "u32 \<Rightarrow> u32 \<Rightarrow> bool" where
  "ASSERT_CONSISTENT start fin \<longleftrightarrow> \<not> sint fin - sint start < 4096"

definition early_mm_check :: "layout \<Rightarrow> bool" where
  "early_mm_check lay \<longleftrightarrow>
     ASSERT_ALIGNED (k_start lay) \<and>
     ASSERT_ALIGNED (text_start lay) \<and> ASSERT_ALIGNED (text_end lay) \<and>
     ASSERT_CONSISTENT (text_start lay) (text_end lay) \<and>
     ASSERT_ALIGNED (multiboot_start lay) \<and> ASSERT_ALIGNED (multiboot_end lay) \<and>
     ASSERT_CONSISTENT (multiboot_start lay) (multiboot_end lay) \<and>
     ASSERT_ALIGNED (bootstrap_stack_start lay) \<and> ASSERT_ALIGNED (bootstrap_stack_end lay) \<and>
     ASSERT_CONSISTENT (bootstrap_stack_start lay) (bootstrap_stack_end lay) \<and>
     ASSERT_ALIGNED (rodata_start lay) \<and> ASSERT_ALIGNED (rodata_end lay) \<and>
     ASSERT_CONSISTENT (rodata_start lay) (rodata_end lay) \<and>
     ASSERT_ALIGNED (data_start lay) \<and> ASSERT_ALIGNED (data_end lay) \<and>
     ASSERT_CONSISTENT (data_start lay) (data_end lay) \<and>
     ASSERT_ALIGNED (data_start lay) \<and> ASSERT_ALIGNED (data_end lay) \<and>
     ASSERT_CONSISTENT (data_start lay) (data_end lay) \<and>
     ASSERT_CONSISTENT (k_start lay) (k_end lay)"

definition put :: "u32 \<Rightarrow> u32 \<Rightarrow> mm_state \<Rightarrow> mm_state" where
  "put a v mem = mem\<lparr>phys := (phys mem)(a := v)\<rparr>"

text \<open>\<^verbatim>\<open>memset(base, 0, 4 * n)\<close> on aligned words.\<close>

definition zero_words :: "u32 \<Rightarrow> nat \<Rightarrow> mm_state \<Rightarrow> mm_state" where
  "zero_words base n = fold (\<lambda>i. put (base + 4 * of_nat i) 0) [0..<n]"

definition early_mm_fill_pgdir :: "u32 \<Rightarrow> u32 \<Rightarrow> nat \<Rightarrow> mm_state \<Rightarrow> mm_state" where
  "early_mm_fill_pgdir pagedir pagetab cnt mem =
     fold (\<lambda>i. put (pagedir + 4 * of_nat i) 0) [cnt..<1024]
       (fold (\<lambda>i. put (pagedir + 4 * of_nat i) ((pagetab + of_nat i * 0x1000) OR 3)) [0..<cnt] mem)"

text \<open>
  The address is unsigned and may wrap around, so that the loop does not end when \<open>fin\<close> is in
  the last page of the address space; \<open>None\<close> is the loop that does not end.
\<close>

partial_function (option) early_mm_map_region :: "u32 \<Rightarrow> u32 \<Rightarrow> u32 \<Rightarrow> u32 \<Rightarrow> mm_state \<Rightarrow> mm_state option" where
  "early_mm_map_region pdir address fin flags mem =
     (if address < fin
      then let ptable = phys mem (pdir + 4 * pd_index address) AND 0xFFFFF000
           in early_mm_map_region pdir (address + 4096) fin flags
                (put (ptable + 4 * pt_index address) ((address AND 0xFFFFF000) OR flags) mem)
      else Some mem)"

definition early_mm_map_kernel :: "layout \<Rightarrow> mm_state \<Rightarrow> mm_state option" where
  "early_mm_map_kernel lay mem =
     (let dir = k_pgdir lay;
          mem = zero_words (k_pgtab lay) (1024 * 64) mem;
          mem = early_mm_fill_pgdir dir (k_pgtab lay) 64 mem;
          mem = put (k_pgtab lay) 0 mem in
      Option.bind (early_mm_map_region dir 4096 (k_start lay) PAGE_TABLE_RW mem) (\<lambda>mem.
      Option.bind (early_mm_map_region dir (k_start lay) (text_start lay) PAGE_TABLE_RW mem) (\<lambda>mem.
      Option.bind (early_mm_map_region dir (text_start lay) (text_end lay) PAGE_TABLE_RO mem) (\<lambda>mem.
      Option.bind (early_mm_map_region dir (multiboot_start lay) (multiboot_end lay) PAGE_TABLE_RO mem) (\<lambda>mem.
      Option.bind (early_mm_map_region dir (rodata_start lay) (rodata_end lay) PAGE_TABLE_RO mem) (\<lambda>mem.
      Option.bind (early_mm_map_region dir (bootstrap_stack_start lay) (bootstrap_stack_end lay) PAGE_TABLE_RW mem) (\<lambda>mem.
      Option.bind (early_mm_map_region dir (data_start lay) (data_end lay) PAGE_TABLE_RW mem) (\<lambda>mem.
      Option.bind (early_mm_map_region dir (bss_start lay) (bss_end lay) PAGE_TABLE_RW mem) (\<lambda>mem.
        early_mm_map_region dir (k_end lay) (mem_end lay) PAGE_TABLE_RW mem)))))))))"

section \<open>The tables it builds\<close>

text \<open>The 64 tables follow one another, and together are one table of 65536 pages.\<close>

definition tables_ok :: "u32 \<Rightarrow> u32 \<Rightarrow> bool" where
  "tables_ok pd pt \<longleftrightarrow> kpage pd \<and> kpage pt \<and> unat pd + 4096 \<le> unat pt \<and> unat pt + 0x40000 \<le> 0x4000000"

definition pte :: "u32 \<Rightarrow> nat \<Rightarrow> u32" where
  "pte pt n = pt + 4 * of_nat n"

definition early :: "u32 \<Rightarrow> u32 \<Rightarrow> (nat \<Rightarrow> u32) \<Rightarrow> mm_state \<Rightarrow> bool" where
  "early pd pt f mem \<longleftrightarrow>
     (\<forall>i < 1024. phys mem (entry pd i) = (if i < 64 then (pt + of_nat i * 0x1000) OR 3 else 0)) \<and>
     (\<forall>n < 65536. phys mem (pte pt n) = f n)"

lemma unat_pte: "tables_ok pd pt \<Longrightarrow> n < 65536 \<Longrightarrow> unat (pte pt n) = unat pt + 4 * n"
  by (simp add: pte_def tables_ok_def unat_word_ariths unat_of_nat)

lemma pte_inj: "tables_ok pd pt \<Longrightarrow> n < 65536 \<Longrightarrow> m < 65536 \<Longrightarrow> pte pt n = pte pt m \<longleftrightarrow> n = m"
  by (simp add: word_unat_eq_iff unat_pte)

lemma pte_not_entry: "tables_ok pd pt \<Longrightarrow> n < 65536 \<Longrightarrow> i < 1024 \<Longrightarrow> pte pt n \<noteq> entry pd i"
  using unat_pte [of pd pt n] kpage_entry(1) [of pd i] by (auto simp: tables_ok_def word_unat_eq_iff)

lemma pte_outside: "tables_ok pd pt \<Longrightarrow> n < 65536 \<Longrightarrow> A \<subseteq> {..<1024} \<Longrightarrow> pte pt n \<notin> entry pd ` A"
  using pte_not_entry by (meson imageE lessThan_iff subsetD)

lemma kpage_table:
  assumes "tables_ok pd pt" "i < 64"
  shows "kpage (pt + of_nat i * 0x1000)" "unat (pt + of_nat i * 0x1000) = unat pt + 4096 * i"
proof -
  show u: "unat (pt + of_nat i * 0x1000) = unat pt + 4096 * i"
    using assms by (simp add: tables_ok_def unat_word_ariths unat_of_nat)
  show "kpage (pt + of_nat i * 0x1000)" using assms unfolding kpage_unat u by (simp add: tables_ok_def kpage_unat)
qed

lemma table_pte: "entry (pt + of_nat (n div 1024) * 0x1000) (n mod 1024) = pte pt n"
proof -
  have "(4 :: u32) * of_nat n = of_nat (4 * (1024 * (n div 1024) + n mod 1024))" by simp
  also have "\<dots> = of_nat (n div 1024) * 0x1000 + 4 * of_nat (n mod 1024)"
    unfolding of_nat_mult of_nat_add by (simp add: algebra_simps)
  finally show ?thesis unfolding entry_def pte_def by (simp add: algebra_simps)
qed

lemma early_put:
  assumes "tables_ok pd pt" "early pd pt f mem" "n < 65536"
  shows "early pd pt (f(n := v)) (put (pte pt n) v mem)"
proof -
  have "entry pd i \<noteq> pte pt n" if "i < 1024" for i using pte_not_entry [OF assms(1,3) that] by simp
  then show ?thesis using assms(2) pte_inj [OF assms(1) _ assms(3)] by (simp add: early_def put_def)
qed

lemma fold_put_other: "a \<notin> g ` set xs \<Longrightarrow> phys (fold (\<lambda>i. put (g i) (h i)) xs mem) a = phys mem a"
  by (induction xs arbitrary: mem) (auto simp: put_def)

lemma phys_put: "phys (put a v mem) b = (if b = a then v else phys mem b)"
  by (simp add: put_def)

lemma fold_put_same:
  assumes "inj_on g (set xs)" "distinct xs" "i \<in> set xs"
  shows "phys (fold (\<lambda>i. put (g i) (h i)) xs mem) (g i) = h i"
  using assms
proof (induction xs arbitrary: mem)
  case (Cons x xs)
  then have "g i \<notin> g ` set xs" if "i = x" using that by (auto simp: inj_on_def)
  with Cons show ?case by (auto simp: fold_put_other phys_put)
qed simp

lemma inj_pte: "tables_ok pd pt \<Longrightarrow> A \<subseteq> {..<65536} \<Longrightarrow> inj_on (pte pt) A"
  using pte_inj by (auto simp: inj_on_def subset_iff)

lemma inj_entry: "kpage pd \<Longrightarrow> A \<subseteq> {..<1024} \<Longrightarrow> inj_on (entry pd) A"
  using entry_inj by (auto simp: inj_on_def subset_iff)

text \<open>Clearing the tables and filling the directory.\<close>

lemma fold_put_phys: "\<exists>g. fold (\<lambda>i. put (a i) (v i)) xs mem = mem\<lparr>phys := g\<rparr>"
proof (induction xs arbitrary: mem)
  case Nil
  then show ?case by (intro exI [of _ "phys mem"]) simp
next
  case (Cons x xs)
  from Cons [of "put (a x) (v x) mem"] show ?case by (auto simp: put_def)
qed

lemma early_init:
  assumes ok: "tables_ok pd pt"
  shows "early pd pt (\<lambda>_. 0) (put pt 0 (early_mm_fill_pgdir pd pt 64 (zero_words pt (1024 * 64) mem)))"
proof -
  have pd: "kpage pd" using ok by (simp add: tables_ok_def)
  let ?z = "zero_words pt (1024 * 64) mem"
  let ?h = "\<lambda>i. (pt + of_nat i * 0x1000) OR 3"
  define xs :: "nat list" where "xs = [0..<64]"
  define ys :: "nat list" where "ys = [64..<1024]"
  have xs: "set xs = {..<64}" "distinct xs" and ys: "set ys = {64..<1024}" "distinct ys"
    unfolding xs_def ys_def by (simp_all only: set_upt distinct_upt) auto
  let ?f = "fold (\<lambda>i. put (entry pd i) (?h i)) xs ?z"
  let ?g = "fold (\<lambda>i. put (entry pd i) 0) ys ?f"
  have g: "early_mm_fill_pgdir pd pt 64 ?z = ?g" by (simp only: early_mm_fill_pgdir_def entry_def xs_def ys_def)
  have inj: "inj_on (entry pd) (set xs)" "inj_on (entry pd) (set ys)"
    unfolding xs ys by (rule inj_entry [OF pd]; auto)+
  have z: "phys ?z (pte pt n) = 0" if "n < 65536" for n
    unfolding zero_words_def pte_def [symmetric] using that
    by (intro fold_put_same) (auto intro!: inj_pte [OF ok] simp del: upt.simps)
  have "phys ?g (pte pt n) = 0" if n: "n < 65536" for n
  proof -
    have "pte pt n \<notin> entry pd ` set xs" "pte pt n \<notin> entry pd ` set ys"
      unfolding xs ys by (rule pte_outside [OF ok n]; auto)+
    then show ?thesis using z [OF n] by (simp add: fold_put_other)
  qed
  moreover have "phys ?g (entry pd i) = (if i < 64 then ?h i else 0)" if i: "i < 1024" for i
  proof (cases "i < 64")
    case True
    then have "phys ?f (entry pd i) = ?h i" using fold_put_same [OF inj(1) xs(2), of i ?h ?z] xs(1) by simp
    moreover have "entry pd i \<notin> entry pd ` set ys" using True entry_inj [OF pd pd i] unfolding ys image_iff by force
    ultimately show ?thesis using True by (simp add: fold_put_other)
  next
    case False
    then have "phys ?g (entry pd i) = 0" using fold_put_same [OF inj(2) ys(2), of i "\<lambda>_. 0" ?f] ys(1) i by simp
    then show ?thesis using False by simp
  qed
  ultimately have "early pd pt (\<lambda>_. 0) ?g" by (simp add: early_def)
  from early_put [OF ok this, of 0 0] show ?thesis unfolding g by (simp add: pte_def fun_upd_idem)
qed

text \<open>A region of whole pages below 256 MB.\<close>

lemma unat_page: "a \<le> 65536 \<Longrightarrow> unat (of_nat (4096 * a) :: u32) = 4096 * a"
  unfolding unat_of_nat by simp

lemma early_map_region:
  assumes ok: "tables_ok pd pt" and "early pd pt f mem" and b: "b \<le> 65536" and "a \<le> 65536" "a + d = max a b"
  shows "\<exists>g. early_mm_map_region pd (of_nat (4096 * a)) (of_nat (4096 * b)) flags mem = Some (mem\<lparr>phys := g\<rparr>) \<and>
    early pd pt (\<lambda>n. if a \<le> n \<and> n < b then of_nat (4096 * n) OR flags else f n) (mem\<lparr>phys := g\<rparr>)"
  using assms(2,4,5)
proof (induction d arbitrary: a f mem)
  case 0
  then have le: "b \<le> a" by simp
  then have "\<not> (of_nat (4096 * a) :: u32) < of_nat (4096 * b)"
    unfolding word_less_nat_alt unat_page [OF b] unat_page [OF 0(2)] by simp
  then have "early_mm_map_region pd (of_nat (4096 * a)) (of_nat (4096 * b)) flags mem = Some mem"
    by (subst early_mm_map_region.simps) (simp only: if_False)
  moreover have "(\<lambda>n. if a \<le> n \<and> n < b then of_nat (4096 * n) OR flags else f n) = f" using le by (intro ext if_not_P) linarith
  ultimately show ?case using 0(1) by - (rule exI [of _ "phys mem"], simp)
next
  case (Suc d)
  let ?x = "of_nat (4096 * a) :: u32"
  have a: "a < 65536" "a < b" using Suc.prems(3) b by (auto simp: max_def split: if_splits)
  have ux: "unat ?x = 4096 * a" using a by (intro unat_page) simp
  have lt: "?x < of_nat (4096 * b)" unfolding word_less_nat_alt unat_page [OF b] ux using a by simp
  have px: "page ?x = a" unfolding page_def ux by simp
  have fx: "frame_of ?x = ?x" unfolding word_unat_eq_iff unat_frame ux by simp
  have nx: "?x + 4096 = of_nat (4096 * Suc a)" by simp
  have i: "a div 1024 < 64" using a(1) by (simp add: div_less_iff_less_mult)
  have pt: "phys mem (pd + 4 * pd_index ?x) AND 0xFFFFF000 = pt + of_nat (a div 1024) * 0x1000"
    unfolding index_entry px using Suc.prems(1) i frame_flags [OF kpage_table(1) [OF ok i], of 3] by (simp add: early_def)
  have ta: "(pt + of_nat (a div 1024) * 0x1000) + 4 * pt_index ?x = pte pt a" unfolding index_entry px table_pte ..
  let ?m = "put (pte pt a) (?x OR flags) mem"
  have e: "early pd pt (f(a := ?x OR flags)) ?m" using early_put [OF ok Suc.prems(1) a(1)] .
  have "Suc a \<le> 65536" "Suc a + d = max (Suc a) b" using a Suc.prems(3) by simp_all
  from Suc.IH [OF e this] obtain g where
    g: "early_mm_map_region pd (of_nat (4096 * Suc a)) (of_nat (4096 * b)) flags ?m = Some (?m\<lparr>phys := g\<rparr>)"
      "early pd pt (\<lambda>n. if Suc a \<le> n \<and> n < b then of_nat (4096 * n) OR flags else (f(a := ?x OR flags)) n) (?m\<lparr>phys := g\<rparr>)" by blast
  have m: "?m\<lparr>phys := g\<rparr> = mem\<lparr>phys := g\<rparr>" by (simp add: put_def)
  have "early_mm_map_region pd ?x (of_nat (4096 * b)) flags mem = Some (mem\<lparr>phys := g\<rparr>)"
    using g(1) unfolding m by (subst early_mm_map_region.simps) (simp only: lt if_True Let_def pt ta fx nx)
  moreover have "(\<lambda>n. if Suc a \<le> n \<and> n < b then of_nat (4096 * n) OR flags else (f(a := ?x OR flags)) n) =
    (\<lambda>n. if a \<le> n \<and> n < b then of_nat (4096 * n) OR flags else f n)" using a(2) by (auto simp: fun_eq_iff)
  ultimately show ?case using g(2) unfolding m by (intro exI [of _ g]) simp
qed

section \<open>The zones of the kernel\<close>

definition zone_end :: "u32 \<Rightarrow> bool" where
  "zone_end x \<longleftrightarrow> ASSERT_ALIGNED x \<and> x \<le> 0x10000000"

lemma zone_end_page: "zone_end x \<Longrightarrow> page x \<le> 65536 \<and> x = of_nat (4096 * page x)"
proof -
  assume "zone_end x"
  then have x: "frame_of x = x" "unat x \<le> 0x10000000" by (simp_all add: zone_end_def ASSERT_ALIGNED_def word_le_nat_alt)
  have "4096 * page x = unat x" using x(1) unat_frame [of x] by (simp add: page_def)
  then show ?thesis using x(2) by simp
qed

text \<open>The table entries after one more zone.\<close>

definition map_zone :: "u32 \<Rightarrow> u32 \<Rightarrow> u32 \<Rightarrow> (nat \<Rightarrow> u32) \<Rightarrow> nat \<Rightarrow> u32" where
  "map_zone a b flags f n = (if page a \<le> n \<and> n < page b then of_nat (4096 * n) OR flags else f n)"

lemma early_zone:
  assumes "tables_ok pd pt" "early pd pt f mem" "zone_end a" "zone_end b"
  shows "\<exists>g. early_mm_map_region pd a b flags mem = Some (mem\<lparr>phys := g\<rparr>) \<and>
    early pd pt (map_zone a b flags f) (mem\<lparr>phys := g\<rparr>)"
proof -
  have b: "page b \<le> 65536" "b = of_nat (4096 * page b)" and a: "page a \<le> 65536" "a = of_nat (4096 * page a)"
    using zone_end_page assms(3,4) by blast+
  from early_map_region [OF assms(1,2) b(1) a(1), of "max (page a) (page b) - page a" flags] show ?thesis
    unfolding a(2) [symmetric] b(2) [symmetric] map_zone_def [abs_def] by auto
qed

definition kernel_ptes :: "layout \<Rightarrow> nat \<Rightarrow> u32" where
  "kernel_ptes lay =
     map_zone (k_end lay) (mem_end lay) 3 (map_zone (bss_start lay) (bss_end lay) 3
    (map_zone (data_start lay) (data_end lay) 3 (map_zone (bootstrap_stack_start lay) (bootstrap_stack_end lay) 3
    (map_zone (rodata_start lay) (rodata_end lay) 1 (map_zone (multiboot_start lay) (multiboot_end lay) 1
    (map_zone (text_start lay) (text_end lay) 1 (map_zone (k_start lay) (text_start lay) 3
    (map_zone 4096 (k_start lay) 3 (\<lambda>_. 0)))))))))"

definition zone_ends :: "layout \<Rightarrow> bool" where
  "zone_ends lay \<longleftrightarrow> list_all zone_end
     [4096, k_start lay, text_start lay, text_end lay, multiboot_start lay, multiboot_end lay, rodata_start lay, rodata_end lay,
      bootstrap_stack_start lay, bootstrap_stack_end lay, data_start lay, data_end lay, bss_start lay, bss_end lay, k_end lay, mem_end lay]"

lemma early_then:
  assumes t: "tables_ok pd pt" and z: "zone_end a" "zone_end b" and e: "early pd pt f mem"
    and k: "\<And>m. early pd pt (map_zone a b flags f) m \<Longrightarrow> \<exists>g. K m = Some (m\<lparr>phys := g\<rparr>) \<and> early pd pt F (m\<lparr>phys := g\<rparr>)"
  shows "\<exists>g. Option.bind (early_mm_map_region pd a b flags mem) K = Some (mem\<lparr>phys := g\<rparr>) \<and> early pd pt F (mem\<lparr>phys := g\<rparr>)"
proof -
  from early_zone [OF t e z] obtain g where g: "early_mm_map_region pd a b flags mem = Some (mem\<lparr>phys := g\<rparr>)"
    "early pd pt (map_zone a b flags f) (mem\<lparr>phys := g\<rparr>)" by blast
  from k [OF g(2)] g(1) show ?thesis by auto
qed

lemma early_mm_map_kernel_ok:
  assumes t: "tables_ok (k_pgdir lay) (k_pgtab lay)" and z: "zone_ends lay"
  shows "\<exists>g. early_mm_map_kernel lay mem = Some (mem\<lparr>phys := g\<rparr>) \<and>
    early (k_pgdir lay) (k_pgtab lay) (kernel_ptes lay) (mem\<lparr>phys := g\<rparr>)"
proof -
  let ?d = "k_pgdir lay" and ?t = "k_pgtab lay"
  let ?m = "put ?t 0 (early_mm_fill_pgdir ?d ?t 64 (zero_words ?t (1024 * 64) mem))"
  note e = early_init [OF t, of mem]
  obtain g1 where g1: "zero_words ?t (1024 * 64) mem = mem\<lparr>phys := g1\<rparr>"
    unfolding zero_words_def by (rule exE [OF fold_put_phys])
  obtain g2 where g2: "fold (\<lambda>i. put (?d + 4 * of_nat i) ((?t + of_nat i * 0x1000) OR 3)) [0..<64] (mem\<lparr>phys := g1\<rparr>) = mem\<lparr>phys := g1\<rparr>\<lparr>phys := g2\<rparr>"
    by (rule exE [OF fold_put_phys])
  obtain g3 where g3: "early_mm_fill_pgdir ?d ?t 64 (mem\<lparr>phys := g1\<rparr>) = mem\<lparr>phys := g1\<rparr>\<lparr>phys := g2\<rparr>\<lparr>phys := g3\<rparr>"
    unfolding early_mm_fill_pgdir_def g2 by (rule exE [OF fold_put_phys])
  have s: "\<exists>g. ?m = mem\<lparr>phys := g\<rparr>" unfolding g1 g3 by (auto simp: put_def)
  have "\<exists>g. early_mm_map_kernel lay mem = Some (?m\<lparr>phys := g\<rparr>) \<and> early ?d ?t (kernel_ptes lay) (?m\<lparr>phys := g\<rparr>)"
    using z unfolding early_mm_map_kernel_def Let_def kernel_ptes_def zone_ends_def list.pred_inject
    apply (elim conjE)
    apply (rule early_then [OF t _ _ e], assumption, assumption)
    apply (rule early_then [OF t], assumption, assumption, assumption)+
    apply (rule early_zone [OF t], assumption, assumption, assumption)
    done
  then show ?thesis using s by auto
qed

section \<open>The layout of the linker script\<close>

text \<open>
  \<^verbatim>\<open>kernel/build/kernel.lds\<close>: the kernel starts at 1 MB with the code of \<^verbatim>\<open>crt0.S\<close> and the page
  tables, and its sections follow one another, each on pages of its own.
\<close>

definition linked :: "layout \<Rightarrow> bool" where
  "linked lay \<longleftrightarrow>
     k_start lay = 0x100000 \<and> k_pgdir lay = 0x101000 \<and> k_pgtab lay = 0x102000 \<and> mem_end lay = 0x10000000 \<and>
     list_all ASSERT_ALIGNED [text_start lay, multiboot_start lay, bootstrap_stack_start lay, rodata_start lay, data_start lay, bss_start lay, k_end lay] \<and>
     text_end lay = multiboot_start lay \<and> multiboot_end lay = bootstrap_stack_start lay \<and>
     bootstrap_stack_end lay = rodata_start lay \<and> rodata_end lay = data_start lay \<and> data_end lay = bss_start lay \<and>
     bss_end lay = k_end lay \<and>
     0x142000 \<le> text_start lay \<and> text_start lay < multiboot_start lay \<and> multiboot_start lay < bootstrap_stack_start lay \<and>
     bootstrap_stack_start lay < rodata_start lay \<and> rodata_start lay < data_start lay \<and> data_start lay < bss_start lay \<and>
     bss_start lay \<le> k_end lay \<and> k_end lay \<le> 0x4000000"

definition read_only :: "layout \<Rightarrow> u32 \<Rightarrow> bool" where
  "read_only lay va \<longleftrightarrow> text_start lay \<le> va \<and> va < text_end lay \<or>
     multiboot_start lay \<le> va \<and> va < multiboot_end lay \<or> rodata_start lay \<le> va \<and> va < rodata_end lay"

lemma aligned_page: "ASSERT_ALIGNED a \<Longrightarrow> unat a = 4096 * page a"
  using unat_frame [of a] by (simp add: ASSERT_ALIGNED_def page_def)

lemma aligned_le: "ASSERT_ALIGNED a \<Longrightarrow> a \<le> va \<longleftrightarrow> page a \<le> page va"
  unfolding word_le_nat_alt aligned_page page_def [of va] by (simp add: less_eq_div_iff_mult_less_eq mult.commute)

lemma aligned_less: "ASSERT_ALIGNED a \<Longrightarrow> va < a \<longleftrightarrow> page va < page a"
  using aligned_le [of a va] by (simp add: not_le [symmetric])

lemma aligned_numerals: "ASSERT_ALIGNED 0x1000" "ASSERT_ALIGNED 0x100000" "ASSERT_ALIGNED 0x142000"
    "ASSERT_ALIGNED 0x4000000" "ASSERT_ALIGNED 0x10000000"
  by (simp_all add: ASSERT_ALIGNED_def)

lemma page_numerals: "page 0x1000 = 1" "page 0x100000 = 256" "page 0x142000 = 322" "page 0x4000000 = 16384" "page 0x10000000 = 65536"
  by (simp_all add: page_def)

text \<open>The bounds of the sections, as page numbers.\<close>

lemma linked_pages:
  assumes "linked lay"
  shows "322 \<le> page (text_start lay)" "page (text_start lay) < page (multiboot_start lay)"
    "page (multiboot_start lay) < page (bootstrap_stack_start lay)" "page (bootstrap_stack_start lay) < page (rodata_start lay)"
    "page (rodata_start lay) < page (data_start lay)" "page (data_start lay) < page (bss_start lay)"
    "page (bss_start lay) \<le> page (k_end lay)" "page (k_end lay) \<le> 16384"
  using assms aligned_numerals aligned_le aligned_less page_numerals by (auto simp: linked_def)

lemma zone_end_iff: "zone_end x \<longleftrightarrow> ASSERT_ALIGNED x \<and> page x \<le> 65536"
  using aligned_le [of x "0x10000000"] page_numerals(5) by (auto simp: zone_end_def)

lemma linked_zones: "linked lay \<Longrightarrow> zone_ends lay"
  using linked_pages [of lay] aligned_numerals page_numerals by (simp add: linked_def zone_ends_def zone_end_iff)

lemma consistent_zone: "zone_end a \<Longrightarrow> zone_end b \<Longrightarrow> ASSERT_CONSISTENT a b \<longleftrightarrow> page a < page b"
proof -
  have s: "sint x = 4096 * int (page x)" if "zone_end x" for x
  proof -
    have u: "unat x = 4096 * page x" "page x \<le> 65536" using that aligned_page by (auto simp: zone_end_iff)
    then have "uint x = 4096 * int (page x)" by (metis of_nat_mult of_nat_numeral uint_nat)
    then show ?thesis using u(2) by (simp add: sint_uint signed_take_bit_int_eq_self)
  qed
  assume "zone_end a" "zone_end b"
  then show ?thesis unfolding ASSERT_CONSISTENT_def by (simp add: s) linarith
qed

lemma linked_check: "linked lay \<Longrightarrow> early_mm_check lay"
  using linked_pages [of lay] linked_zones [of lay] page_numerals aligned_numerals
  by (simp add: linked_def early_mm_check_def consistent_zone zone_ends_def)

lemma linked_tables: "linked lay \<Longrightarrow> tables_ok (k_pgdir lay) (k_pgtab lay)"
  by (simp add: linked_def tables_ok_def kpage_def)

lemma read_only_page:
  assumes "linked lay"
  shows "read_only lay va \<longleftrightarrow> page (text_start lay) \<le> page va \<and> page va < page (bootstrap_stack_start lay) \<or>
    page (rodata_start lay) \<le> page va \<and> page va < page (data_start lay)"
  using assms linked_pages [OF assms] by (auto simp: read_only_def linked_def aligned_le aligned_less)

lemma kmapped_page: "kmapped va \<longleftrightarrow> 1 \<le> page va \<and> page va < 65536"
  unfolding kmapped_def using aligned_le [of "0x1000" va] aligned_less [of "0x10000000" va] aligned_numerals page_numerals by simp

lemma linked_ptes:
  assumes "linked lay"
  shows "kernel_ptes lay (page va) = (if kmapped va then frame_of va OR (if read_only lay va then 1 else 3) else 0)"
proof -
  have f: "of_nat (4096 * page va) = frame_of va"
    unfolding word_unat_eq_iff unat_frame unat_of_nat page_def
    using unsigned_less [of va, where 'a = nat] div_times_less_eq_dividend [of "unat va" 4096] by (simp add: mult.commute)
  have e: "k_start lay = 0x100000" "mem_end lay = 0x10000000" "text_end lay = multiboot_start lay"
    "multiboot_end lay = bootstrap_stack_start lay" "bootstrap_stack_end lay = rodata_start lay"
    "rodata_end lay = data_start lay" "data_end lay = bss_start lay" "bss_end lay = k_end lay" using assms by (simp_all add: linked_def)
  show ?thesis unfolding kmapped_page read_only_page [OF assms] kernel_ptes_def map_zone_def e f page_numerals
    using linked_pages [OF assms] by (auto split: if_split)
qed

section \<open>The address space at boot\<close>

lemma early_table_of:
  assumes "tables_ok pd pt" "early pd pt f mem" "i < 1024"
  shows "table_of mem pd i = (if i < 64 then pt + of_nat i * 0x1000 else 0)"
  using assms(2,3) frame_flags [OF kpage_table(1) [OF assms(1)], of i 3] by (simp add: table_of_def early_def)

lemma early_space:
  assumes "tables_ok pd pt" "early pd pt f mem" "n < 1024 * 1024"
  shows "space mem pd n = (if n < 65536 \<and> bit (f n) 0 then Some (frame_of (f n)) else None)"
proof -
  have n: "n div 1024 < 1024" "n div 1024 < 64 \<longleftrightarrow> n < 65536" using assms(3) by (simp_all add: div_less_iff_less_mult)
  show ?thesis
  proof (cases "n < 65536")
    case True
    then have "table_of mem pd (n div 1024) = pt + of_nat (n div 1024) * 0x1000" "n div 1024 < 64"
      using early_table_of [OF assms(1,2) n(1)] n(2) by simp_all
    then show ?thesis using True assms(2) kpage_nonzero [OF kpage_table(1) [OF assms(1)], of "n div 1024"]
      by (simp add: space_def Let_def table_pte early_def)
  qed (use early_table_of [OF assms(1,2) n(1)] n(2) in \<open>simp add: space_def\<close>)
qed

lemma kmapped_frame: "kmapped va \<Longrightarrow> kpage (frame_of va)"
proof -
  assume "kmapped va"
  then have p: "1 \<le> page va" "page va < 65536" by (simp_all add: kmapped_page)
  have "unat (frame_of va) = 4096 * page va" unfolding unat_frame page_def by simp
  with p show ?thesis by (simp add: kpage_unat)
qed


definition ex_layout :: layout where
  "ex_layout =
     \<lparr>k_start = 0x100000, text_start = 0x142000, text_end = 0x160000, multiboot_start = 0x160000, multiboot_end = 0x161000,
      bootstrap_stack_start = 0x161000, bootstrap_stack_end = 0x162000, rodata_start = 0x162000, rodata_end = 0x200000,
      data_start = 0x200000, data_end = 0x210000, bss_start = 0x210000, bss_end = 0x240000, k_end = 0x240000,
      mem_end = 0x10000000, k_pgdir = 0x101000, k_pgtab = 0x102000\<rparr>"

lemma ex_layout_linked: "linked ex_layout"
  by (simp add: linked_def ex_layout_def ASSERT_ALIGNED_def)


text \<open>The last two checks, meant for \<^verbatim>\<open>.bss\<close>, look at \<^verbatim>\<open>.data\<close> again: \<^verbatim>\<open>.bss\<close> is not checked.\<close>

lemma bss_not_checked: "early_mm_check (lay\<lparr>bss_start := x, bss_end := y\<rparr>) = early_mm_check lay"
  by (simp add: early_mm_check_def)

end
