(* ===== verification/Cpu_Init.thy ===== *)
theory Cpu_Init
  imports Early_Mm
begin

unbundle bit_operations_syntax

text \<open>
  The segment and interrupt descriptor tables and the task state segments
  (\<^verbatim>\<open>kernel/boot/processor_structs.c\<close>), written to physical memory before paging is enabled.
  The linker script puts the interrupt descriptor table at \<open>0x1000\<close>, the global descriptor
  table at \<open>0x10000\<close> and the kernel's task state segment at \<open>0x20000\<close>. The instructions that
  load the processor's registers (\<^verbatim>\<open>lgdt\<close>, \<^verbatim>\<open>lidt\<close>, \<^verbatim>\<open>ltr\<close>, the segment registers) are outside
  the model.
\<close>

section \<open>Descriptors\<close>

abbreviation SZ_32 :: u32 where "SZ_32 \<equiv> 4"
abbreviation SZ_G :: u32 where "SZ_G \<equiv> 8"
abbreviation ACC_TASK_GATE :: u32 where "ACC_TASK_GATE \<equiv> 0x05"
abbreviation ACC_TSS :: u32 where "ACC_TSS \<equiv> 0x09"
abbreviation ACC_DATA_W :: u32 where "ACC_DATA_W \<equiv> 0x12"
abbreviation ACC_CODE_R :: u32 where "ACC_CODE_R \<equiv> 0x1A"
abbreviation ACC_PL_K :: u32 where "ACC_PL_K \<equiv> 0"
abbreviation ACC_PL_U :: u32 where "ACC_PL_U \<equiv> 0x60"
abbreviation ACC_P :: u32 where "ACC_P \<equiv> 0x80"

text \<open>The low and the high word of a descriptor.\<close>

definition fill_descriptor :: "u32 \<Rightarrow> u32 \<Rightarrow> u32 \<Rightarrow> u32 \<Rightarrow> u32 \<times> u32" where
  "fill_descriptor base limit access sizebits =
     (let (limit, sizebits) = (if limit > 0xFFFFF then (drop_bit 12 limit, sizebits OR SZ_G) else (limit, sizebits));
          p0 = (limit AND 0xFFFF) + push_bit 16 (base AND 0xFFFF);
          p1 = drop_bit 16 base AND 0xFF;
          p1 = p1 OR push_bit 8 ((access OR ACC_P) AND 0xFF);
          p1 = p1 OR (limit AND 0xF0000);
          p1 = p1 OR push_bit 20 (sizebits AND 0xF);
          p1 = p1 OR (base AND 0xFF000000)
      in (p0, p1))"

text \<open>\<open>selector\<close> is an unsigned short; \<open>access\<close> and \<open>word_count\<close> are unsigned chars.\<close>

definition fill_gate :: "u32 \<Rightarrow> u16 \<Rightarrow> u8 \<Rightarrow> u8 \<Rightarrow> u32 \<times> u32" where
  "fill_gate offset selector access word_count =
     (let p0 = offset AND 0xFFFF;
          p0 = p0 OR push_bit 16 (ucast selector);
          p1 = ucast word_count AND 0xF;
          p1 = p1 OR push_bit 8 (ucast access OR ACC_P);
          p1 = p1 OR (offset AND 0xFFFF0000)
      in (p0, p1))"

text \<open>\<^verbatim>\<open>*entry = ((unsigned long long) p1 << 32) | p0\<close>\<close>

definition put_pair :: "u32 \<Rightarrow> u32 \<times> u32 \<Rightarrow> mm_state \<Rightarrow> mm_state" where
  "put_pair a d mem = put (a + 4) (snd d) (put a (fst d) mem)"

section \<open>The tables\<close>

text \<open>What the rest of the image provides: the task state segments and the stack of the exception handlers, and their entry points.\<close>

record cpu_layout =
  trap_tss :: u32
  trap_stack :: u32
  exception_handler_tasks :: "nat \<Rightarrow> u32"
  first_stack :: u32

abbreviation idt :: u32 where "idt \<equiv> 0x1000"
abbreviation gdt :: u32 where "gdt \<equiv> 0x10000"
abbreviation tss :: u32 where "tss \<equiv> 0x20000"
abbreviation BASE_TSS :: u32 where "BASE_TSS \<equiv> 0x08"
abbreviation KERNEL_CS_SEL :: u32 where "KERNEL_CS_SEL \<equiv> 0x10"
abbreviation KERNEL_DS :: u32 where "KERNEL_DS \<equiv> 0x18"
abbreviation USER_CS :: u32 where "USER_CS \<equiv> 0x43"
abbreviation USER_DS :: u32 where "USER_DS \<equiv> 0x4B"
abbreviation TRAP_TSS_BASE :: u32 where "TRAP_TSS_BASE \<equiv> 0x50"
abbreviation HANDLER_ENTRIES :: nat where "HANDLER_ENTRIES \<equiv> 32"
abbreviation TSS_SIZE :: u32 where "TSS_SIZE \<equiv> 104"
abbreviation FIRST_STACK_SIZE :: u32 where "FIRST_STACK_SIZE \<equiv> 0x4000"

definition setup_gdt :: "cpu_layout \<Rightarrow> mm_state \<Rightarrow> mm_state" where
  "setup_gdt cl mem =
     (let mem = zero_words gdt 16384 mem;
          mem = put_pair (gdt + 8 * (BASE_TSS div 8)) (fill_descriptor tss (TSS_SIZE - 1) (ACC_PL_K OR ACC_TSS OR ACC_P) 0) mem;
          mem = put_pair (gdt + 8 * (KERNEL_CS_SEL div 8)) (fill_descriptor 0 0xFFFFFFFF (ACC_PL_K OR ACC_CODE_R) SZ_32) mem;
          mem = put_pair (gdt + 8 * (KERNEL_DS div 8)) (fill_descriptor 0 0xFFFFFFFF (ACC_PL_K OR ACC_DATA_W) SZ_32) mem;
          mem = put_pair (gdt + 8 * (USER_CS div 8)) (fill_descriptor 0 0xFFFFFFFF (ACC_PL_U OR ACC_CODE_R) SZ_32) mem;
          mem = put_pair (gdt + 8 * (USER_DS div 8)) (fill_descriptor 0 0xFFFFFFFF (ACC_PL_U OR ACC_DATA_W) SZ_32) mem
      in fold (\<lambda>i. put_pair (gdt + 8 * (of_nat i + TRAP_TSS_BASE div 8))
             (fill_descriptor (trap_tss cl + TSS_SIZE * of_nat i) (TSS_SIZE - 1) (ACC_PL_K OR ACC_TSS OR ACC_P) 0))
           [0..<HANDLER_ENTRIES] mem)"

text \<open>The fields of a task state segment at \<open>ts\<close>; the last word holds two shorts.\<close>

definition put_high :: "u32 \<Rightarrow> u32 \<Rightarrow> mm_state \<Rightarrow> mm_state" where
  "put_high a v mem = put a ((phys mem a AND 0xFFFF) OR push_bit 16 (v AND 0xFFFF)) mem"

definition put_low :: "u32 \<Rightarrow> u32 \<Rightarrow> mm_state \<Rightarrow> mm_state" where
  "put_low a v mem = put a ((phys mem a AND 0xFFFF0000) OR (v AND 0xFFFF)) mem"

definition setup_trap_tss :: "cpu_layout \<Rightarrow> u32 \<Rightarrow> nat \<Rightarrow> mm_state \<Rightarrow> mm_state" where
  "setup_trap_tss cl dir i mem =
     (let ts = trap_tss cl + TSS_SIZE * of_nat i;
          mem = put (ts + 8) KERNEL_DS mem;
          mem = put (ts + 4) (trap_stack cl + 16384) mem;
          mem = put (ts + 80) KERNEL_DS mem;
          mem = put (ts + 56) (phys mem (ts + 4)) mem;
          mem = put_high (ts + 100) TSS_SIZE mem;
          mem = put (ts + 76) KERNEL_CS_SEL mem;
          mem = put (ts + 32) (exception_handler_tasks cl i) mem;
          mem = put (ts + 84) KERNEL_DS mem;
          mem = put (ts + 72) KERNEL_DS mem;
          mem = put (ts + 88) 0 mem;
          mem = put (ts + 92) 0 mem;
          mem = put (ts + 36) 2 mem;
          mem = put_low (ts + 100) 0 mem
      in put (ts + 28) dir mem)"

definition setup_idt :: "cpu_layout \<Rightarrow> u32 \<Rightarrow> mm_state \<Rightarrow> mm_state" where
  "setup_idt cl dir mem =
     fold (\<lambda>i mem. put_pair (idt + 8 * of_nat i)
             (fill_gate 0 (ucast (TRAP_TSS_BASE + 8 * of_nat i)) (ucast (ACC_TASK_GATE + (if i = 3 then 0x60 else 0))) 0)
             (setup_trap_tss cl dir i mem))
       [0..<HANDLER_ENTRIES] (zero_words idt 512 mem)"

definition setup_tss :: "cpu_layout \<Rightarrow> u32 \<Rightarrow> mm_state \<Rightarrow> mm_state" where
  "setup_tss cl dir mem =
     (let mem = zero_words tss 26 mem;
          mem = put (tss + 8) KERNEL_DS mem;
          mem = put (tss + 4) (first_stack cl + FIRST_STACK_SIZE) mem;
          mem = put_high (tss + 100) TSS_SIZE mem
      in put (tss + 28) dir mem)"

text \<open>The bytes \<^verbatim>\<open>setup_pic\<close> sends to the ports of the two interrupt controllers, in order.\<close>

definition setup_pic :: "(u8 \<times> u16) list" where
  "setup_pic =
     [(0x11, 0x20), (0x20, 0x21), (0x4, 0x21), (0x1, 0x21),
      (0x11, 0xA0), (0x28, 0xA1), (0x2, 0xA1), (0x1, 0xA1),
      (0x20, 0x20), (0x20, 0xA0), (0xFF, 0x21), (0xFF, 0xA1)]"

definition cpu_init :: "cpu_layout \<Rightarrow> u32 \<Rightarrow> mm_state \<Rightarrow> mm_state \<times> (u8 \<times> u16) list" where
  "cpu_init cl dir mem = (setup_tss cl dir (setup_idt cl dir (setup_gdt cl mem)), setup_pic)"

section \<open>What the processor reads\<close>

text \<open>The base, the limit in bytes and the access byte of a descriptor, as the processor decodes them.\<close>

definition seg_base :: "u32 \<times> u32 \<Rightarrow> u32" where
  "seg_base d = drop_bit 16 (fst d) OR push_bit 16 (snd d AND 0xFF) OR (snd d AND 0xFF000000)"

definition seg_limit :: "u32 \<times> u32 \<Rightarrow> u32" where
  "seg_limit d = (let l = (fst d AND 0xFFFF) OR (snd d AND 0xF0000) in if bit (snd d) 23 then push_bit 12 l OR 0xFFF else l)"

definition seg_access :: "u32 \<times> u32 \<Rightarrow> u32" where
  "seg_access d = drop_bit 8 (snd d) AND 0xFF"

lemma masks:
  "(0xF :: u32) = mask 4" "(0xFF :: u32) = mask 8" "(0xFFF :: u32) = mask 12" "(0xFFFF :: u32) = mask 16"
  "(0xF0000 :: u32) = push_bit 16 (mask 4)" "(0xFF000000 :: u32) = NOT (mask 24)" "(0xFFFF0000 :: u32) = NOT (mask 16)"
  by (simp_all add: mask_eq_exp_minus_1 push_bit_eq_mult)

lemma low_high: "(a AND mask 16) + push_bit 16 (b AND mask 16) = (a AND mask 16) OR push_bit 16 (b AND mask 16 :: u32)"
  by (rule disjunctive_add) (auto simp: bit_simps)

text \<open>A descriptor for a limit of at most 20 bits, and one counted in pages.\<close>

definition descriptor_pair :: "u32 \<Rightarrow> u32 \<Rightarrow> u32 \<Rightarrow> u32 \<Rightarrow> u32 \<times> u32" where
  "descriptor_pair base limit access sizebits =
     ((limit AND mask 16) OR push_bit 16 (base AND mask 16),
      (drop_bit 16 base AND mask 8) OR push_bit 8 ((access OR ACC_P) AND mask 8) OR (limit AND push_bit 16 (mask 4)) OR
        push_bit 20 (sizebits AND mask 4) OR (base AND NOT (mask 24)))"

lemma fill_descriptor_eq:
  "fill_descriptor base limit access sizebits =
     (if limit > 0xFFFFF then descriptor_pair base (drop_bit 12 limit) access (sizebits OR SZ_G)
      else descriptor_pair base limit access sizebits)"
  unfolding fill_descriptor_def descriptor_pair_def Let_def masks low_high by (simp add: or.assoc)

text \<open>The parts of the two words do not overlap.\<close>

lemma pair_low:
  "drop_bit 16 (fst (descriptor_pair base limit access sizebits)) = base AND mask 16"
  "fst (descriptor_pair base limit access sizebits) AND mask 16 = limit AND mask 16"
  unfolding descriptor_pair_def fst_conv by (rule bit_word_eqI; auto simp: bit_simps)+

lemma pair_high:
  "snd (descriptor_pair base limit access sizebits) AND mask 8 = drop_bit 16 base AND mask 8"
  "snd (descriptor_pair base limit access sizebits) AND NOT (mask 24) = base AND NOT (mask 24)"
  "drop_bit 8 (snd (descriptor_pair base limit access sizebits)) AND mask 8 = (access OR ACC_P) AND mask 8"
  "snd (descriptor_pair base limit access sizebits) AND push_bit 16 (mask 4) = limit AND push_bit 16 (mask 4)"
  "bit (snd (descriptor_pair base limit access sizebits)) 23 = bit sizebits 3"
  unfolding descriptor_pair_def snd_conv by (rule bit_word_eqI; force simp: bit_simps)+ (simp add: bit_simps)

lemma base_parts: "(b AND mask 16) OR push_bit 16 (drop_bit 16 b AND mask 8) OR (b AND NOT (mask 24)) = (b :: u32)"
  by (rule bit_word_eqI) (auto simp: bit_simps)

lemma limit_parts: "l \<le> 0xFFFFF \<Longrightarrow> (l AND mask 16) OR (l AND push_bit 16 (mask 4)) = (l :: u32)"
proof -
  assume "l \<le> 0xFFFFF"
  then have "unat l < 2 ^ 20" by (simp add: word_le_nat_alt)
  then have "take_bit 20 l = l" unfolding word_unat_eq_iff by (simp add: unsigned_take_bit_eq take_bit_nat_eq_self)
  then have "bit l n \<Longrightarrow> n < 20" for n by (metis bit_take_bit_iff)
  then have "bit l n \<Longrightarrow> n - 16 < 4" for n by fastforce
  then show ?thesis by (intro bit_word_eqI) (auto simp: bit_simps)
qed

lemma pages_limit: "push_bit 12 (drop_bit 12 l) OR mask 12 = l OR (mask 12 :: u32)"
  by (rule bit_word_eqI) (auto simp: bit_simps)

lemma drop_limit: "drop_bit 12 (l :: u32) \<le> 0xFFFFF"
proof -
  have "unat l < 2 ^ 32" using unsigned_less [of l, where 'a = nat] by simp
  then have "unat l div 4096 < 2 ^ 20" by (intro less_mult_imp_div_less) simp
  then show ?thesis by (simp add: word_le_nat_alt unat_drop_bit_eq drop_bit_eq_div [where 'a = nat])
qed

text \<open>
  The processor reads in a descriptor what \<^verbatim>\<open>fill_descriptor\<close> was given; a limit that does not
  fit into 20 bits is rounded up to whole pages.
\<close>

lemma descriptor_fields:
  assumes "\<not> bit sizebits 3"
  shows "seg_base (fill_descriptor base limit access sizebits) = base"
    "seg_limit (fill_descriptor base limit access sizebits) = (if limit > 0xFFFFF then limit OR 0xFFF else limit)"
    "seg_access (fill_descriptor base limit access sizebits) = (access OR ACC_P) AND 0xFF"
proof -
  have b: "bit (sizebits OR SZ_G) 3" by (simp add: bit_simps)
  have "seg_base (descriptor_pair base l access z) = base" for l z
    unfolding seg_base_def masks pair_low pair_high base_parts ..
  moreover have "seg_access (descriptor_pair base l access z) = (access OR ACC_P) AND 0xFF" for l z
    unfolding seg_access_def masks pair_high ..
  moreover have "seg_limit (descriptor_pair base l access z) = (if bit z 3 then push_bit 12 l OR mask 12 else l)" if "l \<le> 0xFFFFF" for l z
    unfolding seg_limit_def Let_def masks pair_low pair_high limit_parts [OF that] ..
  ultimately show "seg_base (fill_descriptor base limit access sizebits) = base"
    "seg_limit (fill_descriptor base limit access sizebits) = (if limit > 0xFFFFF then limit OR 0xFFF else limit)"
    "seg_access (fill_descriptor base limit access sizebits) = (access OR ACC_P) AND 0xFF"
    unfolding fill_descriptor_eq using assms b drop_limit [of limit] pages_limit [of limit] masks(3) by simp_all
qed

section \<open>The segments\<close>

text \<open>The descriptor with a given index; a selector is eight times the index, and the privilege level.\<close>

definition slot :: "nat \<Rightarrow> u32" where
  "slot k = gdt + 8 * of_nat k"

definition segment :: "mm_state \<Rightarrow> nat \<Rightarrow> u32 \<times> u32" where
  "segment mem k = (phys mem (slot k), phys mem (slot k + 4))"

definition in_gdt :: "u32 \<Rightarrow> bool" where
  "in_gdt a \<longleftrightarrow> 0x10000 \<le> unat a \<and> unat a < 0x20000"

lemma put_outside: "in_gdt a \<Longrightarrow> \<not> in_gdt b \<Longrightarrow> phys (put b v mem) a = phys mem a"
  by (auto simp: put_def)

lemma fold_outside:
  assumes "\<And>i m. i \<in> set xs \<Longrightarrow> phys (f i m) a = phys m a"
  shows "phys (fold f xs mem) a = phys mem a"
  using assms by (induction xs arbitrary: mem) auto

lemma zero_outside: "in_gdt a \<Longrightarrow> (\<And>i. i < n \<Longrightarrow> \<not> in_gdt (b + 4 * of_nat i)) \<Longrightarrow> phys (zero_words b n mem) a = phys mem a"
  unfolding zero_words_def by (rule fold_outside) (simp add: put_outside)

definition trap_ok :: "cpu_layout \<Rightarrow> bool" where
  "trap_ok cl \<longleftrightarrow> 0x100000 \<le> unat (trap_tss cl) \<and> unat (trap_tss cl) \<le> 0x4000000"

lemma unat_small_add: "unat (a :: u32) + k < 2 ^ 32 \<Longrightarrow> unat (a + of_nat k) = unat a + k"
  by (simp add: unat_word_ariths unat_of_nat)

lemma trap_outside:
  assumes "trap_ok cl" "i < 32" "k \<le> 100"
  shows "\<not> in_gdt (trap_tss cl + TSS_SIZE * of_nat i + of_nat k)"
proof -
  have "unat (trap_tss cl + of_nat (104 * i + k)) = unat (trap_tss cl) + (104 * i + k)"
    using assms by (intro unat_small_add) (simp add: trap_ok_def)
  then show ?thesis using assms(1) by (simp add: in_gdt_def trap_ok_def add.assoc)
qed

lemma trap_tss_outside:
  assumes "trap_ok cl" "i < 32" "in_gdt a"
  shows "phys (setup_trap_tss cl dir i mem) a = phys mem a"
proof -
  note o = trap_outside [OF assms(1,2)]
  have "\<not> in_gdt (trap_tss cl + TSS_SIZE * of_nat i + k)" if "k \<in> {8, 4, 80, 56, 100, 76, 32, 84, 72, 88, 92, 36, 28}" for k
    using that o [of 8] o [of 4] o [of 80] o [of 56] o [of 100] o [of 76] o [of 32] o [of 84] o [of 72] o [of 88] o [of 92] o [of 36] o [of 28] by auto
  then show ?thesis unfolding setup_trap_tss_def Let_def put_high_def put_low_def using assms(3) by (simp add: put_outside)
qed

lemma idt_outside:
  assumes "trap_ok cl" "in_gdt a"
  shows "phys (setup_idt cl dir mem) a = phys mem a"
proof -
  have l: "\<not> in_gdt (idt + of_nat k)" if "k < 2048" for k
    using unat_small_add [of idt k] that by (simp add: in_gdt_def)
  have "phys (zero_words idt 512 mem) a = phys mem a"
    using l [of "4 * i" for i] by (intro zero_outside [OF assms(2)]) simp
  moreover have "phys (put_pair (idt + 8 * of_nat i) d m) a = phys m a" if "i < 32" for i d m
    using l [of "8 * i"] l [of "8 * i + 4"] that assms(2) by (simp add: put_pair_def put_outside add.assoc)
  ultimately show ?thesis unfolding setup_idt_def using trap_tss_outside [OF assms(1) _ assms(2)]
    by (subst fold_outside) simp_all
qed

lemma tss_outside: "in_gdt a \<Longrightarrow> phys (setup_tss cl dir mem) a = phys mem a"
proof -
  assume a: "in_gdt a"
  have l: "\<not> in_gdt (tss + of_nat k)" if "k < 2048" for k
    using unat_small_add [of tss k] that by (simp add: in_gdt_def)
  have "phys (zero_words tss 26 mem) a = phys mem a"
    using l [of "4 * i" for i] by (intro zero_outside [OF a]) simp
  then show ?thesis unfolding setup_tss_def Let_def put_high_def
    using a l [of 8] l [of 4] l [of 100] l [of 28] by (simp add: put_outside)
qed

lemma unat_slot: "k < 8192 \<Longrightarrow> unat (slot k) = 0x10000 + 8 * k" "k < 8192 \<Longrightarrow> unat (slot k + 4) = 0x10004 + 8 * k"
  by (simp_all add: slot_def unat_word_ariths unat_of_nat)

lemma segment_outside:
  assumes "\<And>a. in_gdt a \<Longrightarrow> phys mem' a = phys mem a" "k < 8192"
  shows "segment mem' k = segment mem k"
  using assms by (simp add: segment_def in_gdt_def unat_slot)

lemma segment_put: "j < 8192 \<Longrightarrow> k < 8192 \<Longrightarrow> segment (put_pair (slot k) d mem) j = (if j = k then d else segment mem j)"
proof -
  assume "j < 8192" "k < 8192"
  then have "slot j = slot k \<longleftrightarrow> j = k" "slot j + 4 = slot k + 4 \<longleftrightarrow> j = k" "slot j \<noteq> slot k + 4" "slot j + 4 \<noteq> slot k"
    by (auto simp: word_unat_eq_iff unat_slot) presburger+
  then show ?thesis by (auto simp: segment_def put_pair_def phys_put)
qed

lemma segment_fold:
  assumes "j < 8192" "n \<le> 32"
  shows "segment (fold (\<lambda>i. put_pair (slot (10 + i)) (d i)) [0..<n] mem) j = (if 10 \<le> j \<and> j < 10 + n then d (j - 10) else segment mem j)"
  using assms(2) by (induction n) (use assms(1) in \<open>auto simp: segment_put\<close>)

lemma segment_zero: "j < 8192 \<Longrightarrow> segment (zero_words gdt 16384 mem) j = (0, 0)"
proof -
  assume j: "j < 8192"
  have u: "unat (gdt + 4 * of_nat i) = 0x10000 + 4 * i" if "i < 16384" for i using that by (simp add: unat_word_ariths unat_of_nat)
  have "inj_on (\<lambda>i. gdt + 4 * of_nat i) {..<16384}" using u by (auto simp: inj_on_def word_unat_eq_iff)
  then have "phys (zero_words gdt 16384 mem) (gdt + 4 * of_nat i) = 0" if "i < 16384" for i
    unfolding zero_words_def using that fold_put_same [of "\<lambda>i. gdt + 4 * of_nat i" "[0..<16384]" i "\<lambda>_. 0" mem]
    by (simp add: atLeast0LessThan del: upt.simps)
  from this [of "2 * j"] this [of "2 * j + 1"] j show ?thesis by (simp add: segment_def slot_def algebra_simps)
qed

lemma setup_gdt_segments:
  assumes "j < 8192"
  shows "segment (setup_gdt cl mem) j =
    (if j = 1 then fill_descriptor tss (TSS_SIZE - 1) (ACC_PL_K OR ACC_TSS OR ACC_P) 0
     else if j = 2 then fill_descriptor 0 0xFFFFFFFF (ACC_PL_K OR ACC_CODE_R) SZ_32
     else if j = 3 then fill_descriptor 0 0xFFFFFFFF (ACC_PL_K OR ACC_DATA_W) SZ_32
     else if j = 8 then fill_descriptor 0 0xFFFFFFFF (ACC_PL_U OR ACC_CODE_R) SZ_32
     else if j = 9 then fill_descriptor 0 0xFFFFFFFF (ACC_PL_U OR ACC_DATA_W) SZ_32
     else if 10 \<le> j \<and> j < 42 then fill_descriptor (trap_tss cl + TSS_SIZE * of_nat (j - 10)) (TSS_SIZE - 1) (ACC_PL_K OR ACC_TSS OR ACC_P) 0
     else (0, 0))"
proof -
  have s: "gdt + 8 * (BASE_TSS div 8) = slot 1" "gdt + 8 * (KERNEL_CS_SEL div 8) = slot 2" "gdt + 8 * (KERNEL_DS div 8) = slot 3"
    "gdt + 8 * (USER_CS div 8) = slot 8" "gdt + 8 * (USER_DS div 8) = slot 9"
    "gdt + 8 * (of_nat i + TRAP_TSS_BASE div 8) = slot (10 + i)" for i by (simp_all add: slot_def)
  have z: "segment (zero_words gdt 16384 mem) j = (0, 0)" using segment_zero [OF assms] .
  show ?thesis unfolding setup_gdt_def Let_def s segment_fold [OF assms order_refl]
    using assms z by (simp add: segment_put)
qed

text \<open>A segment as the processor sees it: its base, its limit and its access byte.\<close>

definition segment_is :: "mm_state \<Rightarrow> u32 \<Rightarrow> u32 \<Rightarrow> u32 \<Rightarrow> u32 \<Rightarrow> bool" where
  "segment_is mem selector base limit access \<longleftrightarrow>
     (let d = segment mem (unat selector div 8) in seg_base d = base \<and> seg_limit d = limit \<and> seg_access d = access)"

lemma segment_after_init:
  assumes "trap_ok cl" "j < 8192"
  shows "segment (fst (cpu_init cl dir mem)) j = segment (setup_gdt cl mem) j"
  using assms idt_outside tss_outside by (intro segment_outside) (simp_all add: cpu_init_def)

lemma tss_segments:
  assumes "trap_ok cl"
  shows "segment_is (fst (cpu_init cl dir mem)) BASE_TSS tss 103 0x89"
    "i < 32 \<Longrightarrow> segment_is (fst (cpu_init cl dir mem)) (TRAP_TSS_BASE + 8 * of_nat i) (trap_tss cl + TSS_SIZE * of_nat i) 103 0x89"
proof -
  have z: "\<not> bit (0 :: u32) 3" by simp
  show "segment_is (fst (cpu_init cl dir mem)) BASE_TSS tss 103 0x89"
    using segment_after_init [OF assms] by (simp add: segment_is_def setup_gdt_segments descriptor_fields z)
  assume i: "i < 32"
  have "unat (TRAP_TSS_BASE + 8 * of_nat i) = 80 + 8 * i" using i by (simp add: unat_word_ariths unat_of_nat)
  then have "unat (TRAP_TSS_BASE + 8 * of_nat i) div 8 = 10 + i" by simp
  then show "segment_is (fst (cpu_init cl dir mem)) (TRAP_TSS_BASE + 8 * of_nat i) (trap_tss cl + TSS_SIZE * of_nat i) 103 0x89"
    using segment_after_init [OF assms, of "10 + i"] i descriptor_fields [OF z]
    by (simp add: segment_is_def setup_gdt_segments)
qed

text \<open>
  C35. After \<^verbatim>\<open>cpu_init\<close> the selectors of the kernel and of the user name flat segments of 4 GB,
  for code and for data, of privilege 0 and 3, and the selectors of the task state segments
  name the structures the kernel filled.
\<close>

theorem cpu_init_segments:
  assumes "trap_ok cl"
  shows "segment_is (fst (cpu_init cl dir mem)) KERNEL_CS_SEL 0 0xFFFFFFFF 0x9A \<and>
    segment_is (fst (cpu_init cl dir mem)) KERNEL_DS 0 0xFFFFFFFF 0x92 \<and>
    segment_is (fst (cpu_init cl dir mem)) USER_CS 0 0xFFFFFFFF 0xFA \<and>
    segment_is (fst (cpu_init cl dir mem)) USER_DS 0 0xFFFFFFFF 0xF2 \<and>
    segment_is (fst (cpu_init cl dir mem)) BASE_TSS tss 103 0x89 \<and>
    (\<forall>i < 32. segment_is (fst (cpu_init cl dir mem)) (TRAP_TSS_BASE + 8 * of_nat i) (trap_tss cl + TSS_SIZE * of_nat i) 103 0x89)"
proof -
  have z: "\<not> bit (0 :: u32) 3" "\<not> bit SZ_32 3" by (simp_all add: bit_simps)
  show ?thesis using segment_after_init [OF assms] tss_segments [OF assms]
    by (simp add: segment_is_def setup_gdt_segments descriptor_fields z)
qed

definition ex_cpu :: cpu_layout where
  "ex_cpu = \<lparr>trap_tss = 0x220000, trap_stack = 0x221000, exception_handler_tasks = (\<lambda>i. 0x150000 + of_nat i), first_stack = 0x161000\<rparr>"

theorem cpu_init_segments_witness:
  "segment_is (fst (cpu_init ex_cpu 0x101000 \<lparr>phys = (\<lambda>_. 0), PHYSICAL_MEMORY_HEAD = 0, next_virtual_address = 0, CR3 = 0\<rparr>))
     USER_CS 0 0xFFFFFFFF 0xFA"
  using cpu_init_segments [of ex_cpu "0x101000" "\<lparr>phys = (\<lambda>_. 0), PHYSICAL_MEMORY_HEAD = 0, next_virtual_address = 0, CR3 = 0\<rparr>"]
  by (simp add: trap_ok_def ex_cpu_def)

end
