(* ===== verification/Multiboot.thy ===== *)
theory Multiboot
  imports Early_Mm
begin

unbundle bit_operations_syntax

text \<open>
  The data of the boot loader (\<^verbatim>\<open>kernel/boot/multiboot.c\<close>), kept in the section
  \<^verbatim>\<open>.multiboot\<close> of the kernel, which the page tables then make read-only. Accesses are physical;
  the structure is aligned on words (\<^verbatim>\<open>MULTIBOOT_INFO_ALIGN\<close>).
\<close>

section \<open>The code\<close>

definition MULTIBOOT_BOOTLOADER_MAGIC :: u32 where
  "MULTIBOOT_BOOTLOADER_MAGIC = 0x2BADB002"

definition MULTIBOOT_INFO_MEMORY :: u32 where
  "MULTIBOOT_INFO_MEMORY = 1"

text \<open>The structure has 22 words: 20 of type \<^verbatim>\<open>unsigned\<close> and four half words for the video mode.\<close>

definition sizeof_multiboot_info :: nat where
  "sizeof_multiboot_info = 22 * 4"

definition flags_of :: "u32 \<Rightarrow> mm_state \<Rightarrow> u32" where
  "flags_of mb mem = phys mem mb"

definition mem_upper_of :: "u32 \<Rightarrow> mm_state \<Rightarrow> u32" where
  "mem_upper_of mb mem = phys mem (mb + 8)"

text \<open>\<^verbatim>\<open>memcpy(dst, src, 4 * n)\<close> on aligned words, from the first to the last.\<close>

definition memcpy_words :: "u32 \<Rightarrow> u32 \<Rightarrow> nat \<Rightarrow> mm_state \<Rightarrow> mm_state" where
  "memcpy_words dst src n mem =
     fold (\<lambda>i m. put (dst + 4 * of_nat i) (phys m (src + 4 * of_nat i)) m) [0..<n] mem"

text \<open>\<open>None\<close> is a failed assertion: the kernel executes \<^verbatim>\<open>hlt\<close> for ever.\<close>

definition multiboot_save :: "u32 \<Rightarrow> u32 \<Rightarrow> u32 \<Rightarrow> mm_state \<Rightarrow> mm_state option" where
  "multiboot_save mb_info magic mb mem =
     (if magic \<noteq> MULTIBOOT_BOOTLOADER_MAGIC then None
      else Some (memcpy_words mb_info mb (sizeof_multiboot_info div 4) mem))"

definition multiboot_upper_mem :: "u32 \<Rightarrow> mm_state \<Rightarrow> u32 option" where
  "multiboot_upper_mem mb_info mem =
     (if flags_of mb_info mem AND MULTIBOOT_INFO_MEMORY \<noteq> MULTIBOOT_INFO_MEMORY then None
      else Some (mem_upper_of mb_info mem + 1024))"

section \<open>The copy\<close>

text \<open>The words of the structure at \<open>a\<close>.\<close>

definition mb_words :: "u32 \<Rightarrow> u32 set" where
  "mb_words a = (\<lambda>i. a + 4 * of_nat i) ` {..<22::nat}"

lemma word_offset_inj:
  assumes "i < 22" "j < 22"
  shows "4 * (of_nat i :: u32) = 4 * of_nat j \<longleftrightarrow> i = j"
proof -
  have "unat (4 * (of_nat k :: u32)) = 4 * k" if "k < 22" for k
    using that by (simp add: unat_word_ariths unat_of_nat)
  from this [OF assms(1)] this [OF assms(2)] show ?thesis by (metis mult_cancel1 zero_neq_numeral)
qed

lemma memcpy_words_Suc:
  "memcpy_words dst src (Suc n) mem =
    (let m = memcpy_words dst src n mem in put (dst + 4 * of_nat n) (phys m (src + 4 * of_nat n)) m)"
  by (simp add: memcpy_words_def Let_def)

lemma memcpy_words_head [simp]: "PHYSICAL_MEMORY_HEAD (memcpy_words dst src n mem) = PHYSICAL_MEMORY_HEAD mem"
  by (induction n) (simp_all add: memcpy_words_Suc Let_def put_def memcpy_words_def [of _ _ 0])

text \<open>Between two structures apart from each other, every word is copied, and nothing else changes.\<close>

lemma memcpy_words_phys:
  assumes "mb_words dst \<inter> mb_words src = {}" "n \<le> 22"
  shows "phys (memcpy_words dst src n mem) a =
    (case find (\<lambda>i. a = dst + 4 * of_nat i) [0..<n] of None \<Rightarrow> phys mem a | Some i \<Rightarrow> phys mem (src + 4 * of_nat i))"
  using assms(2)
proof (induction n arbitrary: a)
  case 0
  then show ?case by (simp add: memcpy_words_def)
next
  case (Suc n)
  have "src + 4 * of_nat n \<noteq> dst + 4 * of_nat i" if "i < n" for i
    using that Suc.prems assms(1) by (fastforce simp: mb_words_def)
  then have src: "find (\<lambda>i. src + 4 * of_nat n = dst + 4 * of_nat i) [0..<n] = None"
    by (simp add: find_None_iff)
  have new: "find (\<lambda>i. dst + 4 * of_nat n = dst + 4 * of_nat i) [0..<n] = None"
    using Suc.prems word_offset_inj [of n] by (auto simp: find_None_iff)
  have fnd: "find P (xs @ [x]) = (case find P xs of None \<Rightarrow> if P x then Some x else None | Some y \<Rightarrow> Some y)" for P xs and x :: nat
    by (induction xs) simp_all
  show ?case using Suc src new
    by (cases "a = dst + 4 * of_nat n") (auto simp: memcpy_words_Suc Let_def put_def fnd split: option.splits)
qed

lemma multiboot_save_copies:
  assumes "mb_words mb_info \<inter> mb_words mb = {}"
  obtains m where "multiboot_save mb_info MULTIBOOT_BOOTLOADER_MAGIC mb mem = Some m"
    "\<And>i. i < 22 \<Longrightarrow> phys m (mb_info + 4 * of_nat i) = phys mem (mb + 4 * of_nat i)"
    "\<And>a. a \<notin> mb_words mb_info \<Longrightarrow> phys m a = phys mem a"
proof -
  let ?m = "memcpy_words mb_info mb 22 mem"
  have "multiboot_save mb_info MULTIBOOT_BOOTLOADER_MAGIC mb mem = Some ?m"
    by (simp add: multiboot_save_def sizeof_multiboot_info_def)
  moreover have "phys ?m (mb_info + 4 * of_nat i) = phys mem (mb + 4 * of_nat i)" if "i < 22" for i
  proof -
    have "find (\<lambda>j. mb_info + 4 * of_nat i = mb_info + 4 * of_nat j) [0..<22] = Some i"
      unfolding find_Some_iff using that word_offset_inj by (intro exI [of _ i]) auto
    then show ?thesis by (simp add: memcpy_words_phys [OF assms])
  qed
  moreover have "phys ?m a = phys mem a" if "a \<notin> mb_words mb_info" for a
  proof -
    have "find (\<lambda>i. a = mb_info + 4 * of_nat i) [0..<22] = None"
      using that by (auto simp: find_None_iff mb_words_def)
    then show ?thesis by (simp add: memcpy_words_phys [OF assms])
  qed
  ultimately show thesis by (rule that)
qed

text \<open>
  The amount of memory comes from the loader's structure, in kilobytes, counted from 0 instead of
  1 MB; without the information, or with another loader, the kernel halts.
\<close>

theorem multiboot_memory_size:
  assumes "mb_words mb_info \<inter> mb_words mb = {}"
  shows "Option.bind (multiboot_save mb_info magic mb mem) (multiboot_upper_mem mb_info) =
    (if magic = MULTIBOOT_BOOTLOADER_MAGIC \<and> bit (flags_of mb mem) 0
     then Some (mem_upper_of mb mem + 1024) else None)"
proof (cases "magic = MULTIBOOT_BOOTLOADER_MAGIC")
  case True
  obtain m where m: "multiboot_save mb_info MULTIBOOT_BOOTLOADER_MAGIC mb mem = Some m"
    "\<And>i. i < 22 \<Longrightarrow> phys m (mb_info + 4 * of_nat i) = phys mem (mb + 4 * of_nat i)"
    using multiboot_save_copies [OF assms] by blast
  have "flags_of mb_info m = flags_of mb mem" "mem_upper_of mb_info m = mem_upper_of mb mem"
    using m(2) [of 0] m(2) [of 2] by (simp_all add: flags_of_def mem_upper_of_def)
  moreover have "w AND MULTIBOOT_INFO_MEMORY = MULTIBOOT_INFO_MEMORY \<longleftrightarrow> bit w 0" for w
    by (simp add: MULTIBOOT_INFO_MEMORY_def and_one_eq bit_0 odd_iff_mod_2_eq_one)
  ultimately show ?thesis using True m(1) by (simp add: multiboot_upper_mem_def)
qed (simp add: multiboot_save_def)

lemma multiboot_memory_size_example:
  "Option.bind (multiboot_save 0x160000 MULTIBOOT_BOOTLOADER_MAGIC 0x9000 m) (multiboot_upper_mem 0x160000) =
     Some 130048" if "m = \<lparr>phys = (\<lambda>_. 0)(0x9000 := 0x247, 0x9008 := 129024), PHYSICAL_MEMORY_HEAD = 0, next_virtual_address = 0, CR3 = 0\<rparr>" for m
proof -
  have "mb_words 0x160000 \<inter> mb_words 0x9000 = {}"
    by (simp add: mb_words_def lessThan_nat_numeral lessThan_Suc)
  then show ?thesis
    by (simp add: multiboot_memory_size that flags_of_def mem_upper_of_def bit_0)
qed

end
