(* ===== verification/Boot.thy ===== *)
theory Boot
  imports Boot_Memory Cpu_Init Multiboot Example
begin

unbundle bit_operations_syntax

text \<open>
  From power-on to the first process: \<^verbatim>\<open>boot\<close> (\<^verbatim>\<open>kernel/boot/boot.c\<close>), \<^verbatim>\<open>kernel_start\<close>
  (\<^verbatim>\<open>kernel/start.c\<close>) and \<^verbatim>\<open>new_process_start_function\<close> (\<^verbatim>\<open>kernel/usermode.c\<close>). The boot code
  establishes the invariant that all other theorems about reachable states start from.
\<close>

section \<open>The code\<close>

text \<open>The words pushed before \<^verbatim>\<open>iret\<close>: stack segment, stack pointer, flags, code segment, entry point.\<close>

definition new_process_start_function :: "kstate \<Rightarrow> u32 list kresult" where
  "new_process_start_function st =
     bindE (tbl (current_pid st) st) (\<lambda>a. bindE (deref a st) (\<lambda>current_process.
       Inr [USER_DS, user_stack current_process, 0x202, USER_CS, ONE_GIGABYTE]))"

text \<open>A call of the core, and a call of the memory manager, that return to the boot code.\<close>

definition core :: "(kstate \<Rightarrow> ('a \<times> kstate) kresult) \<Rightarrow> sys \<Rightarrow> ('a \<times> sys) sresult" where
  "core f s = lift_trap (\<lambda>k. s\<lparr>ker := k\<rparr>) (bindE (f (ker s)) (\<lambda>(x, k). Inr (x, s\<lparr>ker := k\<rparr>)))"

definition memory :: "(mm_state \<Rightarrow> (mm_state, mm_state) result) \<Rightarrow> sys \<Rightarrow> sys sresult" where
  "memory f s = lift_trap (\<lambda>k. s\<lparr>ker := k\<rparr>) (bindE (mem_do f (ker s)) (\<lambda>k. Inr (s\<lparr>ker := k\<rparr>)))"

text \<open>
  \<open>handler n\<close> is the address of \<^verbatim>\<open>IT_n_handler\<close>; \<open>imr\<close> is the mask register of the interrupt
  controller. The result is what \<^verbatim>\<open>iret\<close> loads, the new mask and the state of the kernel.
\<close>

definition kernel_start :: "kparams \<Rightarrow> (nat \<Rightarrow> u32) \<Rightarrow> u8 \<Rightarrow> sys \<Rightarrow> (u32 list \<times> u8 \<times> sys) sresult" where
  "kernel_start kp handler imr s =
     bindE (memory init_free_list s) (\<lambda>s.
     let s = s\<lparr>scr := clear_screen (scr s)\<rparr>;
         s = s\<lparr>scr := set_cursor (current_lig (scr s)) (current_col (scr s)) (scr s)\<rparr>;
         s = s\<lparr>scr := write_info_titles (scr s)\<rparr> in
     bindE (memory (init_IT_handler 32 (handler 32) False) s) (\<lambda>s.
     bindE (memory (init_IT_handler 49 (handler 49) True) s) (\<lambda>s.
     bindE (memory (init_IT_handler 33 (handler 33) True) s) (\<lambda>s.
     bindE (memory (init_IT_handler 13 (handler 13) False) s) (\<lambda>s.
     bindE (memory (init_IT_handler 14 (handler 14) False) s) (\<lambda>s.
     let s = s\<lparr>ck := fst (set_clock_frequency 200 (ck s))\<rparr>;
         s = initalize_hash_head s in
     bindE (core (init_idle kp) s) (\<lambda>(p_idle, s).
     bindE (kcall (start kp ''autotest'' 4096 128 0) s) (\<lambda>(_, s).
     let s = s\<lparr>ker := (ker s)\<lparr>current_pid := 0\<rparr>\<rparr> in
     bindE (lift_trap (\<lambda>k. s\<lparr>ker := k\<rparr>) (deref p_idle (ker s))) (\<lambda>p.
     let s = s\<lparr>ker := (ker s)\<lparr>tss_esp0 := (fst (kernel_stack p), snd (kernel_stack p) + kernel_stack_size p)\<rparr>\<rparr>;
         imr = mask_IRQ 1 False (mask_IRQ 0 False imr) in
     bindE (lift_trap (\<lambda>k. s\<lparr>ker := k\<rparr>) (new_process_start_function (ker s))) (\<lambda>frame.
       Inr (frame, imr, s)))))))))))"

text \<open>
  \<^verbatim>\<open>boot\<close>. The free memory up to \<^verbatim>\<open>mem_heap_end\<close> (64 MB) is cleared; a failed check of the
  linkage, or a loader that is not a multiboot loader, halts for ever. \<open>magic\<close> and \<open>mb\<close> are what
  the loader leaves in \<^verbatim>\<open>eax\<close> and \<^verbatim>\<open>ebx\<close>. \<^verbatim>\<open>setup_pic\<close> leaves all interrupts masked.
\<close>

definition boot :: "u32 \<Rightarrow> u32 \<Rightarrow> layout \<Rightarrow> cpu_layout \<Rightarrow> kparams \<Rightarrow> (nat \<Rightarrow> u32) \<Rightarrow> sys \<Rightarrow> (u32 list \<times> u8 \<times> sys) sresult" where
  "boot magic mb lay cl kp handler s =
     (case multiboot_save (multiboot_start lay) magic mb (mm (ker s)) of
        None \<Rightarrow> Inl Loop
      | Some mem \<Rightarrow>
          let mem = zero_words (data_end lay) (unat (0x4000000 - data_end lay) div 4) mem;
              mem = fst (cpu_init cl (k_pgdir lay) mem) in
          if \<not> early_mm_check lay then Inl Loop
          else case early_mm_map_kernel lay mem of
            None \<Rightarrow> Inl Loop
          | Some mem \<Rightarrow>
              kernel_start kp handler 0xFF
                (s\<lparr>ker := (ker s)\<lparr>mm := mem\<lparr>CR3 := k_pgdir lay\<rparr>, tss_cr3 := k_pgdir lay\<rparr>\<rparr>))"

lemma boot_other_loader: "magic \<noteq> MULTIBOOT_BOOTLOADER_MAGIC \<Longrightarrow> boot magic mb lay cl kp handler s = Inl Loop"
  by (simp add: boot_def multiboot_save_def)

text \<open>The initial values of the kernel's variables.\<close>

definition kernel0 :: "(u32 \<Rightarrow> u32) \<Rightarrow> kstate" where
  "kernel0 ram =
     \<lparr>procs = (\<lambda>_. None), process_table = (\<lambda>_. None), current_pid = -1,
      qs = \<lparr>lists = (\<lambda>_. []), home = (\<lambda>_. None)\<rparr>,
      sems = (\<lambda>_. None), semaphore_table = (\<lambda>_. None), mqs = (\<lambda>_. None), queue_table = (\<lambda>_. None), brk = 0,
      mm = \<lparr>phys = ram, PHYSICAL_MEMORY_HEAD = MEMORY_START, next_virtual_address = 0xC0000000, CR3 = 0\<rparr>,
      tss_cr3 = 0, tss_esp0 = (0, 0), cpu = K_new_process, user_mem = (\<lambda>_ _. 0), time_count = 0\<rparr>"

definition sys0 :: "(u32 \<Rightarrow> u32) \<Rightarrow> sys" where
  "sys0 ram =
     \<lparr>ker = kernel0 ram, scr = screen0,
      ck = \<lparr>clock_ticks = 200, clock_frequency = 0, hours = 0, minutes = 0, seconds = 0\<rparr>,
      CONSOLE_ECHO = 1, readchar = 0, keyboard = kbd_dev0, NUMBER_SHARED_PAGES = 0, hash_head = table0\<rparr>"

section \<open>The page tables of the boot code\<close>

definition early_tables :: "u32 \<Rightarrow> u32 set" where
  "early_tables pt = (\<lambda>i. pt + of_nat i * 0x1000) ` {..<64}"

lemma low_not_block: "unat a < 0x4000000 \<Longrightarrow> a \<notin> set (block_run 0 12288)"
  by (auto simp: block_run_def unat_block_address)

lemma all_blocks_run: "all_blocks = block_run 0 12288"
  by (simp add: block_run_def)

lemma early_tables_ok:
  assumes "tables_ok pd pt" "x \<in> insert pd (early_tables pt)"
  shows "kpage x" "unat x < 0x4000000" "unat pd \<le> unat x"
proof -
  have pd: "kpage pd" "unat pd + 4096 \<le> unat pt" "unat pt + 0x40000 \<le> 0x4000000" using assms(1) by (simp_all add: tables_ok_def)
  from assms(2) consider "x = pd" | i where "i < 64" "x = pt + of_nat i * 0x1000" by (auto simp: early_tables_def)
  then have "kpage x \<and> unat x < 0x4000000 \<and> unat pd \<le> unat x"
  proof cases
    case 2
    with kpage_table [OF assms(1) 2(1)] pd show ?thesis by simp
  qed (use pd in simp)
  then show "kpage x" "unat x < 0x4000000" "unat pd \<le> unat x" by blast+
qed

lemma early_tables_inj:
  assumes "tables_ok pd pt" "i < 64" "j < 64"
  shows "pt + of_nat i * 0x1000 = pt + of_nat j * 0x1000 \<longleftrightarrow> i = j" "pt + of_nat i * 0x1000 \<noteq> pd"
proof -
  note u = kpage_table(2) [OF assms(1,2)] kpage_table(2) [OF assms(1,3)]
  show "pt + of_nat i * 0x1000 = pt + of_nat j * 0x1000 \<longleftrightarrow> i = j" unfolding word_unat_eq_iff u by simp
  have "unat pd + 4096 \<le> unat pt" using assms(1) by (simp add: tables_ok_def)
  then show "pt + of_nat i * 0x1000 \<noteq> pd" unfolding word_unat_eq_iff u by simp
qed

text \<open>After \<^verbatim>\<open>init_free_list\<close> the kernel's directory and its tables are in order, and all blocks are free.\<close>

lemma boot_paging:
  assumes t: "tables_ok pd pt" and e: "early pd pt f mem" and h: "PHYSICAL_MEMORY_HEAD mem = MEMORY_START" "CR3 mem = pd"
  shows "\<exists>m. init_free_list mem = Inr m \<and> paging pd (block_run 0 12288) {pd} (early_tables pt) m \<and>
    directory m pd (block_run 0 12288) \<and> CR3 m = pd"
proof -
  from init_free_list_ok [OF h(1)] obtain m where m: "init_free_list mem = Inr m" "free_list m (block_run 0 12288)" "CR3 m = pd"
    and same: "\<And>a. a \<notin> set (block_run 0 12288) \<Longrightarrow> phys m a = phys mem a" unfolding all_blocks_run h(2) by metis
  have pd: "kpage pd" "unat pd + 4096 \<le> unat pt" "unat pt + 0x40000 \<le> 0x4000000" using t by (simp_all add: tables_ok_def)
  have tab: "table_of m pd i = (if i < 64 then pt + of_nat i * 0x1000 else 0)" if "i < 1024" for i
  proof -
    have "unat (entry pd i) < 0x4000000" unfolding kpage_entry(1) [OF pd(1) that] using pd that by simp
    from same [OF low_not_block [OF this]] early_table_of [OF t e that] show ?thesis by (simp add: table_of_def)
  qed
  note ok = early_tables_ok [OF t]
  have free: "x \<notin> set (block_run 0 12288)" if "x \<in> insert pd (early_tables pt)" for x
    using low_not_block [OF ok(2) [OF that]] .
  have blocks: "list_all is_block (block_run 0 12288)" by (auto simp: list_all_iff block_run_def is_block_def)
  have nz: "pt + of_nat i * 0x1000 \<noteq> 0" "pt + of_nat i * 0x1000 \<in> early_tables pt" if "i < 64" for i
    using kpage_nonzero [OF kpage_table(1) [OF t that]] that by (auto simp: early_tables_def)
  have low: "kpage x \<and> (x < MEMORY_START \<or> is_block x)" if "x \<in> {pd} \<union> early_tables pt" for x
    using ok(1,2) [of x] that by (simp add: word_less_nat_alt)
  have "pd \<notin> early_tables pt" using early_tables_inj(2) [OF t] by (auto simp: early_tables_def)
  then have p: "paging pd (block_run 0 12288) {pd} (early_tables pt) m"
    unfolding paging_def using m(2,3) blocks free low tab nz by auto
  have "directory m pd (block_run 0 12288)" unfolding directory_def
    using pd(1) free tab nz ok(1) early_tables_inj [OF t] by (auto split: if_splits)
  with m p show ?thesis by blast
qed

section \<open>The interrupt descriptor table\<close>

text \<open>The memory while the kernel starts: the early tables above the first 8 KB, and all blocks free.\<close>

definition starting :: "u32 \<Rightarrow> u32 \<Rightarrow> mm_state \<Rightarrow> bool" where
  "starting pd pt mem \<longleftrightarrow> tables_ok pd pt \<and> 0x2000 \<le> unat pd \<and>
     paging pd (block_run 0 12288) {pd} (early_tables pt) mem \<and> directory mem pd (block_run 0 12288) \<and> CR3 mem = pd"

lemma not_in_page: "kpage x \<Longrightarrow> unat a < unat x \<Longrightarrow> \<not> in_page x a"
  using kpage_entry(1) [of x] by (auto simp: in_page_def)

lemma starting_store:
  assumes s: "starting pd pt mem" and a: "0x1000 \<le> unat a" "unat a < 0x2000"
  shows "store32 a v mem = Inr (mem\<lparr>phys := (phys mem)(a := v)\<rparr>)" "starting pd pt (mem\<lparr>phys := (phys mem)(a := v)\<rparr>)"
proof -
  have t: "tables_ok pd pt" and p: "paging pd (block_run 0 12288) {pd} (early_tables pt) mem" and d: "directory mem pd (block_run 0 12288)"
    and c: "CR3 mem = pd" "0x2000 \<le> unat pd" using s by (simp_all add: starting_def)
  have k: "kmapped a" using a by (simp add: kmapped_def word_le_nat_alt word_less_nat_alt)
  then show "store32 a v mem = Inr (mem\<lparr>phys := (phys mem)(a := v)\<rparr>)" by (simp add: store32_def)
  have out: "\<not> in_page x a" if "x \<in> insert pd (early_tables pt)" for x
    using early_tables_ok [OF t that] c(2) a(2) by (intro not_in_page) simp_all
  have "data_word (block_run 0 12288) {pd} a" using k out low_not_block [of a] a(2) by (simp add: data_word_def)
  note p' = paging_store [OF p this]
  have "directory (mem\<lparr>phys := (phys mem)(a := v)\<rparr>) pd (block_run 0 12288)"
  proof (rule store_keeps_space(1) [OF d])
    show "\<not> in_page (table_of mem pd i) a" if "i < 1024" "table_of mem pd i \<noteq> 0" for i
      using pagingD(7) [OF p, of pd i] that out by blast
  qed (use out in simp)
  with p' t c show "starting pd pt (mem\<lparr>phys := (phys mem)(a := v)\<rparr>)" by (simp add: starting_def)
qed

lemma starting_handler:
  assumes s: "starting pd pt mem" and n: "unat n < 256"
  shows "\<exists>m. init_IT_handler n h soft mem = Inr m \<and> starting pd pt m"
proof -
  have "unat (8 * n) = 8 * unat n" using n by (simp add: unat_word_ariths)
  then have u: "unat (0x1000 + 8 * n) = 0x1000 + 8 * unat n" "unat (0x1000 + 8 * n + 4) = 0x1004 + 8 * unat n"
    using n by (simp_all add: unat_word_ariths)
  have a: "0x1000 \<le> unat (0x1000 + 8 * n)" "unat (0x1000 + 8 * n) < 0x2000"
    "0x1000 \<le> unat (0x1000 + 8 * n + 4)" "unat (0x1000 + 8 * n + 4) < 0x2000" unfolding u using n by simp_all
  note s1 = starting_store [OF s a(1,2)]
  note s2 = starting_store [OF s1(2) a(3,4)]
  show ?thesis unfolding init_IT_handler_def Let_def s1(1) bindE_simps s2(1) using s2(2) by blast
qed

section \<open>The first two processes\<close>

definition idle_process :: "addr \<Rightarrow> u32 \<Rightarrow> Process" where
  "idle_process stk dir =
     \<lparr>pid = 0, name = ''idle'', kernel_stack = (stk, 0), user_stack = TWO_GIGABYTES + 1024 * 10, registers = K_new_process,
      state = ELECTED, initial_kernel_stack = (stk, 0), kernel_stack_size = 512, user_stack_size = 1024 * 10,
      priority = 1, wakeup_date = 0, father_pid = 0, children = [], waited_pid = 0, message = 0,
      skip_message = False, waited_sem = 0, retval = 0, cr3 = dir\<rparr>"

lemma init_idle_ok:
  assumes s: "starting pd pt (mm st)" and kp: "pgdir kp = pd"
    and u: "List.find (\<lambda>u. uname u = ''idle'') (symbols_table kp) = Some u" "program_ok u" "idle_blocks u \<le> 12288"
  shows "\<exists>m j T'. init_idle kp st = Inr (brk st, st\<lparr>brk := brk st + 2, process_table := (process_table st)(0 := Some (brk st)),
      procs := (procs st)(brk st := Some (idle_process (brk st + 1) pd)), mm := m\<rparr>) \<and>
    j \<le> idle_blocks u \<and> paging pd (block_run j (12288 - j)) {pd} T' m \<and> CR3 m = pd"
proof -
  have p: "paging pd (block_run 0 12288) {pd} (early_tables pt) (mm st)" "directory (mm st) pd (block_run 0 12288)" "CR3 (mm st) = pd"
    using s by (simp_all add: starting_def)
  from idle_memory [OF p _ u(3,2)] obtain m1 m2 m3 m4 m5 m6 j T' where
    m: "virtual_malloc 136 (mm st) = Inr (block_address 0, m1)" "virtual_malloc 5 m1 = Inr (block_address (0 + 1), m2)"
      "virtual_malloc 2048 m2 = Inr (block_address (0 + 2), m3)"
      "map_region pd ONE_GIGABYTE 7 (uend u - ustart u) m3 = Inr m4"
      "copy_to_virtual pd (nat (sint (uend u - ustart u))) ONE_GIGABYTE (ustart u) m4 = Inr m5"
      "map_region pd TWO_GIGABYTES 7 (4096 * 10) m5 = Inr m6"
    and j: "j \<le> idle_blocks u" "paging pd (block_run (0 + j) (12288 - j)) {pd} T' m6" "CR3 m6 = pd" by auto
  have "init_idle kp st = Inr (brk st, st\<lparr>brk := brk st + 2, process_table := (process_table st)(0 := Some (brk st)),
      procs := (procs st)(brk st := Some (idle_process (brk st + 1) pd)), mm := m6\<rparr>)"
    using m u(1) kp unfolding init_idle_def get_symbol_from_name_def
    by (simp add: mem_call_eq mem_do_eq Let_def idle_process_def)
  with j show ?thesis by auto
qed

text \<open>\<^verbatim>\<open>start\<close> when no process runs yet: the new process is queued.\<close>

lemma start_first:
  assumes mem: "start_mem_ok kp n ssize arg st" and c: "current_pid st = -1" "get_free_pid st = i" "i \<noteq> -1"
    and sz: "\<not> ssize > 0x10000000" "\<not> prio > MAXPRIO" and h: "home (qs st) (brk st) = None" "q_of Q_activable st = []"
  shows "\<exists>dir m. start kp n ssize prio arg st = Inr (Return i, st\<lparr>brk := brk st + 2, process_table := (process_table st)(i := Some (brk st)),
      procs := (procs st)(brk st := Some (init_process i n (brk st + 1) ssize prio dir (-1))), mm := m,
      qs := (qs st)\<lparr>lists := (lists (qs st))(Q_activable := [brk st]), home := (home (qs st))(brk st := Some Q_activable)\<rparr>\<rparr>)"
proof -
  from mem obtain dir ustack st1 m1 m2 where
    ld: "load_program kp n ssize (st\<lparr>brk := brk st + 1\<rparr>) = Inr ((dir, ustack), st1)"
    and m1: "store32u (ustack - 36) (of_int arg) (mm st1) = Inr m1"
    and m2: "pgdir_copy (pgdir kp) dir (ustack - 4) TWO_GIGABYTES (sint (ssize + 8)) m1 = Inr m2"
    unfolding start_mem_ok_def case_sum_Inr by (auto simp: mem_do_Inr)
  from load_program_mm [OF ld] obtain m where st1: "st1 = st\<lparr>brk := brk st + 1, mm := m\<rparr>" by auto
  let ?a = "brk st" and ?p = "init_process i n (brk st + 1) ssize prio dir (-1)"
  let ?st2 = "st\<lparr>brk := brk st + 2, process_table := (process_table st)(i := Some ?a), procs := (procs st)(?a := Some ?p), mm := m2\<rparr>"
  let ?st3 = "?st2\<lparr>qs := (qs st)\<lparr>lists := (lists (qs st))(Q_activable := [?a]), home := (home (qs st))(?a := Some Q_activable)\<rparr>\<rparr>"
  have gp: "get_free_pid st1 = i" using c(2) by (simp add: get_free_pid_def st1)
  have same: "upd ?a f ?st2 = ?st2" "upd ?a f ?st3 = ?st3" if "f ?p = ?p" for f using that by (simp_all add: upd_def fun_upd_idem)
  have "activate ?a ?st2 = Inr ?st3"
    unfolding activate_def set_state_and_queue_def
    by (subst same) (use h in \<open>simp_all add: kq_add_Inr qinsert_def init_process_def\<close>)
  then have "elect_or_queue ?a ?st2 = Inr (Return i, ?st3)"
    using c(1) same(2) [of "skip_message_update (\<lambda>_. False)"] by (simp add: elect_or_queue_def deref_def init_process_def)
  then have "start kp n ssize prio arg st = Inr (Return i, ?st3)"
    using ld st1 gp c sz m1 m2 by (simp add: start_def Let_def mem_do_eq add_child_def)
  then show ?thesis by auto
qed

section \<open>The state after boot\<close>

definition booted :: "u32 \<Rightarrow> u32 \<Rightarrow> kstate \<Rightarrow> bool" where
  "booted pd dir k \<longleftrightarrow>
     procs k = [0 \<mapsto> idle_process 1 pd, 2 \<mapsto> init_process 1 ''autotest'' 3 4096 128 dir (-1)] \<and>
     process_table k = [0 \<mapsto> 0, 1 \<mapsto> 2] \<and> current_pid k = 0 \<and>
     qs k = \<lparr>lists = (\<lambda>_. [])(Q_activable := [2]), home = [2 \<mapsto> Q_activable]\<rparr> \<and>
     sems k = Map.empty \<and> semaphore_table k = Map.empty \<and> mqs k = Map.empty \<and> queue_table k = Map.empty \<and> brk k = 4"

lemma booted_kinv:
  assumes "booted pd dir k"
  shows "kinv k"
proof -
  have f: "process_table k = [0 \<mapsto> 0, 1 \<mapsto> 2]" "current_pid k = 0" "q_of q k = (if q = Q_activable then [2] else [])"
    "home (qs k) = [2 \<mapsto> Q_activable]" "sems k = Map.empty" "semaphore_table k = Map.empty" "mqs k = Map.empty" "queue_table k = Map.empty"
    "brk k = 4" for q using assms by (simp_all add: booted_def)
  have pr: "procs k a = Some p \<longleftrightarrow> a = 0 \<and> p = idle_process 1 pd \<or> a = 2 \<and> p = init_process 1 ''autotest'' 3 4096 128 dir (-1)" for a p
    using assms by (auto simp: booted_def)
  note d = idle_process_def init_process_def
  have "wfq k" using f pr by (auto simp: wfq_def qwf_def split: if_splits)
  moreover have "tab k" using f by (auto simp: tab_def pr d split: if_splits)
  moreover have "places {0} k" using f by (auto simp: places_def place_ok_def pr d)
  moreover have "family {} k" using f by (auto simp: family_def child_of_def ended_def pr d split: if_splits)
  moreover have "idle_ok {0} k" using f by (auto simp: idle_ok_def pr d)
  moreover have "stale k" using f by (auto simp: stale_def pr d)
  moreover have "sem_inv (\<lambda>_. 0) k" using f by (simp add: sem_inv_def)
  moreover have "mq_inv k" using f by (simp add: mq_inv_def)
  moreover have "fresh k" using f by (auto simp: fresh_def pr intro: option.exhaust)
  moreover have "conts {0} k" using f by (auto simp: conts_def cont_ok_def ready_def pr d)
  moreover have "\<exists>p. procs k 0 = Some p \<and> state p = ELECTED \<and> \<not> skip_message p" using pr by (auto simp: d)
  ultimately show ?thesis using f by (auto simp: kinv_def kI_def)
qed

lemma memory_eq: "f (mm (ker s)) = Inr m \<Longrightarrow> memory f s = Inr (s\<lparr>ker := (ker s)\<lparr>mm := m\<rparr>\<rparr>)"
  by (simp add: memory_def mem_do_eq)

lemma core_eq: "f (ker s) = Inr (x, k) \<Longrightarrow> core f s = Inr (x, s\<lparr>ker := k\<rparr>)"
  by (simp add: core_def)

lemma kcall_eq: "f (ker s) = Inr (fl, k) \<Longrightarrow> kcall f s = Inr (fl, s\<lparr>ker := k\<rparr>)"
  by (simp add: kcall_def)

lemma memory_starting:
  assumes "starting pd pt (mm (ker s))" "unat n < 256"
  obtains m where "memory (init_IT_handler n h soft) s = Inr (s\<lparr>ker := (ker s)\<lparr>mm := m\<rparr>\<rparr>)" "starting pd pt m"
  using starting_handler [OF assms] memory_eq by blast

lemma start_devices:
  assumes "on_screen (scr s)"
  shows "on_screen (write_info_titles (set_cursor (current_lig (scr s)) (current_col (scr s)) (clear_screen (scr s))))"
proof -
  have "on_screen (set_cursor (current_lig (scr s)) (current_col (scr s)) (clear_screen (scr s)))"
    using assms set_cursor_pos [of "current_lig (scr s)" "current_col (scr s)" "clear_screen (scr s)"] by (simp add: on_screen_def)
  then show ?thesis unfolding write_info_titles_def by simp
qed

lemma free_pid_1: "process_table st = [0 \<mapsto> a] \<Longrightarrow> get_free_pid st = 1"
  by (simp add: get_free_pid_def eval_nat_numeral)

text \<open>What the image provides for the first two processes, and the memory they take.\<close>

definition programs_ok :: "kparams \<Rightarrow> bool" where
  "programs_ok kp \<longleftrightarrow>
     (\<exists>u v. List.find (\<lambda>u. uname u = ''idle'') (symbols_table kp) = Some u \<and> program_ok u \<and>
        List.find (\<lambda>u. uname u = ''autotest'') (symbols_table kp) = Some v \<and> program_ok v \<and>
        idle_blocks u + start_blocks v 4096 \<le> 12288)"

lemma first_processes:
  assumes st: "starting pd pt (mm k)" and kp: "pgdir kp = pd" "programs_ok kp"
    and k: "procs k = Map.empty" "process_table k = Map.empty" "current_pid k = -1"
      "qs k = \<lparr>lists = (\<lambda>_. []), home = Map.empty\<rparr>" "sems k = Map.empty" "semaphore_table k = Map.empty"
      "mqs k = Map.empty" "queue_table k = Map.empty" "brk k = 0"
  shows "\<exists>k1 k2 dir. init_idle kp k = Inr (0, k1) \<and> start kp ''autotest'' 4096 128 0 k1 = Inr (Return 1, k2) \<and>
    booted pd dir (k2\<lparr>current_pid := 0\<rparr>) \<and> time_count k2 = time_count k"
proof -
  from kp(2) obtain u v where u: "List.find (\<lambda>u. uname u = ''idle'') (symbols_table kp) = Some u" "program_ok u"
    and v: "List.find (\<lambda>u. uname u = ''autotest'') (symbols_table kp) = Some v" "program_ok v"
    and b: "idle_blocks u + start_blocks v 4096 \<le> 12288" by (auto simp: programs_ok_def)
  from init_idle_ok [OF st kp(1) u] b obtain m j T' where
    i: "init_idle kp k = Inr (brk k, k\<lparr>brk := brk k + 2, process_table := (process_table k)(0 := Some (brk k)),
      procs := (procs k)(brk k := Some (idle_process (brk k + 1) pd)), mm := m\<rparr>)"
    and j: "j \<le> idle_blocks u" "paging pd (block_run j (12288 - j)) {pd} T' m" by auto
  let ?k1 = "k\<lparr>brk := 2, process_table := [0 \<mapsto> 0], procs := [0 \<mapsto> idle_process 1 pd], mm := m\<rparr>"
  have i': "init_idle kp k = Inr (0, ?k1)" using i k by simp
  let ?r = "12288 - j - start_blocks v 4096"
  have "12288 - j = start_blocks v 4096 + ?r" using j(1) b by simp
  then have p: "paging (pgdir kp) (block_run j (start_blocks v 4096 + ?r) @ []) {pd} T' (mm ?k1)" using j(2) kp(1) by simp
  have "start_mem_ok kp ''autotest'' 4096 0 ?k1" using j(1) b by (intro start_memory [OF p _ _ _ v]) simp_all
  moreover have "get_free_pid ?k1 = 1" by (rule free_pid_1) simp
  ultimately obtain dir m' where
    "start kp ''autotest'' 4096 128 0 ?k1 = Inr (Return 1, ?k1\<lparr>brk := 4, process_table := [0 \<mapsto> 0, 1 \<mapsto> 2],
      procs := [0 \<mapsto> idle_process 1 pd, 2 \<mapsto> init_process 1 ''autotest'' 3 4096 128 dir (-1)], mm := m',
      qs := \<lparr>lists = (\<lambda>_. [])(Q_activable := [2]), home = [2 \<mapsto> Q_activable]\<rparr>\<rparr>)"
    using start_first [of kp "''autotest''" 4096 0 ?k1 1 128] k by auto
  with i' k show ?thesis
    by - (rule exI [of _ ?k1], rule exI, rule exI [of _ dir], intro conjI, assumption, assumption, simp_all add: booted_def)
qed

lemma kernel_start_ok:
  assumes t: "tables_ok pd pt" "0x2000 \<le> unat pd" and e: "early pd pt f (mm (ker s))"
    and m: "PHYSICAL_MEMORY_HEAD (mm (ker s)) = MEMORY_START" "CR3 (mm (ker s)) = pd"
    and kp: "pgdir kp = pd" "programs_ok kp" and d: "on_screen (scr s)" "kbd_ok (keyboard s)"
    and k: "procs (ker s) = Map.empty" "process_table (ker s) = Map.empty" "current_pid (ker s) = -1"
      "qs (ker s) = \<lparr>lists = (\<lambda>_. []), home = Map.empty\<rparr>" "sems (ker s) = Map.empty" "semaphore_table (ker s) = Map.empty"
      "mqs (ker s) = Map.empty" "queue_table (ker s) = Map.empty" "brk (ker s) = 0"
  shows "\<exists>s' dir. kernel_start kp handler imr s =
      Inr ([USER_DS, TWO_GIGABYTES + 1024 * 10, 0x202, USER_CS, ONE_GIGABYTE], mask_IRQ 1 False (mask_IRQ 0 False imr), s') \<and>
    booted pd dir (ker s') \<and> devices_ok s'"
proof -
  from boot_paging [OF t(1) e m] t obtain m0 where i0: "init_free_list (mm (ker s)) = Inr m0" and s0: "starting pd pt m0"
    by (auto simp: starting_def)
  let ?w = "\<lambda>x. s\<lparr>ker := (ker s)\<lparr>mm := x\<rparr>, scr := write_info_titles (set_cursor (current_lig (scr s)) (current_col (scr s)) (clear_screen (scr s)))\<rparr>"
  obtain m1 where m1: "init_IT_handler 32 (handler 32) False m0 = Inr m1" and s1: "starting pd pt m1" using starting_handler [OF s0, of 32] by fastforce
  obtain m2 where m2: "init_IT_handler 49 (handler 49) True m1 = Inr m2" and s2: "starting pd pt m2" using starting_handler [OF s1, of 49] by fastforce
  obtain m3 where m3: "init_IT_handler 33 (handler 33) True m2 = Inr m3" and s3: "starting pd pt m3" using starting_handler [OF s2, of 33] by fastforce
  obtain m4 where m4: "init_IT_handler 13 (handler 13) False m3 = Inr m4" and s4: "starting pd pt m4" using starting_handler [OF s3, of 13] by fastforce
  obtain m5 where m5: "init_IT_handler 14 (handler 14) False m4 = Inr m5" and s5: "starting pd pt m5" using starting_handler [OF s4, of 14] by fastforce
  let ?k = "(ker s)\<lparr>mm := m5\<rparr>"
  have "starting pd pt (mm ?k)" using s5 by simp
  from first_processes [OF this kp] k obtain k1 k2 dir where
    k1: "init_idle kp ?k = Inr (0, k1)" and k2: "start kp ''autotest'' 4096 128 0 k1 = Inr (Return 1, k2)" and b: "booted pd dir (k2\<lparr>current_pid := 0\<rparr>)" by auto
  have b0: "procs k2 0 = Some (idle_process 1 pd)" "process_table k2 0 = Some 0" using b by (auto simp: booted_def)
  let ?s' = "(?w m5)\<lparr>ck := fst (set_clock_frequency 200 (ck s)), hash_head := snd (hash_init_string True (hash_head s)),
    ker := k2\<lparr>current_pid := 0, tss_esp0 := (1, 512)\<rparr>\<rparr>"
  have "kernel_start kp handler imr s =
      Inr ([USER_DS, TWO_GIGABYTES + 1024 * 10, 0x202, USER_CS, ONE_GIGABYTE], mask_IRQ 1 False (mask_IRQ 0 False imr), ?s')"
    unfolding kernel_start_def Let_def using i0 m1 m2 m3 m4 m5 k1 k2 b0
    by (simp add: memory_eq core_eq kcall_eq initalize_hash_head_def deref_def tbl_def new_process_start_function_def idle_process_def)
  moreover have "booted pd dir (ker ?s')" using b by (simp add: booted_def)
  moreover have "devices_ok ?s'" using start_devices [OF d(1)] d(2) init_tables(1) by (simp add: devices_ok_def set_clock_frequency_def Let_def)
  ultimately show ?thesis by blast
qed

lemma put_head [simp]: "PHYSICAL_MEMORY_HEAD (put a v mem) = PHYSICAL_MEMORY_HEAD mem"
  by (simp add: put_def)

lemma fold_head: "(\<And>i m. PHYSICAL_MEMORY_HEAD (f i m) = PHYSICAL_MEMORY_HEAD m) \<Longrightarrow> PHYSICAL_MEMORY_HEAD (fold f xs mem) = PHYSICAL_MEMORY_HEAD mem"
  by (induction xs arbitrary: mem) simp_all

lemma cpu_init_head: "PHYSICAL_MEMORY_HEAD (fst (cpu_init cl dir (zero_words a n mem))) = PHYSICAL_MEMORY_HEAD mem"
proof -
  have z: "PHYSICAL_MEMORY_HEAD (zero_words a n m) = PHYSICAL_MEMORY_HEAD m" for a n m
    unfolding zero_words_def by (rule fold_head) simp
  have "PHYSICAL_MEMORY_HEAD (setup_gdt cl m) = PHYSICAL_MEMORY_HEAD m" for m
    unfolding setup_gdt_def Let_def by (subst fold_head) (simp_all add: put_pair_def z)
  moreover have "PHYSICAL_MEMORY_HEAD (setup_idt cl dir m) = PHYSICAL_MEMORY_HEAD m" for m
    unfolding setup_idt_def by (subst fold_head) (simp_all add: put_pair_def setup_trap_tss_def Let_def put_high_def put_low_def z)
  moreover have "PHYSICAL_MEMORY_HEAD (setup_tss cl dir m) = PHYSICAL_MEMORY_HEAD m" for m
    by (simp add: setup_tss_def Let_def put_high_def z)
  ultimately show ?thesis by (simp add: cpu_init_def z)
qed

lemma boot_ok:
  assumes "linked lay" "pgdir kp = k_pgdir lay" "programs_ok kp"
  shows "\<exists>s dir. boot MULTIBOOT_BOOTLOADER_MAGIC mb lay cl kp handler (sys0 ram) =
      Inr ([USER_DS, TWO_GIGABYTES + 1024 * 10, 0x202, USER_CS, ONE_GIGABYTE], 0xFC, s) \<and>
    booted (k_pgdir lay) dir (ker s) \<and> sysinv s"
proof -
  let ?c = "memcpy_words (multiboot_start lay) mb (sizeof_multiboot_info div 4) (mm (ker (sys0 ram)))"
  let ?m = "fst (cpu_init cl (k_pgdir lay) (zero_words (data_end lay) (unat (0x4000000 - data_end lay) div 4) ?c))"
  note t = linked_tables [OF assms(1)]
  from early_mm_map_kernel_ok [OF t linked_zones [OF assms(1)], of ?m] obtain g where
    g: "early_mm_map_kernel lay ?m = Some (?m\<lparr>phys := g\<rparr>)" "early (k_pgdir lay) (k_pgtab lay) (kernel_ptes lay) (?m\<lparr>phys := g\<rparr>)" by blast
  let ?s = "(sys0 ram)\<lparr>ker := (ker (sys0 ram))\<lparr>mm := ?m\<lparr>phys := g, CR3 := k_pgdir lay\<rparr>, tss_cr3 := k_pgdir lay\<rparr>\<rparr>"
  have b: "boot MULTIBOOT_BOOTLOADER_MAGIC mb lay cl kp handler (sys0 ram) = kernel_start kp handler 0xFF ?s"
    using g(1) linked_check [OF assms(1)] by (simp add: boot_def multiboot_save_def)
  have e: "early (k_pgdir lay) (k_pgtab lay) (kernel_ptes lay) (mm (ker ?s))" using g(2) by (simp add: early_def)
  have pd: "0x2000 \<le> unat (k_pgdir lay)" using assms(1) by (simp add: linked_def)
  have hd: "PHYSICAL_MEMORY_HEAD (mm (ker ?s)) = MEMORY_START" by (simp add: cpu_init_head) (simp add: sys0_def kernel0_def)
  have imr: "mask_IRQ 1 False (mask_IRQ 0 False 0xFF) = 0xFC" by (simp add: mask_IRQ_def)
  from kernel_start_ok [OF t pd e hd _ assms(2,3), of handler "0xFF"] obtain s dir where
    "kernel_start kp handler 0xFF ?s = Inr ([USER_DS, TWO_GIGABYTES + 1024 * 10, 0x202, USER_CS, ONE_GIGABYTE], 0xFC, s)"
    and s: "booted (k_pgdir lay) dir (ker s)" "devices_ok s"
    unfolding imr by (auto simp: sys0_def kernel0_def on_screen_def screen0_def kbd_ok_dev0)
  moreover have "sysinv s" using booted_kinv [OF s(1)] s(2) by (simp add: sysinv_def)
  ultimately show ?thesis unfolding b using s(1) by blast
qed


definition boot_params :: kparams where
  "boot_params = \<lparr>symbols_table = [\<lparr>uname = ''idle'', ustart = 0x170000, uend = 0x172000\<rparr>,
     \<lparr>uname = ''autotest'', ustart = 0x172000, uend = 0x180000\<rparr>], pgdir = 0x101000\<rparr>"

lemma boot_params_ok: "programs_ok boot_params"
  by (simp add: programs_ok_def boot_params_def program_ok_def idle_blocks_def start_blocks_def pages_def)


end
