(* ===== verification/Liveness.thy ===== *)
theory Liveness
  imports Kernel_Props Boot
begin

text \<open>
  Round robin: a process that is ready and that no other process outranks gets the processor
  within a bounded number of timer interrupts. The time slices before its turn are counted by
  the processes that stand between it and the end of \<^verbatim>\<open>activable_list\<close>.
\<close>

section \<open>The place of a process in the list\<close>

text \<open>\<open>ys\<close> are the processes that are elected before \<open>a\<close>.\<close>

definition waits :: "addr \<Rightarrow> addr list \<Rightarrow> kstate \<Rightarrow> bool" where
  "waits a ys st \<longleftrightarrow> (\<exists>xs. q_of Q_activable st = xs @ a # ys)"

definition unsurpassed :: "addr \<Rightarrow> kstate \<Rightarrow> bool" where
  "unsurpassed a st \<longleftrightarrow> (\<forall>b p. procs st b = Some p \<longrightarrow> priority p \<le> prio_of st a)"

lemma qinsert_before:
  assumes "f e \<le> f a"
  shows "\<exists>zs. qinsert f e (xs @ a # ys) = zs @ a # ys"
  using assms by (induction xs) (auto simp: qinsert_def)

lemma waits_same: "q_of Q_activable st' = q_of Q_activable st \<Longrightarrow> waits a ys st' = waits a ys st"
  by (simp add: waits_def)

lemma activate_prio: "activate c st = Inr st' \<Longrightarrow> prio_of st' = prio_of st"
  by (auto simp: activate_def set_state_and_queue_def kq_add_Inr prio_of_def fun_eq_iff split: option.splits)

lemma waits_activate:
  assumes "waits a ys st" "activate c st = Inr st'" "prio_of st c \<le> prio_of st a"
  shows "waits a ys st'"
proof -
  let ?st = "upd c (state_update (\<lambda>_. ACTIVABLE)) st"
  have f: "prio_of ?st = prio_of st" by (auto simp: prio_of_def fun_eq_iff split: option.splits)
  from assms(2) have "q_of Q_activable st' = qinsert (prio_of st) c (q_of Q_activable st)"
    unfolding activate_def set_state_and_queue_def kq_add_Inr f by auto
  with assms(1) qinsert_before [of "prio_of st" c a, OF assms(3)] show ?thesis by (auto simp: waits_def)
qed

text \<open>What a step must keep for a process to keep its place.\<close>

definition same_prio :: "kstate \<Rightarrow> kstate \<Rightarrow> bool" where
  "same_prio st st' \<longleftrightarrow> (\<forall>b p'. procs st' b = Some p' \<longrightarrow> (\<exists>p. procs st b = Some p \<and> priority p' = priority p))"

lemma same_prio_refl [simp]: "same_prio st st"
  by (simp add: same_prio_def)

lemma same_prio_trans: "same_prio st st1 \<Longrightarrow> same_prio st1 st2 \<Longrightarrow> same_prio st st2"
  unfolding same_prio_def by metis

lemma kept_same_prio: "kept F st st' \<Longrightarrow> same_prio st st'"
  unfolding kept_def same_prio_def by (metis moved_fields(2))

lemma unsurpassed_keep:
  assumes "unsurpassed a st" "same_prio st st'" "procs st' a \<noteq> None"
  shows "unsurpassed a st'"
proof -
  from assms(3) obtain p' where p': "procs st' a = Some p'" by blast
  with assms(2) obtain p where "procs st a = Some p" "priority p' = priority p" unfolding same_prio_def by blast
  with p' have "prio_of st' a = prio_of st a" by (simp add: prio_of_def)
  with assms(1,2) show ?thesis unfolding unsurpassed_def same_prio_def by metis
qed

section \<open>One election\<close>

lemma free_all_activable: "free_all st = Inr st' \<Longrightarrow> q_of Q_activable st' = q_of Q_activable st"
proof (induction st rule: free_all.induct)
  case (1 st)
  show ?case
  proof (cases "q_of Q_finished st = []")
    case True
    with 1(2) show ?thesis by (subst (asm) free_all.simps) (simp add: kq_out_eq)
  next
    case False
    let ?a = "last (q_of Q_finished st)"
    obtain st1 where out: "kq_out Q_finished st = (Some ?a, st1)" and q: "q_of Q_activable st1 = q_of Q_activable st"
      using False by (auto simp: kq_out_eq)
    from 1(2) out obtain st2 where f: "free_process ?a st1 = Inr st2" "free_all st2 = Inr st'"
      by (subst (asm) free_all.simps) auto
    from 1(1) [OF out [symmetric] refl f(1) f(2)] q free_process_qs [OF f(1)] show ?thesis by simp
  qed
qed

lemma free_finished_activable:
  assumes "free_finished_process st = Inr st'" "qwf (qs st)"
  shows "q_of Q_activable st' = q_of Q_activable st"
proof (cases "List.find (pid_is st (current_pid st)) (q_of Q_finished st)")
  case None
  with assms(1) free_all_activable show ?thesis by (simp add: free_finished_process_def)
next
  case (Some c)
  with assms(1) obtain st1 st2 where s: "kq_del c st = Inr st1" "free_all st1 = Inr st2" "kq_add c Q_finished st2 = Inr st'"
    by (auto simp: free_finished_process_def)
  have "home (qs st) c = Some Q_finished" using find_SomeD [OF Some] qwf_home [OF assms(2)] by simp
  with s(1) have "q_of Q_activable st1 = q_of Q_activable st" by (auto simp: kq_del_Inr)
  moreover have "q_of Q_activable st' = q_of Q_activable st2" using s(3) by (auto simp: kq_add_Inr)
  ultimately show ?thesis using free_all_activable [OF s(2)] by simp
qed

lemma wakeup_loop_waits:
  assumes "wakeup_loop n i st = Inr st'" "waits a ys st" "unsurpassed a st"
  shows "waits a ys st' \<and> prio_of st' = prio_of st"
  using assms
proof (induction n arbitrary: i st)
  case (Suc n)
  from Suc.prems(1) obtain st1 where s: "(case process_table st i of None \<Rightarrow> Inr st
            | Some b \<Rightarrow> bindE (deref b st) (\<lambda>p.
                if state p = ASLEEP \<and> wakeup_date p \<le> time_count st then activate b st else Inr st)) = Inr st1"
    and w: "wakeup_loop n (i + 1) st1 = Inr st'" by auto
  have "st1 = st \<or> (\<exists>b p. procs st b = Some p \<and> activate b st = Inr st1)"
    using s by (cases "process_table st i") (auto simp: deref_def split: option.splits if_splits)
  then consider "st1 = st" | b p where "procs st b = Some p" "activate b st = Inr st1" by blast
  then show ?case
  proof cases
    case 1
    with Suc.IH [OF w] Suc.prems show ?thesis by simp
  next
    case 2
    have le: "prio_of st b \<le> prio_of st a" using Suc.prems(3) 2(1) by (simp add: unsurpassed_def prio_of_def)
    have "waits a ys st1" using waits_activate [OF Suc.prems(2) 2(2) le] .
    moreover have "unsurpassed a st1"
      using Suc.prems(3) kept_same_prio [OF kept_activate [OF 2(2), of "{}"]] activate_prio [OF 2(2)]
      unfolding unsurpassed_def same_prio_def by metis
    ultimately show ?thesis using Suc.IH [OF w] activate_prio [OF 2(2)] by simp
  qed
qed simp

lemma ctx_sw_qs: "virtual_ctx_sw old k n st = Inr st' \<Longrightarrow> qs st' = qs st"
  by (auto simp: virtual_ctx_sw_def Let_def deref_def split: option.splits)

lemma ctx_sw_state: "virtual_ctx_sw old k n st = Inr st' \<Longrightarrow> \<exists>p p'. procs st n = Some p \<and> procs st' n = Some p' \<and> state p' = state p"
  by (auto simp: virtual_ctx_sw_def Let_def deref_def upd_def split: option.splits if_splits)

text \<open>The scheduler elects \<open>a\<close> when nobody stands before it, and otherwise the queue advances by one.\<close>

lemma scheduler_advances:
  assumes "scheduler k st = Inr st'" "qwf (qs st)" "waits a ys st" "unsurpassed a st" "procs st a \<noteq> None" "a \<notin> set (q_of Q_finished st)"
  shows "if ys = [] then \<exists>p. procs st' a = Some p \<and> state p = ELECTED else waits a (butlast ys) st'"
proof -
  let ?F = "set (q_of Q_finished st)"
  from assms(1) obtain st1 st2 where s: "free_finished_process st = Inr st1" "wakeup_process st1 = Inr st2"
    and e: "(case kq_out Q_activable st2 of
         (None, st) \<Rightarrow> Inl (PageFault st)
       | (Some new_process, st) \<Rightarrow>
           let st = upd new_process (state_update (\<lambda>_. ELECTED)) st;
               old_process = (if q_of Q_finished st = [] then process_table st (current_pid st)
                              else Some (last (q_of Q_finished st)))
           in bindE (deref new_process st) (\<lambda>new.
                virtual_ctx_sw old_process k new_process (st\<lparr>current_pid := pid new\<rparr>))) = Inr st'"
    by (auto simp: scheduler_def)
  have k1: "kept ?F st st1" by (rule kept_free_finished [OF s(1) _ assms(2)]) simp
  have a1: "procs st1 a \<noteq> None" using k1 assms(5,6) unfolding kept_def by blast
  have w1: "waits a ys st1" using assms(3) waits_same [OF free_finished_activable [OF s(1) assms(2)]] by blast
  have u1: "unsurpassed a st1" using unsurpassed_keep [OF assms(4) kept_same_prio [OF k1] a1] .
  have w2: "waits a ys st2" using wakeup_loop_waits [OF s(2) [unfolded wakeup_process_def] w1 u1] by blast
  then obtain xs where q2: "q_of Q_activable st2 = xs @ a # ys" by (auto simp: waits_def)
  let ?b = "last (a # ys)"
  obtain st3 where st3: "kq_out Q_activable st2 = (Some ?b, st3)" "q_of Q_activable st3 = butlast (xs @ a # ys)"
    using q2 by (auto simp: kq_out_eq)
  with e obtain new :: Process and old where
    v: "virtual_ctx_sw old k ?b ((upd ?b (state_update (\<lambda>_. ELECTED)) st3)\<lparr>current_pid := pid new\<rparr>) = Inr st'"
    by (simp add: Let_def split del: if_split) blast
  show ?thesis
  proof (cases "ys = []")
    case True
    with ctx_sw_state [OF v] show ?thesis by auto
  next
    case False
    then have "q_of Q_activable st' = xs @ a # butlast ys" using ctx_sw_qs [OF v] st3(2) by (simp add: butlast_append)
    with False show ?thesis by (auto simp: waits_def)
  qed
qed

section \<open>The rest of the interrupted call\<close>

text \<open>What a process does when it is resumed moves nobody in the list.\<close>

definition quiet :: "kstate \<Rightarrow> kstate \<Rightarrow> bool" where
  "quiet st st' \<longleftrightarrow> q_of Q_activable st' = q_of Q_activable st \<and> same_prio st st' \<and> current_pid st' = current_pid st \<and>
     (\<forall>i a. process_table st' i = Some a \<longrightarrow> process_table st i = Some a) \<and> time_count st' = time_count st"

lemma quiet_refl [simp]: "quiet st st"
  by (simp add: quiet_def)

lemma quiet_trans: "quiet st st1 \<Longrightarrow> quiet st1 st2 \<Longrightarrow> quiet st st2"
  unfolding quiet_def using same_prio_trans by metis

lemma quiet_upd: "(\<And>p. priority (f p) = priority p) \<Longrightarrow> quiet st (upd a f st)"
  by (auto simp: quiet_def same_prio_def)

lemma quiet_store [simp]: "quiet st (store_user r v st)"
  by (auto simp: quiet_def same_prio_def store_user_def)

lemma quiet_finish_zombie:
  assumes "finish_zombie i r st = Inr st'"
  shows "quiet st st'"
proof -
  from assms obtain st1 st2 a st3 where
    s: "(if r \<noteq> 0 then if r < 0x4000000 then Inl (Panic ''Dirty hacker stopped'')
              else bindE (tbl i st) (\<lambda>a. bindE (deref a st) (\<lambda>p. Inr (store_user r (retval p) st)))
            else Inr st) = Inr st1"
      "remove_from_children i (current_pid st1) st1 = Inr st2" "set_state_and_queue a FINISHED Q_finished st2 = Inr st3"
      "st' = st3\<lparr>process_table := (process_table st3)(i := None)\<rparr>" by (auto simp: finish_zombie_def)
  have "quiet st st1" using s(1) by (auto split: if_splits)
  moreover have "quiet st1 st2" using s(2) by (auto simp: remove_from_children_def intro!: quiet_upd split: if_splits)
  moreover have "quiet st2 st'" using s(3,4) by (auto simp: set_state_and_queue_def kq_add_Inr quiet_def same_prio_def split: if_splits)
  ultimately show ?thesis using quiet_trans by blast
qed

lemma quiet_resume:
  assumes "resume st = Inr (fl, st')"
  shows "quiet st st'"
proof (cases "cpu st")
  case (K_waitpid_any r)
  with assms quiet_finish_zombie show ?thesis by (auto simp: resume_def)
next
  case (K_waitpid i r)
  with assms quiet_finish_zombie show ?thesis by (auto simp: resume_def)
next
  case (K_start a)
  with assms show ?thesis by (auto simp: resume_def intro!: quiet_upd)
next
  case (K_psend a)
  with assms show ?thesis by (auto simp: resume_def resume_psend_def intro!: quiet_upd split: if_splits)
next
  case (K_wait a)
  with assms show ?thesis by (auto simp: resume_def resume_wait_def quiet_def same_prio_def split: option.splits if_splits)
next
  case (K_preceive q a r)
  have "quiet st (st1\<lparr>mqs := m\<rparr>)" if "quiet st st1" for st1 m using that by (simp add: quiet_def same_prio_def)
  with K_preceive assms show ?thesis
    by (auto simp: resume_def resume_preceive_def Let_def intro!: quiet_upd split: option.splits if_splits)
qed (use assms in \<open>auto simp: resume_def\<close>)

section \<open>Timer interrupts\<close>

lemma activable_member:
  assumes "kI X Y C d st" "waits a ys st"
  shows "\<exists>p. procs st a = Some p" "home (qs st) a = Some Q_activable" "a \<notin> set (q_of Q_finished st)"
proof -
  have m: "a \<in> set (q_of Q_activable st)" using assms(2) by (auto simp: waits_def)
  then show h: "home (qs st) a = Some Q_activable" using qwf_home [OF kI_qwf [OF assms(1)]] by simp
  then show "a \<notin> set (q_of Q_finished st)" using qwf_home [OF kI_qwf [OF assms(1)], of a Q_finished] by simp
  show "\<exists>p. procs st a = Some p" using kI_queue_member [OF assms(1) m] by blast
qed

lemma quiet_waits: "quiet st st' \<Longrightarrow> waits a ys st' = waits a ys st"
  by (simp add: quiet_def waits_def)

lemma elected_unique: "running st n p \<Longrightarrow> procs st a = Some q \<Longrightarrow> state q = ELECTED \<Longrightarrow> a = n"
  unfolding running_def using placesD [OF kID(3)] by (metis singletonD)

text \<open>The end of a time slice, before the elected process goes on.\<close>

lemma slice_end:
  assumes I: "kinv k" and w: "waits a ys k" "unsurpassed a k" and t: "time_count k mod SCHEDFREQ = 0"
  shows "\<exists>k' n p. tick_schedule k = Inr (Switch, k') \<and> running k' n p \<and> same_prio k k' \<and> time_count k' = time_count k \<and>
    (if ys = [] then n = a else waits a (butlast ys) k')"
proof -
  from I obtain c p where R: "running k c p" and sk: "\<not> skip_message p" by (auto simp: kinv_running)
  then have c: "process_table k (current_pid k) = Some c" "procs k c = Some p" "state p = ELECTED"
    and J: "kI {c} {c} {} (\<lambda>_. 0) k" by (auto simp: running_def)
  from yield_elects [OF c J _ sk, of K_tick] obtain k' n p' where
    y: "yield_to_scheduler K_tick k = Inr k'" "running k' n p'" by blast
  have T: "tick_schedule k = Inr (Switch, k')"
    using t c y(1) by (simp add: tick_schedule_def yield_to_scheduler_def tbl_def deref_def)
  from y(1) c(1) obtain k1 where k1: "activate c k = Inr k1" "scheduler K_tick k1 = Inr k'"
    by (auto simp: yield_to_scheduler_def tbl_def)
  have K: "kept (set (q_of Q_finished k)) k k'" by (rule kept_yield [OF y(1) kI_qwf [OF J]])
  note A = activable_member [OF J w(1)]
  have k1e: "q_of Q_finished k1 = q_of Q_finished k" "qwf (qs k1)" "procs k1 a \<noteq> None"
    using k1(1) kI_qwf [OF J] A(1) by (auto simp: activate_def set_state_and_queue_def kq_add_Inr qwf_def split: if_splits)
  have le: "prio_of k c \<le> prio_of k a" using w(2) c(2) by (auto simp: unsurpassed_def prio_of_def)
  have w1: "waits a ys k1" by (rule waits_activate [OF w(1) k1(1) le])
  have u1: "unsurpassed a k1" by (rule unsurpassed_keep [OF w(2) kept_same_prio [OF kept_activate [OF k1(1), of "{}"]] k1e(3)])
  have adv: "if ys = [] then \<exists>p. procs k' a = Some p \<and> state p = ELECTED else waits a (butlast ys) k'"
    using scheduler_advances [OF k1(2) k1e(2) w1 u1 k1e(3)] A(3) k1e(1) by simp
  have "n = a" if "ys = []" using adv that elected_unique [OF y(2)] by auto
  with adv have "if ys = [] then n = a else waits a (butlast ys) k'" by simp
  moreover have "time_count k' = time_count k" using K by (simp add: kept_def)
  ultimately show ?thesis using T y(2) kept_same_prio [OF K] by blast
qed

lemma IT_32_ker:
  assumes "IT_32 s = Inr (fl, s')"
  shows "\<exists>fl1 k. tick_schedule ((ker s)\<lparr>time_count := time_count (ker s) + 1\<rparr>) = Inr (fl1, k) \<and>
    (if fl1 = Switch then \<exists>fl2. resume k = Inr (fl2, ker s') else ker s' = k)"
proof -
  have kc: "\<exists>k. f (ker t) = Inr (fl, k) \<and> u = t\<lparr>ker := k\<rparr>" if "kcall f t = Inr (fl, u)" for f fl t u
    using that by (cases "f (ker t)") (auto simp: kcall_def lift_trap_def split: sum.splits trap.splits)
  from assms obtain fl1 u where 1: "tic_PIT s = Inr (fl1, u)" "(if fl1 = Switch then kcall resume u else Inr (fl1, u)) = Inr (fl, s')"
    by (auto simp: IT_32_def complete_sys_def)
  from kc [OF 1(1) [unfolded tic_PIT_def Let_def]] obtain k where
    2: "tick_schedule ((ker s)\<lparr>time_count := time_count (ker s) + 1\<rparr>) = Inr (fl1, k)" "ker u = k" by auto
  have "if fl1 = Switch then \<exists>fl2. resume k = Inr (fl2, ker s') else ker s' = k"
    using 1(2) 2(2) kc [of resume u fl s'] by (auto split: if_splits)
  with 2(1) show ?thesis by blast
qed

definition elected_now :: "addr \<Rightarrow> kstate \<Rightarrow> bool" where
  "elected_now a st \<longleftrightarrow> process_table st (current_pid st) = Some a"

lemma tick_advances:
  assumes S: "sysinv s" and w: "waits a ys (ker s)" "unsurpassed a (ker s)"
  shows "\<exists>fl s'. IT_32 s = Inr (fl, s') \<and> sysinv s' \<and> time_count (ker s') = time_count (ker s) + 1 \<and>
    (if (time_count (ker s) + 1) mod SCHEDFREQ = 0 \<and> ys = [] then elected_now a (ker s')
     else unsurpassed a (ker s') \<and> waits a (if (time_count (ker s) + 1) mod SCHEDFREQ = 0 then butlast ys else ys) (ker s'))"
proof -
  let ?k = "(ker s)\<lparr>time_count := time_count (ker s) + 1\<rparr>"
  from interrupt_ok [OF S, of undefined Tick] obtain fl s' where
    T: "IT_32 s = Inr (fl, s')" and S': "sysinv s'" by (auto simp: permitted_def interrupt_def)
  from IT_32_ker [OF T] obtain fl1 k where
    k: "tick_schedule ?k = Inr (fl1, k)" "if fl1 = Switch then \<exists>fl2. resume k = Inr (fl2, ker s') else ker s' = k" by blast
  have w': "waits a ys ?k" "unsurpassed a ?k" "kinv ?k" using w sysinvD(1) [OF S] by (simp_all add: waits_def unsurpassed_def)
  from S' obtain c p where R: "running (ker s') c p" by (auto simp: sysinv_def kinv_running)
  have alive: "procs (ker s') a \<noteq> None" if "waits a zs (ker s')" for zs
    using R activable_member(1) [OF _ that] by (auto simp: running_def)
  have keep: "unsurpassed a (ker s') \<and> waits a zs (ker s')" if "same_prio ?k (ker s')" "waits a zs (ker s')" for zs
    using unsurpassed_keep [OF w'(2) that(1)] alive that(2) by blast
  show ?thesis
  proof (cases "(time_count (ker s) + 1) mod SCHEDFREQ = 0")
    case False
    then have "k = ?k" "fl1 = Iret" using k(1) by (auto simp: tick_schedule_def)
    then have e: "ker s' = ?k" using k(2) by simp
    then show ?thesis using T S' False keep [of ys] w'(1) by simp
  next
    case True
    with slice_end [OF w'(3,1,2)] k(1) obtain n q where
      n: "fl1 = Switch" "running k n q" "same_prio ?k k" "time_count k = time_count ?k" "if ys = [] then n = a else waits a (butlast ys) k" by auto
    from n(1) k(2) obtain fl2 where "resume k = Inr (fl2, ker s')" by auto
    note Q = quiet_resume [OF this]
    have tc: "time_count (ker s') = time_count (ker s) + 1" using Q n(4) by (simp add: quiet_def)
    have sp: "same_prio ?k (ker s')" using same_prio_trans [OF n(3)] Q by (simp add: quiet_def)
    have cur: "process_table (ker s') (current_pid (ker s')) = Some c" "process_table k (current_pid k) = Some n"
      using R n(2) by (simp_all add: running_def)
    have "c = n" using Q cur unfolding quiet_def by (metis option.inject)
    then have "elected_now a (ker s')" if "ys = []" using that n(5) cur(1) by (simp add: elected_now_def)
    moreover have "unsurpassed a (ker s') \<and> waits a (butlast ys) (ker s')" if "ys \<noteq> []"
      using that n(5) keep [OF sp] quiet_waits [OF Q] by simp
    ultimately show ?thesis using T S' tc True by simp
  qed
qed

fun ticks :: "nat \<Rightarrow> sys \<Rightarrow> sys sresult" where
  "ticks 0 s = Inr s"
| "ticks (Suc n) s = bindE (IT_32 s) (\<lambda>(_, s). ticks n s)"

lemma ticks_add: "ticks (m + n) s = bindE (ticks m s) (ticks n)"
  by (induction m arbitrary: s) (auto simp: bindE_assoc split_def)

text \<open>At most five interrupts to the end of the time slice, also when the counter wraps around.\<close>

lemma next_slice:
  obtains d where "d < 5" "(t + 1 + of_nat d :: u32) mod SCHEDFREQ = 0"
proof (cases "unat t + 5 < 2 ^ 32")
  case True
  define d where "d = 4 - unat t mod 5"
  have d: "d < 5" "(unat t + 1 + d) mod 5 = 0" unfolding d_def by presburger+
  then have "unat (t + 1 + of_nat d) = unat t + 1 + d" using True by (simp add: unat_word_ariths unat_of_nat)
  with d that [of d] show ?thesis by (simp add: word_unat_eq_iff unat_mod)
next
  case False
  define d where "d = 2 ^ 32 - 1 - unat t"
  have u: "unat t < 2 ^ 32" using unsigned_less [of t, where 'a = nat] by simp
  have d: "d < 5" "unat t + 1 + d = 2 ^ 32" using False u unfolding d_def by auto
  have "t + 1 + of_nat d = of_nat (unat t + 1 + d)" by simp
  also have "\<dots> = 0" unfolding d(2) by simp
  finally show ?thesis using d(1) that [of d] by simp
qed

lemma slice_advances:
  assumes "sysinv s" "waits a ys (ker s)" "unsurpassed a (ker s)" "d < 5" "(time_count (ker s) + 1 + of_nat d) mod SCHEDFREQ = 0"
  shows "\<exists>n s'. n \<le> Suc d \<and> ticks n s = Inr s' \<and> sysinv s' \<and>
    (if ys = [] then elected_now a (ker s') else unsurpassed a (ker s') \<and> waits a (butlast ys) (ker s'))"
  using assms
proof (induction d arbitrary: s)
  case 0
  from tick_advances [OF 0(1-3)] obtain fl s' where "IT_32 s = Inr (fl, s')" "sysinv s'"
    "if ys = [] then elected_now a (ker s') else unsurpassed a (ker s') \<and> waits a (butlast ys) (ker s')" using 0(5) by (auto split: if_splits)
  then show ?case by (intro exI [of _ 1] exI [of _ s']) simp
next
  case (Suc d)
  from tick_advances [OF Suc.prems(1-3)] obtain fl s1 where s1: "IT_32 s = Inr (fl, s1)" "sysinv s1" "time_count (ker s1) = time_count (ker s) + 1"
    and r: "if (time_count (ker s) + 1) mod SCHEDFREQ = 0 \<and> ys = [] then elected_now a (ker s1)
     else unsurpassed a (ker s1) \<and> waits a (if (time_count (ker s) + 1) mod SCHEDFREQ = 0 then butlast ys else ys) (ker s1)" by blast
  show ?case
  proof (cases "(time_count (ker s) + 1) mod SCHEDFREQ = 0")
    case True
    with r have "if ys = [] then elected_now a (ker s1) else unsurpassed a (ker s1) \<and> waits a (butlast ys) (ker s1)" by (simp split: if_splits)
    with s1 show ?thesis by (intro exI [of _ 1] exI [of _ s1]) simp
  next
    case False
    with r have "waits a ys (ker s1)" "unsurpassed a (ker s1)" by simp_all
    from Suc.IH [OF s1(2) this] Suc.prems(4,5) s1(3) obtain n s' where "n \<le> Suc d" "ticks n s1 = Inr s'" "sysinv s'"
      "if ys = [] then elected_now a (ker s') else unsurpassed a (ker s') \<and> waits a (butlast ys) (ker s')" by (auto simp: add.assoc)
    with s1(1) show ?thesis by (intro exI [of _ "Suc n"] exI [of _ s']) simp
  qed
qed

lemma waiting_ends:
  assumes "sysinv s" "waits a ys (ker s)" "unsurpassed a (ker s)"
  shows "\<exists>n s'. n \<le> 5 * Suc (length ys) \<and> ticks n s = Inr s' \<and> sysinv s' \<and> elected_now a (ker s')"
  using assms
proof (induction "length ys" arbitrary: ys s)
  case 0
  obtain d where d: "d < 5" "(time_count (ker s) + 1 + of_nat d) mod SCHEDFREQ = 0" by (rule next_slice)
  have ys: "ys = []" using 0(1) by simp
  from slice_advances [OF 0(2-4) d] ys obtain n s' where "n \<le> Suc d" "ticks n s = Inr s'" "sysinv s'" "elected_now a (ker s')" by auto
  with d(1) ys show ?case by (intro exI [of _ n] exI [of _ s']) simp
next
  case (Suc l)
  obtain d where d: "d < 5" "(time_count (ker s) + 1 + of_nat d) mod SCHEDFREQ = 0" by (rule next_slice)
  have ys: "ys \<noteq> []" using Suc.hyps(2) by auto
  from slice_advances [OF Suc.prems d] ys obtain n s1 where
    1: "n \<le> Suc d" "ticks n s = Inr s1" "sysinv s1" "unsurpassed a (ker s1)" "waits a (butlast ys) (ker s1)" by auto
  have l: "l = length (butlast ys)" using Suc.hyps(2) by simp
  from Suc.hyps(1) [OF l 1(3,5,4)] obtain m s' where
    2: "m \<le> 5 * Suc (length (butlast ys))" "ticks m s1 = Inr s'" "sysinv s'" "elected_now a (ker s')" by blast
  have "n + m \<le> 5 * Suc (length ys)" using 1(1) 2(1) d(1) l Suc.hyps(2) by simp
  with 1(2) 2 show ?case by (intro exI [of _ "n + m"] exI [of _ s']) (simp add: ticks_add)
qed

text \<open>
  C6. A process that is ready, and that no process outranks, is elected after at most five timer
  interrupts for each process that is ready, whatever the processes before it were doing in
  the kernel and whichever sleepers wake up meanwhile: the processes of equal priority take
  turns.
\<close>

theorem ready_process_runs:
  assumes "sysinv s0" "sys_run kp s0 s" "a \<in> set (q_of Q_activable (ker s))"
    "\<And>b p. procs (ker s) b = Some p \<Longrightarrow> priority p \<le> prio_of (ker s) a"
  shows "\<exists>n s'. n \<le> 5 * length (q_of Q_activable (ker s)) \<and> ticks n s = Inr s' \<and> sysinv s' \<and>
    process_table (ker s') (current_pid (ker s')) = Some a"
proof -
  from assms(3) obtain xs ys where q: "q_of Q_activable (ker s) = xs @ a # ys" by (auto dest: split_list)
  then have "waits a ys (ker s)" "unsurpassed a (ker s)" using assms(4) by (auto simp: waits_def unsurpassed_def)
  from waiting_ends [OF sys_run_inv [OF assms(2,1)] this] obtain n s' where
    "n \<le> 5 * Suc (length ys)" "ticks n s = Inr s'" "sysinv s'" "elected_now a (ker s')" by blast
  moreover have "5 * Suc (length ys) \<le> 5 * length (q_of Q_activable (ker s))" unfolding q by simp
  ultimately show ?thesis unfolding elected_now_def by (meson le_trans)
qed

text \<open>After boot \<^verbatim>\<open>autotest\<close> gets the processor within five timer interrupts.\<close>

theorem ready_process_runs_witness:
  "\<exists>x s n s'. boot MULTIBOOT_BOOTLOADER_MAGIC 0x9000 ex_layout ex_cpu boot_params (\<lambda>n. 0x150000) (sys0 (\<lambda>_. 0)) = Inr (x, 0xFC, s) \<and>
     n \<le> 5 \<and> ticks n s = Inr s' \<and> process_table (ker s') (current_pid (ker s')) = Some 2"
proof -
  have "pgdir boot_params = k_pgdir ex_layout" by (simp add: boot_params_def ex_layout_def)
  from boot_ok [OF ex_layout_linked this boot_params_ok, of "0x9000" ex_cpu "\<lambda>n. 0x150000" "\<lambda>_. 0"] obtain x s dir where
    b: "boot MULTIBOOT_BOOTLOADER_MAGIC 0x9000 ex_layout ex_cpu boot_params (\<lambda>n. 0x150000) (sys0 (\<lambda>_. 0)) = Inr (x, 0xFC, s)"
      "booted (k_pgdir ex_layout) dir (ker s)" "sysinv s" by blast
  have q: "q_of Q_activable (ker s) = [2]" using b(2) by (simp add: booted_def)
  have top: "priority p \<le> prio_of (ker s) 2" if "procs (ker s) c = Some p" for c p
    using b(2) that by (auto simp: booted_def prio_of_def idle_process_def init_process_def split: if_splits)
  have "\<exists>n s'. n \<le> 5 * length (q_of Q_activable (ker s)) \<and> ticks n s = Inr s' \<and> sysinv s' \<and>
      process_table (ker s') (current_pid (ker s')) = Some 2"
    by (rule ready_process_runs [OF b(3) sys_run.none [of boot_params]]) (use q top in auto)
  with q b(1) show ?thesis by auto
qed

end
