(* ===== verification/Exit_Props.thy ===== *)
theory Exit_Props
  imports Process_Props Liveness
begin

text \<open>
  The end of a process: what \<^verbatim>\<open>exit\<close> leaves for the father. The ended process is touched neither
  by the search for a waiting father, nor by the loop over its own children, nor by the
  scheduler, which elects another process.
\<close>

section \<open>What the steps of an end leave alone\<close>

text \<open>The process at \<open>a\<close> is in no list, and the step does not change it.\<close>

definition untouched :: "addr \<Rightarrow> kstate \<Rightarrow> kstate \<Rightarrow> bool" where
  "untouched a st st' \<longleftrightarrow> procs st' a = procs st a \<and> home (qs st') a = home (qs st) a \<and>
     (\<forall>i. process_table st i = Some a \<longrightarrow> process_table st' i = Some a)"

lemma untouched_refl: "untouched a st st"
  by (simp add: untouched_def)

lemma untouched_trans: "untouched a st st1 \<Longrightarrow> untouched a st1 st2 \<Longrightarrow> untouched a st st2"
  by (simp add: untouched_def)

lemma activate_untouched: "activate b st = Inr st' \<Longrightarrow> b \<noteq> a \<Longrightarrow> untouched a st st'"
  by (auto simp: activate_def set_state_and_queue_def kq_add_Inr untouched_def)

lemma qwf_add: "kq_add a q st = Inr st' \<Longrightarrow> qwf (qs st) \<Longrightarrow> qwf (qs st')"
  by (auto simp: kq_add_Inr qwf_def split: if_splits)

lemma qwf_del: "kq_del a st = Inr st' \<Longrightarrow> qwf (qs st) \<Longrightarrow> qwf (qs st')"
  by (auto simp: kq_del_Inr qwf_def split: if_splits dest: notin_set_remove1)

lemma qwf_activate: "activate a st = Inr st' \<Longrightarrow> qwf (qs st) \<Longrightarrow> qwf (qs st')"
  unfolding activate_def set_state_and_queue_def by (drule qwf_add) simp_all

lemma awake_father_untouched:
  assumes "awake_father i st = Inr st'" "qwf (qs st)" "home (qs st) a = None"
  shows "untouched a st st' \<and> process_table st' = process_table st \<and> current_pid st' = current_pid st \<and> qwf (qs st')"
proof (cases "st' = st")
  case False
  with assms(1) obtain c b st1 where
    f: "List.find (pid_is st c) (q_of Q_waiting_pid st) = Some b" "kq_del b st = Inr st1"
      "activate b (upd b (waited_pid_update (\<lambda>_. i)) st1) = Inr st'"
    by (auto simp: awake_father_def split: if_splits option.splits)
  have ab: "b \<noteq> a" using find_SomeD [OF f(1)] qwf_home [OF assms(2), of b Q_waiting_pid] assms(3) by auto
  have "untouched a st (upd b (waited_pid_update (\<lambda>_. i)) st1)" using f(2) ab by (auto simp: kq_del_Inr untouched_def)
  moreover have "process_table st' = process_table st" "current_pid st' = current_pid st"
    using f(2,3) by (auto simp: activate_def set_state_and_queue_def kq_add_Inr kq_del_Inr)
  moreover have "qwf (qs st')" using qwf_activate [OF f(3)] qwf_del [OF f(2) assms(2)] by simp
  ultimately show ?thesis using activate_untouched [OF f(3) ab] by (blast intro: untouched_trans)
qed (use assms(2) in \<open>simp add: untouched_refl\<close>)

text \<open>The loop over the children shrinks the table, and ends no process but zombies.\<close>

lemma finish_fatherless_frame:
  assumes "finish_fatherless i st = Inr st'"
  obtains b where "process_table st i = Some b" "process_table st' = (process_table st)(i := None)" "home (qs st) b = None"
    "procs st' = (procs st)(b := map_option (state_update (\<lambda>_. FINISHED)) (procs st b))" "home (qs st') = (home (qs st))(b := Some Q_finished)"
  using assms by (auto simp: finish_fatherless_def set_state_and_queue_def kq_add_Inr tbl_def split: option.splits)

lemma orphan_loop_ConsE:
  assumes "orphan_loop (c # cs) st = Inr st'"
  obtains b p st1 where "process_table st c = Some b" "procs (upd b (father_pid_update (\<lambda>_. -1)) st) b = Some p"
    "(if state p = ZOMBIE then finish_fatherless c (upd b (father_pid_update (\<lambda>_. -1)) st)
      else Inr (upd b (father_pid_update (\<lambda>_. -1)) st)) = Inr st1" "orphan_loop cs st1 = Inr st'"
  using assms by (auto simp: tbl_def deref_def Let_def split: option.splits)

lemma orphan_loop_untouched:
  assumes "orphan_loop cs st = Inr st'" "\<forall>c \<in> set cs. process_table st c \<noteq> Some a" "\<forall>c. process_table st c = Some a \<longrightarrow> c \<notin> set cs"
  shows "untouched a st st'"
  using assms
proof (induction cs arbitrary: st)
  case (Cons c cs)
  from Cons.prems(1) obtain b p st1 where b: "process_table st c = Some b" "procs (upd b (father_pid_update (\<lambda>_. -1)) st) b = Some p"
    and f: "(if state p = ZOMBIE then finish_fatherless c (upd b (father_pid_update (\<lambda>_. -1)) st)
        else Inr (upd b (father_pid_update (\<lambda>_. -1)) st)) = Inr st1" and o: "orphan_loop cs st1 = Inr st'"
    by (rule orphan_loop_ConsE)
  let ?st = "upd b (father_pid_update (\<lambda>_. -1)) st"
  have ab: "b \<noteq> a" using b(1) Cons.prems(2) by auto
  have u: "untouched a st st1 \<and> (\<forall>i. process_table st1 i = Some a \<longrightarrow> process_table st i = Some a)"
  proof (cases "state p = ZOMBIE")
    case True
    with f have "finish_fatherless c ?st = Inr st1" by simp
    then obtain b' where s: "process_table ?st c = Some b'" "process_table st1 = (process_table ?st)(c := None)"
      "procs st1 = (procs ?st)(b' := map_option (state_update (\<lambda>_. FINISHED)) (procs ?st b'))" "home (qs st1) = (home (qs ?st))(b' := Some Q_finished)"
      by (rule finish_fatherless_frame)
    have "b' = b" using s(1) b(1) by simp
    with s ab b(1) show ?thesis by (auto simp: untouched_def)
  next
    case False
    with f ab show ?thesis by (auto simp: untouched_def)
  qed
  have "untouched a st1 st'" using Cons.prems(2,3) u by (intro Cons.IH [OF o]) auto
  with u show ?case by (blast intro: untouched_trans)
qed (simp add: untouched_refl)

lemma finish_fatherless_qwf:
  assumes "finish_fatherless i st = Inr st'" "qwf (qs st)"
  shows "qwf (qs st') \<and> current_pid st' = current_pid st"
proof -
  from assms(1) obtain b st1 where s: "kq_add b Q_finished (upd b (state_update (\<lambda>_. FINISHED)) st) = Inr st1" "qs st' = qs st1" "current_pid st' = current_pid st1"
    by (auto simp: finish_fatherless_def set_state_and_queue_def)
  from qwf_add [OF s(1)] s assms(2) show ?thesis by (auto simp: kq_add_Inr)
qed

lemma orphan_loop_qwf:
  assumes "orphan_loop cs st = Inr st'" "qwf (qs st)"
  shows "qwf (qs st') \<and> current_pid st' = current_pid st"
  using assms
proof (induction cs arbitrary: st)
  case (Cons c cs)
  from Cons.prems(1) obtain b st1 and p :: Process where
    f: "(if state p = ZOMBIE then finish_fatherless c (upd b (father_pid_update (\<lambda>_. -1)) st)
        else Inr (upd b (father_pid_update (\<lambda>_. -1)) st)) = Inr st1" and o: "orphan_loop cs st1 = Inr st'"
    by (rule orphan_loop_ConsE)
  have "qwf (qs st1) \<and> current_pid st1 = current_pid st"
    using f Cons.prems(2) finish_fatherless_qwf [of c "upd b (father_pid_update (\<lambda>_. -1)) st"] by (auto split: if_splits)
  with Cons.IH [OF o] show ?case by simp
qed simp

section \<open>The scheduler and a process that has ended\<close>

lemma free_all_procs: "free_all st = Inr st' \<Longrightarrow> a \<notin> set (q_of Q_finished st) \<Longrightarrow> procs st' a = procs st a"
proof (induction st rule: free_all.induct)
  case (1 st)
  show ?case
  proof (cases "q_of Q_finished st = []")
    case True
    with 1(2) show ?thesis by (subst (asm) free_all.simps) (simp add: kq_out_eq)
  next
    case False
    let ?b = "last (q_of Q_finished st)"
    obtain st1 where out: "kq_out Q_finished st = (Some ?b, st1)" and q: "q_of Q_finished st1 = butlast (q_of Q_finished st)" "procs st1 = procs st"
      using False by (auto simp: kq_out_eq)
    from 1(2) out obtain st2 where f: "free_process ?b st1 = Inr st2" "free_all st2 = Inr st'"
      by (subst (asm) free_all.simps) auto
    have "a \<noteq> ?b" using False 1(3) by auto
    then have "procs st2 a = procs st a" using f(1) q(2) by (auto simp: free_process_def split: if_splits)
    moreover have "a \<notin> set (q_of Q_finished st2)" using free_process_qs [OF f(1)] q(1) 1(3) by (auto dest: in_set_butlastD)
    ultimately show ?thesis using 1(1) [OF out [symmetric] refl f(1) f(2)] by simp
  qed
qed

lemma free_finished_procs:
  assumes "free_finished_process st = Inr st'" "a \<notin> set (q_of Q_finished st)" "qwf (qs st)"
  shows "procs st' a = procs st a"
proof (cases "List.find (pid_is st (current_pid st)) (q_of Q_finished st)")
  case None
  with assms free_all_procs show ?thesis by (simp add: free_finished_process_def)
next
  case (Some c)
  with assms(1) obtain st1 st2 where s: "kq_del c st = Inr st1" "free_all st1 = Inr st2" "kq_add c Q_finished st2 = Inr st'"
    by (auto simp: free_finished_process_def)
  have "home (qs st) c = Some Q_finished" using find_SomeD [OF Some] qwf_home [OF assms(3)] by simp
  with s(1) have "a \<notin> set (q_of Q_finished st1)" "procs st1 = procs st" using assms(2) by (auto simp: kq_del_Inr dest: notin_set_remove1)
  moreover have "procs st' = procs st2" using s(3) by (auto simp: kq_add_Inr)
  ultimately show ?thesis using free_all_procs [OF s(2)] by simp
qed

text \<open>An ended process outside the list of ready ones is neither woken nor elected.\<close>

lemma wakeup_loop_ended:
  assumes "wakeup_loop n i st = Inr st'" "procs st a = Some p" "state p = ZOMBIE" "a \<notin> set (q_of Q_activable st)"
  shows "procs st' a = Some p \<and> a \<notin> set (q_of Q_activable st')"
  using assms
proof (induction n arbitrary: i st)
  case (Suc n)
  from Suc.prems(1) obtain st1 where s: "(case process_table st i of None \<Rightarrow> Inr st
            | Some b \<Rightarrow> bindE (deref b st) (\<lambda>p.
                if state p = ASLEEP \<and> wakeup_date p \<le> time_count st then activate b st else Inr st)) = Inr st1"
    and w: "wakeup_loop n (i + 1) st1 = Inr st'" by auto
  have "st1 = st \<or> (\<exists>b q. procs st b = Some q \<and> state q = ASLEEP \<and> activate b st = Inr st1)"
    using s by (cases "process_table st i") (auto simp: deref_def split: option.splits if_splits)
  then have "procs st1 a = Some p \<and> a \<notin> set (q_of Q_activable st1)"
    using Suc.prems(2-4) by (auto simp: activate_def set_state_and_queue_def kq_add_Inr)
  with Suc.IH [OF w] Suc.prems(3) show ?case by simp
qed simp

lemma scheduler_ended:
  assumes "scheduler k st = Inr st'" "qwf (qs st)" "procs st a = Some p" "state p = ZOMBIE" "home (qs st) a = None"
  shows "\<exists>p'. procs st' a = Some p' \<and> p' \<in> {p, p\<lparr>registers := k\<rparr>}"
proof -
  have out: "a \<notin> set (q_of q st)" for q using qwf_home [OF assms(2), of a q] assms(5) by simp
  from assms(1) obtain st1 st2 where s: "free_finished_process st = Inr st1" "wakeup_process st1 = Inr st2"
    and e: "(case kq_out Q_activable st2 of
         (None, st) \<Rightarrow> Inl (PageFault st)
       | (Some new_process, st) \<Rightarrow>
           let st = upd new_process (state_update (\<lambda>_. ELECTED)) st;
               old_process = (if q_of Q_finished st = [] then process_table st (current_pid st)
                              else Some (last (q_of Q_finished st)))
           in bindE (deref new_process st) (\<lambda>new.
                virtual_ctx_sw old_process k new_process (st\<lparr>current_pid := pid new\<rparr>))) = Inr st'"
    by (auto simp: scheduler_def)
  have "procs st1 a = Some p" using free_finished_procs [OF s(1) out assms(2)] assms(3) by simp
  moreover have "a \<notin> set (q_of Q_activable st1)" using free_finished_activable [OF s(1) assms(2)] out by simp
  ultimately have 2: "procs st2 a = Some p" "a \<notin> set (q_of Q_activable st2)"
    using wakeup_loop_ended [OF s(2) [unfolded wakeup_process_def] _ assms(4)] by auto
  have ne: "q_of Q_activable st2 \<noteq> []" using e by (auto simp: kq_out_eq)
  let ?b = "last (q_of Q_activable st2)"
  have ab: "?b \<noteq> a" using 2(2) ne by auto
  obtain st3 where st3: "kq_out Q_activable st2 = (Some ?b, st3)" "procs st3 = procs st2" using ne by (auto simp: kq_out_eq)
  with e obtain new :: Process and old where
    v: "virtual_ctx_sw old k ?b ((upd ?b (state_update (\<lambda>_. ELECTED)) st3)\<lparr>current_pid := pid new\<rparr>) = Inr st'"
    by (simp add: Let_def split del: if_split) blast
  have "procs ((upd ?b (state_update (\<lambda>_. ELECTED)) st3)\<lparr>current_pid := pid new\<rparr>) a = Some p" using 2(1) st3(2) ab by simp
  with v show ?thesis by (auto simp: virtual_ctx_sw_def Let_def deref_def upd_def split: option.splits if_splits)
qed

section \<open>exit\<close>

text \<open>
  C12. A process that ends with \<^verbatim>\<open>exit\<close> stays in the process table as a zombie that keeps its
  return value and its father until the father collects it.
\<close>

theorem exit_leaves_zombie:
  assumes "kinv st" "process_table st (current_pid st) = Some c" "procs st c = Some p" "current_pid st \<noteq> 0"
    "father_pid p \<noteq> -1" "father_pid p \<noteq> current_pid st" "awaited st (father_pid p) (current_pid st)"
  shows "\<exists>st' q. exit v st = Inr (Switch, st') \<and> process_table st' (current_pid st) = Some c \<and> procs st' c = Some q \<and>
    state q = ZOMBIE \<and> retval q = v \<and> pid q = current_pid st \<and> father_pid q = father_pid p"
proof -
  let ?i = "current_pid st" and ?f = "retval_update (\<lambda>_. v)"
  from assms(1,2,3) have R: "running st c p" by (auto simp: kinv_running running_def)
  then have I: "kI {c} {c} {} (\<lambda>_. 0) st" and el: "state p = ELECTED" by (simp_all add: running_def)
  have q: "qwf (qs st)" by (rule kI_qwf [OF I])
  have h: "home (qs st) c = None" using placesD(1) [OF kID(3) [OF I] assms(3)] by simp
  have pid: "pid p = ?i" using tab_pid [OF kID(2) [OF I] assms(2,3)] by simp
  let ?z = "upd c (state_update (\<lambda>_. ZOMBIE)) (upd c ?f st)"
  let ?p = "(?f p)\<lparr>state := ZOMBIE\<rparr>"
  from exit_ok [OF R assms(4,7), of v] obtain st' where x: "process_end ?i K_exit (upd c ?f st) = Inr (True, st')" "exit v st = Inr (Switch, st')"
    using assms(2) by (auto simp: exit_def tbl_def safe_def good_def split: if_splits)
  from x(1) obtain st1 p1 st2 where a: "awake_father ?i ?z = Inr st1" "procs st1 c = Some p1" "orphan_loop (children p1) st1 = Inr st2"
    and e: "(if ?i = current_pid st2 then bindE (scheduler K_exit st2) (\<lambda>st. Inr (True, st)) else Inr (False, st2)) = Inr (True, st')"
    using assms(2,3,5) by (auto simp: process_end_def tbl_def deref_def split: option.splits)
  have 1: "untouched c ?z st1" "process_table st1 = process_table st" "current_pid st1 = ?i" "qwf (qs st1)"
    using awake_father_untouched [OF a(1), of c] q h by auto
  have p1: "p1 = ?p" using 1(1) a(2) assms(3) by (simp add: untouched_def)
  have own: "j \<notin> set (children p)" if "process_table st j = Some c" for j
  proof
    assume "j \<in> set (children p)"
    with kID(4) [OF I] assms(3) el have "child_of st (pid p) j" by (auto simp: family_def ended_def)
    with that assms(3,6) pid show False by (simp add: child_of_def)
  qed
  have 2: "untouched c st1 st2" using own 1(2) p1 by (intro orphan_loop_untouched [OF a(3)]) auto
  have q2: "qwf (qs st2)" "current_pid st2 = ?i" using orphan_loop_qwf [OF a(3) 1(4)] 1(3) by auto
  have U: "procs st2 c = Some ?p" "home (qs st2) c = None" "process_table st2 ?i = Some c"
    using untouched_trans [OF 1(1) 2] assms(2,3) h by (simp_all add: untouched_def)
  have sch: "scheduler K_exit st2 = Inr st'" using e q2(2) by simp
  have "state ?p = ZOMBIE" by simp
  from scheduler_ended [OF sch q2(1) U(1) this U(2)] obtain p' where p': "procs st' c = Some p'" "p' \<in> {?p, ?p\<lparr>registers := K_exit\<rparr>}" by blast
  have "process_table st' = process_table st2" using kept_scheduler [OF sch q2(1)] by (simp add: kept_def)
  with x(2) p' U(3) pid show ?thesis by auto
qed

text \<open>A child that runs while its father is ready.\<close>

definition ex_child :: kstate where
  "ex_child =
     (ex_state (ex_process 2 ELECTED K_new_process 64 1 []) None 1)
       \<lparr>procs := [0 \<mapsto> ex_process 0 ACTIVABLE K_tick 1 0 [], 1 \<mapsto> ex_process 1 ACTIVABLE K_new_process 128 (-1) [2],
                 2 \<mapsto> ex_process 2 ELECTED K_new_process 64 1 []],
        current_pid := 2,
        qs := \<lparr>lists = (\<lambda>q. if q = Q_activable then [0, 1] else []),
               home = (\<lambda>a. if a = 0 \<or> a = 1 then Some Q_activable else None)\<rparr>\<rparr>"

lemma ex_child_procs: "procs ex_child a = Some q \<longleftrightarrow>
    a = 0 \<and> q = ex_process 0 ACTIVABLE K_tick 1 0 [] \<or> a = 1 \<and> q = ex_process 1 ACTIVABLE K_new_process 128 (-1) [2] \<or>
    a = 2 \<and> q = ex_process 2 ELECTED K_new_process 64 1 []"
  by (auto simp: ex_child_def)

lemma ex_child_fields [simp]:
  "process_table ex_child = [0 \<mapsto> 0, 1 \<mapsto> 1, 2 \<mapsto> 2]" "current_pid ex_child = 2"
  "q_of q ex_child = (if q = Q_activable then [0, 1] else [])"
  "home (qs ex_child) = (\<lambda>a. if a = 0 \<or> a = 1 then Some Q_activable else None)"
  "semaphore_table ex_child = [0 \<mapsto> 3]" "queue_table ex_child = [0 \<mapsto> 4]"
  "sems ex_child = [3 \<mapsto> \<lparr>sid = 0, count = 1, was_reset = False, was_deleted = False\<rparr>]"
  "mqs ex_child = [4 \<mapsto> \<lparr>fid = 0, capacity = 2, nb_msg = 1, head = 1, tail = 0, buffer = [7, 0]\<rparr>]"
  by (simp_all add: ex_child_def)

lemma ex_child_kinv: "kinv ex_child"
proof -
  let ?st = ex_child
  have e: "\<exists>p. procs ?st 2 = Some p \<and> state p = ELECTED \<and> \<not> skip_message p"
    by (simp add: ex_child_procs ex_process_def)
  have "wfq ?st" by (auto simp: wfq_def qwf_def prio_of_def ex_child_def ex_process_def split: if_splits)
  moreover have "tab ?st" by (auto simp: tab_def ex_child_procs ex_process_def split: if_splits)
  moreover have "places {2} ?st" unfolding places_def by (auto simp: place_ok_def ex_child_procs ex_process_def)
  moreover have "family {} ?st"
    by (auto simp: family_def child_of_def ended_def ex_child_procs ex_process_def split: if_splits)
  moreover have "idle_ok {2} ?st" by (auto simp: idle_ok_def ex_child_procs ex_process_def)
  moreover have "stale ?st" by (auto simp: stale_def ex_child_procs ex_process_def)
  moreover have "sem_inv (\<lambda>_. 0) ?st" by (auto simp: sem_inv_def sem_ok_def split: if_splits)
  moreover have "mq_inv ?st" by (auto simp: mq_inv_def buffer_ok_def split: if_splits)
  moreover have "fresh ?st" by (auto simp: fresh_def ex_child_def ex_state_def)
  moreover have "conts {2} ?st" unfolding conts_def
    by (auto simp: ex_child_procs) (simp_all add: cont_ok_def ready_def ex_process_def)
  ultimately show ?thesis using e by (auto simp: kinv_def kI_def)
qed

theorem exit_leaves_zombie_witness:
  "\<exists>st' q. exit 7 ex_child = Inr (Switch, st') \<and> process_table st' 2 = Some 2 \<and> procs st' 2 = Some q \<and>
     state q = ZOMBIE \<and> retval q = 7 \<and> pid q = 2 \<and> father_pid q = 1"
proof -
  let ?p = "ex_process 2 ELECTED K_new_process 64 1 []"
  have a: "awaited ex_child (father_pid ?p) (current_pid ex_child)" by (auto simp: awaited_def ex_process_def ex_child_procs)
  have "father_pid ?p \<noteq> -1" "father_pid ?p \<noteq> current_pid ex_child" "procs ex_child 2 = Some ?p"
    by (simp_all add: ex_process_def ex_child_procs)
  from exit_leaves_zombie [OF ex_child_kinv _ this(3) _ this(1,2) a, of 7] show ?thesis by (simp add: ex_process_def)
qed

end
