(* ===== verification/User_Lib.thy ===== *)
theory User_Lib
  imports Kernel_Props
begin

text \<open>
  The library linked with every user program: the stubs of the system calls
  (\<^verbatim>\<open>user/lib/syscall_user.c\<close>), the entry point of a program (\<^verbatim>\<open>user/lib/crt0.c\<close>) and the two
  versions of \<^verbatim>\<open>sbrk\<close>, of user programs (\<^verbatim>\<open>user/lib/sbrk.c\<close>) and of the kernel
  (\<^verbatim>\<open>kernel/mem.c\<close>). The library is built with message queues (\<^verbatim>\<open>WITH_MSG\<close>) and with
  \<^verbatim>\<open>CONS_READ_CHAR\<close>.
\<close>

section \<open>System calls\<close>

text \<open>The value of an enumeration constant of \<^verbatim>\<open>syscall_nums.h\<close>.\<close>

definition syscall_code :: "syscall_number \<Rightarrow> u32" where
  "syscall_code n = of_nat (length (takeWhile (\<lambda>m. m \<noteq> n) syscall_numbers))"

text \<open>
  \<^verbatim>\<open>__syscall\<close>: the arguments go to an array of six words that is cleared first, and
  \<^verbatim>\<open>__do_interruption\<close> loads the first five into registers; the kernel uses four.
\<close>

definition user_syscall :: "kparams \<Rightarrow> uenv \<Rightarrow> syscall_number \<Rightarrow> u32 list \<Rightarrow> sys \<Rightarrow> (flow \<times> sys) sresult" where
  "user_syscall kp ue n xs s =
     (let args = take 6 (xs @ replicate 6 0)
      in IT_49 kp ue (syscall_code n) (args ! 0) (args ! 1) (args ! 2) (args ! 3) s)"

definition u_start :: "kparams \<Rightarrow> uenv \<Rightarrow> u32 \<Rightarrow> u32 \<Rightarrow> u32 \<Rightarrow> u32 \<Rightarrow> sys \<Rightarrow> (flow \<times> sys) sresult" where
  "u_start kp ue process_name ssize prio arg = user_syscall kp ue START [process_name, ssize, prio, arg]"

definition u_getpid :: "kparams \<Rightarrow> uenv \<Rightarrow> sys \<Rightarrow> (flow \<times> sys) sresult" where
  "u_getpid kp ue = user_syscall kp ue GETPID []"

definition u_getprio :: "kparams \<Rightarrow> uenv \<Rightarrow> u32 \<Rightarrow> sys \<Rightarrow> (flow \<times> sys) sresult" where
  "u_getprio kp ue i = user_syscall kp ue GETPRIO [i]"

definition u_chprio :: "kparams \<Rightarrow> uenv \<Rightarrow> u32 \<Rightarrow> u32 \<Rightarrow> sys \<Rightarrow> (flow \<times> sys) sresult" where
  "u_chprio kp ue i newprio = user_syscall kp ue CHPRIO [i, newprio]"

definition u_kill :: "kparams \<Rightarrow> uenv \<Rightarrow> u32 \<Rightarrow> sys \<Rightarrow> (flow \<times> sys) sresult" where
  "u_kill kp ue i = user_syscall kp ue KILL [i]"

definition u_waitpid :: "kparams \<Rightarrow> uenv \<Rightarrow> u32 \<Rightarrow> u32 \<Rightarrow> sys \<Rightarrow> (flow \<times> sys) sresult" where
  "u_waitpid kp ue i r = user_syscall kp ue WAITPID [i, r]"

text \<open>The endless loop after the call of \<^verbatim>\<open>exit\<close> is \<open>Hang\<close>, as in the kernel.\<close>

definition u_exit :: "kparams \<Rightarrow> uenv \<Rightarrow> u32 \<Rightarrow> sys \<Rightarrow> (flow \<times> sys) sresult" where
  "u_exit kp ue v = user_syscall kp ue EXIT [v]"

definition u_cons_write :: "kparams \<Rightarrow> uenv \<Rightarrow> u32 \<Rightarrow> u32 \<Rightarrow> sys \<Rightarrow> (flow \<times> sys) sresult" where
  "u_cons_write kp ue str sz = user_syscall kp ue CONS_WRITE [str, sz]"

definition u_cons_read :: "kparams \<Rightarrow> uenv \<Rightarrow> sys \<Rightarrow> (flow \<times> sys) sresult" where
  "u_cons_read kp ue = user_syscall kp ue CONS_READ []"

definition u_cons_echo :: "kparams \<Rightarrow> uenv \<Rightarrow> u32 \<Rightarrow> sys \<Rightarrow> (flow \<times> sys) sresult" where
  "u_cons_echo kp ue on = user_syscall kp ue CONS_ECHO [on]"

definition u_pcount :: "kparams \<Rightarrow> uenv \<Rightarrow> u32 \<Rightarrow> u32 \<Rightarrow> sys \<Rightarrow> (flow \<times> sys) sresult" where
  "u_pcount kp ue f c = user_syscall kp ue PCOUNT [f, c]"

definition u_pcreate :: "kparams \<Rightarrow> uenv \<Rightarrow> u32 \<Rightarrow> sys \<Rightarrow> (flow \<times> sys) sresult" where
  "u_pcreate kp ue n = user_syscall kp ue PCREATE [n]"

definition u_pdelete :: "kparams \<Rightarrow> uenv \<Rightarrow> u32 \<Rightarrow> sys \<Rightarrow> (flow \<times> sys) sresult" where
  "u_pdelete kp ue f = user_syscall kp ue PDELETE [f]"

definition u_preceive :: "kparams \<Rightarrow> uenv \<Rightarrow> u32 \<Rightarrow> u32 \<Rightarrow> sys \<Rightarrow> (flow \<times> sys) sresult" where
  "u_preceive kp ue f msg = user_syscall kp ue PRECEIVE [f, msg]"

definition u_preset :: "kparams \<Rightarrow> uenv \<Rightarrow> u32 \<Rightarrow> sys \<Rightarrow> (flow \<times> sys) sresult" where
  "u_preset kp ue f = user_syscall kp ue PRESET [f]"

definition u_psend :: "kparams \<Rightarrow> uenv \<Rightarrow> u32 \<Rightarrow> u32 \<Rightarrow> sys \<Rightarrow> (flow \<times> sys) sresult" where
  "u_psend kp ue f msg = user_syscall kp ue PSEND [f, msg]"

definition u_clock_settings :: "kparams \<Rightarrow> uenv \<Rightarrow> u32 \<Rightarrow> u32 \<Rightarrow> sys \<Rightarrow> (flow \<times> sys) sresult" where
  "u_clock_settings kp ue quartz ticks = user_syscall kp ue CLOCK_SETTINGS [quartz, ticks]"

definition u_current_clock :: "kparams \<Rightarrow> uenv \<Rightarrow> sys \<Rightarrow> (flow \<times> sys) sresult" where
  "u_current_clock kp ue = user_syscall kp ue CURRENT_CLOCK []"

definition u_wait_clock :: "kparams \<Rightarrow> uenv \<Rightarrow> u32 \<Rightarrow> sys \<Rightarrow> (flow \<times> sys) sresult" where
  "u_wait_clock kp ue wakeup = user_syscall kp ue WAIT_CLOCK [wakeup]"

definition u_sys_info :: "kparams \<Rightarrow> uenv \<Rightarrow> sys \<Rightarrow> (flow \<times> sys) sresult" where
  "u_sys_info kp ue = user_syscall kp ue SYS_INFO []"

definition u_shm_create :: "kparams \<Rightarrow> uenv \<Rightarrow> u32 \<Rightarrow> sys \<Rightarrow> (flow \<times> sys) sresult" where
  "u_shm_create kp ue key = user_syscall kp ue SHM_CREATE [key]"

definition u_shm_acquire :: "kparams \<Rightarrow> uenv \<Rightarrow> u32 \<Rightarrow> sys \<Rightarrow> (flow \<times> sys) sresult" where
  "u_shm_acquire kp ue key = user_syscall kp ue SHM_ACQUIRE [key]"

definition u_shm_release :: "kparams \<Rightarrow> uenv \<Rightarrow> u32 \<Rightarrow> sys \<Rightarrow> (flow \<times> sys) sresult" where
  "u_shm_release kp ue key = user_syscall kp ue SHM_RELEASE [key]"

text \<open>\<^verbatim>\<open>console_putbytes\<close> of the library: the length is an \<^verbatim>\<open>int\<close> that becomes an unsigned long.\<close>

definition u_console_putbytes :: "kparams \<Rightarrow> uenv \<Rightarrow> u32 \<Rightarrow> u32 \<Rightarrow> sys \<Rightarrow> (flow \<times> sys) sresult" where
  "u_console_putbytes kp ue str len = u_cons_write kp ue str len"

text \<open>\<^verbatim>\<open>_start\<close>, after \<^verbatim>\<open>main\<close> has returned \<open>v\<close>.\<close>

definition crt0_start :: "kparams \<Rightarrow> uenv \<Rightarrow> u32 \<Rightarrow> sys \<Rightarrow> (flow \<times> sys) sresult" where
  "crt0_start kp ue v = u_exit kp ue v"

section \<open>sbrk\<close>

text \<open>The break of a heap that ends at \<open>heap_end\<close>: the result and the new break.\<close>

definition sbrk :: "u32 \<Rightarrow> u32 \<Rightarrow> u32 \<Rightarrow> u32 \<times> u32" where
  "sbrk heap_end increment current =
     (let s = current; c = s + increment in
      if c < current \<or> c > heap_end then (- 1, current) else (s, c))"

section \<open>The stubs reach the kernel\<close>

lemma syscall_code_nth: "unat (syscall_code n) < length syscall_numbers \<and> syscall_numbers ! unat (syscall_code n) = n"
  by (cases n) (simp_all add: syscall_code_def syscall_numbers_def)

text \<open>The kernel's side of a call.\<close>

definition served :: "(sys \<Rightarrow> (flow \<times> sys) sresult) \<Rightarrow> sys \<Rightarrow> (flow \<times> sys) sresult" where
  "served f s = complete_sys (handle_fault (f s))"

lemma served_Return: "f s = Inr (Return v, t) \<Longrightarrow> served f s = Inr (Return v, t)"
  by (simp add: served_def handle_fault_def complete_sys_def)

lemma user_syscall_case:
  "user_syscall kp ue n xs =
     (let args = take 6 (xs @ replicate 6 0) in served (syscall_case kp ue n (args ! 0) (args ! 1) (args ! 2) (args ! 3)))"
  using syscall_code_nth [of n] by (simp add: fun_eq_iff user_syscall_def IT_49_def served_def syscall_def Let_def)


section \<open>Blocks from sbrk\<close>

lemma sbrk_eq:
  assumes "unat current \<le> unat heap_end"
  shows "sbrk heap_end increment current =
    (if unat current + unat increment \<le> unat heap_end then (current, current + increment) else (- 1, current))"
proof (cases "unat current + unat increment < 2 ^ 32")
  case True
  then have "unat (current + increment) = unat current + unat increment" by (simp add: unat_word_ariths)
  then show ?thesis by (auto simp: sbrk_def Let_def word_less_nat_alt)
next
  case False
  have b: "unat current < 2 ^ 32" "unat increment < 2 ^ 32" "unat heap_end < 2 ^ 32"
    using unsigned_less [of current, where 'a = nat] unsigned_less [of increment, where 'a = nat] unsigned_less [of heap_end, where 'a = nat] by simp_all
  then have "unat (current + increment) = unat current + unat increment - 2 ^ 32" using False by (simp add: unat_word_ariths mod_if)
  then have "current + increment < current" using b False by (simp add: word_less_nat_alt)
  then show ?thesis using b False by (simp add: sbrk_def Let_def)
qed

text \<open>A sequence of requests: the results in order.\<close>

fun sbrks :: "u32 \<Rightarrow> u32 list \<Rightarrow> u32 \<Rightarrow> u32 list" where
  "sbrks heap_end [] current = []"
| "sbrks heap_end (i # is) current = (let (r, c) = sbrk heap_end i current in r # sbrks heap_end is c)"

lemma sbrks_above:
  assumes "unat current \<le> unat heap_end" "unat heap_end < 2 ^ 32 - 1" "k < length is" "sbrks heap_end is current ! k \<noteq> - 1"
  shows "unat current \<le> unat (sbrks heap_end is current ! k) \<and> unat (sbrks heap_end is current ! k) + unat (is ! k) \<le> unat heap_end"
  using assms
proof (induction "is" arbitrary: current k)
  case (Cons i "is")
  let ?fit = "unat current + unat i \<le> unat heap_end"
  let ?c = "if ?fit then current + i else current"
  have s: "sbrk heap_end i current = (if ?fit then current else - 1, ?c)" using sbrk_eq [OF Cons.prems(1), of i] by simp
  have u: "unat ?c = (if ?fit then unat current + unat i else unat current)" using Cons.prems(2) by (simp add: unat_word_ariths)
  then have c: "unat ?c \<le> unat heap_end" "unat current \<le> unat ?c" using Cons.prems(1) by (simp_all split: if_splits)
  show ?case
  proof (cases k)
    case 0
    with Cons.prems(4) show ?thesis by (simp add: s split: if_splits)
  next
    case (Suc k')
    with Cons.prems(3,4) Cons.IH [OF c(1) Cons.prems(2), of k'] c(2) show ?thesis by (simp add: s)
  qed
qed simp

text \<open>
  The blocks that a sequence of calls of \<^verbatim>\<open>sbrk\<close> returns lie in the heap and do not overlap,
  whatever is asked for, and whether or not calls in between fail: also when the sum of break
  and increment wraps around.
\<close>

theorem sbrk_blocks_disjoint:
  assumes "unat current \<le> unat heap_end" "unat heap_end < 2 ^ 32 - 1" "j < k" "k < length is"
    "sbrks heap_end is current ! j \<noteq> - 1" "sbrks heap_end is current ! k \<noteq> - 1"
  shows "unat current \<le> unat (sbrks heap_end is current ! j) \<and>
    unat (sbrks heap_end is current ! j) + unat (is ! j) \<le> unat (sbrks heap_end is current ! k) \<and>
    unat (sbrks heap_end is current ! k) + unat (is ! k) \<le> unat heap_end"
  using assms
proof (induction "is" arbitrary: current j k)
  case (Cons i "is")
  let ?fit = "unat current + unat i \<le> unat heap_end"
  let ?c = "if ?fit then current + i else current"
  have s: "sbrk heap_end i current = (if ?fit then current else - 1, ?c)" using sbrk_eq [OF Cons.prems(1), of i] by simp
  have u: "unat ?c = (if ?fit then unat current + unat i else unat current)" using Cons.prems(2) by (simp add: unat_word_ariths)
  then have c: "unat ?c \<le> unat heap_end" "unat current \<le> unat ?c" using Cons.prems(1) by (simp_all split: if_splits)
  from Cons.prems(3) obtain k' where k: "k = Suc k'" by (cases k) auto
  show ?case
  proof (cases j)
    case 0
    with Cons.prems(5) have "?fit" by (simp add: s split: if_splits)
    with 0 k u Cons.prems(4,6) sbrks_above [OF c(1) Cons.prems(2), of k' "is"] show ?thesis by (simp add: s)
  next
    case (Suc j')
    with k Cons.prems(3-6) Cons.IH [OF c(1) Cons.prems(2), of j' k'] c(2) show ?thesis by (simp add: s)
  qed
qed simp

theorem sbrk_blocks_disjoint_witness:
  "sbrks 0x9000 [0x800, 0xFFFFFFF0, 0x100] 0x8000 = [0x8000, - 1, 0x8800] \<and>
   unat (0x8000 :: u32) + unat (0x800 :: u32) \<le> unat (0x8800 :: u32)"
proof -
  have e: "sbrks 0x9000 [0x800, 0xFFFFFFF0, 0x100] 0x8000 = [0x8000, - 1, 0x8800]" by (simp add: sbrk_def)
  from sbrk_blocks_disjoint [of "0x8000" "0x9000" 0 2 "[0x800, 0xFFFFFFF0, 0x100]", unfolded e] show ?thesis using e by simp
qed

end
