(* ===== verification/Strings.thy ===== *)
theory Strings
  imports Prelude
begin

unbundle bit_operations_syntax

text \<open>
  The string routines of \<^verbatim>\<open>shared/string.c\<close>, over a byte-addressed memory. Pointers are 32-bit
  words and wrap around; a \<^verbatim>\<open>size_t\<close> is the natural number it stands for. A loop that runs until
  it meets a NUL byte may not end, and is then \<open>None\<close>. The versions translated are those of the
  i386 build: \<^verbatim>\<open>memcpy\<close> and \<^verbatim>\<open>memset\<close> work by 32-bit words, \<^verbatim>\<open>memmove\<close> by bytes, up or down.
\<close>

type_synonym cmem = "u32 \<Rightarrow> u8"

section \<open>Blocks of bytes\<close>

fun memccpy :: "u32 \<Rightarrow> u32 \<Rightarrow> int \<Rightarrow> nat \<Rightarrow> cmem \<Rightarrow> u32 \<times> cmem" where
  "memccpy q p c 0 M = (0, M)"
| "memccpy q p c (Suc n) M =
     (let ch = M p; M = M(q := ch)
      in if ch = of_int c then (q + 1, M) else memccpy (q + 1) (p + 1) c n M)"

fun memchr :: "u32 \<Rightarrow> int \<Rightarrow> nat \<Rightarrow> cmem \<Rightarrow> u32" where
  "memchr sp c 0 M = 0"
| "memchr sp c (Suc n) M = (if M sp = of_int c then sp else memchr (sp + 1) c n M)"

fun memrchr_loop :: "u32 \<Rightarrow> int \<Rightarrow> nat \<Rightarrow> cmem \<Rightarrow> u32" where
  "memrchr_loop sp c 0 M = 0"
| "memrchr_loop sp c (Suc n) M = (if M sp = of_int c then sp else memrchr_loop (sp - 1) c n M)"

definition memrchr :: "u32 \<Rightarrow> int \<Rightarrow> nat \<Rightarrow> cmem \<Rightarrow> u32" where
  "memrchr s c n M = memrchr_loop (s + of_nat n - 1) c n M"

fun memcmp :: "u32 \<Rightarrow> u32 \<Rightarrow> nat \<Rightarrow> cmem \<Rightarrow> int" where
  "memcmp c1 c2 0 M = 0"
| "memcmp c1 c2 (Suc n) M =
     (let d = uint (M c1) - uint (M c2) in if d \<noteq> 0 then d else memcmp (c1 + 1) (c2 + 1) n M)"

text \<open>The string instructions: \<^verbatim>\<open>rep movsb\<close> up and down, \<^verbatim>\<open>rep movsl\<close>, \<^verbatim>\<open>rep stosb\<close>, \<^verbatim>\<open>rep stosl\<close>.\<close>

fun movsb :: "nat \<Rightarrow> u32 \<Rightarrow> u32 \<Rightarrow> cmem \<Rightarrow> cmem" where
  "movsb 0 q p M = M"
| "movsb (Suc n) q p M = movsb n (q + 1) (p + 1) (M(q := M p))"

fun movsb_down :: "nat \<Rightarrow> u32 \<Rightarrow> u32 \<Rightarrow> cmem \<Rightarrow> cmem" where
  "movsb_down 0 q p M = M"
| "movsb_down (Suc n) q p M = movsb_down n (q - 1) (p - 1) (M(q := M p))"

fun movsl :: "nat \<Rightarrow> u32 \<Rightarrow> u32 \<Rightarrow> cmem \<Rightarrow> cmem" where
  "movsl 0 q p M = M"
| "movsl (Suc n) q p M =
     movsl n (q + 4) (p + 4) (M(q := M p, q + 1 := M (p + 1), q + 2 := M (p + 2), q + 3 := M (p + 3)))"

fun stosb :: "nat \<Rightarrow> u32 \<Rightarrow> u8 \<Rightarrow> cmem \<Rightarrow> cmem" where
  "stosb 0 q c M = M"
| "stosb (Suc n) q c M = stosb n (q + 1) c (M(q := c))"

fun stosl :: "nat \<Rightarrow> u32 \<Rightarrow> u32 \<Rightarrow> cmem \<Rightarrow> cmem" where
  "stosl 0 q w M = M"
| "stosl (Suc n) q w M =
     stosl n (q + 4) w (M(q := ucast w, q + 1 := ucast (drop_bit 8 w), q + 2 := ucast (drop_bit 16 w), q + 3 := ucast (drop_bit 24 w)))"

definition memcpy :: "u32 \<Rightarrow> u32 \<Rightarrow> nat \<Rightarrow> cmem \<Rightarrow> u32 \<times> cmem" where
  "memcpy dst src n M =
     (let nl = n div 4
      in (dst, movsb (n mod 4) (dst + of_nat (4 * nl)) (src + of_nat (4 * nl)) (movsl nl dst src M)))"

definition memmove :: "u32 \<Rightarrow> u32 \<Rightarrow> nat \<Rightarrow> cmem \<Rightarrow> u32 \<times> cmem" where
  "memmove dst src n M =
     (dst, if dst < src then movsb n dst src M
           else movsb_down n (dst + (of_nat n - 1)) (src + (of_nat n - 1)) M)"

definition memset :: "u32 \<Rightarrow> int \<Rightarrow> nat \<Rightarrow> cmem \<Rightarrow> u32 \<times> cmem" where
  "memset dst c n M =
     (let nl = n div 4; a = ucast (of_int c :: u8) * 0x01010101 :: u32
      in (dst, stosb (n mod 4) (dst + of_nat (4 * nl)) (ucast a) (stosl nl dst a M)))"

fun memswap :: "u32 \<Rightarrow> u32 \<Rightarrow> nat \<Rightarrow> cmem \<Rightarrow> cmem" where
  "memswap p q 0 M = M"
| "memswap p q (Suc n) M =
     (let tmp = M p; M = M(p := M q); M = M(q := tmp) in memswap (p + 1) (q + 1) n M)"

text \<open>
  The two searches of \<^verbatim>\<open>memmem\<close>. The strides \<^verbatim>\<open>k\<close> and \<^verbatim>\<open>l\<close> depend on whether the first two bytes
  of the needle are equal.
\<close>

function memmem_loop :: "u32 \<Rightarrow> nat \<Rightarrow> u32 \<Rightarrow> nat \<Rightarrow> bool \<Rightarrow> nat \<Rightarrow> cmem \<Rightarrow> u32" where
  "memmem_loop y n x m same j M =
     (let k = if same then 2 else 1; l = if same then 1 else 2
      in if j \<le> n - m then
           if M (x + 1) \<noteq> M (y + of_nat (j + 1)) then memmem_loop y n x m same (j + k) M
           else if memcmp (x + 2) (y + of_nat j + 2) (m - 2) M = 0 \<and> M x = M (y + of_nat j) then y + of_nat j
           else memmem_loop y n x m same (j + l) M
         else 0)"
  by pat_completeness auto
termination
  by (relation "measure (\<lambda>(y, n, x, m, same, j, M). n - m + 1 - j)") (auto split: if_splits)

declare memmem_loop.simps [simp del]

fun memmem_byte :: "u32 \<Rightarrow> u32 \<Rightarrow> nat \<Rightarrow> cmem \<Rightarrow> u32" where
  "memmem_byte y x 0 M = 0"
| "memmem_byte y x (Suc n) M = (if M y = M x then y else memmem_byte (y + 1) x n M)"

definition memmem :: "u32 \<Rightarrow> nat \<Rightarrow> u32 \<Rightarrow> nat \<Rightarrow> cmem \<Rightarrow> u32" where
  "memmem y n x m M =
     (if m > n \<or> m = 0 \<or> n = 0 then 0
      else if 1 \<noteq> m then memmem_loop y n x m (M x = M (x + 1)) 0 M
      else memmem_byte y x n M)"

section \<open>Strings\<close>

partial_function (option) strlen_loop :: "u32 \<Rightarrow> cmem \<Rightarrow> u32 option" where
  "strlen_loop ss M = (if M ss \<noteq> 0 then strlen_loop (ss + 1) M else Some ss)"

definition strlen :: "u32 \<Rightarrow> cmem \<Rightarrow> nat option" where
  "strlen s M = map_option (\<lambda>ss. unat (ss - s)) (strlen_loop s M)"

fun strnlen_loop :: "u32 \<Rightarrow> nat \<Rightarrow> cmem \<Rightarrow> u32" where
  "strnlen_loop ss 0 M = ss"
| "strnlen_loop ss (Suc maxlen) M = (if M ss \<noteq> 0 then strnlen_loop (ss + 1) maxlen M else ss)"

definition strnlen :: "u32 \<Rightarrow> nat \<Rightarrow> cmem \<Rightarrow> nat" where
  "strnlen s maxlen M = unat (strnlen_loop s maxlen M - s)"

partial_function (option) strchr :: "u32 \<Rightarrow> int \<Rightarrow> cmem \<Rightarrow> u32 option" where
  "strchr s c M =
     (if M s \<noteq> of_int c then if M s = 0 then Some 0 else strchr (s + 1) c M else Some s)"

partial_function (option) strrchr_loop :: "u32 \<Rightarrow> int \<Rightarrow> u32 \<Rightarrow> cmem \<Rightarrow> u32 option" where
  "strrchr_loop s c found M =
     (if M s \<noteq> 0 then strrchr_loop (s + 1) c (if M s = of_int c then s else found) M else Some found)"

definition strrchr :: "u32 \<Rightarrow> int \<Rightarrow> cmem \<Rightarrow> u32 option" where
  "strrchr s c M = strrchr_loop s c 0 M"

partial_function (option) strcmp :: "u32 \<Rightarrow> u32 \<Rightarrow> cmem \<Rightarrow> int option" where
  "strcmp c1 c2 M =
     (let d = uint (M c1) - uint (M c2) in if d \<noteq> 0 \<or> M c1 = 0 then Some d else strcmp (c1 + 1) (c2 + 1) M)"

fun strncmp :: "u32 \<Rightarrow> u32 \<Rightarrow> nat \<Rightarrow> cmem \<Rightarrow> int" where
  "strncmp c1 c2 0 M = 0"
| "strncmp c1 c2 (Suc n) M =
     (let d = uint (M c1) - uint (M c2) in if d \<noteq> 0 \<or> M c1 = 0 then d else strncmp (c1 + 1) (c2 + 1) n M)"

partial_function (option) strcpy_loop :: "u32 \<Rightarrow> u32 \<Rightarrow> cmem \<Rightarrow> cmem option" where
  "strcpy_loop q p M =
     (let ch = M p; M = M(q := ch) in if ch \<noteq> 0 then strcpy_loop (q + 1) (p + 1) M else Some M)"

definition strcpy :: "u32 \<Rightarrow> u32 \<Rightarrow> cmem \<Rightarrow> (u32 \<times> cmem) option" where
  "strcpy dst src M = map_option (Pair dst) (strcpy_loop dst src M)"

definition strcat :: "u32 \<Rightarrow> u32 \<Rightarrow> cmem \<Rightarrow> (u32 \<times> cmem) option" where
  "strcat dst src M =
     Option.bind (strchr dst 0 M) (\<lambda>q. Option.bind (strcpy q src M) (\<lambda>(_, M). Some (dst, M)))"

fun strncat_loop :: "u32 \<Rightarrow> u32 \<Rightarrow> nat \<Rightarrow> cmem \<Rightarrow> cmem" where
  "strncat_loop q p 0 M = M(q := 0)"
| "strncat_loop q p (Suc n) M =
     (let ch = M p; M = M(q := ch) in if ch = 0 then M else strncat_loop (q + 1) (p + 1) n M)"

definition strncat :: "u32 \<Rightarrow> u32 \<Rightarrow> nat \<Rightarrow> cmem \<Rightarrow> (u32 \<times> cmem) option" where
  "strncat dst src n M = map_option (\<lambda>q. (dst, strncat_loop q src n M)) (strchr dst 0 M)"

text \<open>The two loops of \<^verbatim>\<open>strlcat\<close>; \<open>bytes\<close> counts the characters of the result.\<close>

function strlcat_skip :: "u32 \<Rightarrow> nat \<Rightarrow> nat \<Rightarrow> cmem \<Rightarrow> u32 \<times> nat" where
  "strlcat_skip q bytes sz M =
     (if bytes < sz \<and> M q \<noteq> 0 then strlcat_skip (q + 1) (bytes + 1) sz M else (q, bytes))"
  by pat_completeness auto
termination
  by (relation "measure (\<lambda>(q, bytes, sz, M). sz - bytes)") auto

declare strlcat_skip.simps [simp del]

partial_function (option) strlcat_copy :: "u32 \<Rightarrow> u32 \<Rightarrow> nat \<Rightarrow> nat \<Rightarrow> cmem \<Rightarrow> (u32 \<times> nat \<times> cmem) option" where
  "strlcat_copy q p bytes sz M =
     (let ch = M p
      in if ch \<noteq> 0 then
           if bytes + 1 < sz then strlcat_copy (q + 1) (p + 1) (bytes + 1) sz (M(q := ch))
           else strlcat_copy q (p + 1) (bytes + 1) sz M
         else Some (q, bytes, M))"

definition strlcat :: "u32 \<Rightarrow> u32 \<Rightarrow> nat \<Rightarrow> cmem \<Rightarrow> (nat \<times> cmem) option" where
  "strlcat dst src sz M =
     (case strlcat_skip dst 0 sz M of
        (q, bytes) \<Rightarrow>
          if bytes = sz then map_option (\<lambda>n. (bytes + n, M)) (strlen src M)
          else map_option (\<lambda>(q, bytes, M). (bytes, M(q := 0))) (strlcat_copy q src bytes sz M))"

fun strncpy_loop :: "u32 \<Rightarrow> u32 \<Rightarrow> nat \<Rightarrow> cmem \<Rightarrow> u32 \<times> nat \<times> cmem" where
  "strncpy_loop q p 0 M = (q, 0, M)"
| "strncpy_loop q p (Suc n) M =
     (let ch = M p; M = M(q := ch) in if ch = 0 then (q + 1, n, M) else strncpy_loop (q + 1) (p + 1) n M)"

definition strncpy :: "u32 \<Rightarrow> u32 \<Rightarrow> nat \<Rightarrow> cmem \<Rightarrow> u32 \<times> cmem" where
  "strncpy dst src n M = (case strncpy_loop dst src n M of (q, n, M) \<Rightarrow> (dst, snd (memset q 0 n M)))"

text \<open>\<^verbatim>\<open>__strxspn\<close>: the table of the characters of \<^verbatim>\<open>map\<close>, and the length of the span.\<close>

partial_function (option) matchmap_loop :: "u32 \<Rightarrow> (u8 \<Rightarrow> u8) \<Rightarrow> cmem \<Rightarrow> (u8 \<Rightarrow> u8) option" where
  "matchmap_loop mp matchmap M =
     (if M mp \<noteq> 0 then matchmap_loop (mp + 1) (matchmap(M mp := 1)) M else Some matchmap)"

partial_function (option) span_loop :: "u32 \<Rightarrow> (u8 \<Rightarrow> u8) \<Rightarrow> int \<Rightarrow> nat \<Rightarrow> cmem \<Rightarrow> nat option" where
  "span_loop s matchmap parity n M =
     (if sint (matchmap (M s)) XOR parity \<noteq> 0 then span_loop (s + 1) matchmap parity (n + 1) M else Some n)"

definition strxspn :: "u32 \<Rightarrow> u32 \<Rightarrow> int \<Rightarrow> cmem \<Rightarrow> nat option" where
  "strxspn s mp parity M =
     Option.bind (matchmap_loop mp (\<lambda>_. 0) M)
       (\<lambda>matchmap. span_loop s (matchmap(0 := of_int parity)) parity 0 M)"

definition strcspn :: "u32 \<Rightarrow> u32 \<Rightarrow> cmem \<Rightarrow> nat option" where
  "strcspn s reject M = strxspn s reject 1 M"

definition strspn :: "u32 \<Rightarrow> u32 \<Rightarrow> cmem \<Rightarrow> nat option" where
  "strspn s accept M = strxspn s accept 0 M"

definition strpbrk :: "u32 \<Rightarrow> u32 \<Rightarrow> cmem \<Rightarrow> u32 option" where
  "strpbrk s accept M =
     map_option (\<lambda>n. let ss = s + of_nat n in if M ss \<noteq> 0 then ss else 0) (strxspn s accept 1 M)"

text \<open>\<^verbatim>\<open>strsep\<close> returns the field, the new \<^verbatim>\<open>*stringp\<close> and the memory.\<close>

definition strsep :: "u32 \<Rightarrow> u32 \<Rightarrow> cmem \<Rightarrow> (u32 \<times> u32 \<times> cmem) option" where
  "strsep stringp delim M =
     (if stringp = 0 then Some (0, stringp, M)
      else map_option (\<lambda>e. if e \<noteq> 0 then (stringp, e + 1, M(e := 0)) else (stringp, e, M)) (strpbrk stringp delim M))"

definition strstr :: "u32 \<Rightarrow> u32 \<Rightarrow> cmem \<Rightarrow> u32 option" where
  "strstr haystack needle M =
     Option.bind (strlen haystack M) (\<lambda>n. Option.bind (strlen needle M) (\<lambda>m.
       Some (memmem haystack n needle m M)))"

text \<open>The static variable \<^verbatim>\<open>holder\<close> of \<^verbatim>\<open>strtok\<close> is passed and returned.\<close>

definition strtok :: "u32 \<Rightarrow> u32 \<Rightarrow> u32 \<Rightarrow> cmem \<Rightarrow> (u32 \<times> u32 \<times> cmem) option" where
  "strtok s delim holder M = strsep (if s \<noteq> 0 then s else holder) delim M"

end
