(* ===== verification/Strings_Spec.thy ===== *)
theory Strings_Spec
  imports Strings
begin

text \<open>
  What the string routines do: blocks of bytes as lists (\<open>bytes_at\<close>), strings as lists of
  non-NUL bytes (\<open>str_at\<close>), and each routine as a function on these lists.
\<close>

section \<open>Bytes and strings in memory\<close>

primrec bytes_at :: "cmem \<Rightarrow> u32 \<Rightarrow> nat \<Rightarrow> u8 list" where
  "bytes_at M p 0 = []"
| "bytes_at M p (Suc n) = M p # bytes_at M (p + 1) n"

fun str_at :: "cmem \<Rightarrow> u32 \<Rightarrow> u8 list \<Rightarrow> bool" where
  "str_at M p [] = (M p = 0)"
| "str_at M p (x # xs) = (M p = x \<and> x \<noteq> 0 \<and> str_at M (p + 1) xs)"

definition area :: "u32 \<Rightarrow> nat \<Rightarrow> u32 set" where
  "area p n = (\<lambda>i. p + of_nat i) ` {..<n}"

lemma ptr_Suc: "p + (1 + q) = p + 1 + (q :: u32)"
  by (rule add.assoc [symmetric])

lemma length_bytes_at [simp]: "length (bytes_at M p n) = n"
  by (induction n arbitrary: p) simp_all

lemma nth_bytes_at: "i < n \<Longrightarrow> bytes_at M p n ! i = M (p + of_nat i)"
  by (induction n arbitrary: p i) (auto simp: nth_Cons ac_simps split: nat.splits)

lemma bytes_at_eq: "bytes_at M p n = bytes_at M' p' n \<longleftrightarrow> (\<forall>i<n. M (p + of_nat i) = M' (p' + of_nat i))"
  by (auto simp: list_eq_iff_nth_eq nth_bytes_at)

lemma area_0 [simp]: "area p 0 = {}"
  by (simp add: area_def)

lemma area_Suc: "area p (Suc n) = insert p (area (p + 1) n)"
proof -
  have "{..<Suc n} = insert 0 (Suc ` {..<n})" by (auto simp: image_iff less_Suc_eq_0_disj)
  then show ?thesis by (auto simp: area_def image_image ac_simps)
qed

lemma at_numeral [simp]:
  "bytes_at M p (numeral k) = M p # bytes_at M (p + 1) (pred_numeral k)"
  "area p (numeral k) = insert p (area (p + 1) (pred_numeral k))"
  by (simp_all add: numeral_eq_Suc area_Suc)

lemma area_add: "area p (m + n) = area p m \<union> area (p + of_nat m) n"
  by (induction m arbitrary: p) (simp_all add: area_Suc ac_simps)

lemma areaI: "i < n \<Longrightarrow> p + of_nat i \<in> area p n"
  by (auto simp: area_def)

lemma area_apart: "area q n \<inter> area p n = {} \<Longrightarrow> \<forall>i j. i < j \<and> j < n \<longrightarrow> q + of_nat i \<noteq> p + of_nat j"
  using areaI [of _ n q] areaI [of _ n p] by (metis disjoint_iff order.strict_trans)

lemma area_snoc: "area p (Suc n) = insert (p + of_nat n) (area p n)"
  using area_add [of p n 1] by (simp add: area_Suc)

lemma str_at_nth: "str_at M p xs \<Longrightarrow> i < length xs \<Longrightarrow> M (p + of_nat i) = xs ! i \<and> xs ! i \<noteq> 0"
  by (induction xs arbitrary: p i) (auto simp: nth_Cons ptr_Suc split: nat.splits)

lemma str_at_end: "str_at M p xs \<Longrightarrow> M (p + of_nat (length xs)) = 0"
  by (induction xs arbitrary: p) (auto simp: ptr_Suc)

lemma str_atI:
  "(\<And>i. i < length xs \<Longrightarrow> M (p + of_nat i) = xs ! i \<and> xs ! i \<noteq> 0) \<Longrightarrow> M (p + of_nat (length xs)) = 0 \<Longrightarrow> str_at M p xs"
proof (induction xs arbitrary: p)
  case (Cons x xs)
  have "str_at M (p + 1) xs" using Cons.prems(1) [of "Suc i" for i] Cons.prems(2) by (intro Cons.IH) (auto simp: ac_simps)
  with Cons.prems(1) [of 0] show ?case by simp
qed simp

lemma str_at_append: "str_at M p (xs @ ys) \<longleftrightarrow> bytes_at M p (length xs) = xs \<and> 0 \<notin> set xs \<and> str_at M (p + of_nat (length xs)) ys"
  by (induction xs arbitrary: p) (auto simp: ac_simps)

lemma str_at_bytes: "str_at M p xs \<longleftrightarrow> bytes_at M p (length xs) = xs \<and> 0 \<notin> set xs \<and> M (p + of_nat (length xs)) = 0"
  using str_at_append [of M p xs "[]"] by simp

lemma str_at_unique: "str_at M p xs \<Longrightarrow> str_at M p ys \<Longrightarrow> xs = ys"
  by (induction xs arbitrary: p ys) (case_tac ys; auto)+

text \<open>A string is shorter than the address space: its NUL is not one of its characters.\<close>

lemma str_at_short: assumes "str_at M p xs" shows "length xs < 2 ^ 32"
proof (rule ccontr)
  assume "\<not> length xs < 2 ^ 32"
  let ?i = "length xs - 2 ^ 32"
  have "(of_nat (length xs) :: u32) = of_nat (?i + 2 ^ 32)" using \<open>\<not> length xs < 2 ^ 32\<close> by (simp add: not_less)
  also have "\<dots> = of_nat ?i" unfolding of_nat_add by simp
  finally have "M (p + of_nat ?i) = 0" using str_at_end [OF assms] by simp
  moreover have "?i < length xs" using \<open>\<not> length xs < 2 ^ 32\<close> by (simp add: not_less)
  ultimately show False using str_at_nth [OF assms, of ?i] by simp
qed

lemma str_at_cong: "(\<And>a. a \<in> area p (Suc (length xs)) \<Longrightarrow> M a = M' a) \<Longrightarrow> str_at M p xs = str_at M' p xs"
proof (induction xs arbitrary: p)
  case (Cons x xs)
  then have "str_at M (p + 1) xs = str_at M' (p + 1) xs" "M p = M' p" by (auto simp: area_Suc [of p])
  then show ?case by simp
qed (simp add: area_Suc)

lemma bytes_at_cong: "(\<And>a. a \<in> area p n \<Longrightarrow> M a = M' a) \<Longrightarrow> bytes_at M p n = bytes_at M' p n"
  by (induction n arbitrary: p) (auto simp: area_Suc)

section \<open>Copying blocks\<close>

definition copied :: "u32 \<Rightarrow> u32 \<Rightarrow> nat \<Rightarrow> cmem \<Rightarrow> cmem" where
  "copied q p n M = (\<lambda>x. if x \<in> area q n then M (x - q + p) else M x)"

lemma bytes_at_copied: "bytes_at (copied q p n M) q n = bytes_at M p n"
  by (auto simp: bytes_at_eq copied_def areaI algebra_simps)

lemma copied_outside: "x \<notin> area q n \<Longrightarrow> copied q p n M x = M x"
  by (simp add: copied_def)

lemma movsb_add: "movsb (m + n) q p M = movsb n (q + of_nat m) (p + of_nat m) (movsb m q p M)"
  by (induction m arbitrary: q p M) (simp_all add: ptr_Suc)

text \<open>Upwards, no write may hit a byte that is still to be read; downwards, the other way round.\<close>

lemma movsb_eq:
  "\<forall>i j. i < j \<and> j < n \<longrightarrow> q + of_nat i \<noteq> p + of_nat j \<Longrightarrow> movsb n q p M = copied q p n M"
proof (induction n arbitrary: q p M)
  case (Suc n)
  let ?M = "M(q := M p)"
  have "(q + 1) + of_nat i \<noteq> (p + 1) + of_nat j" if "i < j" "j < n" for i j
    using Suc.prems [rule_format, of "Suc i" "Suc j"] that by (simp add: algebra_simps)
  then have IH: "movsb (Suc n) q p M = copied (q + 1) (p + 1) n ?M" by (auto intro!: Suc.IH)
  have "?M (x - (q + 1) + (p + 1)) = M (x - q + p)" if "x \<in> area (q + 1) n" for x
  proof -
    from that obtain j where j: "j < n" "x = q + 1 + of_nat j" by (auto simp: area_def)
    with Suc.prems [rule_format, of 0 "Suc j"] show ?thesis by (auto simp: algebra_simps)
  qed
  then show ?case unfolding IH by (auto simp: copied_def area_Suc fun_eq_iff)
qed (simp add: copied_def)

lemma movsb_down_eq:
  "\<forall>i j. j < i \<and> i < n \<longrightarrow> q + of_nat i \<noteq> p + of_nat j \<Longrightarrow>
   movsb_down n (q + (of_nat n - 1)) (p + (of_nat n - 1)) M = copied q p n M"
proof (induction n arbitrary: M)
  case (Suc n)
  let ?M = "M(q + of_nat n := M (p + of_nat n))"
  have "movsb_down (Suc n) (q + (of_nat (Suc n) - 1)) (p + (of_nat (Suc n) - 1)) M =
      movsb_down n (q + (of_nat n - 1)) (p + (of_nat n - 1)) ?M" by (simp add: algebra_simps)
  also have "\<dots> = copied q p n ?M" using Suc.prems by (intro Suc.IH) auto
  also have "\<dots> = copied q p (Suc n) M"
  proof -
    have "?M (x - q + p) = M (x - q + p)" if "x \<in> area q n" for x
    proof -
      from that obtain j where "j < n" "x = q + of_nat j" by (auto simp: area_def)
      with Suc.prems [rule_format, of j n] show ?thesis by (auto simp: algebra_simps)
    qed
    then show ?thesis by (auto simp: copied_def area_snoc fun_eq_iff algebra_simps)
  qed
  finally show ?case .
qed (simp add: copied_def)

lemma movsl_eq:
  "\<forall>i j. i < j \<and> j < 4 * n \<longrightarrow> q + of_nat i \<noteq> p + of_nat j \<Longrightarrow> movsl n q p M = movsb (4 * n) q p M"
proof (induction n arbitrary: q p M)
  case (Suc n)
  have "(q + 4) + of_nat i \<noteq> (p + 4) + of_nat j" if "i < j" "j < 4 * n" for i j
    using Suc.prems [rule_format, of "i + 4" "j + 4"] that by (simp add: algebra_simps)
  then have IH: "movsl n (q + 4) (p + 4) M' = movsb (4 * n) (q + 4) (p + 4) M'" for M' by (auto intro!: Suc.IH)
  have "q \<noteq> p + 1" "q \<noteq> p + 2" "q \<noteq> p + 3" "q + 1 \<noteq> p + 2" "q + 1 \<noteq> p + 3" "q + 2 \<noteq> p + 3"
    using Suc.prems [rule_format, of 0 1] Suc.prems [rule_format, of 0 2] Suc.prems [rule_format, of 0 3]
      Suc.prems [rule_format, of 1 2] Suc.prems [rule_format, of 1 3] Suc.prems [rule_format, of 2 3] by auto
  then have "M(q := M p, q + 1 := M (p + 1), q + 2 := M (p + 2), q + 3 := M (p + 3)) = movsb 4 q p M"
    by (simp add: numeral_eq_Suc fun_upd_def fun_eq_iff algebra_simps)
  with IH movsb_add [of 4 "4 * n" q p M] show ?case by simp
qed simp

lemma memcpy_eq:
  assumes "\<forall>i j. i < j \<and> j < n \<longrightarrow> dst + of_nat i \<noteq> src + of_nat j"
  shows "memcpy dst src n M = (dst, copied dst src n M)"
proof -
  have "movsl (n div 4) dst src M = movsb (4 * (n div 4)) dst src M" using assms by (intro movsl_eq) auto
  then have "snd (memcpy dst src n M) = movsb (4 * (n div 4) + n mod 4) dst src M" 
    using movsb_add [of "4 * (n div 4)" "n mod 4" dst src M] by (simp add: memcpy_def Let_def)
  with movsb_eq [OF assms] show ?thesis by (simp add: memcpy_def Let_def prod_eq_iff)
qed

lemma below_add: "unat p + i < 2 ^ 32 \<Longrightarrow> unat (p + of_nat i :: u32) = unat p + i"
  by (simp add: unat_word_ariths unat_of_nat)

lemma memmove_eq:
  assumes "unat dst + n \<le> 2 ^ 32" "unat src + n \<le> 2 ^ 32"
  shows "memmove dst src n M = (dst, copied dst src n M)"
proof (cases "dst < src")
  case True
  have "dst + of_nat i \<noteq> src + of_nat j" if "i < j" "j < n" for i j
  proof -
    have "unat (dst + of_nat i) = unat dst + i" "unat (src + of_nat j) = unat src + j"
      using that assms by (auto intro!: below_add)
    with True that show ?thesis by (auto simp: word_less_nat_alt)
  qed
  then have "movsb n dst src M = copied dst src n M" by (intro movsb_eq) auto
  with True show ?thesis by (simp add: memmove_def)
next
  case False
  have "dst + of_nat i \<noteq> src + of_nat j" if "j < i" "i < n" for i j
  proof -
    have "unat (dst + of_nat i) = unat dst + i" "unat (src + of_nat j) = unat src + j"
      using that assms by (auto intro!: below_add)
    with False that show ?thesis by (auto simp: word_less_nat_alt)
  qed
  then have "movsb_down n (dst + (of_nat n - 1)) (src + (of_nat n - 1)) M = copied dst src n M" by (intro movsb_down_eq) auto
  with False show ?thesis by (simp add: memmove_def)
qed

text \<open>
  \<^verbatim>\<open>memcpy\<close>, which copies by words of four bytes and then by bytes, copies the block byte for
  byte when the two areas are disjoint, and changes nothing else.
\<close>

theorem memcpy_copies:
  assumes "area dst n \<inter> area src n = {}"
  shows "\<exists>M'. memcpy dst src n M = (dst, M') \<and> bytes_at M' dst n = bytes_at M src n \<and> (\<forall>x. x \<notin> area dst n \<longrightarrow> M' x = M x)"
proof -
  have "\<forall>i j. i < j \<and> j < n \<longrightarrow> dst + of_nat i \<noteq> src + of_nat j"
    by (rule area_apart [OF assms])
  from memcpy_eq [OF this] show ?thesis by (simp add: bytes_at_copied copied_outside)
qed

theorem memcpy_copies_witness: "\<exists>M'. memcpy 100 200 6 (\<lambda>x. ucast x) = (100, M') \<and> bytes_at M' 100 6 = [200, 201, 202, 203, 204, 205]"
proof -
  have "area 100 6 \<inter> area 200 6 = {}" by (simp add: area_Suc)
  from memcpy_copies [OF this, of "\<lambda>x. ucast x"] show ?thesis by auto
qed

text \<open>
  \<^verbatim>\<open>memmove\<close> copies a block to any place, overlapping or not, that does not reach the end of
  the address space: the destination then holds the old bytes of the source.
\<close>

theorem memmove_copies:
  assumes "unat dst + n \<le> 2 ^ 32" "unat src + n \<le> 2 ^ 32"
  shows "\<exists>M'. memmove dst src n M = (dst, M') \<and> bytes_at M' dst n = bytes_at M src n \<and> (\<forall>x. x \<notin> area dst n \<longrightarrow> M' x = M x)"
  using memmove_eq [OF assms] by (simp add: bytes_at_copied copied_outside)

theorem memmove_copies_witness: "\<exists>M'. memmove 102 100 4 (\<lambda>x. ucast x) = (102, M') \<and> bytes_at M' 102 4 = [100, 101, 102, 103]"
  using memmove_copies [of 102 4 100 "\<lambda>x. ucast x"] by auto

section \<open>Filling blocks\<close>

lemma stosb_eq: "stosb n q c M = (\<lambda>x. if x \<in> area q n then c else M x)"
  by (induction n arbitrary: q M) (auto simp: area_Suc fun_eq_iff)

lemma fill_arith:
  "n < 256 \<Longrightarrow> n * 16843009 mod 256 = (n :: nat)"
  "n < 256 \<Longrightarrow> n * 16843009 div 256 mod 256 = (n :: nat)"
  "n < 256 \<Longrightarrow> n * 16843009 div 65536 mod 256 = (n :: nat)"
  "n < 256 \<Longrightarrow> n * 16843009 div 16777216 mod 256 = (n :: nat)"
proof -
  assume n: "n < 256"
  have e: "n * 16843009 = n + 256 * (n + 256 * (n + 256 * n))" by simp
  have d: "(n + 256 * k) div 256 = k" "(n + 256 * k) mod 256 = n" for k using n by simp_all
  have two: "x div 65536 = x div 256 div 256" "x div 16777216 = x div 256 div 256 div 256" for x :: nat
    by (simp_all add: div_mult2_eq [symmetric])
  show "n * 16843009 mod 256 = n" "n * 16843009 div 256 mod 256 = n"
    "n * 16843009 div 65536 mod 256 = n" "n * 16843009 div 16777216 mod 256 = n"
    unfolding e two d using n by simp_all
qed

lemma byte_of_fill:
  fixes c :: u8
  defines "w \<equiv> ucast c * 0x01010101 :: u32"
  shows "ucast w = c" "ucast (drop_bit 8 w) = c" "ucast (drop_bit 16 w) = c" "ucast (drop_bit 24 w) = c"
proof -
  have c: "unat c < 256" using unsigned_less [of c, where 'a = nat] by simp
  then have w: "unat w = unat c * 0x01010101"
    by (simp add: w_def unat_word_ariths unsigned_ucast_eq take_bit_eq_mod)
  note simps = word_unat_eq_iff unsigned_ucast_eq unat_drop_bit_eq w take_bit_eq_mod drop_bit_eq_div [where 'a = nat] fill_arith [OF c]
  show "ucast w = c" "ucast (drop_bit 8 w) = c" "ucast (drop_bit 16 w) = c" "ucast (drop_bit 24 w) = c"
    by (simp_all add: simps)
qed

lemma stosl_eq:
  fixes c :: u8
  defines "w \<equiv> ucast c * 0x01010101 :: u32"
  shows "stosl n q w M = stosb (4 * n) q c M"
proof (induction n arbitrary: q M)
  case (Suc n)
  have "area q (4 + 4 * n) = area q 4 \<union> area (q + 4) (4 * n)" using area_add [of q 4 "4 * n"] by simp
  then show ?case unfolding stosl.simps Suc.IH
    by (auto simp: stosb_eq fun_eq_iff area_Suc w_def byte_of_fill)
qed simp

text \<open>
  \<^verbatim>\<open>memset\<close>, which stores words of four copies of the byte and then single bytes, fills
  exactly the block.
\<close>

theorem memset_fills:
  "\<exists>M'. memset dst c n M = (dst, M') \<and> bytes_at M' dst n = replicate n (of_int c) \<and> (\<forall>x. x \<notin> area dst n \<longrightarrow> M' x = M x)"
proof -
  have n: "n = 4 * (n div 4) + n mod 4" by simp
  have "snd (memset dst c n M) = (\<lambda>x. if x \<in> area dst n then of_int c else M x)"
    by (subst (2) n, unfold area_add) (auto simp: memset_def Let_def byte_of_fill stosl_eq stosb_eq fun_eq_iff)
  then have "memset dst c n M = (dst, \<lambda>x. if x \<in> area dst n then of_int c else M x)"
    by (simp add: memset_def Let_def prod_eq_iff)
  then show ?thesis by (auto simp: list_eq_iff_nth_eq nth_bytes_at areaI)
qed

theorem memset_fills_witness: "\<exists>M'. memset 16 7 5 (\<lambda>_. 0) = (16, M') \<and> bytes_at M' 16 5 = [7, 7, 7, 7, 7] \<and> M' 21 = 0"
proof -
  have "21 \<notin> area 16 5" by (simp add: area_Suc)
  moreover have "replicate 5 7 = [7, 7, 7, 7, 7 :: u8]" by code_simp
  ultimately show ?thesis using memset_fills [of 16 7 5 "\<lambda>_. 0"] by auto
qed

section \<open>Searching\<close>

lemma memcmp_zero: "memcmp p q n M = 0 \<longleftrightarrow> bytes_at M p n = bytes_at M q n"
  by (induction n arbitrary: p q) (auto simp: Let_def simp flip: word_uint_eq_iff)

definition first_at :: "u32 \<Rightarrow> nat \<Rightarrow> u32 \<Rightarrow> nat \<Rightarrow> cmem \<Rightarrow> u32 \<Rightarrow> bool" where
  "first_at y n x m M r \<longleftrightarrow>
     (\<exists>j\<le>n - m. r = y + of_nat j \<and> bytes_at M (y + of_nat j) m = bytes_at M x m \<and>
        (\<forall>i<j. bytes_at M (y + of_nat i) m \<noteq> bytes_at M x m)) \<or>
     r = 0 \<and> (\<forall>j\<le>n - m. bytes_at M (y + of_nat j) m \<noteq> bytes_at M x m)"

lemma memmem_loop_first:
  assumes "2 \<le> m" "same = (M x = M (x + 1))" "\<forall>i<j. bytes_at M (y + of_nat i) m \<noteq> bytes_at M x m"
  shows "first_at y n x m M (memmem_loop y n x m same j M)"
  using assms
proof (induction y n x m same j M rule: memmem_loop.induct)
  case (1 y n x m same j M)
  let ?occ = "\<lambda>i. bytes_at M (y + of_nat i) m = bytes_at M x m"
  obtain r where m: "m = Suc (Suc r)" using 1(3) by (metis Suc_le_D numeral_2_eq_2 Suc_le_mono)
  have occ: "?occ i \<longleftrightarrow> M (y + of_nat i) = M x \<and> M (y + of_nat (i + 1)) = M (x + 1) \<and>
      bytes_at M (y + of_nat i + 2) r = bytes_at M (x + 2) r" for i
    by (auto simp: m ac_simps)
  show ?case
  proof (cases "j \<le> n - m")
    case False
    then have "first_at y n x m M 0" using 1(5) by (auto simp: first_at_def)
    with False show ?thesis by (subst memmem_loop.simps) simp
  next
    case True
    consider (skip) "M (x + 1) \<noteq> M (y + of_nat (j + 1))" | (found) "?occ j"
      | (miss) "M (x + 1) = M (y + of_nat (j + 1))" "\<not> ?occ j" by blast
    then show ?thesis
    proof cases
      case skip
      have no: "\<forall>i < j + (if same then 2 else 1). \<not> ?occ i"
        using 1(4,5) skip occ by (auto simp: less_Suc_eq split: if_splits)
      have "memmem_loop y n x m same j M = memmem_loop y n x m same (j + (if same then 2 else 1)) M"
        using True skip by (subst memmem_loop.simps) (simp add: Let_def)
      with 1(1) [OF refl refl True skip 1(3,4) no] show ?thesis by simp
    next
      case found
      then have "memmem_loop y n x m same j M = y + of_nat j"
        using True occ by (subst memmem_loop.simps) (simp add: Let_def memcmp_zero m)
      with found True 1(5) show ?thesis by (auto simp: first_at_def)
    next
      case miss
      then have c: "\<not> (memcmp (x + 2) (y + of_nat j + 2) (m - 2) M = 0 \<and> M x = M (y + of_nat j))"
        unfolding memcmp_zero using occ [of j] m by (metis add_diff_cancel_left' plus_1_eq_Suc Suc_1 diff_Suc_Suc diff_zero numeral_2_eq_2)
      have no: "\<forall>i < j + (if same then 1 else 2). \<not> ?occ i"
        using 1(4,5) miss occ by (auto simp: less_Suc_eq split: if_splits)
      have "memmem_loop y n x m same j M = memmem_loop y n x m same (j + (if same then 1 else 2)) M"
        using True miss(1) c by (subst memmem_loop.simps) (auto simp: Let_def)
      with 1(2) [OF refl refl True _ c 1(3,4) no] miss(1) show ?thesis by simp
    qed
  qed
qed

lemma memmem_byte_from:
  "\<forall>i<j. M (y + of_nat i) \<noteq> M x \<Longrightarrow> j + k = n \<Longrightarrow> 0 < n \<Longrightarrow> first_at y n x 1 M (memmem_byte (y + of_nat j) x k M)"
proof (induction k arbitrary: j)
  case 0
  then show ?case by (auto simp: first_at_def)
next
  case (Suc k)
  show ?case
  proof (cases "M (y + of_nat j) = M x")
    case True
    with Suc.prems show ?thesis by (auto simp: first_at_def intro!: disjI1 exI [of _ j])
  next
    case False
    with Suc.prems(1) have "\<forall>i<Suc j. M (y + of_nat i) \<noteq> M x" by (simp add: less_Suc_eq)
    from Suc.IH [OF this] Suc.prems False show ?thesis by (simp add: ac_simps)
  qed
qed

lemma memmem_byte_first: "0 < n \<Longrightarrow> first_at y n x 1 M (memmem_byte y x n M)"
  using memmem_byte_from [of 0 M y x n n] by simp

text \<open>
  \<^verbatim>\<open>memmem\<close>, with its two strides, returns the first place where the needle occurs in the
  haystack, and NULL when it occurs nowhere.
\<close>

theorem memmem_first:
  assumes "0 < m" "m \<le> n"
  shows "(\<exists>j\<le>n - m. memmem y n x m M = y + of_nat j \<and> bytes_at M (y + of_nat j) m = bytes_at M x m \<and>
            (\<forall>i<j. bytes_at M (y + of_nat i) m \<noteq> bytes_at M x m)) \<or>
         memmem y n x m M = 0 \<and> (\<forall>j\<le>n - m. bytes_at M (y + of_nat j) m \<noteq> bytes_at M x m)"
proof (cases "m = 1")
  case True
  with assms memmem_byte_first [of n y x M] show ?thesis by (simp add: memmem_def first_at_def)
next
  case False
  with assms memmem_loop_first [of m "M x = M (x + 1)" M x 0 y n] show ?thesis by (auto simp: memmem_def first_at_def)
qed

theorem memmem_first_witness: "memmem 16 5 32 2 (\<lambda>a. if a = 18 \<or> a = 32 then 7 else 8) = 18"
proof -
  let ?M = "\<lambda>a :: u32. if a = 18 \<or> a = 32 then 7 else 8 :: u8"
  have occ: "bytes_at ?M (16 + of_nat j) 2 = bytes_at ?M 32 2 \<longleftrightarrow> j = 2" if "j \<le> 3" for j
  proof -
    have "j = 0 \<or> j = 1 \<or> j = 2 \<or> j = 3" using that by auto
    then show ?thesis by (elim disjE) simp_all
  qed
  from memmem_first [of 2 5 16 32 ?M] consider j where "j \<le> 3" "memmem 16 5 32 2 ?M = 16 + of_nat j"
      "bytes_at ?M (16 + of_nat j) 2 = bytes_at ?M 32 2" | "\<forall>j\<le>3. bytes_at ?M (16 + of_nat j) 2 \<noteq> bytes_at ?M 32 2"
    by auto
  then show ?thesis
  proof cases
    case 1
    with occ [of j] have "j = 2" by blast
    with 1(2) show ?thesis by simp
  next
    case 2
    have "bytes_at ?M (16 + of_nat 2) 2 \<noteq> bytes_at ?M 32 2" by (rule 2 [rule_format]) simp
    then show ?thesis by simp
  qed
qed

section \<open>Strings\<close>

lemma strlen_loop_eq: "str_at M s xs \<Longrightarrow> strlen_loop s M = Some (s + of_nat (length xs))"
  by (induction xs arbitrary: s; subst strlen_loop.simps) (simp_all add: ptr_Suc)

lemma strlen_eq: "str_at M s xs \<Longrightarrow> strlen s M = Some (length xs)"
  using str_at_short [of M s xs] by (simp add: strlen_def strlen_loop_eq unat_of_nat)

lemma strchr_eq:
  "str_at M s xs \<Longrightarrow>
   strchr s c M = Some (let n = length (takeWhile (\<lambda>x. x \<noteq> of_int c) xs) in if n < length xs \<or> of_int c = (0 :: u8) then s + of_nat n else 0)"
  by (induction xs arbitrary: s; subst strchr.simps) (auto simp: Let_def ptr_Suc)

lemma strchr_end: "str_at M s xs \<Longrightarrow> strchr s 0 M = Some (s + of_nat (length xs))"
proof -
  assume a: "str_at M s xs"
  then have "takeWhile (\<lambda>x. x \<noteq> 0) xs = xs" by (auto simp: str_at_bytes takeWhile_eq_all_conv)
  with strchr_eq [OF a, of 0] show ?thesis by simp
qed

lemma area_UNIV: assumes "2 ^ 32 \<le> n" shows "area p n = UNIV"
proof -
  have "x \<in> area p n" for x
    using areaI [of "unat (x - p)" n p] unsigned_less [of "x - p", where 'a = nat] assms by simp
  then show ?thesis by auto
qed

lemma area_disjoint:
  assumes "m + n \<le> 2 ^ 32" shows "area p m \<inter> area (p + of_nat m) n = {}"
proof -
  have "p + of_nat i \<noteq> p + of_nat m + of_nat j" if "i < m" "j < n" for i j
  proof -
    have "unat (of_nat i :: u32) = i" "unat (of_nat (m + j) :: u32) = m + j" 
      using that assms by (simp_all add: unat_of_nat del: of_nat_add)
    then have "(of_nat i :: u32) \<noteq> of_nat (m + j)" using that by (metis not_add_less1 less_imp_not_eq2 add_lessD1 less_imp_not_less)
    then show ?thesis by (simp add: add.assoc)
  qed
  then show ?thesis unfolding area_def by blast
qed

lemma area_mono: "m \<le> n \<Longrightarrow> area p m \<subseteq> area p n"
  by (auto simp: area_def)

lemma strcpy_loop_eq:
  "str_at M p ys \<Longrightarrow> area q (Suc (length ys)) \<inter> area p (Suc (length ys)) = {} \<Longrightarrow>
   strcpy_loop q p M = Some (movsb (Suc (length ys)) q p M)"
proof (induction ys arbitrary: q p M)
  case Nil
  then show ?case by (subst strcpy_loop.simps) simp
next
  case (Cons y ys)
  let ?M = "M(q := M p)"
  have d: "area (q + 1) (Suc (length ys)) \<inter> area (p + 1) (Suc (length ys)) = {}" "q \<notin> area (p + 1) (Suc (length ys))"
    using Cons.prems(2) by (auto simp: area_Suc [of _ "Suc (length ys)"])
  have "str_at ?M (p + 1) ys" 
    using Cons.prems(1) d(2) by (subst str_at_cong [of "p + 1" ys ?M M]) auto
  from Cons.IH [OF this d(1)] have "strcpy_loop (q + 1) (p + 1) ?M = Some (movsb (Suc (length (y # ys))) q p M)"
    by (simp only: length_Cons movsb.simps(2))
  moreover have "strcpy_loop q p M = strcpy_loop (q + 1) (p + 1) ?M"
    using Cons.prems(1) by (subst strcpy_loop.simps) (simp add: Let_def)
  ultimately show ?case by simp
qed

lemma strcpy_eq:
  assumes "str_at M p ys" "area q (Suc (length ys)) \<inter> area p (Suc (length ys)) = {}"
  shows "strcpy q p M = Some (q, copied q p (Suc (length ys)) M)"
proof -
  have "\<forall>i j. i < j \<and> j < Suc (length ys) \<longrightarrow> q + of_nat i \<noteq> p + of_nat j"
    by (rule area_apart [OF assms(2)])
  from movsb_eq [OF this] strcpy_loop_eq [OF assms] show ?thesis by (simp add: strcpy_def)
qed

lemma str_at_copied:
  assumes "str_at M p ys" shows "str_at (copied q p (Suc (length ys)) M) q ys"
proof (rule str_atI)
  show "copied q p (Suc (length ys)) M (q + of_nat (length ys)) = 0"
    using str_at_end [OF assms] by (simp add: copied_def areaI algebra_simps)
qed (use str_at_nth [OF assms] in \<open>auto simp: copied_def areaI algebra_simps\<close>)

text \<open>
  \<^verbatim>\<open>strcat\<close> ends, and leaves at \<open>dst\<close> the string that was there followed by the one at \<open>src\<close>,
  which is kept, when the area of the result and that of \<open>src\<close> are disjoint.
\<close>

theorem strcat_appends:
  assumes dst: "str_at M dst xs" and src: "str_at M src ys"
    and d: "area dst (Suc (length xs + length ys)) \<inter> area src (Suc (length ys)) = {}"
  shows "\<exists>M'. strcat dst src M = Some (dst, M') \<and> str_at M' dst (xs @ ys) \<and> str_at M' src ys \<and>
           (\<forall>x. x \<notin> area dst (Suc (length xs + length ys)) \<longrightarrow> M' x = M x)"
proof -
  let ?q = "dst + of_nat (length xs)" and ?n = "Suc (length ys)"
  let ?M = "copied ?q src ?n M"
  have a: "area dst (Suc (length xs + length ys)) = area dst (length xs) \<union> area ?q ?n" using area_add [of dst "length xs" ?n] by simp
  have "\<not> 2 ^ 32 \<le> length xs + ?n" using d area_UNIV [of "Suc (length xs + length ys)" dst] by (auto simp: area_Suc)
  then have ds: "area dst (length xs) \<inter> area ?q ?n = {}" by (intro area_disjoint) simp
  have "strcpy ?q src M = Some (?q, ?M)" using d a by (intro strcpy_eq [OF src]) auto
  then have "strcat dst src M = Some (dst, ?M)" by (simp add: strcat_def strchr_end [OF dst])
  moreover have "bytes_at ?M dst (length xs) = bytes_at M dst (length xs)"
    using ds by (intro bytes_at_cong) (auto simp: copied_def)
  then have "str_at ?M dst (xs @ ys)" using dst str_at_copied [OF src] by (auto simp: str_at_append str_at_bytes [of M dst])
  moreover have "str_at ?M src ys"
    using src d a by (subst str_at_cong [of src ys ?M M]) (auto simp: copied_def)
  ultimately show ?thesis using a by (auto simp: copied_def)
qed

theorem strcat_appends_witness:
  "\<exists>M'. strcat 16 32 (\<lambda>a. if a = 16 then 7 else if a = 32 then 8 else 0) = Some (16, M') \<and> str_at M' 16 [7, 8]"
proof -
  let ?M = "\<lambda>a :: u32. if a = 16 then 7 else if a = 32 then 8 else 0 :: u8"
  have "str_at ?M 16 [7]" "str_at ?M 32 [8]" "area 16 (Suc (length [7 :: u8] + length [8 :: u8])) \<inter> area 32 (Suc (length [8 :: u8])) = {}"
    by (simp_all add: area_Suc)
  from strcat_appends [OF this] show ?thesis by auto
qed

section \<open>Comparing\<close>

lemma byte_pos: "0 < uint (b :: u8) \<longleftrightarrow> b \<noteq> 0"
  by (metis less_le uint_ge_0 word_uint_eq_iff uint_0_eq)

text \<open>
  \<^verbatim>\<open>strcmp\<close> ends on strings, is zero exactly on equal strings, and is negative exactly when
  the first one comes before the other in the dictionary order of unsigned bytes.
\<close>

theorem strcmp_order:
  assumes "str_at M a xs" "str_at M b ys"
  shows "\<exists>d. strcmp a b M = Some d \<and> (d = 0 \<longleftrightarrow> xs = ys) \<and> (d < 0 \<longleftrightarrow> (xs, ys) \<in> lexord {(u, v). u < v})"
  using assms
proof (induction xs arbitrary: a b ys)
  case Nil
  show ?case
  proof (cases ys)
    case (Cons y ys')
    with Nil have "0 < uint (M b)" by (auto simp: byte_pos)
    then show ?thesis using Nil Cons by (subst strcmp.simps) (auto simp: Let_def)
  qed (use Nil in \<open>subst strcmp.simps, auto\<close>)
next
  case (Cons x xs)
  show ?case
  proof (cases ys)
    case Nil
    with Cons.prems have "0 < uint (M a)" by (auto simp: byte_pos)
    with Cons.prems Nil show ?thesis by (subst strcmp.simps) (auto simp: Let_def)
  next
    case (Cons y ys')
    show ?thesis
    proof (cases "x = y")
      case True
      with Cons.IH [of "a + 1" "b + 1" ys'] Cons.prems \<open>ys = y # ys'\<close> show ?thesis
        by (subst strcmp.simps) (auto simp: Let_def)
    next
      case False
      with Cons.prems \<open>ys = y # ys'\<close> show ?thesis
        by (subst strcmp.simps) (auto simp: Let_def word_less_def simp flip: word_uint_eq_iff)
    qed
  qed
qed

theorem strcmp_order_witness:
  "\<exists>d. strcmp 16 32 (\<lambda>a. if a = 16 then 7 else if a = 32 then 200 else 0) = Some d \<and> d < 0"
proof -
  let ?M = "\<lambda>a :: u32. if a = 16 then 7 else if a = 32 then 200 else 0 :: u8"
  have "str_at ?M 16 [7]" "str_at ?M 32 [200]" by simp_all
  from strcmp_order [OF this] show ?thesis by auto
qed

section \<open>Spans and fields\<close>

unbundle bit_operations_syntax

lemma matchmap_eq: "str_at M t ds \<Longrightarrow> matchmap_loop t mm M = Some (\<lambda>x. if x \<in> set ds then 1 else mm x)"
proof (induction ds arbitrary: t mm)
  case (Cons d ds)
  then have "matchmap_loop t mm M = matchmap_loop (t + 1) (mm(d := 1)) M" by (subst matchmap_loop.simps) simp
  also have "\<dots> = Some (\<lambda>x. if x \<in> set ds then 1 else (mm(d := 1)) x)" using Cons by simp
  finally show ?case by (simp add: fun_eq_iff)
qed (subst matchmap_loop.simps, simp)

lemma span_eq:
  "str_at M s xs \<Longrightarrow> \<forall>x\<in>set xs. (sint (mm x) XOR parity \<noteq> 0) = P x \<Longrightarrow> sint (mm 0) XOR parity = 0 \<Longrightarrow>
   span_loop s mm parity n M = Some (n + length (takeWhile P xs))"
proof (induction xs arbitrary: s n)
  case (Cons x xs)
  then show ?case by (subst span_loop.simps) auto
qed (subst span_loop.simps, simp)

lemma strcspn_eq:
  assumes "str_at M s xs" "str_at M t ds"
  shows "strxspn s t 1 M = Some (length (takeWhile (\<lambda>x. x \<notin> set ds) xs))"
proof -
  have "0 \<notin> set xs" "0 \<notin> set ds" using assms by (simp_all add: str_at_bytes)
  then show ?thesis
    unfolding strxspn_def matchmap_eq [OF assms(2)] Option.bind.simps
    by (subst span_eq [OF assms(1), where P = "\<lambda>x. x \<notin> set ds"]) auto
qed

lemma strspn_eq:
  assumes "str_at M s xs" "str_at M t ds"
  shows "strxspn s t 0 M = Some (length (takeWhile (\<lambda>x. x \<in> set ds) xs))"
proof -
  have "0 \<notin> set xs" "0 \<notin> set ds" using assms by (simp_all add: str_at_bytes)
  then show ?thesis
    unfolding strxspn_def matchmap_eq [OF assms(2)] Option.bind.simps
    by (subst span_eq [OF assms(1), where P = "\<lambda>x. x \<in> set ds"]) auto
qed

lemma str_at_drop: "str_at M s xs \<Longrightarrow> n \<le> length xs \<Longrightarrow> str_at M (s + of_nat n) (drop n xs)"
  by (metis append_take_drop_id length_take min_absorb2 str_at_append)

lemma str_at_cut:
  assumes "str_at M s xs" "n < length xs"
  shows "str_at (M(s + of_nat n := 0)) s (take n xs)"
proof -
  have "n + 1 \<le> 2 ^ 32" using str_at_short [OF assms(1)] assms(2) by simp
  from area_disjoint [OF this, of s] have "s + of_nat n \<notin> area s n" by (simp add: area_Suc)
  then have "bytes_at (M(s + of_nat n := 0)) s n = bytes_at M s n" by (intro bytes_at_cong) auto
  moreover have "bytes_at M s n = take n xs" "0 \<notin> set (take n xs)"
    using assms by (auto simp: list_eq_iff_nth_eq nth_bytes_at str_at_nth dest: in_set_takeD simp: str_at_bytes)
  ultimately show ?thesis using assms(2) by (simp add: str_at_bytes)
qed

lemma str_at_after_cut:
  assumes "str_at M s xs" "n < length xs"
  shows "str_at (M(s + of_nat n := 0)) (s + of_nat n + 1) (drop (Suc n) xs)"
proof -
  let ?r = "drop (Suc n) xs"
  have r: "str_at M (s + of_nat n + 1) ?r" using str_at_drop [OF assms(1), of "Suc n"] assms(2) by (simp add: ac_simps)
  have "1 + Suc (length ?r) \<le> 2 ^ 32" using str_at_short [OF assms(1)] assms(2) by simp
  from area_disjoint [OF this, of "s + of_nat n"] have "s + of_nat n \<notin> area (s + of_nat n + 1) (Suc (length ?r))"
    by (simp add: area_Suc [of "s + of_nat n" 0])
  with r show ?thesis by (subst str_at_cong [of _ ?r _ M]) auto
qed

text \<open>
  \<^verbatim>\<open>strsep\<close> ends, returns the string up to the first delimiter, cut off there, and leaves in
  \<^verbatim>\<open>*stringp\<close> the rest after that delimiter, or NULL when there is none.
\<close>

theorem strsep_splits:
  assumes "str_at M s xs" "str_at M t ds" "s \<noteq> 0" "unat s + length xs < 2 ^ 32"
  shows "\<exists>rest M'. strsep s t M = Some (s, rest, M') \<and> str_at M' s (takeWhile (\<lambda>x. x \<notin> set ds) xs) \<and>
           (if \<forall>x\<in>set xs. x \<notin> set ds then rest = 0
            else str_at M' rest (tl (dropWhile (\<lambda>x. x \<notin> set ds) xs)) \<and> rest = s + of_nat (length (takeWhile (\<lambda>x. x \<notin> set ds) xs)) + 1)"
proof -
  let ?w = "takeWhile (\<lambda>x. x \<notin> set ds) xs"
  let ?n = "length ?w" let ?e = "s + of_nat (length ?w)"
  have pb: "strpbrk s t M = Some (if M ?e \<noteq> 0 then ?e else 0)"
    by (simp add: strpbrk_def strcspn_eq [OF assms(1,2)] Let_def)
  show ?thesis
  proof (cases "\<forall>x\<in>set xs. x \<notin> set ds")
    case True
    then have w: "?w = xs" by (simp add: takeWhile_eq_all_conv)
    from True pb str_at_end [OF assms(1)] assms(1,3) show ?thesis unfolding w by (simp add: strsep_def)
  next
    case False
    then have n: "?n < length xs" by (metis length_takeWhile_le nat_less_le takeWhile_eq_all_conv takeWhile_eq_take take_all_iff)
    then have "M ?e \<noteq> 0" using str_at_nth [OF assms(1)] by auto
    moreover have "unat ?e = unat s + ?n" using n assms(4) by (intro below_add) simp
    then have "?e \<noteq> 0" using assms(3) by (metis add_is_0 unat_0 unat_eq_zero)
    ultimately have "strsep s t M = Some (s, ?e + 1, M(?e := 0))" using pb assms(3) by (simp add: strsep_def)
    moreover have "take ?n xs = ?w" "drop (Suc ?n) xs = tl (dropWhile (\<lambda>x. x \<notin> set ds) xs)"
      by (simp_all add: takeWhile_eq_take [symmetric] dropWhile_eq_drop tl_drop drop_Suc)
    ultimately show ?thesis using False str_at_cut [OF assms(1) n] str_at_after_cut [OF assms(1) n] by auto
  qed
qed

theorem strsep_splits_witness:
  "\<exists>M'. strsep 16 32 (\<lambda>a. if a = 16 then 7 else if a = 17 \<or> a = 32 then 44 else if a = 18 then 9 else 0) = Some (16, 18, M') \<and>
     str_at M' 16 [7] \<and> str_at M' 18 [9]"
proof -
  let ?M = "\<lambda>a :: u32. if a = 16 then 7 else if a = 17 \<or> a = 32 then 44 else if a = 18 then 9 else 0 :: u8"
  have "str_at ?M 16 [7, 44, 9]" "str_at ?M 32 [44]" "(16 :: u32) \<noteq> 0" "unat (16 :: u32) + length [7, 44, 9 :: u8] < 2 ^ 32"
    by simp_all
  from strsep_splits [OF this] show ?thesis by auto
qed

section \<open>Bounded concatenation\<close>

lemma strlcat_skip_eq:
  "str_at M q xs \<Longrightarrow> b + length xs < n \<Longrightarrow> strlcat_skip q b n M = (q + of_nat (length xs), b + length xs)"
  by (induction xs arbitrary: q b; subst strlcat_skip.simps) (auto simp: ptr_Suc)

lemma strlcat_count: "str_at M p ys \<Longrightarrow> n \<le> b + 1 \<Longrightarrow> strlcat_copy q p b n M = Some (q, b + length ys, M)"
  by (induction ys arbitrary: p b; subst strlcat_copy.simps) (auto simp: Let_def)

lemma strlcat_copy_eq:
  "str_at M p ys \<Longrightarrow> area q (n - b) \<inter> area p (Suc (length ys)) = {} \<Longrightarrow> b < n \<Longrightarrow>
   strlcat_copy q p b n M =
     (let k = min (length ys) (n - 1 - b) in Some (q + of_nat k, b + length ys, movsb k q p M))"
proof (induction ys arbitrary: p q b M)
  case Nil
  then show ?case by (subst strlcat_copy.simps) simp
next
  case (Cons y ys)
  show ?case
  proof (cases "b + 1 < n")
    case True
    let ?M = "M(q := M p)"
    have k: "min (length (y # ys)) (n - 1 - b) = Suc (min (length ys) (n - 1 - (b + 1)))" using True by auto
    have "n - b = Suc (n - (b + 1))" using True by simp
    with Cons.prems(2) have d: "area (q + 1) (n - (b + 1)) \<inter> area (p + 1) (Suc (length ys)) = {}" "q \<notin> area (p + 1) (Suc (length ys))"
      by (auto simp: area_Suc [of q] area_Suc [of p])
    have "str_at ?M (p + 1) ys" using Cons.prems(1) d(2) by (subst str_at_cong [of _ _ ?M M]) auto
    moreover have "M p \<noteq> 0" using Cons.prems(1) by auto
    ultimately show ?thesis using Cons.IH [of ?M "p + 1" "q + 1" "b + 1"] d(1) True
      unfolding k by (subst strlcat_copy.simps) (simp add: Let_def ac_simps fun_upd_def)
  next
    case False
    then have n: "n = Suc b" using Cons.prems(3) by simp
    with strlcat_count [OF Cons.prems(1), of n b q] show ?thesis by simp
  qed
qed

text \<open>
  \<^verbatim>\<open>strlcat\<close> with a buffer of \<open>n\<close> bytes ends, returns the length that the whole concatenation
  would have, leaves its first \<open>n - 1\<close> characters and a NUL in the buffer, and writes nowhere else.
\<close>

theorem strlcat_bounded:
  assumes dst: "str_at M dst xs" and src: "str_at M src ys" and n: "length xs < n"
    and d: "area dst n \<inter> area src (Suc (length ys)) = {}"
  shows "\<exists>M'. strlcat dst src n M = Some (length xs + length ys, M') \<and> str_at M' dst (take (n - 1) (xs @ ys)) \<and>
           (\<forall>x. x \<notin> area dst n \<longrightarrow> M' x = M x)"
proof -
  let ?q = "dst + of_nat (length xs)" and ?k = "min (length ys) (n - 1 - length xs)"
  have a: "area dst n = area dst (length xs) \<union> area ?q (n - length xs)" using area_add [of dst "length xs" "n - length xs"] n by simp
  have "\<not> 2 ^ 32 \<le> n" using d area_UNIV [of n dst] by (auto simp: area_Suc)
  then have ds: "area dst (length xs) \<inter> area ?q (n - length xs) = {}" using n by (intro area_disjoint) simp
  have dq: "area ?q (n - length xs) \<inter> area src (Suc (length ys)) = {}" using d a by auto
  have "?k \<le> n - length xs" "?k \<le> Suc (length ys)" by auto
  then have "area ?q ?k \<subseteq> area ?q (n - length xs)" "area src ?k \<subseteq> area src (Suc (length ys))" by (simp_all only: area_mono)
  with dq have "area ?q ?k \<inter> area src ?k = {}" by blast
  from movsb_eq [OF area_apart [OF this]] have mv: "movsb ?k ?q src M = copied ?q src ?k M" .
  let ?M = "(copied ?q src ?k M)(?q + of_nat ?k := 0)"
  have r: "strlcat dst src n M = Some (length xs + length ys, ?M)"
    using n strlcat_copy_eq [OF src dq n] mv by (simp add: strlcat_def strlcat_skip_eq [OF dst, of 0 n] Let_def)
  have k: "area ?q (Suc ?k) \<subseteq> area ?q (n - length xs)" using n by (intro area_mono) auto
  have out: "?M x = M x" if "x \<notin> area ?q (Suc ?k)" for x using that by (auto simp: copied_def area_snoc)
  have "bytes_at ?M dst (length xs) = bytes_at M dst (length xs)" using ds k out by (intro bytes_at_cong) blast
  moreover have "str_at ?M ?q (take ?k ys)"
  proof (rule str_atI)
    fix i assume i: "i < length (take ?k ys)"
    have "?k + 1 \<le> 2 ^ 32" using \<open>\<not> 2 ^ 32 \<le> n\<close> n by auto
    from area_disjoint [OF this, of ?q] have "?q + of_nat ?k \<notin> area ?q ?k" by (simp add: area_Suc)
    moreover have "?q + of_nat i \<in> area ?q ?k" using i by (intro areaI) simp
    ultimately show "?M (?q + of_nat i) = take ?k ys ! i \<and> take ?k ys ! i \<noteq> 0"
      using i str_at_nth [OF src, of i] by (auto simp: copied_def algebra_simps)
  qed simp
  ultimately have "str_at ?M dst (xs @ take ?k ys)" using dst by (auto simp: str_at_append str_at_bytes [of M dst])
  moreover have "take (n - 1) (xs @ ys) = xs @ take ?k ys" using n by (auto simp: min_def)
  ultimately have "str_at ?M dst (take (n - 1) (xs @ ys))" by (simp only:)
  moreover have "\<forall>x. x \<notin> area dst n \<longrightarrow> ?M x = M x" using out k a by blast
  ultimately show ?thesis using r by (intro exI [of _ ?M] conjI)
qed

theorem strlcat_bounded_witness:
  "\<exists>M'. strlcat 16 32 3 (\<lambda>a. if a = 16 then 7 else if a = 32 \<or> a = 33 then 8 else 0) = Some (3, M') \<and> str_at M' 16 [7, 8]"
proof -
  let ?M = "\<lambda>a :: u32. if a = 16 then 7 else if a = 32 \<or> a = 33 then 8 else 0 :: u8"
  have "str_at ?M 16 [7]" "str_at ?M 32 [8, 8]" "length [7 :: u8] < 3" "area 16 3 \<inter> area 32 (Suc (length [8, 8 :: u8])) = {}"
    by (simp_all add: area_Suc)
  from strlcat_bounded [OF this] show ?thesis by auto
qed

end
