(* ===== verification/Div64.thy ===== *)
theory Div64
  imports Prelude
begin

unbundle bit_operations_syntax

text \<open>
  Division of 64-bit numbers with the 32-bit instructions of the i386 (\<^verbatim>\<open>shared/div64.c\<close>):
  the translation at the level of the instructions, and its correctness for every pair of
  operands but those on which it raises a divide error.
\<close>

section \<open>Instructions\<close>

text \<open>\<^verbatim>\<open>bsr\<close>: the index of the highest bit set (its operand is not zero).\<close>

definition hard_bsr :: "u32 \<Rightarrow> nat" where
  "hard_bsr n = last (filter (bit n) [0..<32])"

text \<open>\<^verbatim>\<open>shrdl\<close> and \<^verbatim>\<open>shrl\<close> use the count modulo 32.\<close>

definition shrdl :: "u32 \<Rightarrow> u32 \<Rightarrow> nat \<Rightarrow> u32" where
  "shrdl src dst n = (let c = n mod 32 in if c = 0 then dst else drop_bit c dst OR push_bit (32 - c) src)"

definition rshift64 :: "u32 \<Rightarrow> u32 \<Rightarrow> nat \<Rightarrow> u32 \<times> u32" where
  "rshift64 x1 x0 n =
     (let x0 = shrdl x1 x0 n; x1 = drop_bit (n mod 32) x1
      in if bit n 5 then (0, x1) else (x1, x0))"

definition rshift64_32 :: "u32 \<Rightarrow> u32 \<Rightarrow> nat \<Rightarrow> u32" where
  "rshift64_32 x1 x0 n = (let x0 = shrdl x1 x0 n in if bit n 5 then x1 else x0)"

text \<open>\<^verbatim>\<open>divl\<close>: remainder and quotient; \<open>None\<close> is a divide error.\<close>

definition div64_32 :: "u32 \<Rightarrow> u32 \<Rightarrow> u32 \<Rightarrow> (u32 \<times> u32) option" where
  "div64_32 x1 x0 y =
     (let x = unat x1 * 2 ^ 32 + unat x0
      in if y = 0 \<or> 2 ^ 32 \<le> x div unat y then None
         else Some (of_nat (x mod unat y), of_nat (x div unat y)))"

section \<open>Division\<close>

text \<open>\<^verbatim>\<open>while (r >= y) { x0++; r -= y; }\<close>\<close>

partial_function (option) div64_adjust :: "u64 \<Rightarrow> u32 \<Rightarrow> u64 \<Rightarrow> (u32 \<times> u64) option" where
  "div64_adjust y x0 r = (if r \<ge> y then div64_adjust y (x0 + 1) (r - y) else Some (x0, r))"

text \<open>The quotient and the remainder.\<close>

definition do_div64 :: "u64 \<Rightarrow> u64 \<Rightarrow> (u64 \<times> u64) option" where
  "do_div64 x y =
     (let y1 = ucast (drop_bit 32 y); y0 = ucast (y AND 0xffffffff);
          x1 = ucast (drop_bit 32 x); x0 = ucast (x AND 0xffffffff)
      in if y1 \<noteq> 0 then
           let l = hard_bsr y1 + 1; y0 = rshift64_32 y1 y0 l; (x1, x0) = rshift64 x1 x0 l
           in Option.bind (div64_32 x1 x0 (y0 + 1)) (\<lambda>(x1, x0).
                Option.bind (div64_adjust y x0 (x - y * ucast x0)) (\<lambda>(x0, r). Some (ucast x0, r)))
         else if x1 < y0 then
           Option.bind (div64_32 x1 x0 y0) (\<lambda>(x1, x0). Some (ucast x0, ucast x1))
         else if y0 \<noteq> 0 then
           Option.bind (div64_32 0 x1 y0) (\<lambda>(x2, x1).
           Option.bind (div64_32 x2 x0 y0) (\<lambda>(x2, x0). Some (push_bit 32 (ucast x1) + ucast x0, ucast x2)))
         else Some (0, x))"

definition div64 :: "u64 \<Rightarrow> u64 \<Rightarrow> u64 option" where
  "div64 x y = map_option fst (do_div64 x y)"

definition mod64 :: "u64 \<Rightarrow> u64 \<Rightarrow> u64 option" where
  "mod64 x y = map_option snd (do_div64 x y)"

section \<open>Correctness\<close>

lemma halves: "unat (ucast (drop_bit 32 w) :: u32) * 2 ^ 32 + unat (ucast w :: u32) = unat (w :: u64)"
  using unsigned_less [of w, where 'a = nat]
  by (simp add: unsigned_ucast_eq take_bit_eq_mod unat_drop_bit_eq drop_bit_eq_div [where 'a = nat] del: unsigned_less)

lemma low_half: "ucast (w AND 0xffffffff :: u64) = (ucast w :: u32)"
proof -
  have e: "(0xffffffff :: u64) = mask 32" by (simp add: mask_eq_exp_minus_1)
  show ?thesis unfolding e by (auto intro!: bit_word_eqI simp: bit_simps)
qed

lemma shrdl_eq: "0 < n \<Longrightarrow> n < 32 \<Longrightarrow> shrdl (ucast (drop_bit 32 w)) (ucast w) n = ucast (drop_bit n (w :: u64))"
  by (rule bit_word_eqI) (auto simp: shrdl_def Let_def bit_simps add.commute [of n])

lemma rshift64_32_eq:
  assumes "1 \<le> n" "n \<le> 32"
  shows "rshift64_32 (ucast (drop_bit 32 w)) (ucast w) n = ucast (drop_bit n (w :: u64))"
proof (cases "n = 32")
  case True
  have "bit (32 :: nat) 5" by (simp add: bit_iff_odd)
  with True show ?thesis by (simp add: rshift64_32_def)
next
  case False
  then have "\<not> bit n 5" using assms by (simp add: bit_iff_odd)
  with False assms shrdl_eq [of n w] show ?thesis by (simp add: rshift64_32_def)
qed

lemma rshift64_eq:
  assumes "1 \<le> n" "n \<le> 32"
  shows "rshift64 (ucast (drop_bit 32 w)) (ucast w) n = (ucast (drop_bit 32 (drop_bit n w)), ucast (drop_bit n (w :: u64)))"
proof (cases "n = 32")
  case True
  have "bit (32 :: nat) 5" by (simp add: bit_iff_odd)
  moreover have "(ucast (drop_bit 64 w) :: u32) = 0" by (rule bit_word_eqI) (auto simp: bit_simps dest: bit_imp_le_length)
  ultimately show ?thesis using True by (simp add: rshift64_def)
next
  case False
  then have "\<not> bit n 5" using assms by (simp add: bit_iff_odd)
  moreover have "drop_bit n (ucast (drop_bit 32 w)) = (ucast (drop_bit 32 (drop_bit n w)) :: u32)"
    by (rule bit_word_eqI) (auto simp: bit_simps ac_simps dest: bit_imp_le_length)
  ultimately show ?thesis using False assms shrdl_eq [of n w] by (simp add: rshift64_def)
qed

lemma sorted_last: "sorted xs \<Longrightarrow> x \<in> set xs \<Longrightarrow> x \<le> last xs"
  by (induction xs) auto

lemma bsr_bounds:
  assumes "n \<noteq> 0" shows "hard_bsr n < 32" "2 ^ hard_bsr n \<le> unat n" "unat n < 2 ^ (hard_bsr n + 1)"
proof -
  have "\<exists>i<32. bit n i"
  proof (rule ccontr)
    assume "\<not> (\<exists>i<32. bit n i)"
    then have "n = 0" by (intro bit_word_eqI) auto
    with assms show False by simp
  qed
  then have "filter (bit n) [0..<32] \<noteq> []" by (auto simp: filter_empty_conv)
  from last_in_set [OF this] have b: "bit n (hard_bsr n)" "hard_bsr n < 32" by (auto simp: hard_bsr_def)
  have above: "i \<le> hard_bsr n" if "bit n i" for i
    unfolding hard_bsr_def using that bit_imp_le_length [OF that] by (intro sorted_last) (auto intro: sorted_wrt_filter)
  show "hard_bsr n < 32" by fact
  have "odd (unat n div 2 ^ hard_bsr n)" using b(1) by (simp add: bit_iff_odd [where 'a = nat, symmetric] bit_unsigned_iff b(2))
  then show "2 ^ hard_bsr n \<le> unat n" by (metis div_less even_zero not_less)
  have "take_bit (hard_bsr n + 1) (unat n) = unat n"
    using above by (auto intro!: bit_eqI simp: bit_simps bit_unsigned_iff less_Suc_eq_le)
  then show "unat n < 2 ^ (hard_bsr n + 1)" by (metis take_bit_nat_less_exp)
qed

text \<open>The estimate never exceeds the quotient, and the correction ends.\<close>

lemma adjust_ok:
  "y \<noteq> 0 \<Longrightarrow> unat x0 + unat r div unat y < 2 ^ 32 \<Longrightarrow>
   div64_adjust y x0 r = Some (x0 + of_nat (unat r div unat y), r mod y)"
proof (induction "unat r" arbitrary: x0 r rule: less_induct)
  case less
  show ?case
  proof (cases "r \<ge> y")
    case False
    then have "unat r < unat y" by (simp add: word_le_nat_alt)
    with False show ?thesis by (subst div64_adjust.simps) (simp add: word_unat_eq_iff unat_mod)
  next
    case True
    then have le: "unat y \<le> unat r" by (simp add: word_le_nat_alt)
    have y: "0 < unat y" using less.prems(1) by (simp add: unat_gt_0)
    have r: "unat (r - y) = unat r - unat y" using True by (rule unat_sub)
    have d: "unat r div unat y = Suc ((unat r - unat y) div unat y)" using le y by (simp add: le_div_geq)
    have x: "unat (x0 + 1) = unat x0 + 1" using less.prems(2) d by (simp add: unat_word_ariths)
    have "(r - y) mod y = r mod y" using le y by (simp add: word_unat_eq_iff unat_mod r le_mod_geq)
    with less.hyps [of "r - y" "x0 + 1"] less.prems r d x y le show ?thesis
      using True by (subst div64_adjust.simps) (simp add: ac_simps)
  qed
qed

lemma estimate_le:
  fixes X Y l :: nat
  defines "Q \<equiv> (X div 2 ^ l) div (Y div 2 ^ l + 1)"
  shows "Y * Q \<le> X"
proof -
  have "Q * (Y div 2 ^ l + 1) \<le> X div 2 ^ l" unfolding Q_def by (rule div_times_less_eq_dividend)
  then have "Q * (Y div 2 ^ l + 1) * 2 ^ l \<le> X div 2 ^ l * 2 ^ l" by simp
  also have "\<dots> \<le> X" by (rule div_times_less_eq_dividend)
  finally have "Q * ((Y div 2 ^ l + 1) * 2 ^ l) \<le> X" by (simp only: mult.assoc)
  moreover have "Y mod 2 ^ l \<le> 2 ^ l" by (rule mod_le_divisor) simp
  then have "Y \<le> (Y div 2 ^ l + 1) * 2 ^ l"
    unfolding add_mult_distrib using div_mult_mod_eq [of Y "2 ^ l"] by linarith
  then have "Q * Y \<le> Q * ((Y div 2 ^ l + 1) * 2 ^ l)" by simp
  ultimately show ?thesis by (simp only: mult.commute [of Y])
qed

lemma estimate_fits:
  fixes X Y l :: nat
  assumes "X < 2 ^ 64" "1 \<le> l" "2 ^ (l + 31) \<le> Y"
  shows "(X div 2 ^ l) div (Y div 2 ^ l + 1) < 2 ^ 32"
proof -
  have "(2 :: nat) ^ 1 \<le> 2 ^ l" using assms(2) by (intro power_increasing) auto
  then have "X div 2 ^ l \<le> X div 2" by (intro div_le_mono2) auto
  also have "\<dots> < 2 ^ 63" using assms(1) by simp
  finally have "X div 2 ^ l < 2 ^ 63" .
  moreover have "2 ^ 31 \<le> Y div 2 ^ l"
    using div_le_mono [OF assms(3), of "2 ^ l"] by (simp add: power_add)
  then have "(X div 2 ^ l) div (Y div 2 ^ l + 1) \<le> (X div 2 ^ l) div 2 ^ 31" by (intro div_le_mono2) auto
  ultimately show ?thesis by (simp add: div_less_iff_less_mult le_less_trans)
qed

lemma div_minus_mult:
  fixes X Y Q :: nat
  assumes "Y * Q \<le> X" "0 < Y" shows "X div Y = Q + (X - Y * Q) div Y" "(X - Y * Q) mod Y = X mod Y"
proof -
  obtain R where "X = Y * Q + R" using assms(1) le_Suc_ex by blast
  then show "X div Y = Q + (X - Y * Q) div Y" "(X - Y * Q) mod Y = X mod Y" using assms(2) by simp_all
qed

lemma unat_of_nat32: "n < 2 ^ 32 \<Longrightarrow> unat (of_nat n :: u32) = n"
  by (simp add: unat_of_nat)

lemma unat_up: "unat (ucast (w :: u32) :: u64) = unat w"
  using unsigned_less [of w, where 'a = nat] by (simp add: unsigned_ucast_eq take_bit_eq_mod)

definition div64_faults :: "u64 \<Rightarrow> bool" where
  "div64_faults y \<longleftrightarrow> list_ex (\<lambda>l. drop_bit l y = 0xffffffff) [1..<33]"

lemma div64_high:
  fixes y :: u64
  assumes y1: "ucast (drop_bit 32 y) \<noteq> (0 :: u32)"
  defines "l \<equiv> hard_bsr (ucast (drop_bit 32 y)) + 1"
  shows "1 \<le> l" "l \<le> 32" "2 ^ (l + 31) \<le> unat y" "unat y < 2 ^ (l + 32)"
    "unat (ucast (drop_bit l y) :: u32) = unat y div 2 ^ l"
proof -
  let ?h = "ucast (drop_bit 32 y) :: u32"
  note b = bsr_bounds [OF y1]
  show "1 \<le> l" "l \<le> 32" using b(1) by (simp_all add: l_def)
  have y: "unat y = unat ?h * 2 ^ 32 + unat (ucast y :: u32)" using halves [of y] by simp
  have lo: "unat (ucast y :: u32) < 2 ^ 32" using unsigned_less [of "ucast y :: u32", where 'a = nat] by simp
  have "2 ^ (l + 31) = 2 ^ hard_bsr ?h * (2 :: nat) ^ 32" by (simp add: l_def power_add)
  also have "\<dots> \<le> unat y" unfolding y using b(2) by (simp add: trans_le_add1)
  finally show "2 ^ (l + 31) \<le> unat y" .
  have "unat y < (unat ?h + 1) * 2 ^ 32" using y lo by simp
  also have "\<dots> \<le> 2 ^ l * 2 ^ 32" using b(3) by (intro mult_right_mono) (simp_all add: l_def)
  finally show u: "unat y < 2 ^ (l + 32)" by (simp add: power_add)
  then have "unat y div 2 ^ l < 2 ^ 32" by (simp add: div_less_iff_less_mult power_add mult.commute)
  then show "unat (ucast (drop_bit l y) :: u32) = unat y div 2 ^ l"
    by (simp add: unsigned_ucast_eq take_bit_eq_mod unat_drop_bit_eq drop_bit_eq_div [where 'a = nat])
qed

lemma div64_32_ok:
  assumes "w div unat d < 2 ^ 32" "d \<noteq> 0" "unat a * 2 ^ 32 + unat b = w"
  shows "div64_32 a b d = Some (of_nat (w mod unat d), of_nat (w div unat d))"
  using assms by (simp add: div64_32_def Let_def)

lemma do_div64_high:
  assumes y1: "ucast (drop_bit 32 y) \<noteq> (0 :: u32)" and nf: "\<not> div64_faults y"
  shows "do_div64 x y = Some (x div y, x mod y)"
proof -
  define l where "l = hard_bsr (ucast (drop_bit 32 y)) + 1"
  let ?y0 = "ucast (drop_bit l y) :: u32" and ?X = "unat x" and ?Y = "unat y"
  let ?Q = "(?X div 2 ^ l) div (?Y div 2 ^ l + 1)"
  note l = div64_high [OF y1, folded l_def]
  have X: "?X < 2 ^ 64" using unsigned_less [of x, where 'a = nat] by simp
  have "?y0 \<noteq> 0xffffffff"
  proof
    assume "?y0 = 0xffffffff"
    then have "?Y div 2 ^ l = 0xffffffff" using l(5) by simp
    then have "drop_bit l y = 0xffffffff" by (simp add: word_unat_eq_iff unat_drop_bit_eq drop_bit_eq_div [where 'a = nat])
    with nf l(1,2) show False by (auto simp: div64_faults_def list_ex_iff)
  qed
  then have "unat ?y0 \<noteq> 0xffffffff" by (simp add: word_unat_eq_iff)
  moreover have "unat ?y0 < 2 ^ 32" using unsigned_less [of ?y0, where 'a = nat] by simp
  ultimately have "unat (?y0 + 1) = unat ?y0 + 1" by (simp add: unat_word_ariths)
  then have d: "unat (?y0 + 1) = ?Y div 2 ^ l + 1" using l(5) by simp
  have w: "unat (ucast (drop_bit 32 (drop_bit l x)) :: u32) * 2 ^ 32 + unat (ucast (drop_bit l x) :: u32) = ?X div 2 ^ l"
    unfolding halves by (simp add: unat_drop_bit_eq drop_bit_eq_div [where 'a = nat])
  have Q: "?Q < 2 ^ 32" by (rule estimate_fits [OF X l(1,3)])
  have e: "div64_32 (ucast (drop_bit 32 (drop_bit l x))) (ucast (drop_bit l x)) (?y0 + 1) =
      Some (of_nat ((?X div 2 ^ l) mod (?Y div 2 ^ l + 1)), of_nat ?Q)"
    unfolding d [symmetric] by (rule div64_32_ok [OF _ _ w]) (use Q d in \<open>auto simp flip: d\<close>)
  have le: "?Y * ?Q \<le> ?X" by (rule estimate_le)
  let ?r = "x - y * ucast (of_nat ?Q :: u32)"
  have q: "unat (of_nat ?Q :: u32) = ?Q" by (rule unat_of_nat32 [OF Q])
  then have "unat (y * ucast (of_nat ?Q :: u32)) = ?Y * ?Q" using le X by (simp add: unat_word_ariths unat_up)
  then have r: "unat ?r = ?X - ?Y * ?Q" using le by (subst unat_sub) (simp_all add: word_le_nat_alt)
  have Y: "2 ^ 32 \<le> ?Y" 
    using l(3) l(1) power_increasing [of 32 "l + 31" "2 :: nat"] by simp
  have div: "?X div ?Y = ?Q + unat ?r div ?Y" "?X mod ?Y = unat ?r mod ?Y"
    unfolding r using div_minus_mult [OF le] Y by simp_all
  have small: "?X div ?Y < 2 ^ 32" using X Y by (simp add: div_less_iff_less_mult)
  have "y \<noteq> 0" using Y by auto
  from adjust_ok [OF this, of "of_nat ?Q" ?r] have a: "div64_adjust y (of_nat ?Q) ?r = Some (of_nat (?X div ?Y), ?r mod y)"
    using q div small by simp
  have "ucast (of_nat (?X div ?Y) :: u32) = x div y"
    unfolding word_unat_eq_iff unat_up unat_of_nat32 [OF small] unat_div ..
  moreover have "?r mod y = x mod y" unfolding word_unat_eq_iff unat_mod div(2) ..
  ultimately show ?thesis using a e y1
    unfolding do_div64_def Let_def low_half l_def [symmetric] rshift64_32_eq [OF l(1,2)] rshift64_eq [OF l(1,2)] by simp
qed

lemma fits_below: "a < b \<Longrightarrow> lo < c \<Longrightarrow> (a * c + lo) div b < (c :: nat)"
proof -
  assume "a < b" "lo < c"
  then have "a * c + lo < (a + 1) * c" by simp
  also have "\<dots> \<le> b * c" using \<open>a < b\<close> by (intro mult_right_mono) simp_all
  finally show ?thesis using \<open>a < b\<close> by (simp add: div_less_iff_less_mult mult.commute)
qed

lemma long_division:
  fixes h b lo y :: nat
  assumes "0 < y"
  shows "(h * b + lo) div y = (h div y) * b + ((h mod y) * b + lo) div y" "(h * b + lo) mod y = ((h mod y) * b + lo) mod y"
proof -
  have "h * b + lo = ((h mod y) * b + lo) + ((h div y) * b) * y"
    by (subst div_mult_mod_eq [of h y, symmetric]) (simp only: distrib_left distrib_right ac_simps)
  then show "(h * b + lo) div y = (h div y) * b + ((h mod y) * b + lo) div y" "(h * b + lo) mod y = ((h mod y) * b + lo) mod y"
    using assms by (simp_all only: div_mult_self1 mod_mult_self1 neq0_conv)
qed

lemma do_div64_low:
  assumes y1: "ucast (drop_bit 32 y) = (0 :: u32)" and y: "y \<noteq> 0"
  shows "do_div64 x y = Some (x div y, x mod y)"
proof -
  let ?y0 = "ucast y :: u32" and ?x1 = "ucast (drop_bit 32 x) :: u32" and ?x0 = "ucast x :: u32"
  let ?X = "unat x" and ?Y = "unat y"
  have Y: "unat ?y0 = ?Y" using y1 halves [of y] by simp
  have X: "unat ?x1 * 2 ^ 32 + unat ?x0 = ?X" by (rule halves)
  have x0: "unat ?x0 < 2 ^ 32" "unat ?x1 < 2 ^ 32"
    using unsigned_less [of ?x0, where 'a = nat] unsigned_less [of ?x1, where 'a = nat] by simp_all
  have pos: "0 < ?Y" "?y0 \<noteq> 0" using y Y by (auto simp: unat_eq_zero [symmetric])
  have ym: "n mod ?Y < 2 ^ 32" for n
    using unsigned_less [of ?y0, where 'a = nat] mod_less_divisor [OF pos(1), of n] unfolding Y by simp
  show ?thesis
  proof (cases "?x1 < ?y0")
    case True
    then have "unat ?x1 < ?Y" by (simp add: word_less_nat_alt Y)
    from fits_below [OF this x0(1)] have q: "?X div ?Y < 2 ^ 32" unfolding X .
    from div64_32_ok [OF _ pos(2) X] q have "do_div64 x y = Some (ucast (of_nat (?X div ?Y) :: u32), ucast (of_nat (?X mod ?Y) :: u32))"
      using y1 True by (simp add: do_div64_def Let_def low_half Y)
    moreover have "ucast (of_nat (?X div ?Y) :: u32) = x div y" "ucast (of_nat (?X mod ?Y) :: u32) = x mod y"
      unfolding word_unat_eq_iff unat_up unat_of_nat32 [OF ym] unat_of_nat32 [OF q] unat_div unat_mod by simp_all
    ultimately show ?thesis by simp
  next
    case False
    let ?h = "unat ?x1 div ?Y" and ?m = "unat ?x1 mod ?Y"
    let ?lo = "(?m * 2 ^ 32 + unat ?x0) div ?Y" and ?r = "(?m * 2 ^ 32 + unat ?x0) mod ?Y"
    have h: "?h < 2 ^ 32" using x0(2) by (rule le_less_trans [OF div_le_dividend])
    have lo: "?lo < 2 ^ 32" using pos(1) x0(1) by (intro fits_below) simp_all
    have ld: "?X div ?Y = ?h * 2 ^ 32 + ?lo" "?X mod ?Y = ?r"
      unfolding X [symmetric] by (rule long_division [OF pos(1)])+
    have "div64_32 0 ?x1 ?y0 = Some (of_nat ?m, of_nat ?h)"
      using div64_32_ok [of "unat ?x1" ?y0 0 ?x1] h pos(2) by (simp add: Y)
    moreover have "div64_32 (of_nat ?m) ?x0 ?y0 = Some (of_nat ?r, of_nat ?lo)"
      using div64_32_ok [of "?m * 2 ^ 32 + unat ?x0" ?y0 "of_nat ?m" ?x0] lo pos(2) by (simp add: Y unat_of_nat32 [OF ym])
    ultimately have "do_div64 x y = Some (push_bit 32 (ucast (of_nat ?h :: u32)) + ucast (of_nat ?lo :: u32), ucast (of_nat ?r :: u32))"
      using y1 False pos(2) by (simp add: do_div64_def Let_def low_half)
    moreover have "push_bit 32 (ucast (of_nat ?h :: u32)) + ucast (of_nat ?lo :: u32) = x div y"
    proof -
      have hl: "?h * 2 ^ 32 + ?lo < 2 ^ 64" using ld(1) unsigned_less [of "x div y", where 'a = nat] by (simp add: unat_div)
      then have p: "unat (push_bit 32 (ucast (of_nat ?h :: u32)) :: u64) = ?h * 2 ^ 32"
        by (simp add: push_bit_eq_mult unat_word_ariths unat_up unat_of_nat32 [OF h])
      show ?thesis unfolding word_unat_eq_iff unat_word_ariths p unat_up unat_of_nat32 [OF lo] unat_div ld(1) using hl by simp
    qed
    moreover have "ucast (of_nat ?r :: u32) = x mod y"
      unfolding word_unat_eq_iff unat_up unat_of_nat32 [OF ym] unat_mod ld(2) ..
    ultimately show ?thesis by simp
  qed
qed

text \<open>
  C32. 64-bit division is correct: for every dividend and every divisor that is not zero, but
  those that are 32 ones followed by one to 32 more bits, \<^verbatim>\<open>do_div64\<close> ends with the quotient and the
  remainder.
\<close>

theorem do_div64_correct:
  assumes "y \<noteq> 0" "\<not> div64_faults y"
  shows "do_div64 x y = Some (x div y, x mod y)"
  using do_div64_high [of y x] do_div64_low [of y x] assms by blast

theorem do_div64_correct_witness: "do_div64 0x123456789ABCDEF0 0x1000000001 = Some (0x123456789ABCDEF0 div 0x1000000001, 0x123456789ABCDEF0 mod 0x1000000001)"
proof -
  have "\<not> div64_faults 0x1000000001" by code_simp
  with do_div64_correct [of "0x1000000001" "0x123456789ABCDEF0"] show ?thesis by simp
qed

text \<open>
  C33. On the remaining divisors the incremented estimate wraps to zero, and the division
  raises a divide error whatever the dividend.
\<close>

theorem do_div64_fault:
  assumes "div64_faults y" shows "do_div64 x y = None"
proof -
  from assms obtain l where l: "1 \<le> l" "l \<le> 32" "drop_bit l y = 0xffffffff" by (auto simp: div64_faults_def list_ex_iff)
  have "unat (drop_bit l y) = 0xffffffff" unfolding l(3) by simp
  then have d: "unat y div 2 ^ l = 0xffffffff" by (simp add: unat_drop_bit_eq drop_bit_eq_div [where 'a = nat])
  obtain r where Y: "unat y = 0xffffffff * 2 ^ l + r" "r < 2 ^ l"
    by (rule that [of "unat y mod 2 ^ l"]) (simp_all add: div_mult_mod_eq [of "unat y" "2 ^ l", unfolded d])
  have y: "2 ^ (l + 31) \<le> unat y" "unat y < 2 ^ (l + 32)" unfolding power_add using Y by simp_all
  have "2 ^ 32 \<le> unat y" using y(1) l(1) power_increasing [of 32 "l + 31" "2 :: nat"] by simp
  moreover have "unat (ucast y :: u32) < 2 ^ 32" using unsigned_less [of "ucast y :: u32", where 'a = nat] by simp
  ultimately have y1: "ucast (drop_bit 32 y) \<noteq> (0 :: u32)" using halves [of y] by auto
  note h = div64_high [OF y1]
  let ?l = "hard_bsr (ucast (drop_bit 32 y)) + 1"
  have "(2 :: nat) ^ (l + 31) < 2 ^ (?l + 32)" "(2 :: nat) ^ (?l + 31) < 2 ^ (l + 32)" using y h(3,4) by linarith+
  then have e: "?l = l" by simp
  have "unat (ucast (drop_bit l y) :: u32) = 0xffffffff" using h(5) unfolding e d .
  then have "ucast (drop_bit l y) + 1 = (0 :: u32)" by (simp add: word_unat_eq_iff unat_word_ariths)
  then show ?thesis
    using y1 unfolding do_div64_def Let_def low_half e rshift64_32_eq [OF l(1,2)] rshift64_eq [OF l(1,2)]
    by (simp add: div64_32_def)
qed

theorem do_div64_fault_witness: "do_div64 1 0xffffffffffffffff = None"
proof -
  have "div64_faults 0xffffffffffffffff" by code_simp
  then show ?thesis by (rule do_div64_fault)
qed

end
