(* ===== verification/Gdb_Packet.thy ===== *)
theory Gdb_Packet
  imports Prelude
begin

unbundle bit_operations_syntax

text \<open>
  The packets of the remote debugger (\<^verbatim>\<open>kernel/gdb_serial.c\<close>): hexadecimal digits, the
  reception of a packet with its checksum, and the transmission of one, in which runs of
  equal characters are run-length encoded. The serial line is the list of the bytes that will
  arrive and the list of the bytes that were sent; a function that waits for a byte that never
  arrives is \<open>Inl Blocked\<close>. \<^verbatim>\<open>char\<close>s are bytes; no comparison of the file depends on their sign.
\<close>

section \<open>The serial line\<close>

datatype gdb_stop =
    Blocked                 \<comment> \<open>waits for ever for a byte\<close>
  | Overrun                 \<comment> \<open>writes outside a buffer of the stub\<close>

section \<open>Hexadecimal digits\<close>

definition hexchars :: "u8 list" where
  "hexchars = map of_char ''0123456789abcdef''"

definition hex :: "u8 \<Rightarrow> int" where
  "hex ch =
     (if 0x30 \<le> ch \<and> ch \<le> 0x39 then uint ch - 0x30
      else if 0x61 \<le> ch \<and> ch \<le> 0x66 then uint ch - 0x61 + 10
      else if 0x41 \<le> ch \<and> ch \<le> 0x46 then uint ch - 0x41 + 10
      else -1)"

text \<open>A byte of a buffer; what lies behind the buffer is no digit.\<close>

definition at :: "u8 list \<Rightarrow> nat \<Rightarrow> u8" where
  "at xs i = (if i < length xs then xs ! i else 0)"

lemma at_0: "at (x # xs) 0 = x"
  by (simp add: at_def)

text \<open>The status and the bytes stored: those before an error are stored too.\<close>

fun hex2bin :: "u8 list \<Rightarrow> nat \<Rightarrow> int \<times> u8 list" where
  "hex2bin inp 0 = (0, [])"
| "hex2bin inp (Suc len) =
     (let ch = push_bit 4 (hex (at inp 0)) OR hex (at inp 1) in
      if ch < 0 then (-1, [])
      else let (r, out) = hex2bin (drop 2 inp) len in (r, of_int ch # out))"

section \<open>Reception\<close>

abbreviation BUFMAX :: nat where "BUFMAX \<equiv> 400"

text \<open>The loop that skips everything before \<^verbatim>\<open>$\<close>: the bytes that follow it.\<close>

fun skip_to_start :: "u8 list \<Rightarrow> u8 list option" where
  "skip_to_start [] = None"
| "skip_to_start (c # cs) = (if c AND 0x7F = 0x24 then Some cs else skip_to_start cs)"

text \<open>
  The loop that fills the buffer up to \<^verbatim>\<open>#\<close>: the buffer, the number of bytes stored, their
  checksum, the last byte read and the bytes that follow. The first argument counts the
  free places, \<open>count = BUFMAX - n\<close>.
\<close>

fun read_data :: "nat \<Rightarrow> u8 list \<Rightarrow> u8 \<Rightarrow> u8 \<Rightarrow> u8 list \<Rightarrow> (u8 list \<times> nat \<times> u8 \<times> u8 \<times> u8 list) option" where
  "read_data 0 buffer checksum ch inp = Some (buffer, BUFMAX, checksum, ch, inp)"
| "read_data (Suc n) buffer checksum ch [] = None"
| "read_data (Suc n) buffer checksum ch (c # inp) =
     (let cnt = BUFMAX - Suc n in
      if c = 0x23 \<and> (cnt = 0 \<or> buffer ! (cnt - 1) \<noteq> 0x7D) then Some (buffer, cnt, checksum, c, inp)
      else read_data n (buffer[cnt := c]) (checksum + c) c inp)"

text \<open>
  The removal of a sequence number: \<^verbatim>\<open>count = strlen(buffer)\<close>, then the bytes from index 3 up to
  and with the NUL move down by three places.
\<close>

definition remove_seq :: "u8 list \<Rightarrow> u8 list" where
  "remove_seq buffer =
     (let cnt = length (takeWhile (\<lambda>c. c \<noteq> 0) buffer)
      in fold (\<lambda>i b. b[i - 3 := b ! i]) [3..<Suc cnt] buffer)"

text \<open>
  \<^verbatim>\<open>getpacket\<close>, on the buffer and the line. The recursion is on the bytes to come, of which every
  round takes at least one.
\<close>

lemma skip_shorter: "skip_to_start inp = Some inp' \<Longrightarrow> length inp' < length inp"
  by (induction inp rule: skip_to_start.induct) (auto split: if_splits)

lemma read_shorter: "read_data n b s ch inp = Some (b', k, s', ch', inp') \<Longrightarrow> length inp' \<le> length inp"
  by (induction n b s ch inp rule: read_data.induct) (auto simp: Let_def split: if_splits)

function getpacket :: "u8 list \<Rightarrow> u8 list \<Rightarrow> u8 list \<Rightarrow> gdb_stop + (u8 list \<times> u8 list \<times> u8 list)" where
  "getpacket buffer inp out =
     (case skip_to_start inp of
        None \<Rightarrow> Inl Blocked
      | Some inp1 \<Rightarrow>
          (case read_data BUFMAX buffer 0 0x24 inp1 of
             None \<Rightarrow> Inl Blocked
           | Some (buffer, cnt, checksum, ch, inp2) \<Rightarrow>
               let buffer = buffer[cnt := 0] in
               if ch = 0x23 then
                 (case inp2 of
                    h # l # inp3 \<Rightarrow>
                      let xmitcsum = of_int (push_bit 4 (hex h)) + of_int (hex l) in
                      if checksum \<noteq> xmitcsum then getpacket buffer inp3 (out @ [0x2D])
                      else if buffer ! 2 = 0x3A
                      then Inr (remove_seq buffer, inp3, out @ [0x2B, buffer ! 0, buffer ! 1])
                      else Inr (buffer, inp3, out @ [0x2B])
                  | _ \<Rightarrow> Inl Blocked)
               else if checksum \<noteq> -1 then getpacket buffer inp2 out
               else Inr (buffer, inp2, out)))"
  by pat_completeness auto
termination
proof (relation "measure (\<lambda>(buffer, inp, out). length inp)", goal_cases)
  case (2 buffer inp out inp1 x b y k z s u c inp2 b' h t l inp3 x')
  then show ?case using skip_shorter [of inp inp1] read_shorter by fastforce
next
  case (3 buffer inp out inp1 x b y k z s u c inp2 b')
  then show ?case using skip_shorter [of inp inp1] read_shorter by fastforce
qed simp

declare getpacket.simps [simp del]

section \<open>Transmission\<close>

record outfrag =
  fdata :: "u8 list"          \<comment> \<open>the memory from \<^verbatim>\<open>data\<close> on\<close>
  flen :: nat
  hexify :: bool

text \<open>The loop that follows a run: the index of the first byte behind it.\<close>

function run_end :: "u8 list \<Rightarrow> u8 \<Rightarrow> nat \<Rightarrow> nat \<Rightarrow> nat" where
  "run_end ps c q limit = (if q < limit \<and> at ps q = c then run_end ps c (Suc q) limit else q)"
  by pat_completeness auto
termination
  by (relation "measure (\<lambda>(ps, c, q, limit). limit - q)") auto

declare run_end.simps [simp del]

lemma run_end_ge: "q \<le> run_end ps c q limit"
proof (induction ps c q limit rule: run_end.induct)
  case (1 ps c q limit)
  then show ?case by (subst run_end.simps) (auto dest: Suc_leD)
qed

text \<open>
  The bytes sent for a fragment from \<open>p\<close> on: \<open>ps\<close> is the memory from \<open>p\<close> on, \<open>n\<close> what is left of the
  length; with \<open>z\<close> (length 0) a NUL ends the fragment instead.
\<close>

function send_frag :: "bool \<Rightarrow> bool \<Rightarrow> nat \<Rightarrow> u8 list \<Rightarrow> u8 list" where
  "send_frag z hexy n [] = []"
| "send_frag z hexy n (x # xs) =
     (let ps = x # xs in
      if (if z then x = 0 else n = 0) then []
      else if (z \<or> (if hexy then 1 else 3) < n) \<and> at ps 1 = x \<and>
          (if hexy then drop_bit 4 x = x AND 0xF else at ps 2 = x \<and> at ps 3 = x) then
        let limit = (if hexy then 49 else 98);
            limit = (if \<not> z \<and> limit > n then n else limit);
            q = run_end ps x (if hexy then 2 else 4) limit;
            rl = (if hexy then q * 2 else q);
            c = (if hexy then hexchars ! unat (x AND 0xF) else x)
        in c # 0x2A # of_nat (29 + rl - 1) # send_frag z hexy (n - q) (drop q ps)
      else if hexy then hexchars ! unat (drop_bit 4 x) # hexchars ! unat (x AND 0xF) # send_frag z hexy (n - 1) xs
      else x # send_frag z hexy (n - 1) xs)"
  by pat_completeness auto
termination
proof (relation "measure (\<lambda>(z, hexy, n, ps). length ps)", goal_cases)
  case (2 z hexy n x xs ps limit limit' q rl c)
  have "1 < q" unfolding 2(6) using run_end_ge [of "if hexy then 2 else 4" ps x limit'] by (simp split: if_splits)
  with 2(1) show ?case by simp
qed auto

definition payload :: "outfrag list \<Rightarrow> u8 list" where
  "payload frags = concat (map (\<lambda>f. send_frag (flen f = 0) (hexify f) (flen f) (fdata f)) frags)"

text \<open>\<^verbatim>\<open>$\<close>, the data, \<^verbatim>\<open>#\<close> and two digits; the checksum is the sum of the bytes of the data.\<close>

definition packet :: "outfrag list \<Rightarrow> u8 list" where
  "packet frags =
     (let checksum = sum_list (payload frags)
      in 0x24 # payload frags @ [0x23, hexchars ! unat (drop_bit 4 checksum), hexchars ! unat (checksum mod 16)])"

text \<open>The packet is sent again until the answer is \<^verbatim>\<open>+\<close>.\<close>

fun putfrags :: "outfrag list \<Rightarrow> u8 list \<Rightarrow> u8 list \<Rightarrow> gdb_stop + (u8 list \<times> u8 list)" where
  "putfrags frags [] out = Inl Blocked"
| "putfrags frags (c # inp) out =
     (if c AND 0x7F = 0x2B then Inr (inp, out @ packet frags) else putfrags frags inp (out @ packet frags))"

section \<open>What the digits mean\<close>

definition digits :: "u8 \<Rightarrow> u8 list" where
  "digits x = [hexchars ! unat (drop_bit 4 x), hexchars ! unat (x AND 0xF)]"

lemma nibble: "unat (x AND 0xF :: u8) = unat x mod 16" "unat (drop_bit 4 x :: u8) = unat x div 16" "(x :: u8) mod 16 = x AND 0xF"
proof -
  have "x AND 0xF = take_bit 4 x" by (simp add: take_bit_eq_mask mask_eq_exp_minus_1)
  then show a: "unat (x AND 0xF :: u8) = unat x mod 16" by (simp add: take_bit_eq_mod unat_mod)
  show "unat (drop_bit 4 x :: u8) = unat x div 16" by (simp add: drop_bit_eq_div unat_div)
  show "x mod 16 = x AND 0xF" unfolding word_unat_eq_iff a by (simp add: unat_mod)
qed

lemma hexchars_nth:
  assumes "n < 16"
  shows "hex (hexchars ! n) = int n" "hexchars ! n \<noteq> 0x2A" "hexchars ! n \<noteq> 0x23" "hexchars ! n \<noteq> 0"
proof -
  have "\<forall>n \<in> set [0..<16]. hex (hexchars ! n) = int n \<and> hexchars ! n \<noteq> 0x2A \<and> hexchars ! n \<noteq> 0x23 \<and> hexchars ! n \<noteq> 0"
    by (simp add: hexchars_def hex_def upt_rec)
  with assms show "hex (hexchars ! n) = int n" "hexchars ! n \<noteq> 0x2A" "hexchars ! n \<noteq> 0x23" "hexchars ! n \<noteq> 0" by simp_all
qed

lemma nibbles_join: "0 \<le> i \<Longrightarrow> 0 \<le> j \<Longrightarrow> j < 16 \<Longrightarrow> push_bit 4 i OR j = 16 * i + (j :: int)"
proof -
  assume "0 \<le> i" "0 \<le> j" "j < 16"
  then have j: "take_bit 4 j = j" by (simp add: take_bit_int_eq_self)
  have "push_bit 4 i OR j = push_bit 4 i + j"
    by (subst j [symmetric], subst (2) j [symmetric], rule disjunctive_add [symmetric]) (auto simp: bit_simps)
  then show ?thesis by (simp add: push_bit_eq_mult)
qed

lemma digits_value:
  "push_bit 4 (hex (hexchars ! unat (drop_bit 4 x))) OR hex (hexchars ! unat (x AND 0xF)) = uint (x :: u8)"
  "of_int (push_bit 4 (hex (hexchars ! unat (drop_bit 4 x)))) + of_int (hex (hexchars ! unat (x AND 0xF))) = x"
proof -
  have n: "unat x div 16 < 16" "unat x mod 16 < 16" using unsigned_less [of x, where 'a = nat] by (simp_all add: less_mult_imp_div_less)
  have u: "16 * int (unat x div 16) + int (unat x mod 16) = uint x" by (simp add: of_nat_div of_nat_mod)
  show "push_bit 4 (hex (hexchars ! unat (drop_bit 4 x))) OR hex (hexchars ! unat (x AND 0xF)) = uint x"
    using u n by (simp add: nibble hexchars_nth nibbles_join)
  have "of_int (push_bit 4 (hex (hexchars ! unat (drop_bit 4 x)))) + of_int (hex (hexchars ! unat (x AND 0xF))) = (of_int (uint x) :: u8)"
    unfolding u [symmetric] using n by (simp add: nibble hexchars_nth push_bit_eq_mult)
  then show "of_int (push_bit 4 (hex (hexchars ! unat (drop_bit 4 x)))) + of_int (hex (hexchars ! unat (x AND 0xF))) = x" by simp
qed

text \<open>\<^verbatim>\<open>hex2bin\<close> reads back what the stub sends for a block of memory without runs.\<close>

lemma hex2bin_digits: "hex2bin (concat (map digits xs) @ rest) (length xs) = (0, xs)"
proof (induction xs)
  case (Cons x xs)
  then show ?case by (simp add: digits_def at_def digits_value(1))
qed simp

section \<open>What the receiver of a packet decodes\<close>

text \<open>
  A byte followed by \<^verbatim>\<open>*\<close> and \<open>n\<close> stands for \<open>n - 28\<close> copies of it; this is how the debugger reads the
  data of a packet.
\<close>

fun unrun :: "u8 list \<Rightarrow> u8 list" where
  "unrun (c # d # n # xs) = (if d = 0x2A then replicate (unat n - 28) c @ unrun xs else c # unrun (d # n # xs))"
| "unrun xs = xs"

definition no_star :: "u8 list \<Rightarrow> bool" where
  "no_star xs \<longleftrightarrow> (\<forall>c ys. xs = c # ys \<longrightarrow> c \<noteq> 0x2A)"

lemma unrun_plain: "no_star xs \<Longrightarrow> unrun (c # xs) = c # unrun xs"
  by (cases "c # xs" rule: unrun.cases) (auto simp: no_star_def)

text \<open>The bytes of a fragment, and the text that stands for them.\<close>

definition frag_bytes :: "bool \<Rightarrow> nat \<Rightarrow> u8 list \<Rightarrow> u8 list" where
  "frag_bytes z n ps = (if z then takeWhile (\<lambda>c. c \<noteq> 0) ps else take n ps)"

definition frag_text :: "bool \<Rightarrow> u8 list \<Rightarrow> u8 list" where
  "frag_text hexy xs = (if hexy then concat (map digits xs) else xs)"

lemma frag_text_append: "frag_text hexy (xs @ ys) = frag_text hexy xs @ frag_text hexy ys"
  by (simp add: frag_text_def)

lemma run_end_eq:
  assumes "\<forall>i < q. at ps i = c"
  shows "\<forall>i < run_end ps c q limit. at ps i = c"
  using assms
proof (induction ps c q limit rule: run_end.induct)
  case (1 ps c q limit)
  then show ?case by (subst run_end.simps) (auto simp: less_Suc_eq)
qed

lemma run_end_le: "q \<le> limit \<Longrightarrow> run_end ps c q limit \<le> limit"
proof (induction ps c q limit rule: run_end.induct)
  case (1 ps c q limit)
  then show ?case by (subst run_end.simps) auto
qed

lemma frag_bytes_run:
  assumes "\<forall>i < q. at ps i = x" "if z then x \<noteq> 0 \<and> 0 \<in> set ps else q \<le> n \<and> n \<le> length ps"
  shows "q \<le> length ps" "frag_bytes z n ps = replicate q x @ frag_bytes z (n - q) (drop q ps)"
proof -
  show q: "q \<le> length ps"
  proof (rule ccontr)
    assume "\<not> q \<le> length ps"
    then have "at ps (length ps) = x" "length ps < q" using assms(1) by simp_all
    with assms(2) show False by (auto simp: at_def split: if_splits)
  qed
  have t: "take q ps = replicate q x" using assms(1) q by (intro nth_equalityI) (auto simp: at_def)
  have d: "ps = replicate q x @ drop q ps" by (metis t append_take_drop_id)
  show "frag_bytes z n ps = replicate q x @ frag_bytes z (n - q) (drop q ps)"
  proof (cases z)
    case True
    then have x: "x \<noteq> 0" using assms(2) by simp
    have "takeWhile (\<lambda>c. c \<noteq> 0) (replicate q x @ drop q ps) = replicate q x @ takeWhile (\<lambda>c. c \<noteq> 0) (drop q ps)"
      using x by (intro takeWhile_append2) simp
    with d True show ?thesis by (simp add: frag_bytes_def)
  next
    case False
    then have "take n ps = take q ps @ take (n - q) (drop q ps)" using assms(2) by (metis le_add_diff_inverse take_add)
    with t False show ?thesis by (simp add: frag_bytes_def)
  qed
qed

lemma send_frag_no_star:
  assumes "\<not> hexy \<Longrightarrow> 0x2A \<notin> set (frag_bytes z n ps)"
  shows "no_star (send_frag z hexy n ps @ rest) \<or> send_frag z hexy n ps = []"
proof (cases ps)
  case (Cons x xs)
  have "unat (drop_bit 4 x :: u8) < 16" "unat (x AND 0xF :: u8) < 16"
    using unsigned_less [of x, where 'a = nat] by (simp_all add: nibble less_mult_imp_div_less)
  moreover have "x \<in> set (frag_bytes z n ps)" if "\<not> (if z then x = 0 else n = 0)"
    using that Cons by (cases n; cases z) (auto simp: frag_bytes_def)
  ultimately show ?thesis using assms Cons hexchars_nth(2) by (auto simp: no_star_def Let_def)
qed simp

lemma no_star_append: "no_star (send_frag z hexy n ps @ rest)"
  if "\<not> hexy \<Longrightarrow> 0x2A \<notin> set (frag_bytes z n ps)" "no_star rest"
  using send_frag_no_star [OF that(1)] that(2) by (metis append_Nil)

text \<open>A run is encoded so that the receiver writes it out again.\<close>

lemma unrun_run:
  assumes "1 \<le> rl" "rl \<le> 98"
  shows "unrun (c # 0x2A # of_nat (29 + rl - 1) # xs) = replicate rl c @ unrun xs"
proof -
  have "unat (of_nat (29 + rl - 1) :: u8) = 29 + rl - 1" using assms by (simp only: unat_of_nat) simp
  then show ?thesis using assms by simp
qed

lemma digits_run: "drop_bit 4 x = x AND 0xF \<Longrightarrow> concat (map digits (replicate q x)) = replicate (q * 2) (hexchars ! unat (x AND 0xF))"
  by (induction q) (simp_all add: digits_def)

text \<open>What \<^verbatim>\<open>putfrags\<close> finds at the head of the data: a run of \<open>q\<close> bytes that it encodes, or none.\<close>

definition starts_run :: "bool \<Rightarrow> bool \<Rightarrow> nat \<Rightarrow> u8 list \<Rightarrow> u8 \<Rightarrow> bool" where
  "starts_run z hexy n ps x \<longleftrightarrow> (z \<or> (if hexy then 1 else 3) < n) \<and> at ps 1 = x \<and>
     (if hexy then drop_bit 4 x = x AND 0xF else at ps 2 = x \<and> at ps 3 = x)"

definition run_size :: "bool \<Rightarrow> bool \<Rightarrow> nat \<Rightarrow> u8 list \<Rightarrow> u8 \<Rightarrow> nat" where
  "run_size z hexy n ps x =
     (let l = if hexy then 49 else 98 in run_end ps x (if hexy then 2 else 4) (if \<not> z \<and> l > n then n else l))"

lemma send_frag_run:
  assumes "\<not> (if z then x = 0 else n = 0)" "starts_run z hexy n (x # xs) x"
  defines "q \<equiv> run_size z hexy n (x # xs) x"
  shows "send_frag z hexy n (x # xs) = (if hexy then hexchars ! unat (x AND 0xF) else x) # 0x2A #
    of_nat (29 + (if hexy then q * 2 else q) - 1) # send_frag z hexy (n - q) (drop q (x # xs))"
  unfolding send_frag.simps(2) q_def run_size_def Let_def if_not_P [OF assms(1)] if_P [OF assms(2) [unfolded starts_run_def]]
  by (rule refl)

lemma send_frag_plain:
  assumes "\<not> (if z then x = 0 else n = 0)" "\<not> starts_run z hexy n (x # xs) x"
  shows "send_frag z hexy n (x # xs) =
    (if hexy then hexchars ! unat (drop_bit 4 x) # hexchars ! unat (x AND 0xF) # send_frag z hexy (n - 1) xs
     else x # send_frag z hexy (n - 1) xs)"
  unfolding send_frag.simps(2) Let_def if_not_P [OF assms(1)] if_not_P [OF assms(2) [unfolded starts_run_def]]
  by (rule refl)

lemma run_size_ok:
  assumes "starts_run z hexy n (x # xs) x" "if z then 0 \<in> set (x # xs) else n \<le> length (x # xs)" "\<not> (if z then x = 0 else n = 0)"
  defines "q \<equiv> run_size z hexy n (x # xs) x"
  shows "\<forall>i < q. at (x # xs) i = x" "1 \<le> q" "q \<le> (if hexy then 49 else 98)"
    "if z then x \<noteq> 0 \<and> 0 \<in> set (x # xs) else q \<le> n \<and> n \<le> length (x # xs)"
proof -
  let ?m = "if hexy then 2 else 4 :: nat" and ?l = "if hexy then 49 else 98 :: nat"
  let ?limit = "if \<not> z \<and> ?l > n then n else ?l"
  have q: "q = run_end (x # xs) x ?m ?limit" by (simp add: q_def run_size_def Let_def)
  show "\<forall>i < q. at (x # xs) i = x" unfolding q
    by (rule run_end_eq) (use assms(1) in \<open>auto simp: starts_run_def less_Suc_eq numeral_eq_Suc at_0 split: if_splits\<close>)
  have "?m \<le> ?limit" using assms(1) by (auto simp: starts_run_def split: if_splits)
  then have l: "q \<le> ?limit" "?m \<le> q" unfolding q using run_end_le run_end_ge by blast+
  then show "1 \<le> q" "q \<le> ?l" by (auto split: if_splits)
  show "if z then x \<noteq> 0 \<and> 0 \<in> set (x # xs) else q \<le> n \<and> n \<le> length (x # xs)"
    using l assms(2,3) by (auto split: if_splits)
qed

lemma zero_after_run:
  assumes "\<forall>i < q. at ps i = x" "q \<le> length ps" "x \<noteq> 0" "0 \<in> set ps"
  shows "0 \<in> set (drop q ps)"
proof -
  have "0 \<in> set (take q ps @ drop q ps)" unfolding append_take_drop_id by (rule assms(4))
  moreover have "take q ps = replicate q x" using assms(1,2) by (intro nth_equalityI) (auto simp: at_def)
  ultimately show ?thesis using assms(3) by (auto simp del: append_take_drop_id)
qed

lemma unrun_frag:
  assumes "if z then 0 \<in> set ps else n \<le> length ps" "\<not> hexy \<Longrightarrow> 0x2A \<notin> set (frag_bytes z n ps)" "no_star rest"
  shows "unrun (send_frag z hexy n ps @ rest) = frag_text hexy (frag_bytes z n ps) @ unrun rest"
  using assms
proof (induction "length ps" arbitrary: n ps rule: less_induct)
  case less
  show ?case
  proof (cases "ps = [] \<or> (if z then hd ps = 0 else n = 0)")
    case True
    with less.prems(1) show ?thesis by (cases ps) (auto simp: frag_bytes_def frag_text_def split: if_splits)
  next
    case False
    then obtain x xs where ps: "ps = x # xs" and more: "\<not> (if z then x = 0 else n = 0)" by (cases ps) (simp_all split: if_splits)
    show ?thesis
    proof (cases "starts_run z hexy n ps x")
      case True
      let ?q = "run_size z hexy n ps x" and ?c = "if hexy then hexchars ! unat (x AND 0xF) else x"
      note q = run_size_ok [OF True [unfolded ps] less.prems(1) [unfolded ps] more, folded ps]
      note f = frag_bytes_run [OF q(1,4)]
      have w: "if z then 0 \<in> set (drop ?q ps) else n - ?q \<le> length (drop ?q ps)"
        using zero_after_run [OF q(1) f(1)] q(4) by (auto split: if_splits)
      have s: "0x2A \<notin> set (frag_bytes z (n - ?q) (drop ?q ps))" if "\<not> hexy" using less.prems(2) [OF that] unfolding f(2) by simp
      have IH: "unrun (send_frag z hexy (n - ?q) (drop ?q ps) @ rest) = frag_text hexy (frag_bytes z (n - ?q) (drop ?q ps)) @ unrun rest"
        by (rule less.hyps [OF _ w s less.prems(3)]) (use q(2) ps in simp_all)
      have rl: "1 \<le> (if hexy then ?q * 2 else ?q)" "(if hexy then ?q * 2 else ?q) \<le> 98" using q(2,3) by (auto split: if_splits)
      have E: "unrun (send_frag z hexy n ps @ rest) = replicate (if hexy then ?q * 2 else ?q) ?c @
          unrun (send_frag z hexy (n - ?q) (drop ?q ps) @ rest)"
        using send_frag_run [OF more True [unfolded ps], folded ps] unrun_run [OF rl] by (simp only: append_Cons)
      have "frag_text hexy (replicate r x) = replicate (if hexy then r * 2 else r) ?c" for r
        using True digits_run [of x r] by (cases hexy) (simp_all add: frag_text_def starts_run_def)
      then show ?thesis unfolding E IH f(2) frag_text_append by (simp only: append_assoc)
    next
      case False
      have n1: "frag_bytes z n ps = x # frag_bytes z (n - 1) xs" using more ps by (cases n) (auto simp: frag_bytes_def split: if_splits)
      have w: "if z then 0 \<in> set xs else n - 1 \<le> length xs" using more less.prems(1) ps by (auto split: if_splits)
      have s: "0x2A \<notin> set (frag_bytes z (n - 1) xs)" if "\<not> hexy" using less.prems(2) [OF that] by (simp add: n1)
      have p: "no_star (send_frag z hexy (n - 1) xs @ rest)" by (rule no_star_append [OF s less.prems(3)])
      have IH: "unrun (send_frag z hexy (n - 1) xs @ rest) = frag_text hexy (frag_bytes z (n - 1) xs) @ unrun rest"
        by (rule less.hyps [OF _ w s less.prems(3)]) (use ps in simp_all)
      have "unat (x AND 0xF :: u8) < 16" by (simp add: nibble)
      from hexchars_nth(2) [OF this] have "no_star (hexchars ! unat (x AND 0xF) # send_frag z hexy (n - 1) xs @ rest)" by (simp add: no_star_def)
      then show ?thesis unfolding n1 using p IH send_frag_plain [OF more False [unfolded ps], folded ps]
        by (cases hexy) (simp_all add: unrun_plain frag_text_def digits_def del: unrun.simps)
    qed
  qed
qed

text \<open>Fragments that can be sent: inside their memory, and without a plain \<^verbatim>\<open>*\<close>.\<close>

definition frag_ok :: "outfrag \<Rightarrow> bool" where
  "frag_ok f \<longleftrightarrow> (if flen f = 0 then 0 \<in> set (fdata f) else flen f \<le> length (fdata f)) \<and>
     (hexify f \<or> 0x2A \<notin> set (frag_bytes (flen f = 0) (flen f) (fdata f)))"

definition text_of :: "outfrag \<Rightarrow> u8 list" where
  "text_of f = frag_text (hexify f) (frag_bytes (flen f = 0) (flen f) (fdata f))"

lemma payload_no_star: "list_all frag_ok frags \<Longrightarrow> no_star (payload frags)"
proof (induction frags)
  case (Cons f frags)
  then show ?case using no_star_append [of "hexify f" "flen f = 0" "flen f" "fdata f"] by (auto simp: payload_def frag_ok_def)
qed (simp add: payload_def no_star_def)

lemma unrun_payload: "list_all frag_ok frags \<Longrightarrow> unrun (payload frags) = concat (map text_of frags)"
proof (induction frags)
  case (Cons f frags)
  then have "frag_ok f" "no_star (payload frags)" by (simp_all add: payload_no_star)
  with Cons unrun_frag [of "flen f = 0" "fdata f" "flen f" "hexify f" "payload frags"] show ?case
    by (auto simp: payload_def text_of_def frag_ok_def)
qed (simp add: payload_def)

definition frame_of_data :: "u8 list \<Rightarrow> u8 list" where
  "frame_of_data xs = 0x24 # xs @ 0x23 # digits (sum_list xs)"

lemma packet_frame: "packet frags = frame_of_data (payload frags)"
  by (simp add: packet_def frame_of_data_def digits_def Let_def nibble(3))

lemma putfrags_resends:
  "\<forall>c \<in> set nacks. c AND 0x7F \<noteq> 0x2B \<Longrightarrow> ack AND 0x7F = 0x2B \<Longrightarrow>
   putfrags frags (nacks @ ack # rest) out = Inr (rest, out @ concat (replicate (Suc (length nacks)) (packet frags)))"
proof (induction nacks arbitrary: out)
  case (Cons c nacks)
  then show ?case by simp
qed simp



section \<open>What a packet received is\<close>

text \<open>Data that \<^verbatim>\<open>getpacket\<close> takes as one packet, without a sequence number.\<close>

definition good_data :: "u8 list \<Rightarrow> bool" where
  "good_data xs \<longleftrightarrow> length xs < BUFMAX \<and> 0x23 \<notin> set xs \<and> (xs = [] \<or> last xs \<noteq> 0x7D) \<and> (2 < length xs \<longrightarrow> xs ! 2 \<noteq> 0x3A)"

lemma skip_junk: "\<forall>c \<in> set junk. c AND 0x7F \<noteq> 0x24 \<Longrightarrow> skip_to_start (junk @ 0x24 # inp) = Some inp"
  by (induction junk) auto

lemma read_data_frame:
  assumes "length xs < n" "n \<le> BUFMAX" "length buffer = Suc BUFMAX" "0x23 \<notin> set xs"
    "xs = [] \<longrightarrow> n < BUFMAX \<longrightarrow> buffer ! (BUFMAX - n - 1) \<noteq> 0x7D" "xs \<noteq> [] \<longrightarrow> last xs \<noteq> 0x7D"
  shows "read_data n buffer csum ch (xs @ 0x23 # rest) =
    Some (take (BUFMAX - n) buffer @ xs @ drop (BUFMAX - n + length xs) buffer, BUFMAX - n + length xs, csum + sum_list xs, 0x23, rest)"
  using assms
proof (induction xs arbitrary: n buffer csum ch)
  case Nil
  then obtain m where n: "n = Suc m" by (cases n) auto
  with Nil.prems show ?case by (auto simp: Let_def)
next
  case (Cons x xs)
  then obtain m where n: "n = Suc m" by (cases n) auto
  let ?k = "BUFMAX - n"
  have k: "BUFMAX - m = Suc ?k" "?k < length buffer" using n Cons.prems(2,3) by auto
  have "read_data m (buffer[?k := x]) (csum + x) x (xs @ 0x23 # rest) =
      Some (take (BUFMAX - m) (buffer[?k := x]) @ xs @ drop (BUFMAX - m + length xs) (buffer[?k := x]), BUFMAX - m + length xs,
        csum + x + sum_list xs, 0x23, rest)"
    using Cons.prems n k by (intro Cons.IH) (auto split: if_splits)
  moreover have "read_data n buffer csum ch ((x # xs) @ 0x23 # rest) = read_data m (buffer[?k := x]) (csum + x) x (xs @ 0x23 # rest)"
    using Cons.prems(4) n by (auto simp: Let_def)
  moreover have "take (Suc ?k) (buffer[?k := x]) = take ?k buffer @ [x]" using k(2) by (simp add: take_Suc_conv_app_nth)
  ultimately show ?case unfolding k(1) by (simp add: add.assoc)
qed

text \<open>The buffer after a packet: the data, a NUL, and what the buffer held behind them.\<close>

definition after :: "u8 list \<Rightarrow> u8 list \<Rightarrow> u8 list" where
  "after xs buffer = xs @ 0 # drop (Suc (length xs)) buffer"

lemma after_ok:
  assumes "length buffer = Suc BUFMAX" "buffer ! 2 \<noteq> 0x3A" "good_data xs"
  shows "length (after xs buffer) = Suc BUFMAX" "after xs buffer ! 2 \<noteq> 0x3A"
proof -
  show "length (after xs buffer) = Suc BUFMAX" using assms by (simp add: after_def good_data_def)
  consider "2 < length xs" | "length xs = 2" | "length xs = 1" | "length xs = 0" by linarith
  then show "after xs buffer ! 2 \<noteq> 0x3A"
    using assms by cases (auto simp: after_def good_data_def nth_append numeral_2_eq_2 [symmetric])
qed

lemma getpacket_step:
  assumes "length buffer = Suc BUFMAX" "buffer ! 2 \<noteq> 0x3A" "good_data xs" "\<forall>c \<in> set junk. c AND 0x7F \<noteq> 0x24"
  shows "getpacket buffer (junk @ 0x24 # xs @ 0x23 # h # l # inp) out =
    (if sum_list xs \<noteq> of_int (push_bit 4 (hex h)) + of_int (hex l) then getpacket (after xs buffer) inp (out @ [0x2D])
     else Inr (after xs buffer, inp, out @ [0x2B]))"
proof -
  have r: "read_data BUFMAX buffer 0 0x24 (xs @ 0x23 # h # l # inp) = Some (xs @ drop (length xs) buffer, length xs, sum_list xs, 0x23, h # l # inp)"
    using read_data_frame [of xs BUFMAX buffer 0 "0x24" "h # l # inp"] assms by (auto simp: good_data_def)
  have l: "length xs < length buffer" using assms by (simp add: good_data_def)
  have "(xs @ drop (length xs) buffer)[length xs := 0] = after xs buffer"
    using l by (simp add: after_def list_update_append Cons_nth_drop_Suc [symmetric])
  with after_ok [OF assms(1-3)] show ?thesis by (subst getpacket.simps) (simp add: skip_junk [OF assms(4)] r Let_def)
qed

text \<open>A damaged packet on the line: what precedes it, its data and the two wrong digits.\<close>

record damaged =
  noise :: "u8 list"
  ddata :: "u8 list"
  dsum :: "u8 \<times> u8"

definition on_line :: "damaged \<Rightarrow> u8 list" where
  "on_line d = noise d @ 0x24 # ddata d @ 0x23 # fst (dsum d) # [snd (dsum d)]"

definition is_damaged :: "damaged \<Rightarrow> bool" where
  "is_damaged d \<longleftrightarrow> (\<forall>c \<in> set (noise d). c AND 0x7F \<noteq> 0x24) \<and> good_data (ddata d) \<and>
     sum_list (ddata d) \<noteq> of_int (push_bit 4 (hex (fst (dsum d)))) + of_int (hex (snd (dsum d)))"

text \<open>
  C36. \<^verbatim>\<open>getpacket\<close> refuses every damaged packet with \<^verbatim>\<open>-\<close>, ignores what is between packets, and returns
  the data of the first packet whose checksum is right, followed by a NUL, after it has
  acknowledged it with \<^verbatim>\<open>+\<close>; it takes no byte behind that packet from the line.
\<close>

theorem getpacket_receives:
  assumes "length buffer = Suc BUFMAX" "buffer ! 2 \<noteq> 0x3A" "list_all is_damaged ds" "\<forall>c \<in> set junk. c AND 0x7F \<noteq> 0x24" "good_data xs"
  shows "\<exists>stale. getpacket buffer (concat (map on_line ds) @ junk @ frame_of_data xs @ rest) out =
      Inr (xs @ 0 # stale, rest, out @ replicate (length ds) 0x2D @ [0x2B]) \<and> length (xs @ 0 # stale) = Suc BUFMAX"
  using assms(1-3)
proof (induction ds arbitrary: buffer out)
  case Nil
  have s: "(junk @ 0x24 # xs @ 0x23 # digits (sum_list xs)) @ rest = junk @ 0x24 # xs @ 0x23 #
      hexchars ! unat (drop_bit 4 (sum_list xs)) # hexchars ! unat (sum_list xs AND 0xF) # rest" by (simp add: digits_def)
  have "getpacket buffer (junk @ frame_of_data xs @ rest) out = Inr (after xs buffer, rest, out @ [0x2B])"
    using getpacket_step [OF Nil.prems(1,2) assms(5,4)] unfolding frame_of_data_def append_assoc [symmetric] s by (simp add: digits_value(2))
  with after_ok(1) [OF Nil.prems(1,2) assms(5)] show ?case by (auto simp: after_def)
next
  case (Cons d ds)
  then have d: "\<forall>c \<in> set (noise d). c AND 0x7F \<noteq> 0x24" "good_data (ddata d)"
    "sum_list (ddata d) \<noteq> of_int (push_bit 4 (hex (fst (dsum d)))) + of_int (hex (snd (dsum d)))" by (simp_all add: is_damaged_def)
  note a = after_ok [OF Cons.prems(1,2) d(2)]
  show ?case using Cons.IH [OF a, of "out @ [0x2D]"] Cons.prems(3) d(3) getpacket_step [OF Cons.prems(1,2) d(2,1)]
    by (simp add: on_line_def)
qed

theorem getpacket_receives_witness:
  "\<exists>stale. getpacket (replicate 401 0) ([0x24, 0x67, 0x23, 0x30, 0x30] @ [0x2B] @ [0x24, 0x67, 0x23, 0x36, 0x37] @ [0x2B]) [] =
      Inr ([0x67, 0] @ stale, [0x2B], [0x2D, 0x2B])"
proof -
  let ?d = "\<lparr>noise = [], ddata = [0x67], dsum = (0x30, 0x30)\<rparr>"
  have g: "good_data [0x67]" "list_all is_damaged [?d]" by (simp_all add: good_data_def is_damaged_def hex_def)
  have f: "frame_of_data [0x67] = [0x24, 0x67, 0x23, 0x36, 0x37]" by (simp add: frame_of_data_def digits_def hexchars_def)
  from getpacket_receives [OF _ _ g(2) _ g(1), of "replicate 401 0" "[0x2B]" "[0x2B]" "[]"] show ?thesis by (auto simp: f on_line_def)
qed

end
