(* ===== verification/Gdb_Memory.thy ===== *)
theory Gdb_Memory
  imports Gdb_Packet
begin

unbundle bit_operations_syntax

text \<open>
  How the debugger reaches the memory of the program it debugs (\<^verbatim>\<open>kernel/gdb_serial_support.c\<close>):
  with paging switched off, it walks the page tables itself. Memory is a store of words by
  physical address, as in \<open>Mmu\<close>; with paging off every address can be accessed.
\<close>

section \<open>Bytes of physical memory\<close>

type_synonym pmem = "u32 \<Rightarrow> u32"

abbreviation word_addr :: "u32 \<Rightarrow> u32" where "word_addr a \<equiv> a AND 0xFFFFFFFC"

definition peek :: "pmem \<Rightarrow> u32 \<Rightarrow> u8" where
  "peek M a = ucast (drop_bit (8 * unat (a AND 3)) (M (word_addr a)))"

definition poke :: "u32 \<Rightarrow> u8 \<Rightarrow> pmem \<Rightarrow> pmem" where
  "poke a v M = M(word_addr a :=
     (M (word_addr a) AND NOT (push_bit (8 * unat (a AND 3)) 0xFF)) OR push_bit (8 * unat (a AND 3)) (ucast v))"

fun pokes :: "u32 \<Rightarrow> u8 list \<Rightarrow> pmem \<Rightarrow> pmem" where
  "pokes a [] M = M"
| "pokes a (v # vs) M = pokes (a + 1) vs (poke a v M)"

section \<open>The walk through the page tables\<close>

text \<open>The physical address and the size of the rest of the page; a size of 0 if there is none.\<close>

definition phys_addr_lookup :: "pmem \<Rightarrow> u32 \<Rightarrow> u32 \<Rightarrow> u32 \<Rightarrow> u32 \<times> u32" where
  "phys_addr_lookup M client_cr0 client_cr3 vaddr =
     (let pd = client_cr3 AND 0xFFFFF000;
          pde = M (pd + 4 * (drop_bit 22 vaddr AND 0x3FF)) in
      if client_cr0 AND 0x80000000 = 0 then (vaddr, 0xFFFFFFFF)
      else if pde AND 1 = 0 then (0, 0)
      else if pde AND 0x80 = 0 then
        let pt = pde AND 0xFFFFF000;
            pte = M (pt + 4 * (drop_bit 12 vaddr AND 0x3FF));
            offs = vaddr AND 0xFFF
        in if pte AND 1 = 0 then (0, 0) else ((pte AND 0xFFFFF000) + offs, 0x1000 - offs)
      else
        let offs = vaddr AND 0x3FFFFF in ((pde AND NOT 0x3FFFFF) + offs, 0x400000 - offs))"

text \<open>The status and the bytes copied to the buffer.\<close>

function gdb_copyin :: "pmem \<Rightarrow> u32 \<Rightarrow> u32 \<Rightarrow> u32 \<Rightarrow> nat \<Rightarrow> int \<times> u8 list" where
  "gdb_copyin M cr0 cr3 src_va sze =
     (if sze = 0 then (0, [])
      else
        let (pa, sz) = phys_addr_lookup M cr0 cr3 src_va in
        if sz = 0 then (-1, [])
        else
          let n = (if unat sz > sze then sze else unat sz);
              (r, bs) = gdb_copyin M cr0 cr3 (src_va + of_nat n) (sze - n)
          in (r, map (\<lambda>i. peek M (pa + of_nat i)) [0..<n] @ bs))"
  by pat_completeness auto
termination
  by (relation "measure (\<lambda>(M, cr0, cr3, src_va, sze). sze)") (auto simp: unat_gt_0 split: if_splits)

declare gdb_copyin.simps [simp del]

text \<open>The status and the memory; the tables are read anew for every page.\<close>

function gdb_copyout :: "u8 list \<Rightarrow> u32 \<Rightarrow> u32 \<Rightarrow> u32 \<Rightarrow> pmem \<Rightarrow> int \<times> pmem" where
  "gdb_copyout src_buf cr0 cr3 dest_va M =
     (if src_buf = [] then (0, M)
      else
        let (pa, sz) = phys_addr_lookup M cr0 cr3 dest_va in
        if sz = 0 then (-1, M)
        else
          let n = (if unat sz > length src_buf then length src_buf else unat sz)
          in gdb_copyout (drop n src_buf) cr0 cr3 (dest_va + of_nat n) (pokes pa (take n src_buf) M))"
  by pat_completeness auto
termination
  by (relation "measure (\<lambda>(src_buf, cr0, cr3, dest_va, M). length src_buf)") (auto simp: unat_gt_0 split: if_splits)

declare gdb_copyout.simps [simp del]

section \<open>What the processor translates\<close>

definition x86_translate :: "pmem \<Rightarrow> u32 \<Rightarrow> u32 \<Rightarrow> u32 option" where
  "x86_translate M cr3 va =
     (let pde = M ((cr3 AND 0xFFFFF000) + 4 * (drop_bit 22 va AND 0x3FF)) in
      if \<not> bit pde 0 then None
      else if bit pde 7 then Some ((pde AND NOT 0x3FFFFF) + (va AND 0x3FFFFF))
      else
        let pte = M ((pde AND 0xFFFFF000) + 4 * (drop_bit 12 va AND 0x3FF)) in
        if bit pte 0 then Some ((pte AND 0xFFFFF000) + (va AND 0xFFF)) else None)"

lemma and_pow: "x AND 1 = 0 \<longleftrightarrow> \<not> bit (x :: u32) 0" "x AND 0x80 = 0 \<longleftrightarrow> \<not> bit x 7" "x AND 0x80000000 = 0 \<longleftrightarrow> \<not> bit x 31"
proof -
  have "x AND 2 ^ n = 0 \<longleftrightarrow> \<not> bit x n" for n by (rule and_exp_eq_0_iff_not_bit)
  from this [of 0] this [of 7] this [of 31] show "x AND 1 = 0 \<longleftrightarrow> \<not> bit (x :: u32) 0" "x AND 0x80 = 0 \<longleftrightarrow> \<not> bit x 7" "x AND 0x80000000 = 0 \<longleftrightarrow> \<not> bit x 31"
    by simp_all
qed

text \<open>Inside a page of \<open>2 ^ k\<close> bytes only the offset changes.\<close>

lemma inside_page:
  assumes "k < 32" "i < 2 ^ k - unat (take_bit k va :: u32)"
  shows "drop_bit k (va + of_nat i) = drop_bit k va" "take_bit k (va + of_nat i) = take_bit k va + of_nat i"
proof -
  have T: "unat (take_bit k x) = unat x mod 2 ^ k" for x :: u32 by (subst unsigned_take_bit_eq) (rule take_bit_eq_mod)
  have D: "unat (drop_bit k x) = unat x div 2 ^ k" for x :: u32 by (subst unat_drop_bit_eq) (rule drop_bit_eq_div)
  note o = T [of va]
  have "unat va div 2 ^ k < 2 ^ (32 - k)"
    using unsigned_less [of va, where 'a = nat] assms(1) by (simp add: less_mult_imp_div_less power_add [symmetric])
  then have "(unat va div 2 ^ k + 1) * 2 ^ k \<le> 2 ^ (32 - k) * (2 ^ k :: nat)" by (intro mult_right_mono) simp_all
  also have "\<dots> = 2 ^ 32" using assms(1) by (simp add: power_add [symmetric])
  finally have e: "unat va div 2 ^ k * 2 ^ k + 2 ^ k \<le> 2 ^ 32" by (simp add: algebra_simps)
  have d: "unat va = unat va div 2 ^ k * 2 ^ k + unat va mod 2 ^ k" by (rule div_mult_mod_eq [symmetric])
  have lt: "unat va + i < 2 ^ 32" using e d assms(2) o by linarith
  then have i: "unat (of_nat i :: u32) = i" by (simp add: unat_of_nat)
  then have s: "unat (va + of_nat i) = unat va + i" using lt by (simp add: unat_word_ariths)
  have m: "unat va mod 2 ^ k + i < 2 ^ k" using assms(2) o by linarith
  have "unat va mod 2 ^ k \<le> unat va" by (rule mod_less_eq_dividend)
  then have "unat va mod 2 ^ k + i < 2 ^ 32" using lt by linarith
  then have lt2: "unat va mod 2 ^ k + i < 4294967296" by simp
  have "unat va + i = unat va div 2 ^ k * 2 ^ k + (unat va mod 2 ^ k + i)" using d by linarith
  then have "(unat va + i) div 2 ^ k = unat va div 2 ^ k" "(unat va + i) mod 2 ^ k = unat va mod 2 ^ k + i"
    using m by (metis add.right_neutral div_less div_mult_self3 power_not_zero zero_neq_numeral, metis mod_less mod_mult_self3)
  then show "drop_bit k (va + of_nat i) = drop_bit k va" "take_bit k (va + of_nat i) = take_bit k va + of_nat i"
    unfolding word_unat_eq_iff T D s using i m lt2 by (simp_all add: unat_word_ariths T)
qed

lemma page_masks: "x AND 0xFFF = take_bit 12 (x :: u32)" "x AND 0x3FFFFF = take_bit 22 x"
  by (simp_all add: take_bit_eq_mask mask_eq_exp_minus_1)

lemma rest_of_page:
  "unat (0x1000 - take_bit 12 (va :: u32)) = 2 ^ 12 - unat (take_bit 12 va)" "0x1000 - take_bit 12 va \<noteq> 0"
  "unat (0x400000 - take_bit 22 (va :: u32)) = 2 ^ 22 - unat (take_bit 22 va)" "0x400000 - take_bit 22 va \<noteq> 0"
proof -
  have a: "unat (take_bit 12 va) < 2 ^ 12" "unat (take_bit 22 va) < 2 ^ 22"
    by (simp_all only: unsigned_take_bit_eq take_bit_nat_less_exp)
  then show u: "unat (0x1000 - take_bit 12 va) = 2 ^ 12 - unat (take_bit 12 va)" "unat (0x400000 - take_bit 22 va) = 2 ^ 22 - unat (take_bit 22 va)"
    by (subst unat_sub, simp_all add: word_le_nat_alt)+
  from a u show "0x1000 - take_bit 12 va \<noteq> 0" "0x400000 - take_bit 22 va \<noteq> 0" by (auto simp: word_unat_eq_iff)
qed

lemma drop_22: "drop_bit 22 (x :: u32) = drop_bit 10 (drop_bit 12 x)"
  by simp

lemma lookup_translates:
  assumes "bit cr0 31" "phys_addr_lookup M cr0 cr3 va = (pa, sz)"
  shows "sz = 0 \<and> x86_translate M cr3 va = None \<or>
    sz \<noteq> 0 \<and> (\<forall>i < unat sz. x86_translate M cr3 (va + of_nat i) = Some (pa + of_nat i))"
proof -
  let ?pde = "M ((cr3 AND 0xFFFFF000) + 4 * (drop_bit 22 va AND 0x3FF))"
  let ?pte = "M ((?pde AND 0xFFFFF000) + 4 * (drop_bit 12 va AND 0x3FF))"
  have s: "drop_bit 22 (va + of_nat i) = drop_bit 22 va" if "i < 2 ^ 12 - unat (take_bit 12 va)" for i
    using inside_page(1) [OF _ that] unfolding drop_22 by simp
  consider "\<not> bit ?pde 0" | "bit ?pde 0" "bit ?pde 7" | "bit ?pde 0" "\<not> bit ?pde 7" "\<not> bit ?pte 0" | "bit ?pde 0" "\<not> bit ?pde 7" "bit ?pte 0" by blast
  then show ?thesis
  proof cases
    case 2
    then have "pa = (?pde AND NOT 0x3FFFFF) + take_bit 22 va" "sz = 0x400000 - take_bit 22 va"
      using assms by (simp_all add: phys_addr_lookup_def Let_def and_pow page_masks)
    with 2 rest_of_page(3,4) [of va] inside_page [of 22 _ va] show ?thesis by (simp add: x86_translate_def Let_def page_masks add.assoc)
  next
    case 4
    then have "pa = (?pte AND 0xFFFFF000) + take_bit 12 va" "sz = 0x1000 - take_bit 12 va"
      using assms by (simp_all add: phys_addr_lookup_def Let_def and_pow page_masks)
    with 4 rest_of_page(1,2) [of va] inside_page [of 12 _ va] s show ?thesis by (simp add: x86_translate_def Let_def page_masks add.assoc)
  qed (use assms in \<open>simp_all add: phys_addr_lookup_def x86_translate_def Let_def and_pow\<close>)
qed

section \<open>Bytes read and written\<close>

lemma peek_poke: "peek (poke a v M) b = (if a = b then v else peek M b)"
proof (cases "word_addr a = word_addr b")
  case False
  then show ?thesis by (auto simp: peek_def poke_def)
next
  case True
  have split: "x = (x AND 0xFFFFFFFC) OR (x AND 3)" for x :: u32
  proof -
    have "(0xFFFFFFFC :: u32) = NOT 3" by simp
    then show ?thesis by (metis bit.conj_disj_distrib bit.disj_cancel_left bit.conj_one_right)
  qed
  have m: "(3 :: u32) = mask 2" "(0xFF :: u32) = mask 8" by (simp_all add: mask_eq_exp_minus_1)
  have lt: "unat (x AND 3) < 4" for x :: u32
    using take_bit_nat_less_exp [of 2 "unat x"] unfolding m take_bit_eq_mask [symmetric] unsigned_take_bit_eq by simp
  have ab: "a = b \<longleftrightarrow> unat (a AND 3) = unat (b AND 3)" using split [of a] split [of b] True by (metis word_unat_eq_iff)
  let ?i = "unat (a AND 3)" and ?j = "unat (b AND 3)" and ?w = "M (word_addr b)"
  have "bit (peek (poke a v M) b) n = bit (if a = b then v else peek M b) n" if "n < 8" for n
  proof (cases "?i = ?j")
    case eq: True
    have "bit (peek (poke a v M) b) n \<longleftrightarrow> bit v n"
      using True eq that lt [of b] by (simp add: peek_def poke_def m(2)) (auto simp: bit_simps)
    with eq ab show ?thesis by simp
  next
    case ne: False
    then have o: "8 * ?j + n < 8 * ?i \<or> 8 \<le> 8 * ?j + n - 8 * ?i" using that by linarith
    have "bit (peek (poke a v M) b) n \<longleftrightarrow> bit (peek M b) n"
      using True o that lt [of b] by (simp add: peek_def poke_def m(2)) (auto simp: bit_simps dest: bit_imp_le_length)
    with ne ab show ?thesis by simp
  qed
  then show ?thesis by (intro bit_word_eqI) simp
qed

lemma peek_pokes:
  assumes "length vs < 2 ^ 32"
  shows "peek (pokes a vs M) b = (if unat (b - a) < length vs then vs ! unat (b - a) else peek M b)"
  using assms
proof (induction vs arbitrary: a M)
  case (Cons v vs)
  have u: "unat (b - (a + 1)) = unat (b - a) - 1" if "b \<noteq> a"
  proof -
    from that have "b - a \<noteq> 0" by simp
    moreover have "b - (a + 1) = b - a - 1" by simp
    ultimately show ?thesis using unat_minus_one by metis
  qed
  show ?case
  proof (cases "b = a")
    case True
    have "a - (a + 1) = - 1" "unat (- 1 :: u32) = 2 ^ 32 - 1" by (simp_all add: unsigned_minus_1_eq_mask mask_eq_exp_minus_1)
    with Cons True show ?thesis by (simp add: peek_poke)
  next
    case False
    then have "unat (b - a) \<noteq> 0" by (simp add: unat_eq_zero)
    with Cons u [OF False] False show ?thesis by (auto simp: peek_poke nth_Cons split: nat.splits)
  qed
qed simp

section \<open>Blocks of virtual memory\<close>

abbreviation mapped :: "pmem \<Rightarrow> u32 \<Rightarrow> u32 \<Rightarrow> nat \<Rightarrow> bool" where
  "mapped M cr3 va n \<equiv> (\<forall>i < n. x86_translate M cr3 (va + of_nat i) \<noteq> None)"

abbreviation pa_of :: "pmem \<Rightarrow> u32 \<Rightarrow> u32 \<Rightarrow> u32" where
  "pa_of M cr3 va \<equiv> the (x86_translate M cr3 va)"

lemma upt_split: "k \<le> n \<Longrightarrow> map f [0..<n] = map f [0..<k] @ map (\<lambda>i. f (k + i)) [0..<n - k]"
  by (rule nth_equalityI) (auto simp: nth_append)

lemma copyin_ok:
  assumes "bit cr0 31" "mapped M cr3 va n"
  shows "gdb_copyin M cr0 cr3 va n = (0, map (\<lambda>i. peek M (pa_of M cr3 (va + of_nat i))) [0..<n])"
  using assms
proof (induction M cr0 cr3 va n rule: gdb_copyin.induct)
  case (1 M cr0 cr3 va n)
  show ?case
  proof (cases "n = 0")
    case True
    then show ?thesis by (simp add: gdb_copyin.simps)
  next
    case False
    obtain pa sz where l: "phys_addr_lookup M cr0 cr3 va = (pa, sz)" by fastforce
    from 1(3) False have "x86_translate M cr3 (va + of_nat 0) \<noteq> None" by blast
    then have sz: "sz \<noteq> 0" "\<forall>i < unat sz. x86_translate M cr3 (va + of_nat i) = Some (pa + of_nat i)"
      using lookup_translates [OF 1(2) l] by auto
    let ?k = "if unat sz > n then n else unat sz"
    have "x86_translate M cr3 (va + of_nat ?k + of_nat i) \<noteq> None" if "i < n - ?k" for i
      using 1(3) [rule_format, of "?k + i"] that by (simp add: add.assoc split: if_splits)
    then have IH: "gdb_copyin M cr0 cr3 (va + of_nat ?k) (n - ?k) =
        (0, map (\<lambda>i. peek M (pa_of M cr3 (va + of_nat ?k + of_nat i))) [0..<n - ?k])"
      using 1(1) [OF False l [symmetric] refl sz(1) refl 1(2)] by blast
    have "map (\<lambda>i. peek M (pa_of M cr3 (va + of_nat i))) [0..<?k] = map (\<lambda>i. peek M (pa + of_nat i)) [0..<?k]"
      using sz(2) by auto
    then show ?thesis using False l sz(1) IH upt_split [of ?k n "\<lambda>i. peek M (pa_of M cr3 (va + of_nat i))"]
      by (subst gdb_copyin.simps) (simp add: Let_def add.assoc)
  qed
qed

lemma copyin_fault:
  assumes "bit cr0 31" "\<not> mapped M cr3 va n"
  shows "fst (gdb_copyin M cr0 cr3 va n) = -1"
  using assms
proof (induction M cr0 cr3 va n rule: gdb_copyin.induct)
  case (1 M cr0 cr3 va n)
  then have n: "n \<noteq> 0" by auto
  obtain pa sz where l: "phys_addr_lookup M cr0 cr3 va = (pa, sz)" by fastforce
  show ?case
  proof (cases "sz = 0")
    case True
    with n l show ?thesis by (subst gdb_copyin.simps) simp
  next
    case False
    then have sz: "\<forall>i < unat sz. x86_translate M cr3 (va + of_nat i) = Some (pa + of_nat i)" using lookup_translates [OF 1(2) l] by auto
    let ?k = "if unat sz > n then n else unat sz"
    from 1(3) obtain i where i: "i < n" "x86_translate M cr3 (va + of_nat i) = None" by blast
    then have k: "?k \<le> i" using sz by (auto simp: not_less [symmetric] split: if_splits)
    then have "x86_translate M cr3 (va + of_nat ?k + of_nat (i - ?k)) = None" using i(2) by (simp add: add.assoc flip: of_nat_add)
    moreover have "i - ?k < n - ?k" using i(1) k by simp
    ultimately have "fst (gdb_copyin M cr0 cr3 (va + of_nat ?k) (n - ?k)) = -1"
      using 1(1) [OF n l [symmetric] refl False refl 1(2)] by blast
    with n l False show ?thesis by (subst gdb_copyin.simps) (simp add: Let_def split_def split: if_splits)
  qed
qed

text \<open>The entries that a translation reads.\<close>

definition walk :: "pmem \<Rightarrow> u32 \<Rightarrow> u32 \<Rightarrow> u32 set" where
  "walk M cr3 va =
     (let d = (cr3 AND 0xFFFFF000) + 4 * (drop_bit 22 va AND 0x3FF)
      in {d, (M d AND 0xFFFFF000) + 4 * (drop_bit 12 va AND 0x3FF)})"

lemma walk_cong:
  assumes "\<forall>a \<in> walk M cr3 va. M' a = M a"
  shows "walk M' cr3 va = walk M cr3 va" "x86_translate M' cr3 va = x86_translate M cr3 va"
  using assms by (simp_all add: walk_def x86_translate_def Let_def)

lemma pokes_other: "\<forall>i < length vs. word_addr (a + of_nat i) \<noteq> x \<Longrightarrow> pokes a vs M x = M x"
proof (induction vs arbitrary: a M)
  case (Cons v vs)
  have "word_addr (a + 1 + of_nat i) \<noteq> x" if "i < length vs" for i
    using Cons.prems [rule_format, of "Suc i"] that by (simp add: add.assoc)
  moreover have "word_addr a \<noteq> x" using Cons.prems [rule_format, of 0] by simp
  then have "poke a v M x = M x" by (simp add: poke_def)
  ultimately show ?case using Cons.IH [of "a + 1" "poke a v M"] by simp
qed simp

text \<open>A block that can be written: no two of its bytes are the same, and none is in the tables.\<close>

definition writable :: "pmem \<Rightarrow> u32 \<Rightarrow> u32 \<Rightarrow> nat \<Rightarrow> bool" where
  "writable M cr3 va n \<longleftrightarrow> mapped M cr3 va n \<and>
     (\<forall>i < n. \<forall>j < n. pa_of M cr3 (va + of_nat i) = pa_of M cr3 (va + of_nat j) \<longrightarrow> i = j) \<and>
     (\<forall>i < n. \<forall>j < n. word_addr (pa_of M cr3 (va + of_nat i)) \<notin> walk M cr3 (va + of_nat j))"

lemma writable_cong:
  assumes "writable M cr3 va n" "\<forall>j < n. walk M' cr3 (va + of_nat j) = walk M cr3 (va + of_nat j)"
    "\<forall>j < n. x86_translate M' cr3 (va + of_nat j) = x86_translate M cr3 (va + of_nat j)" "k \<le> n"
  shows "writable M' cr3 (va + of_nat k) (n - k)"
proof -
  have a: "va + of_nat k + of_nat i = va + of_nat (k + i)" "i < n - k \<Longrightarrow> k + i < n" for i using assms(4) by (simp_all add: add.assoc)
  note W = assms(1) [unfolded writable_def]
  show ?thesis unfolding writable_def a(1)
  proof (intro conjI allI impI)
    fix i assume i: "i < n - k"
    show "x86_translate M' cr3 (va + of_nat (k + i)) \<noteq> None" using W assms(3) a(2) [OF i] by metis
    fix j assume j: "j < n - k"
    note ij = a(2) [OF i] a(2) [OF j]
    show "word_addr (pa_of M' cr3 (va + of_nat (k + i))) \<notin> walk M' cr3 (va + of_nat (k + j))"
      using W assms(2,3) ij by metis
    assume "pa_of M' cr3 (va + of_nat (k + i)) = pa_of M' cr3 (va + of_nat (k + j))"
    then have "k + i = k + j" using W assms(3) ij by metis
    then show "i = j" by simp
  qed
qed

text \<open>\<open>M'\<close> is \<open>M\<close> with \<open>bs\<close> at the address \<open>va\<close> of the task: those bytes, and no other byte or word, change.\<close>

definition stored :: "pmem \<Rightarrow> u32 \<Rightarrow> u32 \<Rightarrow> u8 list \<Rightarrow> pmem \<Rightarrow> bool" where
  "stored M cr3 va bs M' \<longleftrightarrow>
     (\<forall>i < length bs. peek M' (pa_of M cr3 (va + of_nat i)) = bs ! i) \<and>
     (\<forall>x. (\<forall>i < length bs. word_addr (pa_of M cr3 (va + of_nat i)) \<noteq> x) \<longrightarrow> M' x = M x) \<and>
     (\<forall>b. (\<forall>i < length bs. pa_of M cr3 (va + of_nat i) \<noteq> b) \<longrightarrow> peek M' b = peek M b)"

text \<open>One round of the loop writes \<open>k\<close> bytes; the translations of the block do not change.\<close>

lemma pokes_translate:
  assumes W: "writable M cr3 va (length bs)" and k: "k \<le> length bs"
    and pa: "\<And>i. i < k \<Longrightarrow> pa_of M cr3 (va + of_nat i) = pa + of_nat i" and j: "j < length bs"
  shows "walk (pokes pa (take k bs) M) cr3 (va + of_nat j) = walk M cr3 (va + of_nat j)"
    "x86_translate (pokes pa (take k bs) M) cr3 (va + of_nat j) = x86_translate M cr3 (va + of_nat j)"
proof -
  have "\<forall>a \<in> walk M cr3 (va + of_nat j). pokes pa (take k bs) M a = M a"
  proof
    fix a assume a: "a \<in> walk M cr3 (va + of_nat j)"
    have "word_addr (pa + of_nat i) \<noteq> a" if "i < k" for i
      using W pa [OF that] less_le_trans [OF that k] j a unfolding writable_def by metis
    then show "pokes pa (take k bs) M a = M a" using k by (intro pokes_other) auto
  qed
  from walk_cong [OF this] show "walk (pokes pa (take k bs) M) cr3 (va + of_nat j) = walk M cr3 (va + of_nat j)"
    "x86_translate (pokes pa (take k bs) M) cr3 (va + of_nat j) = x86_translate M cr3 (va + of_nat j)" .
qed

lemma stored_round:
  assumes W: "writable M cr3 va (length bs)" and k: "k \<le> length bs" "k < 2 ^ 32"
    and pa: "\<And>i. i < k \<Longrightarrow> pa_of M cr3 (va + of_nat i) = pa + of_nat i"
    and S: "stored (pokes pa (take k bs) M) cr3 (va + of_nat k) (drop k bs) M'"
  shows "stored M cr3 va bs M'"
proof -
  let ?M = "pokes pa (take k bs) M" and ?n = "length bs"
  have S': "\<forall>i < ?n - k. peek M' (pa_of ?M cr3 (va + of_nat k + of_nat i)) = drop k bs ! i"
    "\<forall>x. (\<forall>i < ?n - k. word_addr (pa_of ?M cr3 (va + of_nat k + of_nat i)) \<noteq> x) \<longrightarrow> M' x = ?M x"
    "\<forall>b. (\<forall>i < ?n - k. pa_of ?M cr3 (va + of_nat k + of_nat i) \<noteq> b) \<longrightarrow> peek M' b = peek ?M b"
    using S unfolding stored_def length_drop by blast+
  have sh: "pa_of ?M cr3 (va + of_nat k + of_nat i) = pa_of M cr3 (va + of_nat (k + i))" if "i < ?n - k" for i
    using pokes_translate(2) [OF W k(1) pa, of "k + i"] that k(1) by (simp add: add.assoc)
  have P: "peek ?M b = (if unat (b - pa) < k then bs ! unat (b - pa) else peek M b)" for b
    using peek_pokes [of "take k bs" pa M b] k by simp
  have "peek M' (pa_of M cr3 (va + of_nat i)) = bs ! i" if i: "i < ?n" for i
  proof (cases "i < k")
    case True
    have "peek M' (pa + of_nat i) = peek ?M (pa + of_nat i)"
    proof (rule S'(3) [rule_format])
      fix j assume j: "j < ?n - k"
      have "pa_of M cr3 (va + of_nat (k + j)) = pa_of M cr3 (va + of_nat i) \<Longrightarrow> k + j = i"
        using W i j by (auto simp: writable_def less_diff_conv add.commute)
      then show "pa_of ?M cr3 (va + of_nat k + of_nat j) \<noteq> pa + of_nat i" unfolding sh [OF j] using True pa [OF True] by auto
    qed
    moreover have "unat (pa + of_nat i - pa) = i" using True k(2) by (simp add: unat_of_nat)
    ultimately show ?thesis using True pa [OF True] by (simp add: P)
  next
    case False
    with S'(1) [rule_format, of "i - k"] sh [of "i - k"] i k(1) show ?thesis by simp
  qed
  moreover have "M' x = M x" if x: "\<forall>i < ?n. word_addr (pa_of M cr3 (va + of_nat i)) \<noteq> x" for x
  proof -
    have "M' x = ?M x" by (rule S'(2) [rule_format]) (use x sh in \<open>auto simp: less_diff_conv add.commute\<close>)
    also have "\<dots> = M x" using x pa k(1) by (intro pokes_other) (metis (no_types) length_take less_le_trans min.absorb2)
    finally show ?thesis .
  qed
  moreover have "peek M' b = peek M b" if b: "\<forall>i < ?n. pa_of M cr3 (va + of_nat i) \<noteq> b" for b
  proof -
    have "peek M' b = peek ?M b" by (rule S'(3) [rule_format]) (use b sh in \<open>auto simp: less_diff_conv add.commute\<close>)
    moreover have "\<not> unat (b - pa) < k"
    proof
      assume u: "unat (b - pa) < k"
      have "pa + of_nat (unat (b - pa)) = b" by simp
      with pa [OF u] b k(1) u show False by (metis less_le_trans)
    qed
    ultimately show ?thesis by (simp add: P)
  qed
  ultimately show ?thesis by (simp add: stored_def)
qed

lemma copyout_stored:
  assumes "bit cr0 31" "writable M cr3 va (length bs)"
  shows "\<exists>M'. gdb_copyout bs cr0 cr3 va M = (0, M') \<and> stored M cr3 va bs M'"
  using assms
proof (induction bs cr0 cr3 va M rule: gdb_copyout.induct)
  case (1 bs cr0 cr3 va M)
  show ?case
  proof (cases "bs = []")
    case True
    then show ?thesis by (simp add: gdb_copyout.simps stored_def)
  next
    case False
    obtain pa sz where l: "phys_addr_lookup M cr0 cr3 va = (pa, sz)" by fastforce
    from 1(3) False have "x86_translate M cr3 (va + of_nat 0) \<noteq> None" unfolding writable_def by blast
    then have sz: "sz \<noteq> 0" "\<forall>i < unat sz. x86_translate M cr3 (va + of_nat i) = Some (pa + of_nat i)"
      using lookup_translates [OF 1(2) l] by auto
    define k where "k = (if unat sz > length bs then length bs else unat sz)"
    have k: "k \<le> length bs" "k \<le> unat sz" "k < 2 ^ 32" using unsigned_less [of sz, where 'a = nat] by (auto simp: k_def split: if_splits)
    have pa: "pa_of M cr3 (va + of_nat i) = pa + of_nat i" if "i < k" for i using sz(2) that k(2) by simp
    let ?M = "pokes pa (take k bs) M"
    have "writable ?M cr3 (va + of_nat k) (length (drop k bs))"
      using writable_cong [OF 1(3), of ?M k] pokes_translate [OF 1(3) k(1) pa] k(1) by simp
    from 1(1) [OF False l [symmetric] refl sz(1) k_def 1(2) this] obtain M' where
      M': "gdb_copyout (drop k bs) cr0 cr3 (va + of_nat k) ?M = (0, M')" "stored ?M cr3 (va + of_nat k) (drop k bs) M'" by blast
    have "gdb_copyout bs cr0 cr3 va M = (0, M')" using False l sz(1) M'(1)
      by (subst gdb_copyout.simps) (simp add: Let_def k_def [symmetric] split: if_splits)
    with stored_round [OF 1(3) k(1,3) pa M'(2)] show ?thesis by blast
  qed
qed

lemmas copyout_ok = copyout_stored [unfolded stored_def]


lemma writable_kept:
  assumes "writable M cr3 va n" "\<forall>x. (\<forall>i < n. word_addr (pa_of M cr3 (va + of_nat i)) \<noteq> x) \<longrightarrow> M' x = M x" "j < n"
  shows "x86_translate M' cr3 (va + of_nat j) = x86_translate M cr3 (va + of_nat j)"
proof (intro walk_cong(2) ballI)
  fix a assume "a \<in> walk M cr3 (va + of_nat j)"
  then have "\<forall>i < n. word_addr (pa_of M cr3 (va + of_nat i)) \<noteq> a" using assms(1,3) unfolding writable_def by blast
  with assms(2) show "M' a = M a" by blast
qed

text \<open>
  A block that \<^verbatim>\<open>gdb_copyout\<close> has written is read back by \<^verbatim>\<open>gdb_copyin\<close>, and no byte outside the
  block is changed, provided that the block does not contain the page tables that map it.
\<close>

theorem gdb_write_read:
  assumes "bit cr0 31" "writable M cr3 va (length bs)"
  shows "\<exists>M'. gdb_copyout bs cr0 cr3 va M = (0, M') \<and> gdb_copyin M' cr0 cr3 va (length bs) = (0, bs) \<and>
    (\<forall>b. (\<forall>i < length bs. the (x86_translate M cr3 (va + of_nat i)) \<noteq> b) \<longrightarrow> peek M' b = peek M b)"
proof -
  from copyout_ok [OF assms] obtain M' where M': "gdb_copyout bs cr0 cr3 va M = (0, M')"
    "\<forall>i < length bs. peek M' (pa_of M cr3 (va + of_nat i)) = bs ! i"
    "\<forall>x. (\<forall>i < length bs. word_addr (pa_of M cr3 (va + of_nat i)) \<noteq> x) \<longrightarrow> M' x = M x"
    "\<forall>b. (\<forall>i < length bs. pa_of M cr3 (va + of_nat i) \<noteq> b) \<longrightarrow> peek M' b = peek M b" by blast
  note tr = writable_kept [OF assms(2) M'(3)]
  have "mapped M' cr3 va (length bs)" using assms(2) tr by (auto simp: writable_def)
  from copyin_ok [OF assms(1) this] have "gdb_copyin M' cr0 cr3 va (length bs) = (0, bs)"
    using tr M'(2) by (auto intro!: nth_equalityI)
  with M'(1,4) show ?thesis by blast
qed

text \<open>A directory with one page of 4 MB, mapped at 0 from address \<^verbatim>\<open>0x400000\<close>.\<close>

definition ex_tables :: pmem where
  "ex_tables = (\<lambda>_. 0)(0x1000 := 0x400083)"

lemma ex_translate: "x86_translate ex_tables 0x1000 0x10 = Some 0x400010" "x86_translate ex_tables 0x1000 0x11 = Some 0x400011"
  by (simp_all add: x86_translate_def ex_tables_def)

lemma all_two: "(\<forall>i < 2. P i) \<longleftrightarrow> P 0 \<and> P (1 :: nat)"
  by (auto simp: less_2_cases_iff)


theorem gdb_write_read_witness:
  "\<exists>M'. gdb_copyout [7, 8] 0x80000000 0x1000 0x10 ex_tables = (0, M') \<and> gdb_copyin M' 0x80000000 0x1000 0x10 2 = (0, [7, 8])"
proof -
  have w: "walk ex_tables 0x1000 0x10 = {0x1000, 0x400000}" "walk ex_tables 0x1000 0x11 = {0x1000, 0x400000}"
    by (simp_all add: walk_def ex_tables_def Let_def)
  have "writable ex_tables 0x1000 0x10 2" unfolding writable_def all_two by (simp add: ex_translate w)
  then have "writable ex_tables 0x1000 0x10 (length [7, 8 :: u8])" by (simp add: numeral_2_eq_2)
  from gdb_write_read [OF _ this, of "0x80000000"] show ?thesis by (auto simp: numeral_2_eq_2)
qed

end
