(* ===== verification/Gdb_Serial.thy ===== *)
theory Gdb_Serial
  imports Gdb_Memory Printf
begin

unbundle bit_operations_syntax

text \<open>
  The conversation with the remote debugger (\<^verbatim>\<open>gdb_serial_converse\<close> of \<^verbatim>\<open>kernel/gdb_serial.c\<close>): one
  definition for each command of the \<^verbatim>\<open>switch\<close>, and the loop.
\<close>

section \<open>State\<close>

record gdb_state =
  r_eax :: u32
  r_ecx :: u32
  r_edx :: u32
  r_ebx :: u32
  r_esp :: u32
  r_ebp :: u32
  r_esi :: u32
  r_edi :: u32
  r_eip :: u32
  r_eflags :: u32
  r_cs :: u32
  r_ss :: u32
  r_ds :: u32
  r_es :: u32
  r_fs :: u32
  r_gs :: u32

record gdb_params =
  thread_id :: u32
  signo :: u8
  regs :: gdb_state
  regs_changed :: bool

text \<open>A callback gets the parameters and a thread; it may change the parameters.\<close>

record gdb_callbacks =
  thread_alive :: "(gdb_params \<Rightarrow> u32 \<Rightarrow> int \<times> gdb_params) option"
  thread_switch :: "(gdb_params \<Rightarrow> u32 \<Rightarrow> int \<times> gdb_params) option"

datatype gdb_action = GDB_MORE | GDB_CONT | GDB_RUN | GDB_KILL | GDB_DETACH

text \<open>
  \<open>rx\<close> are the bytes that will arrive on the serial line, \<open>tx\<close> those that were sent. \<open>inbuf_addr\<close> is
  the address of the buffer on the stack, \<open>gmem\<close> the physical memory.
\<close>

record gdb =
  params :: gdb_params
  inbuf :: "u8 list"
  inbuf_addr :: u32
  connected :: bool
  gdb_serial_debug :: bool
  client_cr0 :: u32
  client_cr3 :: u32
  gmem :: pmem
  rx :: "u8 list"
  tx :: "u8 list"

section \<open>Registers as bytes\<close>

definition le_bytes :: "u32 \<Rightarrow> u8 list" where
  "le_bytes w = [ucast w, ucast (drop_bit 8 w), ucast (drop_bit 16 w), ucast (drop_bit 24 w)]"

definition of_le :: "u8 list \<Rightarrow> u32" where
  "of_le b = ucast (b ! 0) OR push_bit 8 (ucast (b ! 1)) OR push_bit 16 (ucast (b ! 2)) OR push_bit 24 (ucast (b ! 3))"

definition regs_words :: "gdb_state \<Rightarrow> u32 list" where
  "regs_words r = [r_eax r, r_ecx r, r_edx r, r_ebx r, r_esp r, r_ebp r, r_esi r, r_edi r,
     r_eip r, r_eflags r, r_cs r, r_ss r, r_ds r, r_es r, r_fs r, r_gs r]"

definition words_regs :: "u32 list \<Rightarrow> gdb_state" where
  "words_regs w = \<lparr>r_eax = w ! 0, r_ecx = w ! 1, r_edx = w ! 2, r_ebx = w ! 3, r_esp = w ! 4, r_ebp = w ! 5,
     r_esi = w ! 6, r_edi = w ! 7, r_eip = w ! 8, r_eflags = w ! 9, r_cs = w ! 10, r_ss = w ! 11,
     r_ds = w ! 12, r_es = w ! 13, r_fs = w ! 14, r_gs = w ! 15\<rparr>"

definition regs_bytes :: "gdb_state \<Rightarrow> u8 list" where
  "regs_bytes r = concat (map le_bytes (regs_words r))"

definition bytes_regs :: "u8 list \<Rightarrow> gdb_state" where
  "bytes_regs b = words_regs (map (\<lambda>i. of_le (drop (4 * i) b)) [0..<16])"

text \<open>The bytes \<open>out\<close> stored at offset \<open>k\<close> of a block.\<close>

definition overwrite :: "nat \<Rightarrow> u8 list \<Rightarrow> u8 list \<Rightarrow> u8 list" where
  "overwrite k out b = take k b @ out @ drop (k + length out) b"

abbreviation upd_params :: "(gdb_params \<Rightarrow> gdb_params) \<Rightarrow> gdb \<Rightarrow> gdb" where
  "upd_params f \<equiv> params_update f"

section \<open>Replies\<close>

datatype reply = Ok | Err u8 | Unknown | Frags "outfrag list" | Silent

definition lit :: "string \<Rightarrow> outfrag" where
  "lit s = \<lparr>fdata = map of_char s @ [0], flen = 0, hexify = False\<rparr>"

definition hexbyte :: "u8 \<Rightarrow> outfrag" where
  "hexbyte c = \<lparr>fdata = [c], flen = 1, hexify = True\<rparr>"

definition putpacket :: "outfrag list \<Rightarrow> gdb \<Rightarrow> gdb_stop + gdb" where
  "putpacket frags g = bindE (putfrags frags (rx g) (tx g)) (\<lambda>(i, t). Inr (g\<lparr>rx := i, tx := t\<rparr>))"

definition answer :: "reply \<Rightarrow> gdb \<Rightarrow> gdb_stop + gdb" where
  "answer r g = (case r of
      Ok \<Rightarrow> putpacket [lit ''OK''] g
    | Err errchar \<Rightarrow> putpacket [lit ''E'', hexbyte errchar] g
    | Unknown \<Rightarrow> putpacket [lit ''''] g
    | Frags frags \<Rightarrow> putpacket frags g
    | Silent \<Rightarrow> Inr g)"

section \<open>Commands\<close>

definition chars :: "u8 list \<Rightarrow> string" where
  "chars xs = map (\<lambda>c. char_of (unat c)) xs"

text \<open>\<^verbatim>\<open>strtoul(&inbuf[o], &ptr, 16)\<close>: the number, and \<open>ptr\<close> as an index of the buffer.\<close>

definition number_at :: "gdb \<Rightarrow> nat \<Rightarrow> u32 \<times> nat" where
  "number_at g k =
     (let (v, rest) = strtoul (chars (drop k (inbuf g))) 16 in (v, length (inbuf g) - length rest))"

definition signed_at :: "gdb \<Rightarrow> nat \<Rightarrow> u32 \<times> nat" where
  "signed_at g k =
     (let (v, rest) = strtol (chars (drop k (inbuf g))) 16 in (of_int v, length (inbuf g) - length rest))"

type_synonym outcome = "gdb_stop + (reply \<times> gdb_action \<times> gdb)"

definition cmd_H :: "gdb_callbacks option \<Rightarrow> gdb \<Rightarrow> outcome" where
  "cmd_H cb g =
     (let (th, endth) = signed_at g 2 in
      if endth = 2 then Inr (Err 4, GDB_MORE, g)
      else case Option.bind cb thread_switch of
        None \<Rightarrow> Inr (Unknown, GDB_MORE, g)
      | Some switch \<Rightarrow>
          if th \<noteq> -1 \<and> th \<noteq> 0 \<and> th \<noteq> thread_id (params g) then
            let (r, p) = switch (params g) th; errchar = of_int r; g = g\<lparr>params := p\<rparr> in
            if errchar \<noteq> 0 then Inr (Err errchar, GDB_MORE, g)
            else Inr (Ok, GDB_MORE, g\<lparr>params := p\<lparr>thread_id := th, regs_changed := False\<rparr>\<rparr>)
          else Inr (Ok, GDB_MORE, g))"

definition cmd_T :: "gdb_callbacks option \<Rightarrow> gdb \<Rightarrow> outcome" where
  "cmd_T cb g =
     (let (th, endth) = signed_at g 1 in
      if endth = 1 then Inr (Err 1, GDB_MORE, g)
      else case Option.bind cb thread_alive of
        None \<Rightarrow> Inr (Unknown, GDB_MORE, g)
      | Some alive \<Rightarrow>
          let (r, p) = alive (params g) th; errchar = of_int r; g = g\<lparr>params := p\<rparr> in
          Inr (if errchar \<noteq> 0 then Err errchar else Ok, GDB_MORE, g))"

definition cmd_g :: "gdb \<Rightarrow> outcome" where
  "cmd_g g = Inr (Frags [\<lparr>fdata = regs_bytes (regs (params g)), flen = 64, hexify = True\<rparr>], GDB_MORE, g)"

definition cmd_G :: "gdb \<Rightarrow> outcome" where
  "cmd_G g =
     (let (r, out) = hex2bin (drop 1 (inbuf g)) 64;
          g = upd_params (\<lambda>p. p\<lparr>regs := bytes_regs (overwrite 0 out (regs_bytes (regs p)))\<rparr>) g in
      if r \<noteq> 0 then Inr (Err 4, GDB_MORE, g)
      else Inr (Ok, GDB_MORE, upd_params (regs_changed_update (\<lambda>_. True)) g))"

text \<open>The check \<^verbatim>\<open>(reg + 1) * 4 > 64\<close> is made on 32 bits; behind it a store can miss the registers.\<close>

definition cmd_P :: "gdb \<Rightarrow> outcome" where
  "cmd_P g =
     (let (reg, eqp) = number_at g 1 in
      if eqp = 1 \<or> at (inbuf g) eqp \<noteq> 0x3D then Inr (Err 4, GDB_MORE, g)
      else if reg = 0x29 then Inr (Ok, GDB_MORE, g)
      else if (reg + 1) * 4 > 64 then Inr (Err 4, GDB_MORE, g)
      else
        let (r, out) = hex2bin (drop (eqp + 1) (inbuf g)) 4 in
        if out \<noteq> [] \<and> reg \<ge> 16 then Inl Overrun
        else
          let g = upd_params (\<lambda>p. p\<lparr>regs := bytes_regs (overwrite (4 * unat reg) out (regs_bytes (regs p)))\<rparr>) g in
          if r \<noteq> 0 then Inr (Err 4, GDB_MORE, g)
          else Inr (Ok, GDB_MORE, upd_params (regs_changed_update (\<lambda>_. True)) g))"

text \<open>\<^verbatim>\<open>len*2 > BUFMAX\<close> is computed on 32 bits too.\<close>

definition cmd_m :: "gdb \<Rightarrow> outcome" where
  "cmd_m g =
     (let (addr, ptr) = number_at g 1 in
      if ptr = 1 \<or> at (inbuf g) ptr \<noteq> 0x2C then Inr (Err 2, GDB_MORE, g)
      else
        let ptr = ptr + 1; (len, ptr2) = number_at g ptr in
        if ptr2 = ptr \<or> len * 2 > 400 then Inr (Err 2, GDB_MORE, g)
        else
          let (r, out) = gdb_copyin (gmem g) (client_cr0 g) (client_cr3 g) addr (unat len) in
          if length out > length (inbuf g) then Inl Overrun
          else
            let g = g\<lparr>inbuf := overwrite 0 out (inbuf g)\<rparr> in
            if r \<noteq> 0 then Inr (Err 3, GDB_MORE, g)
            else Inr (Frags [\<lparr>fdata = inbuf g, flen = unat len, hexify = True\<rparr>], GDB_MORE, g))"

text \<open>
  The start of \<^verbatim>\<open>M\<close> and \<^verbatim>\<open>X\<close>: the address, the length and the index of the data. Pointers wrap
  around at 32 bits.
\<close>

definition write_args :: "gdb \<Rightarrow> u32 \<Rightarrow> (u32 \<times> u32 \<times> nat) option" where
  "write_args g scale =
     (let (addr, ptr) = number_at g 1 in
      if ptr = 1 \<or> at (inbuf g) ptr \<noteq> 0x2C then None
      else
        let ptr = ptr + 1; (len, ptr2) = number_at g ptr in
        if ptr2 = ptr \<or> at (inbuf g) ptr2 \<noteq> 0x3A then None
        else
          let ptr2 = ptr2 + 1 in
          if inbuf_addr g + of_nat ptr2 + len * scale > inbuf_addr g + 400 then None else Some (addr, len, ptr2))"

text \<open>The array \<^verbatim>\<open>outbuf\<close> is on the stack, which has no room for one that the buffer cannot hold in digits.\<close>

definition cmd_M :: "gdb \<Rightarrow> outcome" where
  "cmd_M g =
     (case write_args g 2 of
        None \<Rightarrow> Inr (Err 2, GDB_MORE, g)
      | Some (addr, len, ptr2) \<Rightarrow>
          if unat len > BUFMAX then Inl Overrun
          else
            let (r, outbuf) = hex2bin (drop ptr2 (inbuf g)) (unat len) in
            if r \<noteq> 0 then Inr (Err 2, GDB_MORE, g)
            else
              let (r, M) = gdb_copyout outbuf (client_cr0 g) (client_cr3 g) addr (gmem g); g = g\<lparr>gmem := M\<rparr> in
              Inr (if r \<noteq> 0 then Err 3 else Ok, GDB_MORE, g))"

text \<open>The bytes between \<open>in\<close> and \<open>end\<close>, with the escapes undone; \<open>False\<close> if an escape is cut off.\<close>

fun unescape :: "u8 list \<Rightarrow> bool \<times> u8 list" where
  "unescape [] = (True, [])"
| "unescape [c] = (if c = 0x7D then (False, []) else (True, [c]))"
| "unescape (c # d # cs) =
     (if c = 0x7D then (let (r, out) = unescape cs in (r, (d XOR 0x20) # out))
      else (let (r, out) = unescape (d # cs) in (r, c # out)))"

definition cmd_X :: "gdb \<Rightarrow> outcome" where
  "cmd_X g =
     (case write_args g 1 of
        None \<Rightarrow> Inr (Err 2, GDB_MORE, g)
      | Some (addr, len, ptr2) \<Rightarrow>
          let inp = inbuf_addr g + of_nat ptr2;
              data = (if inp < inp + len then take (unat len) (drop ptr2 (inbuf g)) else []);
              (r, out) = unescape data;
              g = g\<lparr>inbuf := overwrite 0 out (inbuf g)\<rparr> in
          if \<not> r then Inr (Err 2, GDB_MORE, g)
          else
            let (r, M) = gdb_copyout out (client_cr0 g) (client_cr3 g) addr (gmem g); g = g\<lparr>gmem := M\<rparr> in
            Inr (if r \<noteq> 0 then Err 3 else Ok, GDB_MORE, g))"

definition gdb_set_trace_flag :: "bool \<Rightarrow> gdb_state \<Rightarrow> gdb_state" where
  "gdb_set_trace_flag trace_enable st =
     (if trace_enable then st\<lparr>r_eflags := r_eflags st OR 0x100\<rparr> else st\<lparr>r_eflags := r_eflags st AND NOT 0x100\<rparr>)"

text \<open>What \<^verbatim>\<open>c\<close>, \<^verbatim>\<open>s\<close>, \<^verbatim>\<open>C\<close> and \<^verbatim>\<open>S\<close> share: the address to go on at, if one is given from index \<open>k\<close> on.\<close>

definition resume_at :: "nat \<Rightarrow> bool \<Rightarrow> u8 \<Rightarrow> gdb \<Rightarrow> outcome" where
  "resume_at k step sig g =
     (let (new_eip, ptr) = number_at g k;
          p = params g;
          p = (if ptr > k \<and> new_eip \<noteq> r_eip (regs p)
               then p\<lparr>regs := (regs p)\<lparr>r_eip := new_eip\<rparr>, regs_changed := True\<rparr> else p);
          p = p\<lparr>regs := gdb_set_trace_flag step (regs p), signo := sig\<rparr>
      in Inr (Silent, GDB_CONT, g\<lparr>params := p\<rparr>))"

definition cmd_c :: "gdb \<Rightarrow> outcome" where
  "cmd_c g = resume_at 1 (at (inbuf g) 0 = 0x73) 0 g"

definition cmd_C :: "gdb \<Rightarrow> outcome" where
  "cmd_C g =
     (let nsig = push_bit 4 (hex (at (inbuf g) 1)) OR hex (at (inbuf g) 2) in
      if nsig \<le> 0 \<or> nsig \<ge> 32 then Inr (Err 5, GDB_MORE, g)
      else resume_at 3 (at (inbuf g) 0 = 0x53) (of_int nsig) g)"

text \<open>The digits of a thread number, the last one first.\<close>

function tid_loop :: "u32 \<Rightarrow> u8 list" where
  "tid_loop x = hexchars ! unat (x AND 0xF) # (if drop_bit 4 x = 0 then [] else tid_loop (drop_bit 4 x))"
  by pat_completeness auto
termination
proof (relation "measure unat", goal_cases)
  case (2 x)
  then have "unat x \<noteq> 0" by (auto simp: unat_eq_zero)
  moreover have "unat (drop_bit 4 x) = unat x div 16" by (subst unat_drop_bit_eq) (simp add: drop_bit_eq_div)
  ultimately show ?case by simp
qed simp

declare tid_loop.simps [simp del]

definition report :: "gdb_callbacks option \<Rightarrow> gdb \<Rightarrow> outcome" where
  "report cb g =
     (let p = params g in
      if Option.bind cb thread_switch \<noteq> None \<and> thread_id p \<noteq> 0 \<and> thread_id p \<noteq> -1 then
        let g = g\<lparr>inbuf := overwrite 0 (map of_char ''thread:'' @ rev (tid_loop (thread_id p)) @ [0x3B, 0]) (inbuf g)\<rparr>
        in Inr (Frags [lit ''T'', hexbyte (signo p), \<lparr>fdata = inbuf g, flen = 0, hexify = False\<rparr>], GDB_MORE, g)
      else Inr (Frags [lit ''S'', hexbyte (signo p)], GDB_MORE, g))"

section \<open>The conversation\<close>

definition gdb_dispatch :: "gdb_callbacks option \<Rightarrow> gdb \<Rightarrow> outcome" where
  "gdb_dispatch cb g =
     (let c = at (inbuf g) 0 in
      if c = of_char (CHR ''H'') then cmd_H cb g
      else if c = of_char (CHR ''T'') then cmd_T cb g
      else if c = of_char (CHR ''g'') then cmd_g g
      else if c = of_char (CHR ''G'') then cmd_G g
      else if c = of_char (CHR ''P'') then cmd_P g
      else if c = of_char (CHR ''m'') then cmd_m g
      else if c = of_char (CHR ''M'') then cmd_M g
      else if c = of_char (CHR ''X'') then cmd_X g
      else if c = of_char (CHR ''c'') \<or> c = of_char (CHR ''s'') then cmd_c g
      else if c = of_char (CHR ''C'') \<or> c = of_char (CHR ''S'') then cmd_C g
      else if c = of_char (CHR ''?'') then report cb g
      else if c = of_char (CHR ''D'') then Inr (Ok, GDB_DETACH, g\<lparr>connected := False\<rparr>)
      else if c = of_char (CHR ''R'') then Inr (Silent, GDB_RUN, g\<lparr>connected := False\<rparr>)
      else if c = of_char (CHR ''k'') then Inr (Silent, GDB_KILL, g\<lparr>connected := False\<rparr>)
      else if c = of_char (CHR ''d'') then Inr (Ok, GDB_MORE, g\<lparr>gdb_serial_debug := \<not> gdb_serial_debug g\<rparr>)
      else if c = of_char (CHR ''!'') then Inr (Ok, GDB_MORE, g)
      else Inr (Unknown, GDB_MORE, g))"

text \<open>The end of a round: the reply is sent.\<close>

definition reply_to :: "outcome \<Rightarrow> gdb_stop + (gdb_action \<times> gdb)" where
  "reply_to r = bindE r (\<lambda>(rep, act, g). bindE (answer rep g) (\<lambda>g. Inr (act, g)))"

definition gdb_command :: "gdb_callbacks option \<Rightarrow> gdb \<Rightarrow> gdb_stop + (gdb_action \<times> gdb)" where
  "gdb_command cb g = reply_to (gdb_dispatch cb (g\<lparr>connected := True\<rparr>))"

text \<open>No command puts bytes back on the line.\<close>

lemma putfrags_shorter: "putfrags frags inp out = Inr (inp', out') \<Longrightarrow> length inp' \<le> length inp"
  by (induction frags inp out rule: putfrags.induct) (auto split: if_splits)

lemma getpacket_shorter: "getpacket b inp out = Inr (b', inp', out') \<Longrightarrow> length inp' < length inp"
proof (induction inp arbitrary: b out rule: measure_induct_rule [of length])
  case (less inp)
  obtain inp1 where s: "skip_to_start inp = Some inp1"
    using less.prems by (subst (asm) getpacket.simps) (auto split: option.splits)
  obtain b1 k c ch inp2 where r: "read_data BUFMAX b 0 0x24 inp1 = Some (b1, k, c, ch, inp2)"
    using less.prems s by (subst (asm) getpacket.simps) (auto split: option.splits)
  have l: "length inp2 < length inp" using skip_shorter [OF s] read_shorter [OF r] by simp
  have IH: "getpacket x ys o' = Inr (b', inp', out') \<Longrightarrow> length ys \<le> length inp2 \<Longrightarrow> length inp' < length inp" for x ys o'
    using less.IH [of ys x o'] l by simp
  from less.prems s r show ?case using l IH
    by (subst (asm) getpacket.simps) (auto simp: Let_def split: if_splits list.splits)
qed

lemma cmd_rx:
  "cmd_H cb g = Inr (rep, act, g') \<Longrightarrow> rx g' = rx g" "cmd_T cb g = Inr (rep, act, g') \<Longrightarrow> rx g' = rx g"
  "cmd_g g = Inr (rep, act, g') \<Longrightarrow> rx g' = rx g" "cmd_G g = Inr (rep, act, g') \<Longrightarrow> rx g' = rx g"
  "cmd_P g = Inr (rep, act, g') \<Longrightarrow> rx g' = rx g" "cmd_m g = Inr (rep, act, g') \<Longrightarrow> rx g' = rx g"
  "cmd_M g = Inr (rep, act, g') \<Longrightarrow> rx g' = rx g" "cmd_X g = Inr (rep, act, g') \<Longrightarrow> rx g' = rx g"
  "resume_at k t v g = Inr (rep, act, g') \<Longrightarrow> rx g' = rx g" "report cb g = Inr (rep, act, g') \<Longrightarrow> rx g' = rx g"
  by (auto simp: cmd_H_def cmd_T_def cmd_g_def cmd_G_def cmd_P_def cmd_m_def cmd_M_def cmd_X_def resume_at_def report_def Let_def
      split: if_splits option.splits prod.splits)

lemma dispatch_rx: "gdb_dispatch cb g = Inr (rep, act, g') \<Longrightarrow> rx g' = rx g"
  by (auto simp: gdb_dispatch_def cmd_c_def cmd_C_def Let_def dest: cmd_rx split: if_splits)

lemma answer_rx: "answer rep g = Inr g' \<Longrightarrow> length (rx g') \<le> length (rx g)"
  by (auto simp: answer_def putpacket_def dest: putfrags_shorter split: reply.splits)

lemma command_rx: "gdb_command cb g = Inr (act, g') \<Longrightarrow> length (rx g') \<le> length (rx g)"
  by (auto simp: gdb_command_def reply_to_def dest!: dispatch_rx answer_rx)

function converse_loop :: "gdb_callbacks option \<Rightarrow> gdb \<Rightarrow> gdb_stop + (gdb_action \<times> gdb)" where
  "converse_loop cb g =
     bindE (getpacket (inbuf g) (rx g) (tx g)) (\<lambda>(b, i, t).
     bindE (gdb_command cb (g\<lparr>inbuf := b, rx := i, tx := t\<rparr>)) (\<lambda>(act, g).
       if act = GDB_MORE then converse_loop cb g else Inr (act, g)))"
  by pat_completeness auto
termination
  by (relation "measure (\<lambda>(cb, g). length (rx g))") (auto dest!: getpacket_shorter command_rx)

declare converse_loop.simps [simp del]

definition gdb_serial_converse :: "gdb_callbacks option \<Rightarrow> gdb \<Rightarrow> gdb_stop + (gdb_action \<times> gdb)" where
  "gdb_serial_converse cb g =
     bindE (reply_to (report cb (upd_params (regs_changed_update (\<lambda>_. False)) g))) (\<lambda>(act, g). converse_loop cb g)"

end
