(* ===== verification/Gdb_Props.thy ===== *)
theory Gdb_Props
  imports Gdb_Serial
begin

unbundle bit_operations_syntax

text \<open>
  What the commands of the debugger do: writing memory and reading it back, writing and reading
  registers, and what the checks of the lengths miss.
\<close>

section \<open>Numbers in commands\<close>

lemma of_char_unat: "unat (of_char c :: u8) = of_char c"
proof -
  have "(of_char c :: u8) = of_nat (of_char c)" by (simp add: of_nat_of_char)
  moreover have "(of_char c :: nat) < 256" by simp
  ultimately show ?thesis by (simp add: unat_of_nat)
qed

definition hexnum :: "nat \<Rightarrow> u8 list" where
  "hexnum n = map of_char (num_str 16 n)"

lemma chars_hexnum: "chars (hexnum n @ xs) = num_str 16 n @ chars xs"
  by (simp add: chars_def hexnum_def of_char_unat comp_def)

lemma num_str_digs: "c \<in> set (num_str 16 n) \<Longrightarrow> \<exists>d < 16. c = digs ! d"
proof (induction "16 :: nat" n rule: num_str.induct)
  case (1 n)
  then show ?case by (subst (asm) (2) num_str.simps) (auto split: if_splits, metis mod_less_divisor zero_less_numeral)
qed

lemma digs_no_x: "d < 16 \<Longrightarrow> digs ! d \<noteq> CHR ''x'' \<and> digs ! d \<noteq> CHR ''X''"
proof -
  have "\<forall>d \<in> set [0..<16]. digs ! d \<noteq> CHR ''x'' \<and> digs ! d \<noteq> CHR ''X''" by (simp add: digs_def upt_rec)
  then show "d < 16 \<Longrightarrow> digs ! d \<noteq> CHR ''x'' \<and> digs ! d \<noteq> CHR ''X''" by simp
qed

lemma strtoul_loop_num_str: "strtoul_loop 16 v (num_str 16 n @ rest) = strtoul_loop 16 (v * 16 ^ length (num_str 16 n) + of_nat n) rest"
proof (induction "16 :: nat" n arbitrary: v rest rule: num_str.induct)
  case (1 n)
  have step: "strtoul_loop 16 w (digs ! d # rest) = strtoul_loop 16 (w * 16 + of_nat d) rest" if "d < 16" for w d rest
    using digs_digit(3) [OF that, of 16] that by simp
  show ?case
  proof (cases "n < 16")
    case True
    with step show ?thesis by (subst (1 2) num_str.simps) simp
  next
    case False
    let ?m = "num_str 16 (n div 16)"
    have e: "num_str 16 n = ?m @ [digs ! (n mod 16)]" using False by (subst num_str.simps) simp
    have "(of_nat (n div 16) * 16 + of_nat (n mod 16) :: u32) = of_nat n"
      by (metis div_mult_mod_eq of_nat_add of_nat_mult of_nat_numeral)
    then have a: "(v * 16 ^ length ?m + of_nat (n div 16)) * 16 + of_nat (n mod 16) = v * 16 ^ length (?m @ [digs ! (n mod 16)]) + of_nat n"
      by (simp add: distrib_right flip: add.assoc mult.assoc)
    have "strtoul_loop 16 v (?m @ digs ! (n mod 16) # rest) = strtoul_loop 16 (v * 16 ^ length ?m + of_nat (n div 16)) (digs ! (n mod 16) # rest)"
      using 1 False by simp
    then show ?thesis unfolding e a [symmetric] using step [of "n mod 16"] by (simp only: append_assoc append_Cons append_Nil)
  qed
qed

lemma strtoul_num_str:
  assumes "digit_in 16 c = None" "c \<noteq> CHR ''x''" "c \<noteq> CHR ''X''"
  shows "strtoul (num_str 16 n @ c # rest) 16 = (of_nat n, c # rest)"
proof -
  obtain d ds where n: "num_str 16 n = d # ds" using num_str_nonempty by (cases "num_str 16 n") auto
  have d: "\<not> isspace d" using num_str_hd [of 16 n] n by simp
  have "hd (ds @ c # rest) \<noteq> CHR ''x'' \<and> hd (ds @ c # rest) \<noteq> CHR ''X''"
    using assms(2,3) num_str_digs [of "hd ds" n] digs_no_x n by (cases ds) auto
  then have "base_prefix 16 (d # ds @ c # rest) = (16, d # ds @ c # rest)"
    by (cases "ds @ c # rest") (auto simp: base_prefix_def)
  with d strtoul_loop_num_str [of 0 n "c # rest"] assms(1) show ?thesis by (simp add: strtoul_def n del: strtoul_loop.simps(2)) (simp add: n)
qed

lemma number_at_hexnum:
  assumes "inbuf g = pre @ hexnum n @ c # rest" "digit_in 16 (char_of (unat c)) = None" "char_of (unat c) \<noteq> CHR ''x''" "char_of (unat c) \<noteq> CHR ''X''"
  shows "number_at g (length pre) = (of_nat n, length pre + length (hexnum n))"
proof -
  have "chars (drop (length pre) (inbuf g)) = num_str 16 n @ char_of (unat c) # chars rest"
    using assms(1) chars_hexnum by (simp add: chars_def)
  with strtoul_num_str [OF assms(2-4)] show ?thesis using assms(1) by (simp add: number_at_def chars_def)
qed

lemma delimiters:
  assumes "c \<in> {0x2C, 0x3A, 0}"
  shows "digit_in 16 (char_of (unat (c :: u8))) = None \<and> char_of (unat c) \<noteq> CHR ''x'' \<and> char_of (unat c) \<noteq> CHR ''X''"
proof -
  have "char_of (unat (0x2C :: u8)) = CHR '',''" "char_of (unat (0x3A :: u8)) = CHR '':''" "char_of (unat (0 :: u8)) = CHR 0x00"
    by (simp_all add: char_of_eq_iff)
  with assms show ?thesis by (auto simp: digit_in_def schar_def)
qed

lemma at_append: "at (xs @ c # ys) (length xs) = c"
  by (simp add: at_def)

section \<open>Writing and reading memory\<close>

text \<open>The commands \<^verbatim>\<open>Maddr,len:digits\<close> and \<^verbatim>\<open>maddr,len\<close>.\<close>

definition write_cmd :: "u32 \<Rightarrow> u8 list \<Rightarrow> u8 list" where
  "write_cmd va bs = 0x4D # hexnum (unat va) @ 0x2C # hexnum (length bs) @ 0x3A # concat (map digits bs)"

definition read_cmd :: "u32 \<Rightarrow> nat \<Rightarrow> u8 list" where
  "read_cmd va n = 0x6D # hexnum (unat va) @ 0x2C # hexnum n"

lemma numbers_read:
  assumes "inbuf g = k # hexnum (unat va) @ 0x2C # hexnum n @ c # rest" "c \<in> {0x3A, 0}"
  shows "number_at g 1 = (va, 1 + length (hexnum (unat va)))" "at (inbuf g) (1 + length (hexnum (unat va))) = 0x2C"
    "number_at g (2 + length (hexnum (unat va))) = (of_nat n, 2 + length (hexnum (unat va)) + length (hexnum n))"
    "at (inbuf g) (2 + length (hexnum (unat va)) + length (hexnum n)) = c"
proof -
  have d: "(0x2C :: u8) \<in> {0x2C, 0x3A, 0}" "c \<in> {0x2C, 0x3A, 0}" using assms(2) by auto
  from number_at_hexnum [of g "[k]" "unat va" "0x2C" "hexnum n @ c # rest"] assms(1) delimiters [OF d(1)]
  show "number_at g 1 = (va, 1 + length (hexnum (unat va)))" by simp
  from number_at_hexnum [of g "k # hexnum (unat va) @ [0x2C]" n c rest] assms(1) delimiters [OF d(2)]
  show "number_at g (2 + length (hexnum (unat va))) = (of_nat n, 2 + length (hexnum (unat va)) + length (hexnum n))" by simp
  from at_append [of "k # hexnum (unat va)" "0x2C" "hexnum n @ c # rest"] assms(1)
  show "at (inbuf g) (1 + length (hexnum (unat va))) = 0x2C" by simp
  from at_append [of "k # hexnum (unat va) @ 0x2C # hexnum n" c rest] assms(1)
  show "at (inbuf g) (2 + length (hexnum (unat va)) + length (hexnum n)) = c" by simp
qed

lemma hexnum_nonempty: "hexnum n \<noteq> []"
  using num_str_nonempty by (simp add: hexnum_def)

lemma digits_length: "length (concat (map digits bs)) = 2 * length bs"
  by (induction bs) (simp_all add: digits_def)

lemma cmd_M_writes:
  assumes b: "inbuf g = write_cmd va bs @ 0 # stale" "length (write_cmd va bs) < BUFMAX" "unat (inbuf_addr g) + 400 < 2 ^ 32"
    and M: "gdb_copyout bs (client_cr0 g) (client_cr3 g) va (gmem g) = (0, M)"
  shows "cmd_M g = Inr (Ok, GDB_MORE, g\<lparr>gmem := M\<rparr>)"
proof -
  let ?p = "3 + length (hexnum (unat va)) + length (hexnum (length bs))"
  have i: "inbuf g = 0x4D # hexnum (unat va) @ 0x2C # hexnum (length bs) @ 0x3A # concat (map digits bs) @ 0 # stale" using b(1) by (simp add: write_cmd_def)
  note n = numbers_read [OF i, simplified]
  have l: "?p + 2 * length bs < 400" using b(2) by (simp add: write_cmd_def digits_length)
  have u: "unat (of_nat (length bs) :: u32) = length bs" "unat (of_nat (?p + length bs * 2) :: u32) = ?p + length bs * 2" using l by (simp_all only: unat_of_nat) simp_all
  have "unat (inbuf_addr g + of_nat (?p + length bs * 2)) = unat (inbuf_addr g) + (?p + length bs * 2)"
    using u(2) l b(3) by (simp only: unat_word_ariths) simp
  moreover have "unat (inbuf_addr g + 400) = unat (inbuf_addr g) + 400" using b(3) by (simp add: unat_word_ariths)
  ultimately have "\<not> inbuf_addr g + of_nat ?p + of_nat (length bs) * 2 > inbuf_addr g + 400" using l by (simp add: word_less_nat_alt add.assoc)
  then have w: "write_args g 2 = Some (va, of_nat (length bs), ?p)"
    using n hexnum_nonempty by (simp add: write_args_def Let_def add.assoc)
  have "inbuf g = (0x4D # hexnum (unat va) @ 0x2C # hexnum (length bs) @ [0x3A]) @ concat (map digits bs) @ 0 # stale" using i by simp
  then have "drop ?p (inbuf g) = concat (map digits bs) @ 0 # stale" by (simp only: drop_append) simp
  with w u(1) l M show ?thesis by (simp add: cmd_M_def hex2bin_digits del: of_nat_add)
qed

lemma cmd_m_reads:
  assumes b: "inbuf g = read_cmd va (length bs) @ 0 # stale" "length (inbuf g) = Suc BUFMAX" "length bs \<le> 200"
    and M: "gdb_copyin (gmem g) (client_cr0 g) (client_cr3 g) va (length bs) = (0, bs)"
  shows "cmd_m g = Inr (Frags [\<lparr>fdata = overwrite 0 bs (inbuf g), flen = length bs, hexify = True\<rparr>], GDB_MORE,
    g\<lparr>inbuf := overwrite 0 bs (inbuf g)\<rparr>)"
proof -
  have i: "inbuf g = 0x6D # hexnum (unat va) @ 0x2C # hexnum (length bs) @ 0 # stale" using b(1) by (simp add: read_cmd_def)
  note n = numbers_read [OF i, simplified]
  have u: "unat (of_nat (length bs) :: u32) = length bs" "unat (of_nat (length bs) * 2 :: u32) = length bs * 2" using b(3) by (simp_all add: unat_word_ariths unat_of_nat)
  then have "\<not> (of_nat (length bs) * 2 :: u32) > 400" using b(3) by (simp add: word_less_nat_alt)
  with n hexnum_nonempty u M b(2,3) show ?thesis by (simp add: cmd_m_def Let_def)
qed

lemma read_reply:
  assumes "bs \<noteq> []" "length bs \<le> length stk"
  shows "frag_ok \<lparr>fdata = overwrite 0 bs stk, flen = length bs, hexify = True\<rparr>"
    "text_of \<lparr>fdata = overwrite 0 bs stk, flen = length bs, hexify = True\<rparr> = concat (map digits bs)"
  using assms by (simp_all add: frag_ok_def overwrite_def text_of_def frag_bytes_def frag_text_def)

text \<open>One round of the conversation: a packet is received, its command executed, the reply acknowledged.\<close>

lemma converse_step:
  assumes "length (inbuf g) = Suc BUFMAX" "inbuf g ! 2 \<noteq> 0x3A" "good_data xs" "rx g = frame_of_data xs @ 0x2B # rest"
    and d: "gdb_dispatch cb (g\<lparr>inbuf := after xs (inbuf g), rx := 0x2B # rest, tx := tx g @ [0x2B], connected := True\<rparr>) = Inr (rep, GDB_MORE, g')"
    and a: "answer rep g' = putpacket frags g'" and r: "tx g' = tx g @ [0x2B]"
  shows "converse_loop cb g = converse_loop cb (g'\<lparr>rx := rest, tx := tx g @ 0x2B # packet frags\<rparr>)"
proof -
  have "getpacket (inbuf g) (rx g) (tx g) = Inr (after xs (inbuf g), 0x2B # rest, tx g @ [0x2B])"
    using getpacket_step [OF assms(1-3), of "[]" "hexchars ! unat (drop_bit 4 (sum_list xs))" "hexchars ! unat (sum_list xs AND 0xF)" "0x2B # rest" "tx g"]
    by (simp add: assms(4) frame_of_data_def digits_def digits_value(2))
  moreover have "rx g' = 0x2B # rest" using dispatch_rx [OF d] by simp
  ultimately show ?thesis using d a r by (subst converse_loop.simps) (simp add: gdb_command_def reply_to_def putpacket_def)
qed

lemma hexnum_chars: "c \<in> set (hexnum n) \<Longrightarrow> \<exists>d < 16. c = hexchars ! d"
proof -
  assume "c \<in> set (hexnum n)"
  then obtain x where "x \<in> set (num_str 16 n)" "c = of_char x" by (auto simp: hexnum_def)
  then obtain d where "d < 16" "c = of_char (digs ! d)" using num_str_digs by blast
  moreover have "hexchars = map of_char digs" "length digs = 16" by (simp_all add: hexchars_def digs_def)
  ultimately show ?thesis by (metis nth_map)
qed

definition hexdigit :: "u8 \<Rightarrow> bool" where
  "hexdigit c \<longleftrightarrow> (\<exists>d < 16. c = hexchars ! d)"

lemma hexdigit_not: "hexdigit c \<Longrightarrow> c \<noteq> 0x23 \<and> c \<noteq> 0x7D \<and> c \<noteq> 0x3A"
proof -
  have "\<forall>d \<in> set [0..<16]. hexchars ! d \<noteq> 0x23 \<and> hexchars ! d \<noteq> 0x7D \<and> hexchars ! d \<noteq> 0x3A" by (simp add: hexchars_def upt_rec)
  then show "hexdigit c \<Longrightarrow> ?thesis" by (auto simp: hexdigit_def)
qed

lemma hexdigit_digits: "c \<in> set (digits x) \<Longrightarrow> hexdigit c" "c \<in> set (hexnum n) \<Longrightarrow> hexdigit c"
proof -
  have "unat (drop_bit 4 x :: u8) < 16" "unat (x AND 0xF :: u8) < 16"
    using unsigned_less [of x, where 'a = nat] by (simp_all add: nibble less_mult_imp_div_less)
  then show "c \<in> set (digits x) \<Longrightarrow> hexdigit c" by (auto simp: digits_def hexdigit_def)
  show "c \<in> set (hexnum n) \<Longrightarrow> hexdigit c" using hexnum_chars by (simp add: hexdigit_def)
qed

lemma good_command:
  assumes "length (k # hexnum n @ 0x2C # xs) < BUFMAX" "k \<noteq> 0x23" "k \<noteq> 0x7D" "\<forall>c \<in> set xs. hexdigit c \<or> c = 0x3A"
  shows "good_data (k # hexnum n @ 0x2C # xs)"
proof -
  let ?c = "k # hexnum n @ 0x2C # xs"
  obtain h hs where h: "hexnum n = h # hs" using hexnum_nonempty by (cases "hexnum n") auto
  have all: "c \<noteq> 0x23 \<and> c \<noteq> 0x7D" if "c \<in> set ?c" for c using that assms(2-4) hexdigit_not [of c] hexdigit_digits(2) [of c n] by auto
  have "?c ! 2 = (hs @ 0x2C # xs) ! 0" using h by simp
  then have "?c ! 2 \<noteq> 0x3A" using hexdigit_not [OF hexdigit_digits(2) [of "hs ! 0" n]] h by (cases hs) simp_all
  moreover have "last ?c \<in> set ?c" by (rule last_in_set) simp
  ultimately show ?thesis using all assms(1) unfolding good_data_def by blast
qed

lemma good_commands:
  "length (write_cmd va bs) < BUFMAX \<Longrightarrow> good_data (write_cmd va bs)" "length (read_cmd va n) < BUFMAX \<Longrightarrow> good_data (read_cmd va n)"
  unfolding write_cmd_def read_cmd_def by (rule good_command; use hexdigit_digits in auto)+

lemma packet_OK: "packet [lit ''OK''] = frame_of_data [0x4F, 0x4B]"
  by (simp add: packet_frame payload_def lit_def at_def)

text \<open>
  C22. The debugger reads back what it has written: after the packet \<^verbatim>\<open>Maddr,len:digits\<close>, which is
  answered \<^verbatim>\<open>OK\<close>, the answer to \<^verbatim>\<open>maddr,len\<close> stands for the same digits, for every block that is mapped
  and that holds none of its page tables. Each packet received is acknowledged.
\<close>

theorem gdb_memory_commands:
  assumes "length (inbuf g) = Suc BUFMAX" "inbuf g ! 2 \<noteq> 0x3A" "unat (inbuf_addr g) + 400 < 2 ^ 32"
    "bit (client_cr0 g) 31" "writable (gmem g) (client_cr3 g) va (length bs)" "bs \<noteq> []" "length (write_cmd va bs) < BUFMAX"
    "rx g = frame_of_data (write_cmd va bs) @ 0x2B # frame_of_data (read_cmd va (length bs)) @ 0x2B # rest"
  shows "\<exists>g' xs. converse_loop cb g = converse_loop cb g' \<and> rx g' = rest \<and> unrun xs = concat (map digits bs) \<and>
    tx g' = tx g @ 0x2B # frame_of_data [0x4F, 0x4B] @ 0x2B # frame_of_data xs"
proof -
  from gdb_write_read [OF assms(4,5)] obtain M where M: "gdb_copyout bs (client_cr0 g) (client_cr3 g) va (gmem g) = (0, M)"
    "gdb_copyin M (client_cr0 g) (client_cr3 g) va (length bs) = (0, bs)" by blast
  let ?W = "write_cmd va bs" and ?R = "read_cmd va (length bs)"
  have l: "length bs \<le> 200" "length ?R < BUFMAX" using assms(7) by (simp_all add: write_cmd_def read_cmd_def digits_length)
  note W = good_commands(1) [OF assms(7)] and R = good_commands(2) [OF l(2)]
  let ?r1 = "frame_of_data ?R @ 0x2B # rest"
  let ?g1 = "g\<lparr>inbuf := after ?W (inbuf g), rx := 0x2B # ?r1, tx := tx g @ [0x2B], connected := True\<rparr>"
  have "gdb_dispatch cb ?g1 = cmd_M ?g1" by (simp add: gdb_dispatch_def Let_def after_def write_cmd_def at_def)
  also have "\<dots> = Inr (Ok, GDB_MORE, ?g1\<lparr>gmem := M\<rparr>)"
    by (rule cmd_M_writes [of _ va bs]) (use assms(3,7) M(1) in \<open>simp_all add: after_def\<close>)
  finally have d1: "gdb_dispatch cb ?g1 = Inr (Ok, GDB_MORE, ?g1\<lparr>gmem := M\<rparr>)" .
  let ?g = "?g1\<lparr>gmem := M, rx := ?r1, tx := tx g @ 0x2B # packet [lit ''OK'']\<rparr>"
  have s1: "converse_loop cb g = converse_loop cb ?g"
    using converse_step [OF assms(1,2) W assms(8) d1, of "[lit ''OK'']"] by (simp add: answer_def)
  note a = after_ok [OF assms(1,2) W]
  let ?g2 = "?g\<lparr>inbuf := after ?R (inbuf ?g), rx := 0x2B # rest, tx := tx ?g @ [0x2B], connected := True\<rparr>"
  let ?f = "\<lparr>fdata = overwrite 0 bs (inbuf ?g2), flen = length bs, hexify = True\<rparr> :: outfrag"
  have a2: "length (inbuf ?g2) = Suc BUFMAX" using after_ok(1) [OF a R] by simp
  have "gdb_dispatch cb ?g2 = cmd_m ?g2" by (simp add: gdb_dispatch_def Let_def after_def read_cmd_def at_def)
  also have "\<dots> = Inr (Frags [?f], GDB_MORE, ?g2\<lparr>inbuf := overwrite 0 bs (inbuf ?g2)\<rparr>)"
    by (rule cmd_m_reads [of _ va bs]) (use l(1) M(2) a2 in \<open>simp_all add: after_def\<close>)
  finally have d2: "gdb_dispatch cb ?g2 = Inr (Frags [?f], GDB_MORE, ?g2\<lparr>inbuf := overwrite 0 bs (inbuf ?g2)\<rparr>)" .
  let ?h = "?g2\<lparr>inbuf := overwrite 0 bs (inbuf ?g2), rx := rest, tx := tx ?g @ 0x2B # packet [?f]\<rparr>"
  have s2: "converse_loop cb ?g = converse_loop cb ?h"
    using converse_step [OF _ _ R _ d2, of "[?f]"] a by (simp add: answer_def)
  have f: "list_all frag_ok [?f]" "concat (map text_of [?f]) = concat (map digits bs)"
    using read_reply [of bs "inbuf ?g2"] assms(6) l(1) a2 by simp_all
  have "unrun (payload [?f]) = concat (map digits bs)" using unrun_payload [OF f(1)] f(2) by simp
  moreover have "tx ?h = tx g @ 0x2B # frame_of_data [0x4F, 0x4B] @ 0x2B # frame_of_data (payload [?f])"
    using packet_frame [of "[?f]"] by (simp add: packet_OK)
  ultimately show ?thesis using s1 s2 by (intro exI [of _ ?h] exI [of _ "payload [?f]"]) simp
qed

text \<open>Two bytes at address \<^verbatim>\<open>0x10\<close>.\<close>

definition ex_regs :: gdb_state where
  "ex_regs = words_regs (replicate 16 0)"

definition ex_gdb :: "u8 list \<Rightarrow> gdb" where
  "ex_gdb inp =
     \<lparr>params = \<lparr>thread_id = -1, signo = 5, regs = ex_regs, regs_changed = False\<rparr>,
      inbuf = replicate 401 0, inbuf_addr = 0x160000, connected = True, gdb_serial_debug = False,
      client_cr0 = 0x80000000, client_cr3 = 0x1000, gmem = ex_tables, rx = inp, tx = []\<rparr>"

theorem gdb_memory_commands_witness:
  "\<exists>g' xs. converse_loop None (ex_gdb (frame_of_data (write_cmd 0x10 [7, 8]) @ 0x2B # frame_of_data (read_cmd 0x10 2) @ [0x2B])) = converse_loop None g' \<and>
     unrun xs = digits 7 @ digits 8 \<and> tx g' = 0x2B # frame_of_data [0x4F, 0x4B] @ 0x2B # frame_of_data xs"
proof -
  let ?g = "ex_gdb (frame_of_data (write_cmd 0x10 [7, 8]) @ 0x2B # frame_of_data (read_cmd 0x10 2) @ [0x2B])"
  have w: "walk ex_tables 0x1000 0x10 = {0x1000, 0x400000}" "walk ex_tables 0x1000 0x11 = {0x1000, 0x400000}"
    by (simp_all add: walk_def ex_tables_def Let_def)
  have "writable ex_tables 0x1000 0x10 2" unfolding writable_def all_two by (simp add: ex_translate w)
  moreover have two: "length [7, 8 :: u8] = 2" by simp
  ultimately have W: "writable (gmem ?g) (client_cr3 ?g) 0x10 (length [7, 8 :: u8])" unfolding two by (simp add: ex_gdb_def)
  have l: "length (write_cmd 0x10 [7, 8]) < BUFMAX" by (simp add: write_cmd_def digits_def hexnum_def num_str.simps)
  have i: "length (inbuf ?g) = Suc BUFMAX" "inbuf ?g ! 2 \<noteq> 0x3A" "unat (inbuf_addr ?g) + 400 < 2 ^ 32" "bit (client_cr0 ?g) 31"
    "rx ?g = frame_of_data (write_cmd 0x10 [7, 8]) @ 0x2B # frame_of_data (read_cmd 0x10 (length [7, 8 :: u8])) @ 0x2B # []" "tx ?g = []"
    unfolding two by (simp_all add: ex_gdb_def)
  from gdb_memory_commands [OF i(1-4) W _ l i(5), of None] i(6) show ?thesis by auto
qed

section \<open>Registers\<close>

lemma of_le_bytes: "of_le (le_bytes w @ xs) = w"
proof (rule bit_word_eqI)
  fix n assume "n < LENGTH(32)"
  then consider "n < 8" | "8 \<le> n" "n < 16" | "16 \<le> n" "n < 24" | "24 \<le> n" "n < 32" by fastforce
  then show "bit (of_le (le_bytes w @ xs)) n = bit w n"
    by cases (auto simp: of_le_def le_bytes_def bit_simps)
qed

lemma regs_of_bytes: "bytes_regs (regs_bytes r @ xs) = r"
proof -
  have "of_le (drop (4 * i) (regs_bytes r @ xs)) = regs_words r ! i" if "i < 16" for i
  proof -
    have d: "drop (4 * i) (concat (map le_bytes ws) @ xs) = concat (map le_bytes (drop i ws)) @ xs" if "i \<le> length ws" for ws
      using that
    proof (induction ws arbitrary: i)
      case (Cons w ws)
      have "length (le_bytes w) = 4" by (simp add: le_bytes_def)
      with Cons show ?case by (cases i) simp_all
    qed simp
    have "length (regs_words r) = 16" by (simp add: regs_words_def)
    with that d [of "regs_words r"] show ?thesis
      by (simp add: regs_bytes_def Cons_nth_drop_Suc [symmetric] of_le_bytes)
  qed
  then have "map (\<lambda>i. of_le (drop (4 * i) (regs_bytes r @ xs))) [0..<16] = regs_words r"
    by (intro nth_equalityI) (simp_all add: regs_words_def)
  then show ?thesis by (simp add: bytes_regs_def words_regs_def regs_words_def)
qed

lemma regs_bytes_length: "length (regs_bytes r) = 64"
  by (simp add: regs_bytes_def regs_words_def le_bytes_def)

text \<open>
  The command \<^verbatim>\<open>G\<close> sets all registers to the values that its digits stand for, low byte first, and
  the command \<^verbatim>\<open>g\<close> reports the registers in the same form.
\<close>

theorem gdb_registers:
  assumes "inbuf g = 0x47 # concat (map digits (regs_bytes r)) @ rest"
  shows "gdb_dispatch cb g = Inr (Ok, GDB_MORE, g\<lparr>params := (params g)\<lparr>regs := r, regs_changed := True\<rparr>\<rparr>) \<and>
    (\<forall>g'. at (inbuf g') 0 = 0x67 \<longrightarrow> (\<exists>f. gdb_dispatch cb g' = Inr (Frags [f], GDB_MORE, g') \<and>
       frag_ok f \<and> text_of f = concat (map digits (regs_bytes (regs (params g'))))))"
proof -
  have h: "hex2bin (drop 1 (inbuf g)) 64 = (0, regs_bytes r)"
    using hex2bin_digits [of "regs_bytes r" rest] by (simp add: assms regs_bytes_length)
  have "overwrite 0 (regs_bytes r) (regs_bytes r') = regs_bytes r @ []" for r' by (simp add: overwrite_def regs_bytes_length)
  then have "gdb_dispatch cb g = Inr (Ok, GDB_MORE, g\<lparr>params := (params g)\<lparr>regs := r, regs_changed := True\<rparr>\<rparr>)"
    using h regs_of_bytes [of r "[]"] by (simp add: gdb_dispatch_def Let_def at_def assms cmd_G_def)
  moreover have "\<exists>f. gdb_dispatch cb g' = Inr (Frags [f], GDB_MORE, g') \<and> frag_ok f \<and> text_of f = concat (map digits (regs_bytes (regs (params g'))))"
    if "at (inbuf g') 0 = 0x67" for g'
    using that by (simp add: gdb_dispatch_def Let_def cmd_g_def frag_ok_def text_of_def frag_bytes_def frag_text_def regs_bytes_length)
  ultimately show ?thesis by blast
qed

theorem gdb_registers_witness:
  "\<exists>g'. gdb_dispatch None ((ex_gdb [])\<lparr>inbuf := 0x47 # concat (map digits (regs_bytes (ex_regs\<lparr>r_eip := 0x40000000\<rparr>))) @ [0]\<rparr>) = Inr (Ok, GDB_MORE, g') \<and>
     r_eip (regs (params g')) = 0x40000000 \<and> regs_changed (params g')"
  using gdb_registers [of "(ex_gdb [])\<lparr>inbuf := 0x47 # concat (map digits (regs_bytes (ex_regs\<lparr>r_eip := 0x40000000\<rparr>))) @ [0]\<rparr>" "ex_regs\<lparr>r_eip := 0x40000000\<rparr>" "[0]" None]
  by simp

section \<open>What the checks miss\<close>

lemma copyin_length:
  assumes "bit cr0 31" "mapped M cr3 va k" "k \<le> n"
  shows "k \<le> length (snd (gdb_copyin M cr0 cr3 va n))"
  using assms
proof (induction n arbitrary: va k rule: less_induct)
  case (less n)
  show ?case
  proof (cases "k = 0")
    case False
    then have n: "n \<noteq> 0" using less.prems(3) by simp
    obtain pa sz where l: "phys_addr_lookup M cr0 cr3 va = (pa, sz)" by fastforce
    have "x86_translate M cr3 (va + of_nat 0) \<noteq> None" using less.prems(2) False by blast
    then have sz: "sz \<noteq> 0" using lookup_translates [OF less.prems(1) l] by auto
    define j where "j = (if unat sz > n then n else unat sz)"
    have j: "0 < j" "j \<le> n" using sz n by (auto simp: j_def unat_gt_0)
    have "x86_translate M cr3 (va + of_nat j + of_nat i) \<noteq> None" if "i < k - j" for i
      using less.prems(2) [rule_format, of "j + i"] that by (simp add: add.assoc)
    then have "k - j \<le> length (snd (gdb_copyin M cr0 cr3 (va + of_nat j) (n - j)))"
      using less.IH [of "n - j" "k - j" "va + of_nat j"] less.prems(1,3) j n by (metis diff_le_mono diff_less gr0I)
    moreover have "snd (gdb_copyin M cr0 cr3 va n) = map (\<lambda>i. peek M (pa + of_nat i)) [0..<j] @ snd (gdb_copyin M cr0 cr3 (va + of_nat j) (n - j))"
      using n l sz by (subst gdb_copyin.simps) (simp add: Let_def j_def split_def)
    ultimately show ?thesis by simp
  qed simp
qed

text \<open>
  C38. The check of the length in the command \<^verbatim>\<open>m\<close> is made on 32 bits: a request for \<^verbatim>\<open>0x80000000\<close> bytes, or
  up to 200 more, passes it, and the stub copies beyond its buffer on the stack.
\<close>

theorem gdb_length_wraps:
  assumes "inbuf g = read_cmd va n @ 0 # stale" "length (inbuf g) = Suc BUFMAX" "0x80000000 \<le> n" "n \<le> 0x800000C8"
    "bit (client_cr0 g) 31" "\<forall>i < 402. x86_translate (gmem g) (client_cr3 g) (va + of_nat i) \<noteq> None"
  shows "gdb_dispatch cb g = Inl Overrun"
proof -
  have i: "inbuf g = 0x6D # hexnum (unat va) @ 0x2C # hexnum n @ 0 # stale" using assms(1) by (simp add: read_cmd_def)
  note num = numbers_read [OF i, simplified]
  have u: "unat (of_nat n :: u32) = n" using assms(4) by (simp add: unat_of_nat)
  have "unat (of_nat n * 2 :: u32) = (n * 2) mod 4294967296" by (simp add: unat_word_ariths u)
  moreover have "(n * 2) mod 4294967296 = n * 2 - 4294967296" using assms(3,4) by (simp add: mod_if)
  ultimately have le: "\<not> (of_nat n * 2 :: u32) > 400" using assms(4) by (simp add: word_less_nat_alt)
  obtain r out where c: "gdb_copyin (gmem g) (client_cr0 g) (client_cr3 g) va n = (r, out)" by fastforce
  have "402 \<le> length out" using copyin_length [OF assms(5,6), of n] assms(3) c by simp
  with num le u c assms(2) hexnum_nonempty have "cmd_m g = Inl Overrun" by (simp add: cmd_m_def Let_def)
  moreover have "at (inbuf g) 0 = 0x6D" by (simp add: i at_def)
  ultimately show ?thesis by (simp add: gdb_dispatch_def Let_def)
qed

theorem gdb_length_wraps_witness:
  "gdb_dispatch None ((ex_gdb [])\<lparr>inbuf := read_cmd 0 0x80000000 @ 0 # replicate 389 0\<rparr>) = Inl Overrun"
proof -
  let ?g = "(ex_gdb [])\<lparr>inbuf := read_cmd 0 0x80000000 @ 0 # replicate 389 0\<rparr>"
  have l: "length (inbuf ?g) = Suc BUFMAX" by (simp add: read_cmd_def hexnum_def num_str.simps)
  have "x86_translate ex_tables 0x1000 (0 + of_nat i) \<noteq> None" if "i < 402" for i
  proof -
    have "unat (of_nat i :: u32) = i" using that by (simp add: unat_of_nat)
    then have "drop_bit 22 (of_nat i :: u32) = 0" using that by (simp add: word_unat_eq_iff unat_drop_bit_eq drop_bit_eq_div [where 'a = nat])
    then show ?thesis by (simp add: x86_translate_def ex_tables_def)
  qed
  then have t: "\<forall>i < 402. x86_translate (gmem ?g) (client_cr3 ?g) (0 + of_nat i) \<noteq> None" by (simp add: ex_gdb_def)
  have i: "inbuf ?g = read_cmd 0 0x80000000 @ 0 # replicate 389 0" "bit (client_cr0 ?g) 31" by (simp_all add: ex_gdb_def)
  show ?thesis by (rule gdb_length_wraps [OF i(1) l order.refl _ i(2) t]) simp
qed

end
