(* ===== verification/Serial_Port.thy ===== *)
theory Serial_Port
  imports Prelude
begin

unbundle bit_operations_syntax

text \<open>
  The serial port (\<^verbatim>\<open>kernel/serial.c\<close>) under the remote debugger: the set-up of the controller
  and the two polling loops. The controller is a parameter: the values that the next reads of its status
  register and of its data register give. A loop that has seen all of them still
  polls, and has no result (\<open>None\<close>).
\<close>

section \<open>The code\<close>

record serial_port =
  serial_done :: bool
  line_status :: "u8 list"
  received :: "u8 list"
  written :: "(u8 \<times> u16) list"

definition COM1 :: u16 where
  "COM1 = 0x3f8"

definition out_port :: "u8 \<Rightarrow> u16 \<Rightarrow> serial_port \<Rightarrow> serial_port" where
  "out_port v p s = s\<lparr>written := written s @ [(v, p)]\<rparr>"

definition init_serial :: "serial_port \<Rightarrow> serial_port" where
  "init_serial s =
     (if serial_done s then s
      else let s = out_port 0x0f (COM1 + 4) s;
               s = out_port 0 (COM1 + 1) s;
               s = out_port 0x83 (COM1 + 3) s;
               s = out_port 1 COM1 s;
               s = out_port 0 (COM1 + 1) s;
               s = out_port 0x03 (COM1 + 3) s in
           s\<lparr>serial_done := True\<rparr>)"

fun wait_send :: "u8 list \<Rightarrow> u8 list option" where
  "wait_send [] = None"
| "wait_send (c # cs) = (if c AND 0x20 = 0 then wait_send cs else Some cs)"

definition write_com1 :: "u32 \<Rightarrow> serial_port \<Rightarrow> serial_port option" where
  "write_com1 c s =
     (let s = init_serial s in
      Option.bind (wait_send (line_status s)) (\<lambda>cs. Some (out_port (ucast c) COM1 (s\<lparr>line_status := cs\<rparr>))))"

fun wait_recv :: "u8 list \<Rightarrow> u8 list option" where
  "wait_recv [] = None"
| "wait_recv (c # cs) = (if c AND 0x1e \<noteq> 0 \<or> c AND 1 = 0 then wait_recv cs else Some cs)"

definition read_com1 :: "serial_port \<Rightarrow> (u32 \<times> serial_port) option" where
  "read_com1 s =
     (let s = init_serial s in
      Option.bind (wait_recv (line_status s)) (\<lambda>cs.
        case received s of
          [] \<Rightarrow> None
        | c # rs \<Rightarrow> Some (ucast c, s\<lparr>line_status := cs, received := rs\<rparr>)))"

text \<open>The two functions that \<^verbatim>\<open>enable_debugger\<close> gives to the remote debugger (\<^verbatim>\<open>kernel/debugger.c\<close>).\<close>

definition serial_recv :: "serial_port \<Rightarrow> (u32 \<times> serial_port) option" where
  "serial_recv s = read_com1 s"

definition serial_send :: "u32 \<Rightarrow> serial_port \<Rightarrow> serial_port option" where
  "serial_send ch s = write_com1 ch s"

section \<open>Interface of a byte line\<close>

text \<open>
  A line over some device state in order (\<open>ok\<close>): \<open>ingoing\<close> is what the device will still deliver, \<open>outgoing\<close> how
  many bytes it will accept, \<open>sent\<close> what went out. A call returns exactly when the device has something to deliver, or room.
\<close>

locale byte_line =
  fixes ok :: "'s \<Rightarrow> bool" and recv :: "'s \<Rightarrow> (u32 \<times> 's) option" and send :: "u32 \<Rightarrow> 's \<Rightarrow> 's option"
    and ingoing :: "'s \<Rightarrow> u8 list" and outgoing :: "'s \<Rightarrow> nat" and sent :: "'s \<Rightarrow> u8 list"
  assumes recv_none: "ok s \<Longrightarrow> ingoing s = [] \<Longrightarrow> recv s = None"
    and recv_some: "ok s \<Longrightarrow> ingoing s = b # bs \<Longrightarrow> \<exists>s'. recv s = Some (ucast b, s') \<and> ok s' \<and> ingoing s' = bs \<and> sent s' = sent s"
    and send_none: "ok s \<Longrightarrow> outgoing s = 0 \<Longrightarrow> send c s = None"
    and send_some: "ok s \<Longrightarrow> outgoing s = Suc n \<Longrightarrow> \<exists>s'. send c s = Some s' \<and> ok s' \<and> outgoing s' = n \<and> sent s' = sent s @ [ucast c]"
begin

fun recv_bytes :: "nat \<Rightarrow> 's \<Rightarrow> (u32 list \<times> 's) option" where
  "recv_bytes 0 s = Some ([], s)"
| "recv_bytes (Suc n) s = Option.bind (recv s) (\<lambda>(c, s). Option.bind (recv_bytes n s) (\<lambda>(cs, s). Some (c # cs, s)))"

fun send_bytes :: "u32 list \<Rightarrow> 's \<Rightarrow> 's option" where
  "send_bytes [] s = Some s"
| "send_bytes (c # cs) s = Option.bind (send c s) (send_bytes cs)"

lemma recv_bytes_ok:
  "ok s \<Longrightarrow> n \<le> length (ingoing s) \<Longrightarrow>
    \<exists>s'. recv_bytes n s = Some (map ucast (take n (ingoing s)), s') \<and> ok s' \<and> ingoing s' = drop n (ingoing s) \<and> sent s' = sent s"
proof (induction n arbitrary: s)
  case (Suc n)
  from Suc.prems(2) obtain b bs where s: "ingoing s = b # bs" by (cases "ingoing s") auto
  from recv_some [OF Suc.prems(1) s] obtain s1 where 1: "recv s = Some (ucast b, s1)" "ok s1" "ingoing s1 = bs" "sent s1 = sent s" by blast
  from Suc.IH [of s1] Suc.prems s 1(2,3) obtain s2 where
    "recv_bytes n s1 = Some (map ucast (take n bs), s2)" "ok s2" "ingoing s2 = drop n bs" "sent s2 = sent s1" by auto
  with 1 s show ?case by simp
qed simp

lemma recv_bytes_block: "ok s \<Longrightarrow> length (ingoing s) < n \<Longrightarrow> recv_bytes n s = None"
proof (induction n arbitrary: s)
  case (Suc n)
  show ?case
  proof (cases "ingoing s")
    case (Cons b bs)
    from recv_some [OF Suc.prems(1) Cons] obtain s1 where "recv s = Some (ucast b, s1)" "ok s1" "ingoing s1 = bs" by blast
    with Suc Cons show ?thesis by simp
  qed (simp add: recv_none Suc.prems)
qed simp

lemma send_bytes_ok:
  "ok s \<Longrightarrow> length cs \<le> outgoing s \<Longrightarrow>
    \<exists>s'. send_bytes cs s = Some s' \<and> ok s' \<and> sent s' = sent s @ map ucast cs \<and> outgoing s' = outgoing s - length cs"
proof (induction cs arbitrary: s)
  case (Cons c cs)
  from Cons.prems(2) obtain n where n: "outgoing s = Suc n" by (cases "outgoing s") auto
  from send_some [OF Cons.prems(1) n] obtain s1 where 1: "send c s = Some s1" "ok s1" "outgoing s1 = n" "sent s1 = sent s @ [ucast c]" by blast
  from Cons.IH [of s1] Cons.prems n 1(2,3) obtain s2 where
    "send_bytes cs s1 = Some s2" "ok s2" "sent s2 = sent s1 @ map ucast cs" "outgoing s2 = n - length cs" by auto
  with 1 n show ?case by simp
qed simp

lemma send_bytes_block: "ok s \<Longrightarrow> outgoing s < length cs \<Longrightarrow> send_bytes cs s = None"
proof (induction cs arbitrary: s)
  case (Cons c cs)
  show ?case
  proof (cases "outgoing s")
    case (Suc n)
    from send_some [OF Cons.prems(1) this] obtain s1 where "send c s = Some s1" "ok s1" "outgoing s1 = n" by blast
    with Cons Suc show ?thesis by simp
  qed (simp add: send_none Cons.prems)
qed simp

end

section \<open>The port is a byte line\<close>

text \<open>A status with a byte and no error; a status with room in the transmitter.\<close>

definition byte_ready :: "u8 \<Rightarrow> bool" where
  "byte_ready c \<longleftrightarrow> c AND 0x1e = 0 \<and> c AND 1 \<noteq> 0"

definition room_ready :: "u8 \<Rightarrow> bool" where
  "room_ready c \<longleftrightarrow> c AND 0x20 \<noteq> 0"

definition port_ingoing :: "serial_port \<Rightarrow> u8 list" where
  "port_ingoing s = take (length (filter byte_ready (line_status s))) (received s)"

definition port_outgoing :: "serial_port \<Rightarrow> nat" where
  "port_outgoing s = length (filter room_ready (line_status s))"

text \<open>What \<^verbatim>\<open>init_serial\<close> writes, once: 115200 baud, 8 bits, no parity, no interrupts.\<close>

definition set_up :: "(u8 \<times> u16) list" where
  "set_up = [(0x0f, COM1 + 4), (0, COM1 + 1), (0x83, COM1 + 3), (1, COM1), (0, COM1 + 1), (0x03, COM1 + 3)]"

lemma init_serial_eq:
  "init_serial s = (if serial_done s then s else s\<lparr>written := written s @ set_up, serial_done := True\<rparr>)"
  by (simp add: init_serial_def set_up_def out_port_def Let_def)

text \<open>All that was written is the set-up, at most once and first, and then bytes of data.\<close>

definition port_sent :: "serial_port \<Rightarrow> u8 list" where
  "port_sent s = map fst (drop (length set_up) (written s))"

definition port_ok :: "serial_port \<Rightarrow> bool" where
  "port_ok s \<longleftrightarrow> written s = (if serial_done s then set_up @ map (\<lambda>b. (b, COM1)) (port_sent s) else [])"

lemma port_sent_simps [simp]:
  "port_sent (s\<lparr>line_status := cs\<rparr>) = port_sent s" "port_sent (s\<lparr>received := rs\<rparr>) = port_sent s"
  "port_sent (s\<lparr>serial_done := d\<rparr>) = port_sent s"
  "port_sent (s\<lparr>written := set_up @ ws\<rparr>) = map fst ws" "port_sent (s\<lparr>written := set_up\<rparr>) = []"
  by (simp_all add: port_sent_def)

lemma init_serial_ok:
  assumes "port_ok s"
  shows "port_ok (init_serial s)" "port_sent (init_serial s) = port_sent s" "serial_done (init_serial s)"
    "line_status (init_serial s) = line_status s" "received (init_serial s) = received s"
    "written (init_serial s) = set_up @ map (\<lambda>b. (b, COM1)) (port_sent s)"
proof -
  have "port_sent s = []" if "\<not> serial_done s" using assms that by (simp add: port_ok_def port_sent_def)
  moreover have "written s = []" if "\<not> serial_done s" using assms that by (simp add: port_ok_def)
  moreover have "written s = set_up @ map (\<lambda>b. (b, COM1)) (port_sent s)" if "serial_done s" using assms that by (simp add: port_ok_def)
  ultimately show "port_ok (init_serial s)" "port_sent (init_serial s) = port_sent s" "serial_done (init_serial s)"
    "line_status (init_serial s) = line_status s" "received (init_serial s) = received s"
    "written (init_serial s) = set_up @ map (\<lambda>b. (b, COM1)) (port_sent s)"
    using assms by (simp_all add: init_serial_eq port_ok_def)
qed

lemma port_okI: "serial_done s \<Longrightarrow> written s = set_up @ map (\<lambda>b. (b, COM1)) bs \<Longrightarrow> port_ok s \<and> port_sent s = bs"
  by (simp add: port_ok_def port_sent_def comp_def)

lemma wait_recv_none: "filter byte_ready cs = [] \<Longrightarrow> wait_recv cs = None"
  by (induction cs) (auto simp: byte_ready_def split: if_splits)

lemma wait_recv_some: "filter byte_ready cs = c # r \<Longrightarrow> \<exists>cs'. wait_recv cs = Some cs' \<and> filter byte_ready cs' = r"
  by (induction cs) (auto simp: byte_ready_def split: if_splits)

lemma wait_send_none: "filter room_ready cs = [] \<Longrightarrow> wait_send cs = None"
  by (induction cs) (auto simp: room_ready_def split: if_splits)

lemma wait_send_some: "filter room_ready cs = c # r \<Longrightarrow> \<exists>cs'. wait_send cs = Some cs' \<and> filter room_ready cs' = r"
  by (induction cs) (auto simp: room_ready_def split: if_splits)

interpretation com1: byte_line port_ok serial_recv serial_send port_ingoing port_outgoing port_sent
proof
  fix s :: serial_port
  assume s: "port_ok s"
  note i = init_serial_ok [OF s]
  show "serial_recv s = None" if "port_ingoing s = []"
    using that wait_recv_none [of "line_status s"]
    by (auto simp: serial_recv_def read_com1_def Let_def i port_ingoing_def split: option.splits bind_splits)
  show "\<exists>s'. serial_recv s = Some (ucast b, s') \<and> port_ok s' \<and> port_ingoing s' = bs \<and> port_sent s' = port_sent s"
    if "port_ingoing s = b # bs" for b bs
  proof -
    from that obtain c r rs where f: "filter byte_ready (line_status s) = c # r" and r: "received s = b # rs" "bs = take (length r) rs"
      by (cases "filter byte_ready (line_status s)"; cases "received s") (auto simp: port_ingoing_def)
    from wait_recv_some [OF f] obtain cs where "wait_recv (line_status s) = Some cs" "filter byte_ready cs = r" by blast
    with r have "serial_recv s = Some (ucast b, (init_serial s)\<lparr>line_status := cs, received := rs\<rparr>)"
        "port_ingoing ((init_serial s)\<lparr>line_status := cs, received := rs\<rparr>) = bs"
      by (simp_all add: serial_recv_def read_com1_def Let_def i port_ingoing_def)
    then show ?thesis using i(3,6) port_okI [of "(init_serial s)\<lparr>line_status := cs, received := rs\<rparr>"] by simp
  qed
  show "serial_send c s = None" if "port_outgoing s = 0" for c
    using that wait_send_none [of "line_status s"] by (simp add: serial_send_def write_com1_def Let_def i port_outgoing_def)
  show "\<exists>s'. serial_send c s = Some s' \<and> port_ok s' \<and> port_outgoing s' = n \<and> port_sent s' = port_sent s @ [ucast c]"
    if "port_outgoing s = Suc n" for n c
  proof -
    from that obtain d r where f: "filter room_ready (line_status s) = d # r" "n = length r"
      by (cases "filter room_ready (line_status s)") (auto simp: port_outgoing_def)
    from wait_send_some [OF f(1)] obtain cs where "wait_send (line_status s) = Some cs" "filter room_ready cs = r" by blast
    with f(2) have "serial_send c s = Some (out_port (ucast c) COM1 ((init_serial s)\<lparr>line_status := cs\<rparr>))"
        "port_outgoing (out_port (ucast c) COM1 ((init_serial s)\<lparr>line_status := cs\<rparr>)) = n"
      by (simp_all add: serial_send_def write_com1_def Let_def i port_outgoing_def out_port_def)
    then show ?thesis using i(3,6)
      port_okI [of "out_port (ucast c) COM1 ((init_serial s)\<lparr>line_status := cs\<rparr>)" "port_sent s @ [ucast c]"] by (simp add: out_port_def)
  qed
qed

text \<open>
  The debugger reads the bytes of the line in their order, and what it sends is what the line
  carries after the set-up: the lists of bytes that the conversation of the remote debugger works on.
\<close>

theorem serial_line_ok:
  assumes "port_ok s"
  shows "n \<le> length (port_ingoing s) \<Longrightarrow>
      \<exists>s'. com1.recv_bytes n s = Some (map ucast (take n (port_ingoing s)), s') \<and> port_ok s' \<and>
        port_ingoing s' = drop n (port_ingoing s) \<and> port_sent s' = port_sent s"
    and "length (port_ingoing s) < n \<Longrightarrow> com1.recv_bytes n s = None"
    and "length cs \<le> port_outgoing s \<Longrightarrow>
      \<exists>s'. com1.send_bytes cs s = Some s' \<and> written s' = set_up @ map (\<lambda>b. (b, COM1)) (port_sent s @ map ucast cs) \<or> cs = []"
    and "port_outgoing s < length cs \<Longrightarrow> com1.send_bytes cs s = None"
proof -
  show "\<exists>s'. com1.send_bytes cs s = Some s' \<and> written s' = set_up @ map (\<lambda>b. (b, COM1)) (port_sent s @ map ucast cs) \<or> cs = []"
    if "length cs \<le> port_outgoing s"
  proof -
    from com1.send_bytes_ok [OF assms that] obtain s' where s': "com1.send_bytes cs s = Some s'" "port_ok s'"
      "port_sent s' = port_sent s @ map ucast cs" by blast
    have "written s' \<noteq> []" if "cs \<noteq> []" using s'(3) that by (auto simp: port_sent_def)
    with s' show ?thesis by (metis port_ok_def)
  qed
qed (use com1.recv_bytes_ok [OF assms] com1.recv_bytes_block [OF assms] com1.send_bytes_block [OF assms] in blast)+

end
