(* ===== verification/Debugger.thy ===== *)
theory Debugger
  imports Gdb_Props Serial_Port Cpu_Init
begin

unbundle bit_operations_syntax

text \<open>
  The exception handler (\<^verbatim>\<open>kernel/debugger.c\<close>): the task state segment of the interrupted task, the
  session with the remote debugger, the dump of the registers on the screen; and the messages
  to the debugger outside a session (the end of \<^verbatim>\<open>kernel/gdb_serial.c\<close>).
\<close>

section \<open>Task state segments\<close>

record x86_tss =
  t_back_link :: u32
  t_esp0 :: u32
  t_ss0 :: u32
  t_esp1 :: u32
  t_ss1 :: u32
  t_esp2 :: u32
  t_ss2 :: u32
  t_cr3 :: u32
  t_eip :: u32
  t_eflags :: u32
  t_eax :: u32
  t_ecx :: u32
  t_edx :: u32
  t_ebx :: u32
  t_esp :: u32
  t_ebp :: u32
  t_esi :: u32
  t_edi :: u32
  t_es :: u32
  t_cs :: u32
  t_ss :: u32
  t_ds :: u32
  t_fs :: u32
  t_gs :: u32
  t_ldt :: u32
  trace_trap :: u16
  io_bit_map_offset :: u16

text \<open>The descriptor is read as bytes: 24 bits of the base from byte 2 on, and the rest from byte 7.\<close>

definition tss_sel_2_tss :: "mm_state \<Rightarrow> u16 \<Rightarrow> u32" where
  "tss_sel_2_tss mem sel =
     (let (w0, w1) = segment mem (unat (drop_bit 3 sel));
          p = (drop_bit 16 w0 OR push_bit 16 w1) AND 0xFFFFFF
      in p + push_bit 24 (drop_bit 24 w1))"

section \<open>The session\<close>

definition signal_of :: "u32 \<Rightarrow> u8" where
  "signal_of trapno =
     (if trapno \<in> {0, 4, 5, 7, 8, 9, 15} then 8
      else if trapno \<in> {1, 3} then 5
      else if trapno \<in> {10, 11, 12, 13, 14} then 11
      else 4)"

definition state_of_tss :: "x86_tss \<Rightarrow> gdb_state" where
  "state_of_tss t =
     \<lparr>r_eax = t_eax t, r_ecx = t_ecx t, r_edx = t_edx t, r_ebx = t_ebx t, r_esp = t_esp t, r_ebp = t_ebp t,
      r_esi = t_esi t, r_edi = t_edi t, r_eip = t_eip t, r_eflags = t_eflags t, r_cs = t_cs t, r_ss = t_ss t,
      r_ds = t_ds t, r_es = t_es t, r_fs = t_fs t, r_gs = t_gs t\<rparr>"

definition state_to_tss :: "gdb_state \<Rightarrow> x86_tss \<Rightarrow> x86_tss" where
  "state_to_tss s t = t
     \<lparr>t_eax := r_eax s, t_ecx := r_ecx s, t_edx := r_edx s, t_ebx := r_ebx s, t_esp := r_esp s, t_ebp := r_ebp s,
      t_esi := r_esi s, t_edi := r_edi s, t_eip := r_eip s, t_eflags := r_eflags s, t_cs := r_cs s, t_ss := r_ss s,
      t_ds := r_ds s, t_es := r_es s, t_fs := r_fs s, t_gs := r_gs s\<rparr>"

text \<open>The end of a session: back to the task, with the new value of \<^verbatim>\<open>do_debug\<close>, or a reboot.\<close>

datatype debug_end = Back bool x86_tss | Reboot

definition debugger :: "u32 \<Rightarrow> u32 \<Rightarrow> x86_tss \<Rightarrow> bool \<Rightarrow> gdb \<Rightarrow> gdb_stop + (debug_end \<times> gdb)" where
  "debugger trapno cr0 t do_debug g =
     (let p = \<lparr>thread_id = -1, signo = signal_of trapno, regs = state_of_tss t, regs_changed = False\<rparr> in
      bindE (gdb_serial_converse None (g\<lparr>params := p, client_cr0 := cr0, client_cr3 := t_cr3 t\<rparr>)) (\<lambda>(action, g).
        Inr (if action = GDB_KILL then Reboot
             else Back (if action = GDB_DETACH then False else do_debug) (state_to_tss (regs (params g)) t), g)))"

section \<open>Messages outside a session\<close>

text \<open>\<open>active\<close>: the pointers \<^verbatim>\<open>gdb_serial_send\<close> and \<^verbatim>\<open>gdb_serial_recv\<close> are set.\<close>

definition gdb_serial_exit :: "bool \<Rightarrow> u32 \<Rightarrow> gdb \<Rightarrow> gdb_stop + gdb" where
  "gdb_serial_exit active exit_code g =
     (if \<not> active \<or> \<not> connected g then Inr g
      else bindE (putpacket [lit ''W'', hexbyte (ucast exit_code)] g) (\<lambda>g. Inr (g\<lparr>connected := False\<rparr>)))"

definition gdb_serial_killed :: "bool \<Rightarrow> u32 \<Rightarrow> gdb \<Rightarrow> gdb_stop + gdb" where
  "gdb_serial_killed active sig g =
     (if \<not> active \<or> \<not> connected g then Inr g
      else bindE (putpacket [lit ''X'', hexbyte (ucast sig)] g) (\<lambda>g. Inr (g\<lparr>connected := False\<rparr>)))"

definition gdb_serial_putchar :: "bool \<Rightarrow> u32 \<Rightarrow> gdb \<Rightarrow> gdb_stop + gdb" where
  "gdb_serial_putchar active ch g =
     (if \<not> active then Inr g
      else if \<not> connected g then Inr (g\<lparr>tx := tx g @ [ucast ch]\<rparr>)
      else putpacket [lit ''O'', hexbyte (ucast ch)] g)"

definition gdb_serial_puts :: "bool \<Rightarrow> u8 list \<Rightarrow> gdb \<Rightarrow> gdb_stop + gdb" where
  "gdb_serial_puts active s g =
     (if \<not> active then Inr g
      else if \<not> connected g then Inr (g\<lparr>tx := tx g @ takeWhile (\<lambda>c. c \<noteq> 0) s @ [0x0A]\<rparr>)
      else putpacket [lit ''O'', \<lparr>fdata = s, flen = 0, hexify = True\<rparr>, \<lparr>fdata = [0x0A, 0], flen = 1, hexify = True\<rparr>] g)"

section \<open>The dump on the screen\<close>

text \<open>The video memory as bytes, from \<^verbatim>\<open>0xb8000\<close> on.\<close>

type_synonym video = "int \<Rightarrow> u8"

definition disp :: "u8 list" where
  "disp = map of_char ''0123456789ABCDEF''"

text \<open>The loop of \<^verbatim>\<open>write_hex\<close>: digits from right to left, \<open>p\<close> being an offset from \<^verbatim>\<open>screen_base\<close>.\<close>

fun write_hex_loop :: "nat \<Rightarrow> int \<Rightarrow> u32 \<Rightarrow> video \<Rightarrow> video" where
  "write_hex_loop 0 p v s = s"
| "write_hex_loop (Suc len) p v s = write_hex_loop len (p - 2) (drop_bit 4 v) (s(p - 2 := disp ! unat (v AND 15)))"

definition write_hex :: "int \<Rightarrow> int \<Rightarrow> nat \<Rightarrow> u32 \<Rightarrow> video \<Rightarrow> video" where
  "write_hex line col len v s = write_hex_loop len ((line - 1) * 160 + (col + int len - 1) * 2) v s"

text \<open>The text of the screen is a file of 25 lines of 80 characters, each ended by a newline.\<close>

definition dump_screen :: "u8 list \<Rightarrow> video \<Rightarrow> video" where
  "dump_screen task_dump_screen s =
     (let s = fold (\<lambda>i. fold (\<lambda>j s. s(int (i * 160 + j * 2) := task_dump_screen ! (i * 81 + j))) [0..<80]) [0..<25] s;
          s = fold (\<lambda>i s. s(int (2 * i + 1) := 0x30)) [0..<80 * 25] s
      in fold (\<lambda>i s. s(int (2 * i + 1) := 0x34)) [161..<239] s)"

definition dump_registers :: "u8 list \<Rightarrow> u32 \<Rightarrow> u32 \<Rightarrow> u32 \<Rightarrow> x86_tss \<Rightarrow> video \<Rightarrow> video" where
  "dump_registers task_dump_screen trapno error_code t_addr t s =
     fold (\<lambda>(line, col, len, v). write_hex line col len v)
       [(7, 21, 2, trapno), (7, 60, 8, error_code), (9, 21, 8, t_addr), (9, 69, 4, t_back_link t),
        (11, 11, 8, t_esp t), (11, 32, 4, t_ss t), (11, 52, 8, t_esp0 t), (11, 74, 4, t_ss0 t),
        (13, 11, 8, t_esp1 t), (13, 32, 4, t_ss1 t), (13, 52, 8, t_esp2 t), (13, 74, 4, t_ss2 t),
        (15, 15, 8, t_eip t), (15, 41, 4, t_cs t), (15, 66, 8, t_eflags t),
        (17, 10, 8, t_eax t), (17, 30, 8, t_ebx t), (17, 50, 8, t_ecx t), (17, 70, 8, t_edx t),
        (19, 10, 8, t_esi t), (19, 30, 8, t_edi t), (19, 50, 8, t_ebp t), (19, 72, 4, t_ldt t),
        (21, 12, 4, t_ds t), (21, 32, 4, t_es t), (21, 52, 4, t_fs t), (21, 72, 4, t_gs t),
        (23, 30, 8, t_cr3 t), (23, 70, 1, ucast (trace_trap t) AND 1)]
       (dump_screen task_dump_screen s)"

section \<open>The handler\<close>

text \<open>\<^verbatim>\<open>memcpy(screen_base, video_mem, sizeof(video_mem))\<close>\<close>

definition restore_screen :: "video \<Rightarrow> video \<Rightarrow> video" where
  "restore_screen video_mem s = (\<lambda>a. if 0 \<le> a \<and> a < 4000 then video_mem a else s a)"

text \<open>\<^verbatim>\<open>while (inb(0x60) == c);\<close> on the bytes that the port will give.\<close>

fun wait_release :: "u8 \<Rightarrow> u8 list \<Rightarrow> u8 list option" where
  "wait_release c [] = None"
| "wait_release c (k # ks) = (if k = c then wait_release c ks else Some ks)"

lemma wait_release_shorter: "wait_release c ks = Some ks' \<Longrightarrow> length ks' < length ks"
  by (induction ks) (auto split: if_splits)

datatype dump_end = Resumed | Rebooted | To_debugger

text \<open>The loop over the keys while the dump is shown; \<open>d\<close> tells whether it is on the screen.\<close>

function trap_loop :: "(video \<Rightarrow> video) \<Rightarrow> video \<Rightarrow> bool \<Rightarrow> u8 list \<Rightarrow> video \<Rightarrow> (dump_end \<times> video \<times> u8 list) option" where
  "trap_loop dump video_mem d [] s = None"
| "trap_loop dump video_mem d (c # ks) s =
     (if c = 0x39 then
        let d = (\<not> d); s = (if d then dump s else restore_screen video_mem s)
        in (case wait_release 0x39 ks of None \<Rightarrow> None | Some ks \<Rightarrow> trap_loop dump video_mem d ks s)
      else if c = 1 then Some (Rebooted, s, ks)
      else if c = 0x17 then map_option (\<lambda>ks. (Resumed, restore_screen video_mem s, ks)) (wait_release 0x17 ks)
      else if c = 0x20 then map_option (\<lambda>ks. (To_debugger, restore_screen video_mem s, ks)) (wait_release 0x20 ks)
      else trap_loop dump video_mem d ks s)"
  by pat_completeness auto
termination
  by (relation "measure (\<lambda>(dump, video_mem, d, ks, s). length ks)") (auto dest: wait_release_shorter)

text \<open>
  The dump, when \<^verbatim>\<open>do_debug\<close> is not set: the screen is saved and the registers shown. The task is
  resumed, the machine restarted, or \<^verbatim>\<open>enable_debugger\<close> and \<^verbatim>\<open>debugger\<close> are called.
\<close>

definition trap_dump :: "u8 list \<Rightarrow> u32 \<Rightarrow> u32 \<Rightarrow> u32 \<Rightarrow> x86_tss \<Rightarrow> u8 list \<Rightarrow> video \<Rightarrow> (dump_end \<times> video \<times> u8 list) option" where
  "trap_dump text trapno error_code t_addr t ks s =
     trap_loop (dump_registers text trapno error_code t_addr t) s True ks (dump_registers text trapno error_code t_addr t s)"

text \<open>
  The handler: the session when \<^verbatim>\<open>do_debug\<close> is set, the dump otherwise. \<open>t\<close> is the segment of the
  interrupted task, at \<open>t_addr\<close>; \<open>None\<close> when it still waits for a key.
\<close>

definition trap_handler ::
  "u8 list \<Rightarrow> u32 \<Rightarrow> u32 \<Rightarrow> u32 \<Rightarrow> u32 \<Rightarrow> x86_tss \<Rightarrow> bool \<Rightarrow> gdb \<Rightarrow> u8 list \<Rightarrow> video \<Rightarrow> (gdb_stop + (debug_end \<times> gdb \<times> video \<times> u8 list)) option" where
  "trap_handler text trapno error_code cr0 t_addr t do_debug g ks s =
     (let session = (\<lambda>s ks. bindE (debugger trapno cr0 t True g) (\<lambda>(e, g). Inr (e, g, s, ks))) in
      if do_debug then Some (session s ks)
      else (case trap_dump text trapno error_code t_addr t ks s of
          None \<Rightarrow> None
        | Some (Resumed, s, ks) \<Rightarrow> Some (Inr (Back False t, g, s, ks))
        | Some (Rebooted, s, ks) \<Rightarrow> Some (Inr (Reboot, g, s, ks))
        | Some (To_debugger, s, ks) \<Rightarrow> Some (session s ks)))"

section \<open>What the handler finds, shows and leaves\<close>

lemma tss_base: "tss_sel_2_tss mem sel = seg_base (segment mem (unat sel div 8))"
proof -
  have n: "unat (drop_bit 3 sel) = unat sel div 8" by (subst unat_drop_bit_eq) (simp add: drop_bit_eq_div)
  obtain w0 w1 where w: "segment mem (unat sel div 8) = (w0, w1)" by fastforce
  have m: "(0xFFFFFF :: u32) = mask 24" by (simp add: mask_eq_exp_minus_1)
  have "((drop_bit 16 w0 OR push_bit 16 w1) AND mask 24) + push_bit 24 (drop_bit 24 w1) =
      ((drop_bit 16 w0 OR push_bit 16 w1) AND mask 24) OR push_bit 24 (drop_bit 24 w1)"
    by (rule disjunctive_add) (auto simp: bit_simps)
  also have "\<dots> = drop_bit 16 w0 OR push_bit 16 (w1 AND mask 8) OR (w1 AND NOT (mask 24))"
    by (rule bit_word_eqI) (auto simp: bit_simps dest: bit_imp_le_length)
  finally show ?thesis unfolding tss_sel_2_tss_def seg_base_def n w Let_def m masks by simp
qed

text \<open>
  With the descriptors that \<^verbatim>\<open>cpu_init\<close> writes, the exception handler finds the task state segment
  of the kernel and those of the exception tasks behind their selectors.
\<close>

theorem trap_finds_tss:
  assumes "trap_ok cl"
  shows "tss_sel_2_tss (fst (cpu_init cl dir mem)) (ucast BASE_TSS) = tss \<and>
    (\<forall>i < 32. tss_sel_2_tss (fst (cpu_init cl dir mem)) (ucast (TRAP_TSS_BASE + 8 * of_nat i)) = trap_tss cl + TSS_SIZE * of_nat i)"
proof -
  have "unat (TRAP_TSS_BASE + 8 * of_nat i) = 80 + 8 * i" if "i < 32" for i using that by (simp add: unat_word_ariths unat_of_nat)
  then have "unat (ucast (TRAP_TSS_BASE + 8 * of_nat i) :: u16) = unat (TRAP_TSS_BASE + 8 * of_nat i)" if "i < 32" for i
    using that by (simp add: unsigned_ucast_eq take_bit_nat_eq_self)
  moreover have "unat (ucast BASE_TSS :: u16) = unat BASE_TSS" by simp
  ultimately show ?thesis using tss_segments [OF assms] by (simp add: tss_base segment_is_def Let_def)
qed

theorem trap_finds_tss_witness: "tss_sel_2_tss (fst (cpu_init ex_cpu 0x101000 \<lparr>phys = (\<lambda>_. 0), PHYSICAL_MEMORY_HEAD = 0, next_virtual_address = 0, CR3 = 0\<rparr>)) 0x58 = 0x220068"
proof -
  let ?m = "\<lparr>phys = (\<lambda>_. 0), PHYSICAL_MEMORY_HEAD = 0, next_virtual_address = 0, CR3 = 0\<rparr>"
  have "trap_ok ex_cpu" by (simp add: trap_ok_def ex_cpu_def)
  from conjunct2 [OF trap_finds_tss [OF this, of "0x101000" ?m], rule_format, of 1] show ?thesis by (simp add: ex_cpu_def)
qed

lemma nibble32: "unat (v AND 15 :: u32) = unat v mod 16" "unat (drop_bit 4 v :: u32) = unat v div 16"
proof -
  have "v AND 15 = take_bit 4 v" by (simp add: take_bit_eq_mask mask_eq_exp_minus_1)
  then show "unat (v AND 15) = unat v mod 16" by (simp add: take_bit_eq_mod unat_mod)
  show "unat (drop_bit 4 v) = unat v div 16" by (simp add: drop_bit_eq_div unat_div)
qed

text \<open>Digit \<open>k\<close> from the right.\<close>

lemma write_hex_loop_other: "(\<forall>k < len. a \<noteq> p - 2 * int (Suc k)) \<Longrightarrow> write_hex_loop len p v s a = s a"
proof (induction len arbitrary: p v s)
  case (Suc len)
  have "a \<noteq> p - 2 - 2 * int (Suc k)" if "k < len" for k using Suc.prems [rule_format, of "Suc k"] that by simp
  moreover have "a \<noteq> p - 2" using Suc.prems [rule_format, of 0] by simp
  ultimately show ?case using Suc.IH by simp
qed simp

lemma write_hex_loop_cells: "k < len \<Longrightarrow> write_hex_loop len p v s (p - 2 * int (Suc k)) = disp ! (unat v div 16 ^ k mod 16)"
proof (induction len arbitrary: k p v s)
  case (Suc len)
  show ?case
  proof (cases k)
    case 0
    with write_hex_loop_other [of len "p - 2" "p - 2"] nibble32(1) [of v] show ?thesis by simp
  next
    case (Suc j)
    with Suc.IH [of j "p - 2" "drop_bit 4 v"] Suc.prems nibble32(2) [of v] show ?thesis by (simp add: div_mult2_eq algebra_simps)
  qed
qed simp

text \<open>
  \<^verbatim>\<open>write_hex\<close> shows the last \<open>len\<close> hexadecimal digits of the value, the highest at column \<open>col\<close>, and
  changes no other byte of the screen; columns and lines count from 1, and two bytes make a cell.
\<close>

theorem write_hex_shows:
  "(\<forall>k < len. write_hex line col len v s ((line - 1) * 160 + (col - 1 + int (len - 1 - k)) * 2) = disp ! (unat v div 16 ^ k mod 16)) \<and>
   (\<forall>a. (\<forall>k < len. a \<noteq> (line - 1) * 160 + (col - 1 + int k) * 2) \<longrightarrow> write_hex line col len v s a = s a)"
proof (intro conjI allI impI)
  let ?p = "(line - 1) * 160 + (col + int len - 1) * 2"
  have p: "?p - 2 * int (Suc k) = (line - 1) * 160 + (col - 1 + int (len - 1 - k)) * 2" if "k < len" for k
    using that by (simp add: of_nat_diff)
  show "write_hex line col len v s ((line - 1) * 160 + (col - 1 + int (len - 1 - k)) * 2) = disp ! (unat v div 16 ^ k mod 16)" if "k < len" for k
    using write_hex_loop_cells [OF that, of ?p v s] unfolding p [OF that] write_hex_def .
  show "write_hex line col len v s a = s a" if "\<forall>k < len. a \<noteq> (line - 1) * 160 + (col - 1 + int k) * 2" for a
    unfolding write_hex_def
  proof (rule write_hex_loop_other, intro allI impI)
    fix k assume k: "k < len"
    show "a \<noteq> ?p - 2 * int (Suc k)" unfolding p [OF k] using that [rule_format, of "len - 1 - k"] k by simp
  qed
qed

theorem write_hex_shows_witness: "write_hex 7 21 2 14 (\<lambda>_. 0) 1000 = of_char (CHR ''0'') \<and> write_hex 7 21 2 14 (\<lambda>_. 0) 1002 = of_char (CHR ''E'')"
proof -
  from conjunct1 [OF write_hex_shows [of 2 7 21 14 "\<lambda>_. 0"], rule_format, of 0] conjunct1 [OF write_hex_shows [of 2 7 21 14 "\<lambda>_. 0"], rule_format, of 1]
  show ?thesis by (simp add: disp_def)
qed

section \<open>A session that only looks\<close>

lemma converse_end:
  assumes "getpacket (inbuf g) (rx g) (tx g) = Inr (b, i, t)" "gdb_command cb (g\<lparr>inbuf := b, rx := i, tx := t\<rparr>) = Inr (act, g')" "act \<noteq> GDB_MORE"
  shows "converse_loop cb g = Inr (act, g')"
  using assms by (subst converse_loop.simps) simp

text \<open>
  C39. When the debugger answers the report of the signal with the command to continue, the task goes
  on where it was: no register and no byte of memory is changed but the trace flag, which is
  cleared; the report is sent with the signal that stands for the exception.
\<close>

theorem debugger_continues:
  assumes "length (inbuf g) = Suc BUFMAX" "inbuf g ! 2 \<noteq> 0x3A" "rx g = 0x2B # frame_of_data [0x63] @ rest"
  shows "\<exists>g'. debugger trapno cr0 t d g = Inr (Back d (t\<lparr>t_eflags := t_eflags t AND NOT 0x100\<rparr>), g') \<and>
    gmem g' = gmem g \<and> rx g' = rest \<and> tx g' = tx g @ frame_of_data (0x53 # digits (signal_of trapno)) @ [0x2B]"
proof -
  let ?p = "\<lparr>thread_id = -1, signo = signal_of trapno, regs = state_of_tss t, regs_changed = False\<rparr>"
  let ?f = "[lit ''S'', hexbyte (signal_of trapno)]"
  let ?g = "g\<lparr>params := ?p, client_cr0 := cr0, client_cr3 := t_cr3 t\<rparr>"
  let ?r = "frame_of_data [0x63] @ rest"
  let ?g1 = "?g\<lparr>rx := ?r, tx := tx g @ packet ?f\<rparr>"
  have "payload ?f = 0x53 # digits (signal_of trapno)" by (simp add: payload_def lit_def hexbyte_def at_def digits_def)
  then have pk: "packet ?f = frame_of_data (0x53 # digits (signal_of trapno))" by (simp add: packet_frame)
  have r: "reply_to (report None (upd_params (regs_changed_update (\<lambda>_. False)) ?g)) = Inr (GDB_MORE, ?g1)"
    using assms(3) by (simp add: reply_to_def report_def answer_def putpacket_def)
  have good: "good_data [0x63]" by (simp add: good_data_def)
  have gp: "getpacket (inbuf ?g1) (rx ?g1) (tx ?g1) = Inr (after [0x63] (inbuf g), rest, tx ?g1 @ [0x2B])"
    using getpacket_step [OF assms(1,2) good, of "[]" "hexchars ! unat (drop_bit 4 (0x63 :: u8))" "hexchars ! unat (0x63 AND 0xF :: u8)" rest "tx ?g1"]
      digits_value(2) [of "0x63"] by (simp add: frame_of_data_def digits_def)
  let ?g2 = "?g1\<lparr>inbuf := after [0x63] (inbuf g), rx := rest, tx := tx ?g1 @ [0x2B]\<rparr>"
  let ?g3 = "?g2\<lparr>connected := True\<rparr>"
  have "strtoul (CHR 0x00 # xs) 16 = (0, CHR 0x00 # xs)" for xs
    by (cases xs) (simp_all add: strtoul_def isspace_def base_prefix_def digit_in_def schar_def)
  moreover have "char_of (unat (0 :: u8)) = CHR 0x00" by (simp add: char_of_eq_iff)
  moreover have "length (after [0x63] (inbuf g)) = Suc BUFMAX" using after_ok(1) [OF assms(1,2) good] .
  ultimately have n: "number_at ?g3 1 = (0, 1)" using assms(1) by (simp add: number_at_def after_def chars_def)
  let ?h = "?g3\<lparr>params := ?p\<lparr>regs := gdb_set_trace_flag False (state_of_tss t), signo := 0\<rparr>\<rparr>"
  have c: "gdb_command None ?g2 = Inr (GDB_CONT, ?h)"
    using n by (simp add: gdb_command_def gdb_dispatch_def Let_def at_def after_def cmd_c_def resume_at_def reply_to_def answer_def)
  have "converse_loop None ?g1 = Inr (GDB_CONT, ?h)" by (rule converse_end [OF gp c]) simp
  then have "debugger trapno cr0 t d g = Inr (Back d (state_to_tss (gdb_set_trace_flag False (state_of_tss t)) t), ?h)"
    using r by (simp add: debugger_def gdb_serial_converse_def)
  moreover have "state_to_tss (gdb_set_trace_flag False (state_of_tss t)) t = t\<lparr>t_eflags := t_eflags t AND NOT 0x100\<rparr>"
    by (cases t) (simp add: state_to_tss_def gdb_set_trace_flag_def state_of_tss_def)
  ultimately show ?thesis by (simp add: pk)
qed

text \<open>An exception 13 of a task of the user, stopped at its first instruction while it is traced.\<close>

definition ex_tss :: x86_tss where
  "ex_tss =
     \<lparr>t_back_link = 0x50, t_esp0 = 0x120000, t_ss0 = 0x18, t_esp1 = 0, t_ss1 = 0, t_esp2 = 0, t_ss2 = 0, t_cr3 = 0x1000,
      t_eip = 0x40000000, t_eflags = 0x302, t_eax = 0, t_ecx = 0, t_edx = 0, t_ebx = 0, t_esp = 0x80000000, t_ebp = 0,
      t_esi = 0, t_edi = 0, t_es = 0x4B, t_cs = 0x43, t_ss = 0x4B, t_ds = 0x4B, t_fs = 0x4B, t_gs = 0x4B, t_ldt = 0,
      trace_trap = 0, io_bit_map_offset = 0\<rparr>"

theorem debugger_continues_witness:
  "\<exists>g'. debugger 13 0x80000000 ex_tss True (ex_gdb (0x2B # frame_of_data [0x63] @ [])) = Inr (Back True (ex_tss\<lparr>t_eflags := t_eflags ex_tss AND NOT 0x100\<rparr>), g') \<and>
     tx g' = frame_of_data [0x53, 0x30, 0x62] @ [0x2B]"
proof -
  let ?g = "ex_gdb (0x2B # frame_of_data [0x63] @ [])"
  have i: "length (inbuf ?g) = Suc BUFMAX" "inbuf ?g ! 2 \<noteq> 0x3A" "rx ?g = 0x2B # frame_of_data [0x63] @ []" and t: "tx ?g = []"
    by (simp_all add: ex_gdb_def)
  have "digits (signal_of 13) = [0x30, 0x62]" by (simp add: signal_of_def digits_def hexchars_def)
  with debugger_continues [OF i, of 13 "0x80000000" ex_tss True] show ?thesis unfolding t by auto
qed

section \<open>The screen behind the dump\<close>

lemma trap_dump_restores:
  assumes "trap_dump text trapno error_code t_addr t ks s = Some (e, s', ks')" "e \<noteq> Rebooted" "0 \<le> a" "a < 4000"
  shows "s' a = s a"
proof -
  have "trap_loop dump s d ks s1 = Some (e, s', ks') \<Longrightarrow> s' a = s a" for dump d s1
    using assms(2-4)
    by (induction dump s d ks s1 rule: trap_loop.induct) (auto simp: restore_screen_def Let_def split: if_splits option.splits)
  with assms(1) show ?thesis by (simp add: trap_dump_def)
qed



end
