(* ===== verification/Kbd_Props.thy ===== *)
theory Kbd_Props
  imports Kbd_Inv
begin

unbundle bit_operations_syntax

text \<open>
  What the keyboard driver promises: it never leaves its tables, it knows which modifier keys are
  down, and it translates key strokes to the characters of the map of these modifiers.
\<close>

section \<open>Runs\<close>

fun kbd_run :: "(u32 \<Rightarrow> u32) \<Rightarrow> u8 list \<Rightarrow> kbd_dev \<Rightarrow> (kbd_out list \<times> kbd_dev) option" where
  "kbd_run mem [] d = Some ([], d)"
| "kbd_run mem (c # cs) d =
     (case do_scancode mem c d of
        None \<Rightarrow> None
      | Some (out, d) \<Rightarrow> map_option (\<lambda>(out', d). (out @ out', d)) (kbd_run mem cs d))"

lemma kbd_run_ok: "kbd_ok d \<Longrightarrow> \<exists>out d'. kbd_run mem cs d = Some (out, d') \<and> kbd_ok d'"
proof (induction cs arbitrary: d)
  case (Cons c cs)
  obtain out e where "do_scancode mem c d = Some (out, e)" "kbd_ok e" using do_scancode_ok [OF Cons.prems] by blast
  with Cons.IH [of e] show ?case by auto
qed simp

text \<open>
  C21. From the start of the system on, whatever scan codes arrive, in whatever order, also those that
  no keyboard would send, the driver indexes no table outside of its bounds: the list of key maps,
  which is indexed by the modifiers, the counters of the modifiers, and the characters of the pad,
  the cursor keys and the dead keys. (The other tables are as long as the range of their index.)
\<close>

theorem keyboard_never_faults: "kbd_run mem cs kbd_dev0 \<noteq> None"
  using kbd_run_ok [OF kbd_ok_dev0, of mem cs] by auto

section \<open>Modifiers\<close>

definition same_keys :: "kbd_dev \<Rightarrow> kbd_dev \<Rightarrow> bool" where
  "same_keys d e = (key_down e = key_down d \<and> k_down e = k_down d \<and> shift_state e = shift_state d)"

lemma same_keys_tracks: "same_keys d e \<Longrightarrow> tracks e = tracks d"
  by (simp add: same_keys_def tracks_def held_def)

lemma same_keys_simps [simp]:
  "same_keys d (put_queue c d)" "same_keys d (puts_queue str d)" "same_keys d (applkey k m d)" "same_keys d (to_utf8 w d)" "same_keys d d"
  "same_keys d (d\<lparr>npadch := n\<rparr>)" "same_keys d (upd_kb f d)" "same_keys d (d\<lparr>prev_scancode := p\<rparr>)" "same_keys d (d\<lparr>kout := os\<rparr>)"
  "same_keys d (d\<lparr>stopped := b\<rparr>)" "same_keys d (kbd_bh mem d)" "same_keys d (put_queue c (put_queue c' d))"
  "same_keys d (kbd_ready mem d)"
  by (simp_all add: same_keys_def put_queue_def puts_queue_def applkey_def to_utf8_def upd_kb_def kbd_bh_def kbd_ready_def kbd_init_def keyboard_schedule_tasklet_def Let_def)

lemma handlers_keys:
  assumes "kbd_ok d"
  shows "do_self v up d = Some e \<Longrightarrow> same_keys d e" "do_fn v up d = Some e \<Longrightarrow> same_keys d e" "do_cons v up d = Some e \<Longrightarrow> same_keys d e"
    "do_meta v up d = Some e \<Longrightarrow> same_keys d e" "do_ascii v up d = Some e \<Longrightarrow> same_keys d e" "do_cur v up d = Some e \<Longrightarrow> same_keys d e"
  by (auto simp: do_self_plain [OF assms] do_fn_def do_cons_def keyboard_set_console_def do_meta_def do_ascii_def do_cur_def Let_def bind_eq_Some_conv
      split: if_splits option.splits)

lemma do_pad_keys: "kbd_ok d \<Longrightarrow> do_pad v up d = Some e \<Longrightarrow> same_keys d e"
  using handlers_keys(2,6) [of d] by (auto simp: do_pad_def Let_def bind_eq_Some_conv split: if_splits)

lemma do_spec_keys:
  assumes "kbd_ok d" "v \<noteq> 14" "do_spec v up d = Some e" shows "same_keys d e \<or> tracks e"
proof (cases "up \<or> unat v \<ge> length spec_fn_table \<or> (kbdmode (kb d) = VC_RAW \<or> kbdmode (kb d) = VC_MEDIUMRAW) \<and> v \<noteq> 15")
  case False
  have F: "same_keys d e \<or> tracks e" if "i < length spec_fn_table" "i \<noteq> 14" "(spec_fn_table ! i) d = Some e" for i
    using that compute_shiftstate_tracks [of d] kbd_okD(10) [OF assms(1)]
    by (auto simp: spec_fn_table_def less_Suc_eq enter_key_def caps_toggle_def num_key_def hold_key_def caps_on_def bare_num_def
        lastcons_def keyboard_set_console_def decr_console_def incr_console_def keyboard_start_tty_def keyboard_stop_tty_def Let_def split: option.splits if_splits)
  moreover have "unat v \<noteq> 14" using assms(2) by (auto simp: word_unat_eq_iff)
  ultimately show ?thesis using False assms(3) F [of "unat v"] by (simp add: do_spec_def not_le split: if_splits)
qed (use assms in \<open>auto simp: do_spec_def split: if_splits\<close>)

text \<open>The key that a symbol stands for is a modifier, or its handler leaves the modifiers alone.\<close>

lemma handler_keys:
  assumes "kbd_ok d" "sym_ok (unat s)" "KTYP s - 0xF0 \<noteq> 11" "(key_handler ! unat (KTYP s - 0xF0)) (KVAL s) up d = Some e" "shift_val s = None"
  shows "same_keys d e \<or> tracks e"
proof -
  obtain t v where t: "unat s div 256 = t" and v: "unat s mod 256 = v" by blast
  have tv: "256 * t + v = unat s" unfolding t [symmetric] v [symmetric] by simp
  moreover have "v < 256" using v by auto
  ultimately have b: "240 \<le> t" "t \<le> 251" "t \<noteq> 244" "t \<noteq> 250" "t = 242 \<Longrightarrow> v \<noteq> 14"
    using sym_ok_bytes [of t v] assms(2) by simp_all
  have k: "unat (KTYP s - 0xF0) = t - 240" "unat (KVAL s) = v" using sym_type(2) [OF assms(2)] sym_bytes(2) [of s] t v by simp_all
  have "t \<noteq> 247" using assms(5) tv \<open>v < 256\<close> by (auto simp: shift_val_def split: if_splits)
  moreover have "t \<noteq> 251" using assms(3) k(1) by (auto simp: word_unat_eq_iff)
  ultimately have "t - 240 \<in> {0, 1, 2, 3, 5, 6, 8, 9}" using b(1-4) unfolding insert_iff empty_iff by arith
  moreover have "t - 240 = 2 \<Longrightarrow> KVAL s \<noteq> 14" using b k(2) by (auto simp: word_unat_eq_iff)
  ultimately show ?thesis using assms(4) handlers_keys [OF assms(1)] do_pad_keys [OF assms(1)] do_spec_keys [OF assms(1), of "KVAL s" up e] unfolding k(1)
    by (auto simp: key_handler_def)
qed

lemma shift_handler:
  assumes "sym_ok (unat s)" "shift_val s = Some v"
  shows "(key_handler ! unat (KTYP s - 0xF0)) (KVAL s) = do_shift (KVAL s)" "KTYP s - 0xF0 \<noteq> 11" "unat (KVAL s) = v" "KVAL s < 4"
proof -
  have k: "KTYP s = 0xF7" using shift_val_bytes(1) [OF assms(1)] assms(2) by simp
  then show "(key_handler ! unat (KTYP s - 0xF0)) (KVAL s) = do_shift (KVAL s)" "KTYP s - 0xF0 \<noteq> 11" by (simp_all add: key_handler_def)
  show v: "unat (KVAL s) = v" using shift_val_bytes(2) [OF assms] .
  then show "KVAL s < 4" using shift_val_small [OF assms] by (simp add: word_less_nat_alt)
qed

lemma do_shift_state:
  assumes "length (k_down d) = 9" "unat value < 4" "\<not> key_rep d" "do_shift value up d = Some e"
  defines "v \<equiv> unat value" and "n \<equiv> k_down d ! unat value"
  defines "n' \<equiv> (if up then (if n \<noteq> 0 then n - 1 else n) else n + 1)"
  shows "key_down e = key_down d" "k_down e = (k_down d)[v := n']"
    "shift_state e = (if n' \<noteq> 0 then shift_state d OR push_bit v 1 else shift_state d AND NOT (push_bit v 1))"
proof -
  have "value \<noteq> 8" using assms(2) by auto
  then have *: "do_shift value up d =
      (let d' = d\<lparr>k_down := (k_down d)[v := n'], shift_state := (if n' \<noteq> 0 then shift_state d OR push_bit v 1 else shift_state d AND NOT (push_bit v 1))\<rparr>
       in Some (if up \<and> shift_state d' \<noteq> shift_state d \<and> npadch d' \<noteq> -1 then (if kbdmode (kb d') = VC_UNICODE then to_utf8 (ucast (npadch d')) d' else put_queue (npadch d' AND 0xFF) d')\<lparr>npadch := -1\<rparr> else d'))"
    using assms(1-3) unfolding do_shift_def v_def n_def n'_def by (simp add: kbd_index_def Let_def)
  show "key_down e = key_down d" "k_down e = (k_down d)[v := n']"
    "shift_state e = (if n' \<noteq> 0 then shift_state d OR push_bit v 1 else shift_state d AND NOT (push_bit v 1))"
    using assms(4) unfolding * Let_def by (auto simp: put_queue_def to_utf8_def Let_def split: if_splits)
qed

text \<open>A press or a release that changes the keys \<open>h\<close> that are down.\<close>

lemma do_shift_tracks:
  assumes "kbd_ok d" "unat value < 4" "\<not> key_rep d" "do_shift value up d = Some e"
    and k: "\<And>v. v < 9 \<Longrightarrow> k_down d ! v = of_nat (card (h v))" "\<And>v. bit (shift_state d) v \<longleftrightarrow> h v \<noteq> {}" "finite (h (unat value))"
    and n: "\<And>v. v \<noteq> unat value \<Longrightarrow> held d v = h v"
      "if up then key \<in> h (unat value) \<and> held d (unat value) = h (unat value) - {key} else key \<notin> h (unat value) \<and> held d (unat value) = insert key (h (unat value))"
    and c: "card (h (unat value)) < 255"
  shows "tracks e"
proof -
  let ?v = "unat value"
  let ?n = "if up then (if k_down d ! ?v \<noteq> 0 then k_down d ! ?v - 1 else k_down d ! ?v) else k_down d ! ?v + 1"
  define m where "m = card (held d ?v)"
  note e = do_shift_state [OF kbd_okD(1) [OF assms(1)] assms(2-4)]
  have z: "(of_nat j :: u8) = 0 \<longleftrightarrow> j = 0" if "j < 256" for j using that by (simp add: word_unat_eq_iff unat_of_nat)
  have m: "up \<Longrightarrow> card (h ?v) = Suc m" "\<not> up \<Longrightarrow> m = Suc (card (h ?v))"
    using n(2) card_Suc_Diff1 [OF k(3), of key] k(3) by (simp_all add: m_def)
  then have m256: "m < 256" using c by (cases up) simp_all
  have kv: "k_down d ! ?v = of_nat (card (h ?v))" using k(1) assms(2) by simp
  have nm: "?n = of_nat m"
  proof (cases up)
    case True
    have "(of_nat (Suc m) :: u8) \<noteq> 0" using z [of "Suc m"] m(1) [OF True] c by simp
    then show ?thesis using True unfolding kv m(1) [OF True] by (simp only: if_True of_nat_Suc add_diff_cancel_left' simp_thms)
  next
    case False
    then show ?thesis unfolding kv m(2) [OF False] by (simp only: if_False of_nat_Suc add.commute)
  qed
  have h: "held e w = held d w" for w using e(1) by (simp add: held_def)
  have em: "held d ?v \<noteq> {} \<longleftrightarrow> m \<noteq> 0" by (simp add: m_def)
  have "k_down e ! w = of_nat (card (held e w))" if "w < 9" for w
    using k(1) [OF that] n(1) [of w] kbd_okD(1) [OF assms(1)] that by (cases "w = ?v") (simp_all add: e(2) h nm m_def)
  moreover have "bit (shift_state e) w \<longleftrightarrow> held e w \<noteq> {}" for w
    unfolding e(3) nm z [OF m256] h
    using k(2) [of w] n(1) [of w] em assms(2) by (cases "w = ?v") (auto simp: bit_simps simp del: push_bit_of_1 dest: bit_imp_le_length)
  ultimately show ?thesis by (simp add: tracks_def)
qed

lemma shift_val_same: "same_shift (unat s) (unat p) \<Longrightarrow> shift_val s = shift_val p"
  by (auto simp: same_shift_def shift_val_def)

lemma handle_key_keys:
  assumes "kbd_ok d" "handle_key False keycode up d = Some e"
  shows "tracks e \<or> (shift_val (plain_map ! unat keycode) = None \<and> same_keys d e) \<or>
    (\<exists>v sym x. shift_val (plain_map ! unat keycode) = Some v \<and> unat sym = v \<and> v < 4 \<and> do_shift sym up d = Some x \<and> same_keys x e)"
proof -
  note k = kbd_okD [OF assms(1)]
  let ?i = "unat (shift_state d)"
  have i: "?i < 256" using k(9) by simp
  have kc: "unat keycode < 256" using unsigned_less [of keycode, where 'a = nat] by simp
  have skip: "same_keys x (upd_kb f x)" "tracks (upd_kb f x) = tracks x" for f x using same_keys_tracks [OF same_keys_simps(7)] by simp_all
  show ?thesis
  proof (cases "key_maps ! ?i")
    case None
    then show ?thesis using assms(2) compute_shiftstate_tracks [of d] k(6,7) i by (auto simp: handle_key_def kbd_index_def skip)
  next
    case (Some m)
    let ?s = "m ! unat keycode"
    note m = key_map_sym [OF key_maps_at [OF i Some] kc]
    note sv = shift_val_same [OF m(2)]
    show ?thesis
    proof (cases "KTYP ?s - 0xF0 = 11")
      case True
      then have "shift_val ?s = None" using shift_val_bytes(1) [OF m(1)] by auto
      moreover have "same_keys d e" using True Some i k(6,7) sym_type(1) [OF m(1)] assms
        by (auto simp: handle_key_def kbd_index_def Let_def key_handler_def do_self_plain bind_eq_Some_conv same_keys_def put_queue_def split: if_splits)
      ultimately show ?thesis using sv by simp
    next
      case False
      then obtain x where x: "(key_handler ! unat (KTYP ?s - 0xF0)) (KVAL ?s) up d = Some x" "same_keys x e"
        using Some i k(6,7) sym_type(1) [OF m(1)] assms(2) by (auto simp: handle_key_def kbd_index_def Let_def bind_eq_Some_conv split: if_splits)
      show ?thesis
      proof (cases "shift_val ?s")
        case None
        from handler_keys [OF assms(1) m(1) False x(1) None] x(2) have "same_keys d e \<or> tracks e"
          using same_keys_tracks [OF x(2)] by (auto simp: same_keys_def)
        with None sv show ?thesis by auto
      next
        case (Some v)
        with x shift_handler [OF m(1) Some] sv shift_val_small [OF m(1) Some] show ?thesis by auto
      qed
    qed
  qed
qed

lemma held_few: "card (held d v) < 255"
proof -
  have "held d v \<subseteq> {2..<256}"
  proof
    fix k assume k: "k \<in> held d v"
    have "shift_val (plain_map ! 0) = None" "shift_val (plain_map ! 1) = None" by (simp_all add: plain_map_def shift_val_def unat_of_nat)
    then have "k \<noteq> 0 \<and> k \<noteq> 1" using k unfolding held_def by (metis (mono_tags, lifting) mem_Collect_eq option.distinct(1))
    then show "k \<in> {2..<256}" using k by (simp add: held_def)
  qed
  from card_mono [OF _ this] show ?thesis by simp
qed

lemma bits_at:
  assumes "length a = 8" "k < 256"
  shows "test_bit j (set_bit_at k a) \<longleftrightarrow> j = k \<or> test_bit j a" "test_bit j (clear_bit_at k a) \<longleftrightarrow> j \<noteq> k \<and> test_bit j a"
proof -
  have e: "j = k \<longleftrightarrow> j div 32 = k div 32 \<and> j mod 32 = k mod 32" by (metis div_mult_mod_eq)
  have l: "k div 32 < length a" using assms by auto
  show "test_bit j (set_bit_at k a) \<longleftrightarrow> j = k \<or> test_bit j a" unfolding e
    using l by (cases "j div 32 = k div 32") (auto simp: test_bit_def set_bit_at_def bit_simps simp del: push_bit_of_1)
  show "test_bit j (clear_bit_at k a) \<longleftrightarrow> j \<noteq> k \<and> test_bit j a" unfolding e
    using l by (cases "j div 32 = k div 32") (auto simp: test_bit_def clear_bit_at_def bit_simps simp del: push_bit_of_1 dest: bit_imp_le_length)
qed

text \<open>A code that completes the release of a key that is not down does not come from a keyboard.\<close>

definition expected :: "u8 \<Rightarrow> kbd_dev \<Rightarrow> bool" where
  "expected c d =
     (case fst (kbd_translate c d) of
        None \<Rightarrow> True
      | Some keycode \<Rightarrow> c AND 0x80 = 0 \<or> test_bit (unat keycode) (key_down d))"

lemma note_key_tracks:
  assumes "kbd_ok d" "tracks d" "note_key keycode up d = (up', d1)" "up \<longrightarrow> test_bit (unat keycode) (key_down d)" "handle_key False keycode up' d1 = Some e"
  shows "tracks e"
proof -
  let ?k = "unat keycode"
  have kc: "?k < 256" using unsigned_less [of keycode, where 'a = nat] by simp
  note b = bits_at [OF kbd_okD(2) [OF assms(1)] kc]
  have ok: "kbd_ok d1" using note_key_ok [OF assms(1), of keycode up] assms(3) by simp
  have u: "up' = up" using assms(3,4) by (auto simp: note_key_def Let_def split: if_splits)
  have h: "held d1 v = (if shift_val (plain_map ! ?k) = Some v then (if up then held d v - {?k} else insert ?k (held d v)) else held d v)" for v
    using assms(3) kc by (auto simp: note_key_def Let_def held_def b split: if_splits)
  have s: "k_down d1 = k_down d" "shift_state d1 = shift_state d" and rep: "key_rep d1 \<longleftrightarrow> \<not> up \<and> test_bit ?k (key_down d)"
    using assms(3) by (auto simp: note_key_def Let_def split: if_splits)
  note t = assms(2) [unfolded tracks_def, THEN conjunct1, rule_format] assms(2) [unfolded tracks_def, THEN conjunct2, rule_format]
  from handle_key_keys [OF ok assms(5) [unfolded u]] consider "tracks e" | "shift_val (plain_map ! ?k) = None" "same_keys d1 e"
    | (shift) v sym x where "shift_val (plain_map ! ?k) = Some v" "unat sym = v" "v < 4" "do_shift sym up d1 = Some x" "same_keys x e" by (elim disjE conjE exE) blast+
  then show ?thesis
  proof cases
    case 2
    then have "tracks d1" using t s h by (simp add: tracks_def)
    with same_keys_tracks [OF 2(2)] show ?thesis by simp
  next
    case shift
    have "tracks x"
    proof (cases "key_rep d1")
      case True
      then have "x = d1" using shift(4) by (simp add: do_shift_def)
      moreover have "held d1 w = held d w" for w using True rep kc h by (auto simp: held_def)
      ultimately show ?thesis using t s by (simp add: tracks_def)
    next
      case False
      have "if up then ?k \<in> held d v \<and> held d1 v = held d v - {?k} else ?k \<notin> held d v \<and> held d1 v = insert ?k (held d v)"
        using False rep assms(4) shift(1) kc h by (auto simp: held_def)
      then show ?thesis using do_shift_tracks [OF ok _ False shift(4), of "held d" ?k] shift(1-3) t s h held_few [of d v] by simp
    qed
    with same_keys_tracks [OF shift(5)] show ?thesis by simp
  qed simp
qed

fun expected_run :: "(u32 \<Rightarrow> u32) \<Rightarrow> u8 list \<Rightarrow> kbd_dev \<Rightarrow> bool" where
  "expected_run mem [] d = True"
| "expected_run mem (c # cs) d =
     ((c \<noteq> 0 \<and> c \<noteq> 0xFF \<longrightarrow> expected c d) \<and>
      (case do_scancode mem c d of None \<Rightarrow> True | Some (out, d) \<Rightarrow> expected_run mem cs d))"

lemma tracks_skip: "tracks (d\<lparr>kout := os\<rparr>) = tracks d" "tracks (kbd_bh mem d) = tracks d" "tracks (d\<lparr>prev_scancode := p\<rparr>) = tracks d" "tracks (kbd_ready mem d) = tracks d"
  by (rule same_keys_tracks; simp)+

lemma ready_fields [simp]:
  "key_down (kbd_ready mem d) = key_down d" "prev_scancode (kbd_ready mem d) = prev_scancode d"
  "e0_keys (kbd_ready mem d) = e0_keys d" "high_keys (kbd_ready mem d) = high_keys d"
  by (simp_all add: kbd_ready_def kbd_init_def keyboard_schedule_tasklet_def kbd_bh_def Let_def)

lemma expected_ready: "expected c (kbd_ready mem d) = expected c d"
  by (simp add: expected_def kbd_translate_def Let_def split: if_splits)

lemma handle_scancode_tracks:
  assumes "kbd_ok d" "kbd_inited d" "tracks d" "expected c d" "handle_scancode c (c AND 0x80 = 0) d = Some e"
  shows "tracks e"
proof -
  obtain r d1 where t: "kbd_translate c d = (r, d1)" by fastforce
  from translate_ok [OF t] obtain p where d1: "d1 = d\<lparr>prev_scancode := p\<rparr>" by blast
  have ok: "kbd_ok d1" "tracks d1" "kbd_inited d1" using assms(1-3) by (simp_all add: d1 tracks_skip)
  show ?thesis
  proof (cases r)
    case None
    with t ok(2) assms(5) kbd_okD(8) [OF assms(1)] show ?thesis by (simp add: handle_scancode_def)
  next
    case (Some keycode)
    let ?up = "c AND 0x80 \<noteq> 0"
    obtain up' d2 where n: "note_key keycode ?up d1 = (up', d2)" by fastforce
    then have ok2: "kbd_ok d2" "kbd_inited d2" using note_key_ok [OF ok(1), of keycode ?up] ok(3) by (auto simp: note_key_def Let_def split: if_splits)
    then have "vc_kbd_mode (kb d2) VC_REPEAT" by (simp add: kbd_ok_def vc_kbd_mode_def)
    with t Some n assms(5) kbd_okD(8) [OF assms(1)] kbd_okD(8) [OF ok2(1)] have "handle_key False keycode up' d2 = Some e"
      by (simp add: handle_scancode_def Let_def split: if_splits)
    moreover have "?up \<longrightarrow> test_bit (unat keycode) (key_down d1)" using assms(4) t Some d1 by (auto simp: expected_def)
    ultimately show ?thesis using note_key_tracks [OF ok(1,2) n] by blast
  qed
qed

lemma do_scancode_tracks:
  assumes "kbd_ok d" "tracks d" "c \<noteq> 0 \<and> c \<noteq> 0xFF \<longrightarrow> expected c d" "do_scancode mem c d = Some (out, e)"
  shows "tracks e"
  using assms handle_scancode_tracks [OF kbd_ready_ok(1) [OF assms(1)] kbd_ready_ok(2), of mem c]
  by (auto simp: do_scancode_ready bind_eq_Some_conv tracks_skip expected_ready split: if_splits)

lemma tracks_dev0: "tracks kbd_dev0"
proof -
  have "held kbd_dev0 v = {}" for v by (auto simp: held_def kbd_dev0_def test_bit_def)
  then show ?thesis by (simp add: tracks_def) (simp add: kbd_dev0_def)
qed

lemma kbd_run_tracks:
  "kbd_ok d \<Longrightarrow> tracks d \<Longrightarrow> expected_run mem cs d \<Longrightarrow> kbd_run mem cs d = Some (out, e) \<Longrightarrow> tracks e"
proof (induction cs arbitrary: d out)
  case (Cons c cs)
  obtain out1 d1 where d1: "do_scancode mem c d = Some (out1, d1)" "kbd_ok d1" using do_scancode_ok [OF Cons.prems(1)] by blast
  with Cons.prems have "tracks d1" using do_scancode_tracks [OF Cons.prems(1,2) _ d1(1)] by simp
  with Cons.IH [OF d1(2) this] Cons.prems d1 show ?case by auto
qed simp

text \<open>
  C20. The driver knows which modifiers are down: from the start on, as long as only keys are released
  that were pressed, bit \<open>v\<close> of \<^verbatim>\<open>shift_state\<close> is set if and only if some key that the map gives the
  modifier \<open>v\<close> is down, and \<^verbatim>\<open>k_down[v]\<close> is the number of these keys: with both shift keys down, the
  release of one does not end the shift.
\<close>

theorem modifiers_tracked:
  assumes "expected_run mem cs kbd_dev0" "kbd_run mem cs kbd_dev0 = Some (out, d)"
  shows "(bit (shift_state d) v \<longleftrightarrow> (\<exists>k < 256. test_bit k (key_down d) \<and> shift_val (plain_map ! k) = Some v)) \<and>
    (v < 9 \<longrightarrow> k_down d ! v = of_nat (card {k. k < 256 \<and> test_bit k (key_down d) \<and> shift_val (plain_map ! k) = Some v}))"
  using kbd_run_tracks [OF kbd_ok_dev0 tracks_dev0 assms] by (auto simp: tracks_def held_def)

lemma ex_entries: "plain_map ! 42 = 0xF700" "plain_map ! 54 = 0xF700" "shift_map ! 54 = 0xF700" "shift_map ! 42 = 0xF700"
  by (simp_all add: plain_map_def shift_map_def)

lemma ex_maps: "key_maps ! 0 = Some plain_map" "key_maps ! Suc 0 = Some shift_map" "key_maps ! 1 = Some shift_map"
  by (simp_all add: key_maps_def)

lemmas kbd_eval = do_scancode_def kbd_init_def keyboard_schedule_tasklet_def kbd_bh_def getleds_def kb_def keyboard_fg_console_def
  handle_scancode_def kbd_translate_def note_key_def test_bit_def set_bit_at_def clear_bit_at_def handle_key_def kbd_index_def upd_kb_def
  vc_kbd_mode_def vc_kbd_led_def key_handler_def do_shift_def kbd_dev0_def Let_def ex_maps

text \<open>Both shift keys are pressed, and the left one is released.\<close>

theorem modifiers_tracked_witness:
  "\<exists>out d. kbd_run (\<lambda>_. 0) [0x2A, 0x36, 0xAA] kbd_dev0 = Some (out, d) \<and> bit (shift_state d) 0"
proof -
  have "\<exists>out d. kbd_run (\<lambda>_. 0) [0x2A, 0x36, 0xAA] kbd_dev0 = Some (out, d) \<and> test_bit 54 (key_down d)"
    by (simp add: kbd_eval ex_entries)
  then obtain out d where d: "kbd_run (\<lambda>_. 0) [0x2A, 0x36, 0xAA] kbd_dev0 = Some (out, d)" "test_bit 54 (key_down d)" by blast
  have "expected_run (\<lambda>_. 0) [0x2A, 0x36, 0xAA] kbd_dev0" by (simp add: kbd_eval ex_entries expected_def)
  from conjunct1 [OF modifiers_tracked [OF this d(1), of 0]] d(2) have "bit (shift_state d) 0"
    by (auto simp: shift_val_def ex_entries intro!: exI [of _ 54])
  with d(1) show ?thesis by blast
qed

section \<open>Characters\<close>

text \<open>
  The character of a key: that of the map of the modifiers; with caps lock, letters are taken
  from the map with shift the other way round, if there is one.
\<close>

definition key_char :: "kbd_dev \<Rightarrow> u16 list \<Rightarrow> u8 \<Rightarrow> u8" where
  "key_char d m keycode =
     (let s = m ! unat keycode in
      if KTYP s = 0xFB \<and> vc_kbd_led (kb d) VC_CAPSLOCK then
        (case key_maps ! unat (shift_state d XOR 1) of None \<Rightarrow> KVAL s | Some m' \<Rightarrow> KVAL (m' ! unat keycode))
      else KVAL s)"

lemma ready_id: "kbd_inited d \<Longrightarrow> kbd_ready mem d = d\<lparr>kout := []\<rparr>"
  by (simp add: kbd_ready_def)

lemma handle_key_char:
  assumes "kbd_ok d" "key_maps ! unat (shift_state d) = Some m" "KTYP (m ! unat keycode) = 0xF0 \<or> KTYP (m ! unat keycode) = 0xFB"
  shows "handle_key False keycode False d = Some (upd_kb (slockstate_update (\<lambda>_. 0)) (put_queue (ucast (key_char d m keycode)) d))"
proof -
  note k = kbd_okD [OF assms(1)]
  have i: "unat (shift_state d) < 256" using k(9) by simp
  have "take_bit 4 (shift_state d XOR 1) = shift_state d XOR 1" using k(9) unfolding small_take by (simp add: take_bit_xor)
  then have x: "unat (shift_state d XOR 1) < 256" using small_take [of "shift_state d XOR 1"] by simp
  show ?thesis using assms(2,3) i x k(6,7) do_self_plain [OF assms(1)]
    by (auto simp: handle_key_def kbd_index_def key_char_def key_handler_def Let_def split: option.splits)
qed

lemma put_queue_char: "put_queue (ucast (v :: u8)) d = d\<lparr>kout := kout d @ [Data (if v = 0 then [] else [char_of (unat v)])]\<rparr>"
proof -
  have "ucast (ucast v :: u32) = v" by transfer simp
  then show ?thesis by (simp add: put_queue_def)
qed

lemma low_code:
  assumes "unat (c :: u8) < 128" shows "c AND 0x80 = 0" "c AND 0x7F = c"
proof -
  have t: "take_bit 7 c = c" using assms by (simp add: word_unat_eq_iff unsigned_take_bit_eq take_bit_nat_eq_self)
  have e: "(0x7F :: u8) = mask 7" "(0x80 :: u8) = push_bit 7 1" by (simp_all add: mask_eq_exp_minus_1)
  show c: "c AND 0x7F = c" unfolding e by (simp add: t take_bit_eq_mask [symmetric])
  have "c AND 0x80 = (c AND 0x7F) AND 0x80" by (simp only: c)
  then show "c AND 0x80 = 0" by (simp add: and.assoc)
qed

lemma key_press:
  assumes "kbd_ok d" "kbd_inited d" "prev_scancode d = 0" "0 < c" "unat c < SC_LIM" "key_maps ! unat (shift_state d) = Some m"
    "KTYP (m ! unat c) = 0xF0 \<or> KTYP (m ! unat c) = 0xFB"
  shows "\<exists>lights e. do_scancode mem c d = Some (Data (if key_char d m c = 0 then [] else [char_of (unat (key_char d m c))]) # map Leds lights, e)"
proof -
  let ?d = "d\<lparr>kout := []\<rparr>"
  let ?e = "?d\<lparr>key_rep := test_bit (unat c) (key_down d), key_down := set_bit_at (unat c) (key_down d)\<rparr>"
  have c: "c \<noteq> 0xE0" "c \<noteq> 0xE1" "c \<noteq> 0xFF" "c \<noteq> 0" using assms(4,5) by auto
  note l = low_code [of c]
  have t: "kbd_translate c ?d = (Some c, ?d)" using assms(3,5) c l by (simp add: kbd_translate_def Let_def)
  have n: "note_key c False ?d = (False, ?e)" by (simp add: note_key_def Let_def)
  have ok: "kbd_ok ?e" using note_key_ok [of ?d c False] n assms(1) by simp
  have kc: "key_char ?e m c = key_char d m c" by (simp add: key_char_def Let_def)
  have "vc_kbd_mode (kb d) VC_REPEAT" using assms(1,2) by (simp add: kbd_ok_def vc_kbd_mode_def)
  then have "handle_scancode c True ?d = handle_key False c False ?e"
    using t n kbd_okD(8) [OF assms(1)] by (simp add: handle_scancode_def Let_def)
  also have "\<dots> = Some (upd_kb (slockstate_update (\<lambda>_. 0)) (put_queue (ucast (key_char d m c)) ?e))"
    using handle_key_char [OF ok, of m c] assms(6,7) kc by simp
  finally show ?thesis using c l assms(5)
    by (auto simp: do_scancode_ready ready_id [OF assms(2)] kbd_bh_def put_queue_char Let_def intro: exI [of _ "[]"] exI [of _ "[x]" for x])
qed

text \<open>
  A release that was not expected of a key with a code from 89 on, right control among them, is
  taken for a press: control then counts as down although no key is, until the driver
  counts the keys anew.
\<close>

theorem release_taken_for_press:
  "\<exists>out d. kbd_run (\<lambda>_. 0) [0xE0, 0x9D] kbd_dev0 = Some (out, d) \<and> bit (shift_state d) 2 \<and> (\<forall>k < 256. \<not> test_bit k (key_down d))"
proof -
  have e: "e0_keys0 ! 29 = 97" "plain_map ! 97 = 0xF702" by (simp_all add: e0_keys0_def plain_map_def)
  have "\<exists>out d. kbd_run (\<lambda>_. 0) [0xE0, 0x9D] kbd_dev0 = Some (out, d) \<and> shift_state d = 4 \<and> key_down d = replicate 8 0"
    by (simp add: kbd_eval e kbd_unexpected_up_def) (simp add: list_eq_iff_nth_eq nth_list_update)
  then show ?thesis by (auto simp: test_bit_def bit_iff_odd)
qed

section \<open>Key codes\<close>

text \<open>
  The table of key codes: \<^verbatim>\<open>setkeycode\<close> accepts exactly the scan codes from 89 to 255 and key codes
  below 128; \<^verbatim>\<open>getkeycode\<close> then returns the new code, and the old one for every other scan code; and
  the translation of the scan code, or of the code behind the prefix \<^verbatim>\<open>0xe0\<close>, yields it, but for
  the two codes of the keyboard's own shift.
\<close>

theorem setkeycode_translates:
  assumes "kbd_ok d" "89 \<le> unat sc" "unat sc < 256" "0 < unat k" "unat k < 128"
  shows "\<exists>e. setkeycode sc k d = (0, e) \<and> getkeycode sc e = uint k \<and> (\<forall>sc'. sc' \<noteq> sc \<longrightarrow> getkeycode sc' e = getkeycode sc' d) \<and>
    (unat sc < 128 \<and> prev_scancode d = 0 \<or> 128 \<le> unat sc \<and> prev_scancode d = 0xE0 \<and> unat sc - 128 \<notin> {0, 0x2A, 0x36} \<longrightarrow>
     fst (kbd_translate (of_nat (unat sc mod 128)) e) = Some (ucast k))"
proof -
  note l = kbd_okD(4,5) [OF assms(1)]
  have w: "v < 128 \<longleftrightarrow> unat v < 128" "v > 255 \<longleftrightarrow> unat v > 255" "v > 127 \<longleftrightarrow> unat v > 127" for v :: u32
    by (simp_all add: word_less_nat_alt)
  have k: "uint (ucast k :: u8) = uint k" "(ucast k :: u8) \<noteq> 0"
  proof -
    have u: "unat (ucast k :: u8) = unat k" using assms(5) by (simp add: unsigned_ucast_eq take_bit_nat_eq_self)
    then show "uint (ucast k :: u8) = uint k" by (metis unat_eq_nat_uint int_nat_eq uint_nat)
    show "(ucast k :: u8) \<noteq> 0" using u assms(4) by (metis unat_0 less_irrefl)
  qed
  have ne: "unat sc' \<noteq> unat sc" if "sc' \<noteq> sc" for sc' using that by (simp add: word_unat_eq_iff)
  have ne': "unat sc - 89 \<noteq> unat sc' - 89" if "sc' \<noteq> sc" "\<not> unat sc' < 89" for sc'
    using ne [OF that(1)] that(2) assms(2) by linarith
  define c :: u8 where "c = of_nat (unat sc mod 128)"
  have uc: "unat c = unat sc mod 128" by (simp add: c_def unat_of_nat)
  have cs: "c AND 0x7F = c" "c \<noteq> 0xE0" "c \<noteq> 0xE1" "c \<noteq> 0xFF" using low_code(2) [of c] uc by (auto simp: word_unat_eq_iff)
  have cn: "c = numeral n \<longleftrightarrow> unat c = unat (numeral n :: u8)" "c = 0 \<longleftrightarrow> unat c = 0" for n by (simp_all add: word_unat_eq_iff)
  show ?thesis
  proof (cases "unat sc < 128")
    case True
    then have m: "unat sc mod 128 = unat sc" by simp
    have "c \<noteq> 0" using uc m assms(2) by (auto simp: cn)
    then show ?thesis using True assms k l ne' cs uc m unfolding c_def [symmetric]
      by (auto simp: setkeycode_def getkeycode_def kbd_translate_def w Let_def nth_list_update)
  next
    case False
    then have m: "unat sc mod 128 = unat sc - 128" using assms(3) by (simp add: mod_if)
    have ne'': "unat sc - 128 \<noteq> unat sc' - 128" if "sc' \<noteq> sc" "\<not> unat sc' < 128" for sc'
      using ne [OF that(1)] that(2) False by linarith
    show ?thesis using False assms k l ne'' cs uc m unfolding c_def [symmetric]
      by (auto simp: setkeycode_def getkeycode_def kbd_translate_def w Let_def nth_list_update cn)
  qed
qed

theorem setkeycode_translates_witness:
  "\<exists>e. setkeycode 0x71 30 kbd_dev0 = (0, e) \<and> fst (kbd_translate 0x71 e) = Some 30"
proof -
  have "prev_scancode kbd_dev0 = 0" by (simp add: kbd_dev0_def)
  with setkeycode_translates [OF kbd_ok_dev0, of "0x71" 30] show ?thesis by auto
qed

end
