(* ===== verification/Keyboard_Props.thy ===== *)
theory Keyboard_Props
  imports System Example Kbd_Props
begin

unbundle bit_operations_syntax

text \<open>The keyboard in the kernel: from the interrupt over the driver and the formatter to the screen.\<close>

section \<open>Echo\<close>

lemma doprnt_s: "doprnt 0 ''%s'' [Str [c]] = Some [c]"
  by (simp add: doprnt.simps directive_def scan_width_def starts_with_digit_def isdigit_def schar_def
      scan_prec_def convert_def print_string_def pad_def Let_def)

lemma deliver_lights: "fold kbd_deliver (map Leds lights) s = s"
  by (induction lights arbitrary: s) (simp_all add: kbd_deliver_def)

lemma char_byte: "(of_char (char_of (unat (w :: u8)) :: char) :: u8) = w"
proof -
  have "(of_char (char_of (unat w) :: char) :: u8) = of_nat (of_char (char_of (unat w) :: char))" by (simp only: of_nat_of_char)
  also have "(of_char (char_of (unat w) :: char) :: nat) = unat w mod 256" by simp
  also have "unat w mod 256 = unat w" using unsigned_less [of w, where 'a = nat] by simp
  finally show ?thesis by simp
qed

text \<open>
  C19. A key that stands for a character, pressed or repeated while the modifiers that are down select
  the map \<open>m\<close>, makes the keyboard interrupt print exactly this character on the console, with caps
  lock and shift taken into account; nothing else in the kernel changes but the state of the
  driver.
\<close>

theorem typed_key_echoed:
  assumes "sysinv s" "kbd_inited (keyboard s)" "prev_scancode (keyboard s) = 0" "CONSOLE_ECHO s \<noteq> 0" "0 < c" "unat c < 89"
    "key_maps ! unat (shift_state (keyboard s)) = Some m" "KTYP (m ! unat c) = 0xF0 \<or> KTYP (m ! unat c) = 0xFB" "key_char (keyboard s) m c \<noteq> 0"
  shows "\<exists>d. keyboard_interrupt c s = Inr (s\<lparr>keyboard := d, scr := console_putbytes [key_char (keyboard s) m c] (scr s)\<rparr>)"
proof -
  have "kbd_ok (keyboard s)" using assms(1) by (simp add: sysinv_def devices_ok_def)
  from key_press [OF this assms(2,3,5-8), of "phys (mm (ker s))"] assms(9) obtain lights d where
    "do_scancode (phys (mm (ker s))) c (keyboard s) = Some (Data [char_of (unat (key_char (keyboard s) m c))] # map Leds lights, d)" by auto
  then show ?thesis using assms(4)
    by (auto simp: keyboard_interrupt_def kbd_deliver_def keyboard_data_def kprintf_def doprnt_s bytes_def deliver_lights char_byte)
qed

text \<open>The key at the place of A, without modifiers, on the French keyboard: q.\<close>

theorem typed_key_echoed_witness:
  "\<exists>d. keyboard_interrupt 0x1E (ex_sys\<lparr>keyboard := kbd_ready (\<lambda>_. 0) kbd_dev0\<rparr>) =
     Inr (ex_sys\<lparr>keyboard := d, scr := console_putbytes [0x71] (scr ex_sys)\<rparr>)"
proof -
  let ?d = "kbd_ready (\<lambda>_. 0) kbd_dev0" and ?s = "ex_sys\<lparr>keyboard := kbd_ready (\<lambda>_. 0) kbd_dev0\<rparr>"
  have m: "plain_map ! 30 = 0xFB71" by (simp add: plain_map_def)
  have d: "ledflagstate (kb ?d) = 0" "shift_state ?d = 0" "prev_scancode ?d = 0"
    by (simp_all add: kbd_ready_def kbd_dev0_def kbd_init_def keyboard_schedule_tasklet_def kbd_bh_def kb_def keyboard_fg_console_def Let_def)
  then have c: "key_char ?d plain_map 0x1E = 0x71" by (simp add: key_char_def m vc_kbd_led_def Let_def)
  have "sysinv ?s" using ex_sysinv kbd_ready_ok(1) [OF kbd_ok_dev0] by (simp add: sysinv_def devices_ok_def)
  from typed_key_echoed [OF this, of "0x1E" plain_map] c d(2,3) kbd_ready_ok(2) show ?thesis
    by (simp add: ex_maps m ex_sys_def)
qed

end
