(* ===== verification/Spec2Isabelle.thy ===== *)
theory Spec2Isabelle
  imports Error_Props Shm_Props Exit_Props User_Lib Strings_Spec Div64 Debugger Keyboard_Props
begin

text \<open>
  A verification of NebuleaOS, a small i386 kernel in C with preemptive priority scheduling,
  semaphores, message queues, shared pages and a text console.

  \<^bold>\<open>The program.\<close> A process enters the kernel by \<^verbatim>\<open>int 49\<close> (\<^verbatim>\<open>kernel/handler.S\<close>), which calls
  \<^verbatim>\<open>__syscall\<close> of \<^verbatim>\<open>kernel/syscall_kernel.c\<close>; the timer and the keyboard interrupt it through
  \<^verbatim>\<open>tic_PIT\<close> (\<^verbatim>\<open>kernel/time.c\<close>) and \<^verbatim>\<open>keyboard_interrupt\<close> (\<^verbatim>\<open>kernel/keyboard.c\<close>). The calls work on
  the process table and the lists of \<^verbatim>\<open>kernel/process.c\<close>, \<^verbatim>\<open>kernel/semaphore.c\<close> and
  \<^verbatim>\<open>kernel/message_queue.c\<close>, which are kept with the macros of \<^verbatim>\<open>shared/queue.h\<close>; memory comes
  from \<^verbatim>\<open>kernel/mmu.c\<close>; shared pages are named by the hash table of \<^verbatim>\<open>kernel/hash.c\<close>; output goes
  through \<^verbatim>\<open>shared/doprnt.c\<close> and \<^verbatim>\<open>shared/printf.c\<close> to \<^verbatim>\<open>kernel/screen.c\<close>. The kernel is not
  preemptible: a system call runs to its end, or to a context switch.

  \<^bold>\<open>Conventions.\<close> \<open>Prelude\<close> has the result type of kernel code: \<open>Inr\<close> of a value, or \<open>Inl\<close> of a
  trap (\<open>Panic\<close>, \<open>PageFault\<close> with the state the handler finds, \<open>UseAfterFree\<close>, \<open>OutOfRange\<close>, \<open>Loop\<close>). State is
  passed explicitly. Words of the machine are of type \<open>word\<close>; \<open>int\<close>s of C whose range matters
  are converted by \<open>to_short\<close> and \<open>to_int32\<close>. A context switch is the return value \<open>Switch\<close>: what
  the suspended process does next is stored as a continuation (\<open>kcont\<close>) in its \<open>registers\<close> field,
  one constructor per call of \<^verbatim>\<open>ctx_sw\<close>, and \<open>resume\<close> runs it when the process is elected.

  \<^bold>\<open>Theories, from the bottom.\<close>
  \<^item> \<open>Queue\<close>: \<^verbatim>\<open>shared/queue.h\<close>. The links of the rings as two maps, \<open>queue_add\<close>, \<open>queue_out\<close>,
    \<open>queue_del\<close> with their assertions and NULL accesses; the locale \<open>prio_queues\<close> is the contract,
    interpreted on priority-ordered lists (\<open>lq\<close>, used by all kernel theories) and on the pointer
    operations (\<open>cq\<close>), and a simulation relates the two.
  \<^item> \<open>Mmu\<close>, \<open>Mmu_Spec\<close>, \<open>Mmu_Props\<close>: \<^verbatim>\<open>kernel/mmu.c\<close> over a store of 32-bit words. The locale
    \<open>block_pool\<close> is the contract of the block allocator, interpreted on the free list; \<open>space\<close> is
    the map from pages to frames that a directory stands for. \<open>Start_Memory\<close> and \<open>Boot_Memory\<close> prove
    that the address spaces of a new process and of the idle process are set up without a fault
    when enough free blocks follow one another.
  \<^item> \<open>Kernel_State\<close>, \<open>Process\<close>, \<open>Semaphore\<close>, \<open>Message_Queue\<close>: the structures and every operation of
    \<^verbatim>\<open>process.c\<close>, \<^verbatim>\<open>semaphore.c\<close>, \<^verbatim>\<open>message_queue.c\<close>, and the code after a context switch.
  \<^item> \<open>Kernel_Inv\<close> states the invariant \<open>kI\<close>, conjunct by conjunct, with the exceptions operations
    need while they work; \<open>Scheduler_Spec\<close>, \<open>Process_Inv\<close>, \<open>Process_Calls\<close>, \<open>Start_Inv\<close>, \<open>Wake\<close>,
    \<open>Semaphore_Inv\<close>, \<open>Message_Queue_Inv\<close> prove that every operation keeps it and does not trap;
    \<open>Scheduler_Frame\<close> says what a context switch leaves alone.
  \<^item> \<open>Hash\<close>, \<open>Hash_Map\<close>: open addressing with perturbation, and its refinement of a map (locale
    \<open>hash_keys\<close>, interpreted for pointer keys and for strings).
  \<^item> \<open>Doprnt\<close>, \<open>Printf\<close>, \<open>Screen\<close>, \<open>Info\<close>: formatting, \<^verbatim>\<open>printf\<close>/\<^verbatim>\<open>sprintf\<close>, \<^verbatim>\<open>strtol\<close>, the video
    memory, the banner with the process table and the clock.
  \<^item> \<open>Strings\<close>, \<open>Strings_Spec\<close>, \<open>Div64\<close>: \<^verbatim>\<open>shared/string.c\<close> over a byte memory with 32-bit pointers,
    and the 64-bit division at the level of its instructions.
  \<^item> \<open>Kbd_Keymap\<close>, \<open>Kbd_Driver\<close>: the keyboard driver (\<^verbatim>\<open>kernel/kbd-linux\<close>) and its glue
    (\<^verbatim>\<open>kernel/keyboard-glue.c\<close>), from scan codes to strings, with the default key map; \<open>Kbd_Inv\<close> proves
    that it stays within its tables, \<open>Kbd_Props\<close> that it knows the modifiers that are down, and
    \<open>Keyboard_Props\<close> follows a key to the screen.
  \<^item> \<open>Shared_Memory\<close>, \<open>Syscall\<close>: shared pages, keyboard, dispatcher and interrupts on the state
    \<open>sys\<close> of the whole system; \<open>System_Inv\<close> and \<open>System\<close> prove \<open>sysinv\<close> invariant under the
    step relation \<open>sys_step\<close>, one step per interrupt or system call.
  \<^item> \<open>Early_Mm\<close>: \<^verbatim>\<open>kernel/boot/early_mm.c\<close>, the first page tables, zone by zone (the addresses of the
    linker script are the record \<open>layout\<close>); \<open>Cpu_Init\<close>: the descriptors, gates and interrupt
    controllers of \<^verbatim>\<open>kernel/boot/processor_structs.c\<close>; \<open>Multiboot\<close>: the check of the boot loader and
    the copy of its data (\<^verbatim>\<open>kernel/boot/multiboot.c\<close>); \<open>Boot\<close>: \<^verbatim>\<open>boot\<close> and \<^verbatim>\<open>kernel_start\<close>, from cleared memory to
    the first state in which \<open>sysinv\<close> holds.
  \<^item> \<open>Liveness\<close>: a ready process that none outranks is elected after a bounded number of timer
    interrupts; \<open>Exit_Props\<close>: what the end of a process leaves to its father.
  \<^item> \<open>User_Lib\<close>: the stubs of \<^verbatim>\<open>user/lib/syscall_user.c\<close>, the entry of a program, \<^verbatim>\<open>sbrk\<close>.
  \<^item> \<open>Gdb_Packet\<close>, \<open>Gdb_Memory\<close>, \<open>Gdb_Serial\<close>, \<open>Gdb_Props\<close>: the remote debugger (\<^verbatim>\<open>kernel/gdb_serial.c\<close>,
    \<^verbatim>\<open>kernel/gdb_serial_support.c\<close>), its packets, its access to memory through the page tables of the
    task, and its commands; \<open>Serial_Port\<close>: the port below it (\<^verbatim>\<open>kernel/serial.c\<close>) as an instance of the
    locale \<open>byte_line\<close>, the contract of a line of bytes; \<open>Debugger\<close>: the exception handler of \<^verbatim>\<open>kernel/debugger.c\<close>.
  \<^item> \<open>Example\<close> holds the small concrete systems to which witnesses apply theorems; \<open>Kernel_Props\<close>,
    \<open>Process_Props\<close>, \<open>Error_Props\<close>, \<open>Shm_Props\<close> and this theory hold the properties.

  \<^bold>\<open>What is shown.\<close> The kernel's data stay consistent and every call ends, from any consistent
  state and for any sequence of events (\<open>kernel_invariant\<close>, \<open>kernel_progress\<close>); the state that the
  boot code leaves is one (\<open>boot_establishes_invariant\<close>). The guard
  \<open>permitted\<close> excludes what the code does not survive: an end of a process whose father waits
  for another child (\<open>waitpid_wrong_child\<close> shows the panic), a \<^verbatim>\<open>start\<close> that gives the pid of a
  finished process to one that runs at once, the deletion or reset of a message queue on which
  a process waits that \<^verbatim>\<open>start\<close> has not returned from, a \<^verbatim>\<open>start\<close> or shared-memory call for which
  there is no memory (\<open>virtual_malloc_free\<close> and \<open>shm_create_acquire\<close> say how much is enough), an
  unknown call number, and a hash table of half a billion slots. On top of it: scheduling by
  priority, semaphore counters, message order, collection of children, page tables, shared
  pages; the errors each call reports; and the functional correctness of the library routines.

  \<^bold>\<open>Termination.\<close> No definition uses fuel. Loops that need not end are \<open>partial_function (option)\<close>
  (probing a hash table, walking links, scanning strings, adjusting a quotient) and are proved to
  return where a property says so; the others have termination proofs.

  \<^bold>\<open>Not modelled.\<close> The heap allocator (\<^verbatim>\<open>shared/malloc.c\<close>, vendored): a block is a fresh address.
  The table of user programs, generated at build time, is the parameter
  \<open>kparams\<close>; the addresses of the linker script are \<open>layout\<close> and \<open>cpu_layout\<close>. The entry from the boot
  loader (\<^verbatim>\<open>kernel/boot/crt0.S\<close>), calls of the BIOS and single instructions. The pages that \<^verbatim>\<open>early_mm.c\<close> maps read-only count as writable for the kernel
  (\<open>kmapped\<close>): no modelled operation writes to them. Translation look-aside buffers, and user code itself: a process is whatever
  calls it makes. \<^verbatim>\<open>malloc\<close> failing, and stack overflow, are not considered. Of the 5,600 lines of \<^verbatim>\<open>malloc.c\<close> the kernel relies on
  \<^verbatim>\<open>malloc\<close> and \<^verbatim>\<open>free\<close> alone; \<^verbatim>\<open>sbrk\<close> below it is modelled (\<open>User_Lib\<close>).

  \<^bold>\<open>Limits.\<close> The guard \<open>permitted\<close> asks for memory before a \<^verbatim>\<open>start\<close>; an invariant on the page tables of
  all processes would make the condition one on the number of free blocks (\<open>Start_Memory\<close> has its
  steps).
\<close>

section \<open>The kernel as a whole\<close>









section \<open>The clock\<close>

text \<open>
  Whenever the number of ticks is a whole number of seconds, the timer interrupt leaves the
  time since boot in the clock, modulo 256 hours.
\<close>

theorem clock_tells_time:
  assumes "clock_frequency c \<noteq> 0" "tc mod clock_frequency c = 0"
  shows "unat (hours (update_time tc c)) * 3600 + unat (minutes (update_time tc c)) * 60 + unat (seconds (update_time tc c)) =
      unat (tc div clock_frequency c) mod (256 * 3600) \<and>
    minutes (update_time tc c) < 60 \<and> seconds (update_time tc c) < 60"
proof -
  let ?t = "unat (tc div clock_frequency c)"
  have u: "unat (ucast w :: u8) = unat w mod 256" for w :: u32
    by (simp add: unsigned_ucast_eq take_bit_eq_mod)
  have h: "unat (hours (update_time tc c)) = (?t div 3600) mod 256"
    and m: "unat (minutes (update_time tc c)) = (?t mod 3600) div 60"
    and s: "unat (seconds (update_time tc c)) = (?t mod 3600) mod 60"
  proof -
    have "(?t mod 3600) div 60 < 60" by (simp add: div_less_iff_less_mult)
    moreover have "(?t mod 3600) mod 60 < 60" by simp
    ultimately show "unat (hours (update_time tc c)) = (?t div 3600) mod 256"
      "unat (minutes (update_time tc c)) = (?t mod 3600) div 60" "unat (seconds (update_time tc c)) = (?t mod 3600) mod 60"
      using assms(2) by (simp_all add: update_time_def Let_def u unat_div unat_mod)
  qed
  have "(?t div 3600) mod 256 * 3600 + ?t mod 3600 = ?t mod (256 * 3600)"
    using mod_mult2_eq [of ?t 3600 256] by (simp add: mult.commute)
  moreover have "(?t mod 3600) div 60 * 60 + (?t mod 3600) mod 60 = ?t mod 3600" by simp
  ultimately show ?thesis unfolding word_less_nat_alt h m s by (simp add: div_less_iff_less_mult add.assoc)
qed

theorem clock_tells_time_witness: "minutes (update_time 24200 (ck ex_sys)) = 2 \<and> seconds (update_time 24200 (ck ex_sys)) = 1"
  using clock_tells_time [of "ck ex_sys" 24200] by (simp add: ex_sys_def update_time_def)

end
